(* ===== verification/Prelude.thy ===== *)
theory Prelude
  imports Main "HOL-Library.Word" "HOL-Library.Monad_Syntax"
begin

text \<open>
  Shared vocabulary of the development: the machine types of the C sources (64-bit targets,
  little endian), the option monad in which a model that reaches undefined behaviour or a
  faulting load has the value \<^term>\<open>None\<close>, and the generic facts on lists, options and words
  that every component uses.
\<close>

unbundle bit_operations_syntax

type_synonym byte = "8 word"
type_synonym u16 = "16 word"
type_synonym u32 = "32 word"
type_synonym u64 = "64 word"

text \<open>Rewrite rules that unfold the straight-line code of a component.\<close>
named_theorems code_defs

text \<open>Introduction rules for the invariants of the components.\<close>
named_theorems inv_intros

section \<open>Options\<close>

lemma bind_SomeE:
  assumes "Option.bind m f = Some y"
  obtains x where "m = Some x" "f x = Some y"
  using assms by (cases m) auto

lemma bind_Some_iff: "Option.bind m f = Some y \<longleftrightarrow> (\<exists>x. m = Some x \<and> f x = Some y)"
  by (cases m) auto

text \<open>The branches of a nested conditional that returns a value.\<close>

lemma if_SomeE:
  assumes "(if c then Some a else x) = Some y"
  obtains (yes) "c" "y = a" | (no) "x = Some y"
  using assms by (cases c) auto

section \<open>Words\<close>

lemma unat_byte_less: "unat (b::byte) < 256"
  using unsigned_less[of b, where 'a=nat] by simp

lemma unat_u64_less: "unat (w::u64) < 256 ^ 8"
  using unsigned_less[of w, where 'a=nat] by simp

lemma unat_u32_less: "unat (w::u32) < 256 ^ 4"
  using unsigned_less[of w, where 'a=nat] by simp

lemma unat_ucast_up: "LENGTH('a) \<le> LENGTH('b) \<Longrightarrow> unat (ucast (w::'a::len word) :: 'b::len word) = unat w"
proof -
  assume le: "LENGTH('a) \<le> LENGTH('b)"
  have "unat w < 2 ^ LENGTH('a)" by (rule unsigned_less)
  also have "(2::nat) ^ LENGTH('a) \<le> 2 ^ LENGTH('b)" using le by (rule power_increasing) simp
  finally show ?thesis by (simp add: unsigned_ucast_eq take_bit_nat_eq_self)
qed

section \<open>Little-endian byte strings\<close>

text \<open>The number a byte string denotes, least significant byte first, and its fixed-width view.\<close>

fun le_nat :: "byte list \<Rightarrow> nat" where
  "le_nat [] = 0"
| "le_nat (b # bs) = unat b + 256 * le_nat bs"

definition le_word :: "byte list \<Rightarrow> 'a::len word" where
  "le_word bs = word_of_nat (le_nat bs)"

text \<open>The bytes of a number, the inverse direction.\<close>

fun le_bytes :: "nat \<Rightarrow> nat \<Rightarrow> byte list" where
  "le_bytes 0 x = []"
| "le_bytes (Suc n) x = word_of_nat (x mod 256) # le_bytes n (x div 256)"

lemma length_le_bytes [simp]: "length (le_bytes n x) = n"
  by (induction n arbitrary: x) auto

lemma le_nat_less: "le_nat bs < 256 ^ length bs"
proof (induction bs)
  case (Cons b bs)
  have "unat b < 256" by (rule unat_byte_less)
  with Cons show ?case by simp
qed simp

lemma le_nat_le_bytes: "le_nat (le_bytes n x) = x mod 256 ^ n"
proof (induction n arbitrary: x)
  case (Suc n)
  have "unat (word_of_nat (x mod 256) :: byte) = x mod 256"
    by (simp add: unat_of_nat)
  then show ?case
    using Suc[of "x div 256"] by (simp add: mod_mult2_eq)
qed simp

lemma le_bytes_le_nat: "le_bytes (length bs) (le_nat bs) = bs"
proof (induction bs)
  case (Cons b bs)
  have "unat b < 256" by (rule unat_byte_less)
  then show ?case using Cons by simp
qed simp

lemma le_nat_append: "le_nat (xs @ ys) = le_nat xs + 256 ^ length xs * le_nat ys"
  by (induction xs) (auto simp: algebra_simps)

lemma unat_le_word:
  assumes "256 ^ length bs \<le> (2::nat) ^ LENGTH('a)"
  shows "unat (le_word bs :: 'a::len word) = le_nat bs"
proof -
  have "le_nat bs < 2 ^ LENGTH('a)" using le_nat_less[of bs] assms by linarith
  then show ?thesis by (simp add: le_word_def unat_of_nat)
qed

lemma le_word_le_bytes64: "le_word (le_bytes 8 (unat (w::u64))) = w"
proof -
  have "unat w < 256 ^ 8" by (rule unat_u64_less)
  then show ?thesis by (simp add: le_word_def le_nat_le_bytes)
qed

lemma le_word_le_bytes32: "le_word (le_bytes 4 (unat (w::u32))) = w"
proof -
  have "unat w < 256 ^ 4" by (rule unat_u32_less)
  then show ?thesis by (simp add: le_word_def le_nat_le_bytes)
qed

end
