(* ===== verification/Task_Memory.thy ===== *)
theory Task_Memory
  imports Prelude
begin

text \<open>
  The address space the crash handler runs in.  A plain C load of a mapped byte succeeds, a load of
  an unmapped one faults (\<^term>\<open>None\<close>).  The kernel call \<open>vm_read_overwrite\<close>, which is not
  part of the repository, is the field \<open>vm_read\<close>; what the code relies on is the locale
  \<open>task_memory\<close>.  Pointer arithmetic that leaves the 64-bit address space is undefined in C
  and is \<^term>\<open>None\<close> too.
\<close>

record task =
  deref :: "u64 \<Rightarrow> byte option"
  vm_read :: "u64 \<Rightarrow> nat \<Rightarrow> byte list option"

definition FIRCLSIsValidPointer :: "u64 \<Rightarrow> bool" where
  "FIRCLSIsValidPointer x \<longleftrightarrow> x \<ge> 4096"

fun load_bytes :: "task \<Rightarrow> u64 \<Rightarrow> nat \<Rightarrow> byte list option" where
  "load_bytes t p 0 = Some []"
| "load_bytes t p (Suc n) = do {
     b \<leftarrow> deref t p;
     bs \<leftarrow> load_bytes t (p + 1) n;
     Some (b # bs) }"

definition ptr_add :: "u64 \<Rightarrow> nat \<Rightarrow> u64 option" where
  "ptr_add p n = (if unat p + n < 2 ^ 64 then Some (p + word_of_nat n) else None)"

text \<open>\<open>FIRCLSReadMemory\<close>: the bytes copied to \<open>dest\<close>, or \<^term>\<open>None\<close> for the
  return value \<open>false\<close>.\<close>

definition FIRCLSReadMemory :: "task \<Rightarrow> u64 \<Rightarrow> nat \<Rightarrow> byte list option" where
  "FIRCLSReadMemory t src len = (if \<not> FIRCLSIsValidPointer src then None else vm_read t src len)"

text \<open>\<open>holds t p bs\<close>: the mapped memory from \<open>p\<close> on starts with \<open>bs\<close>.\<close>

definition holds :: "task \<Rightarrow> u64 \<Rightarrow> byte list \<Rightarrow> bool" where
  "holds t p bs \<longleftrightarrow> load_bytes t p (length bs) = Some bs"

lemma load_bytes_length: "load_bytes t p n = Some bs \<Longrightarrow> length bs = n"
  by (induction n arbitrary: p bs) (auto simp: bind_Some_iff)

lemma load_bytes_holds: "load_bytes t p n = Some bs \<Longrightarrow> holds t p bs"
  using load_bytes_length by (fastforce simp: holds_def)

lemma holds_Nil [simp]: "holds t p []"
  by (simp add: holds_def)

lemma holds_Cons: "holds t p (b # bs) \<longleftrightarrow> deref t p = Some b \<and> holds t (p + 1) bs"
  by (auto simp: holds_def bind_Some_iff)

lemma holds_append:
  "holds t p (xs @ ys) \<longleftrightarrow> holds t p xs \<and> holds t (p + word_of_nat (length xs)) ys"
  by (induction xs arbitrary: p) (auto simp: holds_Cons algebra_simps)

lemma holds_load: "holds t p bs \<Longrightarrow> n = length bs \<Longrightarrow> load_bytes t p n = Some bs"
  by (simp add: holds_def)

lemma ptr_add_Some: "ptr_add p n = Some q \<longleftrightarrow> unat p + n < 2 ^ 64 \<and> q = p + word_of_nat n"
  by (auto simp: ptr_add_def)

lemma unat_ptr_add: "ptr_add p n = Some q \<Longrightarrow> unat q = unat p + n"
  by (auto simp: ptr_add_Some unat_word_ariths unat_of_nat)

text \<open>The contract of the kernel's read: it copies exactly the mapped bytes, and it succeeds on
  every mapped range.\<close>

locale task_memory =
  fixes t :: task
  assumes vm_read_sound: "vm_read t p n = Some bs \<Longrightarrow> load_bytes t p n = Some bs"
    and vm_read_complete: "load_bytes t p n = Some bs \<Longrightarrow> vm_read t p n = Some bs"
begin

lemma vm_read_load: "vm_read t p n = load_bytes t p n"
  using vm_read_sound vm_read_complete by (metis not_None_eq)

lemma read_memory_holds:
  "FIRCLSReadMemory t p n = Some bs \<longleftrightarrow> FIRCLSIsValidPointer p \<and> length bs = n \<and> holds t p bs"
  using load_bytes_length load_bytes_holds
  by (auto simp: FIRCLSReadMemory_def vm_read_load holds_def split: if_splits)

end

text \<open>A task given by its map of readable bytes, with the documented behaviour of the kernel's
  read on it: the model on which the contract is discharged and the witnesses run.\<close>

fun read_map :: "(u64 \<Rightarrow> byte option) \<Rightarrow> u64 \<Rightarrow> nat \<Rightarrow> byte list option" where
  "read_map m p 0 = Some []"
| "read_map m p (Suc n) = do {
     b \<leftarrow> m p;
     bs \<leftarrow> read_map m (p + 1) n;
     Some (b # bs) }"

definition flat_task :: "(u64 \<Rightarrow> byte option) \<Rightarrow> task" where
  "flat_task m = \<lparr>deref = m, vm_read = read_map m\<rparr>"

lemma deref_flat_task [simp]: "deref (flat_task m) = m"
  by (simp add: flat_task_def)

lemma load_bytes_flat_task: "load_bytes (flat_task m) p n = read_map m p n"
  by (induction n arbitrary: p) (auto simp: flat_task_def)

interpretation flat: task_memory "flat_task m" for m
  by unfold_locales (simp_all add: load_bytes_flat_task, simp_all add: flat_task_def)

text \<open>Memory with one contiguous block of bytes.\<close>

definition block :: "u64 \<Rightarrow> byte list \<Rightarrow> u64 \<Rightarrow> byte option" where
  "block base bs p = (let i = unat (p - base) in if i < length bs then Some (bs ! i) else None)"

lemma holds_nth:
  "holds t p bs \<longleftrightarrow> (\<forall>i < length bs. deref t (p + word_of_nat i) = Some (bs ! i))"
proof (induction bs arbitrary: p)
  case (Cons b bs)
  show ?case by (auto simp: holds_Cons Cons less_Suc_eq_0_disj add.assoc)
qed simp

lemma holds_block: "length bs \<le> 2 ^ 64 \<Longrightarrow> holds (flat_task (block p bs)) p bs"
  by (simp add: holds_nth block_def unat_of_nat)

lemma holds_block_infix:
  assumes "length (xs @ ys @ zs) \<le> 2 ^ 64"
  shows "holds (flat_task (block p (xs @ ys @ zs))) (p + word_of_nat (length xs)) ys"
  using holds_block [OF assms, of p] holds_append by blast

lemma holds_block_prefix:
  "length (xs @ ys) \<le> 2 ^ 64 \<Longrightarrow> holds (flat_task (block p (xs @ ys))) p xs"
  using holds_block_infix [of "[]" xs ys p] by simp

lemma load_block:
  assumes "length bs \<le> 2 ^ 64" "i + n \<le> length bs"
  shows "load_bytes (flat_task (block p bs)) (p + word_of_nat i) n = Some (take n (drop i bs))"
proof -
  have eq: "bs = take i bs @ take n (drop i bs) @ drop (i + n) bs"
    by (metis append_take_drop_id drop_drop add.commute)
  have "holds (flat_task (block p bs)) (p + word_of_nat (length (take i bs))) (take n (drop i bs))"
    using holds_block_infix [of "take i bs" "take n (drop i bs)" "drop (i + n) bs" p] assms eq
    by (metis length_append)
  then show ?thesis using assms holds_load by (metis (no_types, lifting) add_leD1 diff_add_inverse
        length_drop length_take min.absorb2 le_diff_conv2 add.commute)
qed

end
