(* ===== verification/Data_Parsing.thy ===== *)
theory Data_Parsing
  imports Task_Memory
begin

text \<open>
  \<open>FIRCLSDataParsing.c\<close>: the readers of the DWARF data.  The C functions take
  \<open>const void** cursor\<close>, dereference the cursor with plain loads and advance it; here a reader
  maps the task and the cursor to the value and the new cursor, and is \<^term>\<open>None\<close> where the C
  program faults or its behaviour is undefined (an unmapped byte, a cursor past the end of the
  address space, a shift that does not fit \<open>int\<close>).  The values keep the C types' widths.
\<close>

section \<open>The readers\<close>

definition parse_bytes :: "task \<Rightarrow> u64 \<Rightarrow> nat \<Rightarrow> (byte list \<times> u64) option" where
  "parse_bytes t cursor n = do {
     bs \<leftarrow> load_bytes t cursor n;
     cursor' \<leftarrow> ptr_add cursor n;
     Some (bs, cursor') }"

definition FIRCLSParseUint8AndAdvance :: "task \<Rightarrow> u64 \<Rightarrow> (byte \<times> u64) option" where
  "FIRCLSParseUint8AndAdvance t cursor = do {
     tmp \<leftarrow> deref t cursor;
     cursor' \<leftarrow> ptr_add cursor 1;
     Some (tmp, cursor') }"

definition FIRCLSParseUint16AndAdvance :: "task \<Rightarrow> u64 \<Rightarrow> (u16 \<times> u64) option" where
  "FIRCLSParseUint16AndAdvance t cursor = do {
     (bs, cursor') \<leftarrow> parse_bytes t cursor 2;
     Some (le_word bs, cursor') }"

definition FIRCLSParseInt16AndAdvance :: "task \<Rightarrow> u64 \<Rightarrow> (u16 \<times> u64) option" where
  "FIRCLSParseInt16AndAdvance t cursor = do {
     (bs, cursor') \<leftarrow> parse_bytes t cursor 2;
     Some (le_word bs, cursor') }"

definition FIRCLSParseUint32AndAdvance :: "task \<Rightarrow> u64 \<Rightarrow> (u32 \<times> u64) option" where
  "FIRCLSParseUint32AndAdvance t cursor = do {
     (bs, cursor') \<leftarrow> parse_bytes t cursor 4;
     Some (le_word bs, cursor') }"

definition FIRCLSParseInt32AndAdvance :: "task \<Rightarrow> u64 \<Rightarrow> (u32 \<times> u64) option" where
  "FIRCLSParseInt32AndAdvance t cursor = do {
     (bs, cursor') \<leftarrow> parse_bytes t cursor 4;
     Some (le_word bs, cursor') }"

definition FIRCLSParseUint64AndAdvance :: "task \<Rightarrow> u64 \<Rightarrow> (u64 \<times> u64) option" where
  "FIRCLSParseUint64AndAdvance t cursor = do {
     (bs, cursor') \<leftarrow> parse_bytes t cursor 8;
     Some (le_word bs, cursor') }"

definition FIRCLSParseInt64AndAdvance :: "task \<Rightarrow> u64 \<Rightarrow> (u64 \<times> u64) option" where
  "FIRCLSParseInt64AndAdvance t cursor = do {
     (bs, cursor') \<leftarrow> parse_bytes t cursor 8;
     Some (le_word bs, cursor') }"

definition FIRCLSParsePointerAndAdvance :: "task \<Rightarrow> u64 \<Rightarrow> (u64 \<times> u64) option" where
  "FIRCLSParsePointerAndAdvance t cursor = do {
     (bs, cursor') \<leftarrow> parse_bytes t cursor 8;
     Some (le_word bs, cursor') }"

text \<open>\<open>v << shift\<close> on a non-negative \<open>int\<close>, converted to 64 bits: undefined in C unless the shift
  is below 32 and the result fits a positive \<open>int\<close>.\<close>

definition shl_int :: "byte \<Rightarrow> nat \<Rightarrow> u64 option" where
  "shl_int v shift =
     (if shift < 32 \<and> unat v * 2 ^ shift < 2 ^ 31 then Some (word_of_nat (unat v * 2 ^ shift))
      else None)"

text \<open>The loop of the ULEB128 reader; the first argument is the number of rounds left of
  \<open>i < sizeof(uint64_t)\<close>.\<close>

fun uleb_loop :: "task \<Rightarrow> nat \<Rightarrow> nat \<Rightarrow> u64 \<Rightarrow> u64 \<Rightarrow> (u64 \<times> u64) option" where
  "uleb_loop t 0 shift result cursor = Some (result, cursor)"
| "uleb_loop t (Suc k) shift result cursor = do {
     byte \<leftarrow> deref t cursor;
     cursor' \<leftarrow> ptr_add cursor 1;
     v \<leftarrow> shl_int (0x7F AND byte) shift;
     let result' = result OR v;
     if 0x80 AND byte = 0 then Some (result', cursor')
     else uleb_loop t k (shift + 7) result' cursor' }"

definition FIRCLSParseULEB128AndAdvance :: "task \<Rightarrow> u64 \<Rightarrow> (u64 \<times> u64) option" where
  "FIRCLSParseULEB128AndAdvance t cursor = uleb_loop t 8 0 0 cursor"

text \<open>The loop of the LEB128 reader returns the accumulated bits, the shift, the last byte and
  the cursor.\<close>

fun leb_loop :: "task \<Rightarrow> nat \<Rightarrow> nat \<Rightarrow> u64 \<Rightarrow> byte \<Rightarrow> u64 \<Rightarrow> (u64 \<times> nat \<times> byte \<times> u64) option" where
  "leb_loop t 0 shift result byte cursor = Some (result, shift, byte, cursor)"
| "leb_loop t (Suc k) shift result _ cursor = do {
     byte \<leftarrow> deref t cursor;
     cursor' \<leftarrow> ptr_add cursor 1;
     v \<leftarrow> shl_int (0x7F AND byte) shift;
     let result' = result OR v;
     if 0x80 AND byte = 0 then Some (result', shift + 7, byte, cursor')
     else leb_loop t k (shift + 7) result' byte cursor' }"

text \<open>The sign extension computes \<open>-(1 << shift)\<close> in \<open>int\<close>, which is undefined for a shift
  above 30.\<close>

definition leb_finish :: "u64 \<times> nat \<times> byte \<times> u64 \<Rightarrow> (u64 \<times> u64) option" where
  "leb_finish = (\<lambda>(result, shift, byte, cursor').
     if shift < 64 \<and> 0x40 AND byte \<noteq> 0
     then do { one \<leftarrow> shl_int 1 shift; Some (result OR - one, cursor') }
     else Some (result, cursor'))"

definition FIRCLSParseLEB128AndAdvance :: "task \<Rightarrow> u64 \<Rightarrow> (u64 \<times> u64) option" where
  "FIRCLSParseLEB128AndAdvance t cursor = Option.bind (leb_loop t 8 0 0 0 cursor) leb_finish"

text \<open>\<open>strlen\<close> of the C library, on the task's memory.\<close>

function c_strlen :: "task \<Rightarrow> u64 \<Rightarrow> nat option" where
  "c_strlen t s =
     (case deref t s of
        None \<Rightarrow> None
      | Some b \<Rightarrow>
          if b = 0 then Some 0
          else if unat s + 1 < 2 ^ 64 then map_option Suc (c_strlen t (s + 1)) else None)"
  by pat_completeness auto
termination
proof (relation "measure (\<lambda>(t, s). 2 ^ 64 - unat s)")
  fix t :: task and s :: u64 and b :: byte
  assume "unat s + 1 < (2::nat) ^ 64"
  then have "unat (s + 1) = unat s + 1" by (simp add: unat_word_ariths)
  with \<open>unat s + 1 < (2::nat) ^ 64\<close>
  show "((t, s + 1), (t, s)) \<in> measure (\<lambda>(t, s). 2 ^ 64 - unat s)"
    by simp
qed simp

declare c_strlen.simps [simp del]

text \<open>The string is returned as its address; the cursor moves past the terminating null.\<close>

definition FIRCLSParseStringAndAdvance :: "task \<Rightarrow> u64 \<Rightarrow> (u64 \<times> u64) option" where
  "FIRCLSParseStringAndAdvance t cursor = do {
     n \<leftarrow> c_strlen t cursor;
     cursor' \<leftarrow> ptr_add cursor (n + 1);
     Some (cursor, cursor') }"

definition DWARF_EXTENDED_LENGTH_FLAG :: u32 where
  "DWARF_EXTENDED_LENGTH_FLAG = 0xffffffff"

definition FIRCLSParseRecordLengthAndAdvance :: "task \<Rightarrow> u64 \<Rightarrow> (u64 \<times> u64) option" where
  "FIRCLSParseRecordLengthAndAdvance t cursor = do {
     (len, cursor') \<leftarrow> FIRCLSParseUint32AndAdvance t cursor;
     if len = DWARF_EXTENDED_LENGTH_FLAG then FIRCLSParseUint64AndAdvance t cursor'
     else Some (ucast len, cursor') }"

definition CLS_INVALID_ADDRESS :: u64 where
  "CLS_INVALID_ADDRESS = 0xffffffffffffffff"

definition DW_EH_PE_omit :: byte where "DW_EH_PE_omit = 0xFF"
definition DW_EH_PE_VALUE_MASK :: byte where "DW_EH_PE_VALUE_MASK = 0x0F"
definition DW_EH_PE_RELATIVE_OFFSET_MASK :: byte where "DW_EH_PE_RELATIVE_OFFSET_MASK = 0x70"
definition DW_EH_PE_pcrel :: byte where "DW_EH_PE_pcrel = 0x10"
definition DW_EH_PE_indirect :: byte where "DW_EH_PE_indirect = 0x80"

lemmas DW_EH_PE_defs [code_defs] = DW_EH_PE_omit_def DW_EH_PE_VALUE_MASK_def
  DW_EH_PE_RELATIVE_OFFSET_MASK_def DW_EH_PE_pcrel_def DW_EH_PE_indirect_def

text \<open>The value formats of the first \<open>switch\<close>: \<open>None\<close> of the inner option is the
  \<open>default\<close> branch.\<close>

definition parse_encoded_value :: "task \<Rightarrow> u64 \<Rightarrow> byte \<Rightarrow> ((u64 \<times> u64) option) option" where
  "parse_encoded_value t cursor fmt =
     (if fmt = 0x00 then map_option Some (FIRCLSParsePointerAndAdvance t cursor)
      else if fmt = 0x01 then map_option Some (FIRCLSParseULEB128AndAdvance t cursor)
      else if fmt = 0x02 then
        map_option (\<lambda>(v, c). Some (ucast v, c)) (FIRCLSParseUint16AndAdvance t cursor)
      else if fmt = 0x03 then
        map_option (\<lambda>(v, c). Some (ucast v, c)) (FIRCLSParseUint32AndAdvance t cursor)
      else if fmt = 0x04 then map_option Some (FIRCLSParseUint64AndAdvance t cursor)
      else if fmt = 0x09 then map_option Some (FIRCLSParseLEB128AndAdvance t cursor)
      else if fmt = 0x0A then
        map_option (\<lambda>(v, c). Some (scast v, c)) (FIRCLSParseInt16AndAdvance t cursor)
      else if fmt = 0x0B then
        map_option (\<lambda>(v, c). Some (scast v, c)) (FIRCLSParseInt32AndAdvance t cursor)
      else if fmt = 0x0C then map_option Some (FIRCLSParseInt64AndAdvance t cursor)
      else Some None)"

text \<open>The address reader.  An error return carries the cursor as the C function leaves it.\<close>

definition FIRCLSParseAddressWithEncodingAndAdvance ::
    "task \<Rightarrow> u64 \<Rightarrow> byte \<Rightarrow> (u64 \<times> u64) option" where
  "FIRCLSParseAddressWithEncodingAndAdvance t cursor encoding =
     (if encoding = DW_EH_PE_omit then Some (0, cursor)
      else if cursor = 0 then Some (CLS_INVALID_ADDRESS, cursor)
      else do {
        r \<leftarrow> parse_encoded_value t cursor (encoding AND DW_EH_PE_VALUE_MASK);
        case r of
          None \<Rightarrow> Some (CLS_INVALID_ADDRESS, cursor)
        | Some (v, cursor') \<Rightarrow>
            let rel = encoding AND DW_EH_PE_RELATIVE_OFFSET_MASK;
                addr = (if rel = DW_EH_PE_pcrel then v + cursor else v)
            in if rel \<noteq> 0 \<and> rel \<noteq> DW_EH_PE_pcrel then Some (CLS_INVALID_ADDRESS, cursor')
               else if encoding AND DW_EH_PE_indirect \<noteq> 0 then
                 if addr = 0 then Some (CLS_INVALID_ADDRESS, cursor')
                 else map_option (\<lambda>bs. (le_word bs, cursor')) (load_bytes t addr 8)
               else Some (addr, cursor') })"


section \<open>What the readers must compute: the DWARF encodings\<close>

text \<open>The encoders of the DWARF standard (section 7.6), in their shortest form.\<close>

fun uleb_encode :: "nat \<Rightarrow> byte list" where
  "uleb_encode n =
     (if n < 128 then [word_of_nat n]
      else word_of_nat (n mod 128 + 128) # uleb_encode (n div 128))"
declare uleb_encode.simps [simp del]

function sleb_encode :: "int \<Rightarrow> byte list" where
  "sleb_encode v =
     (if -64 \<le> v \<and> v < 64 then [word_of_nat (nat (v mod 128))]
      else word_of_nat (nat (v mod 128) + 128) # sleb_encode (v div 128))"
  by pat_completeness auto
termination
  by (relation "measure (\<lambda>v. nat \<bar>v\<bar>)") auto
declare sleb_encode.simps [simp del]

section \<open>Bits of a byte and disjoint sums\<close>

lemma or_disjoint_word:
  fixes r :: u64
  assumes "unat r < 2 ^ s" "unat r + m * 2 ^ s < 2 ^ 64"
  shows "unat (r OR word_of_nat (m * 2 ^ s)) = unat r + m * 2 ^ s"
proof -
  have eq: "(word_of_nat (m * 2 ^ s) :: u64) = push_bit s (word_of_nat m)"
    by (simp add: push_bit_eq_mult mult.commute)
  have "unat (take_bit s r) = unat r"
    using assms(1) by (simp add: unsigned_take_bit_eq take_bit_nat_eq_self_iff)
  then have low: "take_bit s r = r" by (simp add: word_unat_eq_iff)
  have "r AND push_bit s (word_of_nat m) = 0"
  proof (rule bit_word_eqI)
    fix n
    show "bit (r AND push_bit s (word_of_nat m)) n = bit (0::u64) n"
      by (subst low [symmetric]) (simp add: bit_simps)
  qed
  then have "r OR word_of_nat (m * 2 ^ s) = r + word_of_nat (m * 2 ^ s)"
    by (simp only: eq disjunctive_add_eq_or)
  moreover have "unat (word_of_nat (m * 2 ^ s) :: u64) = m * 2 ^ s"
    using assms(2) by (simp only: unat_of_nat) simp
  ultimately show ?thesis
    using assms(2) by (simp only: unat_word_ariths) simp
qed

lemma low7: "(0x7F AND (word_of_nat k :: byte)) = word_of_nat (k mod 128)"
proof -
  have "(0x7F AND (word_of_nat k :: byte)) = take_bit 7 (word_of_nat k)"
    by (simp add: take_bit_eq_mask mask_eq_exp_minus_1 and.commute)
  also have "\<dots> = word_of_nat (take_bit 7 k)"
    by (simp only: take_bit_of_nat)
  finally show ?thesis by (simp add: take_bit_eq_mod)
qed

lemma unat_byte_of_nat: "k < 256 \<Longrightarrow> unat (word_of_nat k :: byte) = k"
  by (simp add: unat_of_nat)

lemma high_bit: "k < 256 \<Longrightarrow> (0x80 AND (word_of_nat k :: byte)) = 0 \<longleftrightarrow> k < 128"
proof -
  assume k: "k < 256"
  have "(0x80 :: byte) = push_bit 7 1" by simp
  then have "(0x80 AND (word_of_nat k :: byte)) = 0 \<longleftrightarrow> \<not> bit (word_of_nat k :: byte) 7"
    by (metis and.commute and_exp_eq_0_iff_not_bit push_bit_eq_mult mult_1)
  also have "bit (word_of_nat k :: byte) 7 \<longleftrightarrow> bit (unat (word_of_nat k :: byte)) 7"
    by (simp add: bit_unsigned_iff del: unat_of_nat)
  also have "\<dots> \<longleftrightarrow> odd (k div 128)"
    by (simp only: unat_byte_of_nat [OF k]) (simp add: bit_iff_odd)
  also have "odd (k div 128) \<longleftrightarrow> \<not> k < 128"
  proof -
    have "k div 128 = 0 \<or> k div 128 = 1" using k by auto
    then show ?thesis by (auto simp: div_eq_0_iff)
  qed
  finally show ?thesis by simp
qed

lemma mult_pow2_less: "s \<le> 31 \<Longrightarrow> (q::nat) * 2 ^ s < 2 ^ 31 \<longleftrightarrow> q < 2 ^ (31 - s)"
proof -
  assume "s \<le> 31"
  then have "(2::nat) ^ 31 = 2 ^ (31 - s) * 2 ^ s" by (simp flip: power_add)
  then show ?thesis by (simp only: mult_less_cancel2) simp
qed

lemma div_less_pow2: "7 \<le> j \<Longrightarrow> (n::nat) div 128 < 2 ^ (j - 7) \<longleftrightarrow> n < 2 ^ j"
proof -
  assume "7 \<le> j"
  then have "(2::nat) ^ j = 2 ^ (j - 7) * 128"
    using power_add [of "2::nat" "j - 7" 7] by simp
  then show ?thesis by (simp add: div_less_iff_less_mult)
qed

lemma uleb_loop_encode:
  assumes "7 * k + s = 56" "s \<le> 35" "unat r < 2 ^ s" "n = 0 \<Longrightarrow> s = 0"
    and "holds t c (uleb_encode n)" "unat c + length (uleb_encode n) < 2 ^ 64"
  shows "uleb_loop t k s r c =
    (if n * 2 ^ s < 2 ^ 31
     then Some (word_of_nat (unat r + n * 2 ^ s), c + word_of_nat (length (uleb_encode n)))
     else None)"
  using assms
proof (induction n arbitrary: k s r c rule: uleb_encode.induct)
  case (1 n)
  then obtain k' where k: "k = Suc k'" by (cases k) auto
  define m where "m = n mod 128"
  define e where "e = (if n < 128 then n else n mod 128 + 128)"
  define b :: byte where "b = word_of_nat e"
  have e: "e < 256" "e mod 128 = m" "e < 128 \<longleftrightarrow> n < 128" by (auto simp: e_def m_def)
  have b7: "0x7F AND b = word_of_nat m" "0x80 AND b = 0 \<longleftrightarrow> n < 128"
    unfolding b_def by (simp_all only: low7 high_bit e)
  have enc: "uleb_encode n = b # (if n < 128 then [] else uleb_encode (n div 128))"
    by (subst uleb_encode.simps) (simp add: b_def e_def)
  have mem: "deref t c = Some b" using "1.prems"(5) by (simp add: enc holds_Cons)
  have adv: "ptr_add c (Suc 0) = Some (c + 1)" using "1.prems"(6) by (simp add: enc ptr_add_def)
  have um: "unat (word_of_nat m :: byte) = m" unfolding m_def by (simp add: unat_byte_of_nat)
  show ?case
  proof (cases "s < 32 \<and> m * 2 ^ s < 2 ^ 31")
    case False
    then have "shl_int (word_of_nat m) s = None" by (auto simp: shl_int_def um)
    moreover have "\<not> n * 2 ^ s < 2 ^ 31"
    proof (cases "s < 32")
      case True
      then have "\<not> m * 2 ^ s < 2 ^ 31" using False by blast
      moreover have "m \<le> n" by (simp add: m_def)
      ultimately show ?thesis by (meson le_less_trans mult_le_mono1 not_le)
    next
      case f: False
      then have "n > 0" using "1.prems"(4) by (cases n) auto
      moreover have "(2::nat) ^ 32 \<le> 2 ^ s" using f by (intro power_increasing) auto
      ultimately have "2 ^ 32 \<le> n * 2 ^ s" by (metis One_nat_def Suc_leI le_trans mult_1 mult_le_mono1)
      then show ?thesis by simp
    qed
    ultimately show ?thesis by (simp add: k mem adv b7)
  next
    case True
    then have s: "s \<le> 28" using "1.prems"(1) by presburger
    have shl: "shl_int (word_of_nat m) s = Some (word_of_nat (m * 2 ^ s))"
      using True by (simp only: shl_int_def um simp_thms if_True)
    define r' where "r' = r OR word_of_nat (m * 2 ^ s)"
    have sb: "(2::nat) ^ s \<le> 2 ^ 28" using s by (intro power_increasing) auto
    have ur: "unat r' = unat r + m * 2 ^ s"
      unfolding r'_def using True "1.prems"(3) sb by (intro or_disjoint_word) auto
    show ?thesis
    proof (cases "n < 128")
      case n: True
      then have "m = n" by (simp add: m_def)
      moreover have "r' = word_of_nat (unat r + m * 2 ^ s)" by (simp only: flip: ur) simp
      ultimately show ?thesis using n True shl
        by (simp add: k mem adv b7 enc r'_def)
    next
      case n: False
      have ex: "n = 128 * (n div 128) + m" by (simp add: m_def)
      have "unat r' < 2 ^ (s + 7)"
      proof -
        have "m * 2 ^ s \<le> 127 * 2 ^ s" by (rule mult_le_mono1) (simp add: m_def)
        then have "unat r' < 128 * 2 ^ s" using "1.prems"(3) ur by linarith
        then show ?thesis by (simp add: power_add)
      qed
      moreover have "holds t (c + 1) (uleb_encode (n div 128))"
        using "1.prems"(5) n by (simp add: enc holds_Cons)
      moreover have "unat (c + 1) = unat c + 1"
        using unat_ptr_add [OF adv] by simp
      ultimately have rec: "uleb_loop t k' (s + 7) r' (c + 1) =
        (if (n div 128) * 2 ^ (s + 7) < 2 ^ 31
         then Some (word_of_nat (unat r' + (n div 128) * 2 ^ (s + 7)),
                    c + 1 + word_of_nat (length (uleb_encode (n div 128))))
         else None)"
        using "1.prems" n k s by (intro "1.IH") (auto simp: enc)
      have sum: "unat r' + (n div 128) * 2 ^ (s + 7) = unat r + n * 2 ^ s"
        by (subst (2) ex) (simp add: ur power_add algebra_simps)
      have bnd: "(n div 128) * 2 ^ (s + 7) < 2 ^ 31 \<longleftrightarrow> n * 2 ^ s < 2 ^ 31"
      proof (cases "s \<le> 24")
        case True
        then show ?thesis
          using mult_pow2_less [of "s + 7" "n div 128"] mult_pow2_less [of s n]
            div_less_pow2 [of "31 - s" n] by simp
      next
        case False
        have p: "(2::nat) ^ 32 \<le> 2 ^ (s + 7)" "(2::nat) ^ 25 \<le> 2 ^ s"
          using False by (intro power_increasing; simp)+
        have q: "1 \<le> n div 128" "128 \<le> n" using n by (simp_all add: Suc_le_eq div_greater_zero_iff)
        show ?thesis
          using mult_le_mono [OF q(1) p(1)] mult_le_mono [OF q(2) p(2)] by simp
      qed
      have "uleb_loop t k s r c = uleb_loop t k' (s + 7) r' (c + 1)"
        using n shl by (simp add: k mem adv b7 r'_def)
      then show ?thesis using n
        by (simp only: rec bnd sum enc) (simp add: algebra_simps)
    qed
  qed
qed

lemma or_minus_exp:
  fixes x :: u64
  assumes "unat x < 2 ^ j"
  shows "x OR - word_of_nat (2 ^ j) = x - 2 ^ j"
proof -
  have "unat (take_bit j x) = unat x"
    using assms by (simp add: unsigned_take_bit_eq take_bit_nat_eq_self_iff)
  then have low: "take_bit j x = x" by (simp add: word_unat_eq_iff)
  have "x AND NOT (mask j) = 0"
    by (subst low [symmetric]) (simp add: take_bit_eq_mask and.assoc)
  then have "x + NOT (mask j) = x OR NOT (mask j)" by (rule disjunctive_add_eq_or)
  then show ?thesis by (simp flip: minus_exp_eq_not_mask)
qed

lemma bit6: "k < 128 \<Longrightarrow> (0x40 AND (word_of_nat k :: byte)) \<noteq> 0 \<longleftrightarrow> 64 \<le> k"
proof -
  assume k: "k < 128"
  have "(0x40 :: byte) = push_bit 6 1" by simp
  then have "(0x40 AND (word_of_nat k :: byte)) = 0 \<longleftrightarrow> \<not> bit (word_of_nat k :: byte) 6"
    by (metis and.commute and_exp_eq_0_iff_not_bit push_bit_eq_mult mult_1)
  also have "bit (word_of_nat k :: byte) 6 \<longleftrightarrow> bit (unat (word_of_nat k :: byte)) 6"
    by (simp add: bit_unsigned_iff del: unat_of_nat)
  also have "\<dots> \<longleftrightarrow> odd (k div 64)"
    using k by (simp add: unat_byte_of_nat bit_iff_odd)
  also have "odd (k div 64) \<longleftrightarrow> \<not> k < 64"
  proof -
    have "k div 64 = 0 \<or> k div 64 = 1" using k by auto
    then show ?thesis by (auto simp: div_eq_0_iff)
  qed
  finally show ?thesis by auto
qed

lemma sign_of_byte: "-64 \<le> v \<Longrightarrow> v < 64 \<Longrightarrow> (64 \<le> nat (v mod 128)) \<longleftrightarrow> v < (0::int)"
proof -
  assume v: "-64 \<le> v" "v < 64"
  show ?thesis
  proof (cases "v < 0")
    case True
    have "v mod 128 = (v + 128) mod 128" by simp
    also have "\<dots> = v + 128" using v True by (intro mod_pos_pos_trivial) auto
    finally show ?thesis using v True by simp
  next
    case False
    then show ?thesis using v by (simp add: mod_pos_pos_trivial)
  qed
qed

lemma sleb_encode_Cons: "\<exists>b bs. sleb_encode v = b # bs"
  by (subst sleb_encode.simps) auto

lemma leb_range:
  fixes q w :: int
  assumes "0 \<le> w" "w < 128" "\<not> (-64 \<le> 128 * q + w \<and> 128 * q + w < 64)" "s = 0 \<or> s = 7 \<or> s = 14 \<or> s = (21::nat)"
  shows "(- (2 ^ 27) \<le> q * 2 ^ (s + 7) \<and> q * 2 ^ (s + 7) < 2 ^ 31) \<longleftrightarrow>
    (- (2 ^ 27) \<le> (128 * q + w) * 2 ^ s \<and> (128 * q + w) * 2 ^ s < 2 ^ 31)"
  using assms(4)
proof (elim disjE)
  assume s: "s = 0"
  show ?thesis using assms(1-3) unfolding s by simp arith
next
  assume s: "s = 7"
  show ?thesis using assms(1-3) unfolding s by simp arith
next
  assume s: "s = 14"
  show ?thesis using assms(1-3) unfolding s by simp arith
next
  assume s: "s = 21"
  show ?thesis using assms(1-3) unfolding s by simp arith
qed

lemma leb_loop_encode:
  assumes "7 * k + s = 56" "s \<le> 28" "unat r < 2 ^ s"
    and "holds t c (sleb_encode v)" "unat c + length (sleb_encode v) < 2 ^ 64"
  shows "Option.bind (leb_loop t k s r b0 c) leb_finish =
    (if - (2 ^ 27) \<le> v * 2 ^ s \<and> v * 2 ^ s < 2 ^ 31
     then Some (r + word_of_int (v * 2 ^ s), c + word_of_nat (length (sleb_encode v)))
     else None)"
  using assms
proof (induction v arbitrary: k s r b0 c rule: sleb_encode.induct)
  case (1 v)
  define fin where "fin \<longleftrightarrow> -64 \<le> v \<and> v < 64"
  define m where "m = nat (v mod 128)"
  define e where "e = (if fin then m else m + 128)"
  define b :: byte where "b = word_of_nat e"
  obtain k' where k: "k = Suc k'" using "1.prems"(1,2) by (cases k) auto
  have m: "m < 128" "int m = v mod 128" by (simp_all add: m_def nat_less_iff)
  have e: "e < 256" "e mod 128 = m" "e < 128 \<longleftrightarrow> fin" using m by (auto simp: e_def)
  have b7: "0x7F AND b = word_of_nat m" "0x80 AND b = 0 \<longleftrightarrow> fin"
    unfolding b_def by (simp_all only: low7 high_bit e)
  have enc: "sleb_encode v = b # (if fin then [] else sleb_encode (v div 128))"
    by (subst sleb_encode.simps) (auto simp: b_def e_def fin_def m_def)
  have mem: "deref t c = Some b" using "1.prems"(4) by (simp add: enc holds_Cons)
  have adv: "ptr_add c (Suc 0) = Some (c + 1)" using "1.prems"(5) by (simp add: enc ptr_add_def)
  have um: "unat (word_of_nat m :: byte) = m" using m by (simp add: unat_byte_of_nat)
  have sc: "s = 0 \<or> s = 7 \<or> s = 14 \<or> s = 21 \<or> s = 28" using "1.prems"(1,2) by presburger
  show ?case
  proof (cases "m * 2 ^ s < 2 ^ 31")
    case False
    then have "shl_int (word_of_nat m) s = None" by (simp add: shl_int_def um)
    moreover have "\<not> (- (2 ^ 27) \<le> v * 2 ^ s \<and> v * 2 ^ s < 2 ^ 31)"
      using False sc m by (elim disjE) (auto simp: m_def)
    ultimately show ?thesis by (simp add: k mem adv b7)
  next
    case True
    have shl: "shl_int (word_of_nat m) s = Some (word_of_nat (m * 2 ^ s))"
      using True "1.prems"(2) by (simp only: shl_int_def um) simp
    define r' where "r' = r OR word_of_nat (m * 2 ^ s)"
    have sb: "(2::nat) ^ s \<le> 2 ^ 28" using "1.prems"(2) by (intro power_increasing) auto
    have ur: "unat r' = unat r + m * 2 ^ s"
      unfolding r'_def using True "1.prems"(3) sb by (intro or_disjoint_word) auto
    have r': "r' = r + word_of_int (v mod 128 * 2 ^ s)"
    proof -
      have "r' = word_of_nat (unat r + m * 2 ^ s)" by (simp only: flip: ur) simp
      then show ?thesis by (simp flip: m(2))
    qed
    have rb: "unat r' < 2 ^ (s + 7)"
    proof -
      have "m * 2 ^ s \<le> 127 * 2 ^ s" by (rule mult_le_mono1) (use m in simp)
      then have "unat r' < 128 * 2 ^ s" using "1.prems"(3) ur by linarith
      then show ?thesis by (simp add: power_add)
    qed
    show ?thesis
    proof (cases fin)
      case f: True
      then have b: "0x40 AND b \<noteq> 0 \<longleftrightarrow> v < 0"
        using m bit6 [of m] sign_of_byte [of v] by (simp add: b_def e_def fin_def m_def)
      have run: "leb_loop t k s r b0 c = Some (r', s + 7, b, c + 1)"
        using f shl by (simp add: k mem adv b7 r'_def)
      show ?thesis
      proof (cases "v < 0")
        case neg: True
        have vm: "v mod 128 = v + 128" using f neg by (simp add: fin_def) presburger
        have s21: "s \<le> 21"
        proof (rule ccontr)
          assume "\<not> s \<le> 21"
          then have "s = 28" using sc by auto
          then show False using True m vm f by (simp add: fin_def)
        qed
        then have p: "(2::nat) ^ (s + 7) \<le> 2 ^ 28" by (intro power_increasing) auto
        have "shl_int 1 (s + 7) = Some (word_of_nat (2 ^ (s + 7)))"
          using s21 p by (simp add: shl_int_def)
        then have "leb_finish (r', s + 7, b, c + 1) = Some (r' - 2 ^ (s + 7), c + 1)"
          using s21 b neg or_minus_exp [OF rb] by (simp add: leb_finish_def)
        moreover have "r' - 2 ^ (s + 7) = r + word_of_int (v * 2 ^ s)"
          by (simp add: r' vm power_add algebra_simps)
        moreover have "- (2 ^ 27) \<le> v * 2 ^ s \<and> v * 2 ^ s < 2 ^ 31"
          using sc s21 f neg by (elim disjE) (auto simp: fin_def)
        ultimately show ?thesis using f by (simp add: run enc)
      next
        case pos: False
        then have vm: "v mod 128 = v" using f by (simp add: fin_def)
        have "leb_finish (r', s + 7, b, c + 1) = Some (r', c + 1)"
          using b pos by (simp add: leb_finish_def)
        moreover have "- (2 ^ 27) \<le> v * 2 ^ s \<and> v * 2 ^ s < 2 ^ 31"
          using sc True pos m vm by (elim disjE) auto
        ultimately show ?thesis using f by (simp add: run enc r' vm)
      qed
    next
      case f: False
      have run: "leb_loop t k s r b0 c = leb_loop t k' (s + 7) r' b (c + 1)"
        using f shl by (simp add: k mem adv b7 r'_def)
      have mem': "holds t (c + 1) (sleb_encode (v div 128))"
        using "1.prems"(4) f by (simp add: enc holds_Cons)
      have uc: "unat (c + 1) = unat c + 1" using unat_ptr_add [OF adv] by simp
      show ?thesis
      proof (cases "s = 28")
        case s: True
        obtain b1 bs where "sleb_encode (v div 128) = b1 # bs"
          using sleb_encode_Cons by blast
        then have "deref t (c + 1) = Some b1" using mem' by (simp add: holds_Cons)
        moreover obtain k'' where "k' = Suc k''" using "1.prems"(1) s k by (cases k') auto
        ultimately have "leb_loop t k' (s + 7) r' b (c + 1) = None"
          using s by (simp add: shl_int_def bind_eq_None_conv)
        moreover have "\<not> (- (2 ^ 27) \<le> v * 2 ^ s \<and> v * 2 ^ s < 2 ^ 31)"
          using s f by (auto simp: fin_def)
        ultimately show ?thesis by (simp add: run)
      next
        case s: False
        have rec: "Option.bind (leb_loop t k' (s + 7) r' b (c + 1)) leb_finish =
          (if - (2 ^ 27) \<le> (v div 128) * 2 ^ (s + 7) \<and> (v div 128) * 2 ^ (s + 7) < 2 ^ 31
           then Some (r' + word_of_int ((v div 128) * 2 ^ (s + 7)),
                      c + 1 + word_of_nat (length (sleb_encode (v div 128))))
           else None)"
          using "1.prems" f k s sc rb mem' uc by (intro "1.IH") (auto simp: enc fin_def)
        have cnd: "(- (2 ^ 27) \<le> (v div 128) * 2 ^ (s + 7) \<and> (v div 128) * 2 ^ (s + 7) < 2 ^ 31)
            \<longleftrightarrow> (- (2 ^ 27) \<le> v * 2 ^ s \<and> v * 2 ^ s < 2 ^ 31)"
          using leb_range [of "v mod 128" "v div 128" s] sc s f unfolding fin_def by simp
        have "w * 2 ^ s + q * 2 ^ (s + 7) = (q * 128 + w) * 2 ^ s" for q w :: int
          by (simp add: power_add algebra_simps)
        from this [of "v mod 128" "v div 128"]
        have "v mod 128 * 2 ^ s + (v div 128) * 2 ^ (s + 7) = v * 2 ^ s" by simp
        then have sum: "r' + word_of_int ((v div 128) * 2 ^ (s + 7)) = r + word_of_int (v * 2 ^ s)"
          by (simp only: r' add.assoc flip: of_int_add)
        show ?thesis using f
          by (simp only: run rec cnd sum enc) (simp add: algebra_simps)
      qed
    qed
  qed
qed

section \<open>Progress of the readers\<close>

lemma parse_bytes_Some:
  "parse_bytes t c n = Some (bs, c') \<longleftrightarrow>
     load_bytes t c n = Some bs \<and> unat c + n < 2 ^ 64 \<and> c' = c + word_of_nat n"
  by (auto simp: parse_bytes_def bind_Some_iff ptr_add_Some)

lemma parse_bytes_holds:
  "holds t c bs \<Longrightarrow> n = length bs \<Longrightarrow> unat c + n < 2 ^ 64 \<Longrightarrow>
   parse_bytes t c n = Some (bs, c + word_of_nat n)"
  by (simp add: parse_bytes_Some holds_load)

lemmas fixed_reader_defs = FIRCLSParseUint8AndAdvance_def FIRCLSParseUint16AndAdvance_def
  FIRCLSParseInt16AndAdvance_def FIRCLSParseUint32AndAdvance_def FIRCLSParseInt32AndAdvance_def
  FIRCLSParseUint64AndAdvance_def FIRCLSParseInt64AndAdvance_def FIRCLSParsePointerAndAdvance_def

lemma unat_add_small: "unat (c::u64) + n < 2 ^ 64 \<Longrightarrow> unat (c + word_of_nat n) = unat c + n"
  by (simp add: unat_word_ariths unat_of_nat)

lemma parse_bytes_progress: "parse_bytes t c n = Some (bs, c') \<Longrightarrow> unat c' = unat c + n"
  by (auto simp: parse_bytes_def bind_Some_iff dest: unat_ptr_add)

lemma uleb_loop_progress:
  "uleb_loop t k s r c = Some (v, c') \<Longrightarrow> unat c \<le> unat c' \<and> unat c' \<le> unat c + k \<and> (0 < k \<longrightarrow> unat c < unat c')"
proof (induction k arbitrary: s r c)
  case (Suc k)
  from Suc.prems obtain byte cur w where st: "deref t c = Some byte" "ptr_add c 1 = Some cur"
      "shl_int (0x7F AND byte) s = Some w"
      "(if 0x80 AND byte = 0 then Some (r OR w, cur) else uleb_loop t k (s + 7) (r OR w) cur) = Some (v, c')"
    by (auto simp: bind_Some_iff Let_def)
  then have "unat cur = unat c + 1" using unat_ptr_add by fastforce
  then show ?case using st(4) Suc.IH [of "s + 7" "r OR w" cur] by (auto split: if_splits)
qed auto

lemma leb_loop_progress:
  "leb_loop t k s r b c = Some (v, s', b', c') \<Longrightarrow> unat c \<le> unat c' \<and> unat c' \<le> unat c + k \<and> (0 < k \<longrightarrow> unat c < unat c')"
proof (induction k arbitrary: s r b c)
  case (Suc k)
  from Suc.prems obtain byte cur w where st: "deref t c = Some byte" "ptr_add c 1 = Some cur"
      "shl_int (0x7F AND byte) s = Some w"
      "(if 0x80 AND byte = 0 then Some (r OR w, s + 7, byte, cur) else leb_loop t k (s + 7) (r OR w) byte cur) = Some (v, s', b', c')"
    by (auto simp: bind_Some_iff Let_def)
  then have "unat cur = unat c + 1" using unat_ptr_add by fastforce
  then show ?case using st(4) Suc.IH [of "s + 7" "r OR w" byte cur] by (auto split: if_splits)
qed auto

text \<open>Every reader moves the cursor forward; the variable-length ones by at most eight bytes.\<close>

lemma uint8_progress: "FIRCLSParseUint8AndAdvance t c = Some (v, c') \<Longrightarrow> unat c' = unat c + 1"
  using unat_ptr_add by (fastforce simp: FIRCLSParseUint8AndAdvance_def bind_Some_iff)

lemma uint16_progress: "FIRCLSParseUint16AndAdvance t c = Some (v, c') \<Longrightarrow> unat c' = unat c + 2"
  by (auto simp: fixed_reader_defs bind_Some_iff dest: parse_bytes_progress)

lemma uint32_progress: "FIRCLSParseUint32AndAdvance t c = Some (v, c') \<Longrightarrow> unat c' = unat c + 4"
  by (auto simp: fixed_reader_defs bind_Some_iff dest: parse_bytes_progress)

lemma uint64_progress: "FIRCLSParseUint64AndAdvance t c = Some (v, c') \<Longrightarrow> unat c' = unat c + 8"
  by (auto simp: fixed_reader_defs bind_Some_iff dest: parse_bytes_progress)

lemma uleb_progress:
  "FIRCLSParseULEB128AndAdvance t c = Some (v, c') \<Longrightarrow> unat c < unat c' \<and> unat c' \<le> unat c + 8"
  using uleb_loop_progress [of t 8 0 0 c v c'] by (simp add: FIRCLSParseULEB128AndAdvance_def)

lemma leb_progress:
  "FIRCLSParseLEB128AndAdvance t c = Some (v, c') \<Longrightarrow> unat c < unat c' \<and> unat c' \<le> unat c + 8"
  by (auto simp: FIRCLSParseLEB128AndAdvance_def leb_finish_def bind_Some_iff split: if_splits
      dest!: leb_loop_progress)

text \<open>The readers on an encoding, in the form the clients use.\<close>

lemma uleb_decode_encode_aux:
  "holds t c (uleb_encode n) \<Longrightarrow> unat c + length (uleb_encode n) < 2 ^ 64 \<Longrightarrow>
   FIRCLSParseULEB128AndAdvance t c =
    (if n < 2 ^ 31 then Some (word_of_nat n, c + word_of_nat (length (uleb_encode n))) else None)"
  using uleb_loop_encode [of 8 0 0 n t c] by (simp add: FIRCLSParseULEB128AndAdvance_def)

lemma sleb_decode_encode_aux:
  "holds t c (sleb_encode v) \<Longrightarrow> unat c + length (sleb_encode v) < 2 ^ 64 \<Longrightarrow>
   FIRCLSParseLEB128AndAdvance t c =
    (if - (2 ^ 27) \<le> v \<and> v < 2 ^ 31
     then Some (word_of_int v, c + word_of_nat (length (sleb_encode v))) else None)"
  using leb_loop_encode [of 8 0 0 t c v 0] by (simp add: FIRCLSParseLEB128AndAdvance_def)

section \<open>Reading a layout\<close>

text \<open>\<open>at_cursor t c bs\<close>: the bytes \<open>bs\<close> lie at the cursor and end before the end of the address
  space; every reader takes its part off the front.\<close>

definition at_cursor :: "task \<Rightarrow> u64 \<Rightarrow> byte list \<Rightarrow> bool" where
  "at_cursor t c bs \<longleftrightarrow> holds t c bs \<and> unat c + length bs < 2 ^ 64"

lemma at_cursor_append:
  "at_cursor t c (xs @ ys) \<Longrightarrow> at_cursor t (c + word_of_nat (length xs)) ys"
  "at_cursor t c (xs @ ys) \<Longrightarrow> at_cursor t c xs"
  using unat_add_small [of c "length xs"] by (auto simp: at_cursor_def holds_append)

lemma at_cursor_Cons: "at_cursor t c (b # bs) \<Longrightarrow> at_cursor t (c + 1) bs"
  using at_cursor_append(1) [of t c "[b]" bs] by simp

lemma at_uint8: "at_cursor t c (b # bs) \<Longrightarrow> FIRCLSParseUint8AndAdvance t c = Some (b, c + 1)"
  by (simp add: at_cursor_def holds_Cons FIRCLSParseUint8AndAdvance_def ptr_add_def)

lemma at_parse_bytes:
  assumes "at_cursor t c (xs @ bs)"
  shows "parse_bytes t c (length xs) = Some (xs, c + word_of_nat (length xs))"
  using assms by (intro parse_bytes_holds) (auto simp: at_cursor_def holds_append)

lemma at_uint32:
  assumes "at_cursor t c (le_bytes 4 d @ bs)" "d < 2 ^ 32"
  shows "FIRCLSParseUint32AndAdvance t c = Some (word_of_nat d, c + 4)"
  using at_parse_bytes [OF assms(1)] assms(2)
  by (simp add: FIRCLSParseUint32AndAdvance_def le_word_def le_nat_le_bytes)

lemma at_uint64:
  assumes "at_cursor t c (le_bytes 8 d @ bs)" "d < 2 ^ 64"
  shows "FIRCLSParseUint64AndAdvance t c = Some (word_of_nat d, c + 8)"
    "FIRCLSParsePointerAndAdvance t c = Some (word_of_nat d, c + 8)"
  using at_parse_bytes [OF assms(1)] assms(2)
  by (simp_all add: FIRCLSParseUint64AndAdvance_def FIRCLSParsePointerAndAdvance_def le_word_def le_nat_le_bytes)

lemma at_uleb:
  assumes "at_cursor t c (uleb_encode n @ bs)" "n < 2 ^ 31"
  shows "FIRCLSParseULEB128AndAdvance t c = Some (word_of_nat n, c + word_of_nat (length (uleb_encode n)))"
  using at_cursor_append(2) [OF assms(1)] assms(2) uleb_decode_encode_aux [of t c n]
  by (simp add: at_cursor_def)

lemma at_sleb:
  assumes "at_cursor t c (sleb_encode v @ bs)" "- (2 ^ 27) \<le> v" "v < 2 ^ 31"
  shows "FIRCLSParseLEB128AndAdvance t c = Some (word_of_int v, c + word_of_nat (length (sleb_encode v)))"
  using at_cursor_append(2) [OF assms(1)] assms(2,3) sleb_decode_encode_aux [of t c v]
  by (simp add: at_cursor_def)

lemma strlen_holds:
  assumes "at_cursor t s (str @ [0])" "0 \<notin> set str"
  shows "c_strlen t s = Some (length str)"
  using assms
proof (induction str arbitrary: s)
  case Nil
  then show ?case by (subst c_strlen.simps) (simp add: at_cursor_def holds_Cons)
next
  case (Cons ch str)
  have "c_strlen t (s + 1) = Some (length str)"
    using Cons.prems at_cursor_Cons [of t s ch "str @ [0]"] by (intro Cons.IH) auto
  moreover have "deref t s = Some ch" "unat s + 1 < 2 ^ 64" "ch \<noteq> 0"
    using Cons.prems by (auto simp: at_cursor_def holds_Cons)
  ultimately show ?case by (subst c_strlen.simps) simp
qed

lemma at_string:
  assumes "at_cursor t c ((str @ [0]) @ bs)" "0 \<notin> set str"
  shows "FIRCLSParseStringAndAdvance t c = Some (c, c + word_of_nat (length str + 1))"
  using strlen_holds [OF at_cursor_append(2) [OF assms(1)] assms(2)] assms(1)
  by (simp add: FIRCLSParseStringAndAdvance_def ptr_add_def at_cursor_def)

text \<open>The record length of a 32-bit record.\<close>

lemma at_record_length:
  assumes "at_cursor t c (le_bytes 4 d @ bs)" "d < 2 ^ 32 - 1"
  shows "FIRCLSParseRecordLengthAndAdvance t c = Some (word_of_nat d, c + 4)"
proof -
  have d: "d < 2 ^ 32" using assms(2) by simp
  have "unat (word_of_nat d :: u32) \<noteq> unat DWARF_EXTENDED_LENGTH_FLAG"
    using assms(2) by (simp add: unat_of_nat DWARF_EXTENDED_LENGTH_FLAG_def)
  then have ne: "word_of_nat d \<noteq> DWARF_EXTENDED_LENGTH_FLAG" by metis
  have "(ucast (word_of_nat d :: u32) :: u64) = word_of_nat d"
    using d by (simp add: word_unat_eq_iff unsigned_ucast_eq unat_of_nat take_bit_nat_eq_self)
  then show ?thesis
    using at_uint32 [OF assms(1) d] ne by (simp add: FIRCLSParseRecordLengthAndAdvance_def)
qed

section \<open>Properties\<close>

text \<open>C28. The ULEB128 reader on the shortest encoding of any number: it returns the number and the
  cursor behind the encoding when the number is below \<open>2 ^ 31\<close>, and its behaviour is undefined
  (the shift overflows \<open>int\<close>) on every larger one.\<close>

theorem uleb_decode_encode:
  assumes "holds t c (uleb_encode n)" "unat c + length (uleb_encode n) < 2 ^ 64"
  shows "FIRCLSParseULEB128AndAdvance t c =
    (if n < 2 ^ 31 then Some (word_of_nat n, c + word_of_nat (length (uleb_encode n))) else None)"
  using assms by (rule uleb_decode_encode_aux)

text \<open>C29. The LEB128 reader on the shortest encoding of any integer: exact for
  \<open>-(2 ^ 27) \<le> v < 2 ^ 31\<close>, undefined outside that range.\<close>

theorem sleb_decode_encode:
  assumes "holds t c (sleb_encode v)" "unat c + length (sleb_encode v) < 2 ^ 64"
  shows "FIRCLSParseLEB128AndAdvance t c =
    (if - (2 ^ 27) \<le> v \<and> v < 2 ^ 31
     then Some (word_of_int v, c + word_of_nat (length (sleb_encode v))) else None)"
  using assms by (rule sleb_decode_encode_aux)

theorem uleb_decode_encode_witness:
  "FIRCLSParseULEB128AndAdvance (flat_task (block 0x1000 (uleb_encode 624485))) 0x1000 = Some (624485, 0x1003)
   \<and> FIRCLSParseULEB128AndAdvance (flat_task (block 0x1000 (uleb_encode (2 ^ 31)))) 0x1000 = None"
proof -
  have l: "length (uleb_encode 624485) = 3" "length (uleb_encode (2 ^ 31)) = 5" by (simp_all add: uleb_encode.simps)
  show ?thesis
    using uleb_decode_encode [of "flat_task (block 0x1000 (uleb_encode 624485))" "0x1000" 624485]
      uleb_decode_encode [of "flat_task (block 0x1000 (uleb_encode (2 ^ 31)))" "0x1000" "2 ^ 31"]
      holds_block [of "uleb_encode 624485" "0x1000"] holds_block [of "uleb_encode (2 ^ 31)" "0x1000"] l
    by simp
qed

theorem sleb_decode_encode_witness:
  "FIRCLSParseLEB128AndAdvance (flat_task (block 0x1000 (sleb_encode (-128)))) 0x1000 = Some (-128, 0x1002)"
proof -
  have l: "length (sleb_encode (-128)) = 2" by (simp add: sleb_encode.simps [of "-128"] sleb_encode.simps [of "-1"])
  show ?thesis
    using sleb_decode_encode [of "flat_task (block 0x1000 (sleb_encode (-128)))" "0x1000" "-128"]
      holds_block [of "sleb_encode (-128)" "0x1000"] l
    by simp
qed

end
