(* ===== verification/Thread_State.thy ===== *)
theory Thread_State
  imports Task_Memory
begin

text \<open>
  The register files: \<open>FIRCLSThreadState.c\<close> and the register tables of
  \<open>FIRCLSUnwind_x86.c\<close> and \<open>FIRCLSUnwind_arm.c\<close>.  The unwinder is written once against
  the accessor macros \<open>GET_*\<close>/\<open>SET_*\<close> and the functions
  \<open>FIRCLSDwarfUnwindGetRegisterValue\<close>/\<open>SetRegisterValue\<close>; here these are the fields of a
  record \<open>arch\<close>, instantiated for x86-64 and for arm64, and the laws the unwinder relies on are
  the locale \<open>thread_arch\<close>.  A \<open>FIRCLSThreadContext*\<close> is threaded as a value: the callers pass
  the address of a live structure, so the null tests on it always succeed.
\<close>

record 'r arch =
  GET_IP_REGISTER :: "'r \<Rightarrow> u64"
  GET_FP_REGISTER :: "'r \<Rightarrow> u64"
  GET_SP_REGISTER :: "'r \<Rightarrow> u64"
  GET_LR_REGISTER :: "'r \<Rightarrow> u64"
  SET_IP_REGISTER :: "'r \<Rightarrow> u64 \<Rightarrow> 'r"
  SET_FP_REGISTER :: "'r \<Rightarrow> u64 \<Rightarrow> 'r"
  SET_SP_REGISTER :: "'r \<Rightarrow> u64 \<Rightarrow> 'r"
  SET_LR_REGISTER :: "'r \<Rightarrow> u64 \<Rightarrow> 'r"
  FIRCLSDwarfUnwindGetRegisterValue :: "'r \<Rightarrow> u64 \<Rightarrow> u64"
  FIRCLSDwarfUnwindSetRegisterValue :: "'r \<Rightarrow> u64 \<Rightarrow> u64 \<Rightarrow> 'r option"
  CLS_DWARF_MAX_REGISTER_NUM :: u64
  CLS_DWARF_REG_RETURN :: u64
  CLS_DWARF_REG_SP :: u64

section \<open>The accessors of FIRCLSThreadState.c\<close>

definition FIRCLSThreadContextGetPC :: "'r arch \<Rightarrow> 'r \<Rightarrow> u64" where
  "FIRCLSThreadContextGetPC A registers = GET_IP_REGISTER A registers"

definition FIRCLSThreadContextGetStackPointer :: "'r arch \<Rightarrow> 'r \<Rightarrow> u64" where
  "FIRCLSThreadContextGetStackPointer A registers = GET_SP_REGISTER A registers"

definition FIRCLSThreadContextSetStackPointer :: "'r arch \<Rightarrow> 'r \<Rightarrow> u64 \<Rightarrow> 'r" where
  "FIRCLSThreadContextSetStackPointer A registers value = SET_SP_REGISTER A registers value"

definition FIRCLSThreadContextGetLinkRegister :: "'r arch \<Rightarrow> 'r \<Rightarrow> u64" where
  "FIRCLSThreadContextGetLinkRegister A registers = GET_LR_REGISTER A registers"

definition FIRCLSThreadContextSetLinkRegister :: "'r arch \<Rightarrow> 'r \<Rightarrow> u64 \<Rightarrow> 'r" where
  "FIRCLSThreadContextSetLinkRegister A registers value = SET_LR_REGISTER A registers value"

definition FIRCLSThreadContextSetPC :: "'r arch \<Rightarrow> 'r \<Rightarrow> u64 \<Rightarrow> 'r" where
  "FIRCLSThreadContextSetPC A registers value = SET_IP_REGISTER A registers value"

definition FIRCLSThreadContextGetFramePointer :: "'r arch \<Rightarrow> 'r \<Rightarrow> u64" where
  "FIRCLSThreadContextGetFramePointer A registers = GET_FP_REGISTER A registers"

definition FIRCLSThreadContextSetFramePointer :: "'r arch \<Rightarrow> 'r \<Rightarrow> u64 \<Rightarrow> 'r" where
  "FIRCLSThreadContextSetFramePointer A registers value = SET_FP_REGISTER A registers value"

lemmas thread_context_defs [code_defs] = FIRCLSThreadContextGetPC_def
  FIRCLSThreadContextGetStackPointer_def FIRCLSThreadContextSetStackPointer_def
  FIRCLSThreadContextGetLinkRegister_def FIRCLSThreadContextSetLinkRegister_def
  FIRCLSThreadContextSetPC_def FIRCLSThreadContextGetFramePointer_def
  FIRCLSThreadContextSetFramePointer_def

section \<open>x86-64\<close>

record x86_thread =
  ss_rax :: u64
  ss_rbx :: u64
  ss_rcx :: u64
  ss_rdx :: u64
  ss_rdi :: u64
  ss_rsi :: u64
  ss_rbp :: u64
  ss_rsp :: u64
  ss_r8 :: u64
  ss_r9 :: u64
  ss_r10 :: u64
  ss_r11 :: u64
  ss_r12 :: u64
  ss_r13 :: u64
  ss_r14 :: u64
  ss_r15 :: u64
  ss_rip :: u64
  ss_rflags :: u64
  ss_cs :: u64
  ss_fs :: u64
  ss_gs :: u64

definition x86_GetRegisterValue :: "x86_thread \<Rightarrow> u64 \<Rightarrow> u64" where
  "x86_GetRegisterValue registers num =
     (if num = 0 then ss_rax registers
      else if num = 1 then ss_rdx registers
      else if num = 2 then ss_rcx registers
      else if num = 3 then ss_rbx registers
      else if num = 4 then ss_rsi registers
      else if num = 5 then ss_rdi registers
      else if num = 6 then ss_rbp registers
      else if num = 7 then ss_rsp registers
      else if num = 8 then ss_r8 registers
      else if num = 9 then ss_r9 registers
      else if num = 10 then ss_r10 registers
      else if num = 11 then ss_r11 registers
      else if num = 12 then ss_r12 registers
      else if num = 13 then ss_r13 registers
      else if num = 14 then ss_r14 registers
      else if num = 15 then ss_r15 registers
      else if num = 16 then ss_rip registers
      else 0)"

definition x86_SetRegisterValue :: "x86_thread \<Rightarrow> u64 \<Rightarrow> u64 \<Rightarrow> x86_thread option" where
  "x86_SetRegisterValue registers num value =
     (if num = 0 then Some (registers\<lparr>ss_rax := value\<rparr>)
      else if num = 1 then Some (registers\<lparr>ss_rdx := value\<rparr>)
      else if num = 2 then Some (registers\<lparr>ss_rcx := value\<rparr>)
      else if num = 3 then Some (registers\<lparr>ss_rbx := value\<rparr>)
      else if num = 4 then Some (registers\<lparr>ss_rsi := value\<rparr>)
      else if num = 5 then Some (registers\<lparr>ss_rdi := value\<rparr>)
      else if num = 6 then Some (registers\<lparr>ss_rbp := value\<rparr>)
      else if num = 7 then Some (registers\<lparr>ss_rsp := value\<rparr>)
      else if num = 8 then Some (registers\<lparr>ss_r8 := value\<rparr>)
      else if num = 9 then Some (registers\<lparr>ss_r9 := value\<rparr>)
      else if num = 10 then Some (registers\<lparr>ss_r10 := value\<rparr>)
      else if num = 11 then Some (registers\<lparr>ss_r11 := value\<rparr>)
      else if num = 12 then Some (registers\<lparr>ss_r12 := value\<rparr>)
      else if num = 13 then Some (registers\<lparr>ss_r13 := value\<rparr>)
      else if num = 14 then Some (registers\<lparr>ss_r14 := value\<rparr>)
      else if num = 15 then Some (registers\<lparr>ss_r15 := value\<rparr>)
      else if num = 16 then Some (registers\<lparr>ss_rip := value\<rparr>)
      else None)"

text \<open>A register file of zeros, for the witnesses.\<close>

definition x86_zero :: x86_thread where
  "x86_zero = \<lparr>ss_rax = 0, ss_rbx = 0, ss_rcx = 0, ss_rdx = 0, ss_rdi = 0, ss_rsi = 0, ss_rbp = 0,
     ss_rsp = 0, ss_r8 = 0, ss_r9 = 0, ss_r10 = 0, ss_r11 = 0, ss_r12 = 0, ss_r13 = 0, ss_r14 = 0,
     ss_r15 = 0, ss_rip = 0, ss_rflags = 0, ss_cs = 0, ss_fs = 0, ss_gs = 0\<rparr>"

text \<open>\<open>GET_LR_REGISTER\<close> is 0 and \<open>SET_LR_REGISTER\<close> is empty on x86.\<close>

definition x86_64 :: "x86_thread arch" where
  "x86_64 = \<lparr>
     GET_IP_REGISTER = ss_rip,
     GET_FP_REGISTER = ss_rbp,
     GET_SP_REGISTER = ss_rsp,
     GET_LR_REGISTER = (\<lambda>r. 0),
     SET_IP_REGISTER = (\<lambda>r v. r\<lparr>ss_rip := v\<rparr>),
     SET_FP_REGISTER = (\<lambda>r v. r\<lparr>ss_rbp := v\<rparr>),
     SET_SP_REGISTER = (\<lambda>r v. r\<lparr>ss_rsp := v\<rparr>),
     SET_LR_REGISTER = (\<lambda>r v. r),
     FIRCLSDwarfUnwindGetRegisterValue = x86_GetRegisterValue,
     FIRCLSDwarfUnwindSetRegisterValue = x86_SetRegisterValue,
     CLS_DWARF_MAX_REGISTER_NUM = 16,
     CLS_DWARF_REG_RETURN = 16,
     CLS_DWARF_REG_SP = 7\<rparr>"

section \<open>arm64\<close>

text \<open>The frame pointer, link register, stack pointer and program counter are reached through the
  SDK's \<open>arm_thread_state64_get/set_*\<close> accessors; the fields \<open>ss_fp\<close>, \<open>ss_lr\<close>, \<open>ss_sp\<close> and
  \<open>ss_pc\<close> are what those accessors store.\<close>

record arm_thread =
  ss_x :: "nat \<Rightarrow> u64"
  ss_fp :: u64
  ss_lr :: u64
  ss_sp :: u64
  ss_pc :: u64
  ss_cpsr :: u32

definition CLS_PTRAUTH_STRIP :: "u64 \<Rightarrow> u64" where
  "CLS_PTRAUTH_STRIP pointer = pointer AND 0x0000000FFFFFFFFF"

definition arm_GetRegisterValue :: "arm_thread \<Rightarrow> u64 \<Rightarrow> u64" where
  "arm_GetRegisterValue registers num =
     (if num \<le> 28 then ss_x registers (unat num)
      else if num = 29 then CLS_PTRAUTH_STRIP (ss_fp registers)
      else if num = 30 then CLS_PTRAUTH_STRIP (ss_lr registers)
      else if num = 31 then CLS_PTRAUTH_STRIP (ss_sp registers)
      else 0)"

text \<open>Setting the link register also sets the program counter.\<close>

definition arm_SetRegisterValue :: "arm_thread \<Rightarrow> u64 \<Rightarrow> u64 \<Rightarrow> arm_thread option" where
  "arm_SetRegisterValue registers num value =
     (if num \<le> 28 then Some (registers\<lparr>ss_x := (ss_x registers)(unat num := value)\<rparr>)
      else if num = 29 then Some (registers\<lparr>ss_fp := value\<rparr>)
      else if num = 31 then Some (registers\<lparr>ss_sp := value\<rparr>)
      else if num = 30 then Some (registers\<lparr>ss_lr := value, ss_pc := value\<rparr>)
      else None)"

definition arm64 :: "arm_thread arch" where
  "arm64 = \<lparr>
     GET_IP_REGISTER = (\<lambda>r. CLS_PTRAUTH_STRIP (ss_pc r)),
     GET_FP_REGISTER = (\<lambda>r. CLS_PTRAUTH_STRIP (ss_fp r)),
     GET_SP_REGISTER = (\<lambda>r. CLS_PTRAUTH_STRIP (ss_sp r)),
     GET_LR_REGISTER = (\<lambda>r. CLS_PTRAUTH_STRIP (ss_lr r)),
     SET_IP_REGISTER = (\<lambda>r v. r\<lparr>ss_pc := v\<rparr>),
     SET_FP_REGISTER = (\<lambda>r v. r\<lparr>ss_fp := v\<rparr>),
     SET_SP_REGISTER = (\<lambda>r v. r\<lparr>ss_sp := v\<rparr>),
     SET_LR_REGISTER = (\<lambda>r v. r\<lparr>ss_lr := v\<rparr>),
     FIRCLSDwarfUnwindGetRegisterValue = arm_GetRegisterValue,
     FIRCLSDwarfUnwindSetRegisterValue = arm_SetRegisterValue,
     CLS_DWARF_MAX_REGISTER_NUM = 31,
     CLS_DWARF_REG_RETURN = 30,
     CLS_DWARF_REG_SP = 31\<rparr>"

section \<open>The contract of a register file\<close>

text \<open>\<open>strip n\<close> is what survives of a value stored in DWARF register \<open>n\<close> (all of it on x86-64, the
  low 36 bits of the address registers on arm64); \<open>strip_pc\<close> the same for the program counter.\<close>

locale thread_arch =
  fixes A :: "'r arch"
    and strip :: "u64 \<Rightarrow> u64 \<Rightarrow> u64"
    and strip_pc :: "u64 \<Rightarrow> u64"
  assumes set_some:
      "(\<exists>r'. FIRCLSDwarfUnwindSetRegisterValue A r n v = Some r') \<longleftrightarrow> n \<le> CLS_DWARF_MAX_REGISTER_NUM A"
    and get_set_same:
      "FIRCLSDwarfUnwindSetRegisterValue A r n v = Some r' \<Longrightarrow>
       FIRCLSDwarfUnwindGetRegisterValue A r' n = strip n v"
    and get_set_other:
      "FIRCLSDwarfUnwindSetRegisterValue A r n v = Some r' \<Longrightarrow> m \<noteq> n \<Longrightarrow>
       FIRCLSDwarfUnwindGetRegisterValue A r' m = FIRCLSDwarfUnwindGetRegisterValue A r m"
    and get_sp: "FIRCLSDwarfUnwindGetRegisterValue A r (CLS_DWARF_REG_SP A) = GET_SP_REGISTER A r"
    and set_return_ip:
      "FIRCLSDwarfUnwindSetRegisterValue A r (CLS_DWARF_REG_RETURN A) v = Some r' \<Longrightarrow>
       GET_IP_REGISTER A r' = strip_pc v"
    and set_other_ip:
      "FIRCLSDwarfUnwindSetRegisterValue A r n v = Some r' \<Longrightarrow> n \<noteq> CLS_DWARF_REG_RETURN A \<Longrightarrow>
       GET_IP_REGISTER A r' = GET_IP_REGISTER A r"
    and sp_valid: "CLS_DWARF_REG_SP A \<le> CLS_DWARF_MAX_REGISTER_NUM A"
    and return_valid: "CLS_DWARF_REG_RETURN A \<le> CLS_DWARF_MAX_REGISTER_NUM A"
    and sp_not_return: "CLS_DWARF_REG_SP A \<noteq> CLS_DWARF_REG_RETURN A"
    and max_register_small: "CLS_DWARF_MAX_REGISTER_NUM A < 64"

lemmas x86_defs = x86_64_def x86_GetRegisterValue_def x86_SetRegisterValue_def
lemmas arm_defs = arm64_def arm_GetRegisterValue_def arm_SetRegisterValue_def

lemma x86_set_some: "(\<exists>r'. x86_SetRegisterValue r n v = Some r') \<longleftrightarrow> n \<le> 16"
proof -
  have "n \<le> 16 \<longleftrightarrow> n \<in> {0,1,2,3,4,5,6,7,8,9,10,11,12,13,14,15,16}"
  proof
    assume "n \<le> 16"
    then have "unat n \<le> 16" by (simp add: word_le_nat_alt)
    then have "unat n \<in> {0,1,2,3,4,5,6,7,8,9,10,11,12,13,14,15,16}" by (simp; arith)
    then show "n \<in> {0,1,2,3,4,5,6,7,8,9,10,11,12,13,14,15,16}"
      by (simp add: word_unat_eq_iff)
  qed auto
  then show ?thesis by (auto simp: x86_SetRegisterValue_def)
qed

lemma x86_get_set_same:
  assumes "x86_SetRegisterValue r n v = Some r'"
  shows "x86_GetRegisterValue r' n = v"
  using assms unfolding x86_SetRegisterValue_def
  by (elim if_SomeE) (simp_all add: x86_GetRegisterValue_def)

lemma x86_get_set_other:
  assumes "x86_SetRegisterValue r n v = Some r'" "m \<noteq> n"
  shows "x86_GetRegisterValue r' m = x86_GetRegisterValue r m"
  using assms(1) unfolding x86_SetRegisterValue_def
  by (elim if_SomeE) (use assms(2) in \<open>simp_all add: x86_GetRegisterValue_def\<close>)

lemma x86_set_other_rip:
  assumes "x86_SetRegisterValue r n v = Some r'" "n \<noteq> 16"
  shows "ss_rip r' = ss_rip r"
  using assms(1) unfolding x86_SetRegisterValue_def
  by (elim if_SomeE) (use assms(2) in simp_all)

interpretation x86: thread_arch x86_64 "\<lambda>n v. v" "\<lambda>v. v"
proof unfold_locales
  fix r :: x86_thread and n v
  show "(\<exists>r'. FIRCLSDwarfUnwindSetRegisterValue x86_64 r n v = Some r') \<longleftrightarrow>
      n \<le> CLS_DWARF_MAX_REGISTER_NUM x86_64"
    by (simp add: x86_64_def x86_set_some)
qed (simp_all add: x86_64_def x86_get_set_same x86_get_set_other x86_set_other_rip,
    simp_all add: x86_GetRegisterValue_def x86_SetRegisterValue_def)

interpretation arm: thread_arch arm64
    "\<lambda>n v. if 29 \<le> n \<and> n \<le> 31 then CLS_PTRAUTH_STRIP v else v" CLS_PTRAUTH_STRIP
  by unfold_locales
    (auto simp: arm64_def arm_GetRegisterValue_def arm_SetRegisterValue_def word_le_nat_alt
      word_unat_eq_iff split: if_splits)

end
