(* ===== verification/Dwarf_Expr.thy ===== *)
theory Dwarf_Expr
  imports Data_Parsing Thread_State
begin

text \<open>
  \<open>FIRCLSDwarfExpressionMachine.c\<close>: the stack machine that evaluates DWARF expressions.  The
  stack is the C structure (an array of 100 words and a pointer into it, \<^term>\<open>None\<close> when the
  code has set it to \<open>NULL\<close> after an overflow or underflow); an operation returns the C boolean
  and the machine it leaves behind, and \<^term>\<open>None\<close> where the C program faults.
\<close>

section \<open>The stack\<close>

definition CLS_DWARF_EXPRESSION_STACK_SIZE :: nat where
  "CLS_DWARF_EXPRESSION_STACK_SIZE = 100"

record expr_stack =
  stack_buffer :: "u64 list"
  stack_pointer :: "nat option"

definition FIRCLSDwarfExpressionStackInit :: expr_stack where
  "FIRCLSDwarfExpressionStackInit =
     \<lparr>stack_buffer = replicate CLS_DWARF_EXPRESSION_STACK_SIZE 0, stack_pointer = Some 0\<rparr>"

definition FIRCLSDwarfExpressionStackIsValid :: "expr_stack \<Rightarrow> bool" where
  "FIRCLSDwarfExpressionStackIsValid stack =
     (case stack_pointer stack of
        None \<Rightarrow> False
      | Some p \<Rightarrow> \<not> p > CLS_DWARF_EXPRESSION_STACK_SIZE)"

definition FIRCLSDwarfExpressionStackPush :: "expr_stack \<Rightarrow> u64 \<Rightarrow> bool \<times> expr_stack" where
  "FIRCLSDwarfExpressionStackPush stack value =
     (if \<not> FIRCLSDwarfExpressionStackIsValid stack then (False, stack)
      else if the (stack_pointer stack) = CLS_DWARF_EXPRESSION_STACK_SIZE
        then (False, stack\<lparr>stack_pointer := None\<rparr>)
      else (True, stack\<lparr>
        stack_buffer := (stack_buffer stack)[the (stack_pointer stack) := value],
        stack_pointer := Some (the (stack_pointer stack) + 1)\<rparr>))"

definition FIRCLSDwarfExpressionStackPeek :: "expr_stack \<Rightarrow> u64 \<times> expr_stack" where
  "FIRCLSDwarfExpressionStackPeek stack =
     (if \<not> FIRCLSDwarfExpressionStackIsValid stack then (0, stack)
      else if the (stack_pointer stack) = 0 then (0, stack\<lparr>stack_pointer := None\<rparr>)
      else (stack_buffer stack ! (the (stack_pointer stack) - 1), stack))"

definition FIRCLSDwarfExpressionStackPop :: "expr_stack \<Rightarrow> u64 \<times> expr_stack" where
  "FIRCLSDwarfExpressionStackPop stack =
     (if \<not> FIRCLSDwarfExpressionStackIsValid stack then (0, stack)
      else if the (stack_pointer stack) = 0 then (0, stack\<lparr>stack_pointer := None\<rparr>)
      else (stack_buffer stack ! (the (stack_pointer stack) - 1),
            stack\<lparr>stack_pointer := Some (the (stack_pointer stack) - 1)\<rparr>))"

section \<open>The machine\<close>

text \<open>\<open>machine_registers\<close> is \<^term>\<open>None\<close> while the pointer is \<open>NULL\<close>.\<close>

record 'r machine =
  machine_stack :: expr_stack
  dataCursor :: u64
  endAddress :: u64
  machine_registers :: "'r option"

definition zero_machine :: "'r machine" where
  "zero_machine = \<lparr>
     machine_stack = \<lparr>stack_buffer = replicate CLS_DWARF_EXPRESSION_STACK_SIZE 0, stack_pointer = None\<rparr>,
     dataCursor = 0, endAddress = 0, machine_registers = None\<rparr>"

definition FIRCLSDwarfExpressionMachineInit :: "u64 \<Rightarrow> 'r \<Rightarrow> u64 \<Rightarrow> bool \<times> 'r machine" where
  "FIRCLSDwarfExpressionMachineInit cursor registers stackValue =
     (if \<not> FIRCLSIsValidPointer cursor then (False, zero_machine)
      else let (ok, st) = FIRCLSDwarfExpressionStackPush FIRCLSDwarfExpressionStackInit stackValue
           in (ok, zero_machine\<lparr>dataCursor := cursor, machine_registers := Some registers,
                machine_stack := st\<rparr>))"

definition FIRCLSDwarfExpressionMachinePrepareForExecution ::
    "task \<Rightarrow> 'r machine \<Rightarrow> (bool \<times> 'r machine) option" where
  "FIRCLSDwarfExpressionMachinePrepareForExecution t machine = do {
     (expressionLength, cursor') \<leftarrow> FIRCLSParseULEB128AndAdvance t (dataCursor machine);
     let machine' = machine\<lparr>dataCursor := cursor'\<rparr>;
     if expressionLength = 0 then Some (False, machine')
     else do {
       e \<leftarrow> ptr_add cursor' (unat expressionLength);
       Some (True, machine'\<lparr>endAddress := e\<rparr>) } }"

definition FIRCLSDwarfExpressionMachineIsFinished :: "'r machine \<Rightarrow> bool" where
  "FIRCLSDwarfExpressionMachineIsFinished machine =
     (if \<not> FIRCLSIsValidPointer (endAddress machine) \<or> \<not> FIRCLSIsValidPointer (dataCursor machine)
      then True
      else if \<not> FIRCLSDwarfExpressionStackIsValid (machine_stack machine) then True
      else dataCursor machine \<ge> endAddress machine)"

text \<open>The result is \<^term>\<open>None\<close> for the return value \<open>false\<close>, else the value stored through
  \<open>result\<close>.\<close>

definition FIRCLSDwarfExpressionMachineGetResult :: "'r machine \<Rightarrow> u64 option" where
  "FIRCLSDwarfExpressionMachineGetResult machine =
     (if dataCursor machine \<noteq> endAddress machine then None
      else let (v, st) = FIRCLSDwarfExpressionStackPeek (machine_stack machine)
           in if FIRCLSDwarfExpressionStackIsValid st then Some v else None)"

section \<open>The opcodes\<close>

definition FIRCLSDwarfExpressionMachineStackPop :: "'r machine \<Rightarrow> u64 \<times> 'r machine" where
  "FIRCLSDwarfExpressionMachineStackPop machine =
     (let (v, st) = FIRCLSDwarfExpressionStackPop (machine_stack machine)
      in (v, machine\<lparr>machine_stack := st\<rparr>))"

definition FIRCLSDwarfExpressionMachineStackPush :: "'r machine \<Rightarrow> u64 \<Rightarrow> bool \<times> 'r machine" where
  "FIRCLSDwarfExpressionMachineStackPush machine value =
     (let (ok, st) = FIRCLSDwarfExpressionStackPush (machine_stack machine) value
      in (ok, machine\<lparr>machine_stack := st\<rparr>))"

definition FIRCLSDwarfExpressionMachineExecute_bregN ::
    "'r arch \<Rightarrow> task \<Rightarrow> 'r machine \<Rightarrow> byte \<Rightarrow> (bool \<times> 'r machine) option" where
  "FIRCLSDwarfExpressionMachineExecute_bregN A t machine opcode =
     (let regNum = opcode - 0x70 in
      if ucast regNum > CLS_DWARF_MAX_REGISTER_NUM A then Some (False, machine)
      else do {
        (offset, cursor') \<leftarrow> FIRCLSParseLEB128AndAdvance t (dataCursor machine);
        registers \<leftarrow> machine_registers machine;
        let value = FIRCLSDwarfUnwindGetRegisterValue A registers (ucast regNum) + offset;
        Some (FIRCLSDwarfExpressionMachineStackPush (machine\<lparr>dataCursor := cursor'\<rparr>) value) })"

definition FIRCLSDwarfExpressionMachineExecute_deref ::
    "task \<Rightarrow> 'r machine \<Rightarrow> (bool \<times> 'r machine) option" where
  "FIRCLSDwarfExpressionMachineExecute_deref t machine =
     (let (value, machine') = FIRCLSDwarfExpressionMachineStackPop machine in
      case FIRCLSReadMemory t value 8 of
        None \<Rightarrow> Some (False, machine')
      | Some bs \<Rightarrow> Some (FIRCLSDwarfExpressionMachineStackPush machine' (le_word bs)))"

definition FIRCLSDwarfExpressionMachineExecute_plus_uconst ::
    "task \<Rightarrow> 'r machine \<Rightarrow> (bool \<times> 'r machine) option" where
  "FIRCLSDwarfExpressionMachineExecute_plus_uconst t machine =
     (let (value, machine') = FIRCLSDwarfExpressionMachineStackPop machine in do {
        (n, cursor') \<leftarrow> FIRCLSParseULEB128AndAdvance t (dataCursor machine');
        Some (FIRCLSDwarfExpressionMachineStackPush (machine'\<lparr>dataCursor := cursor'\<rparr>) (value + n)) })"

definition FIRCLSDwarfExpressionMachineExecute_and :: "'r machine \<Rightarrow> bool \<times> 'r machine" where
  "FIRCLSDwarfExpressionMachineExecute_and machine =
     (let (value, machine1) = FIRCLSDwarfExpressionMachineStackPop machine;
          (value2, machine2) = FIRCLSDwarfExpressionMachineStackPop machine1
      in FIRCLSDwarfExpressionMachineStackPush machine2 (value AND value2))"

definition FIRCLSDwarfExpressionMachineExecute_plus :: "'r machine \<Rightarrow> bool \<times> 'r machine" where
  "FIRCLSDwarfExpressionMachineExecute_plus machine =
     (let (value, machine1) = FIRCLSDwarfExpressionMachineStackPop machine;
          (value2, machine2) = FIRCLSDwarfExpressionMachineStackPop machine1
      in FIRCLSDwarfExpressionMachineStackPush machine2 (value + value2))"

definition FIRCLSDwarfExpressionMachineExecute_dup :: "'r machine \<Rightarrow> bool \<times> 'r machine" where
  "FIRCLSDwarfExpressionMachineExecute_dup machine =
     (let (value, st) = FIRCLSDwarfExpressionStackPeek (machine_stack machine)
      in FIRCLSDwarfExpressionMachineStackPush (machine\<lparr>machine_stack := st\<rparr>) value)"

definition FIRCLSDwarfExpressionMachineExecute_swap :: "'r machine \<Rightarrow> bool \<times> 'r machine" where
  "FIRCLSDwarfExpressionMachineExecute_swap machine =
     (let (valueA, machine1) = FIRCLSDwarfExpressionMachineStackPop machine;
          (valueB, machine2) = FIRCLSDwarfExpressionMachineStackPop machine1;
          (ok, machine3) = FIRCLSDwarfExpressionMachineStackPush machine2 valueA
      in if \<not> ok then (False, machine3)
         else FIRCLSDwarfExpressionMachineStackPush machine3 valueB)"

text \<open>\<open>DW_OP_deref_size\<close> reads the popped address with plain loads.\<close>

definition FIRCLSDwarfExpressionMachineExecute_deref_size ::
    "task \<Rightarrow> 'r machine \<Rightarrow> (bool \<times> 'r machine) option" where
  "FIRCLSDwarfExpressionMachineExecute_deref_size t machine =
     (let (address, machine') = FIRCLSDwarfExpressionMachineStackPop machine in do {
        (readSize, cursor') \<leftarrow> FIRCLSParseUint8AndAdvance t (dataCursor machine');
        let machine'' = machine'\<lparr>dataCursor := cursor'\<rparr>;
        if readSize = 1 then do {
          (v, _) \<leftarrow> FIRCLSParseUint8AndAdvance t address;
          Some (FIRCLSDwarfExpressionMachineStackPush machine'' (ucast v)) }
        else if readSize = 2 then do {
          (v, _) \<leftarrow> FIRCLSParseUint16AndAdvance t address;
          Some (FIRCLSDwarfExpressionMachineStackPush machine'' (ucast v)) }
        else if readSize = 4 then do {
          (v, _) \<leftarrow> FIRCLSParseUint32AndAdvance t address;
          Some (FIRCLSDwarfExpressionMachineStackPush machine'' (ucast v)) }
        else if readSize = 8 then do {
          (v, _) \<leftarrow> FIRCLSParseUint64AndAdvance t address;
          Some (FIRCLSDwarfExpressionMachineStackPush machine'' v) }
        else Some (False, machine'') })"

definition FIRCLSDwarfExpressionMachineExecute_ne :: "'r machine \<Rightarrow> bool \<times> 'r machine" where
  "FIRCLSDwarfExpressionMachineExecute_ne machine =
     (let (value, machine1) = FIRCLSDwarfExpressionMachineStackPop machine;
          (value2, machine2) = FIRCLSDwarfExpressionMachineStackPop machine1
      in FIRCLSDwarfExpressionMachineStackPush machine2 (if value \<noteq> value2 then 1 else 0))"

definition FIRCLSDwarfExpressionMachineExecute_litN :: "'r machine \<Rightarrow> byte \<Rightarrow> bool \<times> 'r machine" where
  "FIRCLSDwarfExpressionMachineExecute_litN machine opcode =
     FIRCLSDwarfExpressionMachineStackPush machine (ucast (opcode - 0x30))"

definition FIRCLSDwarfExpressionMachineExecuteNextOpcode ::
    "'r arch \<Rightarrow> task \<Rightarrow> 'r machine \<Rightarrow> (bool \<times> 'r machine) option" where
  "FIRCLSDwarfExpressionMachineExecuteNextOpcode A t machine0 = do {
     (opcode, cursor') \<leftarrow> FIRCLSParseUint8AndAdvance t (dataCursor machine0);
     let machine = machine0\<lparr>dataCursor := cursor'\<rparr>;
     if opcode = 0x06 then FIRCLSDwarfExpressionMachineExecute_deref t machine
     else if opcode = 0x12 then Some (FIRCLSDwarfExpressionMachineExecute_dup machine)
     else if opcode = 0x1A then Some (FIRCLSDwarfExpressionMachineExecute_and machine)
     else if opcode = 0x22 then Some (FIRCLSDwarfExpressionMachineExecute_plus machine)
     else if opcode = 0x16 then Some (FIRCLSDwarfExpressionMachineExecute_swap machine)
     else if opcode = 0x23 then FIRCLSDwarfExpressionMachineExecute_plus_uconst t machine
     else if opcode = 0x2E then Some (FIRCLSDwarfExpressionMachineExecute_ne machine)
     else if 0x30 \<le> opcode \<and> opcode \<le> 0x4F
       then Some (FIRCLSDwarfExpressionMachineExecute_litN machine opcode)
     else if 0x70 \<le> opcode \<and> opcode \<le> 0x8F
       then FIRCLSDwarfExpressionMachineExecute_bregN A t machine opcode
     else if opcode = 0x94 then FIRCLSDwarfExpressionMachineExecute_deref_size t machine
     else Some (False, machine) }"

section \<open>The stack as a bounded list\<close>

definition wf_stack :: "expr_stack \<Rightarrow> bool" where
  "wf_stack st \<longleftrightarrow> length (stack_buffer st) = 100 \<and> (\<forall>p. stack_pointer st = Some p \<longrightarrow> p \<le> 100)"

text \<open>The values on the stack, the top first; \<^term>\<open>None\<close> once the stack is invalid.\<close>

definition stack_abs :: "expr_stack \<Rightarrow> u64 list option" where
  "stack_abs st = map_option (\<lambda>p. rev (take p (stack_buffer st))) (stack_pointer st)"

lemma stack_valid_abs: "wf_stack st \<Longrightarrow> FIRCLSDwarfExpressionStackIsValid st \<longleftrightarrow> stack_abs st \<noteq> None"
  by (auto simp: wf_stack_def stack_abs_def FIRCLSDwarfExpressionStackIsValid_def
      CLS_DWARF_EXPRESSION_STACK_SIZE_def not_less split: option.splits)

lemma stack_abs_length: "wf_stack st \<Longrightarrow> stack_abs st = Some xs \<Longrightarrow> length xs \<le> 100"
  by (auto simp: wf_stack_def stack_abs_def)

lemma stack_abs_Some:
  assumes "wf_stack st" "stack_abs st = Some xs"
  shows "stack_pointer st = Some (length xs)" "FIRCLSDwarfExpressionStackIsValid st"
    "xs = rev (take (length xs) (stack_buffer st))" "length (stack_buffer st) = 100"
    "length xs \<le> 100"
  using assms stack_valid_abs by (auto simp: wf_stack_def stack_abs_def)

lemma stack_push:
  assumes "wf_stack st" "stack_abs st = Some xs"
  shows "wf_stack (snd (FIRCLSDwarfExpressionStackPush st v))"
    "fst (FIRCLSDwarfExpressionStackPush st v) \<longleftrightarrow> length xs < 100"
    "stack_abs (snd (FIRCLSDwarfExpressionStackPush st v)) =
       (if length xs < 100 then Some (v # xs) else None)"
proof -
  note st = stack_abs_Some [OF assms]
  have "take (Suc (length xs)) ((stack_buffer st)[length xs := v]) = rev (v # xs)" if "length xs < 100"
    using that st(3,4) by (simp add: take_Suc_conv_app_nth) (metis rev_rev_ident)
  then show "wf_stack (snd (FIRCLSDwarfExpressionStackPush st v))"
    "fst (FIRCLSDwarfExpressionStackPush st v) \<longleftrightarrow> length xs < 100"
    "stack_abs (snd (FIRCLSDwarfExpressionStackPush st v)) =
       (if length xs < 100 then Some (v # xs) else None)"
    using st assms(1)
    by (auto simp: FIRCLSDwarfExpressionStackPush_def CLS_DWARF_EXPRESSION_STACK_SIZE_def
        wf_stack_def stack_abs_def)
qed

lemma stack_push_invalid:
  "stack_abs st = None \<Longrightarrow> FIRCLSDwarfExpressionStackPush st v = (False, st)"
  by (simp add: FIRCLSDwarfExpressionStackPush_def FIRCLSDwarfExpressionStackIsValid_def stack_abs_def
      split: option.splits)

lemma stack_pop_Cons:
  assumes "wf_stack st" "stack_abs st = Some (x # xs)"
  shows "fst (FIRCLSDwarfExpressionStackPop st) = x"
    "wf_stack (snd (FIRCLSDwarfExpressionStackPop st))"
    "stack_abs (snd (FIRCLSDwarfExpressionStackPop st)) = Some xs"
    "FIRCLSDwarfExpressionStackPeek st = (x, st)"
proof -
  note st = stack_abs_Some [OF assms]
  have len: "length xs < length (stack_buffer st)" using st(4,5) by simp
  have eq: "x # xs = rev (take (length xs) (stack_buffer st) @ [stack_buffer st ! length xs])"
    using st(3) len by (simp only: length_Cons take_Suc_conv_app_nth)
  then have "x = stack_buffer st ! length xs" "xs = rev (take (length xs) (stack_buffer st))"
    by simp_all
  then show "fst (FIRCLSDwarfExpressionStackPop st) = x"
    "wf_stack (snd (FIRCLSDwarfExpressionStackPop st))"
    "stack_abs (snd (FIRCLSDwarfExpressionStackPop st)) = Some xs"
    "FIRCLSDwarfExpressionStackPeek st = (x, st)"
    using st assms(1)
    by (auto simp: FIRCLSDwarfExpressionStackPop_def FIRCLSDwarfExpressionStackPeek_def
        wf_stack_def stack_abs_def)
qed

lemma stack_pop_Nil:
  assumes "wf_stack st" "stack_abs st = Some []"
  shows "fst (FIRCLSDwarfExpressionStackPop st) = 0"
    "wf_stack (snd (FIRCLSDwarfExpressionStackPop st))"
    "stack_abs (snd (FIRCLSDwarfExpressionStackPop st)) = None"
    "FIRCLSDwarfExpressionStackPeek st = (0, st\<lparr>stack_pointer := None\<rparr>)"
  using stack_abs_Some [OF assms] assms(1)
  by (auto simp: FIRCLSDwarfExpressionStackPop_def FIRCLSDwarfExpressionStackPeek_def
      wf_stack_def stack_abs_def)

lemma stack_pop_invalid:
  "stack_abs st = None \<Longrightarrow> FIRCLSDwarfExpressionStackPop st = (0, st)"
  "stack_abs st = None \<Longrightarrow> FIRCLSDwarfExpressionStackPeek st = (0, st)"
  by (simp_all add: FIRCLSDwarfExpressionStackPop_def FIRCLSDwarfExpressionStackPeek_def
      FIRCLSDwarfExpressionStackIsValid_def stack_abs_def split: option.splits)

section \<open>The opcodes leave the rest of the machine alone\<close>

lemma machine_pop_frame [simp]:
  "dataCursor (snd (FIRCLSDwarfExpressionMachineStackPop m)) = dataCursor m"
  "endAddress (snd (FIRCLSDwarfExpressionMachineStackPop m)) = endAddress m"
  "machine_registers (snd (FIRCLSDwarfExpressionMachineStackPop m)) = machine_registers m"
  by (simp_all add: FIRCLSDwarfExpressionMachineStackPop_def split_beta)

lemma machine_push_frame [simp]:
  "dataCursor (snd (FIRCLSDwarfExpressionMachineStackPush m v)) = dataCursor m"
  "endAddress (snd (FIRCLSDwarfExpressionMachineStackPush m v)) = endAddress m"
  "machine_registers (snd (FIRCLSDwarfExpressionMachineStackPush m v)) = machine_registers m"
  by (simp_all add: FIRCLSDwarfExpressionMachineStackPush_def split_beta)

text \<open>What an opcode body may change besides the stack: the cursor moves forward by at most eight
  bytes.\<close>

definition same_frame :: "'r machine \<Rightarrow> 'r machine \<Rightarrow> bool" where
  "same_frame m m' \<longleftrightarrow> endAddress m' = endAddress m \<and> machine_registers m' = machine_registers m \<and>
     unat (dataCursor m) \<le> unat (dataCursor m') \<and> unat (dataCursor m') \<le> unat (dataCursor m) + 8"

lemma same_frame_opcodes [inv_intros]:
  "same_frame m (snd (FIRCLSDwarfExpressionMachineExecute_dup m))"
  "same_frame m (snd (FIRCLSDwarfExpressionMachineExecute_and m))"
  "same_frame m (snd (FIRCLSDwarfExpressionMachineExecute_plus m))"
  "same_frame m (snd (FIRCLSDwarfExpressionMachineExecute_swap m))"
  "same_frame m (snd (FIRCLSDwarfExpressionMachineExecute_ne m))"
  "same_frame m (snd (FIRCLSDwarfExpressionMachineExecute_litN m opcode))"
  by (simp_all add: same_frame_def split_beta Let_def
      FIRCLSDwarfExpressionMachineExecute_dup_def FIRCLSDwarfExpressionMachineExecute_and_def
      FIRCLSDwarfExpressionMachineExecute_plus_def FIRCLSDwarfExpressionMachineExecute_swap_def
      FIRCLSDwarfExpressionMachineExecute_ne_def FIRCLSDwarfExpressionMachineExecute_litN_def)

lemma same_frame_deref [inv_intros]:
  "FIRCLSDwarfExpressionMachineExecute_deref t m = Some r \<Longrightarrow> same_frame m (snd r)"
  by (auto simp: same_frame_def split_beta Let_def FIRCLSDwarfExpressionMachineExecute_deref_def
      split: option.splits)

lemma same_frame_plus_uconst [inv_intros]:
  "FIRCLSDwarfExpressionMachineExecute_plus_uconst t m = Some r \<Longrightarrow> same_frame m (snd r)"
  by (auto simp: same_frame_def split_beta Let_def bind_Some_iff
      FIRCLSDwarfExpressionMachineExecute_plus_uconst_def dest!: uleb_progress)

lemma same_frame_bregN [inv_intros]:
  "FIRCLSDwarfExpressionMachineExecute_bregN A t m opcode = Some r \<Longrightarrow> same_frame m (snd r)"
  by (auto simp: same_frame_def split_beta Let_def bind_Some_iff
      FIRCLSDwarfExpressionMachineExecute_bregN_def split: if_splits dest!: leb_progress)

lemma same_frame_deref_size [inv_intros]:
  assumes "FIRCLSDwarfExpressionMachineExecute_deref_size t m = Some r"
  shows "same_frame m (snd r)"
proof -
  define m1 where "m1 = snd (FIRCLSDwarfExpressionMachineStackPop m)"
  from assms obtain sz c where p: "FIRCLSParseUint8AndAdvance t (dataCursor m) = Some (sz, c)"
    and r: "snd r = m1\<lparr>dataCursor := c\<rparr> \<or>
      (\<exists>v. r = FIRCLSDwarfExpressionMachineStackPush (m1\<lparr>dataCursor := c\<rparr>) v)"
    unfolding FIRCLSDwarfExpressionMachineExecute_deref_size_def split_beta Let_def
    by (simp add: bind_Some_iff flip: m1_def) (auto simp: m1_def bind_Some_iff split: if_split_asm)
  show ?thesis
    using r uint8_progress [OF p] by (auto simp: same_frame_def m1_def)
qed

lemma next_opcode_progress:
  assumes "FIRCLSDwarfExpressionMachineExecuteNextOpcode A t m = Some (ok, m')"
  shows "endAddress m' = endAddress m" "machine_registers m' = machine_registers m"
    "unat (dataCursor m) < unat (dataCursor m')" "unat (dataCursor m') \<le> unat (dataCursor m) + 9"
proof -
  from assms obtain opcode c where op: "FIRCLSParseUint8AndAdvance t (dataCursor m) = Some (opcode, c)"
    by (auto simp: FIRCLSDwarfExpressionMachineExecuteNextOpcode_def bind_Some_iff)
  define m1 where "m1 = m\<lparr>dataCursor := c\<rparr>"
  have c: "unat c = unat (dataCursor m) + 1" using uint8_progress [OF op] .
  have "same_frame m1 m1" by (simp add: same_frame_def)
  with assms have "same_frame m1 m'"
    unfolding FIRCLSDwarfExpressionMachineExecuteNextOpcode_def op
    using same_frame_opcodes(1-5) [of m1] same_frame_opcodes(6) [of m1 opcode]
    by (simp only: bind.simps prod.case Let_def m1_def [symmetric])
      (auto split: if_split_asm dest: same_frame_deref same_frame_plus_uconst same_frame_bregN
        same_frame_deref_size)
  then show "endAddress m' = endAddress m" "machine_registers m' = machine_registers m"
    "unat (dataCursor m) < unat (dataCursor m')" "unat (dataCursor m') \<le> unat (dataCursor m) + 9"
    using c by (simp_all add: same_frame_def m1_def)
qed

section \<open>Running a whole expression\<close>

text \<open>The \<open>while\<close> loop of \<open>FIRCLSDwarfEvalulateExpression\<close>.  It ends because every
  opcode moves the cursor forward in a bounded address space.\<close>

function evaluate_loop :: "'r arch \<Rightarrow> task \<Rightarrow> 'r machine \<Rightarrow> (bool \<times> 'r machine) option" where
  "evaluate_loop A t machine =
     (if FIRCLSDwarfExpressionMachineIsFinished machine then Some (True, machine)
      else case FIRCLSDwarfExpressionMachineExecuteNextOpcode A t machine of
        None \<Rightarrow> None
      | Some (ok, machine') \<Rightarrow>
          if \<not> ok then Some (False, machine') else evaluate_loop A t machine')"
  by pat_completeness auto
termination
proof (relation "measure (\<lambda>(A, t, machine). 2 ^ 64 - unat (dataCursor machine))")
  fix A :: "'r arch" and t :: task and machine machine' :: "'r machine" and r ok
  assume "FIRCLSDwarfExpressionMachineExecuteNextOpcode A t machine = Some r" "(ok, machine') = r"
  then have "unat (dataCursor machine) < unat (dataCursor machine')"
    using next_opcode_progress(3) by metis
  moreover have "unat (dataCursor machine') < 2 ^ 64"
    using unat_u64_less [of "dataCursor machine'"] by simp
  ultimately show "((A, t, machine'), (A, t, machine)) \<in>
      measure (\<lambda>(A, t, machine). 2 ^ 64 - unat (dataCursor machine))"
    by simp
qed simp

declare evaluate_loop.simps [simp del]

text \<open>The inner \<^term>\<open>None\<close> is the return value \<open>false\<close>.\<close>

definition FIRCLSDwarfEvalulateExpression ::
    "'r arch \<Rightarrow> task \<Rightarrow> u64 \<Rightarrow> 'r \<Rightarrow> u64 \<Rightarrow> u64 option option" where
  "FIRCLSDwarfEvalulateExpression A t cursor registers stackValue =
     (if \<not> FIRCLSIsValidPointer cursor then Some None
      else let (ok, machine) = FIRCLSDwarfExpressionMachineInit cursor registers stackValue in
        if \<not> ok then Some None
        else do {
          (ok, machine) \<leftarrow> FIRCLSDwarfExpressionMachinePrepareForExecution t machine;
          if \<not> ok then Some None
          else do {
            (ok, machine) \<leftarrow> evaluate_loop A t machine;
            if \<not> ok then Some None
            else Some (FIRCLSDwarfExpressionMachineGetResult machine) } })"

section \<open>What an expression means\<close>

text \<open>The operations of the DWARF standard (section 2.5) that the machine supports, with their
  encoding.\<close>

datatype dwop =
    Dw_lit nat
  | Dw_breg nat int
  | Dw_deref
  | Dw_dup
  | Dw_and
  | Dw_plus
  | Dw_swap
  | Dw_plus_uconst nat
  | Dw_ne
  | Dw_deref_size nat

fun op_bytes :: "dwop \<Rightarrow> byte list" where
  "op_bytes (Dw_lit n) = [0x30 + word_of_nat n]"
| "op_bytes (Dw_breg n v) = (0x70 + word_of_nat n) # sleb_encode v"
| "op_bytes Dw_deref = [0x06]"
| "op_bytes Dw_dup = [0x12]"
| "op_bytes Dw_and = [0x1A]"
| "op_bytes Dw_plus = [0x22]"
| "op_bytes Dw_swap = [0x16]"
| "op_bytes (Dw_plus_uconst n) = 0x23 # uleb_encode n"
| "op_bytes Dw_ne = [0x2E]"
| "op_bytes (Dw_deref_size n) = [0x94, word_of_nat n]"

text \<open>Operands the encoding and the machine can carry.\<close>

fun wf_op :: "'r arch \<Rightarrow> dwop \<Rightarrow> bool" where
  "wf_op A (Dw_lit n) = (n < 32)"
| "wf_op A (Dw_breg n v) =
     (n < 32 \<and> n \<le> unat (CLS_DWARF_MAX_REGISTER_NUM A) \<and> - (2 ^ 27) \<le> v \<and> v < 2 ^ 31)"
| "wf_op A (Dw_plus_uconst n) = (n < 2 ^ 31)"
| "wf_op A (Dw_deref_size n) = (n = 1 \<or> n = 2 \<or> n = 4 \<or> n = 8)"
| "wf_op A _ = True"

datatype 'a outcome = Done 'a | Failed | Faulted

definition push_val :: "u64 \<Rightarrow> u64 list \<Rightarrow> u64 list outcome" where
  "push_val v xs = (if length xs < 100 then Done (v # xs) else Failed)"

text \<open>The stack effect of an operation: an overflow or underflow of the 100-word stack fails, a
  failed checked read fails, an unmapped unchecked read faults.\<close>

fun op_spec :: "'r arch \<Rightarrow> task \<Rightarrow> 'r \<Rightarrow> dwop \<Rightarrow> u64 list \<Rightarrow> u64 list outcome" where
  "op_spec A t r (Dw_lit n) xs = push_val (word_of_nat n) xs"
| "op_spec A t r (Dw_breg n v) xs =
     push_val (FIRCLSDwarfUnwindGetRegisterValue A r (word_of_nat n) + word_of_int v) xs"
| "op_spec A t r Dw_deref (x # xs) =
     (case FIRCLSReadMemory t x 8 of None \<Rightarrow> Failed | Some bs \<Rightarrow> Done (le_word bs # xs))"
| "op_spec A t r Dw_dup (x # xs) = push_val x (x # xs)"
| "op_spec A t r Dw_and (x # y # xs) = Done ((x AND y) # xs)"
| "op_spec A t r Dw_plus (x # y # xs) = Done ((x + y) # xs)"
| "op_spec A t r Dw_swap (x # y # xs) = Done (y # x # xs)"
| "op_spec A t r (Dw_plus_uconst n) (x # xs) = Done ((x + word_of_nat n) # xs)"
| "op_spec A t r Dw_ne (x # y # xs) = Done ((if x \<noteq> y then 1 else 0) # xs)"
| "op_spec A t r (Dw_deref_size n) xs =
     (let x = (case xs of [] \<Rightarrow> 0 | x # _ \<Rightarrow> x) in
      case Option.bind (ptr_add x n) (\<lambda>_. load_bytes t x n) of
        None \<Rightarrow> Faulted
      | Some bs \<Rightarrow> if xs = [] then Failed else Done (le_word bs # tl xs))"
| "op_spec A t r _ _ = Failed"

fun ops_spec :: "'r arch \<Rightarrow> task \<Rightarrow> 'r \<Rightarrow> dwop list \<Rightarrow> u64 list \<Rightarrow> u64 list outcome" where
  "ops_spec A t r [] xs = Done xs"
| "ops_spec A t r (op # ops) xs =
     (case op_spec A t r op xs of Done ys \<Rightarrow> ops_spec A t r ops ys | Failed \<Rightarrow> Failed | Faulted \<Rightarrow> Faulted)"

definition ops_bytes :: "dwop list \<Rightarrow> byte list" where
  "ops_bytes ops = concat (map op_bytes ops)"

text \<open>A block as it stands in the call frame data: the ULEB128 length, then the operations.\<close>

definition expr_bytes :: "dwop list \<Rightarrow> byte list" where
  "expr_bytes ops = uleb_encode (length (ops_bytes ops)) @ ops_bytes ops"

section \<open>Every opcode implements its specification\<close>

lemma machine_push:
  assumes "wf_stack (machine_stack m)" "stack_abs (machine_stack m) = Some xs"
  shows "wf_stack (machine_stack (snd (FIRCLSDwarfExpressionMachineStackPush m v)))"
    "fst (FIRCLSDwarfExpressionMachineStackPush m v) \<longleftrightarrow> length xs < 100"
    "stack_abs (machine_stack (snd (FIRCLSDwarfExpressionMachineStackPush m v))) =
       (if length xs < 100 then Some (v # xs) else None)"
  using stack_push [OF assms, of v] by (simp_all add: FIRCLSDwarfExpressionMachineStackPush_def split_beta)

lemma machine_pop:
  assumes "wf_stack (machine_stack m)" "stack_abs (machine_stack m) = Some (x # xs)"
  shows "fst (FIRCLSDwarfExpressionMachineStackPop m) = x"
    "wf_stack (machine_stack (snd (FIRCLSDwarfExpressionMachineStackPop m)))"
    "stack_abs (machine_stack (snd (FIRCLSDwarfExpressionMachineStackPop m))) = Some xs"
  using stack_pop_Cons [OF assms] by (simp_all add: FIRCLSDwarfExpressionMachineStackPop_def split_beta)

lemma machine_pop_empty:
  assumes "wf_stack (machine_stack m)" "stack_abs (machine_stack m) = Some []"
  shows "fst (FIRCLSDwarfExpressionMachineStackPop m) = 0"
    "stack_abs (machine_stack (snd (FIRCLSDwarfExpressionMachineStackPop m))) = None"
  using stack_pop_Nil [OF assms] by (simp_all add: FIRCLSDwarfExpressionMachineStackPop_def split_beta)

lemma machine_invalid:
  assumes "stack_abs (machine_stack m) = None"
  shows "FIRCLSDwarfExpressionMachineStackPush m v = (False, m)"
    "FIRCLSDwarfExpressionMachineStackPop m = (0, m)"
  using stack_push_invalid [OF assms] stack_pop_invalid [OF assms]
  by (simp_all add: FIRCLSDwarfExpressionMachineStackPush_def FIRCLSDwarfExpressionMachineStackPop_def)

text \<open>\<open>refines m xs r out\<close>: the result \<open>r\<close> of an opcode on a machine \<open>m\<close> realises the
  outcome \<open>out\<close>.\<close>

definition refines :: "(bool \<times> 'r machine) option \<Rightarrow> u64 list outcome \<Rightarrow> bool" where
  "refines r out =
     (case out of
        Faulted \<Rightarrow> r = None
      | Failed \<Rightarrow> (\<exists>m. r = Some (False, m))
      | Done ys \<Rightarrow> (\<exists>m. r = Some (True, m) \<and> wf_stack (machine_stack m) \<and>
                     stack_abs (machine_stack m) = Some ys))"

lemma refines_push:
  assumes "wf_stack (machine_stack m)" "stack_abs (machine_stack m) = Some xs"
  shows "refines (Some (FIRCLSDwarfExpressionMachineStackPush m v)) (push_val v xs)"
  using machine_push [OF assms, of v]
  by (cases "FIRCLSDwarfExpressionMachineStackPush m v") (auto simp: refines_def push_val_def)

lemma refines_push_invalid:
  "stack_abs (machine_stack m) = None \<Longrightarrow>
   refines (Some (FIRCLSDwarfExpressionMachineStackPush m v)) Failed"
  by (simp add: machine_invalid refines_def)

text \<open>The shape of the binary operations: two pops and a push.\<close>

definition binop :: "(u64 \<Rightarrow> u64 \<Rightarrow> u64) \<Rightarrow> 'r machine \<Rightarrow> bool \<times> 'r machine" where
  "binop f m =
     (let (a, m1) = FIRCLSDwarfExpressionMachineStackPop m;
          (b, m2) = FIRCLSDwarfExpressionMachineStackPop m1
      in FIRCLSDwarfExpressionMachineStackPush m2 (f a b))"

lemma refines_binop:
  assumes "wf_stack (machine_stack m)" "stack_abs (machine_stack m) = Some xs"
  shows "refines (Some (binop f m))
     (case xs of x # y # zs \<Rightarrow> Done (f x y # zs) | _ \<Rightarrow> Failed)"
proof -
  define m1 where "m1 = snd (FIRCLSDwarfExpressionMachineStackPop m)"
  define m2 where "m2 = snd (FIRCLSDwarfExpressionMachineStackPop m1)"
  define a where "a = fst (FIRCLSDwarfExpressionMachineStackPop m)"
  define b where "b = fst (FIRCLSDwarfExpressionMachineStackPop m1)"
  have eq: "binop f m = FIRCLSDwarfExpressionMachineStackPush m2 (f a b)"
    by (simp add: binop_def split_beta a_def b_def m1_def m2_def)
  consider "xs = []" | x where "xs = [x]" | x y zs where "xs = x # y # zs"
    by (metis list.exhaust)
  then show ?thesis
  proof cases
    case 1
    then have "stack_abs (machine_stack m1) = None"
      using machine_pop_empty assms by (simp add: m1_def)
    then have "stack_abs (machine_stack m2) = None" by (simp add: m2_def machine_invalid)
    then show ?thesis using 1 by (simp add: eq refines_push_invalid)
  next
    case 2
    then have "wf_stack (machine_stack m1)" "stack_abs (machine_stack m1) = Some []"
      using machine_pop assms by (simp_all add: m1_def)
    then have "stack_abs (machine_stack m2) = None"
      using machine_pop_empty by (simp add: m2_def)
    then show ?thesis using 2 by (simp add: eq refines_push_invalid)
  next
    case 3
    then have 1: "wf_stack (machine_stack m1)" "stack_abs (machine_stack m1) = Some (y # zs)" "a = x"
      using machine_pop assms by (simp_all add: m1_def a_def)
    then have 2: "wf_stack (machine_stack m2)" "stack_abs (machine_stack m2) = Some zs" "b = y"
      using machine_pop [OF 1(1,2)] by (simp_all add: m2_def b_def)
    have "length zs < 100" using stack_abs_length [OF assms] 3 by simp
    then show ?thesis
      using refines_push [OF 2(1,2), of "f a b"] 1 2 3 by (simp add: eq push_val_def)
  qed
qed

lemma binop_opcodes:
  "FIRCLSDwarfExpressionMachineExecute_and m = binop (AND) m"
  "FIRCLSDwarfExpressionMachineExecute_plus m = binop (+) m"
  "FIRCLSDwarfExpressionMachineExecute_ne m = binop (\<lambda>a b. if a \<noteq> b then 1 else 0) m"
  by (simp_all add: binop_def FIRCLSDwarfExpressionMachineExecute_and_def
      FIRCLSDwarfExpressionMachineExecute_plus_def FIRCLSDwarfExpressionMachineExecute_ne_def)

lemma refines_swap:
  assumes "wf_stack (machine_stack m)" "stack_abs (machine_stack m) = Some xs"
  shows "refines (Some (FIRCLSDwarfExpressionMachineExecute_swap m)) (op_spec A t r Dw_swap xs)"
proof -
  define m1 where "m1 = snd (FIRCLSDwarfExpressionMachineStackPop m)"
  define m2 where "m2 = snd (FIRCLSDwarfExpressionMachineStackPop m1)"
  define a where "a = fst (FIRCLSDwarfExpressionMachineStackPop m)"
  define b where "b = fst (FIRCLSDwarfExpressionMachineStackPop m1)"
  define p where "p = FIRCLSDwarfExpressionMachineStackPush m2 a"
  have eq: "FIRCLSDwarfExpressionMachineExecute_swap m =
      (if \<not> fst p then (False, snd p) else FIRCLSDwarfExpressionMachineStackPush (snd p) b)"
    by (simp add: FIRCLSDwarfExpressionMachineExecute_swap_def split_beta Let_def
        a_def b_def m1_def m2_def p_def)
  consider "xs = []" | x where "xs = [x]" | x y zs where "xs = x # y # zs"
    by (metis list.exhaust)
  then show ?thesis
  proof cases
    case 1
    then have "stack_abs (machine_stack m1) = None"
      using machine_pop_empty assms by (simp add: m1_def)
    then have "stack_abs (machine_stack m2) = None" by (simp add: m2_def machine_invalid)
    then show ?thesis using 1 by (simp add: eq p_def machine_invalid refines_def)
  next
    case 2
    then have "wf_stack (machine_stack m1)" "stack_abs (machine_stack m1) = Some []"
      using machine_pop assms by (simp_all add: m1_def)
    then have "stack_abs (machine_stack m2) = None"
      using machine_pop_empty by (simp add: m2_def)
    then show ?thesis using 2 by (simp add: eq p_def machine_invalid refines_def)
  next
    case 3
    then have 1: "wf_stack (machine_stack m1)" "stack_abs (machine_stack m1) = Some (y # zs)" "a = x"
      using machine_pop assms by (simp_all add: m1_def a_def)
    then have 2: "wf_stack (machine_stack m2)" "stack_abs (machine_stack m2) = Some zs" "b = y"
      using machine_pop [OF 1(1,2)] by (simp_all add: m2_def b_def)
    have len: "length zs < 99" using stack_abs_length [OF assms] 3 by simp
    then have "fst p" "wf_stack (machine_stack (snd p))" "stack_abs (machine_stack (snd p)) = Some (x # zs)"
      using machine_push [OF 2(1,2), of a] 1 by (simp_all add: p_def)
    then show ?thesis
      using refines_push [of "snd p" "x # zs" b] 2 3 len by (simp add: eq push_val_def)
  qed
qed

lemma refines_dup:
  assumes "wf_stack (machine_stack m)" "stack_abs (machine_stack m) = Some xs"
  shows "refines (Some (FIRCLSDwarfExpressionMachineExecute_dup m)) (op_spec A t r Dw_dup xs)"
proof (cases xs)
  case Nil
  then show ?thesis using stack_pop_Nil [of "machine_stack m"] assms
    by (simp add: FIRCLSDwarfExpressionMachineExecute_dup_def)
      (simp add: refines_push_invalid stack_abs_def)
next
  case (Cons x ys)
  then show ?thesis using stack_pop_Cons [of "machine_stack m"] assms refines_push [OF assms, of x]
    by (simp add: FIRCLSDwarfExpressionMachineExecute_dup_def)
qed

lemma refines_deref:
  assumes "wf_stack (machine_stack m)" "stack_abs (machine_stack m) = Some xs"
  shows "refines (FIRCLSDwarfExpressionMachineExecute_deref t m) (op_spec A t r Dw_deref xs)"
proof (cases xs)
  case Nil
  then have "fst (FIRCLSDwarfExpressionMachineStackPop m) = 0" using machine_pop_empty assms by simp
  then show ?thesis
    by (simp add: Nil FIRCLSDwarfExpressionMachineExecute_deref_def split_beta refines_def
        FIRCLSReadMemory_def FIRCLSIsValidPointer_def)
next
  case (Cons x ys)
  let ?p = "FIRCLSDwarfExpressionMachineStackPop m"
  have p: "fst ?p = x" "wf_stack (machine_stack (snd ?p))" "stack_abs (machine_stack (snd ?p)) = Some ys"
    using machine_pop assms Cons by simp_all
  have "length ys < 100" using stack_abs_length [OF assms] Cons by simp
  then show ?thesis using refines_push [OF p(2,3)] p(1)
    by (auto simp: Cons FIRCLSDwarfExpressionMachineExecute_deref_def split_beta push_val_def
        refines_def split: option.splits)
qed

lemma refines_plus_uconst:
  assumes "wf_stack (machine_stack m)" "stack_abs (machine_stack m) = Some xs"
    and "FIRCLSParseULEB128AndAdvance t (dataCursor m) = Some (word_of_nat n, c)"
  shows "refines (FIRCLSDwarfExpressionMachineExecute_plus_uconst t m) (op_spec A t r (Dw_plus_uconst n) xs)"
proof (cases xs)
  case Nil
  then have "stack_abs (machine_stack (snd (FIRCLSDwarfExpressionMachineStackPop m))) = None"
    using machine_pop_empty assms by simp
  then show ?thesis using assms(3)
    by (simp add: Nil FIRCLSDwarfExpressionMachineExecute_plus_uconst_def split_beta refines_push_invalid)
next
  case (Cons x ys)
  let ?p = "FIRCLSDwarfExpressionMachineStackPop m"
  have p: "fst ?p = x" "wf_stack (machine_stack (snd ?p))" "stack_abs (machine_stack (snd ?p)) = Some ys"
    using machine_pop assms Cons by simp_all
  have "length ys < 100" using stack_abs_length [OF assms(1,2)] Cons by simp
  then show ?thesis
    using refines_push [of "snd ?p\<lparr>dataCursor := c\<rparr>" ys] p assms(3)
    by (simp add: Cons FIRCLSDwarfExpressionMachineExecute_plus_uconst_def split_beta push_val_def)
qed

lemma ucast_le_word:
  assumes "256 ^ length bs \<le> (2::nat) ^ LENGTH('a)" "256 ^ length bs \<le> (2::nat) ^ LENGTH('b)"
  shows "(ucast (le_word bs :: 'a::len word) :: 'b::len word) = le_word bs"
proof -
  have "le_nat bs < 2 ^ LENGTH('a)" using le_nat_less [of bs] assms(1) by linarith
  then show ?thesis
    by (simp add: le_word_def word_unat_eq_iff unsigned_ucast_eq unat_of_nat take_bit_nat_eq_self
        flip: take_bit_eq_mod)
qed

text \<open>The value of a reader, without its cursor.\<close>

definition read_value :: "task \<Rightarrow> u64 \<Rightarrow> nat \<Rightarrow> u64 option" where
  "read_value t p n = map_option le_word (Option.bind (ptr_add p n) (\<lambda>_. load_bytes t p n))"

lemma reader_bind:
  "Option.bind (FIRCLSParseUint8AndAdvance t p) (\<lambda>(v, _). Some (f (ucast v))) = map_option f (read_value t p 1)"
  "Option.bind (FIRCLSParseUint16AndAdvance t p) (\<lambda>(v, _). Some (f (ucast v))) = map_option f (read_value t p 2)"
  "Option.bind (FIRCLSParseUint32AndAdvance t p) (\<lambda>(v, _). Some (f (ucast v))) = map_option f (read_value t p 4)"
  "Option.bind (FIRCLSParseUint64AndAdvance t p) (\<lambda>(v, _). Some (f v)) = map_option f (read_value t p 8)"
  unfolding read_value_def fixed_reader_defs parse_bytes_def
     apply (cases "deref t p"; simp add: ptr_add_def le_word_def)
    apply (cases "load_bytes t p 2"; simp add: ptr_add_def ucast_le_word load_bytes_length)
   apply (cases "load_bytes t p 4"; simp add: ptr_add_def ucast_le_word load_bytes_length)
  apply (cases "load_bytes t p 8"; simp add: ptr_add_def)
  done

lemma refines_bregN:
  assumes "wf_stack (machine_stack m)" "stack_abs (machine_stack m) = Some xs"
    and "FIRCLSParseLEB128AndAdvance t (dataCursor m) = Some (word_of_int v, c)"
    and "machine_registers m = Some r" "n < 32" "n \<le> unat (CLS_DWARF_MAX_REGISTER_NUM A)"
  shows "refines (FIRCLSDwarfExpressionMachineExecute_bregN A t m (0x70 + word_of_nat n))
    (op_spec A t r (Dw_breg n v) xs)"
proof -
  have "ucast (word_of_nat n :: byte) = (word_of_nat n :: u64)"
    using assms(5) by (simp add: word_unat_eq_iff unsigned_ucast_eq unat_of_nat take_bit_nat_eq_self)
  moreover have "\<not> word_of_nat n > CLS_DWARF_MAX_REGISTER_NUM A"
    using assms(5,6) by (simp add: word_less_nat_alt unat_of_nat)
  ultimately show ?thesis
    using assms(3,4) refines_push [of "m\<lparr>dataCursor := c\<rparr>" xs] assms(1,2)
    by (simp add: FIRCLSDwarfExpressionMachineExecute_bregN_def Let_def)
qed

text \<open>The four sizes of \<open>DW_OP_deref_size\<close> read the same way.\<close>

lemma deref_size_read:
  assumes "n = 1 \<or> n = 2 \<or> n = 4 \<or> n = 8"
    and "FIRCLSParseUint8AndAdvance t (dataCursor m) = Some (word_of_nat n, c)"
  shows "FIRCLSDwarfExpressionMachineExecute_deref_size t m =
    (let (a, m1) = FIRCLSDwarfExpressionMachineStackPop m in
     map_option (FIRCLSDwarfExpressionMachineStackPush (m1\<lparr>dataCursor := c\<rparr>)) (read_value t a n))"
  using assms
  by (auto simp: FIRCLSDwarfExpressionMachineExecute_deref_size_def split_beta Let_def
      reader_bind [simplified])

lemma refines_deref_size:
  assumes "wf_stack (machine_stack m)" "stack_abs (machine_stack m) = Some xs"
    and "n = 1 \<or> n = 2 \<or> n = 4 \<or> n = 8"
    and "FIRCLSParseUint8AndAdvance t (dataCursor m) = Some (word_of_nat n, c)"
  shows "refines (FIRCLSDwarfExpressionMachineExecute_deref_size t m)
    (op_spec A t r (Dw_deref_size n) xs)"
proof (cases xs)
  case Nil
  let ?p = "FIRCLSDwarfExpressionMachineStackPop m"
  have p: "fst ?p = 0" "stack_abs (machine_stack (snd ?p)) = None"
    using machine_pop_empty assms(1,2) Nil by simp_all
  then have "refines (Some (FIRCLSDwarfExpressionMachineStackPush (snd ?p\<lparr>dataCursor := c\<rparr>) v)) Failed" for v
    by (simp add: refines_push_invalid)
  then show ?thesis using p(1) Nil
    by (auto simp: deref_size_read [OF assms(3,4)] split_beta read_value_def Let_def refines_def
        split: option.splits)
next
  case (Cons x ys)
  let ?p = "FIRCLSDwarfExpressionMachineStackPop m"
  have p: "fst ?p = x" "wf_stack (machine_stack (snd ?p))" "stack_abs (machine_stack (snd ?p)) = Some ys"
    using machine_pop assms(1,2) Cons by simp_all
  have "length ys < 100" using stack_abs_length [OF assms(1,2)] Cons by simp
  then have "refines (Some (FIRCLSDwarfExpressionMachineStackPush (snd ?p\<lparr>dataCursor := c\<rparr>) v)) (Done (v # ys))" for v
    using refines_push [of "snd ?p\<lparr>dataCursor := c\<rparr>" ys v] p by (simp add: push_val_def)
  then show ?thesis using p(1) Cons
    by (auto simp: deref_size_read [OF assms(3,4)] split_beta read_value_def Let_def refines_def
        split: option.splits)
qed

lemma opcode_byte [simp]:
  "n < 32 \<Longrightarrow> (0x30 :: byte) \<le> 0x30 + word_of_nat n \<and> 0x30 + word_of_nat n \<le> (0x4F :: byte)"
  "n < 32 \<Longrightarrow> (0x70 :: byte) \<le> 0x70 + word_of_nat n \<and> 0x70 + word_of_nat n \<le> (0x8F :: byte)"
  by (simp_all add: word_le_nat_alt unat_word_ariths unat_of_nat)

lemma uint8_holds:
  "deref t c = Some b \<Longrightarrow> unat c + 1 < 2 ^ 64 \<Longrightarrow> FIRCLSParseUint8AndAdvance t c = Some (b, c + 1)"
  by (simp add: FIRCLSParseUint8AndAdvance_def ptr_add_def)

lemma next_opcode_lit:
  assumes "n < 32" "FIRCLSParseUint8AndAdvance t (dataCursor m) = Some (0x30 + word_of_nat n, c)"
  shows "FIRCLSDwarfExpressionMachineExecuteNextOpcode A t m =
    Some (FIRCLSDwarfExpressionMachineStackPush (m\<lparr>dataCursor := c\<rparr>) (word_of_nat n))"
proof -
  have "n \<in> {0,1,2,3,4,5,6,7,8,9,10,11,12,13,14,15,16,17,18,19,20,21,22,23,24,25,26,27,28,29,30,31}"
    using assms(1) by (simp; arith)
  then have ne: "(0x30 + word_of_nat n :: byte) \<noteq> 0x06" "(0x30 + word_of_nat n :: byte) \<noteq> 0x12"
    "(0x30 + word_of_nat n :: byte) \<noteq> 0x1A" "(0x30 + word_of_nat n :: byte) \<noteq> 0x22"
    "(0x30 + word_of_nat n :: byte) \<noteq> 0x16" "(0x30 + word_of_nat n :: byte) \<noteq> 0x23"
    "(0x30 + word_of_nat n :: byte) \<noteq> 0x2E"
    by (simp_all add: word_unat_eq_iff unat_word_ariths unat_of_nat) (use assms(1) in simp_all)
  have "(ucast (word_of_nat n :: byte) :: u64) = word_of_nat n"
    using assms(1) by (simp add: word_unat_eq_iff unsigned_ucast_eq unat_of_nat take_bit_nat_eq_self)
  then show ?thesis
    using assms ne opcode_byte(1) [OF assms(1)]
    by (simp add: FIRCLSDwarfExpressionMachineExecuteNextOpcode_def
        FIRCLSDwarfExpressionMachineExecute_litN_def)
qed

lemma next_opcode_breg:
  assumes "n < 32" "FIRCLSParseUint8AndAdvance t (dataCursor m) = Some (0x70 + word_of_nat n, c)"
  shows "FIRCLSDwarfExpressionMachineExecuteNextOpcode A t m =
    FIRCLSDwarfExpressionMachineExecute_bregN A t (m\<lparr>dataCursor := c\<rparr>) (0x70 + word_of_nat n)"
proof -
  have ne: "x \<noteq> 0x06 \<and> x \<noteq> 0x12 \<and> x \<noteq> 0x1A \<and> x \<noteq> 0x22 \<and> x \<noteq> 0x16 \<and> x \<noteq> 0x23 \<and>
      x \<noteq> 0x2E \<and> \<not> x \<le> 0x4F" if "0x70 \<le> x" for x :: byte
    using that by (auto simp: word_le_nat_alt)
  show ?thesis
    using assms opcode_byte(2) [OF assms(1)] ne [of "0x70 + word_of_nat n"]
    by (simp add: FIRCLSDwarfExpressionMachineExecuteNextOpcode_def)
qed

lemma next_opcode_fixed:
  assumes "FIRCLSParseUint8AndAdvance t (dataCursor m) = Some (b, c)"
  shows
    "b = 0x06 \<Longrightarrow> FIRCLSDwarfExpressionMachineExecuteNextOpcode A t m =
       FIRCLSDwarfExpressionMachineExecute_deref t (m\<lparr>dataCursor := c\<rparr>)"
    "b = 0x12 \<Longrightarrow> FIRCLSDwarfExpressionMachineExecuteNextOpcode A t m =
       Some (FIRCLSDwarfExpressionMachineExecute_dup (m\<lparr>dataCursor := c\<rparr>))"
    "b = 0x1A \<Longrightarrow> FIRCLSDwarfExpressionMachineExecuteNextOpcode A t m =
       Some (binop (AND) (m\<lparr>dataCursor := c\<rparr>))"
    "b = 0x22 \<Longrightarrow> FIRCLSDwarfExpressionMachineExecuteNextOpcode A t m =
       Some (binop (+) (m\<lparr>dataCursor := c\<rparr>))"
    "b = 0x16 \<Longrightarrow> FIRCLSDwarfExpressionMachineExecuteNextOpcode A t m =
       Some (FIRCLSDwarfExpressionMachineExecute_swap (m\<lparr>dataCursor := c\<rparr>))"
    "b = 0x23 \<Longrightarrow> FIRCLSDwarfExpressionMachineExecuteNextOpcode A t m =
       FIRCLSDwarfExpressionMachineExecute_plus_uconst t (m\<lparr>dataCursor := c\<rparr>)"
    "b = 0x2E \<Longrightarrow> FIRCLSDwarfExpressionMachineExecuteNextOpcode A t m =
       Some (binop (\<lambda>a b. if a \<noteq> b then 1 else 0) (m\<lparr>dataCursor := c\<rparr>))"
    "b = 0x94 \<Longrightarrow> FIRCLSDwarfExpressionMachineExecuteNextOpcode A t m =
       FIRCLSDwarfExpressionMachineExecute_deref_size t (m\<lparr>dataCursor := c\<rparr>)"
  using assms by (simp_all add: FIRCLSDwarfExpressionMachineExecuteNextOpcode_def binop_opcodes)

lemma op_bytes_Cons: "\<exists>b bs. op_bytes op = b # bs"
  by (cases op) auto

lemma next_opcode_refines:
  assumes "wf_stack (machine_stack m)" "stack_abs (machine_stack m) = Some xs"
    and "holds t (dataCursor m) (op_bytes op)" "unat (dataCursor m) + length (op_bytes op) < 2 ^ 64"
    and "wf_op A op" "machine_registers m = Some r"
  shows "refines (FIRCLSDwarfExpressionMachineExecuteNextOpcode A t m) (op_spec A t r op xs)"
proof -
  obtain b bs where op: "op_bytes op = b # bs" using op_bytes_Cons by blast
  define c where "c = dataCursor m + 1"
  define m1 where "m1 = m\<lparr>dataCursor := c\<rparr>"
  have uc: "unat c = unat (dataCursor m) + 1"
    using unat_add_small [of "dataCursor m" 1] assms(4) op by (simp add: c_def)
  have rd: "FIRCLSParseUint8AndAdvance t (dataCursor m) = Some (b, c)"
    using assms(3,4) op by (simp add: uint8_holds holds_Cons c_def)
  have bs: "holds t c bs" "unat c + length bs < 2 ^ 64"
    using assms(3,4) op uc by (simp_all add: holds_Cons c_def)
  have m1: "wf_stack (machine_stack m1)" "stack_abs (machine_stack m1) = Some xs"
    "machine_registers m1 = Some r" "dataCursor m1 = c"
    using assms by (simp_all add: m1_def)
  note fixed = next_opcode_fixed [OF rd, of A, folded m1_def]
  show ?thesis
  proof (cases op)
    case (Dw_lit n)
    then show ?thesis
      using next_opcode_lit [of n t m c A, folded m1_def] refines_push [OF m1(1,2)] assms(5) rd op
      by simp
  next
    case (Dw_breg n v)
    then have rd1: "FIRCLSParseLEB128AndAdvance t (dataCursor m1) =
        Some (word_of_int v, c + word_of_nat (length bs))"
      using sleb_decode_encode_aux [of t c v] bs op assms(5) m1(4) by simp
    have n: "n < 32" "n \<le> unat (CLS_DWARF_MAX_REGISTER_NUM A)" and b: "b = 0x70 + word_of_nat n"
      using Dw_breg assms(5) op by auto
    show ?thesis
      using next_opcode_breg [OF n(1) rd [unfolded b], of A, folded m1_def]
        refines_bregN [OF m1(1,2) rd1 m1(3) n]
      by (simp add: Dw_breg)
  next
    case (Dw_plus_uconst n)
    then have "FIRCLSParseULEB128AndAdvance t (dataCursor m1) = Some (word_of_nat n, c + word_of_nat (length bs))"
      using uleb_decode_encode_aux [of t c n] bs op assms(5) m1(4) by simp
    then show ?thesis
      using fixed(6) refines_plus_uconst [OF m1(1,2)] op Dw_plus_uconst by simp
  next
    case (Dw_deref_size n)
    then have "FIRCLSParseUint8AndAdvance t (dataCursor m1) = Some (word_of_nat n, c + 1)"
      using bs op m1(4) by (auto simp: uint8_holds holds_Cons)
    then show ?thesis
      using fixed(8) refines_deref_size [OF m1(1,2)] op Dw_deref_size assms(5) by simp
  next
    case Dw_deref
    then show ?thesis using fixed(1) refines_deref [OF m1(1,2)] op by simp
  next
    case Dw_dup
    then show ?thesis using fixed(2) refines_dup [OF m1(1,2)] op by simp
  next
    case Dw_swap
    then show ?thesis using fixed(5) refines_swap [OF m1(1,2)] op by simp
  next
    case Dw_and
    then show ?thesis using fixed(3) refines_binop [OF m1(1,2), of "(AND)"] op
      by (auto split: list.splits)
  next
    case Dw_plus
    then show ?thesis using fixed(4) refines_binop [OF m1(1,2), of "(+)"] op
      by (auto split: list.splits)
  next
    case Dw_ne
    then show ?thesis using fixed(7) refines_binop [OF m1(1,2), of "\<lambda>a b. if a \<noteq> b then 1 else 0"] op
      by (auto split: list.splits)
  qed
qed

lemma execute_cursor:
  "dataCursor (snd (FIRCLSDwarfExpressionMachineExecute_dup m)) = dataCursor m"
  "dataCursor (snd (binop f m)) = dataCursor m"
  "dataCursor (snd (FIRCLSDwarfExpressionMachineExecute_swap m)) = dataCursor m"
  by (simp_all add: split_beta Let_def binop_def FIRCLSDwarfExpressionMachineExecute_dup_def
      FIRCLSDwarfExpressionMachineExecute_swap_def)

lemma deref_cursor:
  "FIRCLSDwarfExpressionMachineExecute_deref t m = Some r \<Longrightarrow> dataCursor (snd r) = dataCursor m"
  by (auto simp: split_beta Let_def FIRCLSDwarfExpressionMachineExecute_deref_def split: option.splits)

lemma plus_uconst_cursor:
  "FIRCLSDwarfExpressionMachineExecute_plus_uconst t m = Some r \<Longrightarrow>
   FIRCLSParseULEB128AndAdvance t (dataCursor m) = Some (v, c) \<Longrightarrow> dataCursor (snd r) = c"
  by (auto simp: split_beta Let_def FIRCLSDwarfExpressionMachineExecute_plus_uconst_def)

lemma bregN_cursor:
  "FIRCLSDwarfExpressionMachineExecute_bregN A t m b = Some (True, m') \<Longrightarrow>
   FIRCLSParseLEB128AndAdvance t (dataCursor m) = Some (v, c) \<Longrightarrow> dataCursor m' = c"
  using machine_push_frame(1)
  by (fastforce simp: Let_def bind_Some_iff FIRCLSDwarfExpressionMachineExecute_bregN_def
      split: if_splits dest: arg_cong [where f = snd])

lemma deref_size_cursor:
  assumes "FIRCLSDwarfExpressionMachineExecute_deref_size t m = Some (ok, m')"
    "n = 1 \<or> n = 2 \<or> n = 4 \<or> n = 8"
    "FIRCLSParseUint8AndAdvance t (dataCursor m) = Some (word_of_nat n, c)"
  shows "dataCursor m' = c"
proof -
  let ?m1 = "snd (FIRCLSDwarfExpressionMachineStackPop m)\<lparr>dataCursor := c\<rparr>"
  obtain v where "FIRCLSDwarfExpressionMachineStackPush ?m1 v = (ok, m')"
    using assms(1) unfolding deref_size_read [OF assms(2,3)] by (auto simp: split_beta)
  then show ?thesis using machine_push_frame(1) [of ?m1 v] by simp
qed

lemma next_opcode_cursor:
  assumes "FIRCLSDwarfExpressionMachineExecuteNextOpcode A t m = Some (True, m')"
    and "holds t (dataCursor m) (op_bytes op)" "unat (dataCursor m) + length (op_bytes op) < 2 ^ 64"
    and "wf_op A op"
  shows "dataCursor m' = dataCursor m + word_of_nat (length (op_bytes op))"
proof -
  obtain b bs where op: "op_bytes op = b # bs" using op_bytes_Cons by blast
  define c where "c = dataCursor m + 1"
  define m1 where "m1 = m\<lparr>dataCursor := c\<rparr>"
  have uc: "unat c = unat (dataCursor m) + 1"
    using unat_add_small [of "dataCursor m" 1] assms(3) op by (simp add: c_def)
  have rd: "FIRCLSParseUint8AndAdvance t (dataCursor m) = Some (b, c)"
    using assms(2,3) op by (simp add: uint8_holds holds_Cons c_def)
  have bs: "holds t c bs" "unat c + length bs < 2 ^ 64"
    using assms(2,3) op uc by (simp_all add: holds_Cons c_def)
  have m1: "dataCursor m1 = c" by (simp add: m1_def)
  have eq: "dataCursor m + word_of_nat (length (op_bytes op)) = c + word_of_nat (length bs)"
    by (simp add: op c_def algebra_simps)
  note fixed = next_opcode_fixed [OF rd, of A, folded m1_def]
  have "dataCursor m' = c + word_of_nat (length bs)"
  proof (cases op)
    case (Dw_lit n)
    then have n: "n < 32" "b = 0x30 + word_of_nat n" "bs = []" using assms(4) op by auto
    from assms(1) have "FIRCLSDwarfExpressionMachineStackPush m1 (word_of_nat n) = (True, m')"
      using next_opcode_lit [OF n(1) rd [unfolded n(2)], of A, folded m1_def] by simp
    then show ?thesis using machine_push_frame(1) [of m1 "word_of_nat n"] n(3) m1 by simp
  next
    case (Dw_breg n v)
    then have n: "n < 32" "b = 0x70 + word_of_nat n" using assms(4) op by auto
    have "FIRCLSParseLEB128AndAdvance t (dataCursor m1) = Some (word_of_int v, c + word_of_nat (length bs))"
      using sleb_decode_encode_aux [of t c v] bs op assms(4) m1 Dw_breg by simp
    then show ?thesis
      using bregN_cursor assms(1) next_opcode_breg [OF n(1) rd [unfolded n(2)], of A, folded m1_def]
      by metis
  next
    case (Dw_plus_uconst n)
    then have "FIRCLSParseULEB128AndAdvance t (dataCursor m1) = Some (word_of_nat n, c + word_of_nat (length bs))"
      using uleb_decode_encode_aux [of t c n] bs op assms(4) m1 by simp
    then show ?thesis
      using plus_uconst_cursor [of t m1 "(True, m')"] assms(1) fixed(6) op Dw_plus_uconst by simp
  next
    case (Dw_deref_size n)
    then have "FIRCLSParseUint8AndAdvance t (dataCursor m1) = Some (word_of_nat n, c + 1)"
      using bs op m1 by (auto simp: uint8_holds holds_Cons)
    then show ?thesis
      using deref_size_cursor [of t m1 True m' n] assms(1,4) fixed(8) op Dw_deref_size by auto
  next
    case Dw_deref
    then show ?thesis using deref_cursor [of t m1 "(True, m')"] assms(1) fixed(1) op m1 by auto
  next
    case Dw_dup
    then show ?thesis using execute_cursor(1) [of m1] assms(1) fixed(2) op m1 by (auto dest: sym)
  next
    case Dw_swap
    then show ?thesis using execute_cursor(3) [of m1] assms(1) fixed(5) op m1 by (auto dest: sym)
  next
    case Dw_and
    then show ?thesis using execute_cursor(2) [of "(AND)" m1] assms(1) fixed(3) op m1 by (auto dest: sym)
  next
    case Dw_plus
    then show ?thesis using execute_cursor(2) [of "(+)" m1] assms(1) fixed(4) op m1 by (auto dest: sym)
  next
    case Dw_ne
    then show ?thesis using execute_cursor(2) [of "\<lambda>a b. if a \<noteq> b then 1 else 0" m1] assms(1) fixed(7) op m1 by (auto dest: sym)
  qed
  then show ?thesis by (simp add: eq)
qed

section \<open>Running a whole expression implements its meaning\<close>

lemma ops_bytes_simps [simp]:
  "ops_bytes [] = []" "ops_bytes (op # ops) = op_bytes op @ ops_bytes ops"
  by (simp_all add: ops_bytes_def)

lemma valid_pointer_mono:
  "FIRCLSIsValidPointer c \<Longrightarrow> unat c \<le> unat d \<Longrightarrow> FIRCLSIsValidPointer d"
  by (simp add: FIRCLSIsValidPointer_def word_le_nat_alt)

text \<open>What the loop returns for an outcome of the specification.\<close>

definition loop_refines :: "(bool \<times> 'r machine) option \<Rightarrow> u64 list outcome \<Rightarrow> bool" where
  "loop_refines r out =
     (case out of
        Faulted \<Rightarrow> r = None
      | Failed \<Rightarrow> (\<exists>m. r = Some (False, m))
      | Done ys \<Rightarrow> (\<exists>m. r = Some (True, m) \<and> wf_stack (machine_stack m) \<and>
                     stack_abs (machine_stack m) = Some ys \<and> dataCursor m = endAddress m))"

lemma evaluate_loop_refines:
  assumes "wf_stack (machine_stack m)" "stack_abs (machine_stack m) = Some xs"
    and "machine_registers m = Some r" "list_all (wf_op A) ops"
    and "holds t (dataCursor m) (ops_bytes ops)" "unat (dataCursor m) + length (ops_bytes ops) < 2 ^ 64"
    and "endAddress m = dataCursor m + word_of_nat (length (ops_bytes ops))"
    and "FIRCLSIsValidPointer (dataCursor m)"
  shows "loop_refines (evaluate_loop A t m) (ops_spec A t r ops xs)"
  using assms
proof (induction ops arbitrary: m xs)
  case Nil
  then have "FIRCLSDwarfExpressionMachineIsFinished m"
    by (simp add: FIRCLSDwarfExpressionMachineIsFinished_def)
  then show ?case using Nil by (subst evaluate_loop.simps) (simp add: loop_refines_def)
next
  case (Cons op ops)
  define n where "n = length (op_bytes op)"
  have n: "0 < n" using op_bytes_Cons [of op] by (auto simp: n_def)
  have ue: "unat (endAddress m) = unat (dataCursor m) + length (ops_bytes (op # ops))"
    unfolding Cons.prems(7) by (rule unat_add_small [OF Cons.prems(6)])
  have ve: "FIRCLSIsValidPointer (endAddress m)"
    using valid_pointer_mono [OF Cons.prems(8)] ue by simp
  have notfin: "\<not> FIRCLSDwarfExpressionMachineIsFinished m"
    using Cons.prems(8) ve stack_valid_abs [OF Cons.prems(1)] Cons.prems(2) ue n
    by (simp add: FIRCLSDwarfExpressionMachineIsFinished_def n_def word_le_nat_alt)
  have mem: "holds t (dataCursor m) (op_bytes op)" "unat (dataCursor m) + n < 2 ^ 64"
    "holds t (dataCursor m + word_of_nat n) (ops_bytes ops)" "wf_op A op" "list_all (wf_op A) ops"
    using Cons.prems(4,5,6) by (simp_all add: holds_append n_def)
  define res where "res = FIRCLSDwarfExpressionMachineExecuteNextOpcode A t m"
  have ref: "refines res (op_spec A t r op xs)"
    unfolding res_def using next_opcode_refines Cons.prems mem by (metis n_def)
  have step: "evaluate_loop A t m = (case res of None \<Rightarrow> None
      | Some (ok, m') \<Rightarrow> if \<not> ok then Some (False, m') else evaluate_loop A t m')"
    by (subst evaluate_loop.simps) (simp add: notfin res_def)
  show ?case
  proof (cases "op_spec A t r op xs")
    case Faulted
    then show ?thesis using ref by (simp add: step refines_def loop_refines_def)
  next
    case Failed
    then show ?thesis using ref by (auto simp: step refines_def loop_refines_def)
  next
    case (Done ys)
    then obtain m' where m': "res = Some (True, m')" "wf_stack (machine_stack m')"
        "stack_abs (machine_stack m') = Some ys"
      using ref by (auto simp: refines_def)
    note fr = next_opcode_progress [OF m'(1) [unfolded res_def]]
    have cur: "dataCursor m' = dataCursor m + word_of_nat n"
      using next_opcode_cursor [OF m'(1) [unfolded res_def] mem(1)] mem by (simp add: n_def)
    have uc: "unat (dataCursor m') = unat (dataCursor m) + n"
      using unat_add_small mem(2) by (simp add: cur)
    have "loop_refines (evaluate_loop A t m') (ops_spec A t r ops ys)"
    proof (rule Cons.IH [OF m'(2,3) _ mem(5)])
      show "machine_registers m' = Some r" using fr(2) Cons.prems(3) by simp
      show "holds t (dataCursor m') (ops_bytes ops)" using mem(3) cur by simp
      show "unat (dataCursor m') + length (ops_bytes ops) < 2 ^ 64"
        using Cons.prems(6) uc by (simp add: n_def)
      show "endAddress m' = dataCursor m' + word_of_nat (length (ops_bytes ops))"
        using fr(1) Cons.prems(7) by (simp add: cur n_def algebra_simps)
      show "FIRCLSIsValidPointer (dataCursor m')" using valid_pointer_mono [OF Cons.prems(8)] uc by simp
    qed
    then show ?thesis using Done by (simp add: step m')
  qed
qed

text \<open>What the caller sees of an expression.\<close>

definition expr_result :: "u64 list outcome \<Rightarrow> u64 option option" where
  "expr_result out = (case out of
     Faulted \<Rightarrow> None | Failed \<Rightarrow> Some None | Done [] \<Rightarrow> Some None | Done (y # _) \<Rightarrow> Some (Some y))"

lemma ops_bytes_empty: "ops_bytes ops = [] \<longleftrightarrow> ops = []"
  using op_bytes_Cons by (cases ops) (auto, metis list.distinct(1))

lemma init_stack:
  "fst (FIRCLSDwarfExpressionStackPush FIRCLSDwarfExpressionStackInit v)"
  "wf_stack (snd (FIRCLSDwarfExpressionStackPush FIRCLSDwarfExpressionStackInit v))"
  "stack_abs (snd (FIRCLSDwarfExpressionStackPush FIRCLSDwarfExpressionStackInit v)) = Some [v]"
proof -
  have "wf_stack FIRCLSDwarfExpressionStackInit" "stack_abs FIRCLSDwarfExpressionStackInit = Some []"
    by (simp_all add: wf_stack_def stack_abs_def FIRCLSDwarfExpressionStackInit_def
        CLS_DWARF_EXPRESSION_STACK_SIZE_def)
  from stack_push [OF this, of v] show
    "fst (FIRCLSDwarfExpressionStackPush FIRCLSDwarfExpressionStackInit v)"
    "wf_stack (snd (FIRCLSDwarfExpressionStackPush FIRCLSDwarfExpressionStackInit v))"
    "stack_abs (snd (FIRCLSDwarfExpressionStackPush FIRCLSDwarfExpressionStackInit v)) = Some [v]"
    by simp_all
qed

lemma evaluate_expression_aux:
  assumes "holds t c (expr_bytes ops)" "unat c + length (expr_bytes ops) < 2 ^ 64"
    and "FIRCLSIsValidPointer c" "list_all (wf_op A) ops" "length (ops_bytes ops) < 2 ^ 31"
  shows "FIRCLSDwarfEvalulateExpression A t c r v =
    (if ops = [] then Some None else expr_result (ops_spec A t r ops [v]))"
proof -
  define n where "n = length (ops_bytes ops)"
  define u where "u = uleb_encode n"
  define c1 where "c1 = c + word_of_nat (length u)"
  define st where "st = snd (FIRCLSDwarfExpressionStackPush FIRCLSDwarfExpressionStackInit v)"
  define m0 where "m0 = zero_machine\<lparr>dataCursor := c, machine_registers := Some r, machine_stack := st\<rparr>"
  define m1 where "m1 = m0\<lparr>dataCursor := c1, endAddress := c1 + word_of_nat n\<rparr>"
  have bytes: "expr_bytes ops = u @ ops_bytes ops" by (simp add: expr_bytes_def u_def n_def)
  have mem: "holds t c u" "holds t c1 (ops_bytes ops)" "unat c + length u + n < 2 ^ 64"
    using assms(1,2) by (simp_all add: bytes holds_append c1_def n_def)
  have n31: "n < 2 ^ 31" using assms(5) by (simp add: n_def)
  have un: "unat (word_of_nat n :: u64) = n" using n31 by (simp add: unat_of_nat)
  have uc1: "unat c1 = unat c + length u" using unat_add_small mem(3) by (simp add: c1_def)
  have len: "FIRCLSParseULEB128AndAdvance t c = Some (word_of_nat n, c1)"
    using uleb_decode_encode_aux [of t c n] mem n31 by (simp add: u_def c1_def)
  have init: "FIRCLSDwarfExpressionMachineInit c r v = (True, m0)"
    using assms(3) init_stack(1) [of v]
    by (simp add: FIRCLSDwarfExpressionMachineInit_def split_beta m0_def st_def)
  have m0: "dataCursor m0 = c" by (simp add: m0_def)
  show ?thesis
  proof (cases "ops = []")
    case True
    then have "n = 0" by (simp add: n_def)
    then have "FIRCLSDwarfExpressionMachinePrepareForExecution t m0 = Some (False, m0\<lparr>dataCursor := c1\<rparr>)"
      using len by (simp add: FIRCLSDwarfExpressionMachinePrepareForExecution_def m0)
    then show ?thesis using True assms(3)
      by (simp add: FIRCLSDwarfEvalulateExpression_def init)
  next
    case False
    then have n0: "word_of_nat n \<noteq> (0::u64)"
      using ops_bytes_empty un by (metis length_0_conv n_def unsigned_0)
    have "ptr_add c1 n = Some (c1 + word_of_nat n)" using mem(3) uc1 by (simp add: ptr_add_def)
    then have prep: "FIRCLSDwarfExpressionMachinePrepareForExecution t m0 = Some (True, m1)"
      using len n0 by (simp add: FIRCLSDwarfExpressionMachinePrepareForExecution_def m0 un m1_def)
    have "loop_refines (evaluate_loop A t m1) (ops_spec A t r ops [v])"
    proof (rule evaluate_loop_refines)
      show "FIRCLSIsValidPointer (dataCursor m1)"
        using valid_pointer_mono [OF assms(3), of c1] uc1 by (simp add: m1_def)
    qed (use init_stack [of v] assms(4) mem uc1 in \<open>simp_all add: m1_def m0_def st_def n_def\<close>)
    moreover have "FIRCLSDwarfEvalulateExpression A t c r v =
        Option.bind (evaluate_loop A t m1) (\<lambda>(ok, m). if \<not> ok then Some None
          else Some (FIRCLSDwarfExpressionMachineGetResult m))"
      using assms(3) by (simp add: FIRCLSDwarfEvalulateExpression_def init prep)
    moreover have "Some (FIRCLSDwarfExpressionMachineGetResult m) = expr_result (Done ys)"
      if "wf_stack (machine_stack m)" "stack_abs (machine_stack m) = Some ys"
         "dataCursor m = endAddress m" for m :: "'a machine" and ys
    proof (cases ys)
      case Nil
      then show ?thesis using that stack_pop_Nil(4) [of "machine_stack m"]
        by (simp add: FIRCLSDwarfExpressionMachineGetResult_def expr_result_def
            FIRCLSDwarfExpressionStackIsValid_def)
    next
      case (Cons y zs)
      then show ?thesis using that stack_pop_Cons(4) [of "machine_stack m" y zs]
          stack_valid_abs [OF that(1)]
        by (simp add: FIRCLSDwarfExpressionMachineGetResult_def expr_result_def)
    qed
    ultimately show ?thesis using False
      by (cases "ops_spec A t r ops [v]") (auto simp: loop_refines_def expr_result_def)
  qed
qed

section \<open>The stack stays inside its buffer on any bytes\<close>

lemma wf_push [inv_intros]: "wf_stack st \<Longrightarrow> wf_stack (snd (FIRCLSDwarfExpressionStackPush st v))"
  using stack_push(1) [of st _ v] stack_push_invalid [of st v] by (cases "stack_abs st") auto

lemma wf_peek_pop [inv_intros]:
  assumes "wf_stack st"
  shows "wf_stack (snd (FIRCLSDwarfExpressionStackPop st))" "wf_stack (snd (FIRCLSDwarfExpressionStackPeek st))"
  using assms by (auto simp: wf_stack_def FIRCLSDwarfExpressionStackPop_def
      FIRCLSDwarfExpressionStackPeek_def FIRCLSDwarfExpressionStackIsValid_def split: option.splits)

abbreviation wf_machine :: "'r machine \<Rightarrow> bool" where
  "wf_machine m \<equiv> wf_stack (machine_stack m)"

lemma wf_machine_push [inv_intros]:
  "wf_machine m \<Longrightarrow> wf_machine (snd (FIRCLSDwarfExpressionMachineStackPush m v))"
  by (simp add: FIRCLSDwarfExpressionMachineStackPush_def split_beta wf_push)

lemma wf_machine_pop [inv_intros]:
  "wf_machine m \<Longrightarrow> wf_machine (snd (FIRCLSDwarfExpressionMachineStackPop m))"
  by (simp add: FIRCLSDwarfExpressionMachineStackPop_def split_beta wf_peek_pop)

lemma wf_machine_pure [inv_intros]:
  assumes "wf_machine m"
  shows "wf_machine (snd (FIRCLSDwarfExpressionMachineExecute_dup m))"
    "wf_machine (snd (FIRCLSDwarfExpressionMachineExecute_swap m))"
    "wf_machine (snd (binop f m))"
    "wf_machine (snd (FIRCLSDwarfExpressionMachineExecute_litN m b))"
  using assms
  by (auto simp: FIRCLSDwarfExpressionMachineExecute_dup_def binop_def split_beta Let_def
      FIRCLSDwarfExpressionMachineExecute_swap_def FIRCLSDwarfExpressionMachineExecute_litN_def
      intro!: wf_machine_push wf_machine_pop wf_peek_pop)

lemma wf_machine_deref:
  "FIRCLSDwarfExpressionMachineExecute_deref t m = Some r \<Longrightarrow> wf_machine m \<Longrightarrow> wf_machine (snd r)"
  by (auto simp: FIRCLSDwarfExpressionMachineExecute_deref_def split_beta Let_def split: option.splits
      intro!: wf_machine_push wf_machine_pop)

lemma wf_machine_plus_uconst:
  "FIRCLSDwarfExpressionMachineExecute_plus_uconst t m = Some r \<Longrightarrow> wf_machine m \<Longrightarrow> wf_machine (snd r)"
  by (auto simp: FIRCLSDwarfExpressionMachineExecute_plus_uconst_def split_beta Let_def bind_Some_iff
      intro!: wf_machine_push wf_machine_pop)

lemma wf_machine_bregN:
  "FIRCLSDwarfExpressionMachineExecute_bregN A t m b = Some r \<Longrightarrow> wf_machine m \<Longrightarrow> wf_machine (snd r)"
  by (auto simp: FIRCLSDwarfExpressionMachineExecute_bregN_def split_beta Let_def bind_Some_iff
      split: if_splits intro!: wf_machine_push)

lemma wf_machine_deref_size:
  assumes "FIRCLSDwarfExpressionMachineExecute_deref_size t m = Some r" "wf_machine m"
  shows "wf_machine (snd r)"
proof -
  define m1 where "m1 = snd (FIRCLSDwarfExpressionMachineStackPop m)"
  have m1: "wf_machine m1" using assms(2) by (simp add: m1_def wf_machine_pop)
  from assms(1) obtain sz c where "FIRCLSParseUint8AndAdvance t (dataCursor m) = Some (sz, c)"
    "snd r = m1\<lparr>dataCursor := c\<rparr> \<or>
      (\<exists>v. r = FIRCLSDwarfExpressionMachineStackPush (m1\<lparr>dataCursor := c\<rparr>) v)"
    unfolding FIRCLSDwarfExpressionMachineExecute_deref_size_def split_beta Let_def
    by (simp add: bind_Some_iff flip: m1_def) (auto simp: m1_def bind_Some_iff split: if_split_asm)
  then show ?thesis using m1 by (auto intro!: wf_machine_push)
qed

lemma wf_machine_next:
  assumes "FIRCLSDwarfExpressionMachineExecuteNextOpcode A t m = Some r" "wf_machine m"
  shows "wf_machine (snd r)"
proof -
  obtain opcode c where op: "FIRCLSParseUint8AndAdvance t (dataCursor m) = Some (opcode, c)"
    using assms(1) by (auto simp: FIRCLSDwarfExpressionMachineExecuteNextOpcode_def bind_Some_iff)
  define m1 where "m1 = m\<lparr>dataCursor := c\<rparr>"
  have "wf_machine m1" using assms(2) by (simp add: m1_def)
  with assms(1) show ?thesis
    unfolding FIRCLSDwarfExpressionMachineExecuteNextOpcode_def op
    using wf_machine_pure [of m1]
    by (simp only: bind.simps prod.case Let_def m1_def [symmetric] binop_opcodes)
      (auto split: if_split_asm dest: wf_machine_deref wf_machine_plus_uconst wf_machine_bregN
        wf_machine_deref_size)
qed

lemma wf_machine_loop:
  "evaluate_loop A t m = Some r \<Longrightarrow> wf_machine m \<Longrightarrow> wf_machine (snd r)"
proof (induction A t m rule: evaluate_loop.induct)
  case (1 A t m)
  show ?case
  proof (cases "FIRCLSDwarfExpressionMachineIsFinished m")
    case True
    then show ?thesis using "1.prems" by (subst (asm) evaluate_loop.simps) auto
  next
    case False
    then obtain ok m' where m': "FIRCLSDwarfExpressionMachineExecuteNextOpcode A t m = Some (ok, m')"
      using "1.prems" by (subst (asm) evaluate_loop.simps) (auto split: option.splits)
    then have wf: "wf_machine m'" using wf_machine_next "1.prems"(2) by fastforce
    show ?thesis
    proof (cases ok)
      case ok: True
      then have "evaluate_loop A t m' = Some r"
        using "1.prems"(1) False m' by (subst (asm) evaluate_loop.simps) simp
      then show ?thesis using "1.IH" [OF False m' refl] ok wf by simp
    next
      case no: False
      then have "r = (False, m')"
        using "1.prems"(1) False m' by (subst (asm) evaluate_loop.simps) simp
      then show ?thesis using wf by simp
    qed
  qed
qed

section \<open>Properties\<close>

text \<open>C9. A well-formed DWARF expression evaluates to the value its operations compute from the
  initial stack, fails where they underflow or overflow the stack or read an unreadable address,
  and faults exactly on an unmapped \<open>DW_OP_deref_size\<close>.\<close>

theorem expression_evaluates:
  assumes "holds t c (expr_bytes ops)" "unat c + length (expr_bytes ops) < 2 ^ 64"
    and "FIRCLSIsValidPointer c" "list_all (wf_op A) ops" "length (ops_bytes ops) < 2 ^ 31"
  shows "FIRCLSDwarfEvalulateExpression A t c r v =
    (if ops = [] then Some None else expr_result (ops_spec A t r ops [v]))"
  using assms by (rule evaluate_expression_aux)

text \<open>C23. Whatever bytes an expression consists of, the stack pointer never leaves the 100-word
  buffer while the machine runs.\<close>

theorem expression_stack_bounded:
  assumes "FIRCLSDwarfExpressionMachineInit c r v = (True, m0)"
    and "FIRCLSDwarfExpressionMachinePrepareForExecution t m0 = Some (True, m1)"
    and "evaluate_loop A t m1 = Some (ok, m)"
  shows "length (stack_buffer (machine_stack m)) = 100 \<and>
    (\<forall>p. stack_pointer (machine_stack m) = Some p \<longrightarrow> p \<le> 100)"
proof -
  have "machine_stack m0 = snd (FIRCLSDwarfExpressionStackPush FIRCLSDwarfExpressionStackInit v)"
    using assms(1) by (auto simp: FIRCLSDwarfExpressionMachineInit_def split_beta split: if_splits)
  moreover have "machine_stack m1 = machine_stack m0"
    using assms(2) by (auto simp: FIRCLSDwarfExpressionMachinePrepareForExecution_def bind_Some_iff
        Let_def split: if_splits)
  ultimately have "wf_machine m"
    using wf_machine_loop [OF assms(3)] init_stack(2) [of v] by simp
  then show ?thesis by (simp add: wf_stack_def)
qed

section \<open>Witnesses\<close>

definition demo_ops :: "dwop list" where
  "demo_ops = [Dw_plus_uconst 16, Dw_deref]"

definition demo_mem :: "byte list" where
  "demo_mem = expr_bytes demo_ops @ (replicate 12 0 @ [0x34, 0x12, 0, 0, 0, 0, 0, 0])"

lemma demo_bytes: "expr_bytes demo_ops = [3, 0x23, 16, 6]"
  by (simp add: expr_bytes_def demo_ops_def uleb_encode.simps)

lemma demo_facts:
  "holds (flat_task (block 4096 demo_mem)) 4096 (expr_bytes demo_ops)"
  "ops_spec A (flat_task (block 4096 demo_mem)) r demo_ops [4096] = Done [0x1234]"
  "demo_ops \<noteq> []" "list_all (wf_op x86_64) demo_ops" "length (ops_bytes demo_ops) = 3"
proof -
  have "holds (flat_task (block 4096 demo_mem)) 4112 [0x34, 0x12, 0, 0, 0, 0, 0, 0]"
    using holds_block_infix [of "expr_bytes demo_ops @ replicate 12 0"
        "[0x34, 0x12, 0, 0, 0, 0, 0, 0]" "[]" 4096]
    by (simp add: demo_mem_def demo_bytes)
  then have "FIRCLSReadMemory (flat_task (block 4096 demo_mem)) 4112 8 =
      Some [0x34, 0x12, 0, 0, 0, 0, 0, 0]"
    by (simp add: flat.read_memory_holds FIRCLSIsValidPointer_def)
  then show "ops_spec A (flat_task (block 4096 demo_mem)) r demo_ops [4096] = Done [0x1234]"
    by (simp add: demo_ops_def le_word_def)
  show "holds (flat_task (block 4096 demo_mem)) 4096 (expr_bytes demo_ops)"
    unfolding demo_mem_def by (rule holds_block_prefix) (simp add: demo_bytes)
qed (simp_all add: demo_ops_def uleb_encode.simps)

lemma expression_evaluates_witness:
  "FIRCLSDwarfEvalulateExpression x86_64 (flat_task (block 4096 demo_mem)) 4096 x86_zero 4096 = Some (Some 0x1234)"
  using expression_evaluates [of "flat_task (block 4096 demo_mem)" 4096 demo_ops x86_64 x86_zero 4096]
    demo_facts(1)
  by (simp add: demo_facts(2-) demo_bytes FIRCLSIsValidPointer_def expr_result_def)

lemma expression_stack_bounded_witness:
  "\<exists>m0 m1 m. FIRCLSDwarfExpressionMachineInit 4096 x86_zero 4096 = (True, m0) \<and>
    FIRCLSDwarfExpressionMachinePrepareForExecution (flat_task (block 4096 demo_mem)) m0 = Some (True, m1) \<and>
    evaluate_loop x86_64 (flat_task (block 4096 demo_mem)) m1 = Some (True, m) \<and>
    length (stack_buffer (machine_stack m)) = 100"
proof -
  have "FIRCLSDwarfEvalulateExpression x86_64 (flat_task (block 4096 demo_mem)) 4096 x86_zero 4096 = Some (Some 0x1234)"
    using evaluate_expression_aux [of "flat_task (block 4096 demo_mem)" 4096 demo_ops x86_64 x86_zero 4096]
      demo_facts(1)
    by (simp add: demo_facts(2-) demo_bytes FIRCLSIsValidPointer_def expr_result_def)
  then obtain m0 m1 m where run: "FIRCLSDwarfExpressionMachineInit 4096 x86_zero 4096 = (True, m0)"
      "FIRCLSDwarfExpressionMachinePrepareForExecution (flat_task (block 4096 demo_mem)) m0 = Some (True, m1)"
      "evaluate_loop x86_64 (flat_task (block 4096 demo_mem)) m1 = Some (True, m)"
    by (auto simp: FIRCLSDwarfEvalulateExpression_def bind_Some_iff split: if_splits prod.splits)
  then show ?thesis using expression_stack_bounded [OF run] by blast
qed

end
