(* ===== verification/Dwarf_Unwind.thy ===== *)
theory Dwarf_Unwind
  imports Dwarf_Expr
begin

text \<open>
  \<open>FIRCLSDwarfUnwind.c\<close>: the common-information and frame-description records of
  \<open>.eh_frame\<close>, the call-frame instructions that compute the register rules, and the step that
  replaces the registers by those of the caller.  Structures passed by pointer are threaded as
  values (the callers pass live structures, so their null tests succeed); a boolean function
  returns its flag with the structures it leaves behind, and \<^term>\<open>None\<close> where the C program
  faults or leaves the address space.  Signed 64-bit arithmetic wraps around.
\<close>

section \<open>Records\<close>

record instructions =
  instr_length :: u32
  instr_data :: u64

record cie =
  cie_length :: u64
  version :: byte
  ehData :: u64
  augmentation :: u64
  pointerEncoding :: byte
  lsdaEncoding :: byte
  personalityEncoding :: byte
  personalityFunction :: u64
  codeAlignFactor :: u64
  dataAlignFactor :: u64
  returnAddressRegister :: u64
  signalFrame :: bool
  cie_instructions :: instructions

record fde =
  fde_length :: u64
  cieOffset :: u64
  startAddress :: u64
  rangeSize :: u64
  fde_instructions :: instructions

record cfi_record =
  cfi_cie :: cie
  cfi_fde :: fde

datatype register_location =
    FIRCLSDwarfRegisterUnused
  | FIRCLSDwarfRegisterInCFA
  | FIRCLSDwarfRegisterOffsetFromCFA
  | FIRCLSDwarfRegisterInRegister
  | FIRCLSDwarfRegisterAtExpression
  | FIRCLSDwarfRegisterIsExpression

record dwarf_register =
  reg_location :: register_location
  reg_value :: u64

record dwarf_state =
  cfaRegister :: u64
  cfaRegisterOffset :: u64
  cfaExpression :: u64
  spArgSize :: u32
  state_registers :: "dwarf_register list"

text \<open>The values \<open>memset(..., 0, ...)\<close> gives the structures.\<close>

definition zero_cie :: cie where
  "zero_cie = \<lparr>cie_length = 0, version = 0, ehData = 0, augmentation = 0, pointerEncoding = 0,
     lsdaEncoding = 0, personalityEncoding = 0, personalityFunction = 0, codeAlignFactor = 0,
     dataAlignFactor = 0, returnAddressRegister = 0, signalFrame = False,
     cie_instructions = \<lparr>instr_length = 0, instr_data = 0\<rparr>\<rparr>"

definition zero_state :: "'r arch \<Rightarrow> dwarf_state" where
  "zero_state A = \<lparr>cfaRegister = 0, cfaRegisterOffset = 0, cfaExpression = 0, spArgSize = 0,
     state_registers = replicate (unat (CLS_DWARF_MAX_REGISTER_NUM A) + 1)
       \<lparr>reg_location = FIRCLSDwarfRegisterUnused, reg_value = 0\<rparr>\<rparr>"

definition CLS_DWARF_INVALID_REGISTER_NUM :: "'r arch \<Rightarrow> u64" where
  "CLS_DWARF_INVALID_REGISTER_NUM A = CLS_DWARF_MAX_REGISTER_NUM A + 1"

definition ptr_sub :: "u64 \<Rightarrow> nat \<Rightarrow> u64 option" where
  "ptr_sub p n = (if n \<le> unat p then Some (p - word_of_nat n) else None)"

section \<open>Parsing the records\<close>

text \<open>One character of the augmentation string: the flag, the record and the cursor.\<close>

definition augmentation_entry :: "task \<Rightarrow> byte \<Rightarrow> cie \<Rightarrow> u64 \<Rightarrow> (bool \<times> cie \<times> u64) option" where
  "augmentation_entry t ch rec ptr =
     (if ch = 0x4C then do {
        (v, ptr') \<leftarrow> FIRCLSParseUint8AndAdvance t ptr;
        Some (True, rec\<lparr>lsdaEncoding := v\<rparr>, ptr') }
      else if ch = 0x52 then do {
        (v, ptr') \<leftarrow> FIRCLSParseUint8AndAdvance t ptr;
        Some (True, rec\<lparr>pointerEncoding := v\<rparr>, ptr') }
      else if ch = 0x50 then do {
        (v, ptr') \<leftarrow> FIRCLSParseUint8AndAdvance t ptr;
        (f, ptr'') \<leftarrow> FIRCLSParseAddressWithEncodingAndAdvance t ptr' v;
        Some (f \<noteq> CLS_INVALID_ADDRESS,
              rec\<lparr>personalityEncoding := v, personalityFunction := f\<rparr>, ptr'') }
      else if ch = 0x53 then Some (True, rec\<lparr>signalFrame := True\<rparr>, ptr)
      else Some (False, rec, ptr))"

text \<open>The \<open>for\<close> loop over the augmentation string; the second argument is the number of
  characters left.\<close>

fun augmentation_loop :: "task \<Rightarrow> nat \<Rightarrow> nat \<Rightarrow> u64 \<Rightarrow> cie \<Rightarrow> u64 \<Rightarrow> (bool \<times> cie \<times> u64) option" where
  "augmentation_loop t 0 i ending rec ptr = Some (True, rec, ptr)"
| "augmentation_loop t (Suc k) i ending rec ptr = do {
     ch \<leftarrow> deref t (augmentation rec + word_of_nat i);
     (ok, rec', ptr') \<leftarrow> augmentation_entry t ch rec ptr;
     if \<not> ok then Some (False, rec', ptr')
     else if ptr' > ending then Some (False, rec', ptr')
     else augmentation_loop t k (i + 1) ending rec' ptr' }"

definition FIRCLSDwarfParseAndProcessAugmentation ::
    "task \<Rightarrow> cie \<Rightarrow> u64 \<Rightarrow> (bool \<times> cie \<times> u64) option" where
  "FIRCLSDwarfParseAndProcessAugmentation t rec ptr =
     (if augmentation rec = 0 then Some (False, rec, ptr)
      else do {
        ch \<leftarrow> deref t (augmentation rec);
        if ch = 0 then Some (True, rec, ptr)
        else if ch \<noteq> 0x7A then Some (False, rec, ptr)
        else do {
          stringLength \<leftarrow> c_strlen t (augmentation rec);
          (dataLength, ptr') \<leftarrow> FIRCLSParseULEB128AndAdvance t ptr;
          ending \<leftarrow> ptr_add ptr' (unat dataLength);
          augmentation_loop t (stringLength - 1) 1 ending rec ptr' } })"

text \<open>The flag of the \<open>CIE\<close> is read and only logged when it is wrong; a bad version is found by
  the \<open>switch\<close>.\<close>

definition FIRCLSDwarfParseCIERecord :: "task \<Rightarrow> cie \<Rightarrow> u64 \<Rightarrow> (bool \<times> cie) option" where
  "FIRCLSDwarfParseCIERecord t cie0 ptr0 =
     (if ptr0 = 0 then Some (False, cie0)
      else do {
        (len, ptr) \<leftarrow> FIRCLSParseRecordLengthAndAdvance t ptr0;
        let cie = zero_cie\<lparr>cie_length := len\<rparr>;
        if len = 0 then Some (False, cie)
        else do {
          end' \<leftarrow> ptr_add ptr (unat len);
          (flag, ptr) \<leftarrow> FIRCLSParseUint32AndAdvance t ptr;
          (ver, ptr) \<leftarrow> FIRCLSParseUint8AndAdvance t ptr;
          let cie = cie\<lparr>version := ver, pointerEncoding := 0, lsdaEncoding := 0\<rparr>;
          (aug, ptr) \<leftarrow> FIRCLSParseStringAndAdvance t ptr;
          (caf, ptr) \<leftarrow> FIRCLSParseULEB128AndAdvance t ptr;
          (daf, ptr) \<leftarrow> FIRCLSParseLEB128AndAdvance t ptr;
          let cie = cie\<lparr>augmentation := aug, codeAlignFactor := caf, dataAlignFactor := daf\<rparr>;
          if ver \<noteq> 1 \<and> ver \<noteq> 3 then Some (False, cie)
          else do {
            (ra, ptr) \<leftarrow> (if ver = 1
               then map_option (\<lambda>(v, c). (ucast v, c)) (FIRCLSParseUint8AndAdvance t ptr)
               else FIRCLSParseULEB128AndAdvance t ptr);
            (ok, cie, ptr) \<leftarrow>
              FIRCLSDwarfParseAndProcessAugmentation t (cie\<lparr>returnAddressRegister := ra\<rparr>) ptr;
            if \<not> ok then Some (False, cie)
            else Some (True, cie\<lparr>cie_instructions :=
              \<lparr>instr_length = ucast (end' - ptr), instr_data = ptr\<rparr>\<rparr>) } } })"

definition FIRCLSDwarfCIEIsValid :: "cie \<Rightarrow> bool" where
  "FIRCLSDwarfCIEIsValid cie =
     (if cie_length cie = 0 then False
      else if version cie \<noteq> 1 \<and> version cie \<noteq> 3 then False
      else True)"

definition FIRCLSDwarfCIEHasAugmentationData :: "task \<Rightarrow> cie \<Rightarrow> bool option" where
  "FIRCLSDwarfCIEHasAugmentationData t cie =
     (if augmentation cie = 0 then Some False
      else map_option (\<lambda>ch. ch = 0x7A) (deref t (augmentation cie)))"

definition FIRCLSDwarfParseFDERecord ::
    "task \<Rightarrow> fde \<Rightarrow> bool \<Rightarrow> cie \<Rightarrow> u64 \<Rightarrow> (bool \<times> fde \<times> cie) option" where
  "FIRCLSDwarfParseFDERecord t fde0 parseCIE cie0 ptr0 =
     (if ptr0 = 0 then Some (False, fde0, cie0)
      else do {
        (len, ptr) \<leftarrow> FIRCLSParseRecordLengthAndAdvance t ptr0;
        let fde = fde0\<lparr>fde_length := len\<rparr>;
        if len = 0 then Some (False, fde, cie0)
        else do {
          end' \<leftarrow> ptr_add ptr (unat len);
          (off, ptr) \<leftarrow> FIRCLSParseUint32AndAdvance t ptr;
          let fde = fde\<lparr>cieOffset := ucast off\<rparr>;
          if off = 0 then Some (False, fde, cie0)
          else do {
            (ok, cie) \<leftarrow> (if parseCIE then do {
               p \<leftarrow> ptr_sub ptr (unat off);
               ciePointer \<leftarrow> ptr_sub p 4;
               FIRCLSDwarfParseCIERecord t cie0 ciePointer }
             else Some (True, cie0));
            if \<not> ok then Some (False, fde, cie)
            else if \<not> FIRCLSDwarfCIEIsValid cie then Some (False, fde, cie)
            else do {
              (start, ptr) \<leftarrow> FIRCLSParseAddressWithEncodingAndAdvance t ptr (pointerEncoding cie);
              let fde = fde\<lparr>startAddress := start\<rparr>;
              if start = CLS_INVALID_ADDRESS then Some (False, fde, cie)
              else do {
                (range, ptr) \<leftarrow> FIRCLSParseAddressWithEncodingAndAdvance t ptr
                  (pointerEncoding cie AND DW_EH_PE_VALUE_MASK);
                let fde = fde\<lparr>rangeSize := range\<rparr>;
                if range = CLS_INVALID_ADDRESS then Some (False, fde, cie)
                else do {
                  hasData \<leftarrow> FIRCLSDwarfCIEHasAugmentationData t cie;
                  ptr \<leftarrow> (if hasData then do {
                     (augLength, ptr) \<leftarrow> FIRCLSParseULEB128AndAdvance t ptr;
                     ptr_add ptr (unat augLength) }
                   else Some ptr);
                  Some (True, fde\<lparr>fde_instructions :=
                    \<lparr>instr_length = ucast (end' - ptr), instr_data = ptr\<rparr>\<rparr>, cie) } } } } } })"

definition FIRCLSDwarfParseCFIFromFDERecord :: "task \<Rightarrow> cfi_record \<Rightarrow> u64 \<Rightarrow> (bool \<times> cfi_record) option" where
  "FIRCLSDwarfParseCFIFromFDERecord t rec ptr =
     (if ptr = 0 then Some (False, rec)
      else do {
        (ok, fde, cie) \<leftarrow> FIRCLSDwarfParseFDERecord t (cfi_fde rec) True (cfi_cie rec) ptr;
        Some (ok, \<lparr>cfi_cie = cie, cfi_fde = fde\<rparr>) })"

definition FIRCLSDwarfParseCFIFromFDERecordOffset ::
    "task \<Rightarrow> cfi_record \<Rightarrow> u64 \<Rightarrow> u64 \<Rightarrow> (bool \<times> cfi_record) option" where
  "FIRCLSDwarfParseCFIFromFDERecordOffset t rec ehFrame fdeOffset =
     (if ehFrame = 0 \<or> fdeOffset = 0 then Some (False, rec)
      else do {
        ptr \<leftarrow> ptr_add ehFrame (unat fdeOffset);
        FIRCLSDwarfParseCFIFromFDERecord t rec ptr })"

section \<open>The call frame instructions\<close>

text \<open>A handler takes the cursor and what it may change, and returns the flag with both.\<close>

definition FIRCLSDwarfParseAndExecute_set_loc ::
    "task \<Rightarrow> u64 \<Rightarrow> cie \<Rightarrow> u64 \<Rightarrow> (bool \<times> u64 \<times> u64) option" where
  "FIRCLSDwarfParseAndExecute_set_loc t cursor cieRecord codeOffset = do {
     (operand, cursor') \<leftarrow> FIRCLSParseAddressWithEncodingAndAdvance t cursor (pointerEncoding cieRecord);
     Some (True, cursor', operand) }"

definition FIRCLSDwarfParseAndExecute_advance_loc1 ::
    "task \<Rightarrow> u64 \<Rightarrow> cie \<Rightarrow> u64 \<Rightarrow> (bool \<times> u64 \<times> u64) option" where
  "FIRCLSDwarfParseAndExecute_advance_loc1 t cursor cieRecord codeOffset = do {
     (v, cursor') \<leftarrow> FIRCLSParseUint8AndAdvance t cursor;
     let offset = ucast v * codeAlignFactor cieRecord;
     Some (True, cursor', codeOffset + offset) }"

definition FIRCLSDwarfParseAndExecute_advance_loc2 ::
    "task \<Rightarrow> u64 \<Rightarrow> cie \<Rightarrow> u64 \<Rightarrow> (bool \<times> u64 \<times> u64) option" where
  "FIRCLSDwarfParseAndExecute_advance_loc2 t cursor cieRecord codeOffset = do {
     (v, cursor') \<leftarrow> FIRCLSParseUint16AndAdvance t cursor;
     let offset = ucast v * codeAlignFactor cieRecord;
     Some (True, cursor', codeOffset + offset) }"

definition FIRCLSDwarfParseAndExecute_advance_loc4 ::
    "task \<Rightarrow> u64 \<Rightarrow> cie \<Rightarrow> u64 \<Rightarrow> (bool \<times> u64 \<times> u64) option" where
  "FIRCLSDwarfParseAndExecute_advance_loc4 t cursor cieRecord codeOffset = do {
     (v, cursor') \<leftarrow> FIRCLSParseUint32AndAdvance t cursor;
     let offset = ucast v * codeAlignFactor cieRecord;
     Some (True, cursor', codeOffset + offset) }"

definition set_register :: "dwarf_state \<Rightarrow> u64 \<Rightarrow> register_location \<Rightarrow> u64 \<Rightarrow> dwarf_state" where
  "set_register state regNum loc value = state\<lparr>state_registers :=
     (state_registers state)[unat regNum := \<lparr>reg_location = loc, reg_value = value\<rparr>]\<rparr>"

definition FIRCLSDwarfParseAndExecute_def_cfa ::
    "'r arch \<Rightarrow> task \<Rightarrow> u64 \<Rightarrow> dwarf_state \<Rightarrow> (bool \<times> u64 \<times> dwarf_state) option" where
  "FIRCLSDwarfParseAndExecute_def_cfa A t cursor state = do {
     (regNum, cursor) \<leftarrow> FIRCLSParseULEB128AndAdvance t cursor;
     if regNum > CLS_DWARF_MAX_REGISTER_NUM A then Some (False, cursor, state)
     else do {
       (offset, cursor) \<leftarrow> FIRCLSParseULEB128AndAdvance t cursor;
       Some (True, cursor, state\<lparr>cfaRegister := regNum, cfaRegisterOffset := offset\<rparr>) } }"

definition FIRCLSDwarfParseAndExecute_def_cfa_register ::
    "'r arch \<Rightarrow> task \<Rightarrow> u64 \<Rightarrow> dwarf_state \<Rightarrow> (bool \<times> u64 \<times> dwarf_state) option" where
  "FIRCLSDwarfParseAndExecute_def_cfa_register A t cursor state = do {
     (regNum, cursor) \<leftarrow> FIRCLSParseULEB128AndAdvance t cursor;
     if regNum > CLS_DWARF_MAX_REGISTER_NUM A then Some (False, cursor, state)
     else Some (True, cursor, state\<lparr>cfaRegister := regNum\<rparr>) }"

definition FIRCLSDwarfParseAndExecute_def_cfa_offset ::
    "task \<Rightarrow> u64 \<Rightarrow> dwarf_state \<Rightarrow> (bool \<times> u64 \<times> dwarf_state) option" where
  "FIRCLSDwarfParseAndExecute_def_cfa_offset t cursor state = do {
     (offset, cursor) \<leftarrow> FIRCLSParseULEB128AndAdvance t cursor;
     Some (True, cursor, state\<lparr>cfaRegisterOffset := offset\<rparr>) }"

text \<open>\<open>same_value\<close> changes only the location of the rule.\<close>

definition FIRCLSDwarfParseAndExecute_same_value ::
    "'r arch \<Rightarrow> task \<Rightarrow> u64 \<Rightarrow> dwarf_state \<Rightarrow> (bool \<times> u64 \<times> dwarf_state) option" where
  "FIRCLSDwarfParseAndExecute_same_value A t cursor state = do {
     (regNum, cursor) \<leftarrow> FIRCLSParseULEB128AndAdvance t cursor;
     if regNum > CLS_DWARF_MAX_REGISTER_NUM A then Some (False, cursor, state)
     else Some (True, cursor, set_register state regNum FIRCLSDwarfRegisterUnused
       (reg_value (state_registers state ! unat regNum))) }"

definition FIRCLSDwarfParseAndExecute_register ::
    "'r arch \<Rightarrow> task \<Rightarrow> u64 \<Rightarrow> dwarf_state \<Rightarrow> (bool \<times> u64 \<times> dwarf_state) option" where
  "FIRCLSDwarfParseAndExecute_register A t cursor state = do {
     (regNum, cursor) \<leftarrow> FIRCLSParseULEB128AndAdvance t cursor;
     if regNum > CLS_DWARF_MAX_REGISTER_NUM A then Some (False, cursor, state)
     else do {
       (regValue, cursor) \<leftarrow> FIRCLSParseULEB128AndAdvance t cursor;
       if regValue > CLS_DWARF_MAX_REGISTER_NUM A then Some (False, cursor, state)
       else Some (True, cursor, set_register state regNum FIRCLSDwarfRegisterInRegister regValue) } }"

text \<open>The expression of a rule is remembered by the address of its length field.\<close>

definition FIRCLSDwarfParseAndExecute_expression ::
    "'r arch \<Rightarrow> task \<Rightarrow> u64 \<Rightarrow> dwarf_state \<Rightarrow> (bool \<times> u64 \<times> dwarf_state) option" where
  "FIRCLSDwarfParseAndExecute_expression A t cursor state = do {
     (regNum, cursor) \<leftarrow> FIRCLSParseULEB128AndAdvance t cursor;
     if regNum > CLS_DWARF_MAX_REGISTER_NUM A then Some (False, cursor, state)
     else do {
       let state = set_register state regNum FIRCLSDwarfRegisterAtExpression cursor;
       (len, cursor) \<leftarrow> FIRCLSParseULEB128AndAdvance t cursor;
       cursor \<leftarrow> ptr_add cursor (unat len);
       Some (True, cursor, state) } }"

definition FIRCLSDwarfParseAndExecute_val_expression ::
    "'r arch \<Rightarrow> task \<Rightarrow> u64 \<Rightarrow> dwarf_state \<Rightarrow> (bool \<times> u64 \<times> dwarf_state) option" where
  "FIRCLSDwarfParseAndExecute_val_expression A t cursor state = do {
     (regNum, cursor) \<leftarrow> FIRCLSParseULEB128AndAdvance t cursor;
     if regNum > CLS_DWARF_MAX_REGISTER_NUM A then Some (False, cursor, state)
     else do {
       let state = set_register state regNum FIRCLSDwarfRegisterIsExpression cursor;
       (len, cursor) \<leftarrow> FIRCLSParseULEB128AndAdvance t cursor;
       cursor \<leftarrow> ptr_add cursor (unat len);
       Some (True, cursor, state) } }"

definition FIRCLSDwarfParseAndExecute_def_cfa_expression ::
    "'r arch \<Rightarrow> task \<Rightarrow> u64 \<Rightarrow> dwarf_state \<Rightarrow> (bool \<times> u64 \<times> dwarf_state) option" where
  "FIRCLSDwarfParseAndExecute_def_cfa_expression A t cursor state = do {
     let state = state\<lparr>cfaRegister := CLS_DWARF_INVALID_REGISTER_NUM A, cfaExpression := cursor\<rparr>;
     (len, cursor) \<leftarrow> FIRCLSParseULEB128AndAdvance t cursor;
     cursor \<leftarrow> ptr_add cursor (unat len);
     Some (True, cursor, state) }"

definition FIRCLSDwarfParseAndExecute_offset ::
    "'r arch \<Rightarrow> task \<Rightarrow> u64 \<Rightarrow> cie \<Rightarrow> dwarf_state \<Rightarrow> byte \<Rightarrow> (bool \<times> u64 \<times> dwarf_state) option" where
  "FIRCLSDwarfParseAndExecute_offset A t cursor cieRecord state regNum =
     (if ucast regNum > CLS_DWARF_MAX_REGISTER_NUM A then Some (False, cursor, state)
      else do {
        (v, cursor) \<leftarrow> FIRCLSParseULEB128AndAdvance t cursor;
        let offset = v * dataAlignFactor cieRecord;
        Some (True, cursor, set_register state (ucast regNum) FIRCLSDwarfRegisterInCFA offset) })"

text \<open>\<open>codeOffset\<close> and \<open>cieRecord\<close> are addresses of live objects, so the validity test
  holds.\<close>

definition FIRCLSDwarfParseAndExecute_advance_loc :: "cie \<Rightarrow> byte \<Rightarrow> u64 \<Rightarrow> bool \<times> u64" where
  "FIRCLSDwarfParseAndExecute_advance_loc cieRecord delta codeOffset =
     (True, ucast delta * codeAlignFactor cieRecord)"

definition DW_CFA_OPCODE_MASK :: byte where "DW_CFA_OPCODE_MASK = 0xC0"
definition DW_CFA_OPERAND_MASK :: byte where "DW_CFA_OPERAND_MASK = 0x3F"

text \<open>The results carry the cursor, the state and the code offset.\<close>

definition FIRCLSDwarfParseAndExecuteInstructionWithOperand ::
    "'r arch \<Rightarrow> task \<Rightarrow> u64 \<Rightarrow> byte \<Rightarrow> cie \<Rightarrow> dwarf_state \<Rightarrow> u64 \<Rightarrow>
     (bool \<times> u64 \<times> dwarf_state \<times> u64) option" where
  "FIRCLSDwarfParseAndExecuteInstructionWithOperand A t cursor instr cieRecord state codeOffset =
     (let operand = instr AND DW_CFA_OPERAND_MASK; opcode = instr AND DW_CFA_OPCODE_MASK in
      if opcode = 0x80 then
        map_option (\<lambda>(ok, c, s). (ok, c, s, codeOffset))
          (FIRCLSDwarfParseAndExecute_offset A t cursor cieRecord state operand)
      else if opcode = 0x40 then
        (let (ok, off) = FIRCLSDwarfParseAndExecute_advance_loc cieRecord operand codeOffset
         in Some (ok, cursor, state, off))
      else Some (False, cursor, state, codeOffset))"

text \<open>The \<open>switch\<close> of \<open>FIRCLSDwarfInstructionsEnumerate\<close>, after the instruction byte is read.\<close>

definition execute_instruction ::
    "'r arch \<Rightarrow> task \<Rightarrow> cie \<Rightarrow> byte \<Rightarrow> u64 \<Rightarrow> dwarf_state \<Rightarrow> u64 \<Rightarrow>
     (bool \<times> u64 \<times> dwarf_state \<times> u64) option" where
  "execute_instruction A t cieRecord instr cursor state codeOffset =
     (let loc = map_option (\<lambda>(ok, c, off). (ok, c, state, off));
          st = map_option (\<lambda>(ok, c, s). (ok, c, s, codeOffset)) in
      if instr = 0x00 then Some (True, cursor, state, codeOffset)
      else if instr = 0x01 then loc (FIRCLSDwarfParseAndExecute_set_loc t cursor cieRecord codeOffset)
      else if instr = 0x02 then loc (FIRCLSDwarfParseAndExecute_advance_loc1 t cursor cieRecord codeOffset)
      else if instr = 0x03 then loc (FIRCLSDwarfParseAndExecute_advance_loc2 t cursor cieRecord codeOffset)
      else if instr = 0x04 then loc (FIRCLSDwarfParseAndExecute_advance_loc4 t cursor cieRecord codeOffset)
      else if instr = 0x0C then st (FIRCLSDwarfParseAndExecute_def_cfa A t cursor state)
      else if instr = 0x0D then st (FIRCLSDwarfParseAndExecute_def_cfa_register A t cursor state)
      else if instr = 0x0E then st (FIRCLSDwarfParseAndExecute_def_cfa_offset t cursor state)
      else if instr = 0x08 then st (FIRCLSDwarfParseAndExecute_same_value A t cursor state)
      else if instr = 0x09 then st (FIRCLSDwarfParseAndExecute_register A t cursor state)
      else if instr = 0x0F then st (FIRCLSDwarfParseAndExecute_def_cfa_expression A t cursor state)
      else if instr = 0x10 then st (FIRCLSDwarfParseAndExecute_expression A t cursor state)
      else if instr = 0x16 then st (FIRCLSDwarfParseAndExecute_val_expression A t cursor state)
      else if instr \<in> {0x05, 0x06, 0x07, 0x0A, 0x0B, 0x11, 0x12, 0x13, 0x14, 0x15, 0x2D, 0x2E, 0x2F}
        then Some (False, cursor, state, codeOffset)
      else FIRCLSDwarfParseAndExecuteInstructionWithOperand A t cursor instr cieRecord state codeOffset)"

lemma ptr_add_progress: "ptr_add c n = Some c' \<Longrightarrow> unat c \<le> unat c'"
  using unat_ptr_add by fastforce

lemma encoded_value_progress:
  "parse_encoded_value t c fmt = Some (Some (v, c')) \<Longrightarrow> unat c \<le> unat c'"
  by (auto simp: parse_encoded_value_def FIRCLSParsePointerAndAdvance_def FIRCLSParseInt16AndAdvance_def
      FIRCLSParseInt32AndAdvance_def FIRCLSParseInt64AndAdvance_def bind_Some_iff
      split: if_split_asm
      dest!: uleb_progress leb_progress uint16_progress uint32_progress uint64_progress parse_bytes_progress)

lemma address_cursor:
  assumes "FIRCLSParseAddressWithEncodingAndAdvance t c enc = Some (v, c')"
  shows "c' = c \<or> (\<exists>v1. parse_encoded_value t c (enc AND DW_EH_PE_VALUE_MASK) = Some (Some (v1, c')))"
proof (cases "enc = DW_EH_PE_omit \<or> c = 0")
  case True
  then show ?thesis using assms by (auto simp: FIRCLSParseAddressWithEncodingAndAdvance_def split: if_splits)
next
  case False
  then obtain r where r: "parse_encoded_value t c (enc AND DW_EH_PE_VALUE_MASK) = Some r"
    using assms by (auto simp: FIRCLSParseAddressWithEncodingAndAdvance_def bind_Some_iff)
  show ?thesis
  proof (cases r)
    case None
    then show ?thesis using assms r False by (auto simp: FIRCLSParseAddressWithEncodingAndAdvance_def)
  next
    case (Some p)
    then show ?thesis using assms r False
      by (cases p) (auto simp: FIRCLSParseAddressWithEncodingAndAdvance_def Let_def split: if_split_asm)
  qed
qed

lemma address_progress:
  "FIRCLSParseAddressWithEncodingAndAdvance t c enc = Some (v, c') \<Longrightarrow> unat c \<le> unat c'"
  using address_cursor encoded_value_progress by blast

lemmas location_handler_defs = FIRCLSDwarfParseAndExecute_set_loc_def
  FIRCLSDwarfParseAndExecute_advance_loc1_def FIRCLSDwarfParseAndExecute_advance_loc2_def
  FIRCLSDwarfParseAndExecute_advance_loc4_def

lemmas rule_handler_defs = FIRCLSDwarfParseAndExecute_def_cfa_def
  FIRCLSDwarfParseAndExecute_def_cfa_register_def FIRCLSDwarfParseAndExecute_def_cfa_offset_def
  FIRCLSDwarfParseAndExecute_same_value_def FIRCLSDwarfParseAndExecute_register_def
  FIRCLSDwarfParseAndExecute_expression_def FIRCLSDwarfParseAndExecute_val_expression_def
  FIRCLSDwarfParseAndExecute_def_cfa_expression_def

lemma location_progress:
  "FIRCLSDwarfParseAndExecute_set_loc t c cie off = Some (ok, c', off') \<Longrightarrow> unat c \<le> unat c'"
  "FIRCLSDwarfParseAndExecute_advance_loc1 t c cie off = Some (ok, c', off') \<Longrightarrow> unat c \<le> unat c'"
  "FIRCLSDwarfParseAndExecute_advance_loc2 t c cie off = Some (ok, c', off') \<Longrightarrow> unat c \<le> unat c'"
  "FIRCLSDwarfParseAndExecute_advance_loc4 t c cie off = Some (ok, c', off') \<Longrightarrow> unat c \<le> unat c'"
  by (auto simp: location_handler_defs bind_Some_iff Let_def
      dest!: address_progress uint8_progress uint16_progress uint32_progress)

lemma rule_progress:
  "FIRCLSDwarfParseAndExecute_def_cfa A t c s = Some (ok, c', s') \<Longrightarrow> unat c \<le> unat c'"
  "FIRCLSDwarfParseAndExecute_def_cfa_register A t c s = Some (ok, c', s') \<Longrightarrow> unat c \<le> unat c'"
  "FIRCLSDwarfParseAndExecute_def_cfa_offset t c s = Some (ok, c', s') \<Longrightarrow> unat c \<le> unat c'"
  "FIRCLSDwarfParseAndExecute_same_value A t c s = Some (ok, c', s') \<Longrightarrow> unat c \<le> unat c'"
  "FIRCLSDwarfParseAndExecute_register A t c s = Some (ok, c', s') \<Longrightarrow> unat c \<le> unat c'"
  "FIRCLSDwarfParseAndExecute_expression A t c s = Some (ok, c', s') \<Longrightarrow> unat c \<le> unat c'"
  "FIRCLSDwarfParseAndExecute_val_expression A t c s = Some (ok, c', s') \<Longrightarrow> unat c \<le> unat c'"
  "FIRCLSDwarfParseAndExecute_def_cfa_expression A t c s = Some (ok, c', s') \<Longrightarrow> unat c \<le> unat c'"
  "FIRCLSDwarfParseAndExecute_offset A t c cie s n = Some (ok, c', s') \<Longrightarrow> unat c \<le> unat c'"
  by (auto simp: rule_handler_defs FIRCLSDwarfParseAndExecute_offset_def bind_Some_iff Let_def
      split: if_split_asm dest!: uleb_progress ptr_add_progress)

lemma operand_progress:
  "FIRCLSDwarfParseAndExecuteInstructionWithOperand A t c i cie s off = Some (ok, c', s', off') \<Longrightarrow>
   unat c \<le> unat c'"
  by (auto simp: FIRCLSDwarfParseAndExecuteInstructionWithOperand_def Let_def
      FIRCLSDwarfParseAndExecute_advance_loc_def split: if_split_asm dest: rule_progress(9))

lemma instruction_progress:
  assumes "execute_instruction A t cie i c s off = Some (ok, c', s', off')"
  shows "unat c \<le> unat c'"
  using assms unfolding execute_instruction_def Let_def
  by (auto split: if_split_asm dest: location_progress rule_progress(1-8) operand_progress)

text \<open>The loop; \<open>intptr_t\<close> offsets are compared as signed numbers.\<close>

function enumerate_loop ::
    "'r arch \<Rightarrow> task \<Rightarrow> cie \<Rightarrow> u64 \<Rightarrow> u64 \<Rightarrow> u64 \<Rightarrow> dwarf_state \<Rightarrow> u64 \<Rightarrow> (bool \<times> dwarf_state) option" where
  "enumerate_loop A t cieRecord end' pcOffset cursor state codeOffset =
     (if \<not> (cursor < end' \<and> codeOffset <s pcOffset) then Some (True, state)
      else case FIRCLSParseUint8AndAdvance t cursor of
        None \<Rightarrow> None
      | Some (instr, cursor1) \<Rightarrow>
          (case execute_instruction A t cieRecord instr cursor1 state codeOffset of
             None \<Rightarrow> None
           | Some (success, cursor2, state', codeOffset') \<Rightarrow>
               if \<not> success then Some (False, state')
               else enumerate_loop A t cieRecord end' pcOffset cursor2 state' codeOffset'))"
  by pat_completeness auto
termination
proof (relation "measure (\<lambda>(A, t, c, e, p, cursor, s, off). 2 ^ 64 - unat cursor)")
  fix A :: "'r arch" and t cieRecord instr r r' success and end' pcOffset cursor cursor1 cursor2 :: u64
    and state state' codeOffset codeOffset' q q'
  assume "FIRCLSParseUint8AndAdvance t cursor = Some r" "(instr, cursor1) = r"
    "execute_instruction A t cieRecord instr cursor1 state codeOffset = Some r'"
    "(success, q) = r'" "(cursor2, q') = q" "(state', codeOffset') = q'"
  then have "unat cursor1 = unat cursor + 1" "unat cursor1 \<le> unat cursor2"
    using uint8_progress [of t cursor instr cursor1]
      instruction_progress [of A t cieRecord instr cursor1 state codeOffset success cursor2 state' codeOffset']
    by auto
  moreover have "unat cursor2 < 2 ^ 64" using unat_u64_less [of cursor2] by simp
  ultimately show "((A, t, cieRecord, end', pcOffset, cursor2, state', codeOffset'),
      A, t, cieRecord, end', pcOffset, cursor, state, codeOffset)
      \<in> measure (\<lambda>(A, t, c, e, p, cursor, s, off). 2 ^ 64 - unat cursor)"
    by simp
qed simp

declare enumerate_loop.simps [simp del]

definition FIRCLSDwarfInstructionsEnumerate ::
    "'r arch \<Rightarrow> task \<Rightarrow> instructions \<Rightarrow> cie \<Rightarrow> dwarf_state \<Rightarrow> u64 \<Rightarrow> (bool \<times> dwarf_state) option" where
  "FIRCLSDwarfInstructionsEnumerate A t instrs cieRecord state pcOffset = do {
     end' \<leftarrow> ptr_add (instr_data instrs) (unat (instr_length instrs));
     enumerate_loop A t cieRecord end' pcOffset (instr_data instrs) state 0 }"

section \<open>Computing the caller's registers\<close>

definition FIRCLSDwarfCompareRegisters :: "'r arch \<Rightarrow> 'r \<Rightarrow> 'r \<Rightarrow> u64 \<Rightarrow> bool" where
  "FIRCLSDwarfCompareRegisters A a b registerNum \<longleftrightarrow>
     FIRCLSDwarfUnwindGetRegisterValue A a registerNum = FIRCLSDwarfUnwindGetRegisterValue A b registerNum"

text \<open>The inner \<^term>\<open>None\<close> is the return value \<open>false\<close>.\<close>

definition FIRCLSDwarfGetCFA :: "'r arch \<Rightarrow> task \<Rightarrow> dwarf_state \<Rightarrow> 'r \<Rightarrow> u64 option option" where
  "FIRCLSDwarfGetCFA A t state registers =
     (if cfaExpression state \<noteq> 0
      then FIRCLSDwarfEvalulateExpression A t (cfaExpression state) registers 0
      else Some (Some (FIRCLSDwarfUnwindGetRegisterValue A registers (cfaRegister state)
                       + cfaRegisterOffset state)))"

definition FIRCLSDwarfGetSavedRegister ::
    "'r arch \<Rightarrow> task \<Rightarrow> 'r \<Rightarrow> u64 \<Rightarrow> dwarf_register \<Rightarrow> u64 option" where
  "FIRCLSDwarfGetSavedRegister A t registers cfa dRegister =
     (case reg_location dRegister of
        FIRCLSDwarfRegisterInCFA \<Rightarrow>
          (case FIRCLSReadMemory t (cfa + reg_value dRegister) 8 of
             None \<Rightarrow> Some 0
           | Some bs \<Rightarrow> Some (le_word bs))
      | FIRCLSDwarfRegisterInRegister \<Rightarrow>
          Some (FIRCLSDwarfUnwindGetRegisterValue A registers (reg_value dRegister))
      | FIRCLSDwarfRegisterOffsetFromCFA \<Rightarrow> Some 0
      | FIRCLSDwarfRegisterAtExpression \<Rightarrow> do {
          r \<leftarrow> FIRCLSDwarfEvalulateExpression A t (reg_value dRegister) registers cfa;
          (case r of
             None \<Rightarrow> Some 0
           | Some address \<Rightarrow>
               (case FIRCLSReadMemory t address 8 of
                  None \<Rightarrow> Some 0
                | Some bs \<Rightarrow> Some (le_word bs))) }
      | FIRCLSDwarfRegisterIsExpression \<Rightarrow> do {
          r \<leftarrow> FIRCLSDwarfEvalulateExpression A t (reg_value dRegister) registers cfa;
          (case r of None \<Rightarrow> Some 0 | Some v \<Rightarrow> Some v) }
      | FIRCLSDwarfRegisterUnused \<Rightarrow> Some 0)"

text \<open>The \<open>for\<close> loop over the rules from register \<open>i\<close> on; the inner \<^term>\<open>None\<close> is the
  early \<open>return false\<close>.\<close>

fun assign_loop ::
    "'r arch \<Rightarrow> task \<Rightarrow> 'r \<Rightarrow> u64 \<Rightarrow> dwarf_register list \<Rightarrow> nat \<Rightarrow> 'r \<Rightarrow> 'r option option" where
  "assign_loop A t registers cfa [] i new = Some (Some new)"
| "assign_loop A t registers cfa (d # ds) i new =
     (if reg_location d = FIRCLSDwarfRegisterUnused then assign_loop A t registers cfa ds (i + 1) new
      else do {
        value \<leftarrow> FIRCLSDwarfGetSavedRegister A t registers cfa d;
        (case FIRCLSDwarfUnwindSetRegisterValue A new (word_of_nat i) value of
           None \<Rightarrow> Some None
         | Some new' \<Rightarrow> assign_loop A t registers cfa ds (i + 1) new') })"

definition FIRCLSDwarfUnwindAssignRegisters ::
    "'r arch \<Rightarrow> task \<Rightarrow> dwarf_state \<Rightarrow> 'r \<Rightarrow> u64 \<Rightarrow> 'r option option" where
  "FIRCLSDwarfUnwindAssignRegisters A t state registers cfa = do {
     r \<leftarrow> assign_loop A t registers cfa (state_registers state) 0 registers;
     (case r of
        None \<Rightarrow> Some None
      | Some new \<Rightarrow>
          (case FIRCLSDwarfUnwindSetRegisterValue A new (CLS_DWARF_REG_SP A) cfa of
             None \<Rightarrow> Some None
           | Some new' \<Rightarrow>
               if FIRCLSDwarfCompareRegisters A registers new' (CLS_DWARF_REG_SP A) then Some None
               else if FIRCLSDwarfCompareRegisters A registers new' (CLS_DWARF_REG_RETURN A)
                 then Some None
               else Some (Some new'))) }"

definition INTPTR_MAX :: u64 where "INTPTR_MAX = 0x7fffffffffffffff"

definition FIRCLSDwarfUnwindComputeRegisters ::
    "'r arch \<Rightarrow> task \<Rightarrow> cfi_record \<Rightarrow> 'r \<Rightarrow> 'r option option" where
  "FIRCLSDwarfUnwindComputeRegisters A t rec registers = do {
     (ok, state) \<leftarrow> FIRCLSDwarfInstructionsEnumerate A t (cie_instructions (cfi_cie rec)) (cfi_cie rec)
                      (zero_state A) INTPTR_MAX;
     if \<not> ok then Some None
     else do {
       let pcOffset = FIRCLSThreadContextGetPC A registers - startAddress (cfi_fde rec);
       if pcOffset <s 0 then Some None
       else do {
         (ok, state) \<leftarrow> FIRCLSDwarfInstructionsEnumerate A t (fde_instructions (cfi_fde rec)) (cfi_cie rec)
                          state pcOffset;
         if \<not> ok then Some None
         else do {
           cfa \<leftarrow> FIRCLSDwarfGetCFA A t state registers;
           (case cfa of
              None \<Rightarrow> Some None
            | Some cfa \<Rightarrow> FIRCLSDwarfUnwindAssignRegisters A t state registers cfa) } } } }"

section \<open>The rule table stays well formed\<close>

text \<open>A table has one rule per register, an \<open>InRegister\<close> rule names a register, and the CFA is
  an expression or rests on a register.\<close>

definition wf_rule :: "'r arch \<Rightarrow> dwarf_register \<Rightarrow> bool" where
  "wf_rule A d \<longleftrightarrow> reg_location d \<noteq> FIRCLSDwarfRegisterOffsetFromCFA \<and>
     (reg_location d = FIRCLSDwarfRegisterInRegister \<longrightarrow> reg_value d \<le> CLS_DWARF_MAX_REGISTER_NUM A)"

definition wf_state :: "'r arch \<Rightarrow> dwarf_state \<Rightarrow> bool" where
  "wf_state A s \<longleftrightarrow> length (state_registers s) = unat (CLS_DWARF_MAX_REGISTER_NUM A) + 1 \<and>
     list_all (wf_rule A) (state_registers s) \<and>
     (cfaRegister s \<le> CLS_DWARF_MAX_REGISTER_NUM A \<or> cfaExpression s \<noteq> 0)"

lemma wf_zero_state [inv_intros]: "wf_state A (zero_state A)"
  by (simp add: wf_state_def zero_state_def wf_rule_def list_all_iff)

lemma list_all_update: "list_all P xs \<Longrightarrow> P x \<Longrightarrow> list_all P (xs[i := x])"
  by (cases "i < length xs") (auto simp: list_all_length nth_list_update)

lemma wf_set_register [inv_intros]:
  "wf_state A s \<Longrightarrow> wf_rule A \<lparr>reg_location = loc, reg_value = v\<rparr> \<Longrightarrow> wf_state A (set_register s n loc v)"
  by (simp add: wf_state_def set_register_def list_all_update)

lemma wf_rule_handlers:
  assumes "wf_state A s"
  shows
  "FIRCLSDwarfParseAndExecute_def_cfa A t c s = Some (ok, c', s') \<Longrightarrow> wf_state A s'"
  "FIRCLSDwarfParseAndExecute_def_cfa_register A t c s = Some (ok, c', s') \<Longrightarrow> wf_state A s'"
  "FIRCLSDwarfParseAndExecute_def_cfa_offset t c s = Some (ok, c', s') \<Longrightarrow> wf_state A s'"
  "FIRCLSDwarfParseAndExecute_same_value A t c s = Some (ok, c', s') \<Longrightarrow> wf_state A s'"
  "FIRCLSDwarfParseAndExecute_register A t c s = Some (ok, c', s') \<Longrightarrow> wf_state A s'"
  "FIRCLSDwarfParseAndExecute_expression A t c s = Some (ok, c', s') \<Longrightarrow> wf_state A s'"
  "FIRCLSDwarfParseAndExecute_val_expression A t c s = Some (ok, c', s') \<Longrightarrow> wf_state A s'"
  "FIRCLSDwarfParseAndExecute_offset A t c cie s n = Some (ok, c', s') \<Longrightarrow> wf_state A s'"
  using assms
  by (auto simp: rule_handler_defs FIRCLSDwarfParseAndExecute_offset_def bind_Some_iff Let_def
      wf_rule_def split: if_split_asm intro!: wf_set_register)
    (auto simp: wf_state_def not_less)

lemma wf_def_cfa_expression:
  "FIRCLSDwarfParseAndExecute_def_cfa_expression A t c s = Some (ok, c', s') \<Longrightarrow>
   wf_state A s \<Longrightarrow> c \<noteq> 0 \<Longrightarrow> wf_state A s'"
  by (auto simp: FIRCLSDwarfParseAndExecute_def_cfa_expression_def bind_Some_iff Let_def wf_state_def)

lemma wf_operand:
  "FIRCLSDwarfParseAndExecuteInstructionWithOperand A t c i cie s off = Some (ok, c', s', off') \<Longrightarrow>
   wf_state A s \<Longrightarrow> wf_state A s'"
  by (auto simp: FIRCLSDwarfParseAndExecuteInstructionWithOperand_def Let_def
      FIRCLSDwarfParseAndExecute_advance_loc_def split: if_split_asm dest: wf_rule_handlers(8))

lemma wf_instruction:
  assumes "execute_instruction A t cie i c s off = Some (ok, c', s', off')" "wf_state A s" "c \<noteq> 0"
  shows "wf_state A s'"
  using assms unfolding execute_instruction_def Let_def
  by (auto split: if_split_asm dest: wf_rule_handlers(1-7) wf_def_cfa_expression wf_operand)

lemma wf_enumerate_loop:
  "enumerate_loop A t cie e pc c s off = Some (ok, s') \<Longrightarrow> wf_state A s \<Longrightarrow> wf_state A s'"
proof (induction A t cie e pc c s off rule: enumerate_loop.induct)
  case (1 A t cie e pc c s off)
  show ?case
  proof (cases "c < e \<and> off <s pc")
    case False
    then show ?thesis using "1.prems" by (subst (asm) enumerate_loop.simps) auto
  next
    case True
    then obtain i c1 where rd: "FIRCLSParseUint8AndAdvance t c = Some (i, c1)"
      using "1.prems"(1) by (subst (asm) enumerate_loop.simps) (auto split: option.splits)
    from True rd obtain ok1 c2 s1 off1 where ex: "execute_instruction A t cie i c1 s off = Some (ok1, c2, s1, off1)"
      using "1.prems"(1) by (subst (asm) enumerate_loop.simps) (auto split: option.splits)
    have "c1 \<noteq> 0" using uint8_progress [OF rd] by auto
    then have wf: "wf_state A s1" using wf_instruction [OF ex "1.prems"(2)] by simp
    show ?thesis
    proof (cases ok1)
      case okT: True
      then have "enumerate_loop A t cie e pc c2 s1 off1 = Some (ok, s')"
        using "1.prems"(1) True rd ex by (subst (asm) enumerate_loop.simps) simp
      then show ?thesis using "1.IH" [OF _ rd refl ex refl refl refl] True okT wf by simp
    next
      case False
      then have "s' = s1" using "1.prems"(1) True rd ex by (subst (asm) enumerate_loop.simps) simp
      then show ?thesis using wf by simp
    qed
  qed
qed

section \<open>What a call frame program means\<close>

text \<open>The instructions of the DWARF standard (section 6.4.2) that the code executes, with their
  encoding.\<close>

datatype cfi =
    Cfi_nop
  | Cfi_advance nat
  | Cfi_advance1 nat
  | Cfi_advance2 nat
  | Cfi_advance4 nat
  | Cfi_def_cfa nat nat
  | Cfi_def_cfa_register nat
  | Cfi_def_cfa_offset nat
  | Cfi_same_value nat
  | Cfi_register nat nat
  | Cfi_def_cfa_expression "byte list"
  | Cfi_expression nat "byte list"
  | Cfi_val_expression nat "byte list"
  | Cfi_offset nat nat

definition cfi_block :: "byte list \<Rightarrow> byte list" where
  "cfi_block b = uleb_encode (length b) @ b"

fun cfi_bytes :: "cfi \<Rightarrow> byte list" where
  "cfi_bytes Cfi_nop = [0x00]"
| "cfi_bytes (Cfi_advance d) = [0x40 OR word_of_nat d]"
| "cfi_bytes (Cfi_advance1 d) = 0x02 # le_bytes 1 d"
| "cfi_bytes (Cfi_advance2 d) = 0x03 # le_bytes 2 d"
| "cfi_bytes (Cfi_advance4 d) = 0x04 # le_bytes 4 d"
| "cfi_bytes (Cfi_def_cfa r off) = 0x0C # uleb_encode r @ uleb_encode off"
| "cfi_bytes (Cfi_def_cfa_register r) = 0x0D # uleb_encode r"
| "cfi_bytes (Cfi_def_cfa_offset off) = 0x0E # uleb_encode off"
| "cfi_bytes (Cfi_same_value r) = 0x08 # uleb_encode r"
| "cfi_bytes (Cfi_register r r') = 0x09 # uleb_encode r @ uleb_encode r'"
| "cfi_bytes (Cfi_def_cfa_expression b) = 0x0F # cfi_block b"
| "cfi_bytes (Cfi_expression r b) = 0x10 # uleb_encode r @ cfi_block b"
| "cfi_bytes (Cfi_val_expression r b) = 0x16 # uleb_encode r @ cfi_block b"
| "cfi_bytes (Cfi_offset r n) = (0x80 OR word_of_nat r) # uleb_encode n"

text \<open>Operands in the range the encoding and the readers carry.\<close>

fun wf_cfi :: "cfi \<Rightarrow> bool" where
  "wf_cfi Cfi_nop = True"
| "wf_cfi (Cfi_advance d) = (d < 64)"
| "wf_cfi (Cfi_advance1 d) = (d < 2 ^ 8)"
| "wf_cfi (Cfi_advance2 d) = (d < 2 ^ 16)"
| "wf_cfi (Cfi_advance4 d) = (d < 2 ^ 32)"
| "wf_cfi (Cfi_def_cfa r off) = (r < 2 ^ 31 \<and> off < 2 ^ 31)"
| "wf_cfi (Cfi_def_cfa_register r) = (r < 2 ^ 31)"
| "wf_cfi (Cfi_def_cfa_offset off) = (off < 2 ^ 31)"
| "wf_cfi (Cfi_same_value r) = (r < 2 ^ 31)"
| "wf_cfi (Cfi_register r r') = (r < 2 ^ 31 \<and> r' < 2 ^ 31)"
| "wf_cfi (Cfi_def_cfa_expression b) = (length b < 2 ^ 31)"
| "wf_cfi (Cfi_expression r b) = (r < 2 ^ 31 \<and> length b < 2 ^ 31)"
| "wf_cfi (Cfi_val_expression r b) = (r < 2 ^ 31 \<and> length b < 2 ^ 31)"
| "wf_cfi (Cfi_offset r n) = (r < 64 \<and> n < 2 ^ 31)"

text \<open>A row of the unwind table as the code keeps it: how the CFA and every register of the caller are found.  An
  expression for the CFA, if there is one, is used instead of the register.\<close>

datatype rule =
    Same_value
  | Saved_at u64
  | In_register nat
  | At_expression u64
  | Is_expression u64

record row =
  row_cfa_register :: nat
  row_cfa_offset :: u64
  row_cfa_expr :: "u64 option"
  row_rules :: "nat \<Rightarrow> rule"

text \<open>What the code makes of one instruction at address \<open>p\<close>, on a row and a location; \<open>N\<close> is the highest
  register and \<^term>\<open>None\<close> the rejection of a register above it.  This is the code's reading, with its
  differences from the standard; the rows of the standard are \<open>std_row\<close> below.\<close>

fun cfi_step :: "nat \<Rightarrow> u64 \<Rightarrow> u64 \<Rightarrow> u64 \<Rightarrow> cfi \<Rightarrow> row \<times> u64 \<Rightarrow> (row \<times> u64) option" where
  "cfi_step N caf daf p Cfi_nop (w, loc) = Some (w, loc)"
| "cfi_step N caf daf p (Cfi_advance d) (w, loc) = Some (w, word_of_nat d * caf)"
| "cfi_step N caf daf p (Cfi_advance1 d) (w, loc) = Some (w, loc + word_of_nat d * caf)"
| "cfi_step N caf daf p (Cfi_advance2 d) (w, loc) = Some (w, loc + word_of_nat d * caf)"
| "cfi_step N caf daf p (Cfi_advance4 d) (w, loc) = Some (w, loc + word_of_nat d * caf)"
| "cfi_step N caf daf p (Cfi_def_cfa r off) (w, loc) =
     (if r \<le> N then Some (w\<lparr>row_cfa_register := r, row_cfa_offset := word_of_nat off\<rparr>, loc) else None)"
| "cfi_step N caf daf p (Cfi_def_cfa_register r) (w, loc) =
     (if r \<le> N then Some (w\<lparr>row_cfa_register := r\<rparr>, loc) else None)"
| "cfi_step N caf daf p (Cfi_def_cfa_offset off) (w, loc) = Some (w\<lparr>row_cfa_offset := word_of_nat off\<rparr>, loc)"
| "cfi_step N caf daf p (Cfi_same_value r) (w, loc) =
     (if r \<le> N then Some (w\<lparr>row_rules := (row_rules w)(r := Same_value)\<rparr>, loc) else None)"
| "cfi_step N caf daf p (Cfi_register r r') (w, loc) =
     (if r \<le> N \<and> r' \<le> N then Some (w\<lparr>row_rules := (row_rules w)(r := In_register r')\<rparr>, loc) else None)"
| "cfi_step N caf daf p (Cfi_def_cfa_expression b) (w, loc) =
     Some (w\<lparr>row_cfa_register := N + 1, row_cfa_expr := Some (p + 1)\<rparr>, loc)"
| "cfi_step N caf daf p (Cfi_expression r b) (w, loc) =
     (if r \<le> N then Some (w\<lparr>row_rules := (row_rules w)
        (r := At_expression (p + 1 + word_of_nat (length (uleb_encode r))))\<rparr>, loc) else None)"
| "cfi_step N caf daf p (Cfi_val_expression r b) (w, loc) =
     (if r \<le> N then Some (w\<lparr>row_rules := (row_rules w)
        (r := Is_expression (p + 1 + word_of_nat (length (uleb_encode r))))\<rparr>, loc) else None)"
| "cfi_step N caf daf p (Cfi_offset r n) (w, loc) =
     (if r \<le> N then Some (w\<lparr>row_rules := (row_rules w)(r := Saved_at (word_of_nat n * daf))\<rparr>, loc) else None)"

fun cfi_run :: "nat \<Rightarrow> u64 \<Rightarrow> u64 \<Rightarrow> u64 \<Rightarrow> u64 \<Rightarrow> cfi list \<Rightarrow> row \<times> u64 \<Rightarrow> row option" where
  "cfi_run N caf daf pc p [] (w, loc) = Some w"
| "cfi_run N caf daf pc p (i # is) (w, loc) =
     (if \<not> loc <s pc then Some w
      else case cfi_step N caf daf p i (w, loc) of
        None \<Rightarrow> None
      | Some wl \<Rightarrow> cfi_run N caf daf pc (p + word_of_nat (length (cfi_bytes i))) is wl)"

definition cfis_bytes :: "cfi list \<Rightarrow> byte list" where
  "cfis_bytes is = concat (map cfi_bytes is)"

text \<open>The row that a state of the code stands for.\<close>

definition rule_of :: "dwarf_register \<Rightarrow> rule" where
  "rule_of d = (case reg_location d of
     FIRCLSDwarfRegisterUnused \<Rightarrow> Same_value
   | FIRCLSDwarfRegisterInCFA \<Rightarrow> Saved_at (reg_value d)
   | FIRCLSDwarfRegisterOffsetFromCFA \<Rightarrow> Same_value
   | FIRCLSDwarfRegisterInRegister \<Rightarrow> In_register (unat (reg_value d))
   | FIRCLSDwarfRegisterAtExpression \<Rightarrow> At_expression (reg_value d)
   | FIRCLSDwarfRegisterIsExpression \<Rightarrow> Is_expression (reg_value d))"

definition row_of :: "dwarf_state \<Rightarrow> row" where
  "row_of s = \<lparr>row_cfa_register = unat (cfaRegister s), row_cfa_offset = cfaRegisterOffset s,
     row_cfa_expr = (if cfaExpression s = 0 then None else Some (cfaExpression s)),
     row_rules = (\<lambda>n. if n < length (state_registers s) then rule_of (state_registers s ! n)
                      else Same_value)\<rparr>"

section \<open>Every instruction implements its meaning\<close>

lemma row_set_register:
  "unat n < length (state_registers s) \<Longrightarrow>
   row_of (set_register s n loc v) =
     (row_of s)\<lparr>row_rules := (row_rules (row_of s))(unat n := rule_of \<lparr>reg_location = loc, reg_value = v\<rparr>)\<rparr>"
  by (auto simp: row_of_def set_register_def nth_list_update)

lemma row_cfa_update:
  "row_of (s\<lparr>cfaRegister := r\<rparr>) = (row_of s)\<lparr>row_cfa_register := unat r\<rparr>"
  "row_of (s\<lparr>cfaRegisterOffset := v\<rparr>) = (row_of s)\<lparr>row_cfa_offset := v\<rparr>"
  "e \<noteq> 0 \<Longrightarrow> row_of (s\<lparr>cfaExpression := e\<rparr>) = (row_of s)\<lparr>row_cfa_expr := Some e\<rparr>"
  by (auto simp: row_of_def)

text \<open>What a handler that changes the rules returns for an outcome of the specification.\<close>

definition handles :: "u64 \<Rightarrow> (bool \<times> u64 \<times> dwarf_state) option \<Rightarrow> row option \<Rightarrow> bool" where
  "handles c' r out = (case out of
      None \<Rightarrow> (\<exists>c s. r = Some (False, c, s))
    | Some w \<Rightarrow> (\<exists>s. r = Some (True, c', s) \<and> row_of s = w))"

lemma uleb_at:
  "holds t c (uleb_encode n @ bs) \<Longrightarrow> n < 2 ^ 31 \<Longrightarrow> unat c + length (uleb_encode n @ bs) < 2 ^ 64 \<Longrightarrow>
   FIRCLSParseULEB128AndAdvance t c = Some (word_of_nat n, c + word_of_nat (length (uleb_encode n)))"
  using uleb_decode_encode_aux [of t c n] by (simp add: holds_append)

lemma uleb_next:
  "holds t c (uleb_encode n @ bs) \<Longrightarrow> holds t (c + word_of_nat (length (uleb_encode n))) bs"
  "unat c + length (uleb_encode n @ bs) < 2 ^ 64 \<Longrightarrow>
   unat (c + word_of_nat (length (uleb_encode n))) + length bs < 2 ^ 64"
  using unat_add_small [of c "length (uleb_encode n)"] by (simp_all add: holds_append)

lemma reg_in_range:
  fixes M :: u64
  shows "n < 2 ^ 31 \<Longrightarrow> (word_of_nat n > M) = (\<not> n \<le> unat M)"
    "n < 2 ^ 31 \<Longrightarrow> unat (word_of_nat n :: u64) = n"
  by (simp_all add: word_less_nat_alt unat_of_nat not_le)


definition operand_ok :: "nat \<Rightarrow> bool" where
  "operand_ok r \<longleftrightarrow>
     (0x80 OR word_of_nat r :: byte) AND 0x3F = word_of_nat r \<and>
     (0x80 OR word_of_nat r :: byte) AND 0xC0 = 0x80 \<and>
     (0x40 OR word_of_nat r :: byte) AND 0x3F = word_of_nat r \<and>
     (0x40 OR word_of_nat r :: byte) AND 0xC0 = 0x40 \<and>
     (0x80 OR word_of_nat r :: byte) > 0x2F \<and> (0x40 OR word_of_nat r :: byte) > 0x2F"

lemma operand_ok: "r < 64 \<Longrightarrow> operand_ok r"
proof -
  have "list_all operand_ok [0..<64]"
    by (simp add: operand_ok_def upt_rec)
  then show "r < 64 \<Longrightarrow> operand_ok r" by (simp add: list_all_iff)
qed

lemma uleb_end:
  "holds t c (uleb_encode n) \<Longrightarrow> n < 2 ^ 31 \<Longrightarrow> unat c + length (uleb_encode n) < 2 ^ 64 \<Longrightarrow>
   FIRCLSParseULEB128AndAdvance t c = Some (word_of_nat n, c + word_of_nat (length (uleb_encode n)))"
  using uleb_at [of t c n "[]"] by simp

lemma handles_def_cfa:
  assumes "holds t c (uleb_encode r @ uleb_encode n)" "r < 2 ^ 31" "n < 2 ^ 31"
    and "unat c + length (uleb_encode r @ uleb_encode n) < 2 ^ 64"
  shows "handles (c + word_of_nat (length (uleb_encode r @ uleb_encode n)))
    (FIRCLSDwarfParseAndExecute_def_cfa A t c s)
    (if r \<le> unat (CLS_DWARF_MAX_REGISTER_NUM A)
     then Some ((row_of s)\<lparr>row_cfa_register := r, row_cfa_offset := word_of_nat n\<rparr>) else None)"
  using uleb_at [OF assms(1,2,4)] uleb_end [OF uleb_next(1) [OF assms(1)] assms(3) uleb_next(2) [OF assms(4)]]
    reg_in_range [OF assms(2)]
  by (simp add: handles_def FIRCLSDwarfParseAndExecute_def_cfa_def row_cfa_update add.assoc)

lemma handles_def_cfa_register:
  assumes "holds t c (uleb_encode r)" "r < 2 ^ 31" "unat c + length (uleb_encode r) < 2 ^ 64"
  shows "handles (c + word_of_nat (length (uleb_encode r)))
    (FIRCLSDwarfParseAndExecute_def_cfa_register A t c s)
    (if r \<le> unat (CLS_DWARF_MAX_REGISTER_NUM A) then Some ((row_of s)\<lparr>row_cfa_register := r\<rparr>) else None)"
  using uleb_end [OF assms] reg_in_range [OF assms(2)]
  by (simp add: handles_def FIRCLSDwarfParseAndExecute_def_cfa_register_def row_cfa_update)

lemma handles_def_cfa_offset:
  assumes "holds t c (uleb_encode n)" "n < 2 ^ 31" "unat c + length (uleb_encode n) < 2 ^ 64"
  shows "handles (c + word_of_nat (length (uleb_encode n)))
    (FIRCLSDwarfParseAndExecute_def_cfa_offset t c s)
    (Some ((row_of s)\<lparr>row_cfa_offset := word_of_nat n\<rparr>))"
  using uleb_end [OF assms]
  by (simp add: handles_def FIRCLSDwarfParseAndExecute_def_cfa_offset_def row_cfa_update)

lemma handles_same_value:
  assumes "holds t c (uleb_encode r)" "r < 2 ^ 31" "unat c + length (uleb_encode r) < 2 ^ 64" "wf_state A s"
  shows "handles (c + word_of_nat (length (uleb_encode r)))
    (FIRCLSDwarfParseAndExecute_same_value A t c s)
    (if r \<le> unat (CLS_DWARF_MAX_REGISTER_NUM A)
     then Some ((row_of s)\<lparr>row_rules := (row_rules (row_of s))(r := Same_value)\<rparr>) else None)"
  using uleb_end [OF assms(1-3)] reg_in_range [OF assms(2)] assms(4)
  by (simp add: handles_def FIRCLSDwarfParseAndExecute_same_value_def row_set_register rule_of_def wf_state_def)

lemma handles_register:
  assumes "holds t c (uleb_encode r @ uleb_encode n)" "r < 2 ^ 31" "n < 2 ^ 31"
    and "unat c + length (uleb_encode r @ uleb_encode n) < 2 ^ 64" "wf_state A s"
  shows "handles (c + word_of_nat (length (uleb_encode r @ uleb_encode n)))
    (FIRCLSDwarfParseAndExecute_register A t c s)
    (if r \<le> unat (CLS_DWARF_MAX_REGISTER_NUM A) \<and> n \<le> unat (CLS_DWARF_MAX_REGISTER_NUM A)
     then Some ((row_of s)\<lparr>row_rules := (row_rules (row_of s))(r := In_register n)\<rparr>) else None)"
  using uleb_at [OF assms(1,2,4)] uleb_end [OF uleb_next(1) [OF assms(1)] assms(3) uleb_next(2) [OF assms(4)]]
    reg_in_range [OF assms(2)] reg_in_range [OF assms(3)] assms(5)
  by (simp add: handles_def FIRCLSDwarfParseAndExecute_register_def row_set_register rule_of_def
      wf_state_def add.assoc)

text \<open>The block of an expression is skipped.\<close>

lemma skip_block:
  assumes "holds t c (cfi_block b)" "length b < 2 ^ 31" "unat c + length (cfi_block b) < 2 ^ 64"
  shows "do { (len, cursor) \<leftarrow> FIRCLSParseULEB128AndAdvance t c; ptr_add cursor (unat len) }
    = Some (c + word_of_nat (length (cfi_block b)))"
    "do { (len, cursor) \<leftarrow> FIRCLSParseULEB128AndAdvance t c; cursor \<leftarrow> ptr_add cursor (unat len); f cursor }
    = f (c + word_of_nat (length (cfi_block b)))"
proof -
  have "unat (c + word_of_nat (length (uleb_encode (length b)))) = unat c + length (uleb_encode (length b))"
    using assms(3) by (intro unat_add_small) (simp add: cfi_block_def)
  then have "ptr_add (c + word_of_nat (length (uleb_encode (length b)))) (length b) =
      Some (c + word_of_nat (length (cfi_block b)))"
    using assms(3) by (simp add: ptr_add_def cfi_block_def add.assoc)
  then show "do { (len, cursor) \<leftarrow> FIRCLSParseULEB128AndAdvance t c; ptr_add cursor (unat len) }
    = Some (c + word_of_nat (length (cfi_block b)))"
    "do { (len, cursor) \<leftarrow> FIRCLSParseULEB128AndAdvance t c; cursor \<leftarrow> ptr_add cursor (unat len); f cursor }
    = f (c + word_of_nat (length (cfi_block b)))"
    using uleb_at [of t c "length b" b] assms reg_in_range(2) [OF assms(2)]
    by (simp_all add: cfi_block_def)
qed

lemma handles_expression:
  assumes "holds t c (uleb_encode r @ cfi_block b)" "r < 2 ^ 31" "length b < 2 ^ 31"
    and "unat c + length (uleb_encode r @ cfi_block b) < 2 ^ 64" "wf_state A s"
  shows "handles (c + word_of_nat (length (uleb_encode r @ cfi_block b)))
    (FIRCLSDwarfParseAndExecute_expression A t c s)
    (if r \<le> unat (CLS_DWARF_MAX_REGISTER_NUM A)
     then Some ((row_of s)\<lparr>row_rules := (row_rules (row_of s))
       (r := At_expression (c + word_of_nat (length (uleb_encode r))))\<rparr>) else None)"
    "handles (c + word_of_nat (length (uleb_encode r @ cfi_block b)))
    (FIRCLSDwarfParseAndExecute_val_expression A t c s)
    (if r \<le> unat (CLS_DWARF_MAX_REGISTER_NUM A)
     then Some ((row_of s)\<lparr>row_rules := (row_rules (row_of s))
       (r := Is_expression (c + word_of_nat (length (uleb_encode r))))\<rparr>) else None)"
  using uleb_at [OF assms(1,2,4)] reg_in_range [OF assms(2)] assms(5)
  by (simp_all add: handles_def
      skip_block(2) [OF uleb_next(1) [OF assms(1)] assms(3) uleb_next(2) [OF assms(4)]] FIRCLSDwarfParseAndExecute_expression_def
      FIRCLSDwarfParseAndExecute_val_expression_def row_set_register rule_of_def wf_state_def add.assoc)

lemma handles_def_cfa_expression:
  assumes "holds t c (cfi_block b)" "length b < 2 ^ 31" "unat c + length (cfi_block b) < 2 ^ 64" "c \<noteq> 0"
    and "unat (CLS_DWARF_MAX_REGISTER_NUM A) < 64"
  shows "handles (c + word_of_nat (length (cfi_block b)))
    (FIRCLSDwarfParseAndExecute_def_cfa_expression A t c s)
    (Some ((row_of s)\<lparr>row_cfa_register := unat (CLS_DWARF_MAX_REGISTER_NUM A) + 1, row_cfa_expr := Some c\<rparr>))"
proof -
  have "unat (CLS_DWARF_INVALID_REGISTER_NUM A) = unat (CLS_DWARF_MAX_REGISTER_NUM A) + 1"
    using assms(5) unat_add_small [of "CLS_DWARF_MAX_REGISTER_NUM A" 1]
    by (simp add: CLS_DWARF_INVALID_REGISTER_NUM_def)
  then show ?thesis
    using assms(4)
    by (simp add: handles_def skip_block(2) [OF assms(1-3)] FIRCLSDwarfParseAndExecute_def_cfa_expression_def row_cfa_update)
qed

lemma handles_offset:
  assumes "holds t c (uleb_encode n)" "r < 64" "n < 2 ^ 31" "unat c + length (uleb_encode n) < 2 ^ 64"
    and "wf_state A s"
  shows "handles (c + word_of_nat (length (uleb_encode n)))
    (FIRCLSDwarfParseAndExecute_offset A t c cie s (word_of_nat r))
    (if r \<le> unat (CLS_DWARF_MAX_REGISTER_NUM A)
     then Some ((row_of s)\<lparr>row_rules := (row_rules (row_of s))
       (r := Saved_at (word_of_nat n * dataAlignFactor cie))\<rparr>) else None)"
proof -
  have "ucast (word_of_nat r :: byte) = (word_of_nat r :: u64)"
    using assms(2) by (simp add: word_unat_eq_iff unsigned_ucast_eq unat_of_nat take_bit_nat_eq_self)
  then show ?thesis
    using uleb_end [OF assms(1,3,4)] reg_in_range [where n = r] assms(2,5)
    by (simp add: handles_def FIRCLSDwarfParseAndExecute_offset_def row_set_register rule_of_def wf_state_def)
qed

definition steps :: "u64 \<Rightarrow> (bool \<times> u64 \<times> dwarf_state \<times> u64) option \<Rightarrow> (row \<times> u64) option \<Rightarrow> bool" where
  "steps c' r out = (case out of
      None \<Rightarrow> (\<exists>c s l. r = Some (False, c, s, l))
    | Some (w, l) \<Rightarrow> (\<exists>s. r = Some (True, c', s, l) \<and> row_of s = w))"

lemma steps_handles:
  "handles c' r (map_option fst out) \<Longrightarrow> \<forall>w l. out = Some (w, l) \<longrightarrow> l = loc \<Longrightarrow>
   steps c' (map_option (\<lambda>(ok, c, s). (ok, c, s, loc)) r) out"
  by (cases out) (fastforce simp: steps_def handles_def)+

lemma execute_dispatch:
  "execute_instruction A t cie 0x00 c s l = Some (True, c, s, l)"
  "execute_instruction A t cie 0x02 c s l =
     map_option (\<lambda>(ok, c, off). (ok, c, s, off)) (FIRCLSDwarfParseAndExecute_advance_loc1 t c cie l)"
  "execute_instruction A t cie 0x03 c s l =
     map_option (\<lambda>(ok, c, off). (ok, c, s, off)) (FIRCLSDwarfParseAndExecute_advance_loc2 t c cie l)"
  "execute_instruction A t cie 0x04 c s l =
     map_option (\<lambda>(ok, c, off). (ok, c, s, off)) (FIRCLSDwarfParseAndExecute_advance_loc4 t c cie l)"
  "execute_instruction A t cie 0x0C c s l =
     map_option (\<lambda>(ok, c, s). (ok, c, s, l)) (FIRCLSDwarfParseAndExecute_def_cfa A t c s)"
  "execute_instruction A t cie 0x0D c s l =
     map_option (\<lambda>(ok, c, s). (ok, c, s, l)) (FIRCLSDwarfParseAndExecute_def_cfa_register A t c s)"
  "execute_instruction A t cie 0x0E c s l =
     map_option (\<lambda>(ok, c, s). (ok, c, s, l)) (FIRCLSDwarfParseAndExecute_def_cfa_offset t c s)"
  "execute_instruction A t cie 0x08 c s l =
     map_option (\<lambda>(ok, c, s). (ok, c, s, l)) (FIRCLSDwarfParseAndExecute_same_value A t c s)"
  "execute_instruction A t cie 0x09 c s l =
     map_option (\<lambda>(ok, c, s). (ok, c, s, l)) (FIRCLSDwarfParseAndExecute_register A t c s)"
  "execute_instruction A t cie 0x0F c s l =
     map_option (\<lambda>(ok, c, s). (ok, c, s, l)) (FIRCLSDwarfParseAndExecute_def_cfa_expression A t c s)"
  "execute_instruction A t cie 0x10 c s l =
     map_option (\<lambda>(ok, c, s). (ok, c, s, l)) (FIRCLSDwarfParseAndExecute_expression A t c s)"
  "execute_instruction A t cie 0x16 c s l =
     map_option (\<lambda>(ok, c, s). (ok, c, s, l)) (FIRCLSDwarfParseAndExecute_val_expression A t c s)"
  by (simp_all add: execute_instruction_def)

lemma execute_dispatch_operand:
  assumes "i > 0x2F"
  shows "execute_instruction A t cie i c s l =
     FIRCLSDwarfParseAndExecuteInstructionWithOperand A t c i cie s l"
proof -
  have ne: "i \<noteq> k" if "k \<le> 0x2F" for k using assms that by auto
  show ?thesis
    unfolding execute_instruction_def Let_def
    by (simp add: ne)
qed

lemma execute_operand:
  assumes "r < 64"
  shows "execute_instruction A t cie (0x80 OR word_of_nat r) c s l =
     map_option (\<lambda>(ok, c, s). (ok, c, s, l)) (FIRCLSDwarfParseAndExecute_offset A t c cie s (word_of_nat r))"
    "execute_instruction A t cie (0x40 OR word_of_nat r) c s l =
     Some (True, c, s, word_of_nat r * codeAlignFactor cie)"
proof -
  have "ucast (word_of_nat r :: byte) = (word_of_nat r :: u64)"
    using assms by (simp add: word_unat_eq_iff unsigned_ucast_eq unat_of_nat take_bit_nat_eq_self)
  then show "execute_instruction A t cie (0x80 OR word_of_nat r) c s l =
     map_option (\<lambda>(ok, c, s). (ok, c, s, l)) (FIRCLSDwarfParseAndExecute_offset A t c cie s (word_of_nat r))"
    "execute_instruction A t cie (0x40 OR word_of_nat r) c s l =
     Some (True, c, s, word_of_nat r * codeAlignFactor cie)"
    using operand_ok [OF assms]
    by (simp_all add: execute_dispatch_operand operand_ok_def DW_CFA_OPCODE_MASK_def
        DW_CFA_OPERAND_MASK_def FIRCLSDwarfParseAndExecuteInstructionWithOperand_def
        FIRCLSDwarfParseAndExecute_advance_loc_def)
qed

text \<open>The fixed-width operands of the location instructions.\<close>

lemma le_bytes_parse:
  assumes "holds t c (le_bytes k d)" "unat c + k < 2 ^ 64" "d < 256 ^ k"
  shows "parse_bytes t c k = Some (le_bytes k d, c + word_of_nat k)" "le_nat (le_bytes k d) = d"
  using assms parse_bytes_holds [of t c "le_bytes k d" k] by (simp_all add: le_nat_le_bytes)

lemma ucast_word_of_nat:
  assumes "d < 2 ^ LENGTH('a)" "LENGTH('a) \<le> LENGTH('b)"
  shows "(ucast (word_of_nat d :: 'a::len word) :: 'b::len word) = word_of_nat d"
proof -
  have "d < 2 ^ LENGTH('b)" using assms by (meson less_le_trans one_le_numeral power_increasing)
  then show ?thesis using assms(1)
    by (simp add: word_unat_eq_iff unsigned_ucast_eq unat_of_nat take_bit_nat_eq_self)
qed

lemma advance_locs:
  "holds t c (le_bytes 1 d) \<Longrightarrow> unat c + 1 < 2 ^ 64 \<Longrightarrow> d < 2 ^ 8 \<Longrightarrow>
   FIRCLSDwarfParseAndExecute_advance_loc1 t c cie l =
     Some (True, c + 1, l + word_of_nat d * codeAlignFactor cie)"
  "holds t c (le_bytes 2 d) \<Longrightarrow> unat c + 2 < 2 ^ 64 \<Longrightarrow> d < 2 ^ 16 \<Longrightarrow>
   FIRCLSDwarfParseAndExecute_advance_loc2 t c cie l =
     Some (True, c + 2, l + word_of_nat d * codeAlignFactor cie)"
  "holds t c (le_bytes 4 d) \<Longrightarrow> unat c + 4 < 2 ^ 64 \<Longrightarrow> d < 2 ^ 32 \<Longrightarrow>
   FIRCLSDwarfParseAndExecute_advance_loc4 t c cie l =
     Some (True, c + 4, l + word_of_nat d * codeAlignFactor cie)"
  using le_bytes_parse [of t c 2 d] le_bytes_parse [of t c 4 d]
  by (simp_all add: location_handler_defs fixed_reader_defs le_word_def ucast_word_of_nat
      holds_Cons ptr_add_def)

lemma cfi_bytes_Cons: "\<exists>b bs. cfi_bytes i = b # bs"
  by (cases i) auto

lemma instruction_refines:
  assumes "holds t c (cfi_bytes i)" "unat c + length (cfi_bytes i) < 2 ^ 64" "wf_cfi i" "wf_state A s"
    and "unat (CLS_DWARF_MAX_REGISTER_NUM A) < 64" "cfi_bytes i = b # bs"
  shows "steps (c + word_of_nat (length (cfi_bytes i))) (execute_instruction A t cie b (c + 1) s l)
     (cfi_step (unat (CLS_DWARF_MAX_REGISTER_NUM A)) (codeAlignFactor cie) (dataAlignFactor cie) c i
        (row_of s, l))"
proof -
  have uc: "unat (c + 1) = unat c + 1"
    using unat_add_small [of c 1] assms(2,6) by simp
  then have c0: "c + 1 \<noteq> 0" by auto
  have bs: "holds t (c + 1) bs" "unat (c + 1) + length bs < 2 ^ 64"
    using assms(1,2,6) uc by (simp_all add: holds_Cons)
  have eq: "c + word_of_nat (length (cfi_bytes i)) = c + 1 + word_of_nat (length bs)"
    by (simp add: assms(6) algebra_simps)
  note H = steps_handles [of "c + 1 + word_of_nat (length bs)" _ _ l]
  show ?thesis
  proof (cases i)
    case Cfi_nop
    then show ?thesis using assms(6) by (simp add: execute_dispatch steps_def eq)
  next
    case (Cfi_advance d)
    then show ?thesis using assms(3,6) by (auto simp: execute_operand steps_def)
  next
    case (Cfi_advance1 d)
    then show ?thesis using assms(3,6) bs advance_locs(1) [of t "c + 1" d]
      by (auto simp: execute_dispatch steps_def)
  next
    case (Cfi_advance2 d)
    then show ?thesis using assms(3,6) bs advance_locs(2) [of t "c + 1" d]
      by (auto simp: execute_dispatch steps_def)
  next
    case (Cfi_advance4 d)
    then show ?thesis using assms(3,6) bs advance_locs(3) [of t "c + 1" d]
      by (auto simp: execute_dispatch steps_def)
  next
    case (Cfi_def_cfa r n)
    then have b: "b = 0x0C" "bs = uleb_encode r @ uleb_encode n" using assms(6) by auto
    show ?thesis unfolding eq b(1) execute_dispatch
      by (rule H) (use handles_def_cfa [of t "c + 1" r n A s] bs b assms(3) Cfi_def_cfa in \<open>auto split: if_splits\<close>)
  next
    case (Cfi_def_cfa_register r)
    then have b: "b = 0x0D" "bs = uleb_encode r" using assms(6) by auto
    show ?thesis unfolding eq b(1) execute_dispatch
      by (rule H) (use handles_def_cfa_register [of t "c + 1" r A s] bs b assms(3) Cfi_def_cfa_register
          in \<open>auto split: if_splits\<close>)
  next
    case (Cfi_def_cfa_offset n)
    then have b: "b = 0x0E" "bs = uleb_encode n" using assms(6) by auto
    show ?thesis unfolding eq b(1) execute_dispatch
      by (rule H) (use handles_def_cfa_offset [of t "c + 1" n s] bs b assms(3) Cfi_def_cfa_offset
          in \<open>auto split: if_splits\<close>)
  next
    case (Cfi_same_value r)
    then have b: "b = 0x08" "bs = uleb_encode r" using assms(6) by auto
    show ?thesis unfolding eq b(1) execute_dispatch
      by (rule H) (use handles_same_value [of t "c + 1" r A s] bs b assms(3,4) Cfi_same_value
          in \<open>auto split: if_splits\<close>)
  next
    case (Cfi_register r n)
    then have b: "b = 0x09" "bs = uleb_encode r @ uleb_encode n" using assms(6) by auto
    show ?thesis unfolding eq b(1) execute_dispatch
      by (rule H) (use handles_register [of t "c + 1" r n A s] bs b assms(3,4) Cfi_register
          in \<open>auto split: if_splits\<close>)
  next
    case (Cfi_def_cfa_expression e)
    then have b: "b = 0x0F" "bs = cfi_block e" using assms(6) by auto
    show ?thesis unfolding eq b(1) execute_dispatch
      by (rule H) (use handles_def_cfa_expression [of t "c + 1" e A s] bs b c0 assms(3,5) Cfi_def_cfa_expression
          in \<open>auto split: if_splits\<close>)
  next
    case (Cfi_expression r e)
    then have b: "b = 0x10" "bs = uleb_encode r @ cfi_block e" using assms(6) by auto
    show ?thesis unfolding eq b(1) execute_dispatch
      by (rule H) (use handles_expression(1) [of t "c + 1" r e A s] bs b assms(3,4) Cfi_expression
          in \<open>auto split: if_splits\<close>)
  next
    case (Cfi_val_expression r e)
    then have b: "b = 0x16" "bs = uleb_encode r @ cfi_block e" using assms(6) by auto
    show ?thesis unfolding eq b(1) execute_dispatch
      by (rule H) (use handles_expression(2) [of t "c + 1" r e A s] bs b assms(3,4) Cfi_val_expression
          in \<open>auto split: if_splits\<close>)
  next
    case (Cfi_offset r n)
    then have b: "b = 0x80 OR word_of_nat r" "bs = uleb_encode n" "r < 64" using assms(3,6) by auto
    show ?thesis unfolding eq b(1) execute_operand(1) [OF b(3)]
      by (rule H) (use handles_offset [of t "c + 1" n r A s cie] bs b assms(3,4) Cfi_offset
          in \<open>auto split: if_splits\<close>)
  qed
qed

lemma cfis_bytes_simps [simp]:
  "cfis_bytes [] = []" "cfis_bytes (i # is) = cfi_bytes i @ cfis_bytes is"
  by (simp_all add: cfis_bytes_def)

definition runs :: "'r arch \<Rightarrow> (bool \<times> dwarf_state) option \<Rightarrow> row option \<Rightarrow> bool" where
  "runs A r out = (case out of
      None \<Rightarrow> (\<exists>s. r = Some (False, s))
    | Some w \<Rightarrow> (\<exists>s. r = Some (True, s) \<and> row_of s = w \<and> wf_state A s))"

lemma enumerate_refines:
  assumes "holds t c (cfis_bytes is)" "unat c + length (cfis_bytes is) < 2 ^ 64" "list_all wf_cfi is"
    and "wf_state A s" "unat (CLS_DWARF_MAX_REGISTER_NUM A) < 64"
    and "e = c + word_of_nat (length (cfis_bytes is))"
  shows "runs A (enumerate_loop A t cie e pc c s l)
     (cfi_run (unat (CLS_DWARF_MAX_REGISTER_NUM A)) (codeAlignFactor cie) (dataAlignFactor cie) pc c is
        (row_of s, l))"
  using assms(1-4,6)
proof (induction "is" arbitrary: c s l)
  case Nil
  then show ?case by (subst enumerate_loop.simps) (simp add: runs_def)
next
  case (Cons i "is")
  obtain b bs where b: "cfi_bytes i = b # bs" using cfi_bytes_Cons by blast
  define n where "n = length (cfi_bytes i)"
  have mem: "holds t c (cfi_bytes i)" "holds t (c + word_of_nat n) (cfis_bytes is)" "unat c + n < 2 ^ 64"
    "wf_cfi i" "list_all wf_cfi is"
    using Cons.prems(1-3) by (simp_all add: holds_append n_def)
  have n0: "0 < n" using b by (simp add: n_def)
  have ue: "unat e = unat c + length (cfis_bytes (i # is))"
    using unat_add_small Cons.prems(2,5) by blast
  have lt: "c < e" using ue n0 by (simp add: word_less_nat_alt n_def)
  have rd: "FIRCLSParseUint8AndAdvance t c = Some (b, c + 1)"
    using mem(1,3) b by (auto simp: uint8_holds holds_Cons n_def)
  show ?case
  proof (cases "l <s pc")
    case False
    then show ?thesis using Cons.prems(4)
      by (subst enumerate_loop.simps) (auto simp: runs_def)
  next
    case True
    define r where "r = execute_instruction A t cie b (c + 1) s l"
    have st: "steps (c + word_of_nat n) r
       (cfi_step (unat (CLS_DWARF_MAX_REGISTER_NUM A)) (codeAlignFactor cie) (dataAlignFactor cie) c i (row_of s, l))"
      using instruction_refines [OF mem(1) _ mem(4) Cons.prems(4) assms(5) b] mem(3)
      by (simp add: r_def n_def)
    have loop: "enumerate_loop A t cie e pc c s l = (case r of None \<Rightarrow> None
        | Some (ok, c2, s', l') \<Rightarrow> if \<not> ok then Some (False, s') else enumerate_loop A t cie e pc c2 s' l')"
      using True lt by (subst enumerate_loop.simps) (simp add: rd r_def)
    show ?thesis
    proof (cases "cfi_step (unat (CLS_DWARF_MAX_REGISTER_NUM A)) (codeAlignFactor cie) (dataAlignFactor cie) c i (row_of s, l)")
      case None
      then show ?thesis using st True by (auto simp: steps_def loop runs_def)
    next
      case (Some wl)
      then obtain w l' s' where wl: "wl = (w, l')" "r = Some (True, c + word_of_nat n, s', l')" "row_of s' = w"
        using st by (cases wl) (auto simp: steps_def)
      have "c + 1 \<noteq> 0" using uint8_progress [OF rd] by auto
      then have wf: "wf_state A s'" using wf_instruction wl(2) Cons.prems(4) unfolding r_def by blast
      have "unat (c + word_of_nat n) = unat c + n" using unat_add_small mem(3) by simp
      then have "runs A (enumerate_loop A t cie e pc (c + word_of_nat n) s' l')
          (cfi_run (unat (CLS_DWARF_MAX_REGISTER_NUM A)) (codeAlignFactor cie) (dataAlignFactor cie) pc
             (c + word_of_nat n) is (row_of s', l'))"
        using Cons.prems(2,5) mem wf by (intro Cons.IH) (simp_all add: n_def add.assoc)
      then show ?thesis using True Some by (simp add: loop wl n_def)
    qed
  qed
qed

lemma instructions_enumerate_aux:
  assumes "holds t (instr_data instrs) (cfis_bytes is)"
    and "unat (instr_length instrs) = length (cfis_bytes is)"
    and "unat (instr_data instrs) + length (cfis_bytes is) < 2 ^ 64"
    and "list_all wf_cfi is" "wf_state A s" "unat (CLS_DWARF_MAX_REGISTER_NUM A) < 64"
  shows "runs A (FIRCLSDwarfInstructionsEnumerate A t instrs cie s pc)
     (cfi_run (unat (CLS_DWARF_MAX_REGISTER_NUM A)) (codeAlignFactor cie) (dataAlignFactor cie) pc
        (instr_data instrs) is (row_of s, 0))"
  using enumerate_refines [OF assms(1,3,4,5,6) refl, of cie pc 0] assms(2,3)
  by (simp add: FIRCLSDwarfInstructionsEnumerate_def ptr_add_def)

section \<open>Assigning the caller's registers\<close>

context thread_arch begin

lemma max_small: "unat (CLS_DWARF_MAX_REGISTER_NUM A) < 64"
  using max_register_small by (simp add: word_less_nat_alt)

text \<open>The loop sets exactly the registers that have a rule.\<close>

lemma assign_loop_registers:
  assumes "assign_loop A t regs cfa ds i new = Some (Some new')" "i + length ds \<le> 2 ^ 63" "m < 2 ^ 63"
  shows "FIRCLSDwarfUnwindGetRegisterValue A new' (word_of_nat m) =
    (if i \<le> m \<and> m < i + length ds \<and> reg_location (ds ! (m - i)) \<noteq> FIRCLSDwarfRegisterUnused
     then strip (word_of_nat m) (the (FIRCLSDwarfGetSavedRegister A t regs cfa (ds ! (m - i))))
     else FIRCLSDwarfUnwindGetRegisterValue A new (word_of_nat m))"
  using assms(1,2)
proof (induction ds arbitrary: i new)
  case (Cons d ds)
  have ne: "word_of_nat m \<noteq> (word_of_nat i :: u64)" if "m \<noteq> i"
    using that assms(3) Cons.prems(2) by (simp add: word_unat_eq_iff unat_of_nat)
  show ?case
  proof (cases "reg_location d = FIRCLSDwarfRegisterUnused")
    case True
    then show ?thesis using Cons.IH [of "i + 1" new] Cons.prems
      by (cases "m = i") (auto simp: nth_Cons' Suc_diff_le)
  next
    case False
    then obtain v new1 where v: "FIRCLSDwarfGetSavedRegister A t regs cfa d = Some v"
        "FIRCLSDwarfUnwindSetRegisterValue A new (word_of_nat i) v = Some new1"
        "assign_loop A t regs cfa ds (i + 1) new1 = Some (Some new')"
      using Cons.prems(1) by (auto simp: bind_Some_iff split: option.splits)
    show ?thesis
      using Cons.IH [OF v(3)] Cons.prems(2) get_set_same [OF v(2)] get_set_other [OF v(2) ne] False v(1)
      by (cases "m = i") (auto simp: nth_Cons')
  qed
qed auto

end

text \<open>The value a rule of a row gives a register, \<^term>\<open>None\<close> where its expression faults.\<close>

definition read_word :: "task \<Rightarrow> u64 \<Rightarrow> u64" where
  "read_word t a = (case FIRCLSReadMemory t a 8 of None \<Rightarrow> 0 | Some bs \<Rightarrow> le_word bs)"

fun rule_value :: "'r arch \<Rightarrow> task \<Rightarrow> 'r \<Rightarrow> u64 \<Rightarrow> rule \<Rightarrow> u64 option" where
  "rule_value A t regs cfa Same_value = Some 0"
| "rule_value A t regs cfa (Saved_at off) = Some (read_word t (cfa + off))"
| "rule_value A t regs cfa (In_register r) =
     Some (FIRCLSDwarfUnwindGetRegisterValue A regs (word_of_nat r))"
| "rule_value A t regs cfa (At_expression a) =
     map_option (\<lambda>r. case r of None \<Rightarrow> 0 | Some v \<Rightarrow> read_word t v)
       (FIRCLSDwarfEvalulateExpression A t a regs cfa)"
| "rule_value A t regs cfa (Is_expression a) =
     map_option (\<lambda>r. case r of None \<Rightarrow> 0 | Some v \<Rightarrow> v) (FIRCLSDwarfEvalulateExpression A t a regs cfa)"

lemma saved_register_rule:
  "FIRCLSDwarfGetSavedRegister A t regs cfa d = rule_value A t regs cfa (rule_of d)"
proof -
  have eq: "Option.bind m (\<lambda>r. case r of None \<Rightarrow> Some a | Some v \<Rightarrow> Some (f v)) =
      map_option (\<lambda>r. case r of None \<Rightarrow> a | Some v \<Rightarrow> f v) m" for m :: "u64 option option" and a f
    by (cases m) (auto split: option.splits)
  have "(case FIRCLSReadMemory t a 8 of None \<Rightarrow> Some 0 | Some bs \<Rightarrow> Some (le_word bs)) = Some (read_word t a)" for a
    by (simp add: read_word_def split: option.splits)
  then show ?thesis
    by (cases "reg_location d") (simp_all add: FIRCLSDwarfGetSavedRegister_def rule_of_def eq)
qed

text \<open>The CFA of a row.\<close>

definition row_cfa :: "'r arch \<Rightarrow> task \<Rightarrow> 'r \<Rightarrow> row \<Rightarrow> u64 option option" where
  "row_cfa A t regs w = (case row_cfa_expr w of
     Some a \<Rightarrow> FIRCLSDwarfEvalulateExpression A t a regs 0
   | None \<Rightarrow> Some (Some (FIRCLSDwarfUnwindGetRegisterValue A regs (word_of_nat (row_cfa_register w))
                       + row_cfa_offset w)))"

lemma get_cfa_row: "FIRCLSDwarfGetCFA A t s regs = row_cfa A t regs (row_of s)"
  by (simp add: FIRCLSDwarfGetCFA_def row_cfa_def row_of_def)

lemma row_zero_state: "row_of (zero_state A) =
   \<lparr>row_cfa_register = 0, row_cfa_offset = 0, row_cfa_expr = None, row_rules = \<lambda>_. Same_value\<rparr>"
  by (auto simp: row_of_def zero_state_def rule_of_def simp flip: replicate_Suc)

text \<open>The caller's registers by a row: \<open>new\<close> has the CFA in the stack pointer and the rule's value
  in every other register, and agrees with \<open>regs\<close> where there is no rule.\<close>

definition caller_value :: "'r arch \<Rightarrow> task \<Rightarrow> 'r \<Rightarrow> u64 \<Rightarrow> (nat \<Rightarrow> rule) \<Rightarrow> (u64 \<Rightarrow> u64 \<Rightarrow> u64) \<Rightarrow> u64 \<Rightarrow> u64" where
  "caller_value A t regs cfa rules strip m =
     (if m = CLS_DWARF_REG_SP A then strip m cfa
      else case rules (unat m) of
        Same_value \<Rightarrow> FIRCLSDwarfUnwindGetRegisterValue A regs m
      | rl \<Rightarrow> strip m (the (rule_value A t regs cfa rl)))"

context thread_arch begin

lemma assign_loop_total:
  assumes "\<forall>d \<in> set ds. rule_value A t regs cfa (rule_of d) \<noteq> None"
    and "i + length ds \<le> unat (CLS_DWARF_MAX_REGISTER_NUM A) + 1"
  shows "\<exists>new'. assign_loop A t regs cfa ds i new = Some (Some new')"
  using assms
proof (induction ds arbitrary: i new)
  case (Cons d ds)
  have "(word_of_nat i :: u64) \<le> CLS_DWARF_MAX_REGISTER_NUM A"
    using Cons.prems(2) max_small by (simp add: word_le_nat_alt unat_of_nat)
  then obtain new1 where "FIRCLSDwarfUnwindSetRegisterValue A new (word_of_nat i)
      (the (rule_value A t regs cfa (rule_of d))) = Some new1"
    using set_some by blast
  then show ?case
    using Cons.IH [of "i + 1" new] Cons.IH [of "i + 1" new1] Cons.prems
    by (auto simp: saved_register_rule)
qed simp

lemma assign_registers_row:
  assumes "wf_state A s" "\<forall>d \<in> set (state_registers s). rule_value A t regs cfa (rule_of d) \<noteq> None"
  obtains new where
    "\<And>m. m \<le> CLS_DWARF_MAX_REGISTER_NUM A \<Longrightarrow>
       FIRCLSDwarfUnwindGetRegisterValue A new m = caller_value A t regs cfa (row_rules (row_of s)) strip m"
    "FIRCLSDwarfUnwindAssignRegisters A t s regs cfa =
       Some (if FIRCLSDwarfCompareRegisters A regs new (CLS_DWARF_REG_SP A) \<or>
                FIRCLSDwarfCompareRegisters A regs new (CLS_DWARF_REG_RETURN A)
             then None else Some new)"
proof -
  have len: "length (state_registers s) = unat (CLS_DWARF_MAX_REGISTER_NUM A) + 1"
    using assms(1) by (simp add: wf_state_def)
  obtain new1 where n1: "assign_loop A t regs cfa (state_registers s) 0 regs = Some (Some new1)"
    using assign_loop_total [OF assms(2)] len by fastforce
  obtain new where n: "FIRCLSDwarfUnwindSetRegisterValue A new1 (CLS_DWARF_REG_SP A) cfa = Some new"
    using set_some sp_valid by blast
  show ?thesis
  proof (rule that)
    fix m :: u64 assume m: "m \<le> CLS_DWARF_MAX_REGISTER_NUM A"
    then have mn: "unat m < length (state_registers s)" by (simp add: len word_le_nat_alt less_Suc_eq_le)
    show "FIRCLSDwarfUnwindGetRegisterValue A new m = caller_value A t regs cfa (row_rules (row_of s)) strip m"
    proof (cases "m = CLS_DWARF_REG_SP A")
      case True
      then show ?thesis using get_set_same [OF n] by (simp add: caller_value_def)
    next
      case False
      have "FIRCLSDwarfUnwindGetRegisterValue A new m = FIRCLSDwarfUnwindGetRegisterValue A new1 m"
        using get_set_other [OF n False] .
      also have "\<dots> = (if reg_location (state_registers s ! unat m) \<noteq> FIRCLSDwarfRegisterUnused
          then strip m (the (rule_value A t regs cfa (rule_of (state_registers s ! unat m))))
          else FIRCLSDwarfUnwindGetRegisterValue A regs m)"
        using assign_loop_registers [OF n1, of "unat m"] mn max_small len
        by (simp add: saved_register_rule)
      also have "\<dots> = caller_value A t regs cfa (row_rules (row_of s)) strip m"
      proof -
        have "wf_rule A (state_registers s ! unat m)"
          using assms(1) mn by (simp add: wf_state_def list_all_length)
        then show ?thesis using False mn
          by (cases "reg_location (state_registers s ! unat m)")
            (simp_all add: caller_value_def row_of_def rule_of_def wf_rule_def)
      qed
      finally show ?thesis .
    qed
  next
    show "FIRCLSDwarfUnwindAssignRegisters A t s regs cfa =
       Some (if FIRCLSDwarfCompareRegisters A regs new (CLS_DWARF_REG_SP A) \<or>
                FIRCLSDwarfCompareRegisters A regs new (CLS_DWARF_REG_RETURN A)
             then None else Some new)"
      by (simp add: FIRCLSDwarfUnwindAssignRegisters_def n1 n)
  qed
qed

end

text \<open>\<open>encodes t instrs is\<close>: the instruction block is the encoding of the program \<open>is\<close>.\<close>

definition encodes :: "task \<Rightarrow> instructions \<Rightarrow> cfi list \<Rightarrow> bool" where
  "encodes t instrs is \<longleftrightarrow> holds t (instr_data instrs) (cfis_bytes is) \<and>
     unat (instr_length instrs) = length (cfis_bytes is) \<and>
     unat (instr_data instrs) + length (cfis_bytes is) < 2 ^ 64 \<and> list_all wf_cfi is"

lemma enumerate_encodes:
  assumes "encodes t instrs is" "wf_state A s" "unat (CLS_DWARF_MAX_REGISTER_NUM A) < 64"
  shows "runs A (FIRCLSDwarfInstructionsEnumerate A t instrs cie s pc)
     (cfi_run (unat (CLS_DWARF_MAX_REGISTER_NUM A)) (codeAlignFactor cie) (dataAlignFactor cie) pc
        (instr_data instrs) is (row_of s, 0))"
  using assms by (intro instructions_enumerate_aux) (simp_all add: encodes_def)

text \<open>The row that the code computes at an offset into the function: the program of the CIE, then that of the FDE.\<close>

definition empty_row :: row where
  "empty_row = \<lparr>row_cfa_register = 0, row_cfa_offset = 0, row_cfa_expr = None, row_rules = \<lambda>_. Same_value\<rparr>"

definition table_row :: "'r arch \<Rightarrow> cfi_record \<Rightarrow> cfi list \<Rightarrow> cfi list \<Rightarrow> u64 \<Rightarrow> row option" where
  "table_row A rec cis fis off =
     (let N = unat (CLS_DWARF_MAX_REGISTER_NUM A);
          caf = codeAlignFactor (cfi_cie rec); daf = dataAlignFactor (cfi_cie rec) in do {
        w \<leftarrow> cfi_run N caf daf INTPTR_MAX (instr_data (cie_instructions (cfi_cie rec))) cis (empty_row, 0);
        cfi_run N caf daf off (instr_data (fde_instructions (cfi_fde rec))) fis (w, 0) })"

context thread_arch begin

lemma enumerate_row:
  assumes "encodes t instrs is" "wf_state A s"
  shows "runs A (FIRCLSDwarfInstructionsEnumerate A t instrs cie s pc)
     (cfi_run (unat (CLS_DWARF_MAX_REGISTER_NUM A)) (codeAlignFactor cie) (dataAlignFactor cie) pc
        (instr_data instrs) is (row_of s, 0))"
  using assms max_small by (rule enumerate_encodes)

lemma compute_registers_fails:
  assumes "encodes t (cie_instructions (cfi_cie rec)) cis" "encodes t (fde_instructions (cfi_fde rec)) fis"
    and "off = GET_IP_REGISTER A regs - startAddress (cfi_fde rec)"
    and "off <s 0 \<or> table_row A rec cis fis off = None"
  shows "FIRCLSDwarfUnwindComputeRegisters A t rec regs = Some None"
proof -
  note cie = enumerate_row [OF assms(1) wf_zero_state, of "cfi_cie rec" INTPTR_MAX, unfolded row_zero_state]
  let ?w = "cfi_run (unat (CLS_DWARF_MAX_REGISTER_NUM A)) (codeAlignFactor (cfi_cie rec))
    (dataAlignFactor (cfi_cie rec)) INTPTR_MAX (instr_data (cie_instructions (cfi_cie rec))) cis (empty_row, 0)"
  show ?thesis
  proof (cases "?w")
    case None
    then show ?thesis using cie
      by (auto simp: empty_row_def runs_def FIRCLSDwarfUnwindComputeRegisters_def)
  next
    case (Some w)
    then obtain s where s: "FIRCLSDwarfInstructionsEnumerate A t (cie_instructions (cfi_cie rec)) (cfi_cie rec)
        (zero_state A) INTPTR_MAX = Some (True, s)" "row_of s = w" "wf_state A s"
      using cie by (auto simp: empty_row_def runs_def)
    show ?thesis
    proof (cases "off <s 0")
      case True
      then show ?thesis using s(1) assms(3)
        by (simp add: FIRCLSDwarfUnwindComputeRegisters_def FIRCLSThreadContextGetPC_def)
    next
      case False
      then have "runs A (FIRCLSDwarfInstructionsEnumerate A t (fde_instructions (cfi_fde rec)) (cfi_cie rec) s off) None"
        using enumerate_row [OF assms(2) s(3), of "cfi_cie rec" off] s(2) assms(4) Some
        by (simp add: table_row_def)
      then show ?thesis using s(1) assms(3) False
        by (auto simp: runs_def FIRCLSDwarfUnwindComputeRegisters_def FIRCLSThreadContextGetPC_def)
    qed
  qed
qed

lemma compute_registers_row:
  assumes "encodes t (cie_instructions (cfi_cie rec)) cis" "encodes t (fde_instructions (cfi_fde rec)) fis"
    and "off = GET_IP_REGISTER A regs - startAddress (cfi_fde rec)" "\<not> off <s 0"
    and "table_row A rec cis fis off = Some w" "row_cfa A t regs w = Some (Some cfa)"
    and "\<forall>n \<le> unat (CLS_DWARF_MAX_REGISTER_NUM A). rule_value A t regs cfa (row_rules w n) \<noteq> None"
  shows "\<exists>new.
    (\<forall>m \<le> CLS_DWARF_MAX_REGISTER_NUM A.
       FIRCLSDwarfUnwindGetRegisterValue A new m = caller_value A t regs cfa (row_rules w) strip m) \<and>
    FIRCLSDwarfUnwindComputeRegisters A t rec regs =
      Some (if FIRCLSDwarfCompareRegisters A regs new (CLS_DWARF_REG_SP A) \<or>
               FIRCLSDwarfCompareRegisters A regs new (CLS_DWARF_REG_RETURN A)
            then None else Some new)"
proof -
  from assms(5) obtain w0 where w0: "cfi_run (unat (CLS_DWARF_MAX_REGISTER_NUM A)) (codeAlignFactor (cfi_cie rec))
      (dataAlignFactor (cfi_cie rec)) INTPTR_MAX (instr_data (cie_instructions (cfi_cie rec))) cis (empty_row, 0) = Some w0"
    "cfi_run (unat (CLS_DWARF_MAX_REGISTER_NUM A)) (codeAlignFactor (cfi_cie rec))
      (dataAlignFactor (cfi_cie rec)) off (instr_data (fde_instructions (cfi_fde rec))) fis (w0, 0) = Some w"
    by (auto simp: table_row_def Let_def bind_Some_iff)
  from enumerate_row [OF assms(1) wf_zero_state, of "cfi_cie rec" INTPTR_MAX, unfolded row_zero_state] w0(1)
  obtain s where s: "FIRCLSDwarfInstructionsEnumerate A t (cie_instructions (cfi_cie rec)) (cfi_cie rec)
      (zero_state A) INTPTR_MAX = Some (True, s)" "row_of s = w0" "wf_state A s"
    by (auto simp: empty_row_def runs_def)
  from enumerate_row [OF assms(2) s(3), of "cfi_cie rec" off] s(2) w0(2)
  obtain s' where s': "FIRCLSDwarfInstructionsEnumerate A t (fde_instructions (cfi_fde rec)) (cfi_cie rec) s off
      = Some (True, s')" "row_of s' = w" "wf_state A s'"
    by (auto simp: runs_def)
  have rules: "\<forall>d \<in> set (state_registers s'). rule_value A t regs cfa (rule_of d) \<noteq> None"
  proof
    fix d assume "d \<in> set (state_registers s')"
    then obtain n where n: "n < length (state_registers s')" "d = state_registers s' ! n"
      by (metis in_set_conv_nth)
    then have "rule_of d = row_rules w n" using s'(2) by (auto simp: row_of_def)
    then show "rule_value A t regs cfa (rule_of d) \<noteq> None"
      using assms(7) n(1) s'(3) by (simp add: wf_state_def less_Suc_eq_le)
  qed
  obtain new where new:
    "\<And>m. m \<le> CLS_DWARF_MAX_REGISTER_NUM A \<Longrightarrow>
       FIRCLSDwarfUnwindGetRegisterValue A new m = caller_value A t regs cfa (row_rules w) strip m"
    "FIRCLSDwarfUnwindAssignRegisters A t s' regs cfa =
       Some (if FIRCLSDwarfCompareRegisters A regs new (CLS_DWARF_REG_SP A) \<or>
                FIRCLSDwarfCompareRegisters A regs new (CLS_DWARF_REG_RETURN A)
             then None else Some new)"
    using assign_registers_row [OF s'(3) rules] s'(2) by metis
  have "FIRCLSDwarfUnwindComputeRegisters A t rec regs = FIRCLSDwarfUnwindAssignRegisters A t s' regs cfa"
    using s(1) s'(1,2) assms(3,4,6)
    by (simp add: FIRCLSDwarfUnwindComputeRegisters_def FIRCLSThreadContextGetPC_def get_cfa_row)
  then show ?thesis using new by auto
qed

end

section \<open>The unwind table of the standard\<close>

text \<open>Sections 6.4.1 and 6.4.2 of the DWARF standard, written down independently of the code.  The rule for the CFA
  is a register with an offset or an expression, and none before it is defined; a rule of one kind replaces one of
  the other, and \<open>DW_CFA_def_cfa_register\<close> and \<open>DW_CFA_def_cfa_offset\<close> are only valid for the first kind.
  Locations are numbers and every advance adds to them.\<close>

datatype cfa_rule = Cfa_undefined | Cfa_at nat u64 | Cfa_is u64

record std_row =
  std_cfa :: cfa_rule
  std_rules :: "nat \<Rightarrow> rule"

definition std_empty :: std_row where
  "std_empty = \<lparr>std_cfa = Cfa_undefined, std_rules = \<lambda>_. Same_value\<rparr>"

fun advance_of :: "cfi \<Rightarrow> nat option" where
  "advance_of (Cfi_advance d) = Some d"
| "advance_of (Cfi_advance1 d) = Some d"
| "advance_of (Cfi_advance2 d) = Some d"
| "advance_of (Cfi_advance4 d) = Some d"
| "advance_of _ = None"

definition set_cfa :: "cfa_rule \<Rightarrow> std_row \<Rightarrow> std_row option" where
  "set_cfa c w = Some (w\<lparr>std_cfa := c\<rparr>)"

definition set_rule :: "nat \<Rightarrow> nat \<Rightarrow> rule \<Rightarrow> std_row \<Rightarrow> std_row option" where
  "set_rule N r x w = (if r \<le> N then Some (w\<lparr>std_rules := (std_rules w)(r := x)\<rparr>) else None)"

text \<open>The effect on a row; registers above \<open>N\<close> do not exist.  Expressions are known by the address of their block.\<close>

fun std_step :: "nat \<Rightarrow> u64 \<Rightarrow> u64 \<Rightarrow> cfi \<Rightarrow> std_row \<Rightarrow> std_row option" where
  "std_step N daf p (Cfi_def_cfa r off) w = (if r \<le> N then set_cfa (Cfa_at r (word_of_nat off)) w else None)"
| "std_step N daf p (Cfi_def_cfa_register r) w =
     (case std_cfa w of Cfa_at r0 off \<Rightarrow> if r \<le> N then set_cfa (Cfa_at r off) w else None | _ \<Rightarrow> None)"
| "std_step N daf p (Cfi_def_cfa_offset off) w =
     (case std_cfa w of Cfa_at r off0 \<Rightarrow> set_cfa (Cfa_at r (word_of_nat off)) w | _ \<Rightarrow> None)"
| "std_step N daf p (Cfi_def_cfa_expression b) w = set_cfa (Cfa_is (p + 1)) w"
| "std_step N daf p (Cfi_same_value r) w = set_rule N r Same_value w"
| "std_step N daf p (Cfi_register r r') w = (if r' \<le> N then set_rule N r (In_register r') w else None)"
| "std_step N daf p (Cfi_expression r b) w = set_rule N r (At_expression (p + 1 + word_of_nat (length (uleb_encode r)))) w"
| "std_step N daf p (Cfi_val_expression r b) w = set_rule N r (Is_expression (p + 1 + word_of_nat (length (uleb_encode r)))) w"
| "std_step N daf p (Cfi_offset r n) w = set_rule N r (Saved_at (word_of_nat n * daf)) w"
| "std_step N daf p _ w = Some w"

text \<open>Section 6.4.3: the row for location \<open>L\<close> is reached before the first advance to a location beyond \<open>L\<close>.\<close>

fun std_run :: "nat \<Rightarrow> nat \<Rightarrow> u64 \<Rightarrow> nat \<Rightarrow> u64 \<Rightarrow> cfi list \<Rightarrow> nat \<Rightarrow> std_row \<Rightarrow> std_row option" where
  "std_run N caf daf L p [] loc w = Some w"
| "std_run N caf daf L p (i # is) loc w =
     (let p' = p + word_of_nat (length (cfi_bytes i)) in
      case advance_of i of
        Some d \<Rightarrow> if L < loc + d * caf then Some w else std_run N caf daf L p' is (loc + d * caf) w
      | None \<Rightarrow> (case std_step N daf p i w of None \<Rightarrow> None | Some w \<Rightarrow> std_run N caf daf L p' is loc w))"

text \<open>The initial instructions of the CIE are executed in full, then those of the FDE.\<close>

definition std_table_row :: "'r arch \<Rightarrow> cfi_record \<Rightarrow> cfi list \<Rightarrow> cfi list \<Rightarrow> nat \<Rightarrow> std_row option" where
  "std_table_row A rec cis fis L =
     (let N = unat (CLS_DWARF_MAX_REGISTER_NUM A);
          caf = unat (codeAlignFactor (cfi_cie rec)); daf = dataAlignFactor (cfi_cie rec) in do {
        w \<leftarrow> std_run N caf daf L (instr_data (cie_instructions (cfi_cie rec))) cis 0 std_empty;
        std_run N caf daf L (instr_data (fde_instructions (cfi_fde rec))) fis 0 w })"

definition std_cfa_value :: "'r arch \<Rightarrow> task \<Rightarrow> 'r \<Rightarrow> std_row \<Rightarrow> u64 option option" where
  "std_cfa_value A t regs w = (case std_cfa w of
     Cfa_undefined \<Rightarrow> None
   | Cfa_at r off \<Rightarrow> Some (Some (FIRCLSDwarfUnwindGetRegisterValue A regs (word_of_nat r) + off))
   | Cfa_is a \<Rightarrow> FIRCLSDwarfEvalulateExpression A t a regs 0)"

section \<open>Where the code computes the row of the standard\<close>

text \<open>The code stores the delta of \<open>DW_CFA_advance_loc\<close> instead of adding it, keeps an expression for the CFA when
  a register follows it, and calculates locations in 64 bits.  Programs on which none of this shows: a short advance is
  only ever the first to move the location, no \<open>DW_CFA_def_cfa\<close> follows an expression, and the locations are
  below \<open>2 ^ 63\<close>.\<close>

fun is_short :: "cfi \<Rightarrow> bool" where
  "is_short (Cfi_advance d) = True"
| "is_short _ = False"

fun short_first :: "cfi list \<Rightarrow> bool" where
  "short_first [] = True"
| "short_first (i # is) = (if advance_of i \<noteq> None then list_all (\<lambda>j. \<not> is_short j) is else short_first is)"

fun is_def_cfa :: "cfi \<Rightarrow> bool" where
  "is_def_cfa (Cfi_def_cfa r off) = True"
| "is_def_cfa _ = False"

fun is_cfa_expression :: "cfi \<Rightarrow> bool" where
  "is_cfa_expression (Cfi_def_cfa_expression b) = True"
| "is_cfa_expression _ = False"

fun expression_last :: "cfi list \<Rightarrow> bool" where
  "expression_last [] = True"
| "expression_last (i # is) = ((is_cfa_expression i \<longrightarrow> list_all (\<lambda>j. \<not> is_def_cfa j) is) \<and> expression_last is)"

definition code_size :: "nat \<Rightarrow> cfi list \<Rightarrow> nat" where
  "code_size caf is = sum_list (map (\<lambda>i. case advance_of i of None \<Rightarrow> 0 | Some d \<Rightarrow> d * caf) is)"

text \<open>The locations at which a row starts.\<close>

fun row_starts :: "nat \<Rightarrow> cfi list \<Rightarrow> nat \<Rightarrow> nat list" where
  "row_starts caf [] loc = [loc]"
| "row_starts caf (i # is) loc =
     (case advance_of i of None \<Rightarrow> row_starts caf is loc | Some d \<Rightarrow> loc # row_starts caf is (loc + d * caf))"

text \<open>The code stops before the instructions for a row that starts at the offset itself.  So it finds the row of the
  location before, which is meant when the offset is a return address, and the row of the offset unless one starts there.\<close>

definition looked_up :: "nat \<Rightarrow> cfi list \<Rightarrow> u64 \<Rightarrow> nat \<Rightarrow> bool" where
  "looked_up caf is off L \<longleftrightarrow> unat off = L + 1 \<or> unat off = L \<and> L \<notin> set (row_starts caf is 0)"

definition conforms :: "nat \<Rightarrow> cfi list \<Rightarrow> cfi list \<Rightarrow> bool" where
  "conforms caf cis fis \<longleftrightarrow> list_all (\<lambda>i. advance_of i = None) cis \<and> short_first fis \<and>
     expression_last (cis @ fis) \<and> code_size caf fis < 2 ^ 63"

text \<open>Rows of the code and rows of the standard.\<close>

definition same_row :: "std_row \<Rightarrow> row \<Rightarrow> bool" where
  "same_row sw w \<longleftrightarrow> row_rules w = std_rules sw \<and> (case std_cfa sw of
     Cfa_undefined \<Rightarrow> row_cfa_expr w = None
   | Cfa_at r off \<Rightarrow> row_cfa_expr w = None \<and> row_cfa_register w = r \<and> row_cfa_offset w = off
   | Cfa_is a \<Rightarrow> row_cfa_expr w = Some a)"

lemma step_agrees:
  assumes "same_row sw w" "advance_of i = None" "std_step N daf p i sw = Some sw'"
    and "(\<exists>a. std_cfa sw = Cfa_is a) \<Longrightarrow> \<not> is_def_cfa i"
  shows "\<exists>w'. cfi_step N caf daf p i (w, l) = Some (w', l) \<and> same_row sw' w'"
  using assms by (cases i; cases "std_cfa sw") (auto simp: same_row_def set_cfa_def set_rule_def split: if_splits)

lemma step_keeps_expression:
  assumes "std_step N daf p i sw = Some sw'" "advance_of i = None" "std_cfa sw' = Cfa_is a"
  shows "is_cfa_expression i \<or> std_cfa sw = Cfa_is a"
  using assms by (cases i; cases "std_cfa sw") (auto simp: set_cfa_def set_rule_def split: if_splits)

lemma advance_agrees:
  assumes "advance_of i = Some d" "l = word_of_nat loc" "is_short i \<Longrightarrow> loc = 0" "caf = unat cafw"
  shows "cfi_step N cafw daf p i (w, l) = Some (w, word_of_nat (loc + d * caf))"
  using assms by (cases i) auto

lemma sint_nonneg:
  assumes "\<not> (off :: u64) <s 0"
  shows "sint off = int (unat off)"
proof -
  have "\<not> bit (uint off) 63" using assms by (simp add: word_sless_alt sint_uint)
  then have "sint off = take_bit 63 (uint off)" by (simp add: sint_uint signed_take_bit_eq_if_positive)
  moreover have "take_bit 64 (uint off) = take_bit 63 (uint off)"
    using \<open>\<not> bit (uint off) 63\<close> take_bit_Suc_from_most [of 63 "uint off"] by simp
  moreover have "take_bit 64 (uint off) = uint off" using uint_lt2p [of off] by (simp add: take_bit_int_eq_self)
  ultimately show ?thesis by simp
qed

lemma sless_nat:
  assumes "n < 2 ^ 63" "\<not> off <s 0"
  shows "(word_of_nat n :: u64) <s off \<longleftrightarrow> n < unat off"
proof -
  have "sint (word_of_nat n :: u64) = int n" using assms(1) by (simp add: signed_take_bit_int_eq_self signed_of_nat)
  then have "(word_of_nat n :: u64) <s off \<longleftrightarrow> int n < int (unat off)"
    using sint_nonneg [OF assms(2)] by (simp only: word_sless_alt)
  then show ?thesis by (simp only: of_nat_less_iff)
qed

text \<open>The runs agree while the locations do: at 0, or when no short advance is left.\<close>

lemma run_agrees:
  assumes "std_run N caf daf L p is loc sw = Some sw'" "same_row sw w" "caf = unat cafw"
    and "unat off = L + 1" "\<not> off <s 0" "loc \<le> L" "loc + code_size caf is < 2 ^ 63"
    and "list_all (\<lambda>j. \<not> is_short j) is \<or> loc = 0 \<and> short_first is"
    and "expression_last is" "(\<exists>a. std_cfa sw = Cfa_is a) \<Longrightarrow> list_all (\<lambda>j. \<not> is_def_cfa j) is"
  shows "\<exists>w'. cfi_run N cafw daf off p is (w, word_of_nat loc) = Some w' \<and> same_row sw' w'"
  using assms(1,2,6-)
proof (induction "is" arbitrary: p loc sw w)
  case (Cons i "is")
  let ?p = "p + word_of_nat (length (cfi_bytes i))"
  have lt: "(word_of_nat loc :: u64) <s off" using Cons.prems(3,4) assms(4,5) sless_nat [of loc off] by simp
  show ?case
  proof (cases "advance_of i")
    case None
    then obtain sw1 where sw1: "std_step N daf p i sw = Some sw1" "std_run N caf daf L ?p is loc sw1 = Some sw'"
      using Cons.prems(1) by (auto split: option.splits)
    obtain w1 where w1: "cfi_step N cafw daf p i (w, word_of_nat loc) = Some (w1, word_of_nat loc)" "same_row sw1 w1"
      using step_agrees [OF Cons.prems(2) None sw1(1), of cafw "word_of_nat loc"] Cons.prems(7) by auto
    have e: "list_all (\<lambda>j. \<not> is_def_cfa j) is" if "\<exists>a. std_cfa sw1 = Cfa_is a"
      using that step_keeps_expression [OF sw1(1) None] Cons.prems(6,7) by auto
    have "\<exists>w'. cfi_run N cafw daf off ?p is (w1, word_of_nat loc) = Some w' \<and> same_row sw' w'"
      using Cons.IH [OF sw1(2) w1(2) Cons.prems(3) _ _ _ e] Cons.prems(4-6) None by (auto simp: code_size_def)
    then show ?thesis using lt w1(1) by simp
  next
    case (Some d)
    let ?loc = "loc + d * caf"
    have step: "cfi_step N cafw daf p i (w, word_of_nat loc) = Some (w, word_of_nat ?loc)"
      by (rule advance_agrees [OF Some refl _ assms(3)]) (use Cons.prems(5) in auto)
    have size: "?loc + code_size caf is < 2 ^ 63" using Cons.prems(4) Some by (simp add: code_size_def)
    have short: "list_all (\<lambda>j. \<not> is_short j) is" using Cons.prems(5) Some by auto
    show ?thesis
    proof (cases "L < ?loc")
      case True
      then have "\<not> (word_of_nat ?loc :: u64) <s off" using size assms(4,5) sless_nat [of ?loc off] by simp
      then have "cfi_run N cafw daf off ?p is (w, word_of_nat ?loc) = Some w" by (cases "is") simp_all
      then show ?thesis using Cons.prems(1,2) True Some lt step by simp
    next
      case False
      then have r: "std_run N caf daf L ?p is ?loc sw = Some sw'" using Cons.prems(1) Some by simp
      have e: "list_all (\<lambda>j. \<not> is_def_cfa j) is" if "\<exists>a. std_cfa sw = Cfa_is a" using that Cons.prems(7) by simp
      have "\<exists>w'. cfi_run N cafw daf off ?p is (w, word_of_nat ?loc) = Some w' \<and> same_row sw' w'"
        using Cons.IH [OF r Cons.prems(2) _ size _ _ e] False short Cons.prems(6) by auto
      then show ?thesis using lt step by simp
    qed
  qed
qed simp

lemma starts_first: "loc \<in> set (row_starts caf is loc)"
  by (induction "is") (auto split: option.split)

text \<open>No row starts at \<open>L\<close>: its row is that of the location before.\<close>

lemma run_before:
  assumes "L + 1 \<notin> set (row_starts caf is loc)" "loc \<le> L"
  shows "std_run N caf daf (L + 1) p is loc w = std_run N caf daf L p is loc w"
  using assms
proof (induction "is" arbitrary: p loc w)
  case (Cons i "is")
  show ?case
  proof (cases "advance_of i")
    case None
    then show ?thesis using Cons by (auto split: option.split)
  next
    case (Some d)
    have "loc + d * caf \<noteq> L + 1" using Cons.prems(1) Some starts_first [of "loc + d * caf"] by auto
    then show ?thesis using Cons Some by auto
  qed
qed simp

lemma no_advance_run:
  "list_all (\<lambda>i. advance_of i = None) is \<Longrightarrow> std_run N caf daf L p is loc w = std_run N caf daf L' p is loc w"
  by (induction "is" arbitrary: p w) (auto split: option.splits)

lemma expression_last_append:
  "expression_last (xs @ ys) \<longleftrightarrow> expression_last xs \<and> expression_last ys \<and>
    (list_ex is_cfa_expression xs \<longrightarrow> list_all (\<lambda>j. \<not> is_def_cfa j) ys)"
  by (induction xs) auto

lemma run_keeps_expression:
  assumes "std_run N caf daf L p is loc w = Some w'" "list_all (\<lambda>i. advance_of i = None) is" "std_cfa w' = Cfa_is a"
  shows "list_ex is_cfa_expression is \<or> std_cfa w = Cfa_is a"
  using assms(1,2)
proof (induction "is" arbitrary: p w)
  case (Cons i "is")
  then obtain w1 where w1: "std_step N daf p i w = Some w1"
    "std_run N caf daf L (p + word_of_nat (length (cfi_bytes i))) is loc w1 = Some w'"
    by (auto split: option.splits)
  then have "list_ex is_cfa_expression is \<or> std_cfa w1 = Cfa_is a" using Cons by auto
  then show ?case using step_keeps_expression [OF w1(1), of a] Cons.prems(2) by auto
qed (use assms(3) in simp)

lemma code_size_none: "list_all (\<lambda>i. advance_of i = None) is \<Longrightarrow> code_size caf is = 0"
  by (induction "is") (auto simp: code_size_def)

lemma short_none: "list_all (\<lambda>i. advance_of i = None) is \<Longrightarrow> list_all (\<lambda>i. \<not> is_short i) is"
  by (erule list.pred_mono_strong) (metis advance_of.simps(1) is_short.elims(2) option.distinct(1))

text \<open>The location before the offset, whichever of the two was looked up.\<close>

lemma looked_up_before:
  assumes "looked_up caf is off L"
  obtains M where "unat off = M + 1" "std_run N caf daf L p is 0 w = std_run N caf daf M p is 0 w"
proof (cases "unat off = L + 1")
  case False
  then have L: "unat off = L" "L \<notin> set (row_starts caf is 0)" using assms by (auto simp: looked_up_def)
  then obtain M where "L = M + 1" using starts_first [of 0 caf "is"] by (cases L) auto
  then show ?thesis using that [of M] L run_before [of M caf "is" 0 N daf p w] by simp
qed (use that in blast)

lemma program_agrees:
  assumes "std_run N caf daf L p is 0 sw = Some sw'" "same_row sw w" "caf = unat cafw"
    and "looked_up caf is off L" "\<not> off <s 0" "code_size caf is < 2 ^ 63" "short_first is" "expression_last is"
    and "(\<exists>a. std_cfa sw = Cfa_is a) \<Longrightarrow> list_all (\<lambda>j. \<not> is_def_cfa j) is"
  shows "\<exists>w'. cfi_run N cafw daf off p is (w, 0) = Some w' \<and> same_row sw' w'"
proof -
  obtain M where M: "unat off = M + 1" "std_run N caf daf M p is 0 sw = Some sw'"
    using looked_up_before [OF assms(4)] assms(1) by metis
  show ?thesis using run_agrees [OF M(2) assms(2,3) M(1) assms(5)] assms(6-9) by auto
qed

lemma table_agrees:
  assumes "std_table_row A rec cis fis L = Some sw" "caf = unat (codeAlignFactor (cfi_cie rec))" "conforms caf cis fis"
    and "looked_up caf fis off L" "\<not> off <s 0"
  shows "\<exists>w. table_row A rec cis fis off = Some w \<and> same_row sw w"
proof -
  let ?N = "unat (CLS_DWARF_MAX_REGISTER_NUM A)" and ?cafw = "codeAlignFactor (cfi_cie rec)"
    and ?daf = "dataAlignFactor (cfi_cie rec)"
  let ?p = "instr_data (cie_instructions (cfi_cie rec))" and ?q = "instr_data (fde_instructions (cfi_fde rec))"
  note c = assms(3) [unfolded conforms_def]
  obtain sw0 where sw0: "std_run ?N caf ?daf L ?p cis 0 std_empty = Some sw0" "std_run ?N caf ?daf L ?q fis 0 sw0 = Some sw"
    using assms(1,2) by (auto simp: std_table_row_def Let_def bind_Some_iff)
  have e: "same_row std_empty empty_row" by (simp add: same_row_def std_empty_def empty_row_def)
  have cie: "std_run ?N caf ?daf (2 ^ 63 - 2) ?p cis 0 std_empty = Some sw0"
    using sw0(1) no_advance_run c by metis
  obtain w0 where w0: "cfi_run ?N ?cafw ?daf INTPTR_MAX ?p cis (empty_row, 0) = Some w0" "same_row sw0 w0"
    using run_agrees [OF cie e assms(2), of INTPTR_MAX] c
    by (auto simp: code_size_none short_none expression_last_append std_empty_def INTPTR_MAX_def word_sless_alt)
  have x: "list_all (\<lambda>j. \<not> is_def_cfa j) fis" if "\<exists>a. std_cfa sw0 = Cfa_is a"
    using that run_keeps_expression [OF sw0(1)] c by (auto simp: expression_last_append std_empty_def)
  obtain w where "cfi_run ?N ?cafw ?daf off ?q fis (w0, 0) = Some w" "same_row sw w"
    using program_agrees [OF sw0(2) w0(2) assms(2,4,5)] c x by (auto simp: expression_last_append)
  then show ?thesis using w0(1) by (auto simp: table_row_def Let_def bind_Some_iff)
qed

lemma same_row_cfa:
  "same_row sw w \<Longrightarrow> std_cfa_value A t regs sw = Some r \<Longrightarrow> row_cfa A t regs w = Some r"
  by (auto simp: same_row_def std_cfa_value_def row_cfa_def split: cfa_rule.splits)

context thread_arch begin

lemma compute_registers_std:
  assumes "encodes t (cie_instructions (cfi_cie rec)) cis" "encodes t (fde_instructions (cfi_fde rec)) fis"
    and "off = GET_IP_REGISTER A regs - startAddress (cfi_fde rec)" "\<not> off <s 0"
    and "caf = unat (codeAlignFactor (cfi_cie rec))" "conforms caf cis fis" "looked_up caf fis off L"
    and "std_table_row A rec cis fis L = Some w" "std_cfa_value A t regs w = Some (Some cfa)"
    and "\<forall>n \<le> unat (CLS_DWARF_MAX_REGISTER_NUM A). rule_value A t regs cfa (std_rules w n) \<noteq> None"
  shows "\<exists>new.
    (\<forall>m \<le> CLS_DWARF_MAX_REGISTER_NUM A.
       FIRCLSDwarfUnwindGetRegisterValue A new m = caller_value A t regs cfa (std_rules w) strip m) \<and>
    FIRCLSDwarfUnwindComputeRegisters A t rec regs =
      Some (if FIRCLSDwarfCompareRegisters A regs new (CLS_DWARF_REG_SP A) \<or>
               FIRCLSDwarfCompareRegisters A regs new (CLS_DWARF_REG_RETURN A)
            then None else Some new)"
proof -
  obtain w' where w': "table_row A rec cis fis off = Some w'" "same_row w w'"
    using table_agrees [OF assms(8,5,6,7,4)] by blast
  have r: "row_rules w' = std_rules w" using w'(2) by (simp add: same_row_def)
  show ?thesis
    using compute_registers_row [OF assms(1-4) w'(1) same_row_cfa [OF w'(2) assms(9)]] assms(10) by (simp add: r)
qed

end

section \<open>The layout of the records\<close>

text \<open>A common-information record as compilers lay it out: version 1, the augmentation string
  \<open>zR\<close> with a pointer encoding, and the initial instructions.\<close>

definition cie_body :: "nat \<Rightarrow> int \<Rightarrow> byte \<Rightarrow> byte \<Rightarrow> byte list \<Rightarrow> byte list" where
  "cie_body caf daf ra enc prog =
     le_bytes 4 0 @ [1] @ ([0x7A, 0x52] @ [0]) @ uleb_encode caf @ sleb_encode daf @ [ra] @
     uleb_encode 1 @ [enc] @ prog"

definition cie_bytes :: "nat \<Rightarrow> int \<Rightarrow> byte \<Rightarrow> byte \<Rightarrow> byte list \<Rightarrow> byte list" where
  "cie_bytes caf daf ra enc prog =
     (let body = cie_body caf daf ra enc prog in le_bytes 4 (length body) @ body)"

definition parsed_cie :: "u64 \<Rightarrow> nat \<Rightarrow> int \<Rightarrow> byte \<Rightarrow> byte \<Rightarrow> byte list \<Rightarrow> cie" where
  "parsed_cie p caf daf ra enc prog =
     (let n = length (cie_body caf daf ra enc prog) in
      zero_cie\<lparr>cie_length := word_of_nat n, version := 1, augmentation := p + 9,
        codeAlignFactor := word_of_nat caf, dataAlignFactor := word_of_int daf,
        returnAddressRegister := ucast ra, pointerEncoding := enc,
        cie_instructions := \<lparr>instr_length = word_of_nat (length prog),
          instr_data = p + 4 + word_of_nat (n - length prog)\<rparr>\<rparr>)"

lemma zR_augmentation:
  assumes "at_cursor t (augmentation rec) ([0x7A, 0x52] @ [0])" "augmentation rec \<noteq> 0"
    and "at_cursor t c (uleb_encode 1 @ [enc] @ prog)"
  shows "FIRCLSDwarfParseAndProcessAugmentation t rec c =
    Some (True, rec\<lparr>pointerEncoding := enc\<rparr>, c + 2)"
proof -
  have u1: "uleb_encode (Suc 0) = [1]" by (simp add: uleb_encode.simps)
  have len: "c_strlen t (augmentation rec) = Some 2"
    using strlen_holds [OF assms(1)] by simp
  have ch: "deref t (augmentation rec) = Some 0x7A" "deref t (augmentation rec + 1) = Some 0x52"
    using assms(1) by (simp_all add: at_cursor_def holds_Cons)
  have ul: "FIRCLSParseULEB128AndAdvance t c = Some (1, c + 1)"
    using at_uleb [OF assms(3)] by (simp add: u1)
  have at1: "at_cursor t (c + 1) (enc # prog)"
    using at_cursor_append(1) [OF assms(3)] by (simp add: u1)
  have u8: "FIRCLSParseUint8AndAdvance t (c + 1) = Some (enc, c + 1 + 1)" by (rule at_uint8 [OF at1])
  have "unat (c + 1) + 1 < 2 ^ 64" using at1 by (simp add: at_cursor_def)
  then have "ptr_add (c + 1) 1 = Some (c + 1 + 1)" by (simp add: ptr_add_def)
  then show ?thesis
    using assms(2) len ch ul u8
    by (simp add: FIRCLSDwarfParseAndProcessAugmentation_def augmentation_entry_def)
qed

lemma parse_cie_aux:
  assumes "at_cursor t p (cie_bytes caf daf ra enc prog)" "p \<noteq> 0"
    and "caf < 2 ^ 31" "- (2 ^ 27) \<le> daf" "daf < 2 ^ 31"
    and "length (cie_body caf daf ra enc prog) < 2 ^ 32 - 1"
  shows "FIRCLSDwarfParseCIERecord t c0 p = Some (True, parsed_cie p caf daf ra enc prog)"
proof -
  define n where "n = length (cie_body caf daf ra enc prog)"
  define k where "k = length (uleb_encode caf) + length (sleb_encode daf)"
  have nk: "n = length prog + (k + 11)"
    by (simp add: n_def cie_body_def k_def uleb_encode.simps)
  have at0: "at_cursor t p (le_bytes 4 n @ cie_body caf daf ra enc prog)"
    using assms(1) by (simp add: cie_bytes_def n_def Let_def)
  have n32: "n < 2 ^ 32 - 1" using assms(6) by (simp add: n_def)
  have len: "FIRCLSParseRecordLengthAndAdvance t p = Some (word_of_nat n, p + 4)"
    by (rule at_record_length [OF at0 n32])
  have at1: "at_cursor t (p + 4) (le_bytes 4 0 @ [1] @ ([0x7A, 0x52] @ [0]) @ uleb_encode caf @ sleb_encode daf @
      [ra] @ uleb_encode 1 @ [enc] @ prog)"
    using at_cursor_append(1) [OF at0] by (simp only: length_le_bytes cie_body_def) simp
  have flag: "FIRCLSParseUint32AndAdvance t (p + 4) = Some (0, p + 8)"
    using at_uint32 [OF at1] by (simp add: add.commute)
  have at2: "at_cursor t (p + 8) (1 # ([0x7A, 0x52] @ [0]) @ uleb_encode caf @ sleb_encode daf @
      [ra] @ uleb_encode 1 @ [enc] @ prog)"
    using at_cursor_append(1) [OF at1] by (simp add: add.commute)
  have ver: "FIRCLSParseUint8AndAdvance t (p + 8) = Some (1, p + 9)"
    using at_uint8 [OF at2] by (simp add: add.commute)
  have at3: "at_cursor t (p + 9) (([0x7A, 0x52] @ [0]) @ uleb_encode caf @ sleb_encode daf @
      [ra] @ uleb_encode 1 @ [enc] @ prog)"
    using at_cursor_Cons [OF at2] by (simp add: add.commute)
  have str: "FIRCLSParseStringAndAdvance t (p + 9) = Some (p + 9, p + 12)"
  proof -
    have "0 \<notin> set [0x7A, 0x52 :: byte]" by simp
    from at_string [OF at3 this] show ?thesis by (simp add: add.commute)
  qed
  have at4: "at_cursor t (p + 12) (uleb_encode caf @ sleb_encode daf @ [ra] @ uleb_encode 1 @ [enc] @ prog)"
    using at_cursor_append(1) [OF at3] by (simp add: add.commute)
  define c5 where "c5 = p + 12 + word_of_nat (length (uleb_encode caf))"
  define c6 where "c6 = c5 + word_of_nat (length (sleb_encode daf))"
  have at5: "at_cursor t c5 (sleb_encode daf @ [ra] @ uleb_encode 1 @ [enc] @ prog)"
    using at_cursor_append(1) [OF at4] by (simp add: c5_def)
  have at6: "at_cursor t c6 (ra # uleb_encode 1 @ [enc] @ prog)"
    using at_cursor_append(1) [OF at5] by (simp add: c6_def)
  have at7: "at_cursor t (c6 + 1) (uleb_encode 1 @ [enc] @ prog)" by (rule at_cursor_Cons [OF at6])
  have c6: "c6 = p + 12 + word_of_nat k" by (simp add: c6_def c5_def k_def add.assoc)
  have "unat (p + 9) = unat p + 9"
    using unat_add_small [of p 9] at0 nk by (simp add: at_cursor_def cie_body_def)
  then have p9: "p + 9 \<noteq> 0" by auto
  have un: "unat (word_of_nat n :: u64) = n" using n32 by (simp add: unat_of_nat)
  have up4: "unat (p + 4) + n < 2 ^ 64"
    using at1 nk by (simp add: at_cursor_def k_def uleb_encode.simps)
  then have e: "ptr_add (p + 4) n = Some (p + 4 + word_of_nat n)" by (simp add: ptr_add_def)
  have n0: "word_of_nat n \<noteq> (0::u64)" using un nk by auto
  have aug: "FIRCLSDwarfParseAndProcessAugmentation t rec (c6 + 1) =
      Some (True, rec\<lparr>pointerEncoding := enc\<rparr>, c6 + 1 + 2)" if "augmentation rec = p + 9" for rec
    using zR_augmentation [OF _ _ at7] at_cursor_append(2) [OF at3] p9 that by simp
  have lp: "(ucast (word_of_nat (length prog) :: u64) :: u32) = word_of_nat (length prog)"
    using n32 nk by (simp add: word_unat_eq_iff unsigned_ucast_eq unat_of_nat take_bit_nat_eq_self)
  show ?thesis
    using assms(2) n0
    by (simp add: FIRCLSDwarfParseCIERecord_def len un e flag ver str
        at_uleb [OF at4 assms(3), folded c5_def] at_sleb [OF at5 assms(4,5), folded c6_def]
        at_uint8 [OF at6] aug)
      (simp add: parsed_cie_def Let_def zero_cie_def flip: n_def, simp add: c6 nk lp)
qed

text \<open>A frame-description record with pc-relative absolute pointers (\<open>DW_EH_PE_pcrel\<close>), the
  encoding of 64-bit Mach-O files; \<open>off\<close> is the distance of its CIE field from the CIE.\<close>

definition fde_body :: "nat \<Rightarrow> u64 \<Rightarrow> u64 \<Rightarrow> byte list \<Rightarrow> byte list" where
  "fde_body off start len prog =
     le_bytes 4 off @ le_bytes 8 (unat start) @ le_bytes 8 (unat len) @ uleb_encode 0 @ prog"

definition fde_bytes :: "nat \<Rightarrow> u64 \<Rightarrow> u64 \<Rightarrow> byte list \<Rightarrow> byte list" where
  "fde_bytes off start len prog =
     le_bytes 4 (length (fde_body off start len prog)) @ fde_body off start len prog"

definition parsed_fde :: "u64 \<Rightarrow> nat \<Rightarrow> u64 \<Rightarrow> u64 \<Rightarrow> byte list \<Rightarrow> fde" where
  "parsed_fde q off start len prog =
     \<lparr>fde_length = word_of_nat (length prog + 21), cieOffset = word_of_nat off, startAddress = start + (q + 8),
      rangeSize = len, fde_instructions = \<lparr>instr_length = word_of_nat (length prog), instr_data = q + 25\<rparr>\<rparr>"

lemma pcrel_address:
  assumes "at_cursor t c (le_bytes 8 (unat v) @ bs)" "c \<noteq> 0"
  shows "FIRCLSParseAddressWithEncodingAndAdvance t c 0x10 = Some (v + c, c + 8)"
    "FIRCLSParseAddressWithEncodingAndAdvance t c 0x00 = Some (v, c + 8)"
  using at_uint64(2) [OF assms(1)] assms(2) unat_u64_less [of v]
  by (simp_all add: FIRCLSParseAddressWithEncodingAndAdvance_def DW_EH_PE_defs parse_encoded_value_def)

lemma parse_fde_aux:
  assumes "at_cursor t q (fde_bytes off start len prog)" "q \<noteq> 0"
    and "at_cursor t p (cie_bytes caf daf ra 0x10 cprog)" "p \<noteq> 0" "p = q + 4 - word_of_nat off"
    and "caf < 2 ^ 31" "- (2 ^ 27) \<le> daf" "daf < 2 ^ 31"
    and "length (cie_body caf daf ra 0x10 cprog) < 2 ^ 32 - 1"
    and "0 < off" "off < 2 ^ 32" "off \<le> unat q + 4" "length prog + 21 < 2 ^ 32 - 1"
    and "start + (q + 8) \<noteq> CLS_INVALID_ADDRESS" "len \<noteq> CLS_INVALID_ADDRESS"
  shows "FIRCLSDwarfParseCFIFromFDERecord t rec q =
    Some (True, \<lparr>cfi_cie = parsed_cie p caf daf ra 0x10 cprog, cfi_fde = parsed_fde q off start len prog\<rparr>)"
proof -
  define n where "n = length prog + 21"
  have body: "length (fde_body off start len prog) = n"
    by (simp add: fde_body_def n_def uleb_encode.simps)
  have u0: "uleb_encode 0 = [0]" by (simp add: uleb_encode.simps)
  have at0: "at_cursor t q (le_bytes 4 n @ fde_body off start len prog)"
    using assms(1) by (simp add: fde_bytes_def body)
  have n32: "n < 2 ^ 32 - 1" using assms(13) by (simp add: n_def)
  have len': "FIRCLSParseRecordLengthAndAdvance t q = Some (word_of_nat n, q + 4)"
    by (rule at_record_length [OF at0 n32])
  have at1: "at_cursor t (q + 4) (le_bytes 4 off @ le_bytes 8 (unat start) @ le_bytes 8 (unat len) @ uleb_encode 0 @ prog)"
    using at_cursor_append(1) [OF at0] by (simp only: length_le_bytes fde_body_def) simp
  have off: "FIRCLSParseUint32AndAdvance t (q + 4) = Some (word_of_nat off, q + 8)"
    using at_uint32 [OF at1 assms(11)] by (simp add: add.commute)
  have at2: "at_cursor t (q + 8) (le_bytes 8 (unat start) @ le_bytes 8 (unat len) @ uleb_encode 0 @ prog)"
    using at_cursor_append(1) [OF at1] by (simp add: add.commute)
  have at3: "at_cursor t (q + 16) (le_bytes 8 (unat len) @ uleb_encode 0 @ prog)"
    using at_cursor_append(1) [OF at2] by (simp add: add.commute)
  have at4: "at_cursor t (q + 24) (uleb_encode 0 @ prog)"
    using at_cursor_append(1) [OF at3] by (simp add: add.commute)
  have ub: "unat q + 4 + n < 2 ^ 64" using at0 body by (simp add: at_cursor_def)
  have uq: "unat (q + 4) = unat q + 4" "unat (q + 8) = unat q + 8" "unat (q + 16) = unat q + 16"
    "unat (q + 25) = unat q + 25"
    using unat_add_small [of q 4] unat_add_small [of q 8] unat_add_small [of q 16]
      unat_add_small [of q 25] ub by (simp_all add: n_def)
  have nz: "q + 8 \<noteq> 0" "q + 16 \<noteq> 0" using uq by auto
  have un: "unat (word_of_nat n :: u64) = n" "unat (word_of_nat off :: u32) = off"
    using n32 assms(11) by (simp_all add: unat_of_nat)
  have e: "ptr_add (q + 4) n = Some (q + 4 + word_of_nat n)" using ub uq by (simp add: ptr_add_def)
  have n0: "word_of_nat n \<noteq> (0::u64)" using un(1) by (auto simp: n_def)
  have off0: "word_of_nat off \<noteq> (0::u32)" using un(2) assms(10) by auto
  have up: "unat (q + 8 - word_of_nat off) = unat q + 8 - off"
    using assms(11,12) uq(2) by (subst unat_sub) (simp_all add: word_le_nat_alt unat_of_nat)
  have sub: "ptr_sub (q + 8) off = Some (q + 8 - word_of_nat off)"
    "ptr_sub (q + 8 - word_of_nat off) 4 = Some p"
    using assms(12) uq(2) up by (simp_all add: ptr_sub_def assms(5) algebra_simps)
  have cie: "FIRCLSDwarfParseCIERecord t c0 p = Some (True, parsed_cie p caf daf ra 0x10 cprog)" for c0
    by (rule parse_cie_aux [OF assms(3,4,6,7,8,9)])
  let ?cie = "parsed_cie p caf daf ra 0x10 cprog"
  have lenb: "length (cie_body caf daf ra 0x10 cprog) > 0" by (simp add: cie_body_def)
  have "unat (word_of_nat (length (cie_body caf daf ra 0x10 cprog)) :: u64) > 0"
    using lenb assms(9) by (simp add: unat_of_nat)
  then have "(word_of_nat (length (cie_body caf daf ra 0x10 cprog)) :: u64) \<noteq> 0" by (metis less_irrefl unsigned_0)
  then have valid: "FIRCLSDwarfCIEIsValid ?cie"
    by (simp add: FIRCLSDwarfCIEIsValid_def parsed_cie_def Let_def)
  have enc: "pointerEncoding ?cie = 0x10" by (simp add: parsed_cie_def Let_def)
  have at9: "holds t (p + 9) [0x7A]" "unat p + 9 < 2 ^ 64"
    using assms(3) by (auto simp: at_cursor_def cie_bytes_def cie_body_def Let_def holds_append holds_Cons
        add.assoc)
  have "unat (p + 9) = unat p + 9" using unat_add_small [of p 9] at9(2) by simp
  then have p9: "p + 9 \<noteq> 0" by auto
  have has: "FIRCLSDwarfCIEHasAugmentationData t ?cie = Some True"
    using at9(1) p9 by (simp add: FIRCLSDwarfCIEHasAugmentationData_def parsed_cie_def Let_def holds_Cons)
  have ul: "FIRCLSParseULEB128AndAdvance t (q + 24) = Some (0, q + 25)"
    using at_uleb [OF at4] by (simp add: u0 add.commute)
  have skip: "ptr_add (q + 25) 0 = Some (q + 25)" using uq(4) ub by (simp add: ptr_add_def n_def)
  have dl: "(ucast (q + 4 + word_of_nat n - (q + 25)) :: u32) = word_of_nat (length prog)"
    using n32 by (simp add: n_def word_unat_eq_iff unsigned_ucast_eq unat_of_nat take_bit_nat_eq_self)
  have ucoff: "(ucast (word_of_nat off :: u32) :: u64) = word_of_nat off"
    using assms(11) by (simp add: ucast_word_of_nat)
  have rg: "FIRCLSParseAddressWithEncodingAndAdvance t (16 + q) 0 = Some (len, q + 24)"
    using pcrel_address(2) [OF at3 nz(2)] by (simp add: add.commute)
  show ?thesis
    using assms(2) n0 off0 valid assms(14,15) dl
    by (simp add: FIRCLSDwarfParseCFIFromFDERecord_def FIRCLSDwarfParseFDERecord_def len' un e off sub cie enc
        pcrel_address [OF at2 nz(1)] DW_EH_PE_VALUE_MASK_def has ul skip ucoff rg)
      (simp add: parsed_fde_def n_def)
qed

lemma x86_compare:
  "FIRCLSDwarfCompareRegisters x86_64 a b (CLS_DWARF_REG_SP x86_64) \<longleftrightarrow> ss_rsp b = ss_rsp a"
  "FIRCLSDwarfCompareRegisters x86_64 a b (CLS_DWARF_REG_RETURN x86_64) \<longleftrightarrow> ss_rip b = ss_rip a"
  by (auto simp: FIRCLSDwarfCompareRegisters_def x86_64_def x86_GetRegisterValue_def)

section \<open>Properties\<close>

text \<open>C7. On x86-64, the registers the code computes from a frame description are those of the row of the
  unwind table of the DWARF standard: the CFA in \<open>rsp\<close>, every other register by its rule, and the whole step rejected
  exactly when \<open>rsp\<close> or \<open>rip\<close> would not change.  The row is that of the location before the program counter, as is
  meant for a return address, or that of the program counter unless a row starts there.  The programs are those on
  which the code follows the standard (\<open>conforms\<close>): a short advance is only ever the first to move the location, no
  register replaces an expression for the CFA, and the locations are below \<open>2 ^ 63\<close>.\<close>

theorem unwind_x86_row:
  assumes "encodes t (cie_instructions (cfi_cie rec)) cis" "encodes t (fde_instructions (cfi_fde rec)) fis"
    and "off = ss_rip regs - startAddress (cfi_fde rec)" "\<not> off <s 0"
    and "caf = unat (codeAlignFactor (cfi_cie rec))" "conforms caf cis fis" "looked_up caf fis off L"
    and "std_table_row x86_64 rec cis fis L = Some w" "std_cfa_value x86_64 t regs w = Some (Some cfa)"
    and "\<forall>n \<le> 16. rule_value x86_64 t regs cfa (std_rules w n) \<noteq> None"
  shows "\<exists>new.
    (\<forall>m \<le> 16. x86_GetRegisterValue new m = caller_value x86_64 t regs cfa (std_rules w) (\<lambda>n v. v) m) \<and>
    FIRCLSDwarfUnwindComputeRegisters x86_64 t rec regs =
      Some (if ss_rsp new = ss_rsp regs \<or> ss_rip new = ss_rip regs then None else Some new)"
proof -
  have eq: "GET_IP_REGISTER x86_64 = ss_rip" "CLS_DWARF_MAX_REGISTER_NUM x86_64 = 16"
    "FIRCLSDwarfUnwindGetRegisterValue x86_64 = x86_GetRegisterValue"
    by (simp_all add: x86_64_def)
  show ?thesis
    using x86.compute_registers_std [OF assms(1,2) _ assms(4-9)] assms(3,10)
    unfolding eq x86_compare by simp
qed

text \<open>On arm64 the same, with the pointer-authentication bits stripped from the frame pointer,
  link register and stack pointer; the link register is the return column.\<close>

theorem unwind_arm_row:
  assumes "encodes t (cie_instructions (cfi_cie rec)) cis" "encodes t (fde_instructions (cfi_fde rec)) fis"
    and "off = CLS_PTRAUTH_STRIP (ss_pc regs) - startAddress (cfi_fde rec)" "\<not> off <s 0"
    and "caf = unat (codeAlignFactor (cfi_cie rec))" "conforms caf cis fis" "looked_up caf fis off L"
    and "std_table_row arm64 rec cis fis L = Some w" "std_cfa_value arm64 t regs w = Some (Some cfa)"
    and "\<forall>n \<le> 31. rule_value arm64 t regs cfa (std_rules w n) \<noteq> None"
  shows "\<exists>new.
    (\<forall>m \<le> 31. arm_GetRegisterValue new m =
       caller_value arm64 t regs cfa (std_rules w) (\<lambda>n v. if 29 \<le> n \<and> n \<le> 31 then CLS_PTRAUTH_STRIP v else v) m) \<and>
    FIRCLSDwarfUnwindComputeRegisters arm64 t rec regs =
      Some (if arm_GetRegisterValue new 31 = arm_GetRegisterValue regs 31 \<or>
               arm_GetRegisterValue new 30 = arm_GetRegisterValue regs 30
            then None else Some new)"
proof -
  have eq: "GET_IP_REGISTER arm64 = (\<lambda>r. CLS_PTRAUTH_STRIP (ss_pc r))" "CLS_DWARF_MAX_REGISTER_NUM arm64 = 31"
    "FIRCLSDwarfUnwindGetRegisterValue arm64 = arm_GetRegisterValue"
    by (simp_all add: arm64_def)
  have cmp: "FIRCLSDwarfCompareRegisters arm64 a b (CLS_DWARF_REG_SP arm64) \<longleftrightarrow>
      arm_GetRegisterValue b 31 = arm_GetRegisterValue a 31"
    "FIRCLSDwarfCompareRegisters arm64 a b (CLS_DWARF_REG_RETURN arm64) \<longleftrightarrow>
      arm_GetRegisterValue b 30 = arm_GetRegisterValue a 30" for a b
    by (auto simp: FIRCLSDwarfCompareRegisters_def arm64_def)
  show ?thesis
    using arm.compute_registers_std [OF assms(1,2) _ assms(4-9)] assms(3,10)
    unfolding eq cmp by simp
qed

text \<open>The step is refused, and never faults, when the program counter lies before the function
  or a call frame instruction names a register that does not exist.\<close>

theorem unwind_x86_refused:
  assumes "encodes t (cie_instructions (cfi_cie rec)) cis" "encodes t (fde_instructions (cfi_fde rec)) fis"
    and "off = ss_rip regs - startAddress (cfi_fde rec)"
    and "off <s 0 \<or> table_row x86_64 rec cis fis off = None"
  shows "FIRCLSDwarfUnwindComputeRegisters x86_64 t rec regs = Some None"
proof -
  have "off = GET_IP_REGISTER x86_64 regs - startAddress (cfi_fde rec)"
    using assms(3) by (simp add: x86_64_def)
  then show ?thesis using x86.compute_registers_fails [OF assms(1,2) _ assms(4)] by blast
qed

text \<open>C8. Running an encoded block of call frame instructions computes the row of the DWARF standard, from any
  row: that of the location before the offset, or of the offset unless a row starts there, for the programs on which the
  code follows the standard.  Where it does not is shown at the end of the theory.\<close>

theorem cfi_program_refines:
  assumes "encodes t instrs is" "wf_state A s" "unat (CLS_DWARF_MAX_REGISTER_NUM A) < 64"
    and "caf = unat (codeAlignFactor cie)" "conforms caf [] is" "looked_up caf is off L" "\<not> off <s 0"
    and "same_row sw (row_of s)" "(\<exists>a. std_cfa sw = Cfa_is a) \<Longrightarrow> list_all (\<lambda>i. \<not> is_def_cfa i) is"
    and "std_run (unat (CLS_DWARF_MAX_REGISTER_NUM A)) caf (dataAlignFactor cie) L (instr_data instrs) is 0 sw = Some sw'"
  shows "\<exists>s'. FIRCLSDwarfInstructionsEnumerate A t instrs cie s off = Some (True, s') \<and> wf_state A s' \<and>
    same_row sw' (row_of s')"
proof -
  obtain w' where w': "cfi_run (unat (CLS_DWARF_MAX_REGISTER_NUM A)) (codeAlignFactor cie) (dataAlignFactor cie) off
      (instr_data instrs) is (row_of s, 0) = Some w'" "same_row sw' w'"
    using program_agrees [OF assms(10,8,4,6,7)] assms(5,9) by (auto simp: conforms_def)
  then show ?thesis using enumerate_encodes [OF assms(1-3), of cie off] by (auto simp: runs_def)
qed

text \<open>C22. Whatever bytes a block of instructions consists of, the rule table keeps one entry per
  register and names only registers that exist, and the CFA never rests on an invalid register.\<close>

theorem rule_table_bounded:
  assumes "FIRCLSDwarfInstructionsEnumerate A t instrs cie s pc = Some (ok, s')" "wf_state A s"
  shows "length (state_registers s') = unat (CLS_DWARF_MAX_REGISTER_NUM A) + 1 \<and>
    (\<forall>d \<in> set (state_registers s'). reg_location d = FIRCLSDwarfRegisterInRegister \<longrightarrow>
       reg_value d \<le> CLS_DWARF_MAX_REGISTER_NUM A) \<and>
    (cfaRegister s' \<le> CLS_DWARF_MAX_REGISTER_NUM A \<or> cfaExpression s' \<noteq> 0)"
proof -
  have "wf_state A s'"
    using assms wf_enumerate_loop by (fastforce simp: FIRCLSDwarfInstructionsEnumerate_def bind_Some_iff)
  then show ?thesis by (auto simp: wf_state_def wf_rule_def list_all_iff)
qed

section \<open>Witnesses\<close>

text \<open>The frame of a function compiled with a frame pointer, one instruction after
  \<open>push rbp\<close>: the call frame programs, the saved registers and the memory that holds them.\<close>

definition frame_cie :: "cfi list" where
  "frame_cie = [Cfi_def_cfa 7 8, Cfi_offset 16 1]"

definition frame_fde :: "cfi list" where
  "frame_fde = [Cfi_advance 1, Cfi_def_cfa_offset 16, Cfi_offset 6 2]"

definition frame_stack :: "byte list" where
  "frame_stack = [0x11, 0x11, 0, 0, 0, 0, 0, 0] @ [0x22, 0x22, 0, 0, 0, 0, 0, 0]"

definition frame_mem :: "byte list" where
  "frame_mem = cfis_bytes frame_cie @ cfis_bytes frame_fde @ (replicate 6 0 @ frame_stack)"

definition frame_record :: cfi_record where
  "frame_record = \<lparr>
     cfi_cie = zero_cie\<lparr>cie_length := 20, version := 1, codeAlignFactor := 1, dataAlignFactor := - 8,
       cie_instructions := \<lparr>instr_length = 5, instr_data = 4096\<rparr>\<rparr>,
     cfi_fde = \<lparr>fde_length = 40, cieOffset = 24, startAddress = 0x5000, rangeSize = 64,
       fde_instructions = \<lparr>instr_length = 5, instr_data = 4101\<rparr>\<rparr>\<rparr>"

definition frame_regs :: x86_thread where
  "frame_regs = x86_zero\<lparr>ss_rip := 0x5004, ss_rsp := 4112\<rparr>"

abbreviation frame_task :: task where
  "frame_task \<equiv> flat_task (block 4096 frame_mem)"

lemma frame_bytes:
  "cfis_bytes frame_cie = [0x0C, 7, 8, 0x90, 1]" "cfis_bytes frame_fde = [0x41, 0x0E, 16, 0x86, 2]"
  by (simp_all add: frame_cie_def frame_fde_def uleb_encode.simps)

lemma frame_encodes:
  "encodes frame_task (cie_instructions (cfi_cie frame_record)) frame_cie"
  "encodes frame_task (fde_instructions (cfi_fde frame_record)) frame_fde"
proof -
  have "holds frame_task 4096 (cfis_bytes frame_cie)"
    unfolding frame_mem_def by (rule holds_block_prefix) (simp add: frame_bytes frame_stack_def)
  then show "encodes frame_task (cie_instructions (cfi_cie frame_record)) frame_cie"
    by (simp add: encodes_def frame_record_def frame_bytes) (simp add: frame_cie_def)
  have "holds frame_task (4096 + word_of_nat (length (cfis_bytes frame_cie))) (cfis_bytes frame_fde)"
    unfolding frame_mem_def by (rule holds_block_infix) (simp add: frame_bytes frame_stack_def)
  then show "encodes frame_task (fde_instructions (cfi_fde frame_record)) frame_fde"
    by (simp add: encodes_def frame_record_def frame_bytes) (simp add: frame_fde_def)
qed

definition frame_row :: std_row where
  "frame_row = \<lparr>std_cfa = Cfa_at 7 16, std_rules = (\<lambda>_. Same_value)(16 := Saved_at (- 8), 6 := Saved_at (- 16))\<rparr>"

lemma frame_table_row: "std_table_row x86_64 frame_record frame_cie frame_fde 4 = Some frame_row"
  by (simp add: std_table_row_def x86_64_def frame_record_def frame_cie_def frame_fde_def std_empty_def frame_row_def zero_cie_def
      set_cfa_def set_rule_def)

lemma frame_conforms: "conforms 1 frame_cie frame_fde" "looked_up 1 frame_fde 4 4"
  by (simp_all add: conforms_def looked_up_def frame_cie_def frame_fde_def code_size_def)

lemma frame_factor: "1 = unat (codeAlignFactor (cfi_cie frame_record))"
  by (simp add: frame_record_def zero_cie_def)

lemma frame_reads:
  "read_word frame_task 4120 = 0x2222" "read_word frame_task 4112 = 0x1111"
proof -
  have h: "holds frame_task 4112 frame_stack"
    using holds_block_infix [of "cfis_bytes frame_cie @ cfis_bytes frame_fde @ replicate 6 0" frame_stack "[]" 4096]
    by (simp add: frame_mem_def frame_bytes frame_stack_def)
  then have "holds frame_task 4112 [0x11, 0x11, 0, 0, 0, 0, 0, 0]"
    "holds frame_task (4112 + 8) [0x22, 0x22, 0, 0, 0, 0, 0, 0]"
    unfolding frame_stack_def by (simp_all only: holds_append) simp_all
  then have "FIRCLSReadMemory frame_task 4112 8 = Some [0x11, 0x11, 0, 0, 0, 0, 0, 0]"
    "FIRCLSReadMemory frame_task 4120 8 = Some [0x22, 0x22, 0, 0, 0, 0, 0, 0]"
    by (simp_all add: flat.read_memory_holds FIRCLSIsValidPointer_def)
  then show "read_word frame_task 4120 = 0x2222" "read_word frame_task 4112 = 0x1111"
    by (simp_all add: read_word_def le_word_def)
qed

lemma frame_rules_value:
  "\<forall>n \<le> 16. rule_value x86_64 t regs cfa (std_rules frame_row n) \<noteq> None"
  by (simp add: frame_row_def)

lemma unwind_x86_row_witness:
  "\<exists>new. FIRCLSDwarfUnwindComputeRegisters x86_64 frame_task frame_record frame_regs = Some (Some new) \<and>
     ss_rip new = 0x2222 \<and> ss_rbp new = 0x1111 \<and> ss_rsp new = 4128"
proof -
  have cfa: "std_cfa_value x86_64 frame_task frame_regs frame_row = Some (Some 4128)"
    by (simp add: std_cfa_value_def frame_row_def x86_64_def x86_GetRegisterValue_def frame_regs_def)
  have off: "4 = ss_rip frame_regs - startAddress (cfi_fde frame_record)" "\<not> (4::u64) <s 0"
    by (simp_all add: frame_regs_def frame_record_def word_sless_alt)
  obtain new where new:
    "\<forall>m \<le> 16. x86_GetRegisterValue new m = caller_value x86_64 frame_task frame_regs 4128 (std_rules frame_row) (\<lambda>n v. v) m"
    "FIRCLSDwarfUnwindComputeRegisters x86_64 frame_task frame_record frame_regs =
      Some (if ss_rsp new = ss_rsp frame_regs \<or> ss_rip new = ss_rip frame_regs then None else Some new)"
    using unwind_x86_row [OF frame_encodes off frame_factor frame_conforms frame_table_row cfa frame_rules_value] by blast
  have "ss_rip new = x86_GetRegisterValue new 16" "ss_rbp new = x86_GetRegisterValue new 6"
    "ss_rsp new = x86_GetRegisterValue new 7"
    by (simp_all add: x86_GetRegisterValue_def)
  moreover have "x86_GetRegisterValue new 16 = 0x2222" "x86_GetRegisterValue new 6 = 0x1111"
    "x86_GetRegisterValue new 7 = 4128"
    using new(1) by (simp_all add: caller_value_def x86_64_def frame_row_def frame_reads)
  ultimately show ?thesis using new(2) by (simp add: frame_regs_def x86_zero_def)
qed

lemma unwind_x86_refused_witness:
  "FIRCLSDwarfUnwindComputeRegisters x86_64 frame_task frame_record (frame_regs\<lparr>ss_rip := 0x4fff\<rparr>) = Some None"
  by (rule unwind_x86_refused [OF frame_encodes refl])
    (simp add: frame_regs_def frame_record_def word_sless_alt)

lemma cfi_program_refines_witness:
  "\<exists>s. FIRCLSDwarfInstructionsEnumerate x86_64 frame_task (fde_instructions (cfi_fde frame_record))
      (cfi_cie frame_record) ((zero_state x86_64)\<lparr>cfaRegister := 7, cfaRegisterOffset := 8\<rparr>) 4 = Some (True, s) \<and>
     cfaRegister s = 7 \<and> cfaRegisterOffset s = 16"
proof -
  let ?s = "(zero_state x86_64)\<lparr>cfaRegister := 7, cfaRegisterOffset := 8\<rparr>" and ?w = "std_empty\<lparr>std_cfa := Cfa_at 7 8\<rparr>"
  have wf: "wf_state x86_64 ?s" using wf_zero_state [of x86_64] by (simp add: wf_state_def x86_64_def)
  have n: "unat (CLS_DWARF_MAX_REGISTER_NUM x86_64) < 64" by (simp add: x86_64_def)
  have c: "conforms 1 [] frame_fde" using frame_conforms(1) by (simp add: conforms_def frame_fde_def)
  have row: "same_row ?w (row_of ?s)"
    using row_zero_state [of x86_64] by (simp add: same_row_def row_cfa_update std_empty_def)
  have run: "std_run (unat (CLS_DWARF_MAX_REGISTER_NUM x86_64)) 1 (dataAlignFactor (cfi_cie frame_record)) 4
      (instr_data (fde_instructions (cfi_fde frame_record))) frame_fde 0 ?w =
      Some \<lparr>std_cfa = Cfa_at 7 16, std_rules = (\<lambda>_. Same_value)(6 := Saved_at (- 16))\<rparr>"
    by (simp add: frame_fde_def frame_record_def zero_cie_def x86_64_def set_cfa_def set_rule_def std_empty_def)
  have off: "\<not> (4 :: u64) <s 0" by (simp add: word_sless_alt)
  obtain s' where s': "FIRCLSDwarfInstructionsEnumerate x86_64 frame_task (fde_instructions (cfi_fde frame_record))
      (cfi_cie frame_record) ?s 4 = Some (True, s')"
    "same_row \<lparr>std_cfa = Cfa_at 7 16, std_rules = (\<lambda>_. Same_value)(6 := Saved_at (- 16))\<rparr> (row_of s')"
    using cfi_program_refines [OF frame_encodes(2) wf n frame_factor c frame_conforms(2) off row _ run] by auto
  have "unat (cfaRegister s') = 7" "cfaRegisterOffset s' = 16" using s'(2) by (simp_all add: same_row_def row_of_def)
  then show ?thesis using s'(1) by (auto simp: word_unat_eq_iff)
qed

lemma rule_table_bounded_witness:
  "\<exists>s'. FIRCLSDwarfInstructionsEnumerate x86_64 frame_task (cie_instructions (cfi_cie frame_record))
      (cfi_cie frame_record) (zero_state x86_64) INTPTR_MAX = Some (True, s') \<and>
     length (state_registers s') = 17"
proof -
  have "cfi_run 16 1 (- 8) INTPTR_MAX 4096 frame_cie (row_of (zero_state x86_64), 0) \<noteq> None"
    by (simp add: row_zero_state frame_cie_def empty_row_def word_sless_alt INTPTR_MAX_def)
  then obtain s' where s': "FIRCLSDwarfInstructionsEnumerate x86_64 frame_task
      (cie_instructions (cfi_cie frame_record)) (cfi_cie frame_record) (zero_state x86_64) INTPTR_MAX = Some (True, s')"
    using x86.enumerate_row [OF frame_encodes(1) wf_zero_state, of "cfi_cie frame_record" INTPTR_MAX]
    by (auto simp: x86_64_def frame_record_def runs_def zero_cie_def)
  then show ?thesis using rule_table_bounded [OF s' wf_zero_state] by (simp add: x86_64_def)
qed

text \<open>The same frame on arm64, where the return address is in the link register column.\<close>

definition arm_frame_cie :: "cfi list" where
  "arm_frame_cie = [Cfi_def_cfa 31 0]"

definition arm_frame_fde :: "cfi list" where
  "arm_frame_fde = [Cfi_advance 4, Cfi_def_cfa_offset 16, Cfi_offset 30 1, Cfi_offset 29 2]"

definition arm_frame_mem :: "byte list" where
  "arm_frame_mem = cfis_bytes arm_frame_cie @ cfis_bytes arm_frame_fde @ (replicate 6 0 @ frame_stack)"

definition arm_frame_record :: cfi_record where
  "arm_frame_record = frame_record\<lparr>
     cfi_cie := (cfi_cie frame_record)\<lparr>cie_instructions := \<lparr>instr_length = 3, instr_data = 4096\<rparr>\<rparr>,
     cfi_fde := (cfi_fde frame_record)\<lparr>fde_instructions := \<lparr>instr_length = 7, instr_data = 4099\<rparr>\<rparr>\<rparr>"

definition arm_frame_regs :: arm_thread where
  "arm_frame_regs = \<lparr>ss_x = \<lambda>_. 0, ss_fp = 0, ss_lr = 0, ss_sp = 4112, ss_pc = 0x5008, ss_cpsr = 0\<rparr>"

abbreviation arm_task :: task where
  "arm_task \<equiv> flat_task (block 4096 arm_frame_mem)"

lemma arm_frame_bytes:
  "cfis_bytes arm_frame_cie = [0x0C, 31, 0]" "cfis_bytes arm_frame_fde = [0x44, 0x0E, 16, 0x9E, 1, 0x9D, 2]"
  by (simp_all add: arm_frame_cie_def arm_frame_fde_def uleb_encode.simps)

lemma arm_frame_encodes:
  "encodes arm_task (cie_instructions (cfi_cie arm_frame_record)) arm_frame_cie"
  "encodes arm_task (fde_instructions (cfi_fde arm_frame_record)) arm_frame_fde"
proof -
  have "holds arm_task 4096 (cfis_bytes arm_frame_cie)"
    unfolding arm_frame_mem_def by (rule holds_block_prefix) (simp add: arm_frame_bytes frame_stack_def)
  then show "encodes arm_task (cie_instructions (cfi_cie arm_frame_record)) arm_frame_cie"
    by (simp add: encodes_def arm_frame_record_def arm_frame_bytes) (simp add: arm_frame_cie_def)
  have "holds arm_task (4096 + word_of_nat (length (cfis_bytes arm_frame_cie))) (cfis_bytes arm_frame_fde)"
    unfolding arm_frame_mem_def by (rule holds_block_infix) (simp add: arm_frame_bytes frame_stack_def)
  then show "encodes arm_task (fde_instructions (cfi_fde arm_frame_record)) arm_frame_fde"
    by (simp add: encodes_def arm_frame_record_def arm_frame_bytes) (simp add: arm_frame_fde_def)
qed

definition arm_frame_row :: std_row where
  "arm_frame_row = \<lparr>std_cfa = Cfa_at 31 16, std_rules = (\<lambda>_. Same_value)(30 := Saved_at (- 8), 29 := Saved_at (- 16))\<rparr>"

lemma arm_frame_table_row: "std_table_row arm64 arm_frame_record arm_frame_cie arm_frame_fde 8 = Some arm_frame_row"
  by (simp add: std_table_row_def arm64_def arm_frame_record_def frame_record_def arm_frame_cie_def arm_frame_fde_def std_empty_def
      arm_frame_row_def zero_cie_def set_cfa_def set_rule_def)

lemma arm_frame_conforms: "conforms 1 arm_frame_cie arm_frame_fde" "looked_up 1 arm_frame_fde 8 8"
    "1 = unat (codeAlignFactor (cfi_cie arm_frame_record))"
  by (simp_all add: conforms_def looked_up_def arm_frame_cie_def arm_frame_fde_def code_size_def arm_frame_record_def
      frame_record_def zero_cie_def)

lemma arm_frame_reads:
  "read_word arm_task 4120 = 0x2222" "read_word arm_task 4112 = 0x1111"
proof -
  have h: "holds arm_task 4112 frame_stack"
    using holds_block_infix [of "cfis_bytes arm_frame_cie @ cfis_bytes arm_frame_fde @ replicate 6 0" frame_stack "[]" 4096]
    by (simp add: arm_frame_mem_def arm_frame_bytes frame_stack_def)
  then have "holds arm_task 4112 [0x11, 0x11, 0, 0, 0, 0, 0, 0]"
    "holds arm_task (4112 + 8) [0x22, 0x22, 0, 0, 0, 0, 0, 0]"
    unfolding frame_stack_def by (simp_all only: holds_append) simp_all
  then have "FIRCLSReadMemory arm_task 4112 8 = Some [0x11, 0x11, 0, 0, 0, 0, 0, 0]"
    "FIRCLSReadMemory arm_task 4120 8 = Some [0x22, 0x22, 0, 0, 0, 0, 0, 0]"
    by (simp_all add: flat.read_memory_holds FIRCLSIsValidPointer_def)
  then show "read_word arm_task 4120 = 0x2222" "read_word arm_task 4112 = 0x1111"
    by (simp_all add: read_word_def le_word_def)
qed

lemma unwind_arm_row_witness:
  "\<exists>new. FIRCLSDwarfUnwindComputeRegisters arm64 arm_task arm_frame_record arm_frame_regs = Some (Some new) \<and>
     arm_GetRegisterValue new 30 = 0x2222 \<and> arm_GetRegisterValue new 29 = 0x1111 \<and>
     arm_GetRegisterValue new 31 = 4128"
proof -
  have strip: "CLS_PTRAUTH_STRIP 0x5008 = 0x5008" "CLS_PTRAUTH_STRIP 4112 = 4112" "CLS_PTRAUTH_STRIP 4128 = 4128"
    "CLS_PTRAUTH_STRIP 0x1111 = 0x1111" "CLS_PTRAUTH_STRIP 0x2222 = 0x2222" "CLS_PTRAUTH_STRIP 0 = 0"
    by (simp_all add: CLS_PTRAUTH_STRIP_def)
  have cfa: "std_cfa_value arm64 arm_task arm_frame_regs arm_frame_row = Some (Some 4128)"
    by (simp add: std_cfa_value_def arm_frame_row_def arm64_def arm_GetRegisterValue_def arm_frame_regs_def strip)
  have off: "8 = CLS_PTRAUTH_STRIP (ss_pc arm_frame_regs) - startAddress (cfi_fde arm_frame_record)"
    "\<not> (8::u64) <s 0"
    by (simp_all add: arm_frame_regs_def arm_frame_record_def frame_record_def word_sless_alt strip)
  have rules: "\<forall>n \<le> 31. rule_value arm64 arm_task arm_frame_regs 4128 (std_rules arm_frame_row n) \<noteq> None"
    by (simp add: arm_frame_row_def)
  obtain new where new:
    "\<forall>m \<le> 31. arm_GetRegisterValue new m = caller_value arm64 arm_task arm_frame_regs 4128 (std_rules arm_frame_row)
        (\<lambda>n v. if 29 \<le> n \<and> n \<le> 31 then CLS_PTRAUTH_STRIP v else v) m"
    "FIRCLSDwarfUnwindComputeRegisters arm64 arm_task arm_frame_record arm_frame_regs =
      Some (if arm_GetRegisterValue new 31 = arm_GetRegisterValue arm_frame_regs 31 \<or>
               arm_GetRegisterValue new 30 = arm_GetRegisterValue arm_frame_regs 30
            then None else Some new)"
    using unwind_arm_row [OF arm_frame_encodes off arm_frame_conforms(3,1,2) arm_frame_table_row cfa rules] by blast
  have vals: "arm_GetRegisterValue new 30 = 0x2222" "arm_GetRegisterValue new 29 = 0x1111"
    "arm_GetRegisterValue new 31 = 4128"
    using new(1) by (simp_all add: caller_value_def arm64_def arm_frame_row_def arm_frame_reads strip)
  have "arm_GetRegisterValue arm_frame_regs 31 = 4112" "arm_GetRegisterValue arm_frame_regs 30 = 0"
    by (simp_all add: arm_GetRegisterValue_def arm_frame_regs_def strip)
  then show ?thesis using new(2) vals by simp
qed

text \<open>C30. Parsing a frame description and the common information it points back to recovers exactly
  what was encoded: alignment factors, return column, pointer encoding, the function's pc-relative
  start and its size, and the two instruction blocks.\<close>

theorem parse_frame_description:
  assumes "at_cursor t q (fde_bytes off start len prog)" "q \<noteq> 0"
    and "at_cursor t p (cie_bytes caf daf ra 0x10 cprog)" "p \<noteq> 0" "p = q + 4 - word_of_nat off"
    and "caf < 2 ^ 31" "- (2 ^ 27) \<le> daf" "daf < 2 ^ 31"
    and "length (cie_body caf daf ra 0x10 cprog) < 2 ^ 32 - 1"
    and "0 < off" "off < 2 ^ 32" "off \<le> unat q + 4" "length prog + 21 < 2 ^ 32 - 1"
    and "start + (q + 8) \<noteq> CLS_INVALID_ADDRESS" "len \<noteq> CLS_INVALID_ADDRESS"
  shows "FIRCLSDwarfParseCFIFromFDERecord t rec q =
    Some (True, \<lparr>cfi_cie = parsed_cie p caf daf ra 0x10 cprog, cfi_fde = parsed_fde q off start len prog\<rparr>)"
  using assms by (rule parse_fde_aux)

text \<open>An \<open>.eh_frame\<close> section with the frame of the previous witnesses.\<close>

definition eh_cie :: "byte list" where
  "eh_cie = cie_bytes 1 (- 8) 16 0x10 (cfis_bytes frame_cie)"

definition eh_fde :: "byte list" where
  "eh_fde = fde_bytes 26 (0x5000 - 4126) 64 (cfis_bytes frame_fde)"

definition eh_mem :: "byte list" where
  "eh_mem = eh_cie @ eh_fde @ (replicate 12 0 @ frame_stack)"

abbreviation eh_task :: task where
  "eh_task \<equiv> flat_task (block 4096 eh_mem)"

lemma eh_lengths:
  "length eh_cie = 22" "length eh_fde = 30"
  "length (cie_body 1 (- 8) 16 0x10 (cfis_bytes frame_cie)) = 18"
  by (simp_all add: eh_cie_def eh_fde_def cie_bytes_def Let_def cie_body_def fde_bytes_def fde_body_def
      frame_bytes uleb_encode.simps sleb_encode.simps)

lemma eh_layout: "at_cursor eh_task 4096 eh_cie" "at_cursor eh_task 4118 eh_fde"
proof -
  have len: "length (eh_cie @ eh_fde @ (replicate 12 0 @ frame_stack)) \<le> 2 ^ 64"
    by (simp add: eh_lengths frame_stack_def)
  show "at_cursor eh_task 4096 eh_cie"
    unfolding at_cursor_def eh_mem_def using holds_block_prefix [OF len, of 4096]
    by (simp add: eh_lengths)
  have "holds eh_task (4096 + word_of_nat (length eh_cie)) eh_fde"
    unfolding eh_mem_def using len by (rule holds_block_infix)
  then show "at_cursor eh_task 4118 eh_fde"
    by (simp add: at_cursor_def eh_lengths)
qed

lemma parse_frame_description_witness:
  "\<exists>rec. FIRCLSDwarfParseCFIFromFDERecord eh_task frame_record 4118 = Some (True, rec) \<and>
     startAddress (cfi_fde rec) = 0x5000 \<and> dataAlignFactor (cfi_cie rec) = - 8 \<and>
     fde_instructions (cfi_fde rec) = \<lparr>instr_length = 5, instr_data = 4143\<rparr>"
proof -
  have "FIRCLSDwarfParseCFIFromFDERecord eh_task frame_record 4118 = Some (True,
      \<lparr>cfi_cie = parsed_cie 4096 1 (- 8) 16 0x10 (cfis_bytes frame_cie),
       cfi_fde = parsed_fde 4118 26 (0x5000 - 4126) 64 (cfis_bytes frame_fde)\<rparr>)"
    by (rule parse_frame_description [OF eh_layout(2) [unfolded eh_fde_def] _ eh_layout(1) [unfolded eh_cie_def]])
      (simp_all only: eh_lengths, simp_all add: frame_bytes CLS_INVALID_ADDRESS_def)
  then show ?thesis by (simp add: parsed_cie_def parsed_fde_def Let_def frame_bytes)
qed

section \<open>Where the code leaves the standard\<close>

text \<open>C32. With a second short advance the code leaves the standard: between the two locations it
  has already applied the instructions that belong behind the second one.\<close>

theorem second_advance_diverges:
  assumes "encodes t instrs [Cfi_advance d1, Cfi_def_cfa_offset a, Cfi_advance d2, Cfi_def_cfa_offset b]"
    and "wf_state A s" "unat (CLS_DWARF_MAX_REGISTER_NUM A) < 64" "codeAlignFactor cie = 1"
    and "d1 < n" "d2 < n" "n = L \<or> n = L + 1" "L < d1 + d2" "std_cfa w = Cfa_at r off"
  shows "\<exists>s'. FIRCLSDwarfInstructionsEnumerate A t instrs cie s (word_of_nat n) = Some (True, s') \<and>
     cfaRegisterOffset s' = word_of_nat b \<and>
     map_option std_cfa (std_run (unat (CLS_DWARF_MAX_REGISTER_NUM A)) 1 (dataAlignFactor cie)
       L (instr_data instrs) [Cfi_advance d1, Cfi_def_cfa_offset a, Cfi_advance d2, Cfi_def_cfa_offset b] 0 w) =
     Some (Cfa_at r (word_of_nat a))"
proof -
  have d: "d1 < 64" "d2 < 64" using assms(1) by (simp_all add: encodes_def)
  have n: "n < 2 ^ 63" "unat (word_of_nat n :: u64) = n" using d assms(7,8) by (auto simp: unat_of_nat)
  then have "sint (word_of_nat n :: u64) = int n" by (simp add: signed_take_bit_int_eq_self signed_of_nat)
  then have "\<not> (word_of_nat n :: u64) <s 0" by (simp add: word_sless_alt)
  from sless_nat [OF _ this] n d assms(5,6)
  have lt: "(0::u64) <s word_of_nat n" "(word_of_nat d1 :: u64) <s word_of_nat n" "(word_of_nat d2 :: u64) <s word_of_nat n"
    using sless_nat [OF _ \<open>\<not> (word_of_nat n :: u64) <s 0\<close>, of 0] by simp_all
  have "runs A (FIRCLSDwarfInstructionsEnumerate A t instrs cie s (word_of_nat n))
      (Some ((row_of s)\<lparr>row_cfa_offset := word_of_nat b\<rparr>))"
    using enumerate_encodes [OF assms(1-3), of cie "word_of_nat n"] assms(4) lt by simp
  then obtain s' where "FIRCLSDwarfInstructionsEnumerate A t instrs cie s (word_of_nat n) = Some (True, s')"
    "row_of s' = (row_of s)\<lparr>row_cfa_offset := word_of_nat b\<rparr>"
    by (auto simp: runs_def)
  moreover from this(2) have "cfaRegisterOffset s' = word_of_nat b" by (simp add: row_of_def)
  moreover have "\<not> L < d1" "L < d1 + d2" using assms(5-8) by auto
  ultimately show ?thesis using assms(9) by (simp add: set_cfa_def)
qed

definition two_advances :: "cfi list" where
  "two_advances = [Cfi_advance 4, Cfi_def_cfa_offset 16, Cfi_advance 4, Cfi_def_cfa_offset 32]"

lemma second_advance_diverges_witness:
  "\<exists>s'. FIRCLSDwarfInstructionsEnumerate x86_64 (flat_task (block 4096 (cfis_bytes two_advances)))
      \<lparr>instr_length = 6, instr_data = 4096\<rparr> (cfi_cie frame_record) (zero_state x86_64) 6 = Some (True, s') \<and>
     cfaRegisterOffset s' = 32 \<and>
     map_option std_cfa (std_run 16 1 (- 8) 6 4096 two_advances 0 (std_empty\<lparr>std_cfa := Cfa_at 7 8\<rparr>)) = Some (Cfa_at 7 16)"
proof -
  have b: "cfis_bytes two_advances = [0x44, 0x0E, 16, 0x44, 0x0E, 32]"
    by (simp add: two_advances_def uleb_encode.simps)
  have "holds (flat_task (block 4096 (cfis_bytes two_advances))) 4096 (cfis_bytes two_advances)"
    by (rule holds_block) (simp add: b)
  then have "encodes (flat_task (block 4096 (cfis_bytes two_advances))) \<lparr>instr_length = 6, instr_data = 4096\<rparr>
      [Cfi_advance 4, Cfi_def_cfa_offset 16, Cfi_advance 4, Cfi_def_cfa_offset 32]"
    unfolding two_advances_def [symmetric]
    by (simp add: encodes_def b) (simp add: two_advances_def)
  from second_advance_diverges [OF this wf_zero_state, of x86_64 "cfi_cie frame_record" 6 6 "std_empty\<lparr>std_cfa := Cfa_at 7 8\<rparr>" 7 8]
  show ?thesis
    by (simp add: x86_64_def frame_record_def zero_cie_def flip: two_advances_def)
qed

text \<open>At the first instruction behind \<open>push rbp\<close> the row for that location already applies; the code still uses
  the one before.  This is right for a return address, and wrong for the program counter of a crash.\<close>

lemma boundary_row_late:
  "cfi_run 16 1 (- 8) 1 4101 frame_fde (w, 0) = Some w"
  "map_option std_cfa (std_run 16 1 (- 8) 1 4101 frame_fde 0 (std_empty\<lparr>std_cfa := Cfa_at 7 8\<rparr>)) = Some (Cfa_at 7 16)"
  "std_run 16 1 (- 8) 0 4101 frame_fde 0 sw = Some sw"
  by (simp_all add: frame_fde_def word_sless_alt set_cfa_def set_rule_def)

text \<open>An expression for the CFA outlives the register that replaces it.\<close>

lemma expression_kept:
  "map_option row_cfa_expr (cfi_run 16 1 (- 8) 5 4096 [Cfi_def_cfa_expression [0x77, 8], Cfi_def_cfa 7 8] (empty_row, 0)) =
     Some (Some 4097)"
  "map_option std_cfa (std_run 16 1 (- 8) 5 4096 [Cfi_def_cfa_expression [0x77, 8], Cfi_def_cfa 7 8] 0 std_empty) =
     Some (Cfa_at 7 8)"
  by (simp_all add: word_sless_alt set_cfa_def empty_row_def)

end
