(* ===== verification/Compact_Unwind.thy ===== *)
theory Compact_Unwind
  imports Dwarf_Unwind
begin

text \<open>
  \<open>FIRCLSCompactUnwind.c\<close>: the two-level lookup of a program counter in Apple's
  \<open>__unwind_info\<close> section and the DWARF fallback.  The layout of the section and its macros come
  from the SDK header \<open>mach-o/compact_unwind_encoding.h\<close>, which is not part of the repository: they
  are the record \<open>unwind_abi\<close>, with the values of the SDK as the instance \<open>apple_abi\<close>.
  Indices are natural numbers; they stay below the 32-bit counts the section declares.
\<close>

section \<open>The section\<close>

record unwind_abi =
  UNWIND_SECTION_VERSION :: u32
  UNWIND_SECOND_LEVEL_REGULAR :: u32
  UNWIND_SECOND_LEVEL_COMPRESSED :: u32
  UNWIND_INFO_COMPRESSED_ENTRY_FUNC_OFFSET :: "u32 \<Rightarrow> u32"
  UNWIND_INFO_COMPRESSED_ENTRY_ENCODING_INDEX :: "u32 \<Rightarrow> u32"
  section_header_size :: nat
  at_version :: nat
  at_commonEncodingsArraySectionOffset :: nat
  at_commonEncodingsArrayCount :: nat
  at_indexSectionOffset :: nat
  at_indexCount :: nat
  index_entry_size :: nat
  at_functionOffset :: nat
  at_secondLevelPagesSectionOffset :: nat
  at_entryPageOffset :: nat
  at_entryCount :: nat
  at_encodingsPageOffset :: nat

definition apple_abi :: unwind_abi where
  "apple_abi = \<lparr>
     UNWIND_SECTION_VERSION = 1,
     UNWIND_SECOND_LEVEL_REGULAR = 2,
     UNWIND_SECOND_LEVEL_COMPRESSED = 3,
     UNWIND_INFO_COMPRESSED_ENTRY_FUNC_OFFSET = (\<lambda>e. e AND 0x00FFFFFF),
     UNWIND_INFO_COMPRESSED_ENTRY_ENCODING_INDEX = (\<lambda>e. drop_bit 24 e),
     section_header_size = 28,
     at_version = 0,
     at_commonEncodingsArraySectionOffset = 4,
     at_commonEncodingsArrayCount = 8,
     at_indexSectionOffset = 20,
     at_indexCount = 24,
     index_entry_size = 12,
     at_functionOffset = 0,
     at_secondLevelPagesSectionOffset = 4,
     at_entryPageOffset = 4,
     at_entryCount = 6,
     at_encodingsPageOffset = 8\<rparr>"

record section_header =
  hdr_version :: u32
  commonEncodingsArraySectionOffset :: u32
  commonEncodingsArrayCount :: u32
  indexSectionOffset :: u32
  indexCount :: u32

record index_entry =
  functionOffset :: u32
  secondLevelPagesSectionOffset :: u32

record compact_context =
  unwindInfo :: u64
  ehFrame :: u64
  loadAddress :: u64
  unwindHeader :: section_header
  indexHeader :: index_entry
  firstLevelNextFunctionOffset :: u32

record compact_result =
  encoding :: u32
  functionStart :: u64
  functionEnd :: u64
  lsda :: u64
  personality :: u64

definition zero_context :: compact_context where
  "zero_context = \<lparr>unwindInfo = 0, ehFrame = 0, loadAddress = 0,
     unwindHeader = \<lparr>hdr_version = 0, commonEncodingsArraySectionOffset = 0,
       commonEncodingsArrayCount = 0, indexSectionOffset = 0, indexCount = 0\<rparr>,
     indexHeader = \<lparr>functionOffset = 0, secondLevelPagesSectionOffset = 0\<rparr>,
     firstLevelNextFunctionOffset = 0\<rparr>"

definition zero_result :: compact_result where
  "zero_result = \<lparr>encoding = 0, functionStart = 0, functionEnd = 0, lsda = 0, personality = 0\<rparr>"

definition field32 :: "nat \<Rightarrow> byte list \<Rightarrow> u32" where
  "field32 k bs = le_word (take 4 (drop k bs))"

text \<open>Plain loads of the C code.\<close>

definition load_u16 :: "task \<Rightarrow> u64 \<Rightarrow> u16 option" where
  "load_u16 t a = map_option le_word (load_bytes t a 2)"

definition load_u32 :: "task \<Rightarrow> u64 \<Rightarrow> u32 option" where
  "load_u32 t a = map_option le_word (load_bytes t a 4)"

text \<open>\<open>arr[i]\<close> of an array of \<open>uint32_t\<close>.\<close>

definition array_u32 :: "task \<Rightarrow> u64 \<Rightarrow> nat \<Rightarrow> u32 option" where
  "array_u32 t base i = do { a \<leftarrow> ptr_add base (4 * i); load_u32 t a }"

definition FIRCLSCompactUnwindInit ::
    "unwind_abi \<Rightarrow> task \<Rightarrow> compact_context \<Rightarrow> u64 \<Rightarrow> u64 \<Rightarrow> u64 \<Rightarrow> bool \<times> compact_context" where
  "FIRCLSCompactUnwindInit B t context0 info frame load =
     (if \<not> FIRCLSIsValidPointer info then (False, context0)
      else if \<not> FIRCLSIsValidPointer load then (False, context0)
      else case FIRCLSReadMemory t info (section_header_size B) of
        None \<Rightarrow> (False, zero_context)
      | Some bs \<Rightarrow>
          let context = zero_context\<lparr>unwindHeader := \<lparr>
            hdr_version = field32 (at_version B) bs,
            commonEncodingsArraySectionOffset = field32 (at_commonEncodingsArraySectionOffset B) bs,
            commonEncodingsArrayCount = field32 (at_commonEncodingsArrayCount B) bs,
            indexSectionOffset = field32 (at_indexSectionOffset B) bs,
            indexCount = field32 (at_indexCount B) bs\<rparr>\<rparr>
          in if hdr_version (unwindHeader context) \<noteq> UNWIND_SECTION_VERSION B then (False, context)
             else (True, context\<lparr>unwindInfo := info, ehFrame := frame, loadAddress := load\<rparr>))"

definition FIRCLSCompactUnwindGetIndexData :: "compact_context \<Rightarrow> u64" where
  "FIRCLSCompactUnwindGetIndexData context =
     unwindInfo context + ucast (indexSectionOffset (unwindHeader context))"

definition FIRCLSCompactUnwindGetCommonEncodings :: "compact_context \<Rightarrow> u64" where
  "FIRCLSCompactUnwindGetCommonEncodings context =
     unwindInfo context + ucast (commonEncodingsArraySectionOffset (unwindHeader context))"

definition FIRCLSCompactUnwindGetSecondLevelData :: "compact_context \<Rightarrow> u64" where
  "FIRCLSCompactUnwindGetSecondLevelData context =
     unwindInfo context + ucast (secondLevelPagesSectionOffset (indexHeader context))"

definition FIRCLSCompactUnwindGetIndexFunctionOffset :: "compact_context \<Rightarrow> u64" where
  "FIRCLSCompactUnwindGetIndexFunctionOffset context =
     loadAddress context + ucast (functionOffset (indexHeader context))"

definition FIRCLSCompactUnwindGetTargetAddress :: "compact_context \<Rightarrow> u64 \<Rightarrow> u64" where
  "FIRCLSCompactUnwindGetTargetAddress context pc =
     (let offset = FIRCLSCompactUnwindGetIndexFunctionOffset context
      in if pc \<le> offset then 0 else pc - offset)"

section \<open>Lookup\<close>

text \<open>Entries of the first-level index.\<close>

definition index_functionOffset :: "unwind_abi \<Rightarrow> task \<Rightarrow> u64 \<Rightarrow> nat \<Rightarrow> u32 option" where
  "index_functionOffset B t entries i = do {
     a \<leftarrow> ptr_add entries (index_entry_size B * i + at_functionOffset B);
     load_u32 t a }"

definition read_index_entry :: "unwind_abi \<Rightarrow> task \<Rightarrow> u64 \<Rightarrow> nat \<Rightarrow> index_entry option" where
  "read_index_entry B t entries i = do {
     a \<leftarrow> ptr_add entries (index_entry_size B * i);
     bs \<leftarrow> load_bytes t a (index_entry_size B);
     Some \<lparr>functionOffset = field32 (at_functionOffset B) bs,
       secondLevelPagesSectionOffset = field32 (at_secondLevelPagesSectionOffset B) bs\<rparr> }"

text \<open>The \<open>for\<close> loop; the argument \<open>k\<close> is the number of entries left before
  \<open>indexCount - 1\<close>.\<close>

fun first_level_loop ::
    "unwind_abi \<Rightarrow> task \<Rightarrow> u64 \<Rightarrow> u64 \<Rightarrow> nat \<Rightarrow> nat \<Rightarrow> compact_context \<Rightarrow> (bool \<times> compact_context) option" where
  "first_level_loop B t entries address 0 i context = Some (False, context)"
| "first_level_loop B t entries address (Suc k) i context = do {
     value \<leftarrow> index_functionOffset B t entries i;
     nextValue \<leftarrow> index_functionOffset B t entries (i + 1);
     if address \<ge> ucast value \<and> address < ucast nextValue then do {
       e \<leftarrow> read_index_entry B t entries i;
       Some (True, context\<lparr>firstLevelNextFunctionOffset := nextValue, indexHeader := e\<rparr>) }
     else first_level_loop B t entries address k (i + 1) context }"

definition FIRCLSCompactUnwindLookupFirstLevel ::
    "unwind_abi \<Rightarrow> task \<Rightarrow> compact_context \<Rightarrow> u64 \<Rightarrow> (bool \<times> compact_context) option" where
  "FIRCLSCompactUnwindLookupFirstLevel B t context address =
     (if indexCount (unwindHeader context) < 2 then Some (False, context)
      else if address < loadAddress context then Some (False, context)
      else if FIRCLSCompactUnwindGetIndexData context = 0 then Some (False, context)
      else first_level_loop B t (FIRCLSCompactUnwindGetIndexData context)
             (address - loadAddress context) (unat (indexCount (unwindHeader context)) - 1) 0 context)"

definition FIRCLSCompactUnwindGetSecondLevelPageKind :: "task \<Rightarrow> compact_context \<Rightarrow> u32 option" where
  "FIRCLSCompactUnwindGetSecondLevelPageKind t context =
     load_u32 t (FIRCLSCompactUnwindGetSecondLevelData context)"

definition FIRCLSCompactUnwindLookupSecondLevelRegular ::
    "compact_context \<Rightarrow> u64 \<Rightarrow> compact_result \<Rightarrow> bool \<times> compact_result" where
  "FIRCLSCompactUnwindLookupSecondLevelRegular context pc result = (False, result)"

text \<open>The offset of the function of a compressed entry.\<close>

definition entry_offset :: "unwind_abi \<Rightarrow> task \<Rightarrow> u64 \<Rightarrow> nat \<Rightarrow> u64 option" where
  "entry_offset B t entries i =
     map_option (\<lambda>e. ucast (UNWIND_INFO_COMPRESSED_ENTRY_FUNC_OFFSET B e)) (array_u32 t entries i)"

text \<open>The \<open>while\<close> loop of the binary search: the flag and \<open>*index\<close>.\<close>

function search_loop ::
    "unwind_abi \<Rightarrow> task \<Rightarrow> u64 \<Rightarrow> nat \<Rightarrow> u64 \<Rightarrow> nat \<Rightarrow> nat \<Rightarrow> (bool \<times> nat) option" where
  "search_loop B t address entryCount entries index highIndex =
     (if \<not> index < highIndex then Some (index < entryCount, index)
      else let midIndex = (index + highIndex) div 2 in
        case entry_offset B t entries midIndex of
          None \<Rightarrow> None
        | Some value \<Rightarrow>
            if value > address then
              if highIndex = midIndex then Some (False, index)
              else search_loop B t address entryCount entries index midIndex
            else if midIndex = entryCount - 1 then Some (False, midIndex)
            else (case entry_offset B t entries (midIndex + 1) of
                None \<Rightarrow> None
              | Some nextValue \<Rightarrow>
                  if nextValue > address then Some (midIndex < entryCount, midIndex)
                  else search_loop B t address entryCount entries (midIndex + 1) highIndex))"
  by pat_completeness auto
termination
  by (relation "measure (\<lambda>(B, t, a, n, e, index, highIndex). highIndex - index)") auto

declare search_loop.simps [simp del]

definition FIRCLSCompactUnwindBinarySearchSecondLevel ::
    "unwind_abi \<Rightarrow> task \<Rightarrow> u64 \<Rightarrow> nat \<Rightarrow> nat \<Rightarrow> u64 \<Rightarrow> (bool \<times> nat) option" where
  "FIRCLSCompactUnwindBinarySearchSecondLevel B t address index entryCount entryArray =
     (if entryArray = 0 then Some (False, index)
      else if entryCount = 0 then Some (False, index)
      else if address = 0 then Some (False, index)
      else search_loop B t address entryCount entryArray 0 entryCount)"

definition FIRCLSCompactUnwindLookupSecondLevelCompressed ::
    "unwind_abi \<Rightarrow> task \<Rightarrow> compact_context \<Rightarrow> u64 \<Rightarrow> compact_result \<Rightarrow> (bool \<times> compact_result) option" where
  "FIRCLSCompactUnwindLookupSecondLevelCompressed B t context pc result0 =
     (let ptr = FIRCLSCompactUnwindGetSecondLevelData context in
      if ptr = 0 then Some (False, result0)
      else do {
        let targetAddress = FIRCLSCompactUnwindGetTargetAddress context pc;
        p \<leftarrow> ptr_add ptr (at_entryPageOffset B);
        entryPageOffset \<leftarrow> load_u16 t p;
        entryArray \<leftarrow> ptr_add ptr (unat entryPageOffset);
        p \<leftarrow> ptr_add ptr (at_entryCount B);
        count \<leftarrow> load_u16 t p;
        let entryCount = unat count;
        (found, index) \<leftarrow>
          FIRCLSCompactUnwindBinarySearchSecondLevel B t targetAddress 0 entryCount entryArray;
        if \<not> found then Some (False, zero_result)
        else do {
          entry \<leftarrow> array_u32 t entryArray index;
          let start = ucast (UNWIND_INFO_COMPRESSED_ENTRY_FUNC_OFFSET B entry)
                + FIRCLSCompactUnwindGetIndexFunctionOffset context;
          end' \<leftarrow> (if index < entryCount - 1 then do {
                next \<leftarrow> array_u32 t entryArray (index + 1);
                Some (loadAddress context +
                  ucast (UNWIND_INFO_COMPRESSED_ENTRY_FUNC_OFFSET B next + functionOffset (indexHeader context))) }
              else Some (loadAddress context + ucast (firstLevelNextFunctionOffset context)));
          let result = zero_result\<lparr>functionStart := start, functionEnd := end'\<rparr>;
          if pc < start \<or> pc \<ge> end' then Some (False, result)
          else do {
            let encodingIndex = UNWIND_INFO_COMPRESSED_ENTRY_ENCODING_INDEX B entry;
            let common = commonEncodingsArrayCount (unwindHeader context);
            enc \<leftarrow> (if encodingIndex < common
                then array_u32 t (FIRCLSCompactUnwindGetCommonEncodings context) (unat encodingIndex)
                else do {
                  p \<leftarrow> ptr_add ptr (at_encodingsPageOffset B);
                  encodingsPageOffset \<leftarrow> load_u16 t p;
                  encodings \<leftarrow> ptr_add ptr (unat encodingsPageOffset);
                  array_u32 t encodings (unat (encodingIndex - common)) });
            let result = result\<lparr>encoding := enc\<rparr>;
            Some (enc \<noteq> 0, result) } } })"

definition FIRCLSCompactUnwindLookupSecondLevel ::
    "unwind_abi \<Rightarrow> task \<Rightarrow> compact_context \<Rightarrow> u64 \<Rightarrow> compact_result \<Rightarrow> (bool \<times> compact_result) option" where
  "FIRCLSCompactUnwindLookupSecondLevel B t context pc result = do {
     kind \<leftarrow> FIRCLSCompactUnwindGetSecondLevelPageKind t context;
     if kind = UNWIND_SECOND_LEVEL_REGULAR B
       then Some (FIRCLSCompactUnwindLookupSecondLevelRegular context pc result)
     else if kind = UNWIND_SECOND_LEVEL_COMPRESSED B
       then FIRCLSCompactUnwindLookupSecondLevelCompressed B t context pc result
     else Some (False, result) }"

definition FIRCLSCompactUnwindLookup ::
    "unwind_abi \<Rightarrow> task \<Rightarrow> compact_context \<Rightarrow> u64 \<Rightarrow> compact_result \<Rightarrow>
     (bool \<times> compact_context \<times> compact_result) option" where
  "FIRCLSCompactUnwindLookup B t context pc result = do {
     (ok, context) \<leftarrow> FIRCLSCompactUnwindLookupFirstLevel B t context pc;
     if \<not> ok then Some (False, context, result)
     else do {
       (ok, result) \<leftarrow> FIRCLSCompactUnwindLookupSecondLevel B t context pc result;
       Some (ok, context, result) } }"

section \<open>Unwinding\<close>

text \<open>\<open>FIRCLSCompactUnwindComputeRegisters\<close> is defined once per architecture; here it is an
  argument.\<close>

definition FIRCLSCompactUnwindLookupAndCompute ::
    "'r arch \<Rightarrow> unwind_abi \<Rightarrow> task \<Rightarrow>
     (compact_context \<Rightarrow> compact_result \<Rightarrow> 'r \<Rightarrow> (bool \<times> 'r) option) \<Rightarrow>
     compact_context \<Rightarrow> 'r \<Rightarrow> (bool \<times> compact_context \<times> 'r) option" where
  "FIRCLSCompactUnwindLookupAndCompute A B t compute context registers =
     (let pc = FIRCLSThreadContextGetPC A registers in
      if pc < loadAddress context then Some (False, context, registers)
      else do {
        (ok, context, result) \<leftarrow> FIRCLSCompactUnwindLookup B t context pc zero_result;
        if \<not> ok then Some (False, context, registers)
        else do {
          (ok, registers) \<leftarrow> compute context result registers;
          Some (ok, context, registers) } })"

text \<open>The record on the stack is not initialised; parsing sets every field that is used.\<close>

definition zero_cfi :: cfi_record where
  "zero_cfi = \<lparr>cfi_cie = zero_cie, cfi_fde = \<lparr>fde_length = 0, cieOffset = 0, startAddress = 0, rangeSize = 0,
     fde_instructions = \<lparr>instr_length = 0, instr_data = 0\<rparr>\<rparr>\<rparr>"

definition FIRCLSCompactUnwindDwarfFrame ::
    "'r arch \<Rightarrow> task \<Rightarrow> compact_context \<Rightarrow> u64 \<Rightarrow> 'r \<Rightarrow> (bool \<times> 'r) option" where
  "FIRCLSCompactUnwindDwarfFrame A t context dwarfOffset registers = do {
     (ok, rec) \<leftarrow> FIRCLSDwarfParseCFIFromFDERecordOffset t zero_cfi (ehFrame context) dwarfOffset;
     if \<not> ok then Some (False, registers)
     else do {
       r \<leftarrow> FIRCLSDwarfUnwindComputeRegisters A t rec registers;
       (case r of
          None \<Rightarrow> Some (False, registers)
        | Some registers' \<Rightarrow> Some (True, registers')) } }"

section \<open>The binary search\<close>

text \<open>\<open>has_entries\<close>: the page holds entries with the offsets \<open>f\<close>.\<close>

definition has_entries :: "unwind_abi \<Rightarrow> task \<Rightarrow> u64 \<Rightarrow> u64 list \<Rightarrow> bool" where
  "has_entries B t entries fs \<longleftrightarrow> (\<forall>i < length fs. entry_offset B t entries i = Some (fs ! i))"

text \<open>What the search is to return: the entry whose range holds the address; the last entry has no
  range, and an address before the first one is left to the caller's check.\<close>

definition search_spec :: "u64 list \<Rightarrow> u64 \<Rightarrow> bool \<times> nat \<Rightarrow> bool" where
  "search_spec fs a r \<longleftrightarrow>
     (if a < fs ! 0 then r = (True, 0)
      else if last fs \<le> a then r = (False, length fs - 1)
      else fst r \<and> snd r + 1 < length fs \<and> fs ! snd r \<le> a \<and> a < fs ! (snd r + 1))"

lemma search_loop_correct:
  assumes "has_entries B t entries fs" "sorted fs" "fs \<noteq> []"
    and "index < highIndex \<or> (index = 0 \<and> a < fs ! 0)" "highIndex \<le> length fs"
    and "index = 0 \<or> fs ! index \<le> a" "highIndex = length fs \<or> a < fs ! highIndex"
  shows "\<exists>r. search_loop B t a (length fs) entries index highIndex = Some r \<and> search_spec fs a r"
  using assms(4-7)
proof (induction "highIndex - index" arbitrary: index highIndex rule: less_induct)
  case less
  have nth_mono: "fs ! i \<le> fs ! j" if "i \<le> j" "j < length fs" for i j
    using assms(2) that by (rule sorted_nth_mono)
  have lst: "last fs = fs ! (length fs - 1)" using assms(3) by (rule last_conv_nth)
  show ?case
  proof (cases "index < highIndex")
    case False
    then have "index = 0" "a < fs ! 0" using less.prems(1) by auto
    then show ?thesis using False assms(3)
      by (subst search_loop.simps) (simp add: search_spec_def)
  next
    case True
    define mid where "mid = (index + highIndex) div 2"
    have mid: "index \<le> mid" "mid < highIndex" "mid < length fs"
      using True less.prems(2) by (auto simp: mid_def)
    have ev: "entry_offset B t entries mid = Some (fs ! mid)"
      using assms(1) mid(3) by (simp add: has_entries_def)
    have step: "search_loop B t a (length fs) entries index highIndex =
      (if fs ! mid > a then search_loop B t a (length fs) entries index mid
       else if mid = length fs - 1 then Some (False, mid)
       else if fs ! (mid + 1) > a then Some (True, mid)
       else search_loop B t a (length fs) entries (mid + 1) highIndex)"
    proof -
      have "mid \<noteq> length fs - 1 \<Longrightarrow> entry_offset B t entries (mid + 1) = Some (fs ! (mid + 1))"
        using assms(1) mid(3) by (simp add: has_entries_def)
      then show ?thesis
        using True mid by (subst search_loop.simps) (auto simp: Let_def ev simp flip: mid_def)
    qed
    show ?thesis
    proof (cases "fs ! mid > a")
      case gt: True
      have "index < mid \<or> (index = 0 \<and> a < fs ! 0)"
        using gt mid(1) less.prems(3) by (cases "index = mid") auto
      then have "\<exists>r. search_loop B t a (length fs) entries index mid = Some r \<and> search_spec fs a r"
        using less.hyps [of mid index] True mid less.prems(3) gt by auto
      then show ?thesis using gt by (simp add: step)
    next
      case le: False
      have le0: "\<not> a < fs ! 0" using le nth_mono [of 0 mid] mid(3) by (auto simp: not_less)
      show ?thesis
      proof (cases "mid = length fs - 1")
        case last: True
        then show ?thesis using le le0 lst by (simp add: step search_spec_def)
      next
        case inner: False
        then have m1: "mid + 1 < length fs" using mid(3) by auto
        show ?thesis
        proof (cases "fs ! (mid + 1) > a")
          case True
          have "fs ! (mid + 1) \<le> last fs" using nth_mono [of "mid + 1" "length fs - 1"] m1 lst by simp
          then have "\<not> last fs \<le> a" using True by auto
          then show ?thesis using True le le0 inner m1
            by (simp add: step search_spec_def)
        next
          case False
          have "mid + 1 \<noteq> highIndex" using False less.prems(4) m1 by auto
          then have "\<exists>r. search_loop B t a (length fs) entries (mid + 1) highIndex = Some r \<and> search_spec fs a r"
            using less.hyps [of highIndex "mid + 1"] mid less.prems(2,4) False by auto
          then show ?thesis using False le inner by (simp add: step)
        qed
      qed
    qed
  qed
qed

lemma binary_search_aux:
  assumes "has_entries B t entries fs" "sorted fs" "fs \<noteq> []" "entries \<noteq> 0" "a \<noteq> 0"
  shows "\<exists>r. FIRCLSCompactUnwindBinarySearchSecondLevel B t a index (length fs) entries = Some r \<and>
    search_spec fs a r"
  using search_loop_correct [OF assms(1-3), of 0 "length fs" a] assms(3-5)
  by (simp add: FIRCLSCompactUnwindBinarySearchSecondLevel_def)

section \<open>The first level\<close>

text \<open>\<open>has_index\<close>: the index has entries with the offsets \<open>os\<close> and pages \<open>ps\<close>.\<close>

definition has_index :: "unwind_abi \<Rightarrow> task \<Rightarrow> u64 \<Rightarrow> u32 list \<Rightarrow> u32 list \<Rightarrow> bool" where
  "has_index B t entries os ps \<longleftrightarrow> length ps = length os \<and>
     (\<forall>i < length os. index_functionOffset B t entries i = Some (os ! i) \<and>
        read_index_entry B t entries i =
          Some \<lparr>functionOffset = os ! i, secondLevelPagesSectionOffset = ps ! i\<rparr>)"

text \<open>The first range of the index that holds an address, counted from \<open>i\<close>.\<close>

fun first_range :: "u32 list \<Rightarrow> u64 \<Rightarrow> nat \<Rightarrow> nat option" where
  "first_range (x # y # os) a i =
     (if ucast x \<le> a \<and> a < ucast y then Some i else first_range (y # os) a (i + 1))"
| "first_range _ a i = None"

definition first_level_result :: "u32 list \<Rightarrow> u32 list \<Rightarrow> compact_context \<Rightarrow> nat option \<Rightarrow> bool \<times> compact_context" where
  "first_level_result os ps context r = (case r of
     None \<Rightarrow> (False, context)
   | Some i \<Rightarrow> (True, context\<lparr>firstLevelNextFunctionOffset := os ! (i + 1),
       indexHeader := \<lparr>functionOffset = os ! i, secondLevelPagesSectionOffset = ps ! i\<rparr>\<rparr>))"

lemma first_level_loop_correct:
  assumes "has_index B t entries os ps" "i + k + 1 = length os"
  shows "first_level_loop B t entries a k i context =
    Some (first_level_result os ps context (first_range (drop i os) a i))"
  using assms(2)
proof (induction k arbitrary: i)
  case 0
  then have "drop i os = [os ! i]" by (simp add: Cons_nth_drop_Suc flip: Cons_nth_drop_Suc)
  then show ?case by (simp add: first_level_result_def)
next
  case (Suc k)
  then have "drop i os = os ! i # os ! (i + 1) # drop (i + 2) os"
    "drop (i + 1) os = os ! (i + 1) # drop (i + 2) os"
    by (simp_all add: Cons_nth_drop_Suc)
  then show ?case using Suc.IH [of "i + 1"] Suc.prems assms(1)
    by (simp add: has_index_def first_level_result_def)
qed

text \<open>\<open>first_range\<close> finds the only range of an increasing index.\<close>

lemma first_range_Some:
  "first_range os a i = Some j \<Longrightarrow>
   i \<le> j \<and> j + 1 < i + length os \<and> ucast (os ! (j - i)) \<le> a \<and> a < ucast (os ! (j - i + 1))"
proof (induction os a i rule: first_range.induct)
  case (1 x y os a i)
  then show ?case by (auto split: if_split_asm simp: nth_Cons' Suc_diff_le)
qed auto

lemma first_range_None:
  "first_range os a i = None \<Longrightarrow> j + 1 < length os \<Longrightarrow> \<not> (ucast (os ! j) \<le> a \<and> a < ucast (os ! (j + 1)))"
proof (induction os a i arbitrary: j rule: first_range.induct)
  case (1 x y os a i)
  then show ?case by (cases j) (auto split: if_split_asm)
qed auto

section \<open>The second level\<close>

text \<open>\<open>compressed_page\<close>: a page with the entries \<open>es\<close> and the encodings \<open>encs\<close> of its own.\<close>

definition compressed_page ::
    "unwind_abi \<Rightarrow> task \<Rightarrow> u64 \<Rightarrow> u32 list \<Rightarrow> u32 list \<Rightarrow> bool" where
  "compressed_page B t ptr es encs \<longleftrightarrow>
     (\<exists>p1 p2 p3 epo cnt xpo arr xs. ptr_add ptr (at_entryPageOffset B) = Some p1 \<and> load_u16 t p1 = Some epo \<and>
        ptr_add ptr (unat epo) = Some arr \<and> arr \<noteq> 0 \<and>
        ptr_add ptr (at_entryCount B) = Some p2 \<and> load_u16 t p2 = Some cnt \<and> unat cnt = length es \<and>
        (\<forall>i < length es. array_u32 t arr i = Some (es ! i)) \<and>
        ptr_add ptr (at_encodingsPageOffset B) = Some p3 \<and> load_u16 t p3 = Some xpo \<and>
        ptr_add ptr (unat xpo) = Some xs \<and> (\<forall>i < length encs. array_u32 t xs i = Some (encs ! i)))"

definition entry_offsets :: "unwind_abi \<Rightarrow> u32 list \<Rightarrow> u64 list" where
  "entry_offsets B es = map (\<lambda>e. ucast (UNWIND_INFO_COMPRESSED_ENTRY_FUNC_OFFSET B e)) es"


lemma page_has_entries:
  "(\<forall>i < length es. array_u32 t arr i = Some (es ! i)) \<Longrightarrow> has_entries B t arr (entry_offsets B es)"
  by (simp add: has_entries_def entry_offset_def entry_offsets_def)






lemma compressed_lookup_missing:
  assumes "compressed_page B t (FIRCLSCompactUnwindGetSecondLevelData context) es encs"
    and "FIRCLSCompactUnwindGetSecondLevelData context \<noteq> 0"
    and "sorted (entry_offsets B es)" "es \<noteq> []"
    and "base = FIRCLSCompactUnwindGetIndexFunctionOffset context"
    and "pc \<le> base \<or> last (entry_offsets B es) \<le> pc - base \<and> \<not> pc - base < hd (entry_offsets B es)"
  shows "FIRCLSCompactUnwindLookupSecondLevelCompressed B t context pc r = Some (False, zero_result)"
proof -
  obtain p1 p2 epo cnt arr where page:
    "ptr_add (FIRCLSCompactUnwindGetSecondLevelData context) (at_entryPageOffset B) = Some p1" "load_u16 t p1 = Some epo"
    "ptr_add (FIRCLSCompactUnwindGetSecondLevelData context) (unat epo) = Some arr" "arr \<noteq> 0"
    "ptr_add (FIRCLSCompactUnwindGetSecondLevelData context) (at_entryCount B) = Some p2" "load_u16 t p2 = Some cnt"
    "unat cnt = length es" "\<forall>i < length es. array_u32 t arr i = Some (es ! i)"
    using assms(1) unfolding compressed_page_def by blast
  let ?fs = "entry_offsets B es" and ?a = "FIRCLSCompactUnwindGetTargetAddress context pc"
  have len: "length ?fs = length es" "?fs \<noteq> []" using assms(4) by (simp_all add: entry_offsets_def)
  have "\<exists>i. FIRCLSCompactUnwindBinarySearchSecondLevel B t ?a 0 (length es) arr = Some (False, i)"
  proof (cases "?a = 0")
    case True
    then show ?thesis using assms(4) page(4) by (simp add: FIRCLSCompactUnwindBinarySearchSecondLevel_def)
  next
    case False
    then have "?a = pc - base" "\<not> pc \<le> base"
      using assms(5) by (auto simp: FIRCLSCompactUnwindGetTargetAddress_def Let_def split: if_splits)
    then have "last ?fs \<le> ?a" "\<not> ?a < ?fs ! 0" using assms(6) len(2) by (auto simp: hd_conv_nth)
    then show ?thesis
      using binary_search_aux [OF page_has_entries [OF page(8)] assms(3) len(2) page(4) False, of 0] len
      by (auto simp: search_spec_def)
  qed
  then show ?thesis
    using assms(2) by (auto simp: FIRCLSCompactUnwindLookupSecondLevelCompressed_def page(1-3,5-7) Let_def)
qed

lemma first_level_aux:
  assumes "has_index B t (FIRCLSCompactUnwindGetIndexData context) os ps"
    and "length os = unat (indexCount (unwindHeader context))" "FIRCLSCompactUnwindGetIndexData context \<noteq> 0"
  shows "FIRCLSCompactUnwindLookupFirstLevel B t context pc =
    Some (if pc < loadAddress context then (False, context)
          else first_level_result os ps context (first_range os (pc - loadAddress context) 0))"
proof (cases "length os < 2")
  case True
  then have "first_range os a 0 = None" for a by (cases os; cases "tl os") auto
  then show ?thesis using True assms(2)
    by (simp add: FIRCLSCompactUnwindLookupFirstLevel_def first_level_result_def word_less_nat_alt)
next
  case False
  then have "\<not> indexCount (unwindHeader context) < 2" using assms(2) by (simp add: word_less_nat_alt)
  moreover have "unat (indexCount (unwindHeader context)) - 1 = length os - 1" using assms(2) by simp
  ultimately show ?thesis
    using first_level_loop_correct [OF assms(1), of 0 "length os - 1"] assms(3) False
    by (simp add: FIRCLSCompactUnwindLookupFirstLevel_def)
qed

section \<open>Properties\<close>

text \<open>C24. On a page with increasing function offsets the binary search returns, without reading
  outside the page, the index of the one entry whose function holds the address; it gives up on the
  last entry.\<close>

theorem binary_search_correct:
  assumes "has_entries B t entries fs" "sorted fs" "fs \<noteq> []" "entries \<noteq> 0" "a \<noteq> 0"
  shows "\<exists>r. FIRCLSCompactUnwindBinarySearchSecondLevel B t a index (length fs) entries = Some r \<and>
    search_spec fs a r"
  using assms by (rule binary_search_aux)

text \<open>The first-level lookup selects the first index range that holds the program counter, and
  fails exactly when no range does.\<close>

theorem first_level_correct:
  assumes "has_index B t (FIRCLSCompactUnwindGetIndexData context) os ps"
    and "length os = unat (indexCount (unwindHeader context))" "FIRCLSCompactUnwindGetIndexData context \<noteq> 0"
    and "loadAddress context \<le> pc"
  shows "case FIRCLSCompactUnwindLookupFirstLevel B t context pc of
      None \<Rightarrow> False
    | Some (True, c) \<Rightarrow> (\<exists>i. i + 1 < length os \<and> ucast (os ! i) \<le> pc - loadAddress context \<and>
          pc - loadAddress context < ucast (os ! (i + 1)) \<and>
          c = context\<lparr>firstLevelNextFunctionOffset := os ! (i + 1),
            indexHeader := \<lparr>functionOffset = os ! i, secondLevelPagesSectionOffset = ps ! i\<rparr>\<rparr>)
    | Some (False, c) \<Rightarrow> c = context \<and> (\<forall>i. i + 1 < length os \<longrightarrow>
          \<not> (ucast (os ! i) \<le> pc - loadAddress context \<and> pc - loadAddress context < ucast (os ! (i + 1))))"
proof (cases "first_range os (pc - loadAddress context) 0")
  case None
  then show ?thesis using first_level_aux [OF assms(1-3), of pc] assms(4) first_range_None [OF None]
    by (auto simp: first_level_result_def not_less)
next
  case (Some i)
  then show ?thesis using first_level_aux [OF assms(1-3), of pc] assms(4) first_range_Some [OF Some]
    by (auto simp: first_level_result_def not_less)
qed


text \<open>C33. The last function of a page and the very start of its first one are never found: the
  branch that computes the end of the last function from the next page is dead.\<close>

theorem last_function_not_found:
  assumes "compressed_page B t (FIRCLSCompactUnwindGetSecondLevelData context) es encs"
    and "FIRCLSCompactUnwindGetSecondLevelData context \<noteq> 0"
    and "sorted (entry_offsets B es)" "es \<noteq> []"
    and "base = FIRCLSCompactUnwindGetIndexFunctionOffset context"
    and "pc \<le> base \<or> last (entry_offsets B es) \<le> pc - base \<and> \<not> pc - base < hd (entry_offsets B es)"
  shows "FIRCLSCompactUnwindLookupSecondLevelCompressed B t context pc r = Some (False, zero_result)"
  using assms by (rule compressed_lookup_missing)

section \<open>Witnesses\<close>

text \<open>An unwind-info section: an index of one page with three functions.\<close>

definition page_mem :: "byte list" where
  "page_mem =
     [0x00, 1, 0, 0, 24, 0, 0, 0, 0, 0, 0, 0] @ [0, 0x10, 0, 0, 0, 0, 0, 0, 0, 0, 0, 0] @
     [3, 0, 0, 0, 12, 0, 3, 0, 24, 0, 1, 0] @
     [0x10, 0, 0, 0] @ [0x40, 0, 0, 0] @ [0x80, 0, 0, 0] @ [0x01, 0, 0, 0x01]"

abbreviation page_task :: task where
  "page_task \<equiv> flat_task (block 4096 page_mem)"

definition page_context :: compact_context where
  "page_context = zero_context\<lparr>unwindInfo := 4096, loadAddress := 0x10000,
     unwindHeader := \<lparr>hdr_version = 1, commonEncodingsArraySectionOffset = 0,
       commonEncodingsArrayCount = 0, indexSectionOffset = 0, indexCount = 2\<rparr>,
     indexHeader := \<lparr>functionOffset = 0x100, secondLevelPagesSectionOffset = 24\<rparr>\<rparr>"

lemma page_load:
  "i + 4 \<le> 52 \<Longrightarrow> load_u32 page_task (4096 + word_of_nat i) = Some (le_word (take 4 (drop i page_mem)))"
  "i + 2 \<le> 52 \<Longrightarrow> load_u16 page_task (4096 + word_of_nat i) = Some (le_word (take 2 (drop i page_mem)))"
  "i + 12 \<le> 52 \<Longrightarrow> load_bytes page_task (4096 + word_of_nat i) 12 = Some (take 12 (drop i page_mem))"
  using load_block [of page_mem i _ 4096]
  by (simp_all add: load_u32_def load_u16_def page_mem_def)

lemma page_index: "has_index apple_abi page_task 4096 [0x100, 0x1000] [24, 0]"
  using page_load(1) [of 0] page_load(1) [of 12] page_load(3) [of 0] page_load(3) [of 12]
  by (simp add: has_index_def index_functionOffset_def read_index_entry_def apple_abi_def ptr_add_def
      field32_def page_mem_def le_word_def less_Suc_eq)

lemma page_entries: "compressed_page apple_abi page_task 4120 [0x10, 0x40, 0x80] [0x01000001]"
proof -
  have e: "\<forall>i < 3. array_u32 page_task 4132 i = Some ([0x10, 0x40, 0x80] ! i)"
    using page_load(1) [of 36] page_load(1) [of 40] page_load(1) [of 44]
    by (simp add: array_u32_def ptr_add_def page_mem_def le_word_def numeral_3_eq_3 less_Suc_eq)
  have "\<forall>i < 1. array_u32 page_task 4144 i = Some ([0x01000001] ! i)"
    using page_load(1) [of 48] by (simp add: array_u32_def ptr_add_def page_mem_def le_word_def)
  then show ?thesis
    using e page_load(2) [of 28] page_load(2) [of 30] page_load(2) [of 32]
    by (simp add: compressed_page_def apple_abi_def ptr_add_def page_mem_def le_word_def)
qed

lemma page_offsets: "entry_offsets apple_abi [0x10, 0x40, 0x80] = [0x10, 0x40, 0x80]"
  by (simp add: entry_offsets_def apple_abi_def)


lemma page_pointers:
  "FIRCLSCompactUnwindGetIndexData page_context = 4096"
  "FIRCLSCompactUnwindGetSecondLevelData page_context = 4120"
  "FIRCLSCompactUnwindGetIndexFunctionOffset page_context = 0x10100"
  "loadAddress page_context = 0x10000" "indexCount (unwindHeader page_context) = 2"
  by (simp_all add: FIRCLSCompactUnwindGetIndexData_def FIRCLSCompactUnwindGetSecondLevelData_def
      FIRCLSCompactUnwindGetIndexFunctionOffset_def page_context_def)

lemma binary_search_correct_witness:
  "FIRCLSCompactUnwindBinarySearchSecondLevel apple_abi page_task 0x50 0 3 4132 = Some (True, 1)"
proof -
  have "has_entries apple_abi page_task 4132 [0x10, 0x40, 0x80]"
    using page_load(1) [of 36] page_load(1) [of 40] page_load(1) [of 44]
    by (simp add: has_entries_def entry_offset_def array_u32_def ptr_add_def page_mem_def le_word_def
        apple_abi_def less_Suc_eq)
  then obtain r where r: "FIRCLSCompactUnwindBinarySearchSecondLevel apple_abi page_task 0x50 0
      (length [0x10, 0x40, 0x80::u64]) 4132 = Some r" "search_spec [0x10, 0x40, 0x80] 0x50 r"
    using binary_search_correct [of apple_abi page_task 4132 "[0x10, 0x40, 0x80]" "0x50" 0] by auto
  have "r = (True, 1)"
    using r(2) by (cases r; cases "snd r = 0") (auto simp: search_spec_def nth_Cons' split: if_splits)
  then show ?thesis using r(1) by (simp add: numeral_3_eq_3)
qed

lemma first_level_correct_witness:
  "\<exists>c. FIRCLSCompactUnwindLookupFirstLevel apple_abi page_task page_context 0x10150 = Some (True, c)"
proof (cases "FIRCLSCompactUnwindLookupFirstLevel apple_abi page_task page_context 0x10150")
  case None
  then show ?thesis
    using first_level_correct [of apple_abi page_task page_context "[0x100, 0x1000]" "[24, 0]" "0x10150"] page_index
    by (simp add: page_pointers)
next
  case (Some r)
  have "r \<noteq> (False, c)" for c
  proof
    assume r: "r = (False, c)"
    have "\<forall>i. i + 1 < length [0x100, 0x1000::u32] \<longrightarrow>
        \<not> ((ucast ([0x100, 0x1000::u32] ! i) :: u64) \<le> 0x150 \<and> 0x150 < (ucast ([0x100, 0x1000::u32] ! (i + 1)) :: u64))"
      using first_level_correct [of apple_abi page_task page_context "[0x100, 0x1000]" "[24, 0]" "0x10150"]
        page_index Some r by (simp add: page_pointers)
    from spec [OF this, of 0] show False by simp
  qed
  then show ?thesis using Some by (cases r) auto
qed


lemma last_function_not_found_witness:
  "FIRCLSCompactUnwindLookupSecondLevelCompressed apple_abi page_task page_context 0x10190 zero_result =
    Some (False, zero_result)"
  using last_function_not_found [of apple_abi page_task page_context "[0x10, 0x40, 0x80]" "[0x01000001]"
      "0x10100" "0x10190" zero_result] page_entries
  by (simp add: page_pointers page_offsets)

section \<open>Unwinding through a frame description in memory\<close>

text \<open>\<open>eh_frame_at\<close>: at offset \<open>k\<close> of the section at \<open>eh\<close> there is a frame description with the
  program \<open>fis\<close> whose common information has the program \<open>cis\<close>.\<close>

definition eh_frame_at ::
    "task \<Rightarrow> u64 \<Rightarrow> u64 \<Rightarrow> nat \<Rightarrow> int \<Rightarrow> byte \<Rightarrow> cfi list \<Rightarrow> nat \<Rightarrow> u64 \<Rightarrow> u64 \<Rightarrow> cfi list \<Rightarrow> bool" where
  "eh_frame_at t eh k caf daf ra cis off start len fis \<longleftrightarrow>
     (let q = eh + k; p = q + 4 - word_of_nat off in
      eh \<noteq> 0 \<and> k \<noteq> 0 \<and> unat eh + unat k < 2 ^ 64 \<and>
      at_cursor t q (fde_bytes off start len (cfis_bytes fis)) \<and>
      at_cursor t p (cie_bytes caf daf ra 0x10 (cfis_bytes cis)) \<and> p \<noteq> 0 \<and>
      caf < 2 ^ 31 \<and> - (2 ^ 27) \<le> daf \<and> daf < 2 ^ 31 \<and>
      length (cie_body caf daf ra 0x10 (cfis_bytes cis)) < 2 ^ 32 - 1 \<and>
      0 < off \<and> off < 2 ^ 32 \<and> off \<le> unat q + 4 \<and> length (cfis_bytes fis) + 21 < 2 ^ 32 - 1 \<and>
      start + (q + 8) \<noteq> CLS_INVALID_ADDRESS \<and> len \<noteq> CLS_INVALID_ADDRESS \<and>
      list_all wf_cfi cis \<and> list_all wf_cfi fis)"

definition frame_rec :: "u64 \<Rightarrow> nat \<Rightarrow> int \<Rightarrow> byte \<Rightarrow> cfi list \<Rightarrow> nat \<Rightarrow> u64 \<Rightarrow> u64 \<Rightarrow> cfi list \<Rightarrow> cfi_record" where
  "frame_rec q caf daf ra cis off start len fis =
     \<lparr>cfi_cie = parsed_cie (q + 4 - word_of_nat off) caf daf ra 0x10 (cfis_bytes cis),
      cfi_fde = parsed_fde q off start len (cfis_bytes fis)\<rparr>"

lemma eh_frame_parse:
  assumes "eh_frame_at t eh k caf daf ra cis off start len fis"
  shows "FIRCLSDwarfParseCFIFromFDERecordOffset t rec eh k =
    Some (True, frame_rec (eh + k) caf daf ra cis off start len fis)"
proof -
  have e: "eh \<noteq> 0" "k \<noteq> 0" "ptr_add eh (unat k) = Some (eh + k)"
    using assms by (simp_all add: eh_frame_at_def Let_def ptr_add_def)
  have "unat (eh + k) = unat eh + unat k"
    using unat_ptr_add [OF e(3)] .
  moreover have "0 < unat eh" using e(1) by (simp add: unat_gt_0)
  ultimately have q: "eh + k \<noteq> 0" by auto
  have "FIRCLSDwarfParseCFIFromFDERecord t rec (eh + k) =
      Some (True, frame_rec (eh + k) caf daf ra cis off start len fis)"
    unfolding frame_rec_def
    by (rule parse_fde_aux) (use assms q in \<open>simp_all add: eh_frame_at_def Let_def\<close>)
  then show ?thesis using e by (simp add: FIRCLSDwarfParseCFIFromFDERecordOffset_def)
qed

lemma eh_frame_encodes:
  assumes "eh_frame_at t eh k caf daf ra cis off start len fis"
  shows "encodes t (cie_instructions (cfi_cie (frame_rec (eh + k) caf daf ra cis off start len fis))) cis"
    "encodes t (fde_instructions (cfi_fde (frame_rec (eh + k) caf daf ra cis off start len fis))) fis"
proof -
  define q where "q = eh + k"
  define p where "p = q + 4 - word_of_nat off"
  define n where "n = length (cie_body caf daf ra 0x10 (cfis_bytes cis))"
  obtain pre where pre: "cie_body caf daf ra 0x10 (cfis_bytes cis) = pre @ cfis_bytes cis"
    unfolding cie_body_def by (metis append.assoc)
  have np: "n = length pre + length (cfis_bytes cis)" by (simp add: n_def pre)
  have c: "at_cursor t p ((le_bytes 4 n @ pre) @ cfis_bytes cis)" "n < 2 ^ 32" "list_all wf_cfi cis"
    using assms by (simp_all add: eh_frame_at_def Let_def cie_bytes_def p_def q_def pre n_def)
  have "at_cursor t (p + 4 + word_of_nat (n - length (cfis_bytes cis))) (cfis_bytes cis)"
    using at_cursor_append(1) [OF c(1)] by (simp add: np add.assoc)
  then show "encodes t (cie_instructions (cfi_cie (frame_rec (eh + k) caf daf ra cis off start len fis))) cis"
    using c(2,3) np by (simp add: encodes_def frame_rec_def parsed_cie_def Let_def at_cursor_def unat_of_nat
        flip: n_def q_def p_def)
  obtain pre' where pre': "fde_bytes off start len (cfis_bytes fis) = pre' @ cfis_bytes fis" "length pre' = 25"
  proof
    show "fde_bytes off start len (cfis_bytes fis) =
      (le_bytes 4 (length (fde_body off start len (cfis_bytes fis))) @ le_bytes 4 off @
       le_bytes 8 (unat start) @ le_bytes 8 (unat len) @ [0]) @ cfis_bytes fis"
      by (simp add: fde_bytes_def fde_body_def uleb_encode.simps)
  qed simp
  have f: "at_cursor t q (pre' @ cfis_bytes fis)" "length (cfis_bytes fis) < 2 ^ 32" "list_all wf_cfi fis"
    using assms by (simp_all add: eh_frame_at_def Let_def q_def flip: pre')
  have "at_cursor t (q + 25) (cfis_bytes fis)"
    using at_cursor_append(1) [OF f(1)] by (simp add: pre')
  then show "encodes t (fde_instructions (cfi_fde (frame_rec (eh + k) caf daf ra cis off start len fis))) fis"
    using f(2,3) by (simp add: encodes_def frame_rec_def parsed_fde_def at_cursor_def unat_of_nat flip: q_def)
qed

context thread_arch begin

lemma dwarf_frame_row:
  assumes "eh_frame_at t (ehFrame context) k caf daf ra cis off start len fis"
    and "rec = frame_rec (ehFrame context + k) caf daf ra cis off start len fis"
    and "pcoff = GET_IP_REGISTER A regs - startAddress (cfi_fde rec)" "\<not> pcoff <s 0"
    and "factor = unat (codeAlignFactor (cfi_cie rec))" "conforms factor cis fis" "looked_up factor fis pcoff L"
    and "std_table_row A rec cis fis L = Some w" "std_cfa_value A t regs w = Some (Some cfa)"
    and "\<forall>n \<le> unat (CLS_DWARF_MAX_REGISTER_NUM A). rule_value A t regs cfa (std_rules w n) \<noteq> None"
  shows "\<exists>new.
    (\<forall>m \<le> CLS_DWARF_MAX_REGISTER_NUM A.
       FIRCLSDwarfUnwindGetRegisterValue A new m = caller_value A t regs cfa (std_rules w) strip m) \<and>
    FIRCLSCompactUnwindDwarfFrame A t context k regs =
      Some (if FIRCLSDwarfCompareRegisters A regs new (CLS_DWARF_REG_SP A) \<or>
               FIRCLSDwarfCompareRegisters A regs new (CLS_DWARF_REG_RETURN A)
            then (False, regs) else (True, new))"
  using compute_registers_std [OF eh_frame_encodes [OF assms(1), folded assms(2)] assms(3-10)]
  by (auto simp: FIRCLSCompactUnwindDwarfFrame_def eh_frame_parse [OF assms(1), folded assms(2)])

end

text \<open>C6. From the bytes of \<open>.eh_frame\<close> to the caller's registers: on x86-64 the DWARF fallback parses the frame
  description at the given offset, runs its programs and leaves the registers of the row of the DWARF standard for
  the location before the program counter, or for the program counter if no row starts there; or it leaves the registers
  alone and fails when the stack pointer or the program counter would not change.  The programs are those on which
  the code follows the standard.\<close>

theorem dwarf_frame_x86:
  assumes "eh_frame_at t (ehFrame context) k caf daf ra cis off start len fis"
    and "rec = frame_rec (ehFrame context + k) caf daf ra cis off start len fis"
    and "pcoff = ss_rip regs - startAddress (cfi_fde rec)" "\<not> pcoff <s 0"
    and "factor = unat (codeAlignFactor (cfi_cie rec))" "conforms factor cis fis" "looked_up factor fis pcoff L"
    and "std_table_row x86_64 rec cis fis L = Some w" "std_cfa_value x86_64 t regs w = Some (Some cfa)"
    and "\<forall>n \<le> 16. rule_value x86_64 t regs cfa (std_rules w n) \<noteq> None"
  shows "\<exists>new.
    (\<forall>m \<le> 16. x86_GetRegisterValue new m = caller_value x86_64 t regs cfa (std_rules w) (\<lambda>n v. v) m) \<and>
    FIRCLSCompactUnwindDwarfFrame x86_64 t context k regs =
      Some (if ss_rsp new = ss_rsp regs \<or> ss_rip new = ss_rip regs then (False, regs) else (True, new))"
proof -
  have eq: "GET_IP_REGISTER x86_64 = ss_rip" "CLS_DWARF_MAX_REGISTER_NUM x86_64 = 16"
    "FIRCLSDwarfUnwindGetRegisterValue x86_64 = x86_GetRegisterValue"
    by (simp_all add: x86_64_def)
  show ?thesis
    using x86.dwarf_frame_row [OF assms(1,2) _ assms(4-9)] assms(3,10)
    unfolding eq x86_compare by simp
qed

definition eh_context :: compact_context where
  "eh_context = zero_context\<lparr>ehFrame := 4096\<rparr>"

lemma dwarf_frame_x86_witness:
  "\<exists>new. FIRCLSCompactUnwindDwarfFrame x86_64 eh_task eh_context 22
      (x86_zero\<lparr>ss_rip := 0x5004, ss_rsp := 4160\<rparr>) = Some (True, new) \<and> ss_rsp new = 4176"
proof -
  define regs where "regs = x86_zero\<lparr>ss_rip := 0x5004, ss_rsp := 4160\<rparr>"
  define rec where "rec = frame_rec (4096 + 22) 1 (- 8) 16 frame_cie 26 (0x5000 - 4126) 64 frame_fde"
  have eh: "eh_frame_at eh_task 4096 22 1 (- 8) 16 frame_cie 26 (0x5000 - 4126) 64 frame_fde"
    using eh_layout eh_lengths(3)
    by (simp add: eh_frame_at_def eh_cie_def eh_fde_def CLS_INVALID_ADDRESS_def frame_bytes)
      (simp add: frame_cie_def frame_fde_def)
  have ctx: "ehFrame eh_context = 4096" by (simp add: eh_context_def)
  have eh': "eh_frame_at eh_task (ehFrame eh_context) 22 1 (- 8) 16 frame_cie 26 (0x5000 - 4126) 64 frame_fde"
    and rec': "rec = frame_rec (ehFrame eh_context + 22) 1 (- 8) 16 frame_cie 26 (0x5000 - 4126) 64 frame_fde"
    using eh rec_def by (simp_all only: ctx)
  have off: "4 = ss_rip regs - startAddress (cfi_fde rec)" "\<not> (4::u64) <s 0"
    by (simp_all add: regs_def rec_def frame_rec_def parsed_fde_def word_sless_alt)
  have tr: "std_table_row x86_64 rec frame_cie frame_fde 4 = Some frame_row"
    by (simp add: std_table_row_def x86_64_def rec_def frame_rec_def parsed_cie_def parsed_fde_def Let_def
        frame_cie_def frame_fde_def std_empty_def frame_row_def zero_cie_def set_cfa_def set_rule_def)
  have factor: "1 = unat (codeAlignFactor (cfi_cie rec))"
    by (simp add: rec_def frame_rec_def parsed_cie_def Let_def)
  have cfa: "std_cfa_value x86_64 eh_task regs frame_row = Some (Some 4176)"
    by (simp add: std_cfa_value_def frame_row_def x86_64_def x86_GetRegisterValue_def regs_def)
  obtain new where new:
    "\<forall>m \<le> 16. x86_GetRegisterValue new m = caller_value x86_64 eh_task regs 4176 (std_rules frame_row) (\<lambda>n v. v) m"
    "FIRCLSCompactUnwindDwarfFrame x86_64 eh_task eh_context 22 regs =
      Some (if ss_rsp new = ss_rsp regs \<or> ss_rip new = ss_rip regs then (False, regs) else (True, new))"
    using dwarf_frame_x86 [OF eh' rec' off factor frame_conforms tr cfa frame_rules_value] by blast
  have "holds eh_task 4160 frame_stack"
    using holds_block_infix [of "eh_cie @ eh_fde @ replicate 12 0" frame_stack "[]" 4096]
    by (simp add: eh_mem_def eh_lengths frame_stack_def)
  then have "holds eh_task (4160 + 8) [0x22, 0x22, 0, 0, 0, 0, 0, 0]"
    unfolding frame_stack_def by (simp only: holds_append) simp
  then have "FIRCLSReadMemory eh_task 4168 8 = Some [0x22, 0x22, 0, 0, 0, 0, 0, 0]"
    by (simp add: flat.read_memory_holds FIRCLSIsValidPointer_def)
  then have rd: "read_word eh_task 4168 = 0x2222" by (simp add: read_word_def le_word_def)
  have "ss_rip new = x86_GetRegisterValue new 16" "ss_rsp new = x86_GetRegisterValue new 7"
    by (simp_all add: x86_GetRegisterValue_def)
  moreover have "x86_GetRegisterValue new 16 = 0x2222" "x86_GetRegisterValue new 7 = 4176"
    using new(1) by (simp_all add: caller_value_def x86_64_def frame_row_def rd)
  ultimately show ?thesis using new(2) by (simp add: regs_def x86_zero_def)
qed

end
