(* ===== verification/Binary_Images.thy ===== *)
theory Binary_Images
  imports Task_Memory
begin

text \<open>
  The images the crash handler knows of: the lookup of \<open>FIRCLSBinaryImage.m\<close> over the table of
  the global context, and the scan of the stack for the first address inside an image
  (\<open>FIRCLSUnwind.c\<close>).  The table is the field \<open>nodes\<close>, \<^term>\<open>None\<close> while the pointer to it is
  \<open>NULL\<close>; the pointers to its 512 entries are valid.
\<close>

record image_node =
  baseAddress :: u64
  image_size :: u64
  image_ehFrame :: u64
  image_unwindInfo :: u64
  image_crashInfo :: u64

record images =
  context_initialized :: bool
  nodes :: "image_node list option"

text \<open>The \<open>for\<close> loop; the end of an image is computed with wrap-around.\<close>

fun find_node :: "u64 \<Rightarrow> image_node list \<Rightarrow> image_node option" where
  "find_node address [] = None"
| "find_node address (node # ns) =
     (if address \<ge> baseAddress node \<and> address < baseAddress node + image_size node then Some node
      else find_node address ns)"

definition FIRCLSBinaryImageSafeFindImageForAddress :: "images \<Rightarrow> u64 \<Rightarrow> image_node option" where
  "FIRCLSBinaryImageSafeFindImageForAddress env address =
     (if \<not> context_initialized env then None
      else if address = 0 then None
      else case nodes env of None \<Rightarrow> None | Some ns \<Rightarrow> find_node address ns)"

definition FIRCLSBinaryImageSafeHasUnwindInfo :: "image_node \<Rightarrow> bool" where
  "FIRCLSBinaryImageSafeHasUnwindInfo node = FIRCLSIsValidPointer (image_unwindInfo node)"

definition FIRCLSUnwindIsAddressExecutable :: "images \<Rightarrow> u64 \<Rightarrow> bool" where
  "FIRCLSUnwindIsAddressExecutable env address =
     (FIRCLSBinaryImageSafeFindImageForAddress env address \<noteq> None)"

text \<open>The stack scan.  The argument of the debug message loads \<open>*start\<close> before the pointer is
  checked, so an unmapped address faults.  The result is \<^term>\<open>Some None\<close> for \<open>false\<close> and the
  found address otherwise; the loop ends because the caller's range does.\<close>

partial_function (option) FIRCLSUnwindFirstExecutableAddress ::
    "task \<Rightarrow> images \<Rightarrow> u64 \<Rightarrow> u64 \<Rightarrow> u64 option option" where
  [code]: "FIRCLSUnwindFirstExecutableAddress t env start end' =
     Option.bind (load_bytes t start 8) (\<lambda>logged.
       if FIRCLSIsValidPointer start then
         (case FIRCLSReadMemory t start 8 of
            None \<Rightarrow> Some None
          | Some bs \<Rightarrow>
              if FIRCLSUnwindIsAddressExecutable env (le_word bs) then Some (Some (le_word bs))
              else if start + 8 < end' then FIRCLSUnwindFirstExecutableAddress t env (start + 8) end'
              else Some None)
       else if start + 8 < end' then FIRCLSUnwindFirstExecutableAddress t env (start + 8) end'
       else Some None)"

section \<open>Looking an address up\<close>

lemma find_node_Some:
  "find_node a ns = Some n \<Longrightarrow> n \<in> set ns \<and> baseAddress n \<le> a \<and> a < baseAddress n + image_size n"
  by (induction ns) (auto split: if_split_asm)

lemma find_node_None:
  "find_node a ns = None \<longleftrightarrow> (\<forall>n \<in> set ns. \<not> (baseAddress n \<le> a \<and> a < baseAddress n + image_size n))"
  by (induction ns) auto

text \<open>With images that do not overlap the one that is found is the one that holds the address.\<close>

definition image_range :: "image_node \<Rightarrow> u64 set" where
  "image_range n = {a. baseAddress n \<le> a \<and> a < baseAddress n + image_size n}"

lemma find_node_unique:
  assumes "\<forall>m \<in> set ns. \<forall>n \<in> set ns. m \<noteq> n \<longrightarrow> image_range m \<inter> image_range n = {}"
    and "n \<in> set ns" "a \<in> image_range n"
  shows "find_node a ns = Some n"
proof (cases "find_node a ns")
  case None
  then show ?thesis using assms(2,3) by (auto simp: find_node_None image_range_def)
next
  case (Some m)
  then have "m \<in> set ns" "a \<in> image_range m" using find_node_Some by (auto simp: image_range_def)
  then show ?thesis using assms Some by (metis IntI empty_iff)
qed

section \<open>The scan\<close>

text \<open>The words of the stack from an address on.\<close>

definition stack_word :: "task \<Rightarrow> u64 \<Rightarrow> u64 option" where
  "stack_word t a = map_option le_word (load_bytes t a 8)"

context task_memory begin

lemma scan_step:
  assumes "FIRCLSIsValidPointer a" "load_bytes t a 8 = Some bs"
  shows "FIRCLSUnwindFirstExecutableAddress t env a e =
     (if FIRCLSUnwindIsAddressExecutable env (le_word bs) then Some (Some (le_word bs))
      else if a + 8 < e then FIRCLSUnwindFirstExecutableAddress t env (a + 8) e
      else Some None)"
  using assms by (subst FIRCLSUnwindFirstExecutableAddress.simps)
    (simp add: FIRCLSReadMemory_def vm_read_load)

text \<open>The scan of \<open>n\<close> words of a readable stack returns the first that lies in an image.\<close>

lemma scan_words:
  assumes "FIRCLSIsValidPointer a" "ws \<noteq> []" "unat a + 8 * length ws < 2 ^ 64"
    and "\<forall>i < length ws. stack_word t (a + word_of_nat (8 * i)) = Some (ws ! i)"
    and "e = a + word_of_nat (8 * length ws)"
  shows "FIRCLSUnwindFirstExecutableAddress t env a e =
    Some (List.find (FIRCLSUnwindIsAddressExecutable env) ws)"
  using assms
proof (induction ws arbitrary: a)
  case (Cons w ws)
  obtain bs where bs: "load_bytes t a 8 = Some bs" "le_word bs = w"
    using Cons.prems(4) by (auto simp: stack_word_def dest: spec [of _ 0])
  have ua: "unat (a + 8) = unat a + 8"
    using Cons.prems(3) by (simp add: unat_word_ariths)
  have ue: "unat e = unat a + 8 * length (w # ws)"
    unfolding Cons.prems(5) using Cons.prems(3) by (simp only: unat_word_ariths unat_of_nat) simp
  note step = scan_step [OF Cons.prems(1) bs(1), of env e, unfolded bs(2)]
  show ?case
  proof (cases "ws = []")
    case True
    then have "\<not> a + 8 < e" using ua ue by (simp add: word_less_nat_alt)
    then show ?thesis using True by (simp add: step)
  next
    case False
    then have lt: "a + 8 < e" using ua ue by (simp add: word_less_nat_alt)
    have "FIRCLSUnwindFirstExecutableAddress t env (a + 8) e =
        Some (List.find (FIRCLSUnwindIsAddressExecutable env) ws)"
    proof (rule Cons.IH [OF _ False])
      show "FIRCLSIsValidPointer (a + 8)"
        using Cons.prems(1) ua by (simp add: FIRCLSIsValidPointer_def word_le_nat_alt)
      show "unat (a + 8) + 8 * length ws < 2 ^ 64" using Cons.prems(3) ua by simp
      show "\<forall>i < length ws. stack_word t (a + 8 + word_of_nat (8 * i)) = Some (ws ! i)"
        using Cons.prems(4) by (auto simp: algebra_simps dest: spec [of _ "Suc _"])
      show "e = a + 8 + word_of_nat (8 * length ws)" using Cons.prems(5) by (simp add: algebra_simps)
    qed
    then show ?thesis using lt by (simp add: step)
  qed
qed simp

end

section \<open>A stack of words\<close>

text \<open>The bytes of a list of words, for the witnesses.\<close>

definition words_mem :: "u64 list \<Rightarrow> byte list" where
  "words_mem ws = concat (map (\<lambda>w. le_bytes 8 (unat w)) ws)"

lemma length_words_mem [simp]: "length (words_mem ws) = 8 * length ws"
  by (induction ws) (auto simp: words_mem_def)

lemma nth_words_mem: "i < length ws \<Longrightarrow> take 8 (drop (8 * i) (words_mem ws)) = le_bytes 8 (unat (ws ! i))"
proof (induction ws arbitrary: i)
  case (Cons w ws)
  then show ?case by (cases i) (auto simp: words_mem_def)
qed simp

lemma stack_word_block:
  assumes "i < length ws" "8 * length ws \<le> 2 ^ 64"
  shows "stack_word (flat_task (block p (words_mem ws))) (p + word_of_nat (8 * i)) = Some (ws ! i)"
  using load_block [of "words_mem ws" "8 * i" 8 p] nth_words_mem [OF assms(1)] assms
  by (simp add: stack_word_def le_word_le_bytes64)

end
