(* ===== verification/Unwind_X86.thy ===== *)
theory Unwind_X86
  imports Compact_Unwind Binary_Images
begin

text \<open>
  Unwinding one frame on x86-64 without DWARF: \<open>FIRCLSUnwind_x86.c\<close>.  The masks and constants of
  \<open>mach-o/compact_unwind_encodingoding.h\<close> are not part of the repository; they are the record
  \<open>x86_encoding\<close>, with the published values in \<open>apple_x86\<close>.
\<close>

record x86_encoding =
  CLS_X86_MODE_MASK :: u32
  CLS_X86_MODE_BP_FRAME :: u32
  CLS_X86_MODE_STACK_IMMD :: u32
  CLS_X86_MODE_STACK_IND :: u32
  CLS_X86_MODE_DWARF :: u32
  CLS_X86_FRAMELESS_STACK_SIZE :: u32
  CLS_X86_FRAMELESS_STACK_ADJUST :: u32
  CLS_X86_FRAMELESS_STACK_REG_COUNT :: u32
  CLS_X86_FRAMELESS_STACK_REG_PERMUTATION :: u32
  CLS_X86_DWARF_SECTION_OFFSET :: u32
  CLS_X86_REG_RBP :: u64

definition apple_x86 :: x86_encoding where
  "apple_x86 = \<lparr>
     CLS_X86_MODE_MASK = 0x0F000000,
     CLS_X86_MODE_BP_FRAME = 0x01000000,
     CLS_X86_MODE_STACK_IMMD = 0x02000000,
     CLS_X86_MODE_STACK_IND = 0x03000000,
     CLS_X86_MODE_DWARF = 0x04000000,
     CLS_X86_FRAMELESS_STACK_SIZE = 0x00FF0000,
     CLS_X86_FRAMELESS_STACK_ADJUST = 0x0000E000,
     CLS_X86_FRAMELESS_STACK_REG_COUNT = 0x00001C00,
     CLS_X86_FRAMELESS_STACK_REG_PERMUTATION = 0x000003FF,
     CLS_X86_DWARF_SECTION_OFFSET = 0x00FFFFFF,
     CLS_X86_REG_RBP = 6\<rparr>"

text \<open>\<open>__builtin_ctz\<close> and the macro of \<open>FIRCLSCompactUnwind.h\<close>.\<close>

definition ctz :: "u32 \<Rightarrow> nat" where
  "ctz msk = length (takeWhile (\<lambda>i. \<not> bit msk i) [0..<32])"

definition GET_BITS_WITH_MASK :: "u32 \<Rightarrow> u32 \<Rightarrow> u32" where
  "GET_BITS_WITH_MASK v msk = drop_bit (if msk = 0 then 0 else ctz msk) (v AND msk)"

section \<open>The frame pointer chain\<close>

definition FIRCLSUnwindStackPointerFromFramePointer :: "u64 \<Rightarrow> u64" where
  "FIRCLSUnwindStackPointerFromFramePointer framePtr = framePtr + 2 * 8"

text \<open>The encoding argument of \<open>FIRCLSCompactUnwindBPFrame\<close> is not used by the code.\<close>

definition FIRCLSCompactUnwindBPFrame :: "task \<Rightarrow> x86_thread \<Rightarrow> bool \<times> x86_thread" where
  "FIRCLSCompactUnwindBPFrame t registers =
     (let framePointer = FIRCLSThreadContextGetFramePointer x86_64 registers in
      case FIRCLSReadMemory t framePointer 16 of
        None \<Rightarrow> (False, registers)
      | Some stack \<Rightarrow>
          let registers = FIRCLSThreadContextSetPC x86_64 registers (le_word (drop 8 stack));
              registers = FIRCLSThreadContextSetFramePointer x86_64 registers (le_word (take 8 stack))
          in (True, FIRCLSThreadContextSetStackPointer x86_64 registers
                (FIRCLSUnwindStackPointerFromFramePointer framePointer)))"

definition FIRCLSUnwindWithStackScanning ::
    "task \<Rightarrow> images \<Rightarrow> x86_thread \<Rightarrow> (bool \<times> x86_thread) option" where
  "FIRCLSUnwindWithStackScanning t env registers = do {
     found \<leftarrow> FIRCLSUnwindFirstExecutableAddress t env
       (FIRCLSThreadContextGetStackPointer x86_64 registers)
       (FIRCLSThreadContextGetFramePointer x86_64 registers);
     Some (case found of
         None \<Rightarrow> (False, registers)
       | Some newPC \<Rightarrow> (True, FIRCLSThreadContextSetPC x86_64 registers newPC)) }"

definition x86_WithFramePointer ::
    "task \<Rightarrow> images \<Rightarrow> x86_thread \<Rightarrow> bool \<Rightarrow> (bool \<times> x86_thread) option" where
  "x86_WithFramePointer t env registers allowScanning = do {
     (ok, registers) \<leftarrow> (if allowScanning then FIRCLSUnwindWithStackScanning t env registers
                          else Some (False, registers));
     if ok then Some (True, registers)
     else Some (FIRCLSCompactUnwindBPFrame t registers) }"

section \<open>Frameless functions\<close>

text \<open>\<open>uint32_t\<close> results of 64-bit products: the truncation is the 32-bit product.\<close>

definition FIRCLSCompactUnwindComputeStackSize ::
    "x86_encoding \<Rightarrow> task \<Rightarrow> u32 \<Rightarrow> u64 \<Rightarrow> bool \<Rightarrow> u32 option" where
  "FIRCLSCompactUnwindComputeStackSize X t enc fstart indirect =
     (let stackSizeEncoded = GET_BITS_WITH_MASK enc (CLS_X86_FRAMELESS_STACK_SIZE X) in
      if \<not> indirect then Some (stackSizeEncoded * 8)
      else case FIRCLSReadMemory t (fstart + ucast stackSizeEncoded) 4 of
        None \<Rightarrow> None
      | Some sublValue \<Rightarrow>
          let stackAdjust = GET_BITS_WITH_MASK enc (CLS_X86_FRAMELESS_STACK_ADJUST X)
          in Some (le_word sublValue + stackAdjust * 8))"

text \<open>The digits of the permutation number are written over the array that is passed in.\<close>

definition FIRCLSCompactUnwindDecompressPermutation ::
    "x86_encoding \<Rightarrow> u32 \<Rightarrow> u64 list \<Rightarrow> u64 list option" where
  "FIRCLSCompactUnwindDecompressPermutation X enc regs =
     (let regCount = GET_BITS_WITH_MASK enc (CLS_X86_FRAMELESS_STACK_REG_COUNT X);
          p0 = GET_BITS_WITH_MASK enc (CLS_X86_FRAMELESS_STACK_REG_PERMUTATION X) in
      if regCount = 6 then
        (let p1 = p0 - (p0 div 120) * 120; p2 = p1 - (p1 div 24) * 24;
             p3 = p2 - (p2 div 6) * 6; p4 = p3 - (p3 div 2) * 2
         in Some (regs[0 := ucast (p0 div 120), 1 := ucast (p1 div 24), 2 := ucast (p2 div 6),
              3 := ucast (p3 div 2), 4 := ucast p4, 5 := 0]))
      else if regCount = 5 then
        (let p1 = p0 - (p0 div 120) * 120; p2 = p1 - (p1 div 24) * 24;
             p3 = p2 - (p2 div 6) * 6; p4 = p3 - (p3 div 2) * 2
         in Some (regs[0 := ucast (p0 div 120), 1 := ucast (p1 div 24), 2 := ucast (p2 div 6),
              3 := ucast (p3 div 2), 4 := ucast p4]))
      else if regCount = 4 then
        (let p1 = p0 - (p0 div 60) * 60; p2 = p1 - (p1 div 12) * 12; p3 = p2 - (p2 div 3) * 3
         in Some (regs[0 := ucast (p0 div 60), 1 := ucast (p1 div 12), 2 := ucast (p2 div 3),
              3 := ucast p3]))
      else if regCount = 3 then
        (let p1 = p0 - (p0 div 20) * 20; p2 = p1 - (p1 div 4) * 4
         in Some (regs[0 := ucast (p0 div 20), 1 := ucast (p1 div 4), 2 := ucast p2]))
      else if regCount = 2 then
        (let p1 = p0 - (p0 div 5) * 5
         in Some (regs[0 := ucast (p0 div 5), 1 := ucast p1]))
      else if regCount = 1 then Some (regs[0 := ucast p0])
      else if regCount = 0 then Some regs
      else None)"

text \<open>The inner loop of the renumbering: the unused register with \<open>target\<close> unused ones before it.\<close>

fun renumber :: "bool list \<Rightarrow> u64 \<Rightarrow> u64 \<Rightarrow> nat list \<Rightarrow> nat option" where
  "renumber used target renum [] = None"
| "renumber used target renum (u # us) =
     (if \<not> used ! u then (if renum = target then Some u else renumber used target (renum + 1) us)
      else renumber used target renum us)"

text \<open>The outer loop: \<open>k\<close> registers to go, the next index and the two arrays.\<close>

fun remap_loop :: "u64 list \<Rightarrow> nat \<Rightarrow> nat \<Rightarrow> bool list \<Rightarrow> u64 list \<Rightarrow> u64 list" where
  "remap_loop permutated 0 i used saved = saved"
| "remap_loop permutated (Suc k) i used saved =
     (case renumber used (permutated ! i) 0 [1..<7] of
        None \<Rightarrow> remap_loop permutated k (i + 1) used saved
      | Some u \<Rightarrow> remap_loop permutated k (i + 1) (used[u := True]) (saved[i := word_of_nat u]))"

definition FIRCLSCompactUnwindRemapRegisters ::
    "x86_encoding \<Rightarrow> u32 \<Rightarrow> u64 list \<Rightarrow> u64 list \<Rightarrow> u64 list option" where
  "FIRCLSCompactUnwindRemapRegisters X enc permutated saved =
     (let regCount = GET_BITS_WITH_MASK enc (CLS_X86_FRAMELESS_STACK_REG_COUNT X) in
      if regCount > 6 then None
      else Some (remap_loop permutated (unat regCount) 0 (replicate 7 False) saved))"

text \<open>The loop over the saved registers: only the frame pointer is restored.\<close>

fun restore_loop ::
    "x86_encoding \<Rightarrow> task \<Rightarrow> u64 list \<Rightarrow> x86_thread \<Rightarrow> u64 \<Rightarrow> bool \<times> x86_thread \<times> u64" where
  "restore_loop X t [] registers address = (True, registers, address)"
| "restore_loop X t (reg # regs) registers address =
     (if reg = CLS_X86_REG_RBP X then
        (case FIRCLSReadMemory t address 8 of
           None \<Rightarrow> (False, registers, address)
         | Some v \<Rightarrow> restore_loop X t regs
             (FIRCLSThreadContextSetFramePointer x86_64 registers (le_word v)) (address + 8))
      else restore_loop X t regs registers (address + 8))"

definition FIRCLSCompactUnwindRestoreRegisters ::
    "x86_encoding \<Rightarrow> task \<Rightarrow> u32 \<Rightarrow> x86_thread \<Rightarrow> u32 \<Rightarrow> u64 list \<Rightarrow>
     (bool \<times> x86_thread \<times> u64) option" where
  "FIRCLSCompactUnwindRestoreRegisters X t enc registers stackSize saved =
     (let regCount = GET_BITS_WITH_MASK enc (CLS_X86_FRAMELESS_STACK_REG_COUNT X);
          address = FIRCLSThreadContextGetStackPointer x86_64 registers + ucast stackSize - 8
            - 8 * ucast regCount in
      if unat regCount > length saved then None
      else Some (restore_loop X t (take (unat regCount) saved) registers address))"

definition FIRCLSCompactUnwindFrameless ::
    "x86_encoding \<Rightarrow> task \<Rightarrow> u32 \<Rightarrow> x86_thread \<Rightarrow> u64 \<Rightarrow> bool \<Rightarrow> (bool \<times> x86_thread) option" where
  "FIRCLSCompactUnwindFrameless X t enc registers fstart indirect =
     (case FIRCLSCompactUnwindComputeStackSize X t enc fstart indirect of
        None \<Rightarrow> Some (False, registers)
      | Some stackSize \<Rightarrow>
     (case FIRCLSCompactUnwindDecompressPermutation X enc (replicate 6 0) of
        None \<Rightarrow> Some (False, registers)
      | Some permutated \<Rightarrow>
     (case FIRCLSCompactUnwindRemapRegisters X enc permutated (replicate 6 0) of
        None \<Rightarrow> Some (False, registers)
      | Some saved \<Rightarrow> do {
          (ok, registers, address) \<leftarrow>
            FIRCLSCompactUnwindRestoreRegisters X t enc registers stackSize saved;
          if \<not> ok then Some (False, registers)
          else case FIRCLSReadMemory t address 8 of
            None \<Rightarrow> Some (False, registers)
          | Some bs \<Rightarrow>
              let v = le_word bs in
              if \<not> FIRCLSIsValidPointer v then Some (False, registers)
              else Some (True, FIRCLSThreadContextSetStackPointer x86_64
                (FIRCLSThreadContextSetPC x86_64 registers v) (address + 8)) })))"

text \<open>The dispatch on the mode of an encoding.\<close>

definition x86_ComputeRegisters ::
    "x86_encoding \<Rightarrow> task \<Rightarrow> compact_context \<Rightarrow> compact_result \<Rightarrow> x86_thread \<Rightarrow>
     (bool \<times> x86_thread) option" where
  "x86_ComputeRegisters X t context result registers =
     (let mode = encoding result AND CLS_X86_MODE_MASK X in
      if mode = CLS_X86_MODE_BP_FRAME X then Some (FIRCLSCompactUnwindBPFrame t registers)
      else if mode = CLS_X86_MODE_STACK_IMMD X then
        FIRCLSCompactUnwindFrameless X t (encoding result) registers (functionStart result) False
      else if mode = CLS_X86_MODE_STACK_IND X then
        FIRCLSCompactUnwindFrameless X t (encoding result) registers (functionStart result) True
      else if mode = CLS_X86_MODE_DWARF X then
        FIRCLSCompactUnwindDwarfFrame x86_64 t context
          (ucast (encoding result AND CLS_X86_DWARF_SECTION_OFFSET X)) registers
      else Some (False, registers))"

section \<open>The register permutation\<close>

text \<open>What an encoding describes: the sequence of saved registers, numbered 1 to 6, each at most
  once.  The encoder turns it into digits, each the rank of the register among those not yet listed,
  and packs the digits into one number with the weights of the sequence's length.\<close>

definition saved_sequence :: "nat list \<Rightarrow> bool" where
  "saved_sequence rs \<longleftrightarrow> distinct rs \<and> set rs \<subseteq> {1..<7}"

fun rank_digits :: "nat list \<Rightarrow> nat list \<Rightarrow> nat list" where
  "rank_digits seen [] = []"
| "rank_digits seen (r # rs) =
     length (filter (\<lambda>u. u \<notin> set seen) [1..<r]) # rank_digits (r # seen) rs"

definition weights :: "nat \<Rightarrow> nat list" where
  "weights n = (if n = 4 then [60, 12, 3, 1] else if n = 3 then [20, 4, 1] else if n = 2 then [5, 1]
     else if n = 1 then [1] else [120, 24, 6, 2, 1, 0])"

definition permutation_code :: "nat list \<Rightarrow> nat" where
  "permutation_code rs = sum_list (map2 (*) (weights (length rs)) (rank_digits [] rs))"

lemma length_rank_digits [simp]: "length (rank_digits seen rs) = length rs"
  by (induction rs arbitrary: seen) auto

lemma rank_less:
  assumes "distinct (r # seen)" "set (r # seen) \<subseteq> {1..<7}"
  shows "length (filter (\<lambda>u. u \<notin> set seen) [1..<r]) + length seen < 6"
proof -
  let ?f = "filter (\<lambda>u. u \<notin> set seen) [1..<r]"
  have "distinct (?f @ r # seen)" using assms(1) by auto
  then have "length (?f @ r # seen) = card (set (?f @ r # seen))"
    by (rule distinct_card [symmetric])
  also have "\<dots> \<le> card {1..<7::nat}" using assms(2) by (intro card_mono) auto
  finally show ?thesis by simp
qed

lemma rank_digits_bound:
  assumes "distinct (rs @ seen)" "set (rs @ seen) \<subseteq> {1..<7}" "i < length rs"
  shows "rank_digits seen rs ! i + length seen + i < 6"
  using assms
proof (induction rs arbitrary: seen i)
  case (Cons r rs)
  show ?case
  proof (cases i)
    case 0
    then show ?thesis using rank_less [of r seen] Cons.prems by simp
  next
    case (Suc j)
    then show ?thesis using Cons.IH [of "r # seen" j] Cons.prems by simp
  qed
qed simp

text \<open>Scanning the registers finds the one with the given rank.\<close>

lemma renumber_finds:
  assumes "x \<in> set us" "distinct us" "\<not> used ! x" "length us < 2 ^ 64"
    and "target = renum + word_of_nat (length (filter (\<lambda>u. \<not> used ! u) (takeWhile (\<lambda>u. u \<noteq> x) us)))"
  shows "renumber used target renum us = Some x"
  using assms
proof (induction us arbitrary: renum)
  case (Cons u us)
  show ?case
  proof (cases "u = x")
    case False
    let ?k = "length (filter (\<lambda>u. \<not> used ! u) (takeWhile (\<lambda>u. u \<noteq> x) us))"
    have "?k \<le> length us" by (meson le_trans length_filter_le length_takeWhile_le)
    then have k: "1 + ?k < 2 ^ 64" using Cons.prems(4) by simp
    have "(1 + word_of_nat ?k :: u64) \<noteq> 0"
    proof
      assume "(1 + word_of_nat ?k :: u64) = 0"
      then have "unat (word_of_nat (1 + ?k) :: u64) = 0" by simp
      then show False using k by (simp add: unat_of_nat del: of_nat_Suc)
    qed
    then have "renum \<noteq> renum + (1 + word_of_nat ?k)" by simp
    then show ?thesis using Cons.IH [of "renum + 1"] Cons.IH [of renum] Cons.prems False
      by (simp add: add.assoc)
  qed (use Cons.prems in simp)
qed simp

lemma takeWhile_upt: "a \<le> x \<Longrightarrow> x < b \<Longrightarrow> takeWhile (\<lambda>u. u \<noteq> x) [a..<b] = [a..<x]"
proof -
  assume le: "a \<le> x" "x < b"
  then have "[a..<b] = [a..<x] @ [x..<b]" by (metis le_add_diff_inverse less_imp_le upt_add_eq_append)
  moreover have "[x..<b] = x # [Suc x..<b]" using le by (simp add: upt_conv_Cons)
  ultimately show ?thesis by (simp add: takeWhile_append)
qed

text \<open>The renumbering loop rebuilds the sequence from its digits.\<close>

lemma remap_loop_ranks:
  assumes "distinct (rs @ seen)" "set (rs @ seen) \<subseteq> {1..<7}" "length used = 7"
    and "\<forall>u < 7. used ! u \<longleftrightarrow> u \<in> set seen"
    and "\<forall>j < length rs. permutated ! (i + j) = word_of_nat (rank_digits seen rs ! j)"
    and "i + length rs \<le> length saved"
  shows "remap_loop permutated (length rs) i used saved =
    take i saved @ map word_of_nat rs @ drop (i + length rs) saved"
  using assms
proof (induction rs arbitrary: seen i used saved)
  case (Cons r rs)
  have r: "1 \<le> r" "r < 7" "r \<notin> set seen" using Cons.prems(1,2) by auto
  have "filter (\<lambda>u. \<not> used ! u) [1..<r] = filter (\<lambda>u. u \<notin> set seen) [1..<r]"
    using Cons.prems(4) r by (intro filter_cong) auto
  then have ren: "renumber used (permutated ! i) 0 [1..<7] = Some r"
    using Cons.prems(4,5) r by (intro renumber_finds) (auto simp: takeWhile_upt dest: spec [of _ 0])
  have tail: "permutated ! (Suc i + j) = word_of_nat (rank_digits (r # seen) rs ! j)"
    if "j < length rs" for j
    using Cons.prems(5) [rule_format, of "Suc j"] that by simp
  have "remap_loop permutated (length rs) (Suc i) (used[r := True]) (saved[i := word_of_nat r]) =
      take (Suc i) (saved[i := word_of_nat r]) @ map word_of_nat rs @
      drop (Suc i + length rs) (saved[i := word_of_nat r])"
    by (rule Cons.IH [of "r # seen"]) (use Cons.prems r tail in \<open>auto simp: nth_list_update\<close>)
  also have "take (Suc i) (saved[i := word_of_nat r]) = take i saved @ [word_of_nat r]"
    using Cons.prems(6) by (simp add: take_Suc_conv_app_nth)
  finally show ?case using ren Cons.prems(6) by simp
qed simp

text \<open>Division with small numbers on 32-bit words.\<close>

lemma word32_digit:
  fixes n m d :: nat
  assumes "n = m * d + r" "r < m" "n < 2 ^ 32" "m < 2 ^ 32"
  shows "(word_of_nat n :: u32) div word_of_nat m = word_of_nat d"
    and "(word_of_nat n :: u32) - word_of_nat d * word_of_nat m = word_of_nat r"
proof -
  have "unat ((word_of_nat n :: u32) div word_of_nat m) = n div m"
    using assms(3,4) by (simp add: unat_div_distrib unat_of_nat)
  also have "n div m = d" using assms(1,2) by simp
  finally have "word_of_nat (unat ((word_of_nat n :: u32) div word_of_nat m)) = (word_of_nat d :: u32)" by simp
  then show "(word_of_nat n :: u32) div word_of_nat m = word_of_nat d" by simp
  show "(word_of_nat n :: u32) - word_of_nat d * word_of_nat m = word_of_nat r"
    by (simp add: assms(1) algebra_simps)
qed

lemma ucast_word32: "n < 2 ^ 32 \<Longrightarrow> (ucast (word_of_nat n :: u32) :: u64) = word_of_nat n"
  by (simp add: word_unat_eq_iff unsigned_ucast_eq unat_of_nat take_bit_nat_eq_self)

lemma saved_sequence_length: "saved_sequence rs \<Longrightarrow> length rs \<le> 6"
proof -
  assume "saved_sequence rs"
  then have "distinct rs" "set rs \<subseteq> {1..<7}" by (simp_all add: saved_sequence_def)
  then have "card (set rs) \<le> card {1..<7::nat}" by (intro card_mono) auto
  with \<open>distinct rs\<close> show ?thesis by (simp add: distinct_card)
qed

lemma decompress_digits:
  assumes "saved_sequence rs"
    and "GET_BITS_WITH_MASK enc (CLS_X86_FRAMELESS_STACK_REG_COUNT X) = word_of_nat (length rs)"
    and "GET_BITS_WITH_MASK enc (CLS_X86_FRAMELESS_STACK_REG_PERMUTATION X) =
      word_of_nat (permutation_code rs)"
  shows "FIRCLSCompactUnwindDecompressPermutation X enc (replicate 6 0) =
    Some (map word_of_nat (rank_digits [] rs) @ replicate (6 - length rs) 0)"
proof -
  define ds where "ds = rank_digits [] rs"
  have len: "length ds = length rs" by (simp add: ds_def)
  have bound: "ds ! i + i < 6" if "i < length ds" for i
    using rank_digits_bound [of rs "[]" i] assms(1) that by (simp add: ds_def saved_sequence_def)
  have code: "permutation_code rs = sum_list (map2 (*) (weights (length ds)) ds)"
    by (simp add: permutation_code_def ds_def)
  note uw = ucast_word32
  have r6: "replicate 6 (0::u64) = [0, 0, 0, 0, 0, 0]" "replicate 5 (0::u64) = [0, 0, 0, 0, 0]"
      "replicate 4 (0::u64) = [0, 0, 0, 0]" "replicate 3 (0::u64) = [0, 0, 0]"
      "replicate 2 (0::u64) = [0, 0]"
    by (simp_all add: numeral_eq_Suc)
  consider "length ds = 0" | "length ds = 1" | "length ds = 2" | "length ds = 3"
    | "length ds = 4" | "length ds = 5" | "length ds = 6"
    using saved_sequence_length [OF assms(1)] len by linarith
  then have "FIRCLSCompactUnwindDecompressPermutation X enc (replicate 6 0) =
    Some (map word_of_nat ds @ replicate (6 - length ds) 0)"
  proof cases
    case 1
    then show ?thesis using assms(2) len
      by (simp add: FIRCLSCompactUnwindDecompressPermutation_def)
  next
    case 2
    then have lr: "length rs = 1" using len by simp
    from 2 obtain a where ds: "ds = [a]" by (auto simp: length_Suc_conv)
    have b: "a \<le> 5" using bound [of 0] ds by simp
    have c: "permutation_code rs = a" by (simp add: code ds weights_def)
    show ?thesis using assms(2,3) lr b
      by (simp add: FIRCLSCompactUnwindDecompressPermutation_def ds c r6 uw)
  next
    case 3
    then have lr: "length rs = 2" using len by simp
    from 3 obtain a b where ds: "ds = [a, b]" by (auto simp: length_Suc_conv numeral_eq_Suc)
    have b: "a \<le> 5" "b \<le> 4"
      using bound [of 0] bound [of 1] ds by simp_all
    define n0 where "n0 = 5 * a + b"
    have c: "permutation_code rs = n0" by (simp add: code ds weights_def n0_def)
    have lt: "b < 5" "n0 < 720"
      using b unfolding n0_def by linarith+
    note d = word32_digit [of n0 5 a b, OF n0_def, unfolded of_nat_numeral]
    show ?thesis using assms(2,3) lr b lt
      by (simp add: FIRCLSCompactUnwindDecompressPermutation_def ds c r6 uw d Let_def)
  next
    case 4
    then have lr: "length rs = 3" using len by simp
    from 4 obtain a b c where ds: "ds = [a, b, c]" by (auto simp: length_Suc_conv numeral_eq_Suc)
    have b: "a \<le> 5" "b \<le> 4" "c \<le> 3"
      using bound [of 0] bound [of 1] bound [of 2] ds by simp_all
    define n1 where "n1 = 4 * b + c"
    define n0 where "n0 = 20 * a + n1"
    have c: "permutation_code rs = n0" by (simp add: code ds weights_def n1_def n0_def)
    have lt: "n1 < 20" "c < 4" "n0 < 720"
      using b unfolding n1_def n0_def by linarith+
    note d = word32_digit [of n0 20 a n1, OF n0_def, unfolded of_nat_numeral]
      word32_digit [of n1 4 b c, OF n1_def, unfolded of_nat_numeral]
    show ?thesis using assms(2,3) lr b lt
      by (simp add: FIRCLSCompactUnwindDecompressPermutation_def ds c r6 uw d Let_def)
  next
    case 5
    then have lr: "length rs = 4" using len by simp
    from 5 obtain a b c d where ds: "ds = [a, b, c, d]" by (auto simp: length_Suc_conv numeral_eq_Suc)
    have b: "a \<le> 5" "b \<le> 4" "c \<le> 3" "d \<le> 2"
      using bound [of 0] bound [of 1] bound [of 2] bound [of 3] ds by simp_all
    define n2 where "n2 = 3 * c + d"
    define n1 where "n1 = 12 * b + n2"
    define n0 where "n0 = 60 * a + n1"
    have c: "permutation_code rs = n0" by (simp add: code ds weights_def n2_def n1_def n0_def)
    have lt: "n1 < 60" "n2 < 12" "d < 3" "n0 < 720"
      using b unfolding n2_def n1_def n0_def by linarith+
    note d = word32_digit [of n0 60 a n1, OF n0_def, unfolded of_nat_numeral]
      word32_digit [of n1 12 b n2, OF n1_def, unfolded of_nat_numeral]
      word32_digit [of n2 3 c d, OF n2_def, unfolded of_nat_numeral]
    show ?thesis using assms(2,3) lr b lt
      by (simp add: FIRCLSCompactUnwindDecompressPermutation_def ds c r6 uw d Let_def)
  next
    case 6
    then have lr: "length rs = 5" using len by simp
    from 6 obtain a b c d e where ds: "ds = [a, b, c, d, e]" by (auto simp: length_Suc_conv numeral_eq_Suc)
    have b: "a \<le> 5" "b \<le> 4" "c \<le> 3" "d \<le> 2" "e \<le> 1"
      using bound [of 0] bound [of 1] bound [of 2] bound [of 3] bound [of 4] ds by simp_all
    define n3 where "n3 = 2 * d + e"
    define n2 where "n2 = 6 * c + n3"
    define n1 where "n1 = 24 * b + n2"
    define n0 where "n0 = 120 * a + n1"
    have c: "permutation_code rs = n0" by (simp add: code ds weights_def n3_def n2_def n1_def n0_def)
    have lt: "n1 < 120" "n2 < 24" "n3 < 6" "e < 2" "n0 < 720"
      using b unfolding n3_def n2_def n1_def n0_def by linarith+
    note d = word32_digit [of n0 120 a n1, OF n0_def, unfolded of_nat_numeral]
      word32_digit [of n1 24 b n2, OF n1_def, unfolded of_nat_numeral]
      word32_digit [of n2 6 c n3, OF n2_def, unfolded of_nat_numeral]
      word32_digit [of n3 2 d e, OF n3_def, unfolded of_nat_numeral]
    show ?thesis using assms(2,3) lr b lt
      by (simp add: FIRCLSCompactUnwindDecompressPermutation_def ds c r6 uw d Let_def)
  next
    case 7
    then have lr: "length rs = 6" using len by simp
    from 7 obtain a b c d e f where ds: "ds = [a, b, c, d, e, f]" by (auto simp: length_Suc_conv numeral_eq_Suc)
    have b: "a \<le> 5" "b \<le> 4" "c \<le> 3" "d \<le> 2" "e \<le> 1" "f \<le> 0"
      using bound [of 0] bound [of 1] bound [of 2] bound [of 3] bound [of 4] bound [of 5] ds by simp_all
    define n3 where "n3 = 2 * d + e"
    define n2 where "n2 = 6 * c + n3"
    define n1 where "n1 = 24 * b + n2"
    define n0 where "n0 = 120 * a + n1"
    have c: "permutation_code rs = n0" by (simp add: code ds weights_def n3_def n2_def n1_def n0_def)
    have lt: "n1 < 120" "n2 < 24" "n3 < 6" "e < 2" "n0 < 720"
      using b unfolding n3_def n2_def n1_def n0_def by linarith+
    note d = word32_digit [of n0 120 a n1, OF n0_def, unfolded of_nat_numeral]
      word32_digit [of n1 24 b n2, OF n1_def, unfolded of_nat_numeral]
      word32_digit [of n2 6 c n3, OF n2_def, unfolded of_nat_numeral]
      word32_digit [of n3 2 d e, OF n3_def, unfolded of_nat_numeral]
    show ?thesis using assms(2,3) lr b lt
      by (simp add: FIRCLSCompactUnwindDecompressPermutation_def ds c r6 uw d Let_def)
  qed
  then show ?thesis by (simp add: ds_def)
qed

text \<open>The two steps that read the register sequence invert its encoding.\<close>

lemma remap_decompress:
  assumes "saved_sequence rs"
    and "GET_BITS_WITH_MASK enc (CLS_X86_FRAMELESS_STACK_REG_COUNT X) = word_of_nat (length rs)"
    and "GET_BITS_WITH_MASK enc (CLS_X86_FRAMELESS_STACK_REG_PERMUTATION X) =
      word_of_nat (permutation_code rs)"
  shows "FIRCLSCompactUnwindRemapRegisters X enc
      (map word_of_nat (rank_digits [] rs) @ replicate (6 - length rs) 0) (replicate 6 0) =
    Some (map word_of_nat rs @ replicate (6 - length rs) 0)"
proof -
  have len: "length rs \<le> 6" using saved_sequence_length [OF assms(1)] .
  then have un: "unat (word_of_nat (length rs) :: u32) = length rs" by (simp add: unat_of_nat)
  then have small: "\<not> (word_of_nat (length rs) :: u32) > 6"
    using len by (simp add: word_less_nat_alt)
  have "remap_loop (map word_of_nat (rank_digits [] rs) @ replicate (6 - length rs) 0) (length rs) 0
      (replicate 7 False) (replicate 6 0) =
    take 0 (replicate 6 0) @ map word_of_nat rs @ drop (0 + length rs) (replicate 6 0)"
    using assms(1) len by (intro remap_loop_ranks [of rs "[]"])
      (auto simp: saved_sequence_def nth_append)
  then show ?thesis using small by (simp add: FIRCLSCompactUnwindRemapRegisters_def assms(2) un)
qed

section \<open>The fields of an encoding\<close>

lemma get_bits_field:
  assumes "M = push_bit k (mask w)" "M \<noteq> 0" "ctz M = k"
  shows "GET_BITS_WITH_MASK v M = take_bit w (drop_bit k v)"
  using assms by (simp add: GET_BITS_WITH_MASK_def drop_bit_and) 
    (rule bit_word_eqI, auto simp: bit_simps dest: bit_imp_le_length)

lemma field_of_nat:
  assumes "n < 2 ^ 32"
  shows "take_bit w (drop_bit k (word_of_nat n :: u32)) = word_of_nat (n div 2 ^ k mod 2 ^ w)"
proof -
  have "unat (take_bit w (drop_bit k (word_of_nat n :: u32))) = n div 2 ^ k mod 2 ^ w"
    using assms by (simp only: unsigned_take_bit_eq unsigned_drop_bit_eq)
      (simp add: take_bit_eq_mod drop_bit_eq_div unat_of_nat)
  then show ?thesis by (metis of_nat_unat ucast_id)
qed

lemma apple_fields:
  "GET_BITS_WITH_MASK v (CLS_X86_FRAMELESS_STACK_SIZE apple_x86) = take_bit 8 (drop_bit 16 v)"
  "GET_BITS_WITH_MASK v (CLS_X86_FRAMELESS_STACK_ADJUST apple_x86) = take_bit 3 (drop_bit 13 v)"
  "GET_BITS_WITH_MASK v (CLS_X86_FRAMELESS_STACK_REG_COUNT apple_x86) = take_bit 3 (drop_bit 10 v)"
  "GET_BITS_WITH_MASK v (CLS_X86_FRAMELESS_STACK_REG_PERMUTATION apple_x86) = take_bit 10 (drop_bit 0 v)"
  by (rule get_bits_field; simp add: apple_x86_def ctz_def mask_eq_exp_minus_1 upt_rec)+

lemma permutation_code_less:
  assumes "saved_sequence rs"
  shows "permutation_code rs < 720"
proof -
  define ds where "ds = rank_digits [] rs"
  have len: "length ds = length rs" by (simp add: ds_def)
  have bound: "ds ! i + i < 6" if "i < length ds" for i
    using rank_digits_bound [of rs "[]" i] assms that by (simp add: ds_def saved_sequence_def)
  have code: "permutation_code rs = sum_list (map2 (*) (weights (length ds)) ds)"
    by (simp add: permutation_code_def ds_def)
  consider "length ds = 0" | "length ds = 1" | "length ds = 2" | "length ds = 3"
    | "length ds = 4" | "length ds = 5" | "length ds = 6"
    using saved_sequence_length [OF assms] len by linarith
  then show ?thesis
    by cases (use bound [of 0] bound [of 1] bound [of 2] bound [of 3] bound [of 4] bound [of 5] in
      \<open>auto simp: code weights_def length_Suc_conv numeral_eq_Suc\<close>)
qed

text \<open>The encoding of a frameless function: its mode, the stack size in words (or the offset of the
  instruction that holds the size), the adjustment and the saved registers.\<close>

definition frameless_encoding :: "nat \<Rightarrow> nat \<Rightarrow> nat \<Rightarrow> nat list \<Rightarrow> u32" where
  "frameless_encoding mode sz adjust rs = word_of_nat
     (mode * 2 ^ 24 + sz * 2 ^ 16 + adjust * 2 ^ 13 + length rs * 2 ^ 10 + permutation_code rs)"

lemma frameless_fields:
  assumes "saved_sequence rs" "mode < 16" "sz < 256" "adjust < 8"
  defines "enc \<equiv> frameless_encoding mode sz adjust rs"
  shows "GET_BITS_WITH_MASK enc (CLS_X86_FRAMELESS_STACK_SIZE apple_x86) = word_of_nat sz"
    and "GET_BITS_WITH_MASK enc (CLS_X86_FRAMELESS_STACK_ADJUST apple_x86) = word_of_nat adjust"
    and "GET_BITS_WITH_MASK enc (CLS_X86_FRAMELESS_STACK_REG_COUNT apple_x86) = word_of_nat (length rs)"
    and "GET_BITS_WITH_MASK enc (CLS_X86_FRAMELESS_STACK_REG_PERMUTATION apple_x86) =
      word_of_nat (permutation_code rs)"
proof -
  define c where "c = permutation_code rs"
  define l where "l = length rs"
  have c: "c < 1024" using permutation_code_less [OF assms(1)] by (simp add: c_def)
  have l: "l < 8" using saved_sequence_length [OF assms(1)] by (simp add: l_def)
  define n where "n = mode * 2 ^ 24 + sz * 2 ^ 16 + adjust * 2 ^ 13 + l * 2 ^ 10 + c"
  have enc: "enc = word_of_nat n" by (simp add: enc_def frameless_encoding_def n_def l_def c_def)
  have n: "n < 2 ^ 32" using assms(2-4) c l unfolding n_def by simp
  define q3 where "q3 = sz + 256 * mode"
  define q2 where "q2 = adjust + 8 * q3"
  define q1 where "q1 = l + 8 * q2"
  have e1: "n = c + 1024 * q1" by (simp add: n_def q1_def q2_def q3_def)
  then have "n div 2 ^ 0 mod 2 ^ 10 = c" using c by simp
  moreover have d10: "n div 2 ^ 10 = q1" using e1 c by simp
  then have "n div 2 ^ 10 mod 2 ^ 3 = l" using l by (simp add: q1_def)
  moreover have "n div 2 ^ 13 = n div 2 ^ 10 div 8" by (simp flip: div_mult2_eq)
  then have d13: "n div 2 ^ 13 = q2" unfolding d10 using l by (simp add: q1_def)
  then have "n div 2 ^ 13 mod 2 ^ 3 = adjust" using assms(4) by (simp add: q2_def)
  moreover have "n div 2 ^ 16 = n div 2 ^ 13 div 8" by (simp flip: div_mult2_eq)
  then have "n div 2 ^ 16 = q3" unfolding d13 using assms(4) by (simp add: q2_def)
  then have "n div 2 ^ 16 mod 2 ^ 8 = sz" using assms(3) by (simp add: q3_def)
  ultimately show "GET_BITS_WITH_MASK enc (CLS_X86_FRAMELESS_STACK_SIZE apple_x86) = word_of_nat sz"
    "GET_BITS_WITH_MASK enc (CLS_X86_FRAMELESS_STACK_ADJUST apple_x86) = word_of_nat adjust"
    "GET_BITS_WITH_MASK enc (CLS_X86_FRAMELESS_STACK_REG_COUNT apple_x86) = word_of_nat (length rs)"
    "GET_BITS_WITH_MASK enc (CLS_X86_FRAMELESS_STACK_REG_PERMUTATION apple_x86) =
      word_of_nat (permutation_code rs)"
    unfolding apple_fields enc field_of_nat [OF n] l_def [symmetric] c_def [symmetric] by metis+
qed

section \<open>Restoring the registers\<close>

text \<open>The value saved for register 6, the frame pointer, if it is among the saved ones.\<close>

definition saved_rbp :: "nat list \<Rightarrow> u64 list \<Rightarrow> u64 \<Rightarrow> u64" where
  "saved_rbp rs vs old = (case map_of (zip rs vs) 6 of None \<Rightarrow> old | Some v \<Rightarrow> v)"

context task_memory begin

lemma read_stack_word:
  "stack_word t a = Some v \<Longrightarrow> FIRCLSIsValidPointer a \<Longrightarrow>
   \<exists>bs. FIRCLSReadMemory t a 8 = Some bs \<and> le_word bs = v"
  by (auto simp: stack_word_def FIRCLSReadMemory_def vm_read_load)

lemma restore_loop_words:
  assumes "CLS_X86_REG_RBP X = 6" "distinct rs" "set rs \<subseteq> {1..<7}" "length vs = length rs"
    and "FIRCLSIsValidPointer a" "unat a + 8 * length rs < 2 ^ 64"
    and "\<forall>i < length rs. stack_word t (a + word_of_nat (8 * i)) = Some (vs ! i)"
  shows "restore_loop X t (map word_of_nat rs) registers a =
    (True, registers\<lparr>ss_rbp := saved_rbp rs vs (ss_rbp registers)\<rparr>, a + word_of_nat (8 * length rs))"
  using assms(2-)
proof (induction rs arbitrary: vs a registers)
  case Nil
  then show ?case by (simp add: saved_rbp_def)
next
  case (Cons r rs)
  obtain v vs' where vs: "vs = v # vs'" "length vs' = length rs"
    using Cons.prems(3) by (cases vs) auto
  have r: "1 \<le> r" "r < 7" "r \<notin> set rs" using Cons.prems(1,2) by auto
  have ua: "unat (a + 8) = unat a + 8"
    using Cons.prems(5) by (simp add: unat_word_ariths)
  have tail: "restore_loop X t (map word_of_nat rs) regs (a + 8) =
      (True, regs\<lparr>ss_rbp := saved_rbp rs vs' (ss_rbp regs)\<rparr>, a + 8 + word_of_nat (8 * length rs))" for regs
  proof (rule Cons.IH)
    show "FIRCLSIsValidPointer (a + 8)"
      using Cons.prems(4) ua by (simp add: FIRCLSIsValidPointer_def word_le_nat_alt)
    show "\<forall>i < length rs. stack_word t (a + 8 + word_of_nat (8 * i)) = Some (vs' ! i)"
      using Cons.prems(6) by (auto simp: vs algebra_simps dest: spec [of _ "Suc _"])
  qed (use Cons.prems vs ua in auto)
  have six: "(word_of_nat r :: u64) = 6 \<longleftrightarrow> r = 6"
  proof
    assume "(word_of_nat r :: u64) = 6"
    then have "unat (word_of_nat r :: u64) = unat (6 :: u64)" by simp
    then show "r = 6" using r by (simp add: unat_of_nat)
  qed simp
  show ?case
  proof (cases "r = 6")
    case True
    have "stack_word t a = Some v" using Cons.prems(6) [rule_format, of 0] by (simp add: vs)
    then obtain bs where "FIRCLSReadMemory t a 8 = Some bs" "le_word bs = v"
      using read_stack_word Cons.prems(4) by blast
    moreover have "saved_rbp rs vs' v = v"
      using r vs(2) True by (simp add: saved_rbp_def map_of_zip_is_None [THEN iffD2])
    ultimately show ?thesis using True
      by (simp add: tail assms(1) vs thread_context_defs x86_64_def saved_rbp_def algebra_simps)
  next
    case False
    then show ?thesis
      by (simp add: tail assms(1) six vs saved_rbp_def algebra_simps)
  qed
qed

end

section \<open>One step of the unwinder\<close>

lemma load_bytes_add:
  "load_bytes t p (m + n) = do {
     xs \<leftarrow> load_bytes t p m; ys \<leftarrow> load_bytes t (p + word_of_nat m) n; Some (xs @ ys) }"
  by (induction m arbitrary: p) (auto simp: algebra_simps split: bind_splits)

context task_memory begin

lemma bp_frame_step:
  "FIRCLSCompactUnwindBPFrame t registers =
    (case (stack_word t (ss_rbp registers), stack_word t (ss_rbp registers + 8)) of
       (Some saved_fp, Some saved_pc) \<Rightarrow>
         if FIRCLSIsValidPointer (ss_rbp registers)
         then (True, registers\<lparr>ss_rip := saved_pc, ss_rbp := saved_fp, ss_rsp := ss_rbp registers + 16\<rparr>)
         else (False, registers)
     | _ \<Rightarrow> (False, registers))"
proof -
  have add: "load_bytes t p 16 = do { xs \<leftarrow> load_bytes t p 8; ys \<leftarrow> load_bytes t (p + 8) 8; Some (xs @ ys) }" for p
    using load_bytes_add [of t p 8 8] by simp
  show ?thesis
    by (cases "load_bytes t (ss_rbp registers) 8"; cases "load_bytes t (ss_rbp registers + 8) 8")
      (auto simp: FIRCLSCompactUnwindBPFrame_def stack_word_def FIRCLSReadMemory_def vm_read_load add
        thread_context_defs x86_64_def FIRCLSUnwindStackPointerFromFramePointer_def Let_def
        dest!: load_bytes_length)
qed

lemma frameless_step:
  assumes "CLS_X86_REG_RBP X = 6" "saved_sequence rs" "length vs = length rs"
    and "GET_BITS_WITH_MASK enc (CLS_X86_FRAMELESS_STACK_REG_COUNT X) = word_of_nat (length rs)"
    and "GET_BITS_WITH_MASK enc (CLS_X86_FRAMELESS_STACK_REG_PERMUTATION X) =
      word_of_nat (permutation_code rs)"
    and size: "FIRCLSCompactUnwindComputeStackSize X t enc fstart indirect = Some sz"
    and base: "base + 8 * word_of_nat (length rs) + 8 = ss_rsp registers + ucast sz"
      "FIRCLSIsValidPointer base" "unat base + 8 * length rs < 2 ^ 64"
    and slots: "\<forall>i < length rs. stack_word t (base + word_of_nat (8 * i)) = Some (vs ! i)"
    and ret: "stack_word t (base + word_of_nat (8 * length rs)) = Some pc" "FIRCLSIsValidPointer pc"
  shows "FIRCLSCompactUnwindFrameless X t enc registers fstart indirect =
    Some (True, registers\<lparr>ss_rbp := saved_rbp rs vs (ss_rbp registers), ss_rip := pc,
      ss_rsp := ss_rsp registers + ucast sz\<rparr>)"
proof -
  have len: "length rs \<le> 6" using saved_sequence_length [OF assms(2)] .
  then have un: "unat (word_of_nat (length rs) :: u32) = length rs" by (simp add: unat_of_nat)
  have uc: "(ucast (word_of_nat (length rs) :: u32) :: u64) = word_of_nat (length rs)"
    using len by (intro ucast_word32) simp
  have adr: "ss_rsp registers + ucast sz - 8 - 8 * word_of_nat (length rs) = base"
    unfolding base(1) [symmetric] by simp
  have restore: "FIRCLSCompactUnwindRestoreRegisters X t enc registers sz
      (map word_of_nat rs @ replicate (6 - length rs) 0) =
    Some (True, registers\<lparr>ss_rbp := saved_rbp rs vs (ss_rbp registers)\<rparr>, base + word_of_nat (8 * length rs))"
    using restore_loop_words [OF assms(1) _ _ assms(3) base(2,3) slots] assms(2) len
    by (simp add: FIRCLSCompactUnwindRestoreRegisters_def assms(4) un uc adr saved_sequence_def
        thread_context_defs x86_64_def Let_def)
  let ?a = "base + word_of_nat (8 * length rs)"
  have "unat ?a = unat base + 8 * length rs"
    using base(3) by (intro unat_add_small) simp
  then have "FIRCLSIsValidPointer ?a"
    using base(2) by (simp add: FIRCLSIsValidPointer_def word_le_nat_alt)
  then obtain bs where bs: "FIRCLSReadMemory t ?a 8 = Some bs" "le_word bs = pc"
    using read_stack_word ret(1) by blast
  have "?a + 8 = ss_rsp registers + ucast sz" using base(1) by simp
  then show ?thesis
    using decompress_digits [OF assms(2,4,5)] remap_decompress [OF assms(2,4,5)] restore bs ret(2)
    by (simp add: FIRCLSCompactUnwindFrameless_def size Let_def thread_context_defs x86_64_def)
qed

lemma scan_step_x86:
  assumes "FIRCLSIsValidPointer (ss_rsp registers)" "ws \<noteq> []"
    and "unat (ss_rsp registers) + 8 * length ws = unat (ss_rbp registers)"
    and "\<forall>i < length ws. stack_word t (ss_rsp registers + word_of_nat (8 * i)) = Some (ws ! i)"
  shows "x86_WithFramePointer t env registers True =
    Some (case List.find (FIRCLSUnwindIsAddressExecutable env) ws of
        Some pc \<Rightarrow> (True, registers\<lparr>ss_rip := pc\<rparr>)
      | None \<Rightarrow> FIRCLSCompactUnwindBPFrame t registers)"
proof -
  have lt: "unat (ss_rsp registers) + 8 * length ws < 2 ^ 64"
    using assms(3) unsigned_less [of "ss_rbp registers", where 'a = nat] by simp
  then have "ss_rbp registers = ss_rsp registers + word_of_nat (8 * length ws)"
    using assms(3) unat_add_small [OF lt] by (simp add: word_unat_eq_iff)
  then show ?thesis
    using scan_words [OF assms(1,2) lt assms(4), of "ss_rbp registers" env]
    by (simp add: x86_WithFramePointer_def FIRCLSUnwindWithStackScanning_def thread_context_defs
        x86_64_def split: option.split)
qed

end

lemma and_push_mask: "(v :: u32) AND push_bit k (mask w) = push_bit k (take_bit w (drop_bit k v))"
  by (rule bit_word_eqI) (auto simp: bit_simps)

lemma mode_of_encoding:
  assumes "saved_sequence rs" "mode < 16" "sz < 256" "adjust < 8"
  shows "frameless_encoding mode sz adjust rs AND CLS_X86_MODE_MASK apple_x86 = word_of_nat (mode * 2 ^ 24)"
proof -
  let ?e = "frameless_encoding mode sz adjust rs"
  let ?n = "mode * 2 ^ 24 + sz * 2 ^ 16 + adjust * 2 ^ 13 + length rs * 2 ^ 10 + permutation_code rs"
  have "permutation_code rs < 1024" "length rs < 8"
    using permutation_code_less [OF assms(1)] saved_sequence_length [OF assms(1)] by auto
  then have low: "sz * 2 ^ 16 + adjust * 2 ^ 13 + length rs * 2 ^ 10 + permutation_code rs < 2 ^ 24"
    using assms(3,4) by simp
  then have n: "?n < 2 ^ 32" using assms(2) by simp
  have d: "?n div 2 ^ 24 = mode" using low by (simp add: div_nat_eqI)
  have "?e AND 0x0F000000 = push_bit 24 (take_bit 4 (drop_bit 24 ?e))"
    using and_push_mask [of ?e 24 4] by (simp add: mask_eq_exp_minus_1)
  also have "take_bit 4 (drop_bit 24 ?e) = word_of_nat mode"
    unfolding frameless_encoding_def field_of_nat [OF n] d using assms(2) by simp
  finally show ?thesis by (simp add: apple_x86_def push_bit_eq_mult)
qed

section \<open>Properties\<close>

lemma frameless_dispatch:
  assumes "saved_sequence rs" "sz < 256" "adjust < 8" "mode = 2 \<or> mode = 3"
    and "encoding result = frameless_encoding mode sz adjust rs"
  shows "x86_ComputeRegisters apple_x86 t context result registers =
    FIRCLSCompactUnwindFrameless apple_x86 t (encoding result) registers (functionStart result) (mode = 3)"
  using mode_of_encoding [OF assms(1) _ assms(2,3), of mode] assms(4)
  by (elim disjE) (simp_all add: x86_ComputeRegisters_def assms(5), simp_all add: apple_x86_def)

text \<open>A frame with a frame pointer: when the two words at the frame pointer can be read, the
  caller's frame pointer is the first, its program counter the second, and its stack pointer lies
  behind them; when the frame pointer is not a valid pointer or either word cannot be read, the step
  fails and leaves the registers as they are.\<close>

theorem frame_pointer_step:
  "FIRCLSCompactUnwindBPFrame (flat_task m) registers =
    (case (stack_word (flat_task m) (ss_rbp registers), stack_word (flat_task m) (ss_rbp registers + 8)) of
       (Some saved_fp, Some saved_pc) \<Rightarrow>
         if FIRCLSIsValidPointer (ss_rbp registers)
         then (True, registers\<lparr>ss_rip := saved_pc, ss_rbp := saved_fp, ss_rsp := ss_rbp registers + 16\<rparr>)
         else (False, registers)
     | _ \<Rightarrow> (False, registers))"
  by (rule flat.bp_frame_step)

text \<open>On the second frame the stack is scanned first: the program counter becomes the first
  word between the stack pointer and the frame pointer that lies in a loaded image, and only when
  there is none the frame pointer is followed.\<close>

theorem stack_scan_first:
  assumes "FIRCLSIsValidPointer (ss_rsp registers)" "ws \<noteq> []"
    and "unat (ss_rsp registers) + 8 * length ws = unat (ss_rbp registers)"
    and "\<forall>i < length ws. stack_word (flat_task m) (ss_rsp registers + word_of_nat (8 * i)) = Some (ws ! i)"
  shows "x86_WithFramePointer (flat_task m) env registers True =
    Some (case List.find (FIRCLSUnwindIsAddressExecutable env) ws of
        Some pc \<Rightarrow> (True, registers\<lparr>ss_rip := pc\<rparr>)
      | None \<Rightarrow> FIRCLSCompactUnwindBPFrame (flat_task m) registers)"
  using assms by (rule flat.scan_step_x86)

text \<open>C34. The register sequence of a frameless function survives its encoding: for every sequence
  of distinct registers among the six, of any length, splitting the permutation number into digits
  and renumbering them gives the sequence back, whatever the mode, size and adjustment.\<close>

theorem permutation_roundtrip:
  assumes "saved_sequence rs" "mode < 16" "sz < 256" "adjust < 8"
  shows "Option.bind
      (FIRCLSCompactUnwindDecompressPermutation apple_x86 (frameless_encoding mode sz adjust rs) (replicate 6 0))
      (\<lambda>digits. FIRCLSCompactUnwindRemapRegisters apple_x86 (frameless_encoding mode sz adjust rs)
         digits (replicate 6 0)) =
    Some (map word_of_nat rs @ replicate (6 - length rs) 0)"
  using decompress_digits [OF assms(1) frameless_fields(3,4) [OF assms]]
    remap_decompress [OF assms(1) frameless_fields(3,4) [OF assms]] by simp

text \<open>A frameless function whose encoding carries its stack size: the return address is read
  from the top word of the frame, the stack pointer moves past it, and the frame pointer is restored
  from its slot when it is among the saved registers, and kept otherwise.\<close>

theorem frameless_immediate:
  assumes "saved_sequence rs" "length vs = length rs" "sz < 256" "adjust < 8"
    and "encoding result = frameless_encoding 2 sz adjust rs"
    and "base + word_of_nat (8 * length rs + 8) = ss_rsp registers + word_of_nat (8 * sz)"
    and "FIRCLSIsValidPointer base" "unat base + 8 * length rs < 2 ^ 64"
    and "\<forall>i < length rs. stack_word (flat_task m) (base + word_of_nat (8 * i)) = Some (vs ! i)"
    and "stack_word (flat_task m) (base + word_of_nat (8 * length rs)) = Some pc" "FIRCLSIsValidPointer pc"
  shows "x86_ComputeRegisters apple_x86 (flat_task m) context result registers =
    Some (True, registers\<lparr>ss_rbp := saved_rbp rs vs (ss_rbp registers), ss_rip := pc,
      ss_rsp := ss_rsp registers + word_of_nat (8 * sz)\<rparr>)"
proof -
  note f = frameless_fields [OF assms(1) _ assms(3,4), of 2, simplified]
  have size: "FIRCLSCompactUnwindComputeStackSize apple_x86 (flat_task m) (frameless_encoding 2 sz adjust rs)
      (functionStart result) False = Some (word_of_nat (8 * sz))"
    by (simp add: FIRCLSCompactUnwindComputeStackSize_def f mult.commute)
  have uc: "(ucast (word_of_nat (8 * sz) :: u32) :: u64) = word_of_nat (8 * sz)"
    using assms(3) by (intro ucast_word32) simp
  have rbp: "CLS_X86_REG_RBP apple_x86 = 6" by (simp add: apple_x86_def)
  have b: "base + 8 * word_of_nat (length rs) + 8 = ss_rsp registers + ucast (word_of_nat (8 * sz) :: u32)"
    unfolding uc assms(6) [symmetric] by (simp add: add.assoc)
  show ?thesis
    using flat.frameless_step [OF rbp assms(1,2) f(3,4) size b assms(7-11)]
      frameless_dispatch [OF assms(1,3,4) _ assms(5)] uc
    by (simp add: assms(5))
qed

text \<open>When the encoding only says where the function subtracts from its stack pointer, the size
  is the operand of that instruction, read from the code, plus the adjustment in words.\<close>

theorem frameless_indirect:
  assumes "saved_sequence rs" "length vs = length rs" "sz < 256" "adjust < 8"
    and "encoding result = frameless_encoding 3 sz adjust rs"
    and "FIRCLSIsValidPointer (functionStart result + word_of_nat sz)"
    and "holds (flat_task m) (functionStart result + word_of_nat sz) (le_bytes 4 (unat subl))"
    and "base + word_of_nat (8 * length rs + 8) = ss_rsp registers + ucast (subl + word_of_nat (8 * adjust) :: u32)"
    and "FIRCLSIsValidPointer base" "unat base + 8 * length rs < 2 ^ 64"
    and "\<forall>i < length rs. stack_word (flat_task m) (base + word_of_nat (8 * i)) = Some (vs ! i)"
    and "stack_word (flat_task m) (base + word_of_nat (8 * length rs)) = Some pc" "FIRCLSIsValidPointer pc"
  shows "x86_ComputeRegisters apple_x86 (flat_task m) context result registers =
    Some (True, registers\<lparr>ss_rbp := saved_rbp rs vs (ss_rbp registers), ss_rip := pc,
      ss_rsp := ss_rsp registers + ucast (subl + word_of_nat (8 * adjust) :: u32)\<rparr>)"
proof -
  note f = frameless_fields [OF assms(1) _ assms(3,4), of 3, simplified]
  have uc: "(ucast (word_of_nat sz :: u32) :: u64) = word_of_nat sz"
    using assms(3) by (intro ucast_word32) simp
  have "FIRCLSReadMemory (flat_task m) (functionStart result + word_of_nat sz) 4 = Some (le_bytes 4 (unat subl))"
    using assms(6,7) by (simp add: flat.read_memory_holds)
  then have size: "FIRCLSCompactUnwindComputeStackSize apple_x86 (flat_task m) (frameless_encoding 3 sz adjust rs)
      (functionStart result) True = Some (subl + word_of_nat (8 * adjust))"
    by (simp add: FIRCLSCompactUnwindComputeStackSize_def f uc le_word_le_bytes32 mult.commute)
  have rbp: "CLS_X86_REG_RBP apple_x86 = 6" by (simp add: apple_x86_def)
  have b: "base + 8 * word_of_nat (length rs) + 8 = ss_rsp registers + ucast (subl + word_of_nat (8 * adjust) :: u32)"
    unfolding assms(8) [symmetric] by (simp add: add.assoc)
  show ?thesis
    using flat.frameless_step [OF rbp assms(1,2) f(3,4) size b assms(9-13)]
      frameless_dispatch [OF assms(1,3,4) _ assms(5)]
    by (simp add: assms(5))
qed

text \<open>Witnesses: a stack of three words under a register file that points at it.\<close>

definition demo_stack :: "u64 list" where
  "demo_stack = [0x9000, 0x5008, 0x6000]"

abbreviation demo_task :: task where
  "demo_task \<equiv> flat_task (block 0x2000 (words_mem demo_stack))"

definition demo_regs :: x86_thread where
  "demo_regs = x86_zero\<lparr>ss_rsp := 0x2000, ss_rbp := 0x2018\<rparr>"

definition demo_images :: images where
  "demo_images = \<lparr>context_initialized = True,
     nodes = Some [\<lparr>baseAddress = 0x5000, image_size = 0x800, image_ehFrame = 0, image_unwindInfo = 0, image_crashInfo = 0\<rparr>]\<rparr>"

lemma demo_words:
  "stack_word demo_task 0x2000 = Some 0x9000" "stack_word demo_task 0x2008 = Some 0x5008"
  "stack_word demo_task 0x2010 = Some 0x6000"
  using stack_word_block [of 0 demo_stack "0x2000"] stack_word_block [of 1 demo_stack "0x2000"]
    stack_word_block [of 2 demo_stack "0x2000"]
  by (simp_all add: demo_stack_def)

lemma stack_scan_first_witness:
  "x86_WithFramePointer demo_task demo_images demo_regs True = Some (True, demo_regs\<lparr>ss_rip := 0x5008\<rparr>)"
proof -
  have "\<forall>i < length demo_stack. stack_word demo_task (ss_rsp demo_regs + word_of_nat (8 * i)) = Some (demo_stack ! i)"
    using demo_words by (auto simp: demo_stack_def demo_regs_def x86_zero_def less_Suc_eq numeral_eq_Suc)
  then have "x86_WithFramePointer demo_task demo_images demo_regs True =
      Some (case List.find (FIRCLSUnwindIsAddressExecutable demo_images) demo_stack of
        Some pc \<Rightarrow> (True, demo_regs\<lparr>ss_rip := pc\<rparr>)
      | None \<Rightarrow> FIRCLSCompactUnwindBPFrame demo_task demo_regs)"
    by (intro stack_scan_first) (simp_all add: demo_stack_def demo_regs_def x86_zero_def FIRCLSIsValidPointer_def)
  also have "List.find (FIRCLSUnwindIsAddressExecutable demo_images) demo_stack = Some 0x5008"
    by (simp add: demo_stack_def demo_images_def FIRCLSUnwindIsAddressExecutable_def
        FIRCLSBinaryImageSafeFindImageForAddress_def)
  finally show ?thesis by simp
qed

lemma permutation_roundtrip_witness:
  "Option.bind
      (FIRCLSCompactUnwindDecompressPermutation apple_x86 (frameless_encoding 2 7 0 [3, 6, 1, 5]) (replicate 6 0))
      (\<lambda>digits. FIRCLSCompactUnwindRemapRegisters apple_x86 (frameless_encoding 2 7 0 [3, 6, 1, 5])
         digits (replicate 6 0)) =
    Some [3, 6, 1, 5, 0, 0]"
  using permutation_roundtrip [of "[3, 6, 1, 5]" 2 7 0]
  by (simp add: saved_sequence_def numeral_eq_Suc)

definition demo_result :: "u32 \<Rightarrow> u64 \<Rightarrow> compact_result" where
  "demo_result enc start = zero_result\<lparr>encoding := enc, functionStart := start\<rparr>"

lemma demo_slots:
  "\<forall>i < length [6, 3::nat]. stack_word demo_task (0x2000 + word_of_nat (8 * i)) = Some ([0x9000, 0x5008] ! i)"
  using demo_words by (auto simp: less_Suc_eq numeral_eq_Suc)

lemma frameless_immediate_witness:
  "x86_ComputeRegisters apple_x86 demo_task zero_context (demo_result (frameless_encoding 2 3 0 [6, 3]) 0) demo_regs =
    Some (True, demo_regs\<lparr>ss_rbp := 0x9000, ss_rip := 0x6000, ss_rsp := 0x2018\<rparr>)"
  using frameless_immediate [of "[6, 3]" "[0x9000, 0x5008]" 3 0 "demo_result (frameless_encoding 2 3 0 [6, 3]) 0"
      "0x2000" demo_regs "block 0x2000 (words_mem demo_stack)" "0x6000" zero_context] demo_slots demo_words(3)
  by (simp add: saved_sequence_def demo_result_def demo_regs_def x86_zero_def FIRCLSIsValidPointer_def saved_rbp_def)

lemma le_bytes_add: "le_bytes (m + n) x = le_bytes m x @ le_bytes n (x div 256 ^ m)"
  by (induction m arbitrary: x) (auto simp: div_mult2_eq)

text \<open>The word above the frame stands for the operand of the subtraction.\<close>

definition subl_stack :: "u64 list" where
  "subl_stack = [0x9000, 0x5008, 0x6000, 16]"

lemma subl_words:
  "stack_word (flat_task (block 0x2000 (words_mem subl_stack))) 0x2000 = Some 0x9000"
  "stack_word (flat_task (block 0x2000 (words_mem subl_stack))) 0x2008 = Some 0x5008"
  "stack_word (flat_task (block 0x2000 (words_mem subl_stack))) 0x2010 = Some 0x6000"
  using stack_word_block [of 0 subl_stack "0x2000"] stack_word_block [of 1 subl_stack "0x2000"]
    stack_word_block [of 2 subl_stack "0x2000"]
  by (simp_all add: subl_stack_def)

lemma subl_operand: "holds (flat_task (block 0x2000 (words_mem subl_stack))) 0x2018 (le_bytes 4 16)"
proof -
  have split: "words_mem subl_stack = words_mem [0x9000, 0x5008, 0x6000] @ le_bytes 4 16 @ le_bytes 4 0"
    using le_bytes_add [of 4 4 16] by (simp add: words_mem_def subl_stack_def)
  show ?thesis
    using holds_block_infix [of "words_mem [0x9000, 0x5008, 0x6000]" "le_bytes 4 16" "le_bytes 4 0" "0x2000"]
    unfolding split by simp
qed

lemma frameless_indirect_witness:
  "x86_ComputeRegisters apple_x86 (flat_task (block 0x2000 (words_mem subl_stack)))
      zero_context (demo_result (frameless_encoding 3 4 1 [6, 3]) 0x2014) demo_regs =
    Some (True, demo_regs\<lparr>ss_rbp := 0x9000, ss_rip := 0x6000, ss_rsp := 0x2018\<rparr>)"
proof -
  have slots: "\<forall>i < length [6, 3::nat]. stack_word (flat_task (block 0x2000 (words_mem subl_stack)))
      (0x2000 + word_of_nat (8 * i)) = Some ([0x9000, 0x5008] ! i)"
    using subl_words by (auto simp: less_Suc_eq numeral_eq_Suc)
  have sp: "ss_rsp demo_regs = 0x2000" "saved_rbp [6, 3] [0x9000, 0x5008] (ss_rbp demo_regs) = 0x9000"
    by (simp_all add: demo_regs_def x86_zero_def saved_rbp_def)
  have res: "encoding (demo_result e f) = e" "functionStart (demo_result e f) = f" for e f
    by (simp_all add: demo_result_def)
  note th = frameless_indirect [of "[6, 3]" "[0x9000, 0x5008]" 4 1
      "demo_result (frameless_encoding 3 4 1 [6, 3]) 0x2014" "block 0x2000 (words_mem subl_stack)" 16
      "0x2000" demo_regs "0x6000" zero_context, OF _ _ _ _ res(1) _ _ _ _ _ slots]
  show ?thesis
    using th subl_words(3) subl_operand
    by (simp add: saved_sequence_def FIRCLSIsValidPointer_def sp res)
qed

end
