(* ===== verification/Unwind_Arm.thy ===== *)
theory Unwind_Arm
  imports Unwind_X86
begin

text \<open>
  Unwinding one frame on arm64 without DWARF: \<open>FIRCLSUnwind_arm.c\<close>.  As on x86-64 the constants of
  the SDK's header are a record, with the published values in \<open>apple_arm64\<close>.
\<close>

record arm_encoding =
  UNWIND_ARM64_MODE_MASK :: u32
  UNWIND_ARM64_MODE_FRAMELESS :: u32
  UNWIND_ARM64_MODE_DWARF :: u32
  UNWIND_ARM64_MODE_FRAME :: u32
  UNWIND_ARM64_DWARF_SECTION_OFFSET :: u32

definition apple_arm64 :: arm_encoding where
  "apple_arm64 = \<lparr>
     UNWIND_ARM64_MODE_MASK = 0x0F000000,
     UNWIND_ARM64_MODE_FRAMELESS = 0x02000000,
     UNWIND_ARM64_MODE_DWARF = 0x03000000,
     UNWIND_ARM64_MODE_FRAME = 0x04000000,
     UNWIND_ARM64_DWARF_SECTION_OFFSET = 0x00FFFFFF\<rparr>"

definition FIRCLSUnwindWithLRRegister :: "arm_thread \<Rightarrow> bool \<times> arm_thread" where
  "FIRCLSUnwindWithLRRegister registers =
     (let lr = FIRCLSThreadContextGetLinkRegister arm64 registers in
      if \<not> FIRCLSIsValidPointer lr then (False, registers)
      else (True, FIRCLSThreadContextSetPC arm64 registers lr))"

definition arm_StackPointerFromFramePointer :: "u64 \<Rightarrow> u64" where
  "arm_StackPointerFromFramePointer framePtr = framePtr + 2 * 8"

text \<open>Here the permission to scan the stack is a permission to use the link register.\<close>

definition arm_WithFramePointer :: "task \<Rightarrow> arm_thread \<Rightarrow> bool \<Rightarrow> bool \<times> arm_thread" where
  "arm_WithFramePointer t registers allowScanning =
     (if allowScanning \<and> fst (FIRCLSUnwindWithLRRegister registers)
        then FIRCLSUnwindWithLRRegister registers
      else
        let framePointer = FIRCLSThreadContextGetFramePointer arm64 registers in
        case FIRCLSReadMemory t framePointer 16 of
          None \<Rightarrow> (False, registers)
        | Some stack \<Rightarrow>
            let registers = FIRCLSThreadContextSetPC arm64 registers (le_word (drop 8 stack));
                registers = FIRCLSThreadContextSetFramePointer arm64 registers (le_word (take 8 stack))
            in (True, FIRCLSThreadContextSetStackPointer arm64 registers
                  (arm_StackPointerFromFramePointer framePointer)))"

definition arm_ComputeRegisters ::
    "arm_encoding \<Rightarrow> task \<Rightarrow> compact_context \<Rightarrow> compact_result \<Rightarrow> arm_thread \<Rightarrow>
     (bool \<times> arm_thread) option" where
  "arm_ComputeRegisters X t context result registers =
     (let mode = encoding result AND UNWIND_ARM64_MODE_MASK X in
      if mode = UNWIND_ARM64_MODE_FRAMELESS X then Some (FIRCLSUnwindWithLRRegister registers)
      else if mode = UNWIND_ARM64_MODE_DWARF X then
        FIRCLSCompactUnwindDwarfFrame arm64 t context
          (ucast (encoding result AND UNWIND_ARM64_DWARF_SECTION_OFFSET X)) registers
      else if mode = UNWIND_ARM64_MODE_FRAME X then Some (arm_WithFramePointer t registers False)
      else Some (False, registers))"

section \<open>One step of the unwinder\<close>

text \<open>The stripping of the pointer-authentication bits.\<close>

lemma strip_idem [simp]: "CLS_PTRAUTH_STRIP (CLS_PTRAUTH_STRIP p) = CLS_PTRAUTH_STRIP p"
  by (simp add: CLS_PTRAUTH_STRIP_def and.assoc)

context task_memory begin

lemma arm_frame_step:
  "arm_WithFramePointer t registers False =
    (let fp = CLS_PTRAUTH_STRIP (ss_fp registers) in
     case (stack_word t fp, stack_word t (fp + 8)) of
       (Some saved_fp, Some saved_pc) \<Rightarrow>
         if FIRCLSIsValidPointer fp
         then (True, registers\<lparr>ss_pc := saved_pc, ss_fp := saved_fp, ss_sp := fp + 16\<rparr>)
         else (False, registers)
     | _ \<Rightarrow> (False, registers))"
proof -
  have add: "load_bytes t p 16 = do { xs \<leftarrow> load_bytes t p 8; ys \<leftarrow> load_bytes t (p + 8) 8; Some (xs @ ys) }" for p
    using load_bytes_add [of t p 8 8] by simp
  show ?thesis
    by (cases "load_bytes t (CLS_PTRAUTH_STRIP (ss_fp registers)) 8";
        cases "load_bytes t (CLS_PTRAUTH_STRIP (ss_fp registers) + 8) 8")
      (auto simp: arm_WithFramePointer_def stack_word_def FIRCLSReadMemory_def vm_read_load add
        thread_context_defs arm64_def arm_StackPointerFromFramePointer_def Let_def
        dest!: load_bytes_length)
qed

end

text \<open>The link register, when it may be used and is a valid pointer, gives the program counter and
  leaves the frame alone.\<close>

lemma arm_link_register:
  "FIRCLSIsValidPointer (CLS_PTRAUTH_STRIP (ss_lr registers)) \<Longrightarrow>
   arm_WithFramePointer t registers True =
     (True, registers\<lparr>ss_pc := CLS_PTRAUTH_STRIP (ss_lr registers)\<rparr>)"
  by (simp add: arm_WithFramePointer_def FIRCLSUnwindWithLRRegister_def thread_context_defs arm64_def Let_def)

lemma arm_no_link_register:
  "\<not> FIRCLSIsValidPointer (CLS_PTRAUTH_STRIP (ss_lr registers)) \<Longrightarrow>
   arm_WithFramePointer t registers scan = arm_WithFramePointer t registers False"
  by (simp add: arm_WithFramePointer_def FIRCLSUnwindWithLRRegister_def thread_context_defs arm64_def Let_def)

section \<open>Properties\<close>

text \<open>On arm64 the modes of a compact encoding: a frameless function returns to the link
  register, stripped of its authentication bits, and keeps its frame; a function with a frame takes
  the caller's frame pointer and program counter from the two words at the stripped frame pointer;
  when the link register, the frame pointer or a word of the frame is bad, or the mode is unknown,
  the step fails and changes no register.\<close>

theorem arm_compact_modes:
  "arm_ComputeRegisters apple_arm64 (flat_task m) context result registers =
    (let mode = encoding result AND 0x0F000000;
         fp = CLS_PTRAUTH_STRIP (ss_fp registers);
         lr = CLS_PTRAUTH_STRIP (ss_lr registers) in
     if mode = 0x03000000 then
       FIRCLSCompactUnwindDwarfFrame arm64 (flat_task m) context
         (ucast (encoding result AND 0x00FFFFFF)) registers
     else if mode = 0x02000000 \<and> FIRCLSIsValidPointer lr then Some (True, registers\<lparr>ss_pc := lr\<rparr>)
     else case (stack_word (flat_task m) fp, stack_word (flat_task m) (fp + 8)) of
       (Some saved_fp, Some saved_pc) \<Rightarrow>
         Some (if mode = 0x04000000 \<and> FIRCLSIsValidPointer fp
           then (True, registers\<lparr>ss_pc := saved_pc, ss_fp := saved_fp, ss_sp := fp + 16\<rparr>)
           else (False, registers))
     | _ \<Rightarrow> Some (False, registers))"
  by (simp add: arm_ComputeRegisters_def apple_arm64_def Let_def flat.arm_frame_step
      FIRCLSUnwindWithLRRegister_def thread_context_defs arm64_def split: option.splits)

end
