(* ===== verification/Unwind.thy ===== *)
theory Unwind
  imports Unwind_Arm
begin

text \<open>
  The frame walk: \<open>FIRCLSUnwind.c\<close>.  The two architectures provide the register file, the layout of
  the compact unwind sections and the two functions that step one frame; they are the record
  \<open>unwinder\<close>, instantiated for x86-64 and arm64.  A context is threaded as a value.
\<close>

record 'r unwinder =
  arch_of :: "'r arch"
  abi_of :: unwind_abi
  FIRCLSUnwindWithFramePointer :: "task \<Rightarrow> images \<Rightarrow> 'r \<Rightarrow> bool \<Rightarrow> (bool \<times> 'r) option"
  FIRCLSCompactUnwindComputeRegisters ::
    "task \<Rightarrow> compact_context \<Rightarrow> compact_result \<Rightarrow> 'r \<Rightarrow> (bool \<times> 'r) option"

definition x86_unwinder :: "x86_thread unwinder" where
  "x86_unwinder = \<lparr>arch_of = x86_64, abi_of = apple_abi,
     FIRCLSUnwindWithFramePointer = x86_WithFramePointer,
     FIRCLSCompactUnwindComputeRegisters = x86_ComputeRegisters apple_x86\<rparr>"

definition arm_unwinder :: "arm_thread unwinder" where
  "arm_unwinder = \<lparr>arch_of = arm64, abi_of = apple_abi,
     FIRCLSUnwindWithFramePointer = (\<lambda>t env registers scan. Some (arm_WithFramePointer t registers scan)),
     FIRCLSCompactUnwindComputeRegisters = arm_ComputeRegisters apple_arm64\<rparr>"

text \<open>The limit of the desktop build; the embedded build has 100000.\<close>

definition FIRCLSUnwindMaxFrames :: u32 where
  "FIRCLSUnwindMaxFrames = 600000"

definition FIRCLSUnwindInfiniteRecursionCountThreshold :: u32 where
  "FIRCLSUnwindInfiniteRecursionCountThreshold = 10"

record 'r unwind_context =
  uc_registers :: 'r
  frameCount :: u32
  compactUnwindState :: compact_context
  lastFramePC :: u64
  repeatCount :: u32

definition FIRCLSUnwindInit :: "'r \<Rightarrow> 'r unwind_context" where
  "FIRCLSUnwindInit threadContext = \<lparr>uc_registers = threadContext, frameCount = 0,
     compactUnwindState = zero_context, lastFramePC = 0, repeatCount = 0\<rparr>"

section \<open>Register accessors\<close>

definition FIRCLSUnwindGetPC :: "'r unwinder \<Rightarrow> 'r unwind_context \<Rightarrow> u64" where
  "FIRCLSUnwindGetPC U context = FIRCLSThreadContextGetPC (arch_of U) (uc_registers context)"

definition FIRCLSUnwindGetStackPointer :: "'r unwinder \<Rightarrow> 'r unwind_context \<Rightarrow> u64" where
  "FIRCLSUnwindGetStackPointer U context =
     FIRCLSThreadContextGetStackPointer (arch_of U) (uc_registers context)"

definition FIRCLSUnwindGetFramePointer :: "'r unwinder \<Rightarrow> 'r unwind_context \<Rightarrow> u64" where
  "FIRCLSUnwindGetFramePointer U context =
     FIRCLSThreadContextGetFramePointer (arch_of U) (uc_registers context)"

definition FIRCLSUnwindGetFrameRepeatCount :: "'r unwind_context \<Rightarrow> u32" where
  "FIRCLSUnwindGetFrameRepeatCount context = repeatCount context"

definition FIRCLSUnwindContextHasValidPCAndSP :: "'r unwinder \<Rightarrow> 'r unwind_context \<Rightarrow> bool" where
  "FIRCLSUnwindContextHasValidPCAndSP U context \<longleftrightarrow>
     FIRCLSIsValidPointer (FIRCLSUnwindGetPC U context) \<and>
     FIRCLSIsValidPointer (FIRCLSUnwindGetStackPointer U context)"

section \<open>Strategies\<close>

definition FIRCLSUnwindWithCompactUnwindInfo ::
    "'r unwinder \<Rightarrow> task \<Rightarrow> images \<Rightarrow> 'r unwind_context \<Rightarrow> (bool \<times> 'r unwind_context) option" where
  "FIRCLSUnwindWithCompactUnwindInfo U t env context =
     (case FIRCLSBinaryImageSafeFindImageForAddress env (FIRCLSUnwindGetPC U context) of
        None \<Rightarrow> Some (False, context)
      | Some img \<Rightarrow>
          if \<not> FIRCLSBinaryImageSafeHasUnwindInfo img then Some (False, context)
          else
            let (ok, state) = FIRCLSCompactUnwindInit (abi_of U) t (compactUnwindState context)
                  (image_unwindInfo img) (image_ehFrame img) (baseAddress img) in
            if \<not> ok then Some (False, context\<lparr>compactUnwindState := state\<rparr>)
            else do {
              (ok, state, registers) \<leftarrow> FIRCLSCompactUnwindLookupAndCompute (arch_of U) (abi_of U) t
                (FIRCLSCompactUnwindComputeRegisters U t) state (uc_registers context);
              Some (ok, context\<lparr>compactUnwindState := state, uc_registers := registers\<rparr>) })"

definition FIRCLSUnwindNextFrameUsingAllStrategies ::
    "'r unwinder \<Rightarrow> task \<Rightarrow> images \<Rightarrow> 'r unwind_context \<Rightarrow> (bool \<times> 'r unwind_context) option" where
  "FIRCLSUnwindNextFrameUsingAllStrategies U t env context =
     (if frameCount context \<ge> FIRCLSUnwindMaxFrames then Some (False, context)
      else
        let pc0 = FIRCLSUnwindGetPC U context;
            pc = (if frameCount context > 0 then pc0 - 1 else pc0);
            context = (if frameCount context > 0
              then context\<lparr>uc_registers := FIRCLSThreadContextSetPC (arch_of U) (uc_registers context) pc\<rparr>
              else context) in
        if \<not> FIRCLSIsValidPointer pc then Some (False, context)
        else if frameCount context = 0 then Some (True, context)
        else do {
          (ok, context) \<leftarrow> FIRCLSUnwindWithCompactUnwindInfo U t env context;
          if ok then Some (True, context)
          else if FIRCLSUnwindGetFramePointer U context = 0 then
            Some (True, context\<lparr>uc_registers := FIRCLSThreadContextSetPC (arch_of U) (uc_registers context) 0\<rparr>)
          else do {
            (ok, registers) \<leftarrow> FIRCLSUnwindWithFramePointer U t env (uc_registers context) (frameCount context = 1);
            Some (ok, context\<lparr>uc_registers := registers\<rparr>) } })"

definition FIRCLSUnwindNextFrame ::
    "'r unwinder \<Rightarrow> task \<Rightarrow> images \<Rightarrow> 'r unwind_context \<Rightarrow> (bool \<times> 'r unwind_context) option" where
  "FIRCLSUnwindNextFrame U t env context =
     (if \<not> FIRCLSUnwindContextHasValidPCAndSP U context then Some (False, context)
      else do {
        (ok, context) \<leftarrow> FIRCLSUnwindNextFrameUsingAllStrategies U t env context;
        if \<not> ok then Some (False, context)
        else
          let pc = FIRCLSUnwindGetPC U context; sp = FIRCLSUnwindGetStackPointer U context in
          if \<not> FIRCLSIsValidPointer pc then Some (False, context)
          else if \<not> FIRCLSIsValidPointer sp then Some (False, context)
          else Some (True, context\<lparr>
            repeatCount := (if lastFramePC context = pc then repeatCount context + 1 else 0),
            frameCount := frameCount context + 1,
            lastFramePC := pc\<rparr>) })"

section \<open>The walk as a step relation\<close>

text \<open>\<open>walks c pcs c'\<close>: from \<open>c\<close>, successive calls that return \<open>true\<close> leave the context \<open>c'\<close> after
  visiting the frames with the program counters \<open>pcs\<close>.\<close>

inductive walks :: "'r unwinder \<Rightarrow> task \<Rightarrow> images \<Rightarrow> 'r unwind_context \<Rightarrow> u64 list \<Rightarrow> 'r unwind_context \<Rightarrow> bool"
  for U t env c where
  walks_nil: "walks U t env c [] c"
| walks_snoc: "walks U t env c pcs c' \<Longrightarrow> FIRCLSUnwindNextFrame U t env c' = Some (True, c'') \<Longrightarrow>
    walks U t env c (pcs @ [FIRCLSUnwindGetPC U c'']) c''"

inductive_simps walks_Nil: "walks U t env c [] c'"

text \<open>What a successful step changes.\<close>

lemma lookup_and_compute_frameCount:
  "FIRCLSUnwindWithCompactUnwindInfo U t env c = Some (ok, c') \<Longrightarrow>
   frameCount c' = frameCount c \<and> lastFramePC c' = lastFramePC c \<and> repeatCount c' = repeatCount c"
  by (auto simp: FIRCLSUnwindWithCompactUnwindInfo_def bind_Some_iff Let_def
      split: option.splits if_splits prod.splits)

lemma strategies_counters:
  assumes "FIRCLSUnwindNextFrameUsingAllStrategies U t env c = Some (ok, c')"
  shows "frameCount c' = frameCount c \<and> lastFramePC c' = lastFramePC c \<and> repeatCount c' = repeatCount c"
    and "ok \<Longrightarrow> frameCount c < FIRCLSUnwindMaxFrames"
  using assms
  by (auto simp: FIRCLSUnwindNextFrameUsingAllStrategies_def bind_Some_iff Let_def
      split: if_splits dest!: lookup_and_compute_frameCount)

lemma next_frame_step:
  assumes "FIRCLSUnwindNextFrame U t env c = Some (True, c')"
  shows "frameCount c < FIRCLSUnwindMaxFrames" "frameCount c' = frameCount c + 1"
    "FIRCLSUnwindContextHasValidPCAndSP U c'" "lastFramePC c' = FIRCLSUnwindGetPC U c'"
    "repeatCount c' = (if lastFramePC c = FIRCLSUnwindGetPC U c' then repeatCount c + 1 else 0)"
proof -
  obtain c1 where c1: "FIRCLSUnwindNextFrameUsingAllStrategies U t env c = Some (True, c1)"
    and v: "FIRCLSIsValidPointer (FIRCLSUnwindGetPC U c1)" "FIRCLSIsValidPointer (FIRCLSUnwindGetStackPointer U c1)"
    and c': "c' = c1\<lparr>repeatCount := (if lastFramePC c1 = FIRCLSUnwindGetPC U c1 then repeatCount c1 + 1 else 0),
      frameCount := frameCount c1 + 1, lastFramePC := FIRCLSUnwindGetPC U c1\<rparr>"
    using assms by (auto simp: FIRCLSUnwindNextFrame_def bind_Some_iff Let_def split: if_splits)
  note k = strategies_counters [OF c1]
  show "frameCount c < FIRCLSUnwindMaxFrames" using k(2) by simp
  show "frameCount c' = frameCount c + 1" using k(1) by (simp add: c')
  have pc: "FIRCLSUnwindGetPC U c' = FIRCLSUnwindGetPC U c1"
    "FIRCLSUnwindGetStackPointer U c' = FIRCLSUnwindGetStackPointer U c1"
    by (simp_all add: c' FIRCLSUnwindGetPC_def FIRCLSUnwindGetStackPointer_def)
  show "FIRCLSUnwindContextHasValidPCAndSP U c'" using v pc by (simp add: FIRCLSUnwindContextHasValidPCAndSP_def)
  show "lastFramePC c' = FIRCLSUnwindGetPC U c'" using pc by (simp add: c')
  show "repeatCount c' = (if lastFramePC c = FIRCLSUnwindGetPC U c' then repeatCount c + 1 else 0)"
    using k(1) pc by (simp add: c')
qed

text \<open>How often the last program counter of a walk was already there just before.\<close>

definition trailing_repeats :: "u64 list \<Rightarrow> nat" where
  "trailing_repeats pcs = length (takeWhile (\<lambda>p. p = last pcs) (rev pcs)) - 1"

lemma trailing_repeats_snoc:
  "trailing_repeats (pcs @ [p]) = (if pcs \<noteq> [] \<and> last pcs = p then trailing_repeats pcs + 1 else 0)"
proof (cases "pcs = []")
  case False
  then obtain qs q where "pcs = qs @ [q]" by (metis append_butlast_last_id)
  then show ?thesis by (auto simp: trailing_repeats_def)
qed (simp add: trailing_repeats_def)

lemma trailing_repeats_less: "pcs \<noteq> [] \<Longrightarrow> trailing_repeats pcs < length pcs"
  using length_takeWhile_le [of "\<lambda>p. p = last pcs" "rev pcs"]
  by (cases pcs) (auto simp: trailing_repeats_def)

lemma walk_summary:
  assumes "walks U t env (FIRCLSUnwindInit r) pcs c"
  shows "length pcs \<le> unat FIRCLSUnwindMaxFrames \<and> frameCount c = word_of_nat (length pcs) \<and>
    lastFramePC c = (if pcs = [] then 0 else last pcs) \<and> list_all FIRCLSIsValidPointer pcs \<and>
    (pcs \<noteq> [] \<longrightarrow> FIRCLSUnwindContextHasValidPCAndSP U c \<and> FIRCLSUnwindGetPC U c = last pcs \<and>
       repeatCount c = word_of_nat (trailing_repeats pcs)) \<and> (pcs = [] \<longrightarrow> repeatCount c = 0)"
  using assms
proof (induction rule: walks.induct)
  case walks_nil
  show ?case by (simp add: FIRCLSUnwindInit_def)
next
  case (walks_snoc pcs c' c'')
  note s = next_frame_step [OF walks_snoc.hyps(2)]
  have len: "length pcs < 600000"
    using s(1) walks_snoc.IH by (auto simp: FIRCLSUnwindMaxFrames_def word_less_nat_alt unat_of_nat)
  have valid: "FIRCLSIsValidPointer (FIRCLSUnwindGetPC U c'')"
    using s(3) by (simp add: FIRCLSUnwindContextHasValidPCAndSP_def)
  then have "FIRCLSUnwindGetPC U c'' \<noteq> 0" by (auto simp: FIRCLSIsValidPointer_def)
  then have "repeatCount c'' = word_of_nat (trailing_repeats (pcs @ [FIRCLSUnwindGetPC U c'']))"
    using s(5) walks_snoc.IH by (auto simp: trailing_repeats_snoc)
  then show ?case
    using walks_snoc.IH s len valid
    by (simp add: FIRCLSUnwindMaxFrames_def)
qed

section \<open>Following frame pointers\<close>

text \<open>The frames a chain of saved frame pointers leads to, up to the zero at its end: the list of
  their program counters.  \<open>strip\<close> is what the architecture keeps of a stored pointer.\<close>

fun fp_chain :: "task \<Rightarrow> (u64 \<Rightarrow> u64) \<Rightarrow> u64 \<Rightarrow> u64 list \<Rightarrow> bool" where
  "fp_chain t strip fp [] \<longleftrightarrow> fp = 0"
| "fp_chain t strip fp (pc # pcs) \<longleftrightarrow>
     FIRCLSIsValidPointer fp \<and> FIRCLSIsValidPointer (strip (fp + 16)) \<and> pc > 4096 \<and>
     (\<exists>saved_fp saved_pc. stack_word t fp = Some saved_fp \<and> stack_word t (fp + 8) = Some saved_pc \<and>
        strip saved_pc = pc \<and> fp_chain t strip (strip saved_fp) pcs)"

text \<open>No compact unwind information for an address.\<close>

definition no_unwind_info :: "images \<Rightarrow> u64 \<Rightarrow> bool" where
  "no_unwind_info env a \<longleftrightarrow> (case FIRCLSBinaryImageSafeFindImageForAddress env a of
     None \<Rightarrow> True | Some img \<Rightarrow> \<not> FIRCLSBinaryImageSafeHasUnwindInfo img)"

text \<open>The contract of an architecture's frame step.\<close>

locale frame_strategy =
  fixes U :: "'r unwinder" and t :: task and env :: images and strip :: "u64 \<Rightarrow> u64"
  assumes get_set_pc:
      "FIRCLSThreadContextGetPC (arch_of U) (FIRCLSThreadContextSetPC (arch_of U) r v) = strip v"
    and fp_set_pc: "FIRCLSThreadContextGetFramePointer (arch_of U) (FIRCLSThreadContextSetPC (arch_of U) r v) =
      FIRCLSThreadContextGetFramePointer (arch_of U) r"
    and sp_set_pc: "FIRCLSThreadContextGetStackPointer (arch_of U) (FIRCLSThreadContextSetPC (arch_of U) r v) =
      FIRCLSThreadContextGetStackPointer (arch_of U) r"
    and strip_zero: "strip 0 = 0"
    and frame:
      "FIRCLSIsValidPointer (FIRCLSThreadContextGetFramePointer (arch_of U) r) \<Longrightarrow>
       stack_word t (FIRCLSThreadContextGetFramePointer (arch_of U) r) = Some f \<Longrightarrow>
       stack_word t (FIRCLSThreadContextGetFramePointer (arch_of U) r + 8) = Some p \<Longrightarrow>
       \<exists>r'. FIRCLSUnwindWithFramePointer U t env r False = Some (True, r') \<and>
         FIRCLSThreadContextGetPC (arch_of U) r' = strip p \<and>
         FIRCLSThreadContextGetFramePointer (arch_of U) r' = strip f \<and>
         FIRCLSThreadContextGetStackPointer (arch_of U) r' =
           strip (FIRCLSThreadContextGetFramePointer (arch_of U) r + 16)"
begin

lemmas walk_defs = FIRCLSUnwindNextFrame_def FIRCLSUnwindNextFrameUsingAllStrategies_def
  FIRCLSUnwindContextHasValidPCAndSP_def FIRCLSUnwindGetPC_def FIRCLSUnwindGetStackPointer_def
  FIRCLSUnwindGetFramePointer_def

text \<open>The registers the frame step of a context starts from: the program counter moved back by one.\<close>

abbreviation lookup_registers :: "'r unwind_context \<Rightarrow> 'r" where
  "lookup_registers c \<equiv> FIRCLSThreadContextSetPC (arch_of U) (uc_registers c) (FIRCLSUnwindGetPC U c - 1)"

lemma valid_pred: "pc > 4096 \<Longrightarrow> FIRCLSIsValidPointer pc \<and> FIRCLSIsValidPointer (pc - 1)"
proof -
  assume pc: "pc > 4096"
  then have "unat (pc - 1) = unat pc - 1" by (intro unat_minus_one) auto
  with pc show ?thesis by (simp add: FIRCLSIsValidPointer_def word_le_nat_alt word_less_nat_alt)
qed

lemma no_info_step:
  assumes "0 < frameCount c" "frameCount c < FIRCLSUnwindMaxFrames"
    and "FIRCLSUnwindGetPC U c > 4096" "FIRCLSIsValidPointer (FIRCLSUnwindGetStackPointer U c)"
    and "no_unwind_info env (strip (FIRCLSUnwindGetPC U c - 1))"
  shows "FIRCLSUnwindNextFrame U t env c = do {
      (ok, r) \<leftarrow> (if FIRCLSUnwindGetFramePointer U c = 0
        then Some (True, FIRCLSThreadContextSetPC (arch_of U) (lookup_registers c) 0)
        else FIRCLSUnwindWithFramePointer U t env (lookup_registers c) (frameCount c = 1));
      let c' = c\<lparr>uc_registers := r\<rparr>; pc = FIRCLSUnwindGetPC U c' in
      if ok \<and> FIRCLSIsValidPointer pc \<and> FIRCLSIsValidPointer (FIRCLSUnwindGetStackPointer U c') then
        Some (True, c'\<lparr>repeatCount := (if lastFramePC c = pc then repeatCount c + 1 else 0),
          frameCount := frameCount c + 1, lastFramePC := pc\<rparr>)
      else Some (False, c') }"
proof -
  let ?c = "c\<lparr>uc_registers := lookup_registers c\<rparr>"
  note v = valid_pred [OF assms(3)]
  have lookup: "FIRCLSUnwindGetPC U ?c = strip (FIRCLSUnwindGetPC U c - 1)"
    by (simp add: FIRCLSUnwindGetPC_def get_set_pc)
  have fp: "FIRCLSUnwindGetFramePointer U ?c = FIRCLSUnwindGetFramePointer U c"
    by (simp add: FIRCLSUnwindGetFramePointer_def fp_set_pc)
  have compact: "FIRCLSUnwindWithCompactUnwindInfo U t env ?c = Some (False, ?c)"
    using assms(5) unfolding FIRCLSUnwindWithCompactUnwindInfo_def lookup no_unwind_info_def
    by (simp split: option.splits)
  have gt: "frameCount c > 0" "frameCount c \<noteq> 0" "\<not> FIRCLSUnwindMaxFrames \<le> frameCount c"
    using assms(1,2) by (simp_all add: not_le)
  define step where "step = (if FIRCLSUnwindGetFramePointer U c = 0
    then Some (True, FIRCLSThreadContextSetPC (arch_of U) (lookup_registers c) 0)
    else FIRCLSUnwindWithFramePointer U t env (lookup_registers c) (frameCount c = 1))"
  have strat: "FIRCLSUnwindNextFrameUsingAllStrategies U t env c =
      do { (ok, r) \<leftarrow> step; Some (ok, c\<lparr>uc_registers := r\<rparr>) }"
    using gt v
    by (simp add: FIRCLSUnwindNextFrameUsingAllStrategies_def compact fp step_def Let_def)
  have valid: "FIRCLSUnwindContextHasValidPCAndSP U c"
    using assms(4) v by (simp add: FIRCLSUnwindContextHasValidPCAndSP_def)
  show ?thesis unfolding step_def [symmetric]
    by (cases step) (auto simp: FIRCLSUnwindNextFrame_def strat valid Let_def)
qed

end

context frame_strategy begin

lemma chain_step:
  assumes "0 < frameCount c" "frameCount c < FIRCLSUnwindMaxFrames"
    and "FIRCLSUnwindGetPC U c > 4096" "FIRCLSIsValidPointer (FIRCLSUnwindGetStackPointer U c)"
    and "no_unwind_info env (strip (FIRCLSUnwindGetPC U c - 1))"
    and "frameCount c = 1 \<Longrightarrow> FIRCLSUnwindWithFramePointer U t env (lookup_registers c) True =
      FIRCLSUnwindWithFramePointer U t env (lookup_registers c) False"
    and "fp_chain t strip (FIRCLSUnwindGetFramePointer U c) (pc # pcs)"
  shows "\<exists>c'. FIRCLSUnwindNextFrame U t env c = Some (True, c') \<and> FIRCLSUnwindGetPC U c' = pc \<and>
    fp_chain t strip (FIRCLSUnwindGetFramePointer U c') pcs \<and>
    FIRCLSIsValidPointer (FIRCLSUnwindGetStackPointer U c')"
proof -
  let ?fp = "FIRCLSUnwindGetFramePointer U c"
  obtain f p where ch: "FIRCLSIsValidPointer ?fp" "FIRCLSIsValidPointer (strip (?fp + 16))" "pc > 4096"
    "stack_word t ?fp = Some f" "stack_word t (?fp + 8) = Some p" "strip p = pc" "fp_chain t strip (strip f) pcs"
    using assms(7) by auto
  have fp: "FIRCLSThreadContextGetFramePointer (arch_of U) (lookup_registers c) = ?fp"
    by (simp add: fp_set_pc FIRCLSUnwindGetFramePointer_def)
  obtain r where r: "FIRCLSUnwindWithFramePointer U t env (lookup_registers c) False = Some (True, r)"
    "FIRCLSThreadContextGetPC (arch_of U) r = pc"
    "FIRCLSThreadContextGetFramePointer (arch_of U) r = strip f"
    "FIRCLSThreadContextGetStackPointer (arch_of U) r = strip (?fp + 16)"
    using frame [of "lookup_registers c" f p] ch unfolding fp by auto
  have "FIRCLSUnwindWithFramePointer U t env (lookup_registers c) (frameCount c = 1) = Some (True, r)"
    using assms(6) r(1) by (cases "frameCount c = 1") simp_all
  moreover have "?fp \<noteq> 0" using ch(1) by (auto simp: FIRCLSIsValidPointer_def)
  moreover have "FIRCLSIsValidPointer pc" using valid_pred [OF ch(3)] by simp
  ultimately show ?thesis using r ch
    unfolding no_info_step [OF assms(1-5)]
    by (simp add: FIRCLSUnwindGetPC_def FIRCLSUnwindGetStackPointer_def FIRCLSUnwindGetFramePointer_def Let_def)
qed

lemma limit_step:
  "frameCount c \<ge> FIRCLSUnwindMaxFrames \<Longrightarrow> FIRCLSUnwindNextFrame U t env c = Some (False, c)"
  by (simp add: FIRCLSUnwindNextFrame_def FIRCLSUnwindNextFrameUsingAllStrategies_def)

lemma chain_end:
  assumes "0 < frameCount c" "FIRCLSUnwindGetPC U c > 4096"
    and "FIRCLSIsValidPointer (FIRCLSUnwindGetStackPointer U c)"
    and "no_unwind_info env (strip (FIRCLSUnwindGetPC U c - 1))"
    and "fp_chain t strip (FIRCLSUnwindGetFramePointer U c) []"
  shows "\<exists>c'. FIRCLSUnwindNextFrame U t env c = Some (False, c')"
proof (cases "frameCount c < FIRCLSUnwindMaxFrames")
  case True
  have "FIRCLSUnwindGetFramePointer U c = 0" using assms(5) by simp
  moreover have "\<not> FIRCLSIsValidPointer 0" by (simp add: FIRCLSIsValidPointer_def)
  ultimately show ?thesis
    unfolding no_info_step [OF assms(1) True assms(2-4)]
    by (simp add: FIRCLSUnwindGetPC_def get_set_pc strip_zero Let_def)
qed (use limit_step in \<open>auto simp: not_less\<close>)

text \<open>The whole chain.\<close>

lemma chain_walk:
  assumes "walks U t env c0 ps c" "0 < frameCount c"
    and "unat (frameCount c) + length pcs \<le> unat FIRCLSUnwindMaxFrames"
    and "FIRCLSUnwindGetPC U c > 4096" "FIRCLSIsValidPointer (FIRCLSUnwindGetStackPointer U c)"
    and "\<forall>p \<in> set (FIRCLSUnwindGetPC U c # pcs). no_unwind_info env (strip (p - 1))"
    and "frameCount c = 1 \<Longrightarrow> FIRCLSUnwindWithFramePointer U t env (lookup_registers c) True =
      FIRCLSUnwindWithFramePointer U t env (lookup_registers c) False"
    and "fp_chain t strip (FIRCLSUnwindGetFramePointer U c) pcs"
  shows "\<exists>c' c''. walks U t env c0 (ps @ pcs) c' \<and> FIRCLSUnwindNextFrame U t env c' = Some (False, c'')"
  using assms
proof (induction pcs arbitrary: ps c)
  case Nil
  then show ?case using chain_end [of c] by auto
next
  case (Cons pc pcs)
  have lim: "frameCount c < FIRCLSUnwindMaxFrames" using Cons.prems(3) by (simp add: word_less_nat_alt)
  obtain c' where c': "FIRCLSUnwindNextFrame U t env c = Some (True, c')" "FIRCLSUnwindGetPC U c' = pc"
    "fp_chain t strip (FIRCLSUnwindGetFramePointer U c') pcs"
    "FIRCLSIsValidPointer (FIRCLSUnwindGetStackPointer U c')"
    using chain_step [OF Cons.prems(2) lim Cons.prems(4,5) _ Cons.prems(7,8)] Cons.prems(6) by auto
  have "unat (frameCount c) < 600000" using lim by (simp add: FIRCLSUnwindMaxFrames_def word_less_nat_alt)
  then have fc: "unat (frameCount c') = unat (frameCount c) + 1"
    using next_frame_step(2) [OF c'(1)] by (simp add: unat_word_ariths)
  then have pos: "0 < frameCount c'" "frameCount c' \<noteq> 1"
    using Cons.prems(2) by (auto simp: word_less_nat_alt)
  have w: "walks U t env c0 (ps @ [pc]) c'" using walks_snoc [OF Cons.prems(1) c'(1)] c'(2) by simp
  have "\<exists>c1 c2. walks U t env c0 ((ps @ [pc]) @ pcs) c1 \<and> FIRCLSUnwindNextFrame U t env c1 = Some (False, c2)"
    by (rule Cons.IH [OF w]) (use Cons.prems c' fc pos in auto)
  then show ?case by simp
qed

end

text \<open>The first call only validates the registers the walk starts with.\<close>

lemma first_frame:
  assumes "FIRCLSIsValidPointer (FIRCLSThreadContextGetPC (arch_of U) r)"
    and "FIRCLSIsValidPointer (FIRCLSThreadContextGetStackPointer (arch_of U) r)"
  shows "FIRCLSUnwindNextFrame U t env (FIRCLSUnwindInit r) =
    Some (True, (FIRCLSUnwindInit r)\<lparr>frameCount := 1,
      lastFramePC := FIRCLSThreadContextGetPC (arch_of U) r\<rparr>)"
  using assms
  by (auto simp: FIRCLSUnwindNextFrame_def FIRCLSUnwindNextFrameUsingAllStrategies_def FIRCLSUnwindInit_def
      FIRCLSUnwindContextHasValidPCAndSP_def FIRCLSUnwindGetPC_def FIRCLSUnwindGetStackPointer_def
      FIRCLSUnwindMaxFrames_def FIRCLSIsValidPointer_def Let_def)

section \<open>The two architectures\<close>

interpretation arm_frames: frame_strategy arm_unwinder "flat_task m" env CLS_PTRAUTH_STRIP for m env
  by unfold_locales (auto simp: arm_unwinder_def thread_context_defs arm64_def flat.arm_frame_step Let_def
      CLS_PTRAUTH_STRIP_def)

interpretation x86_frames: frame_strategy x86_unwinder "flat_task m" env "\<lambda>p. p" for m env
  by unfold_locales (auto simp: x86_unwinder_def thread_context_defs x86_64_def x86_WithFramePointer_def
      flat.bp_frame_step)

lemma walks_first:
  assumes "FIRCLSIsValidPointer (FIRCLSThreadContextGetPC (arch_of U) r)"
    and "FIRCLSIsValidPointer (FIRCLSThreadContextGetStackPointer (arch_of U) r)"
  defines "c \<equiv> (FIRCLSUnwindInit r)\<lparr>frameCount := 1, lastFramePC := FIRCLSThreadContextGetPC (arch_of U) r\<rparr>"
  shows "walks U t env (FIRCLSUnwindInit r) [FIRCLSThreadContextGetPC (arch_of U) r] c"
    and "frameCount c = 1" "FIRCLSUnwindGetPC U c = FIRCLSThreadContextGetPC (arch_of U) r"
    and "FIRCLSUnwindGetStackPointer U c = FIRCLSThreadContextGetStackPointer (arch_of U) r"
    and "FIRCLSUnwindGetFramePointer U c = FIRCLSThreadContextGetFramePointer (arch_of U) r"
    and "uc_registers c = r"
  using walks_snoc [OF walks_nil first_frame [OF assms(1,2), of t env]]
  by (simp_all add: c_def FIRCLSUnwindGetPC_def FIRCLSUnwindGetStackPointer_def FIRCLSUnwindGetFramePointer_def
      FIRCLSUnwindInit_def)

lemma unat_max_frames: "unat FIRCLSUnwindMaxFrames = 600000"
  by (simp add: FIRCLSUnwindMaxFrames_def)

lemma above_page: "p > 4096 \<Longrightarrow> FIRCLSIsValidPointer p"
  by (simp add: FIRCLSIsValidPointer_def)

lemma arm_chain_walk:
  fixes r :: arm_thread and m :: "u64 \<Rightarrow> byte option"
  assumes "CLS_PTRAUTH_STRIP (ss_pc r) > 4096" "FIRCLSIsValidPointer (CLS_PTRAUTH_STRIP (ss_sp r))"
    and "CLS_PTRAUTH_STRIP (ss_lr r) \<noteq> 4096"
    and "fp_chain (flat_task m) CLS_PTRAUTH_STRIP (CLS_PTRAUTH_STRIP (ss_fp r)) pcs"
    and "pcs \<noteq> []" "length pcs + 2 \<le> 600000"
    and "\<forall>p \<in> {CLS_PTRAUTH_STRIP (ss_pc r), CLS_PTRAUTH_STRIP (ss_lr r)} \<union> set pcs.
      no_unwind_info env (CLS_PTRAUTH_STRIP (p - 1))"
  shows "\<exists>c c'. walks arm_unwinder (flat_task m) env (FIRCLSUnwindInit r)
      (CLS_PTRAUTH_STRIP (ss_pc r) #
        (if CLS_PTRAUTH_STRIP (ss_lr r) > 4096 then [CLS_PTRAUTH_STRIP (ss_lr r)] else []) @ pcs) c \<and>
    FIRCLSUnwindNextFrame arm_unwinder (flat_task m) env c = Some (False, c')"
proof -
  let ?pc = "CLS_PTRAUTH_STRIP (ss_pc r)" and ?lr = "CLS_PTRAUTH_STRIP (ss_lr r)"
  have get: "FIRCLSThreadContextGetPC (arch_of arm_unwinder) r = ?pc"
    "FIRCLSThreadContextGetStackPointer (arch_of arm_unwinder) r = CLS_PTRAUTH_STRIP (ss_sp r)"
    "FIRCLSThreadContextGetFramePointer (arch_of arm_unwinder) r = CLS_PTRAUTH_STRIP (ss_fp r)"
    by (simp_all add: arm_unwinder_def thread_context_defs arm64_def)
  define c where "c = (FIRCLSUnwindInit r)\<lparr>frameCount := 1, lastFramePC := ?pc\<rparr>"
  note w = walks_first(1) [of arm_unwinder r "flat_task m" env, unfolded get, OF above_page [OF assms(1)] assms(2),
      folded c_def]
    walks_first(2-) [of arm_unwinder r, unfolded get, OF above_page [OF assms(1)] assms(2), folded c_def]
  have regs: "ss_lr (arm_frames.lookup_registers c) = ss_lr r"
    using w(6) by (simp add: arm_unwinder_def thread_context_defs arm64_def)
  show ?thesis
  proof (cases "?lr > 4096")
    case False
    then have "\<not> FIRCLSIsValidPointer ?lr" using assms(3) by (simp add: FIRCLSIsValidPointer_def)
    then have "arm_WithFramePointer (flat_task m) (arm_frames.lookup_registers c) True =
        arm_WithFramePointer (flat_task m) (arm_frames.lookup_registers c) False"
      using arm_no_link_register [of "arm_frames.lookup_registers c" "flat_task m" True] regs by simp
    then have same: "FIRCLSUnwindWithFramePointer arm_unwinder (flat_task m) env (arm_frames.lookup_registers c) True =
        FIRCLSUnwindWithFramePointer arm_unwinder (flat_task m) env (arm_frames.lookup_registers c) False"
      by (simp add: arm_unwinder_def)
    show ?thesis
      using arm_frames.chain_walk [OF w(1), of pcs] same assms False
      by (simp add: w(2-5) unat_max_frames)
  next
    case True
    have fp: "CLS_PTRAUTH_STRIP (ss_fp r) \<noteq> 0"
      using assms(4,5) by (cases pcs) (auto simp: FIRCLSIsValidPointer_def)
    let ?r = "arm_frames.lookup_registers c"
    have step: "FIRCLSUnwindWithFramePointer arm_unwinder (flat_task m) env ?r True =
        Some (True, ?r\<lparr>ss_pc := ?lr\<rparr>)"
      using arm_link_register [of ?r "flat_task m"] True above_page regs by (simp add: arm_unwinder_def)
    let ?c = "c\<lparr>uc_registers := ?r\<lparr>ss_pc := ?lr\<rparr>\<rparr>"
    have get': "FIRCLSUnwindGetPC arm_unwinder ?c = ?lr"
      "FIRCLSUnwindGetStackPointer arm_unwinder ?c = CLS_PTRAUTH_STRIP (ss_sp r)"
      "FIRCLSUnwindGetFramePointer arm_unwinder ?c = CLS_PTRAUTH_STRIP (ss_fp r)"
      using w(6) by (simp_all add: FIRCLSUnwindGetPC_def FIRCLSUnwindGetStackPointer_def
          FIRCLSUnwindGetFramePointer_def arm_unwinder_def thread_context_defs arm64_def)
    define c2 where "c2 = ?c\<lparr>repeatCount := (if ?pc = ?lr then repeatCount c + 1 else 0), frameCount := 2,
      lastFramePC := ?lr\<rparr>"
    have "FIRCLSUnwindNextFrame arm_unwinder (flat_task m) env c = Some (True, c2)"
      using arm_frames.no_info_step [of c env m] assms(1,2,7) w(2-5) fp step get' True above_page
      by (simp add: FIRCLSUnwindMaxFrames_def c_def c2_def Let_def)
    then have w2: "walks arm_unwinder (flat_task m) env (FIRCLSUnwindInit r) ([?pc] @ [FIRCLSUnwindGetPC arm_unwinder c2]) c2"
      by (rule walks_snoc [OF w(1)])
    have get2: "FIRCLSUnwindGetPC arm_unwinder c2 = ?lr"
      "FIRCLSUnwindGetStackPointer arm_unwinder c2 = CLS_PTRAUTH_STRIP (ss_sp r)"
      "FIRCLSUnwindGetFramePointer arm_unwinder c2 = CLS_PTRAUTH_STRIP (ss_fp r)" "frameCount c2 = 2"
      using get' by (simp_all add: c2_def FIRCLSUnwindGetPC_def FIRCLSUnwindGetStackPointer_def
          FIRCLSUnwindGetFramePointer_def)
    show ?thesis
      using arm_frames.chain_walk [OF w2, of pcs] assms True
      by (simp add: get2 unat_max_frames)
  qed
qed

lemma walk_extends:
  assumes "\<forall>pcs c. walks U t env (FIRCLSUnwindInit r) pcs c \<longrightarrow>
    (\<exists>c'. FIRCLSUnwindNextFrame U t env c = Some (True, c'))"
  shows "\<exists>pcs c. walks U t env (FIRCLSUnwindInit r) pcs c \<and> length pcs = n"
proof (induction n)
  case 0
  show ?case using walks_nil by (intro exI conjI) auto
next
  case (Suc n)
  then obtain pcs c where w: "walks U t env (FIRCLSUnwindInit r) pcs c" "length pcs = n" by blast
  obtain c' where "FIRCLSUnwindNextFrame U t env c = Some (True, c')" using assms w(1) by blast
  from walks_snoc [OF w(1) this] w(2) show ?case by (intro exI conjI) auto
qed

lemma walk_ends:
  "\<exists>pcs c. walks U t env (FIRCLSUnwindInit r) pcs c \<and> (FIRCLSUnwindNextFrame U t env c = None \<or>
    (\<exists>c'. FIRCLSUnwindNextFrame U t env c = Some (False, c')))"
proof (rule ccontr)
  assume "\<not> ?thesis"
  then have "\<forall>pcs c. walks U t env (FIRCLSUnwindInit r) pcs c \<longrightarrow>
    (\<exists>c'. FIRCLSUnwindNextFrame U t env c = Some (True, c'))"
    by (metis (full_types) option.exhaust surj_pair)
  from walk_extends [OF this, of "Suc 600000"] obtain pcs c
    where "walks U t env (FIRCLSUnwindInit r) pcs c" "length pcs = Suc 600000" by blast
  with walk_summary [of U t env r pcs c] show False by (simp add: unat_max_frames)
qed

section \<open>Properties\<close>

text \<open>C16. The walk always ends: from any registers and in any memory there are never more than
  600000 successful calls, and the frame count is their exact number, without wrap-around.\<close>

theorem walk_bounded:
  assumes "walks U t env (FIRCLSUnwindInit r) pcs c"
  shows "length pcs \<le> 600000 \<and> unat (frameCount c) = length pcs"
  using walk_summary [OF assms] by (simp add: unat_max_frames unat_of_nat)

text \<open>C17. Every frame the walk visits has a valid program counter and a valid stack pointer, the
  context remembers the last program counter, and the repeat count is the number of times it was
  visited immediately before.\<close>

theorem walk_frames_valid:
  assumes "walks U t env (FIRCLSUnwindInit r) pcs c" "pcs \<noteq> []"
  shows "list_all FIRCLSIsValidPointer pcs \<and> FIRCLSUnwindContextHasValidPCAndSP U c \<and>
    FIRCLSUnwindGetPC U c = last pcs \<and> lastFramePC c = last pcs \<and>
    unat (FIRCLSUnwindGetFrameRepeatCount c) = trailing_repeats pcs"
  using walk_summary [OF assms(1)] assms(2) trailing_repeats_less [OF assms(2)]
  by (simp add: unat_max_frames unat_of_nat FIRCLSUnwindGetFrameRepeatCount_def)

text \<open>C10. On arm64, where no image with unwind information is in the way, the walk visits the
  current program counter, then the link register if it holds a pointer, then exactly the return
  addresses along the chain of saved frame pointers, and stops at its end.\<close>

theorem arm_frame_chain:
  fixes r :: arm_thread and m :: "u64 \<Rightarrow> byte option"
  assumes "CLS_PTRAUTH_STRIP (ss_pc r) > 4096" "FIRCLSIsValidPointer (CLS_PTRAUTH_STRIP (ss_sp r))"
    and "CLS_PTRAUTH_STRIP (ss_lr r) \<noteq> 4096"
    and "fp_chain (flat_task m) CLS_PTRAUTH_STRIP (CLS_PTRAUTH_STRIP (ss_fp r)) pcs"
    and "pcs \<noteq> []" "length pcs + 2 \<le> 600000"
    and "\<forall>p \<in> {CLS_PTRAUTH_STRIP (ss_pc r), CLS_PTRAUTH_STRIP (ss_lr r)} \<union> set pcs.
      no_unwind_info env (CLS_PTRAUTH_STRIP (p - 1))"
  shows "\<exists>c c'. walks arm_unwinder (flat_task m) env (FIRCLSUnwindInit r)
      (CLS_PTRAUTH_STRIP (ss_pc r) #
        (if CLS_PTRAUTH_STRIP (ss_lr r) > 4096 then [CLS_PTRAUTH_STRIP (ss_lr r)] else []) @ pcs) c \<and>
    FIRCLSUnwindNextFrame arm_unwinder (flat_task m) env c = Some (False, c')"
  by (rule arm_chain_walk [OF assms])

text \<open>On x86-64, where no image with unwind information is in the way and no word of the
  current frame lies in an image, the walk visits the current program counter and then exactly the
  return addresses along the chain of saved frame pointers.\<close>

theorem x86_frame_chain:
  fixes r :: x86_thread and m :: "u64 \<Rightarrow> byte option"
  assumes "ss_rip r > 4096" "FIRCLSIsValidPointer (ss_rsp r)"
    and "fp_chain (flat_task m) (\<lambda>p. p) (ss_rbp r) pcs" "length pcs + 1 \<le> 600000"
    and "\<forall>p \<in> set (ss_rip r # pcs). no_unwind_info env (p - 1)"
    and "ws \<noteq> []" "unat (ss_rsp r) + 8 * length ws = unat (ss_rbp r)"
    and "\<forall>i < length ws. stack_word (flat_task m) (ss_rsp r + word_of_nat (8 * i)) = Some (ws ! i)"
    and "list_all (\<lambda>w. \<not> FIRCLSUnwindIsAddressExecutable env w) ws"
  shows "\<exists>c c'. walks x86_unwinder (flat_task m) env (FIRCLSUnwindInit r) (ss_rip r # pcs) c \<and>
    FIRCLSUnwindNextFrame x86_unwinder (flat_task m) env c = Some (False, c')"
proof -
  have get: "FIRCLSThreadContextGetPC (arch_of x86_unwinder) r = ss_rip r"
    "FIRCLSThreadContextGetStackPointer (arch_of x86_unwinder) r = ss_rsp r"
    "FIRCLSThreadContextGetFramePointer (arch_of x86_unwinder) r = ss_rbp r"
    by (simp_all add: x86_unwinder_def thread_context_defs x86_64_def)
  define c where "c = (FIRCLSUnwindInit r)\<lparr>frameCount := 1, lastFramePC := ss_rip r\<rparr>"
  note w = walks_first(1) [of x86_unwinder r "flat_task m" env, unfolded get, OF above_page [OF assms(1)] assms(2),
      folded c_def]
    walks_first(2-) [of x86_unwinder r, unfolded get, OF above_page [OF assms(1)] assms(2), folded c_def]
  let ?r = "x86_frames.lookup_registers c"
  have regs: "ss_rsp ?r = ss_rsp r" "ss_rbp ?r = ss_rbp r"
    using w(6) by (simp_all add: x86_unwinder_def thread_context_defs x86_64_def)
  have none: "List.find (FIRCLSUnwindIsAddressExecutable env) ws = None"
    using assms(9) by (simp add: find_None_iff list_all_iff)
  have "x86_WithFramePointer (flat_task m) env ?r True = x86_WithFramePointer (flat_task m) env ?r False"
    using flat.scan_step_x86 [of ?r ws m env] assms(2,6-8) none
    by (simp add: regs x86_WithFramePointer_def)
  then have same: "FIRCLSUnwindWithFramePointer x86_unwinder (flat_task m) env ?r True =
      FIRCLSUnwindWithFramePointer x86_unwinder (flat_task m) env ?r False"
    by (simp add: x86_unwinder_def)
  show ?thesis
    using x86_frames.chain_walk [OF w(1), of pcs] same assms(1-5)
    by (simp add: w(2-5) unat_max_frames)
qed

section \<open>Witnesses\<close>

text \<open>No images, and a stack with two frames behind the current one.\<close>

definition no_images :: images where
  "no_images = \<lparr>context_initialized = False, nodes = None\<rparr>"

lemma no_images_info [simp]: "no_unwind_info no_images a" "\<not> FIRCLSUnwindIsAddressExecutable no_images a"
  by (simp_all add: no_images_def no_unwind_info_def FIRCLSUnwindIsAddressExecutable_def
      FIRCLSBinaryImageSafeFindImageForAddress_def)

definition chain_stack :: "u64 list" where
  "chain_stack = [0x1234, 0x2018, 0x5100, 0, 0x5200]"

abbreviation chain_task :: task where
  "chain_task \<equiv> flat_task (block 0x2000 (words_mem chain_stack))"

lemma chain_words:
  "stack_word chain_task 0x2000 = Some 0x1234" "stack_word chain_task 0x2008 = Some 0x2018"
  "stack_word chain_task 0x2010 = Some 0x5100" "stack_word chain_task 0x2018 = Some 0"
  "stack_word chain_task 0x2020 = Some 0x5200"
  using stack_word_block [of 0 chain_stack "0x2000"] stack_word_block [of 1 chain_stack "0x2000"]
    stack_word_block [of 2 chain_stack "0x2000"] stack_word_block [of 3 chain_stack "0x2000"]
    stack_word_block [of 4 chain_stack "0x2000"]
  by (simp_all add: chain_stack_def)

definition chain_x86 :: x86_thread where
  "chain_x86 = x86_zero\<lparr>ss_rip := 0x5000, ss_rsp := 0x2000, ss_rbp := 0x2008\<rparr>"

definition chain_arm :: arm_thread where
  "chain_arm = \<lparr>ss_x = \<lambda>n. 0, ss_fp = 0x2008, ss_lr = 0x5050, ss_sp = 0x2000, ss_pc = 0x5000, ss_cpsr = 0\<rparr>"

lemma x86_frame_chain_witness:
  "\<exists>c c'. walks x86_unwinder chain_task no_images (FIRCLSUnwindInit chain_x86) [0x5000, 0x5100, 0x5200] c \<and>
    FIRCLSUnwindNextFrame x86_unwinder chain_task no_images c = Some (False, c')"
  using x86_frame_chain [of chain_x86 "block 0x2000 (words_mem chain_stack)" "[0x5100, 0x5200]" no_images "[0x1234]"]
  by (simp add: chain_x86_def x86_zero_def chain_words FIRCLSIsValidPointer_def)

lemma arm_frame_chain_witness:
  "\<exists>c c'. walks arm_unwinder chain_task no_images (FIRCLSUnwindInit chain_arm) [0x5000, 0x5050, 0x5100, 0x5200] c \<and>
    FIRCLSUnwindNextFrame arm_unwinder chain_task no_images c = Some (False, c')"
  using arm_frame_chain [of chain_arm "block 0x2000 (words_mem chain_stack)" "[0x5100, 0x5200]" no_images]
  by (simp add: chain_arm_def CLS_PTRAUTH_STRIP_def chain_words FIRCLSIsValidPointer_def)

lemma chain_first:
  "walks x86_unwinder chain_task no_images (FIRCLSUnwindInit chain_x86) [0x5000]
    ((FIRCLSUnwindInit chain_x86)\<lparr>frameCount := 1, lastFramePC := 0x5000\<rparr>)"
  using walks_first(1) [of x86_unwinder chain_x86 chain_task no_images]
  by (simp add: x86_unwinder_def thread_context_defs x86_64_def chain_x86_def x86_zero_def FIRCLSIsValidPointer_def)

lemma walk_bounded_witness:
  "unat (frameCount ((FIRCLSUnwindInit chain_x86)\<lparr>frameCount := 1, lastFramePC := 0x5000\<rparr>)) = length [0x5000 :: u64]"
  using walk_bounded [OF chain_first] by simp

lemma walk_frames_valid_witness:
  "FIRCLSUnwindContextHasValidPCAndSP x86_unwinder
     ((FIRCLSUnwindInit chain_x86)\<lparr>frameCount := 1, lastFramePC := 0x5000\<rparr>) \<and> trailing_repeats [0x5000] = 0"
  using walk_frames_valid [OF chain_first] by (simp add: trailing_repeats_def)

end
