(* ===== verification/Report_File.thy ===== *)
theory Report_File
  imports Prelude
begin

text \<open>
  The writer of the crash report: the C functions of \<open>FIRCLSFile.m\<close>.  A report file is its separator
  flag, its nesting depth and the characters written so far; the buffer in front of the descriptor is
  a second, more detailed state at the end of the theory.  Strings are written as they are, without
  escapes.
\<close>

record report_file =
  needComma :: bool
  collectionDepth :: nat
  written :: string

definition emit :: "string \<Rightarrow> report_file \<Rightarrow> report_file" where
  "emit s f = f\<lparr>written := written f @ s\<rparr>"

section \<open>Numbers\<close>

text \<open>\<open>FIRCLSFilePrepareUInt64\<close>: the digits are stored from the end of a 21-byte buffer; the loop
  stops when the number is used up or the index is 0.  The result is the string that starts at the
  returned index.\<close>

definition digit_char :: "u64 \<Rightarrow> char" where
  "digit_char d = (if d \<le> 9 then char_of (48 + unat d) else char_of (87 + unat d))"

fun prepare_loop :: "u64 \<Rightarrow> nat \<Rightarrow> u64 \<Rightarrow> string \<Rightarrow> string" where
  "prepare_loop base 0 number acc = acc"
| "prepare_loop base (Suc i) number acc =
     (let acc = digit_char (number mod base) # acc; number = number div base in
      if number > 0 \<and> i > 0 then prepare_loop base i number acc else acc)"

definition FIRCLSFilePrepareUInt64 :: "u64 \<Rightarrow> bool \<Rightarrow> string" where
  "FIRCLSFilePrepareUInt64 number hex = prepare_loop (if hex then 16 else 10) 20 number []"

definition FIRCLSFileWriteUInt64 :: "u64 \<Rightarrow> bool \<Rightarrow> report_file \<Rightarrow> report_file" where
  "FIRCLSFileWriteUInt64 number hex f = emit (FIRCLSFilePrepareUInt64 number hex) f"

section \<open>Strings\<close>

text \<open>\<open>FIRCLSFileWriteStringWithSuffix\<close>: short strings are assembled in a buffer, long ones written
  in three parts; both write the same characters.\<close>

definition FIRCLSFileWriteStringWithSuffix :: "string \<Rightarrow> string \<Rightarrow> report_file \<Rightarrow> report_file" where
  "FIRCLSFileWriteStringWithSuffix s suffix f =
     (if length s \<ge> 16 - (if suffix = [] then 3 else 4)
      then emit (CHR 0x22 # suffix) (emit s (emit [CHR 0x22] f))
      else emit (CHR 0x22 # s @ CHR 0x22 # suffix) f)"

text \<open>\<open>None\<close> is the null pointer.\<close>

definition FIRCLSFileWriteString :: "string option \<Rightarrow> report_file \<Rightarrow> report_file" where
  "FIRCLSFileWriteString s f = (case s of None \<Rightarrow> emit ''null'' f
     | Some s \<Rightarrow> FIRCLSFileWriteStringWithSuffix s [] f)"

text \<open>\<open>FIRCLSFileWriteHexEncodedString\<close> with its buffer of 32 characters, flushed when full.\<close>

definition FIRCLSHexFromByte :: "char \<Rightarrow> string" where
  "FIRCLSHexFromByte c = [digit_char (word_of_nat (of_char c div 16)), digit_char (word_of_nat (of_char c mod 16))]"

fun hex_loop :: "string \<Rightarrow> string \<Rightarrow> report_file \<Rightarrow> report_file" where
  "hex_loop [] buffer f = (if buffer \<noteq> [] then emit buffer f else f)"
| "hex_loop (c # cs) buffer f =
     (let buffer = buffer @ FIRCLSHexFromByte c in
      if length buffer \<ge> 32 then hex_loop cs [] (emit buffer f) else hex_loop cs buffer f)"

definition FIRCLSFileWriteHexEncodedString :: "string option \<Rightarrow> report_file \<Rightarrow> report_file" where
  "FIRCLSFileWriteHexEncodedString s f = (case s of None \<Rightarrow> emit ''null'' f
     | Some s \<Rightarrow> emit [CHR 0x22] (hex_loop s [] (emit [CHR 0x22] f)))"

definition FIRCLSFileWriteBool :: "bool \<Rightarrow> report_file \<Rightarrow> report_file" where
  "FIRCLSFileWriteBool b f = emit (if b then ''true'' else ''false'') f"

section \<open>Collections\<close>

definition FIRCLSFileWriteCollectionStart :: "char \<Rightarrow> report_file \<Rightarrow> report_file" where
  "FIRCLSFileWriteCollectionStart openingChar f =
     (emit (if needComma f then [CHR '','', openingChar] else [openingChar]) f)
       \<lparr>collectionDepth := collectionDepth f + 1, needComma := False\<rparr>"

definition FIRCLSFileWriteCollectionEnd :: "char \<Rightarrow> report_file \<Rightarrow> report_file" where
  "FIRCLSFileWriteCollectionEnd closingChar f =
     (let f = emit [closingChar] f in
      if collectionDepth f = 0 then f
      else f\<lparr>collectionDepth := collectionDepth f - 1, needComma := collectionDepth f - 1 > 0\<rparr>)"

definition FIRCLSFileWriteColletionEntryProlog :: "report_file \<Rightarrow> report_file" where
  "FIRCLSFileWriteColletionEntryProlog f = (if needComma f then emit '','' f else f)"

definition FIRCLSFileWriteColletionEntryEpilog :: "report_file \<Rightarrow> report_file" where
  "FIRCLSFileWriteColletionEntryEpilog f = f\<lparr>needComma := True\<rparr>"

definition FIRCLSFileWriteHashStart :: "report_file \<Rightarrow> report_file" where
  "FIRCLSFileWriteHashStart = FIRCLSFileWriteCollectionStart (CHR ''{'')"

definition FIRCLSFileWriteHashEnd :: "report_file \<Rightarrow> report_file" where
  "FIRCLSFileWriteHashEnd = FIRCLSFileWriteCollectionEnd (CHR ''}'')"

definition FIRCLSFileWriteHashKey :: "string \<Rightarrow> report_file \<Rightarrow> report_file" where
  "FIRCLSFileWriteHashKey key f =
     (FIRCLSFileWriteStringWithSuffix key '':'' (FIRCLSFileWriteColletionEntryProlog f))\<lparr>needComma := False\<rparr>"

definition FIRCLSFileWriteHashEntryUint64 :: "string \<Rightarrow> u64 \<Rightarrow> report_file \<Rightarrow> report_file" where
  "FIRCLSFileWriteHashEntryUint64 key v f =
     FIRCLSFileWriteColletionEntryEpilog (FIRCLSFileWriteUInt64 v False (FIRCLSFileWriteHashKey key f))"

definition FIRCLSFileWriteHashEntryString :: "string \<Rightarrow> string option \<Rightarrow> report_file \<Rightarrow> report_file" where
  "FIRCLSFileWriteHashEntryString key v f =
     FIRCLSFileWriteColletionEntryEpilog (FIRCLSFileWriteString v (FIRCLSFileWriteHashKey key f))"

definition FIRCLSFileWriteHashEntryBoolean :: "string \<Rightarrow> bool \<Rightarrow> report_file \<Rightarrow> report_file" where
  "FIRCLSFileWriteHashEntryBoolean key v f =
     FIRCLSFileWriteColletionEntryEpilog (FIRCLSFileWriteBool v (FIRCLSFileWriteHashKey key f))"

definition FIRCLSFileWriteArrayStart :: "report_file \<Rightarrow> report_file" where
  "FIRCLSFileWriteArrayStart = FIRCLSFileWriteCollectionStart (CHR ''['')"

definition FIRCLSFileWriteArrayEnd :: "report_file \<Rightarrow> report_file" where
  "FIRCLSFileWriteArrayEnd = FIRCLSFileWriteCollectionEnd (CHR '']'')"

definition FIRCLSFileWriteArrayEntryUint64 :: "u64 \<Rightarrow> report_file \<Rightarrow> report_file" where
  "FIRCLSFileWriteArrayEntryUint64 v f =
     FIRCLSFileWriteColletionEntryEpilog (FIRCLSFileWriteUInt64 v False (FIRCLSFileWriteColletionEntryProlog f))"

definition FIRCLSFileWriteArrayEntryString :: "string option \<Rightarrow> report_file \<Rightarrow> report_file" where
  "FIRCLSFileWriteArrayEntryString v f =
     FIRCLSFileWriteColletionEntryEpilog (FIRCLSFileWriteString v (FIRCLSFileWriteColletionEntryProlog f))"

definition FIRCLSFileWriteArrayEntryHexEncodedString :: "string option \<Rightarrow> report_file \<Rightarrow> report_file" where
  "FIRCLSFileWriteArrayEntryHexEncodedString v f =
     FIRCLSFileWriteColletionEntryEpilog (FIRCLSFileWriteHexEncodedString v (FIRCLSFileWriteColletionEntryProlog f))"

definition FIRCLSFileWriteSectionStart :: "string \<Rightarrow> report_file \<Rightarrow> report_file" where
  "FIRCLSFileWriteSectionStart name f = FIRCLSFileWriteHashKey name (FIRCLSFileWriteHashStart f)"

definition FIRCLSFileWriteSectionEnd :: "report_file \<Rightarrow> report_file" where
  "FIRCLSFileWriteSectionEnd f = emit [CHR 0x0A] (FIRCLSFileWriteHashEnd f)"

lemmas file_defs = FIRCLSFileWriteUInt64_def FIRCLSFileWriteString_def FIRCLSFileWriteBool_def
  FIRCLSFileWriteCollectionStart_def FIRCLSFileWriteCollectionEnd_def
  FIRCLSFileWriteColletionEntryProlog_def FIRCLSFileWriteColletionEntryEpilog_def
  FIRCLSFileWriteHashStart_def FIRCLSFileWriteHashEnd_def FIRCLSFileWriteHashKey_def
  FIRCLSFileWriteHashEntryUint64_def FIRCLSFileWriteHashEntryString_def FIRCLSFileWriteHashEntryBoolean_def
  FIRCLSFileWriteArrayStart_def FIRCLSFileWriteArrayEnd_def FIRCLSFileWriteArrayEntryUint64_def
  FIRCLSFileWriteArrayEntryString_def FIRCLSFileWriteArrayEntryHexEncodedString_def
  FIRCLSFileWriteSectionStart_def FIRCLSFileWriteSectionEnd_def

section \<open>What is written: JSON values\<close>

datatype json =
  JUint u64 | JBool bool | JString "string option" | JHex "string option"
| JObject "(string \<times> json) list" | JArray "json list"

fun commas :: "string list \<Rightarrow> string" where
  "commas [] = []"
| "commas [s] = s"
| "commas (s # t # ss) = s @ CHR '','' # commas (t # ss)"

definition quoted :: "string \<Rightarrow> string" where
  "quoted s = CHR 0x22 # s @ [CHR 0x22]"

fun print_json :: "json \<Rightarrow> string" where
  "print_json (JUint n) = FIRCLSFilePrepareUInt64 n False"
| "print_json (JBool b) = (if b then ''true'' else ''false'')"
| "print_json (JString s) = (case s of None \<Rightarrow> ''null'' | Some s \<Rightarrow> quoted s)"
| "print_json (JHex s) = (case s of None \<Rightarrow> ''null'' | Some s \<Rightarrow> quoted (concat (map FIRCLSHexFromByte s)))"
| "print_json (JObject es) = CHR ''{'' # commas (map (\<lambda>(k, v). quoted k @ CHR '':'' # print_json v) es) @ ''}''"
| "print_json (JArray vs) = CHR ''['' # commas (map print_json vs) @ '']''"

section \<open>Sections are printed JSON\<close>

text \<open>The calls that write an entry of an object, an element of an array, and a whole section.\<close>

fun write_collection :: "json \<Rightarrow> report_file \<Rightarrow> report_file"
  and write_entry :: "string \<Rightarrow> json \<Rightarrow> report_file \<Rightarrow> report_file"
  and write_element :: "json \<Rightarrow> report_file \<Rightarrow> report_file" where
  "write_collection (JObject es) f =
     FIRCLSFileWriteHashEnd (fold (\<lambda>(k, v). write_entry k v) es (FIRCLSFileWriteHashStart f))"
| "write_collection (JArray vs) f =
     FIRCLSFileWriteArrayEnd (fold write_element vs (FIRCLSFileWriteArrayStart f))"
| "write_collection _ f = f"
| "write_entry k (JUint n) f = FIRCLSFileWriteHashEntryUint64 k n f"
| "write_entry k (JBool b) f = FIRCLSFileWriteHashEntryBoolean k b f"
| "write_entry k (JString s) f = FIRCLSFileWriteHashEntryString k s f"
| "write_entry k v f = write_collection v (FIRCLSFileWriteHashKey k f)"
| "write_element (JUint n) f = FIRCLSFileWriteArrayEntryUint64 n f"
| "write_element (JString s) f = FIRCLSFileWriteArrayEntryString s f"
| "write_element (JHex s) f = FIRCLSFileWriteArrayEntryHexEncodedString s f"
| "write_element v f = write_collection v f"

text \<open>The values the writer has calls for: booleans only as entries, hex strings only as elements,
  and nothing but a collection where a collection is expected.\<close>

fun writable :: "json \<Rightarrow> bool"
  and writable_entry :: "json \<Rightarrow> bool"
  and writable_element :: "json \<Rightarrow> bool" where
  "writable (JObject es) = list_all (\<lambda>(k, v). writable_entry v) es"
| "writable (JArray vs) = list_all writable_element vs"
| "writable _ = False"
| "writable_entry (JHex s) = False"
| "writable_entry (JUint n) = True"
| "writable_entry (JBool n) = True"
| "writable_entry (JString n) = True"
| "writable_entry v = writable v"
| "writable_element (JBool b) = False"
| "writable_element (JUint n) = True"
| "writable_element (JString n) = True"
| "writable_element (JHex n) = True"
| "writable_element v = writable v"

definition sep :: "report_file \<Rightarrow> string" where
  "sep f = (if needComma f then '','' else [])"

lemma emit_simps [simp]: "needComma (emit s f) = needComma f" "collectionDepth (emit s f) = collectionDepth f"
  "written (emit s f) = written f @ s"
  by (simp_all add: emit_def)

lemma emit_emit: "emit t (emit s f) = emit (s @ t) f"
  by (simp add: emit_def)

lemma string_with_suffix: "FIRCLSFileWriteStringWithSuffix s suffix f = emit (quoted s @ suffix) f"
  by (simp add: FIRCLSFileWriteStringWithSuffix_def emit_emit quoted_def)

lemma hex_loop_emit: "hex_loop cs buffer f = emit (buffer @ concat (map FIRCLSHexFromByte cs)) f"
  by (induction cs arbitrary: buffer f) (auto simp: Let_def emit_def)

lemma hex_string: "FIRCLSFileWriteHexEncodedString s f = emit (print_json (JHex s)) f"
  by (auto simp: FIRCLSFileWriteHexEncodedString_def hex_loop_emit emit_emit quoted_def split: option.split)

lemma fold_commas:
  assumes "\<And>x g. x \<in> set xs \<Longrightarrow> collectionDepth g > 0 \<Longrightarrow>
      w x g = g\<lparr>written := written g @ sep g @ txt x, needComma := True\<rparr>"
    and "collectionDepth f > 0"
  shows "fold w xs f = f\<lparr>written := written f @ (if xs = [] then [] else sep f @ commas (map txt xs)),
    needComma := needComma f \<or> xs \<noteq> []\<rparr>"
  using assms
proof (induction xs arbitrary: f)
  case (Cons x xs)
  let ?g = "f\<lparr>written := written f @ sep f @ txt x, needComma := True\<rparr>"
  have w: "w x f = ?g" using Cons.prems by simp
  have "fold w xs ?g = ?g\<lparr>written := written ?g @ (if xs = [] then [] else sep ?g @ commas (map txt xs)),
      needComma := needComma ?g \<or> xs \<noteq> []\<rparr>"
    using Cons.prems by (intro Cons.IH) auto
  then show ?case by (cases xs) (simp_all add: w sep_def)
qed simp

lemma write_json:
  "writable v \<Longrightarrow> write_collection v f =
     f\<lparr>written := written f @ sep f @ print_json v, needComma := collectionDepth f > 0\<rparr>"
  "writable_entry v' \<Longrightarrow> collectionDepth f > 0 \<Longrightarrow> write_entry k v' f =
     f\<lparr>written := written f @ sep f @ quoted k @ CHR '':'' # print_json v', needComma := True\<rparr>"
  "writable_element v'' \<Longrightarrow> collectionDepth f > 0 \<Longrightarrow> write_element v'' f =
     f\<lparr>written := written f @ sep f @ print_json v'', needComma := True\<rparr>"
proof (induction v f and k v' f and v'' f rule: write_collection_write_entry_write_element.induct)
  case (1 es f)
  have "fold (\<lambda>(k, v). write_entry k v) es (FIRCLSFileWriteHashStart f) = (FIRCLSFileWriteHashStart f)
      \<lparr>written := written (FIRCLSFileWriteHashStart f) @
        (if es = [] then [] else sep (FIRCLSFileWriteHashStart f) @
          commas (map (\<lambda>(k, v). quoted k @ CHR '':'' # print_json v) es)),
       needComma := needComma (FIRCLSFileWriteHashStart f) \<or> es \<noteq> []\<rparr>"
    by (rule fold_commas) (use 1 in \<open>auto simp: list_all_iff file_defs\<close>)
  then show ?case
    by (simp add: FIRCLSFileWriteHashStart_def FIRCLSFileWriteHashEnd_def
        FIRCLSFileWriteCollectionStart_def FIRCLSFileWriteCollectionEnd_def sep_def emit_def)
next
  case (2 vs f)
  have "fold write_element vs (FIRCLSFileWriteArrayStart f) = (FIRCLSFileWriteArrayStart f)
      \<lparr>written := written (FIRCLSFileWriteArrayStart f) @
        (if vs = [] then [] else sep (FIRCLSFileWriteArrayStart f) @ commas (map print_json vs)),
       needComma := needComma (FIRCLSFileWriteArrayStart f) \<or> vs \<noteq> []\<rparr>"
    by (rule fold_commas) (use 2 in \<open>auto simp: list_all_iff file_defs\<close>)
  then show ?case
    by (simp add: FIRCLSFileWriteArrayStart_def FIRCLSFileWriteArrayEnd_def
        FIRCLSFileWriteCollectionStart_def FIRCLSFileWriteCollectionEnd_def sep_def emit_def)
qed (auto simp: file_defs string_with_suffix hex_string sep_def emit_def split: option.split)

section \<open>The digits of a number\<close>

definition digit_value :: "char \<Rightarrow> nat" where
  "digit_value c = (if of_char c < (58::nat) then of_char c - 48 else of_char c - 87)"

definition digits_value :: "nat \<Rightarrow> string \<Rightarrow> nat" where
  "digits_value base s = foldl (\<lambda>a c. a * base + digit_value c) 0 s"

lemma digit_value_char: "d < 16 \<Longrightarrow> digit_value (digit_char d) = unat d"
proof -
  assume d: "d < 16"
  then have "unat d < 16" by (simp add: word_less_nat_alt)
  then show ?thesis
    by (auto simp: digit_value_def digit_char_def word_le_nat_alt)
qed

lemma char_zero: "char_of (48 :: nat) = CHR ''0''"
proof -
  have "of_char (char_of (48 :: nat) :: char) = (of_char CHR ''0'' :: nat)" by simp
  then show ?thesis by (simp only: of_char_eq_iff)
qed

lemma digit_char_zero: "d < 16 \<Longrightarrow> digit_char d = CHR ''0'' \<longleftrightarrow> d = 0"
proof
  assume d: "d < 16" "digit_char d = CHR ''0''"
  then have "unat d = digit_value CHR ''0''" using digit_value_char by metis
  then show "d = 0" by (simp add: digit_value_def unat_eq_0)
qed (simp add: digit_char_def char_zero)

lemma foldl_digits_append:
  "foldl (\<lambda>a c. a * base + digit_value c) x (s @ t) =
    foldl (\<lambda>a c. a * base + digit_value c) (foldl (\<lambda>a c. a * base + digit_value c) x s) t"
  by simp

lemma prepare_loop_digits:
  assumes "1 < base" "base \<le> 16" "unat number < unat base ^ i" "0 < i"
  shows "\<exists>ds. prepare_loop base i number acc = ds @ acc \<and> ds \<noteq> [] \<and> length ds \<le> i \<and>
    digits_value (unat base) ds = unat number \<and> (hd ds = CHR ''0'' \<longrightarrow> number = 0 \<and> length ds = 1)"
  using assms(3,4)
proof (induction i arbitrary: number acc)
  case (Suc i)
  have base: "1 < unat base" "unat base \<le> 16" using assms(1,2) by (simp_all add: word_less_nat_alt word_le_nat_alt)
  let ?d = "number mod base" and ?n = "number div base"
  have ud: "unat ?d = unat number mod unat base" "unat ?n = unat number div unat base"
    by (simp_all add: unat_mod_distrib unat_div_distrib)
  have "unat ?d < unat base" using base by (simp add: ud)
  then have "unat ?d < 16" using base(2) by linarith
  then have d: "?d < 16" by (simp add: word_less_nat_alt)
  have split: "unat number = unat ?n * unat base + unat ?d" by (simp add: ud)
  show ?case
  proof (cases "?n > 0 \<and> i > 0")
    case True
    have "unat ?n < unat base ^ i"
      using Suc.prems(1) base by (simp add: ud less_mult_imp_div_less mult.commute)
    then obtain ds where ds: "prepare_loop base i ?n (digit_char ?d # acc) = ds @ digit_char ?d # acc"
      "ds \<noteq> []" "length ds \<le> i" "digits_value (unat base) ds = unat ?n"
      "hd ds = CHR ''0'' \<longrightarrow> ?n = 0 \<and> length ds = 1"
      using Suc.IH [of ?n "digit_char ?d # acc"] True by auto
    have "prepare_loop base (Suc i) number acc = (ds @ [digit_char ?d]) @ acc"
      using True ds(1) by (simp add: Let_def)
    moreover have "digits_value (unat base) (ds @ [digit_char ?d]) = unat number"
      using ds(4) digit_value_char [OF d] split by (simp add: digits_value_def)
    ultimately show ?thesis using ds True
      by (intro exI [of _ "ds @ [digit_char ?d]"]) auto
  next
    case False
    have "?n = 0"
    proof (cases "i = 0")
      case True
      then have "unat ?n = 0" using Suc.prems(1) base by (simp add: ud)
      then show ?thesis by (simp add: unat_eq_0)
    qed (use False word_neq_0_conv [of ?n] in auto)
    then have "unat number = unat ?d" using split by simp
    then have eq: "number = ?d" by (simp add: word_unat_eq_iff)
    have "prepare_loop base (Suc i) number acc = [digit_char ?d] @ acc"
      using False by (auto simp: Let_def)
    moreover have "digits_value (unat base) [digit_char ?d] = unat number"
      using digit_value_char [OF d] eq by (simp add: digits_value_def)
    moreover have "digit_char ?d = CHR ''0'' \<longrightarrow> number = 0"
      using digit_char_zero [OF d] eq by simp
    ultimately show ?thesis by (intro exI [of _ "[digit_char ?d]"]) auto
  qed
qed simp

section \<open>The buffer in front of the descriptor\<close>

text \<open>\<open>FIRCLSFileLoopWithWriteBlock\<close> around the kernel's \<open>write\<close>.  The results of the successive system
  calls are a list; past its end every call writes all it is given.  The state of the descriptor is
  the data that reached the file and the results still to come.\<close>

record descriptor =
  fd_data :: string
  write_results :: "int list"

definition sys_write :: "string \<Rightarrow> descriptor \<Rightarrow> int \<times> descriptor" where
  "sys_write buf d = (case write_results d of
       [] \<Rightarrow> (int (length buf), d\<lparr>fd_data := fd_data d @ buf\<rparr>)
     | r # rs \<Rightarrow> (r, d\<lparr>fd_data := fd_data d @ take (nat r) buf, write_results := rs\<rparr>))"

definition CLS_FILE_MAX_WRITE_ATTEMPTS :: nat where
  "CLS_FILE_MAX_WRITE_ATTEMPTS = 50"

fun write_loop :: "nat \<Rightarrow> string \<Rightarrow> descriptor \<Rightarrow> bool \<times> descriptor" where
  "write_loop 0 buf d = (False, d)"
| "write_loop (Suc k) buf d =
     (if length buf = 0 then (False, d)
      else
        let (ret, d) = sys_write buf d in
        if ret \<ge> 0 \<and> ret = int (length buf) then (True, d)
        else if ret < 0 then (False, d)
        else if ret > int (length buf) then (False, d)
        else if ret > 0 then write_loop k (drop (nat ret) buf) d
        else (False, d))"

definition FIRCLSFileWriteWithRetries :: "string \<Rightarrow> descriptor \<Rightarrow> bool \<times> descriptor" where
  "FIRCLSFileWriteWithRetries buf d = write_loop CLS_FILE_MAX_WRITE_ATTEMPTS buf d"

record buffered_file =
  descr :: descriptor
  bufferWrites :: bool
  writeBuffer :: string
  writtenLength :: nat

definition FIRCLSWriteBufferLength :: nat where
  "FIRCLSWriteBufferLength = 1000"

definition FIRCLSFileWriteToFileDescriptor :: "string \<Rightarrow> buffered_file \<Rightarrow> buffered_file" where
  "FIRCLSFileWriteToFileDescriptor s f =
     (let (ok, d) = FIRCLSFileWriteWithRetries s (descr f) in
      if ok then f\<lparr>descr := d, writtenLength := writtenLength f + length s\<rparr> else f\<lparr>descr := d\<rparr>)"

text \<open>\<open>strncpy\<close>: the characters up to the first null, and nulls for the rest of the \<open>n\<close>.\<close>

definition strncpy :: "string \<Rightarrow> nat \<Rightarrow> string" where
  "strncpy s n = (let t = takeWhile (\<lambda>c. c \<noteq> CHR 0x00) (take n s) in t @ replicate (n - length t) (CHR 0x00))"

definition FIRCLSFileWriteToBuffer :: "string \<Rightarrow> buffered_file \<Rightarrow> buffered_file" where
  "FIRCLSFileWriteToBuffer s f =
     (let len = (if length (writeBuffer f) + length s > FIRCLSWriteBufferLength - 1
        then FIRCLSWriteBufferLength - length (writeBuffer f) - 1 else length s) in
      f\<lparr>writeBuffer := writeBuffer f @ strncpy s len\<rparr>)"

definition FIRCLSFileFlushWriteBuffer :: "buffered_file \<Rightarrow> buffered_file" where
  "FIRCLSFileFlushWriteBuffer f =
     (if \<not> bufferWrites f then f
      else (FIRCLSFileWriteToFileDescriptor (writeBuffer f) f)\<lparr>writeBuffer := []\<rparr>)"

lemma flush_simps [simp]:
  "bufferWrites (FIRCLSFileFlushWriteBuffer f) = bufferWrites f"
  "bufferWrites (FIRCLSFileWriteToBuffer s f) = bufferWrites f"
  "bufferWrites f \<Longrightarrow> writeBuffer (FIRCLSFileFlushWriteBuffer f) = []"
  by (auto simp: FIRCLSFileFlushWriteBuffer_def FIRCLSFileWriteToFileDescriptor_def
      FIRCLSFileWriteToBuffer_def Let_def split: prod.split)

function FIRCLSFileWriteToFileDescriptorOrBuffer :: "string \<Rightarrow> buffered_file \<Rightarrow> buffered_file" where
  "FIRCLSFileWriteToFileDescriptorOrBuffer s f =
     (if bufferWrites f then
        if length (writeBuffer f) + length s > FIRCLSWriteBufferLength - 1 then
          let remainingSpace = FIRCLSWriteBufferLength - length (writeBuffer f) - 1;
              f = FIRCLSFileFlushWriteBuffer (FIRCLSFileWriteToBuffer (take remainingSpace s) f)
          in FIRCLSFileWriteToFileDescriptorOrBuffer (drop remainingSpace s) f
        else FIRCLSFileWriteToBuffer s f
      else FIRCLSFileWriteToFileDescriptor s f)"
  by pat_completeness auto
termination
proof (relation "measures [\<lambda>(s, f). length s, \<lambda>(s, f). length (writeBuffer f)]")
  fix s :: string and f x xa
  assume a: "bufferWrites f" "FIRCLSWriteBufferLength - 1 < length (writeBuffer f) + length s"
    "x = FIRCLSWriteBufferLength - length (writeBuffer f) - 1"
    "xa = FIRCLSFileFlushWriteBuffer (FIRCLSFileWriteToBuffer (take x s) f)"
  then show "((drop x s, xa), s, f) \<in> measures [\<lambda>(s, f). length s, \<lambda>(s, f). length (writeBuffer f)]"
    by (cases "s = []") (auto simp: FIRCLSWriteBufferLength_def)
qed simp
declare FIRCLSFileWriteToFileDescriptorOrBuffer.simps [simp del]

lemma write_loop_prefix:
  "\<exists>p q. buf = p @ q \<and> fd_data (snd (write_loop k buf d)) = fd_data d @ p \<and> (fst (write_loop k buf d) \<longrightarrow> q = [])"
proof (induction k arbitrary: buf d)
  case (Suc k)
  obtain ret d' where sw: "sys_write buf d = (ret, d')" by fastforce
  then have d': "fd_data d' = fd_data d @ take (nat ret) buf"
    by (auto simp: sys_write_def split: list.splits)
  consider "length buf = 0" | "ret = int (length buf)" "length buf \<noteq> 0"
    | "0 < ret" "ret < int (length buf)" | "ret \<le> 0 \<or> ret > int (length buf)" "ret \<noteq> int (length buf)" "length buf \<noteq> 0"
    by linarith
  then show ?case
  proof cases
    case 3
    obtain p q where "drop (nat ret) buf = p @ q"
      "fd_data (snd (write_loop k (drop (nat ret) buf) d')) = fd_data d' @ p"
      "fst (write_loop k (drop (nat ret) buf) d') \<longrightarrow> q = []"
      using Suc.IH by blast
    then show ?thesis using 3 sw d' append_take_drop_id [of "nat ret" buf]
      by (intro exI [of _ "take (nat ret) buf @ p"] exI [of _ q]) auto
  next
    case 4
    then have "write_loop (Suc k) buf d = (False, d')" using sw by auto
    then show ?thesis using d' append_take_drop_id [of "nat ret" buf]
      by (intro exI [of _ "take (nat ret) buf"] exI [of _ "drop (nat ret) buf"]) auto
  qed (use sw d' in auto)
qed simp

lemma write_all: "write_results d = [] \<Longrightarrow> 
  snd (FIRCLSFileWriteWithRetries buf d) = d\<lparr>fd_data := fd_data d @ buf\<rparr>"
  by (cases buf) (simp_all add: FIRCLSFileWriteWithRetries_def CLS_FILE_MAX_WRITE_ATTEMPTS_def
      numeral_eq_Suc sys_write_def)

definition no_null :: "string \<Rightarrow> bool" where
  "no_null s \<longleftrightarrow> CHR 0x00 \<notin> set s"

lemma strncpy_length [simp]: "length (strncpy s n) = n"
  using length_takeWhile_le [of "\<lambda>c. c \<noteq> CHR 0x00" "take n s"] by (simp add: strncpy_def Let_def)

lemma strncpy_no_null:
  assumes "no_null s"
  shows "strncpy s (length s) = s"
proof -
  have "takeWhile (\<lambda>c. c \<noteq> CHR 0x00) (take (length s) s) = s"
    using assms by (auto simp: no_null_def takeWhile_eq_all_conv)
  then show ?thesis unfolding strncpy_def Let_def by (simp only: diff_self_eq_0 replicate_0 append_Nil2)
qed

lemma no_null_parts: "no_null s \<Longrightarrow> no_null (take n s) \<and> no_null (drop n s)"
  by (auto simp: no_null_def dest: in_set_takeD in_set_dropD)

text \<open>A descriptor that takes everything, and a buffer that fits.\<close>

definition ready :: "buffered_file \<Rightarrow> bool" where
  "ready f \<longleftrightarrow> length (writeBuffer f) < FIRCLSWriteBufferLength \<and> write_results (descr f) = [] \<and>
     (bufferWrites f \<or> writeBuffer f = [])"

definition contents :: "buffered_file \<Rightarrow> string" where
  "contents f = fd_data (descr f) @ writeBuffer f"

lemma to_descriptor: "write_results (descr f) = [] \<Longrightarrow>
    descr (FIRCLSFileWriteToFileDescriptor s f) = (descr f)\<lparr>fd_data := fd_data (descr f) @ s\<rparr>"
    "writeBuffer (FIRCLSFileWriteToFileDescriptor s f) = writeBuffer f"
    "bufferWrites (FIRCLSFileWriteToFileDescriptor s f) = bufferWrites f"
  using write_all [of "descr f" s]
  by (auto simp: FIRCLSFileWriteToFileDescriptor_def split: prod.split)

lemma flush_ready:
  assumes "ready f"
  shows "ready (FIRCLSFileFlushWriteBuffer f)" "contents (FIRCLSFileFlushWriteBuffer f) = contents f"
    "fd_data (descr (FIRCLSFileFlushWriteBuffer f)) = contents f"
  using assms to_descriptor [where f = f]
  by (auto simp: FIRCLSFileFlushWriteBuffer_def ready_def contents_def)

lemma to_buffer_ready:
  assumes "ready f" "bufferWrites f" "length (writeBuffer f) + length s < FIRCLSWriteBufferLength" "no_null s"
  shows "ready (FIRCLSFileWriteToBuffer s f)" "contents (FIRCLSFileWriteToBuffer s f) = contents f @ s"
  using assms strncpy_no_null [OF assms(4)] by (auto simp: FIRCLSFileWriteToBuffer_def ready_def contents_def Let_def)

lemma buffered_write:
  assumes "ready f" "no_null s"
  shows "ready (FIRCLSFileWriteToFileDescriptorOrBuffer s f) \<and>
    bufferWrites (FIRCLSFileWriteToFileDescriptorOrBuffer s f) = bufferWrites f \<and>
    contents (FIRCLSFileWriteToFileDescriptorOrBuffer s f) = contents f @ s"
  using assms
proof (induction s f rule: FIRCLSFileWriteToFileDescriptorOrBuffer.induct)
  case (1 s f)
  let ?L = FIRCLSWriteBufferLength
  have L: "0 < ?L" by (simp add: FIRCLSWriteBufferLength_def)
  show ?case
  proof (cases "bufferWrites f")
    case False
    then show ?thesis using "1.prems"(1) to_descriptor [where f = f and s = s]
      by (subst (1 2 3) FIRCLSFileWriteToFileDescriptorOrBuffer.simps) (auto simp: ready_def contents_def)
  next
    case b: True
    show ?thesis
    proof (cases "?L - 1 < length (writeBuffer f) + length s")
      case False
      then have "length (writeBuffer f) + length s < ?L" using L by linarith
      then show ?thesis using to_buffer_ready [OF "1.prems"(1) b _ "1.prems"(2)] b False
        by (subst (1 2 3) FIRCLSFileWriteToFileDescriptorOrBuffer.simps) auto
    next
      case True
      define n where "n = ?L - length (writeBuffer f) - 1"
      define f' where "f' = FIRCLSFileWriteToBuffer (take n s) f"
      have "length (writeBuffer f) + length (take n s) < ?L"
        using "1.prems"(1) by (auto simp: ready_def n_def)
      then have f': "ready f'" "contents f' = contents f @ take n s"
        using to_buffer_ready [OF "1.prems"(1) b] no_null_parts [OF "1.prems"(2)] by (simp_all add: f'_def)
      note fl = flush_ready [OF f'(1)]
      have step: "FIRCLSFileWriteToFileDescriptorOrBuffer s f =
          FIRCLSFileWriteToFileDescriptorOrBuffer (drop n s) (FIRCLSFileFlushWriteBuffer f')"
        using b True by (subst FIRCLSFileWriteToFileDescriptorOrBuffer.simps) (simp add: n_def f'_def Let_def)
      show ?thesis unfolding step
        using "1.IH" [OF b True n_def refl, folded f'_def] fl f' b no_null_parts [OF "1.prems"(2)] by (simp add: f'_def)
    qed
  qed
qed

lemma buffered_writes:
  "ready f \<Longrightarrow> \<forall>s \<in> set ss. no_null s \<Longrightarrow> ready (fold FIRCLSFileWriteToFileDescriptorOrBuffer ss f) \<and>
    contents (fold FIRCLSFileWriteToFileDescriptorOrBuffer ss f) = contents f @ concat ss"
  by (induction ss arbitrary: f) (simp_all add: buffered_write)

lemma section_json:
  assumes "writable v" "needComma f = False" "collectionDepth f = 0"
  shows "FIRCLSFileWriteSectionEnd (write_collection v (FIRCLSFileWriteSectionStart name f)) =
    f\<lparr>written := written f @ print_json (JObject [(name, v)]) @ [CHR 0x0A]\<rparr>"
  using write_json(1) [OF assms(1)] assms(2,3)
  by (simp add: FIRCLSFileWriteSectionStart_def FIRCLSFileWriteSectionEnd_def FIRCLSFileWriteHashKey_def
      FIRCLSFileWriteHashStart_def FIRCLSFileWriteHashEnd_def FIRCLSFileWriteCollectionStart_def
      FIRCLSFileWriteCollectionEnd_def FIRCLSFileWriteColletionEntryProlog_def string_with_suffix
      sep_def emit_def Let_def)

section \<open>Properties\<close>

text \<open>Numbers are written in decimal: the characters denote the number, and there is no leading
  zero except for 0 itself.\<close>

theorem number_printed:
  "digits_value 10 (FIRCLSFilePrepareUInt64 n False) = unat n \<and>
   (hd (FIRCLSFilePrepareUInt64 n False) = CHR ''0'' \<longrightarrow> FIRCLSFilePrepareUInt64 n False = ''0'')"
proof -
  have "unat n < 2 ^ 64" using unsigned_less [of n, where 'a = nat] by simp
  then have "unat n < unat (10 :: u64) ^ 20" by simp
  then obtain ds where ds: "prepare_loop 10 20 n [] = ds @ []" "ds \<noteq> []" "digits_value 10 ds = unat n"
    "hd ds = CHR ''0'' \<longrightarrow> n = 0 \<and> length ds = 1"
    using prepare_loop_digits [of 10 n 20 "[]"] by auto
  have "ds = ''0''" if "hd ds = CHR ''0''"
    using ds(2,4) that by (cases ds) auto
  moreover have "FIRCLSFilePrepareUInt64 n False = ds" using ds(1) by (simp add: FIRCLSFilePrepareUInt64_def)
  ultimately show ?thesis using ds(3) by metis
qed

text \<open>A section of the report is one line of JSON: written to a file between sections, the calls
  for a value of the kinds the writer knows produce the printed object with the section's name as its
  only key, and leave the file ready for the next section.\<close>

theorem section_is_json_line:
  assumes "writable v" "needComma f = False" "collectionDepth f = 0"
  shows "FIRCLSFileWriteSectionEnd (write_collection v (FIRCLSFileWriteSectionStart name f)) =
    f\<lparr>written := written f @ print_json (JObject [(name, v)]) @ [CHR 0x0A]\<rparr>"
  by (rule section_json [OF assms])

text \<open>C21. As long as the kernel takes every write whole, buffering does not change the report: strings without
  nulls, in whatever pieces, never fill the buffer to its 1000 bytes, and after a flush the file holds exactly
  their concatenation, as it does without a buffer.\<close>

theorem buffered_report:
  assumes "write_results (descr f) = []" "writeBuffer f = []" "\<forall>s \<in> set ss. no_null s"
  shows "fd_data (descr (FIRCLSFileFlushWriteBuffer (fold FIRCLSFileWriteToFileDescriptorOrBuffer ss f))) =
      fd_data (descr f) @ concat ss \<and>
    length (writeBuffer (fold FIRCLSFileWriteToFileDescriptorOrBuffer ss f)) < 1000"
proof -
  have "ready f" using assms by (simp add: ready_def FIRCLSWriteBufferLength_def)
  from buffered_writes [OF this assms(3)] show ?thesis
    using flush_ready(3) assms by (auto simp: ready_def contents_def FIRCLSWriteBufferLength_def)
qed

text \<open>When a write fails, buffered pieces are lost together; unbuffered, each is lost alone.\<close>

lemma failed_write:
  "fd_data (descr (FIRCLSFileFlushWriteBuffer (fold FIRCLSFileWriteToFileDescriptorOrBuffer [''a'', ''b'']
     \<lparr>descr = \<lparr>fd_data = [], write_results = [- 1]\<rparr>, bufferWrites = True, writeBuffer = [], writtenLength = 0\<rparr>))) = []"
  "fd_data (descr (FIRCLSFileFlushWriteBuffer (fold FIRCLSFileWriteToFileDescriptorOrBuffer [''a'', ''b'']
     \<lparr>descr = \<lparr>fd_data = [], write_results = [- 1]\<rparr>, bufferWrites = False, writeBuffer = [], writtenLength = 0\<rparr>))) = ''b''"
  by (simp_all add: FIRCLSFileWriteToFileDescriptorOrBuffer.simps FIRCLSFileWriteToBuffer_def strncpy_def
      FIRCLSFileFlushWriteBuffer_def FIRCLSFileWriteToFileDescriptor_def FIRCLSFileWriteWithRetries_def
      CLS_FILE_MAX_WRITE_ATTEMPTS_def FIRCLSWriteBufferLength_def sys_write_def numeral_eq_Suc)

text \<open>Whatever the kernel's \<open>write\<close> returns, what reaches the file is a prefix of the data, and
  all of it when the retry loop reports success.\<close>

theorem retries_write_prefix:
  "\<exists>p q. buf = p @ q \<and> fd_data (snd (FIRCLSFileWriteWithRetries buf d)) = fd_data d @ p \<and>
     (fst (FIRCLSFileWriteWithRetries buf d) \<longrightarrow> q = [])"
  unfolding FIRCLSFileWriteWithRetries_def by (rule write_loop_prefix)

section \<open>Witnesses\<close>

definition empty_report :: report_file where
  "empty_report = \<lparr>needComma = False, collectionDepth = 0, written = []\<rparr>"

lemma section_is_json_line_witness:
  "written (FIRCLSFileWriteSectionEnd (write_collection (JArray [JUint 7, JObject [(''crashed'', JBool True)]])
     (FIRCLSFileWriteSectionStart ''threads'' empty_report))) =
   print_json (JObject [(''threads'', JArray [JUint 7, JObject [(''crashed'', JBool True)]])]) @ [CHR 0x0A]"
  using section_is_json_line [of "JArray [JUint 7, JObject [(''crashed'', JBool True)]]" empty_report "''threads''"]
  by (simp add: empty_report_def)

definition empty_buffered :: buffered_file where
  "empty_buffered = \<lparr>descr = \<lparr>fd_data = [], write_results = []\<rparr>, bufferWrites = True, writeBuffer = [],
     writtenLength = 0\<rparr>"

lemma buffered_report_witness:
  "fd_data (descr (FIRCLSFileFlushWriteBuffer
     (fold FIRCLSFileWriteToFileDescriptorOrBuffer [''ab'', ''c''] empty_buffered))) = ''abc''"
  using buffered_report [of empty_buffered "[''ab'', ''c'']"] by (simp add: empty_buffered_def no_null_def)

text \<open>The first call takes three bytes, the second fails.\<close>

lemma retries_write_prefix_witness:
  "\<exists>p q. ''report'' = p @ q \<and> fd_data (snd (FIRCLSFileWriteWithRetries ''report''
      \<lparr>fd_data = [], write_results = [3, - 1]\<rparr>)) = p"
  using retries_write_prefix [of "''report''" "\<lparr>fd_data = [], write_results = [3, - 1]\<rparr>"] by auto

end
