(* ===== verification/Process_Record.thy ===== *)
theory Process_Record
  imports Unwind Report_File
begin

text \<open>
  Recording the process: \<open>FIRCLSProcess.c\<close>.  The kernel calls, compiler builtins and runtime symbols
  the code uses are the record \<open>kernel\<close>; what depends on the architecture is the record \<open>platform\<close>.
  The report file and the log level are threaded as values; \<^term>\<open>None\<close> is a fault.
\<close>

record 'r kernel =
  MACH_PORT_INDEX :: "u32 \<Rightarrow> u32"
  task_threads :: "u32 list option"
  thread_get_state :: "u32 \<Rightarrow> 'r option"
  load_ucontext :: "u64 \<Rightarrow> 'r option"
  builtin_frame_address :: u64
  builtin_return_address :: u64
  builtin_current_pc :: u64
  pthread_getname :: "u32 \<Rightarrow> string option"
  thread_dispatch_qaddr :: "u32 \<Rightarrow> u64 option"
  dispatch_queue_get_label :: "u64 \<Rightarrow> u64"
  host_vm_counts :: "(u32 \<times> u32 \<times> u32 \<times> u32) option"
  host_page_size :: u64
  task_basic_info :: "(u64 \<times> u64 \<times> (u32 \<times> u32) \<times> (u32 \<times> u32)) option"
  objc_msgSend :: u64
  objc_msgSendSuper :: u64
  objc_msgSend_stret :: u64
  objc_msgSendSuper_stret :: u64
  objc_msgSend_fpret :: u64

record 'r platform =
  walker :: "'r unwinder"
  fake_context :: "'r kernel \<Rightarrow> 'r"
  register_entries :: "'r \<Rightarrow> (string \<times> u64) list"
  selector_address :: "'r kernel \<Rightarrow> 'r \<Rightarrow> u64"

record process =
  thisThread :: u32
  crashedThread :: u32
  threads :: "u32 list"
  uapVoid :: u64

text \<open>On failure the thread count is 0; the model's thread list is then empty.\<close>

definition FIRCLSProcessInit :: "'r kernel \<Rightarrow> u32 \<Rightarrow> u32 \<Rightarrow> u64 \<Rightarrow> bool \<times> process" where
  "FIRCLSProcessInit k self crashed uap =
     (let p = \<lparr>thisThread = self, crashedThread = crashed, threads = [], uapVoid = uap\<rparr> in
      case task_threads k of None \<Rightarrow> (False, p) | Some ts \<Rightarrow> (True, p\<lparr>threads := ts\<rparr>))"

section \<open>Threads\<close>

definition FIRCLSProcessIsCurrentThread :: "'r kernel \<Rightarrow> process \<Rightarrow> u32 \<Rightarrow> bool" where
  "FIRCLSProcessIsCurrentThread k p thread \<longleftrightarrow> MACH_PORT_INDEX k (thisThread p) = MACH_PORT_INDEX k thread"

definition FIRCLSProcessIsCrashedThread :: "'r kernel \<Rightarrow> process \<Rightarrow> u32 \<Rightarrow> bool" where
  "FIRCLSProcessIsCrashedThread k p thread \<longleftrightarrow> MACH_PORT_INDEX k (crashedThread p) = MACH_PORT_INDEX k thread"

definition FIRCLSProcessGetThreadCount :: "process \<Rightarrow> nat" where
  "FIRCLSProcessGetThreadCount p = length (threads p)"

definition FIRCLSProcessGetThread :: "process \<Rightarrow> nat \<Rightarrow> u32" where
  "FIRCLSProcessGetThread p i = (if i \<ge> length (threads p) then 0 else threads p ! i)"

text \<open>The loop of \<open>SuspendAllOtherThreads\<close> and \<open>ResumeAllOtherThreads\<close>: \<open>call\<close> is \<open>thread_suspend\<close>
  or \<open>thread_resume\<close>, true for \<open>KERN_SUCCESS\<close>; the result is the flag and the threads the call was
  made for.  After a failure \<open>&&\<close> skips the call.\<close>

fun other_threads_loop ::
    "'r kernel \<Rightarrow> (u32 \<Rightarrow> bool) \<Rightarrow> process \<Rightarrow> nat list \<Rightarrow> bool \<Rightarrow> u32 list \<Rightarrow> bool \<times> u32 list" where
  "other_threads_loop k call p [] success calls = (success, calls)"
| "other_threads_loop k call p (i # is) success calls =
     (let thread = FIRCLSProcessGetThread p i in
      if FIRCLSProcessIsCurrentThread k p thread then other_threads_loop k call p is success calls
      else if success then other_threads_loop k call p is (call thread) (calls @ [thread])
      else other_threads_loop k call p is False calls)"

definition FIRCLSProcessSuspendAllOtherThreads :: "'r kernel \<Rightarrow> (u32 \<Rightarrow> bool) \<Rightarrow> process \<Rightarrow> bool \<times> u32 list" where
  "FIRCLSProcessSuspendAllOtherThreads k thread_suspend p =
     other_threads_loop k thread_suspend p [0..<length (threads p)] True []"

definition FIRCLSProcessResumeAllOtherThreads :: "'r kernel \<Rightarrow> (u32 \<Rightarrow> bool) \<Rightarrow> process \<Rightarrow> bool \<times> u32 list" where
  "FIRCLSProcessResumeAllOtherThreads k thread_resume p =
     other_threads_loop k thread_resume p [0..<length (threads p)] True []"

text \<open>The registers a thread is unwound from: those of the signal, faked ones for the thread that
  runs this code, the kernel's answer for the others.\<close>

definition FIRCLSProcessGetThreadState :: "'r platform \<Rightarrow> 'r kernel \<Rightarrow> process \<Rightarrow> u32 \<Rightarrow> 'r option option" where
  "FIRCLSProcessGetThreadState P k p thread =
     (if FIRCLSProcessIsCrashedThread k p thread \<and> FIRCLSIsValidPointer (uapVoid p)
        then map_option Some (load_ucontext k (uapVoid p))
      else if FIRCLSProcessIsCurrentThread k p thread then Some (Some (fake_context P k))
      else Some (thread_get_state k thread))"

definition x86_fake_context :: "x86_thread kernel \<Rightarrow> x86_thread" where
  "x86_fake_context k = x86_zero\<lparr>ss_rip := builtin_current_pc k, ss_rbp := builtin_frame_address k,
     ss_rsp := FIRCLSUnwindStackPointerFromFramePointer (builtin_frame_address k)\<rparr>"

definition arm_fake_context :: "arm_thread kernel \<Rightarrow> arm_thread" where
  "arm_fake_context k =
     (let r = \<lparr>ss_x = (\<lambda>i. 0), ss_fp = 0, ss_lr = 0, ss_sp = 0, ss_pc = 0, ss_cpsr = 0\<rparr>;
          r = FIRCLSThreadContextSetPC arm64 r (builtin_current_pc k);
          r = FIRCLSThreadContextSetFramePointer arm64 r (builtin_frame_address k);
          r = FIRCLSThreadContextSetLinkRegister arm64 r (builtin_return_address k)
      in FIRCLSThreadContextSetStackPointer arm64 r
           (arm_StackPointerFromFramePointer (builtin_frame_address k)))"

definition x86_register_entries :: "x86_thread \<Rightarrow> (string \<times> u64) list" where
  "x86_register_entries r =
    [(''rax'', ss_rax r), (''rbx'', ss_rbx r), (''rcx'', ss_rcx r), (''rdx'', ss_rdx r),
     (''rdi'', ss_rdi r), (''rsi'', ss_rsi r), (''rbp'', ss_rbp r), (''rsp'', ss_rsp r),
     (''r8'', ss_r8 r), (''r9'', ss_r9 r), (''r10'', ss_r10 r), (''r11'', ss_r11 r),
     (''r12'', ss_r12 r), (''r13'', ss_r13 r), (''r14'', ss_r14 r), (''r15'', ss_r15 r),
     (''rip'', ss_rip r), (''rflags'', ss_rflags r), (''cs'', ss_cs r), (''fs'', ss_fs r),
     (''gs'', ss_gs r)]"

definition arm_register_entries :: "arm_thread \<Rightarrow> (string \<times> u64) list" where
  "arm_register_entries r =
    [(''x0'', ss_x r 0), (''x1'', ss_x r 1), (''x2'', ss_x r 2), (''x3'', ss_x r 3),
     (''x4'', ss_x r 4), (''x5'', ss_x r 5), (''x6'', ss_x r 6), (''x7'', ss_x r 7),
     (''x8'', ss_x r 8), (''x9'', ss_x r 9), (''x10'', ss_x r 10), (''x11'', ss_x r 11),
     (''x12'', ss_x r 12), (''x13'', ss_x r 13), (''x14'', ss_x r 14), (''x15'', ss_x r 15),
     (''x16'', ss_x r 16), (''x17'', ss_x r 17), (''x18'', ss_x r 18), (''x19'', ss_x r 19),
     (''x20'', ss_x r 20), (''x21'', ss_x r 21), (''x22'', ss_x r 22), (''x23'', ss_x r 23),
     (''x24'', ss_x r 24), (''x25'', ss_x r 25), (''x26'', ss_x r 26), (''x27'', ss_x r 27),
     (''x28'', ss_x r 28), (''fp'', FIRCLSThreadContextGetFramePointer arm64 r), (''sp'', FIRCLSThreadContextGetStackPointer arm64 r), (''lr'', FIRCLSThreadContextGetLinkRegister arm64 r),
     (''pc'', FIRCLSThreadContextGetPC arm64 r), (''cpsr'', ucast (ss_cpsr r))]"

definition FIRCLSProcessRecordThreadRegisters :: "'r platform \<Rightarrow> 'r \<Rightarrow> report_file \<Rightarrow> report_file" where
  "FIRCLSProcessRecordThreadRegisters P context f =
     fold (\<lambda>(key, v). FIRCLSFileWriteHashEntryUint64 key v) (register_entries P context) f"

section \<open>One thread\<close>

definition FIRCLSInternalLogLevelWarn :: nat where
  "FIRCLSInternalLogLevelWarn = 3"

text \<open>The loop over the frames: the log level \<open>level\<close> to restore, the current one, the program counter
  that repeats and its count, and the file.\<close>

partial_function (option) record_loop ::
    "'r unwinder \<Rightarrow> task \<Rightarrow> images \<Rightarrow> nat \<Rightarrow> 'r unwind_context \<Rightarrow> nat \<Rightarrow> u64 \<Rightarrow> u32 \<Rightarrow> report_file \<Rightarrow>
     (nat \<times> u64 \<times> u32 \<times> report_file) option" where
  [code]: "record_loop U t env level c current repeatedPC repeatedPCCount f =
     Option.bind (FIRCLSUnwindNextFrame U t env c) (\<lambda>r. case r of (ok, c) \<Rightarrow>
       if \<not> ok then Some (current, repeatedPC, repeatedPCCount, f)
       else if repeatedPC = FIRCLSUnwindGetPC U c \<and> repeatedPC \<noteq> 0 then
         record_loop U t env level c current repeatedPC (FIRCLSUnwindGetFrameRepeatCount c) f
       else if FIRCLSUnwindGetFrameRepeatCount c \<ge> FIRCLSUnwindInfiniteRecursionCountThreshold \<and> repeatedPC = 0 then
         record_loop U t env level c FIRCLSInternalLogLevelWarn (FIRCLSUnwindGetPC U c) repeatedPCCount f
       else
         record_loop U t env level c (if repeatedPC \<noteq> 0 then level else current) repeatedPC repeatedPCCount
           (FIRCLSFileWriteArrayEntryUint64 (FIRCLSUnwindGetPC U c) f))"

definition FIRCLSProcessRecordThread ::
    "'r platform \<Rightarrow> 'r kernel \<Rightarrow> task \<Rightarrow> images \<Rightarrow> process \<Rightarrow> u32 \<Rightarrow> nat \<Rightarrow> report_file \<Rightarrow>
     (bool \<times> nat \<times> report_file) option" where
  "FIRCLSProcessRecordThread P k t env p thread level f = do {
     state \<leftarrow> FIRCLSProcessGetThreadState P k p thread;
     case state of
       None \<Rightarrow> Some (False, level, f)
     | Some context \<Rightarrow> do {
         let f = FIRCLSFileWriteHashStart f;
         let f = FIRCLSFileWriteHashKey ''registers'' f;
         let f = FIRCLSFileWriteHashStart f;
         let f = FIRCLSProcessRecordThreadRegisters P context f;
         let f = FIRCLSFileWriteHashEnd f;
         let f = FIRCLSFileWriteHashKey ''stacktrace'' f;
         let f = FIRCLSFileWriteArrayStart f;
         (current, repeatedPC, repeatedPCCount, f) \<leftarrow>
           record_loop (walker P) t env level (FIRCLSUnwindInit context) level 0 0 f;
         let f = FIRCLSFileWriteArrayEnd f;
         let f = (if FIRCLSProcessIsCrashedThread k p thread
           then FIRCLSFileWriteHashEntryBoolean ''crashed'' True f else f);
         let f = (if repeatedPC \<noteq> 0
           then FIRCLSFileWriteHashEntryUint64 ''repeat_count'' (ucast repeatedPCCount)
             (FIRCLSFileWriteHashEntryUint64 ''repeated_pc'' repeatedPC f) else f);
         Some (True, level, FIRCLSFileWriteHashEnd f) } }"

fun record_threads_loop ::
    "'r platform \<Rightarrow> 'r kernel \<Rightarrow> task \<Rightarrow> images \<Rightarrow> process \<Rightarrow> nat list \<Rightarrow> nat \<Rightarrow> report_file \<Rightarrow>
     (bool \<times> nat \<times> report_file) option" where
  "record_threads_loop P k t env p [] level f =
     Some (True, level, FIRCLSFileWriteSectionEnd (FIRCLSFileWriteArrayEnd f))"
| "record_threads_loop P k t env p (i # is) level f = do {
     (ok, level, f) \<leftarrow> FIRCLSProcessRecordThread P k t env p (FIRCLSProcessGetThread p i) level f;
     if \<not> ok then Some (False, level, FIRCLSFileWriteSectionEnd (FIRCLSFileWriteArrayEnd f))
     else record_threads_loop P k t env p is level f }"

definition FIRCLSProcessRecordAllThreads ::
    "'r platform \<Rightarrow> 'r kernel \<Rightarrow> task \<Rightarrow> images \<Rightarrow> process \<Rightarrow> nat \<Rightarrow> report_file \<Rightarrow>
     (bool \<times> nat \<times> report_file) option" where
  "FIRCLSProcessRecordAllThreads P k t env p level f =
     record_threads_loop P k t env p [0..<FIRCLSProcessGetThreadCount p] level
       (FIRCLSFileWriteArrayStart (FIRCLSFileWriteSectionStart ''threads'' f))"

section \<open>Names\<close>

definition FIRCLSProcessGetThreadName :: "'r kernel \<Rightarrow> u32 \<Rightarrow> bool \<times> string" where
  "FIRCLSProcessGetThreadName k thread =
     (case pthread_getname k thread of None \<Rightarrow> (False, []) | Some name \<Rightarrow> (True, name))"

definition FIRCLSProcessRecordThreadNames :: "'r kernel \<Rightarrow> process \<Rightarrow> report_file \<Rightarrow> report_file" where
  "FIRCLSProcessRecordThreadNames k p f =
     FIRCLSFileWriteSectionEnd (FIRCLSFileWriteArrayEnd
       (fold (\<lambda>i. FIRCLSFileWriteArrayEntryString
             (Some (snd (FIRCLSProcessGetThreadName k (FIRCLSProcessGetThread p i)))))
         [0..<FIRCLSProcessGetThreadCount p]
         (FIRCLSFileWriteArrayStart (FIRCLSFileWriteSectionStart ''thread_names'' f))))"

text \<open>\<open>FIRCLSReadString\<close>: every byte is read through the kernel; reaching the limit is a success.\<close>

fun read_string_loop :: "task \<Rightarrow> u64 \<Rightarrow> u64 \<Rightarrow> nat \<Rightarrow> bool" where
  "read_string_loop t end' address 0 = True"
| "read_string_loop t end' address (Suc n) =
     (if \<not> address < end' then True
      else case FIRCLSReadMemory t address 1 of
        None \<Rightarrow> False
      | Some bs \<Rightarrow> if bs = [0] then True else read_string_loop t end' (address + 1) n)"

definition FIRCLSReadString :: "task \<Rightarrow> u64 \<Rightarrow> nat \<Rightarrow> bool" where
  "FIRCLSReadString t src maxlen = read_string_loop t (src + word_of_nat maxlen) src maxlen"

text \<open>A \<open>const char*\<close> the code returns: null, a literal, or an address; and what writing it reads.\<close>

datatype c_string = CNull | CLiteral string | CAt u64

definition load_string :: "task \<Rightarrow> c_string \<Rightarrow> string option option" where
  "load_string t s = (case s of
       CNull \<Rightarrow> Some None
     | CLiteral s \<Rightarrow> Some (Some s)
     | CAt a \<Rightarrow> do { n \<leftarrow> c_strlen t a; bs \<leftarrow> load_bytes t a n; Some (Some (map (\<lambda>b. char_of (unat b)) bs)) })"

definition FIRCLSProcessGetThreadDispatchQueueName :: "'r kernel \<Rightarrow> task \<Rightarrow> u32 \<Rightarrow> c_string" where
  "FIRCLSProcessGetThreadDispatchQueueName k t thread =
     (case thread_dispatch_qaddr k thread of
        None \<Rightarrow> CNull
      | Some queueAddress \<Rightarrow>
          if queueAddress = 0 then CLiteral []
          else case FIRCLSReadMemory t queueAddress 8 of
            None \<Rightarrow> CLiteral []
          | Some bs \<Rightarrow>
              let queue = le_word bs in
              if queue = 0 then CLiteral []
              else let string = dispatch_queue_get_label k queue in
                if FIRCLSReadString t string 128 then CAt string else CLiteral [])"

fun queue_names_loop :: "'r kernel \<Rightarrow> task \<Rightarrow> process \<Rightarrow> nat list \<Rightarrow> report_file \<Rightarrow> report_file option" where
  "queue_names_loop k t p [] f = Some f"
| "queue_names_loop k t p (i # is) f = do {
     name \<leftarrow> load_string t (FIRCLSProcessGetThreadDispatchQueueName k t (FIRCLSProcessGetThread p i));
     queue_names_loop k t p is (FIRCLSFileWriteArrayEntryString name f) }"

definition FIRCLSProcessRecordDispatchQueueNames ::
    "'r kernel \<Rightarrow> task \<Rightarrow> process \<Rightarrow> report_file \<Rightarrow> report_file option" where
  "FIRCLSProcessRecordDispatchQueueNames k t p f = do {
     f \<leftarrow> queue_names_loop k t p [0..<FIRCLSProcessGetThreadCount p]
       (FIRCLSFileWriteArrayStart (FIRCLSFileWriteSectionStart ''dispatch_queue_names'' f));
     Some (FIRCLSFileWriteSectionEnd (FIRCLSFileWriteArrayEnd f)) }"

section \<open>Statistics\<close>

definition FIRCLSProcessGetMemoryUsage :: "'r kernel \<Rightarrow> (u64 \<times> u64 \<times> u64 \<times> u64) option" where
  "FIRCLSProcessGetMemoryUsage k =
     map_option (\<lambda>(a, i, w, fr). (ucast a * host_page_size k, ucast i * host_page_size k,
       ucast w * host_page_size k, ucast fr * host_page_size k)) (host_vm_counts k)"

definition FIRCLSProcessGetInfo :: "'r kernel \<Rightarrow> (u64 \<times> u64 \<times> (u32 \<times> u32) \<times> (u32 \<times> u32)) option" where
  "FIRCLSProcessGetInfo k = task_basic_info k"

text \<open>Seconds and microseconds are signed 32-bit; the product and sum are computed at that width and
  the result is sign-extended.\<close>

definition time_entry :: "u32 \<times> u32 \<Rightarrow> u64" where
  "time_entry tv = scast (fst tv * 1000 * 1000 + snd tv)"

definition FIRCLSProcessRecordStats :: "'r kernel \<Rightarrow> report_file \<Rightarrow> report_file" where
  "FIRCLSProcessRecordStats k f =
     (case FIRCLSProcessGetMemoryUsage k of
        None \<Rightarrow> f
      | Some (active, inactive, wired, freeMem) \<Rightarrow>
     (case FIRCLSProcessGetInfo k of
        None \<Rightarrow> f
      | Some (virtualSize, residentSize, userTime, systemTime) \<Rightarrow>
          let f = FIRCLSFileWriteHashStart (FIRCLSFileWriteSectionStart ''process_stats'' f);
              f = FIRCLSFileWriteHashEntryUint64 ''active'' active f;
              f = FIRCLSFileWriteHashEntryUint64 ''inactive'' inactive f;
              f = FIRCLSFileWriteHashEntryUint64 ''wired'' wired f;
              f = FIRCLSFileWriteHashEntryUint64 ''freeMem'' freeMem f;
              f = FIRCLSFileWriteHashEntryUint64 ''free_mem'' freeMem f;
              f = FIRCLSFileWriteHashEntryUint64 ''virtual'' virtualSize f;
              f = FIRCLSFileWriteHashEntryUint64 ''resident'' active f;
              f = FIRCLSFileWriteHashEntryUint64 ''user_time'' (time_entry userTime) f;
              f = FIRCLSFileWriteHashEntryUint64 ''sys_time'' (time_entry systemTime) f
          in FIRCLSFileWriteSectionEnd (FIRCLSFileWriteHashEnd f)))"

section \<open>The selector of a crash in \<open>objc_msgSend\<close>\<close>

definition in_stub :: "u64 \<Rightarrow> u64 \<Rightarrow> bool" where
  "in_stub pc start \<longleftrightarrow> pc \<ge> start \<and> pc \<le> start + 66"

definition x86_selector_address :: "x86_thread kernel \<Rightarrow> x86_thread \<Rightarrow> u64" where
  "x86_selector_address k r =
     (let pc = ss_rip r; sel = ss_rsi r; stret = ss_rdx r;
          a = (if in_stub pc (objc_msgSend k) then sel else 0);
          a = (if in_stub pc (objc_msgSendSuper k) then sel else a);
          a = (if in_stub pc (objc_msgSend_stret k) then stret else a);
          a = (if in_stub pc (objc_msgSendSuper_stret k) then stret else a)
      in if in_stub pc (objc_msgSend_fpret k) then sel else a)"

definition arm_selector_address :: "arm_thread kernel \<Rightarrow> arm_thread \<Rightarrow> u64" where
  "arm_selector_address k r =
     (if in_stub (FIRCLSThreadContextGetPC arm64 r) (objc_msgSend k) then ss_x r 1 else 0)"

definition FIRCLSProcessGetObjCSelectorName :: "'r platform \<Rightarrow> 'r kernel \<Rightarrow> task \<Rightarrow> 'r \<Rightarrow> c_string" where
  "FIRCLSProcessGetObjCSelectorName P k t registers =
     (let a = selector_address P k registers in
      if a = 0 then CLiteral []
      else if \<not> FIRCLSReadString t a 128 then CLiteral []
      else CAt a)"

definition x86_platform :: "x86_thread platform" where
  "x86_platform = \<lparr>walker = x86_unwinder, fake_context = x86_fake_context,
     register_entries = x86_register_entries, selector_address = x86_selector_address\<rparr>"

definition arm_platform :: "arm_thread platform" where
  "arm_platform = \<lparr>walker = arm_unwinder, fake_context = arm_fake_context,
     register_entries = arm_register_entries, selector_address = arm_selector_address\<rparr>"

section \<open>What the stack trace of a walk is to be\<close>

text \<open>The frames of a walk with the repeat count each is visited with.\<close>

definition frames :: "u64 list \<Rightarrow> (u64 \<times> nat) list" where
  "frames pcs = map (\<lambda>i. (pcs ! i, trailing_repeats (take (Suc i) pcs))) [0..<length pcs]"

lemma frames_snoc: "frames (pcs @ [p]) = frames pcs @ [(p, trailing_repeats (pcs @ [p]))]"
  by (simp add: frames_def nth_append cong: map_cong)

text \<open>A walk has no storm as long as no program counter repeats ten times in a row.\<close>

definition calm :: "u64 list \<Rightarrow> bool" where
  "calm pcs \<longleftrightarrow> (\<forall>(p, n) \<in> set (frames pcs). n < 10)"

definition upto_last :: "u64 \<Rightarrow> u64 list \<Rightarrow> u64 list" where
  "upto_last p ys = rev (dropWhile (\<lambda>x. x \<noteq> p) (rev ys))"

lemma upto_last_snoc: "upto_last p (ys @ [y]) = (if y = p then ys @ [y] else upto_last p ys)"
  by (simp add: upto_last_def)

text \<open>What the loop keeps: the level, the repeated program counter, its count and the entries.\<close>

fun record_step :: "nat \<Rightarrow> u64 \<times> nat \<Rightarrow> nat \<times> u64 \<times> nat \<times> u64 list \<Rightarrow> nat \<times> u64 \<times> nat \<times> u64 list" where
  "record_step level (pc, n) (current, rp, cnt, out) =
     (if rp = pc \<and> rp \<noteq> 0 then (current, rp, n, out)
      else if n \<ge> 10 \<and> rp = 0 then (FIRCLSInternalLogLevelWarn, pc, cnt, out)
      else (if rp \<noteq> 0 then level else current, rp, cnt, out @ [pc]))"

definition record_frames :: "nat \<Rightarrow> u64 list \<Rightarrow> nat \<times> u64 \<times> nat \<times> u64 list" where
  "record_frames level pcs = fold (record_step level) (frames pcs) (level, 0, 0, [])"

lemma record_frames_snoc:
  "record_frames level (pcs @ [p]) =
    record_step level (p, trailing_repeats (pcs @ [p])) (record_frames level pcs)"
  by (simp add: record_frames_def frames_snoc)

lemma calm_snoc: "calm (pcs @ [p]) \<longleftrightarrow> calm pcs \<and> trailing_repeats (pcs @ [p]) < 10"
  by (auto simp: calm_def frames_snoc)

lemma record_frames_calm: "calm pcs \<Longrightarrow> record_frames level pcs = (level, 0, 0, pcs)"
proof (induction pcs rule: rev_induct)
  case (snoc p pcs)
  then show ?case by (simp add: record_frames_snoc calm_snoc not_le)
qed (simp add: record_frames_def frames_def)

lemma record_frames_storm:
  assumes "calm xs" "trailing_repeats (xs @ [p]) \<ge> 10" "p \<noteq> 0"
  shows "\<exists>current. record_frames level (xs @ p # ys) =
    (current, p, (if p \<in> set ys then trailing_repeats (xs @ p # upto_last p ys) else 0),
     xs @ filter (\<lambda>x. x \<noteq> p) ys)"
proof (induction ys rule: rev_induct)
  case Nil
  show ?case using record_frames_snoc [of level xs p] record_frames_calm [OF assms(1), of level] assms(2,3)
    by simp
next
  case (snoc y ys)
  then show ?case
    using record_frames_snoc [of level "xs @ p # ys" y] assms(3) by (auto simp: upto_last_snoc)
qed

section \<open>The loop follows the walk\<close>

lemma record_loop_walk:
  assumes "walks U t env (FIRCLSUnwindInit r) pcs c"
  shows "record_loop U t env level (FIRCLSUnwindInit r) level 0 0 f =
    (case record_frames level pcs of (current, rp, cnt, out) \<Rightarrow>
       record_loop U t env level c current rp (word_of_nat cnt) (fold FIRCLSFileWriteArrayEntryUint64 out f))"
  using assms
proof (induction rule: walks.induct)
  case walks_nil
  show ?case by (simp add: record_frames_def frames_def)
next
  case (walks_snoc pcs c' c'')
  obtain current rp cnt out where st: "record_frames level pcs = (current, rp, cnt, out)"
    by (metis prod_cases4)
  have walk: "walks U t env (FIRCLSUnwindInit r) (pcs @ [FIRCLSUnwindGetPC U c'']) c''"
    using walks.walks_snoc [OF walks_snoc.hyps] .
  let ?pcs = "pcs @ [FIRCLSUnwindGetPC U c'']"
  have lt: "trailing_repeats ?pcs < 2 ^ 32"
    using trailing_repeats_less [of ?pcs] walk_summary [OF walk] by (simp add: unat_max_frames)
  have n: "FIRCLSUnwindGetFrameRepeatCount c'' = word_of_nat (trailing_repeats ?pcs)"
    using walk_summary [OF walk] by (simp add: FIRCLSUnwindGetFrameRepeatCount_def)
  have ge: "FIRCLSUnwindInfiniteRecursionCountThreshold \<le> FIRCLSUnwindGetFrameRepeatCount c'' \<longleftrightarrow>
      10 \<le> trailing_repeats ?pcs"
    unfolding n using lt
    by (simp add: FIRCLSUnwindInfiniteRecursionCountThreshold_def word_le_nat_alt unat_of_nat)
  have pc: "FIRCLSUnwindGetPC U c'' \<noteq> 0"
    using walk_summary [OF walk] by (auto simp: FIRCLSIsValidPointer_def)
  show ?case unfolding walks_snoc.IH st record_frames_snoc
    by (subst record_loop.simps, simp only: walks_snoc.hyps(2) ge Option.bind.simps prod.case record_step.simps)
      (simp add: n pc)
qed

lemma record_loop_end:
  assumes "walks U t env (FIRCLSUnwindInit r) pcs c" "FIRCLSUnwindNextFrame U t env c = Some (False, c')"
  shows "record_loop U t env level (FIRCLSUnwindInit r) level 0 0 f =
    (case record_frames level pcs of (current, rp, cnt, out) \<Rightarrow>
       Some (current, rp, word_of_nat cnt, fold FIRCLSFileWriteArrayEntryUint64 out f))"
  unfolding record_loop_walk [OF assms(1)]
  by (auto simp: record_loop.simps [of _ _ _ _ c] assms(2) split: prod.split)

section \<open>A thread as JSON\<close>

definition thread_json :: "'r platform \<Rightarrow> bool \<Rightarrow> 'r \<Rightarrow> u64 list \<Rightarrow> json" where
  "thread_json P crashed r pcs = (case record_frames 0 pcs of (_, rp, cnt, out) \<Rightarrow>
     JObject ([(''registers'', JObject (map (\<lambda>(key, v). (key, JUint v)) (register_entries P r))),
        (''stacktrace'', JArray (map JUint out))] @
       (if crashed then [(''crashed'', JBool True)] else []) @
       (if rp \<noteq> 0 then [(''repeated_pc'', JUint rp), (''repeat_count'', JUint (ucast (word_of_nat cnt :: u32)))] else [])))"

lemma record_frames_level:
  "snd (record_frames level pcs) = snd (record_frames level' pcs)"
proof (induction pcs rule: rev_induct)
  case (snoc p pcs)
  then show ?case unfolding record_frames_snoc
    by (cases "record_frames level pcs"; cases "record_frames level' pcs") auto
qed (simp add: record_frames_def frames_def)

lemma writable_thread: "writable_element (thread_json P crashed r pcs)"
  by (auto simp: thread_json_def list_all_iff split: prod.split)

lemma record_thread_json:
  assumes "FIRCLSProcessGetThreadState P k p thread = Some (Some r)"
    and "walks (walker P) t env (FIRCLSUnwindInit r) pcs c"
    and "FIRCLSUnwindNextFrame (walker P) t env c = Some (False, c')"
  shows "FIRCLSProcessRecordThread P k t env p thread level f =
    Some (True, level, write_element (thread_json P (FIRCLSProcessIsCrashedThread k p thread) r pcs) f)"
proof -
  obtain cur rp cnt out where fr: "record_frames level pcs = (cur, rp, cnt, out)" by (metis prod_cases4)
  then have fr0: "\<exists>cur0. record_frames 0 pcs = (cur0, rp, cnt, out)"
    using record_frames_level [of level pcs 0] by (cases "record_frames 0 pcs") simp
  have regs: "fold (\<lambda>(key, v). FIRCLSFileWriteHashEntryUint64 key v) es g =
      fold (\<lambda>(k, v). write_entry k v) (map (\<lambda>(key, v). (key, JUint v)) es) g" for es g
    by (induction es arbitrary: g) auto
  have elems: "fold FIRCLSFileWriteArrayEntryUint64 out g = fold write_element (map JUint out) g" for g
    by (induction out arbitrary: g) auto
  show ?thesis
    using fr0 unfolding FIRCLSProcessRecordThread_def assms(1)
    by (auto simp: Let_def record_loop_end [OF assms(2,3)] fr thread_json_def
        FIRCLSProcessRecordThreadRegisters_def regs elems)
qed

lemma record_thread_written:
  assumes "FIRCLSProcessGetThreadState P k p thread = Some (Some r)"
    and "walks (walker P) t env (FIRCLSUnwindInit r) pcs c"
    and "FIRCLSUnwindNextFrame (walker P) t env c = Some (False, c')" "collectionDepth f > 0"
  shows "FIRCLSProcessRecordThread P k t env p thread level f =
    Some (True, level, f\<lparr>written := written f @ sep f @
      print_json (thread_json P (FIRCLSProcessIsCrashedThread k p thread) r pcs), needComma := True\<rparr>)"
  using record_thread_json [OF assms(1-3)] write_json(3) [OF writable_thread assms(4)] by simp

section \<open>All threads\<close>

text \<open>The value a thread is recorded as: its registers are known and its walk ends without a fault.\<close>

definition thread_recorded ::
    "'r platform \<Rightarrow> 'r kernel \<Rightarrow> task \<Rightarrow> images \<Rightarrow> process \<Rightarrow> u32 \<Rightarrow> json \<Rightarrow> bool" where
  "thread_recorded P k t env p thread v \<longleftrightarrow> (\<exists>r pcs c c'.
     FIRCLSProcessGetThreadState P k p thread = Some (Some r) \<and>
     walks (walker P) t env (FIRCLSUnwindInit r) pcs c \<and>
     FIRCLSUnwindNextFrame (walker P) t env c = Some (False, c') \<and>
     v = thread_json P (FIRCLSProcessIsCrashedThread k p thread) r pcs)"

lemma thread_recordedE:
  assumes "thread_recorded P k t env p thread v"
  shows "writable_element v"
    and "FIRCLSProcessRecordThread P k t env p thread level f = Some (True, level, write_element v f)"
  using assms unfolding thread_recorded_def by (auto simp: writable_thread record_thread_json)

lemma threads_loop_json:
  assumes "list_all2 (thread_recorded P k t env p) (map (FIRCLSProcessGetThread p) is) vs"
    and "rest = [] \<or> FIRCLSProcessGetThreadState P k p (FIRCLSProcessGetThread p (hd rest)) = Some None"
  shows "record_threads_loop P k t env p (is @ rest) level f =
    Some (rest = [], level, FIRCLSFileWriteSectionEnd (FIRCLSFileWriteArrayEnd (fold write_element vs f)))"
  using assms(1)
proof (induction "is" arbitrary: vs f)
  case Nil
  then show ?case
    using assms(2) by (cases rest) (simp_all add: FIRCLSProcessRecordThread_def)
next
  case (Cons i is')
  then obtain v vs' where vs: "vs = v # vs'" "thread_recorded P k t env p (FIRCLSProcessGetThread p i) v"
    "list_all2 (thread_recorded P k t env p) (map (FIRCLSProcessGetThread p) is') vs'"
    by (auto simp: list_all2_Cons1)
  then show ?case using Cons.IH [OF vs(3)] by (simp add: thread_recordedE(2) [OF vs(2)])
qed

lemma threads_list: "map (FIRCLSProcessGetThread p) [0..<length (threads p)] = threads p"
  by (rule nth_equalityI) (auto simp: FIRCLSProcessGetThread_def)

lemma all_threads_json:
  assumes "list_all2 (thread_recorded P k t env p) (take n (threads p)) vs" "n \<le> length (threads p)"
    and "n < length (threads p) \<Longrightarrow> FIRCLSProcessGetThreadState P k p (threads p ! n) = Some None"
  shows "FIRCLSProcessRecordAllThreads P k t env p level f =
    Some (n = length (threads p), level,
      FIRCLSFileWriteSectionEnd (write_collection (JArray vs) (FIRCLSFileWriteSectionStart ''threads'' f)))"
    and "writable (JArray vs)"
proof -
  have "map (FIRCLSProcessGetThread p) [0..<n] = take n (threads p)"
    using assms(2) by (intro nth_equalityI) (auto simp: FIRCLSProcessGetThread_def)
  then have l: "list_all2 (thread_recorded P k t env p) (map (FIRCLSProcessGetThread p) [0..<n]) vs"
    using assms(1) by simp
  have split: "[0..<length (threads p)] = [0..<n] @ [n..<length (threads p)]"
    using assms(2) upt_add_eq_append [of 0 n "length (threads p) - n"] by simp
  have rest: "[n..<length (threads p)] = [] \<or>
      FIRCLSProcessGetThreadState P k p (FIRCLSProcessGetThread p (hd [n..<length (threads p)])) = Some None"
    using assms(2,3) by (cases "n = length (threads p)") (auto simp: FIRCLSProcessGetThread_def hd_upt)
  have e: "([n..<length (threads p)] = []) = (n = length (threads p))" using assms(2) by auto
  have e: "([n..<length (threads p)] = []) = (n = length (threads p))" using assms(2) by auto
  show "FIRCLSProcessRecordAllThreads P k t env p level f =
    Some (n = length (threads p), level,
      FIRCLSFileWriteSectionEnd (write_collection (JArray vs) (FIRCLSFileWriteSectionStart ''threads'' f)))"
    unfolding FIRCLSProcessRecordAllThreads_def FIRCLSProcessGetThreadCount_def split
      threads_loop_json [OF l rest] e by simp
  have "writable_element v" if "v \<in> set vs" for v
  proof -
    obtain thread where "thread_recorded P k t env p thread v"
      using assms(1) \<open>v \<in> set vs\<close> by (metis in_set_conv_nth list_all2_conv_all_nth)
    then show ?thesis by (rule thread_recordedE(1))
  qed
  then show "writable (JArray vs)" by (simp add: list_all_iff)
qed

section \<open>Suspending the other threads\<close>

lemma other_threads:
  "other_threads_loop k call p is success calls =
    (let others = filter (\<lambda>thread. \<not> FIRCLSProcessIsCurrentThread k p thread) (map (FIRCLSProcessGetThread p) is) in
     (success \<and> list_all call others,
      calls @ (if success then takeWhile call others @ take 1 (dropWhile call others) else [])))"
  by (induction k call p "is" success calls rule: other_threads_loop.induct) (auto simp: Let_def)

section \<open>Names, strings and times\<close>

lemma thread_names_json:
  "FIRCLSProcessRecordThreadNames k p f = FIRCLSFileWriteSectionEnd (write_collection
     (JArray (map (\<lambda>thread. JString (Some (snd (FIRCLSProcessGetThreadName k thread)))) (threads p)))
     (FIRCLSFileWriteSectionStart ''thread_names'' f))"
proof -
  have "fold write_element (map (\<lambda>thread. JString (Some (snd (FIRCLSProcessGetThreadName k thread))))
      (map (FIRCLSProcessGetThread p) is)) g =
    fold (\<lambda>i. FIRCLSFileWriteArrayEntryString
      (Some (snd (FIRCLSProcessGetThreadName k (FIRCLSProcessGetThread p i))))) is g" for "is" g
    by (induction "is" arbitrary: g) auto
  from this [of "[0..<length (threads p)]"] show ?thesis
    unfolding threads_list by (simp add: FIRCLSProcessRecordThreadNames_def FIRCLSProcessGetThreadCount_def)
qed

lemma queue_names:
  "list_all2 (\<lambda>thread name. load_string t (FIRCLSProcessGetThreadDispatchQueueName k t thread) = Some name)
     (map (FIRCLSProcessGetThread p) is) names \<Longrightarrow>
   queue_names_loop k t p is f = Some (fold write_element (map JString names) f)"
  by (induction "is" arbitrary: names f) (auto simp: list_all2_Cons1)

lemma stats_json:
  assumes "host_vm_counts k = Some (a, i, w, fr)" "task_basic_info k = Some (vs, rs, ut, st)"
  shows "FIRCLSProcessRecordStats k f = FIRCLSFileWriteSectionEnd (write_collection
    (JObject [(''active'', JUint (ucast a * host_page_size k)), (''inactive'', JUint (ucast i * host_page_size k)),
      (''wired'', JUint (ucast w * host_page_size k)), (''freeMem'', JUint (ucast fr * host_page_size k)),
      (''free_mem'', JUint (ucast fr * host_page_size k)), (''virtual'', JUint vs),
      (''resident'', JUint (ucast a * host_page_size k)), (''user_time'', JUint (time_entry ut)),
      (''sys_time'', JUint (time_entry st))])
    (FIRCLSFileWriteSectionStart ''process_stats'' f))"
  using assms
  by (simp add: FIRCLSProcessRecordStats_def FIRCLSProcessGetMemoryUsage_def FIRCLSProcessGetInfo_def Let_def)

lemma unat_scast_u32:
  "unat (scast (w :: u32) :: u64) = (if unat w < 2 ^ 31 then unat w else unat w + (2 ^ 64 - 2 ^ 32))"
proof -
  define n where "n = unat w"
  have bound: "n < 2 ^ 32" using unsigned_less [of w, where 'a = nat] by (simp add: n_def)
  have "sint w = (int (unat w) + 2 ^ 31) mod 2 ^ 32 - 2 ^ 31"
    by (simp add: sint_uint signed_take_bit_eq_take_bit_shift take_bit_eq_mod)
  moreover have "int (unat (scast w :: u64)) = sint w mod 2 ^ 64"
    using uint_word_of_int [where 'a = 64, of "sint w"] by simp
  ultimately have u: "int (unat (scast w :: u64)) = ((int n + 2 ^ 31) mod 2 ^ 32 - 2 ^ 31) mod 2 ^ 64"
    by (simp add: n_def)
  have "((int n + 2 ^ 31) mod 2 ^ 32 - 2 ^ 31) mod 2 ^ 64 = int (if n < 2 ^ 31 then n else n + (2 ^ 64 - 2 ^ 32))"
  proof (cases "n < 2 ^ 31")
    case False
    then have "(int n + 2 ^ 31) mod 2 ^ 32 = int n + 2 ^ 31 - 2 ^ 32"
      using bound minus_mod_self2 [of "int n + 2 ^ 31" "2 ^ 32"]
        mod_pos_pos_trivial [of "int n + 2 ^ 31 - 2 ^ 32" "2 ^ 32"] by simp
    moreover have "(int n - 2 ^ 32) mod 2 ^ 64 = int n - 2 ^ 32 + 2 ^ 64"
      using bound mod_add_self2 [of "int n - 2 ^ 32" "2 ^ 64"]
        mod_pos_pos_trivial [of "int n - 2 ^ 32 + 2 ^ 64" "2 ^ 64"] by simp
    ultimately show ?thesis using False by simp
  qed simp
  then show ?thesis using u unfolding n_def by (simp only: of_nat_eq_iff)
qed

lemma time_value:
  fixes sec usec :: u32
  assumes "unat sec < 2 ^ 31" "unat usec < 1000000"
  shows "unat (time_entry (sec, usec)) = unat sec * 1000000 + unat usec \<longleftrightarrow>
    unat sec * 1000000 + unat usec < 2 ^ 31"
proof -
  define w where "w = sec * 1000 * 1000 + usec"
  let ?n = "unat sec * 1000000 + unat usec"
  have w: "unat w = ?n mod 2 ^ 32"
    by (simp add: w_def unat_word_ariths mod_simps mult.commute [of 1000000])
  have entry: "unat (time_entry (sec, usec)) = (if unat w < 2 ^ 31 then unat w else unat w + (2 ^ 64 - 2 ^ 32))"
    by (simp only: time_entry_def w_def [symmetric] fst_conv snd_conv unat_scast_u32)
  show ?thesis
  proof (cases "unat w < 2 ^ 31")
    case True
    then show ?thesis using w entry by (auto simp: mod_less)
  next
    case False
    then show ?thesis using w entry assms by auto
  qed
qed

lemma read_one_byte:
  "FIRCLSIsValidPointer a \<Longrightarrow> FIRCLSReadMemory (flat_task m) a 1 = map_option (\<lambda>b. [b]) (m a)"
  by (cases "m a") (simp_all add: FIRCLSReadMemory_def flat_task_def)

lemma read_string_loop_flat:
  "unat a + n < 2 ^ 64 \<Longrightarrow> FIRCLSIsValidPointer a \<Longrightarrow>
   read_string_loop (flat_task m) (a + word_of_nat n) a n \<longleftrightarrow>
    (\<forall>i < n. (\<forall>j < i. m (a + word_of_nat j) \<noteq> Some 0) \<longrightarrow> m (a + word_of_nat i) \<noteq> None)"
proof (induction n arbitrary: a)
  case (Suc n)
  have u: "unat (a + 1) = unat a + 1" using Suc.prems(1) by (simp add: unat_word_ariths)
  have v: "FIRCLSIsValidPointer (a + 1)"
    using Suc.prems(2) u by (simp add: FIRCLSIsValidPointer_def word_le_nat_alt)
  have lt: "a < a + word_of_nat (Suc n)"
    using Suc.prems(1) unat_ptr_add [of a "Suc n"] by (simp add: word_less_nat_alt ptr_add_Some del: of_nat_Suc)
  have e: "a + word_of_nat (Suc n) = a + 1 + word_of_nat n" by simp
  have IH: "read_string_loop (flat_task m) (a + word_of_nat (Suc n)) (a + 1) n \<longleftrightarrow>
      (\<forall>i < n. (\<forall>j < i. m (a + word_of_nat (Suc j)) \<noteq> Some 0) \<longrightarrow> m (a + word_of_nat (Suc i)) \<noteq> None)"
    using Suc.IH [of "a + 1"] Suc.prems(1) u v unfolding e by (simp add: add.assoc)
  show ?case
  proof (cases "m a")
    case None
    then show ?thesis using lt read_one_byte [OF Suc.prems(2), of m]
      by (auto simp del: of_nat_Suc intro!: exI [of _ 0])
  next
    case (Some b)
    have "read_string_loop (flat_task m) (a + word_of_nat (Suc n)) a (Suc n) \<longleftrightarrow>
        b = 0 \<or> read_string_loop (flat_task m) (a + word_of_nat (Suc n)) (a + 1) n"
      using lt read_one_byte [OF Suc.prems(2), of m] Some by (simp del: of_nat_Suc)
    also have "\<dots> \<longleftrightarrow> (\<forall>i < Suc n. (\<forall>j < i. m (a + word_of_nat j) \<noteq> Some 0) \<longrightarrow> m (a + word_of_nat i) \<noteq> None)"
      unfolding IH All_less_Suc2 using Some
      by (cases "b = 0") (simp_all add: All_less_Suc2 del: of_nat_Suc)
    finally show ?thesis .
  qed
qed simp

section \<open>The recording loop ends\<close>

lemma record_loop_returns:
  assumes "\<And>pcs c. walks U t env (FIRCLSUnwindInit r) pcs c \<Longrightarrow> FIRCLSUnwindNextFrame U t env c \<noteq> None"
  shows "record_loop U t env level (FIRCLSUnwindInit r) level 0 0 f \<noteq> None"
proof -
  obtain pcs c where w: "walks U t env (FIRCLSUnwindInit r) pcs c"
    "FIRCLSUnwindNextFrame U t env c = None \<or> (\<exists>c'. FIRCLSUnwindNextFrame U t env c = Some (False, c'))"
    using walk_ends [of U t env r] by blast
  then obtain c' where "FIRCLSUnwindNextFrame U t env c = Some (False, c')" using assms by blast
  from record_loop_end [OF w(1) this] show ?thesis by (simp split: prod.split)
qed

section \<open>Properties\<close>

text \<open>C12. Runaway recursion is cut short in the report: when the program counter \<open>pc\<close> comes up an eleventh time in a
  row, the stack trace holds the frames before, then only the frames with other program counters, and the thread's entry
  names \<open>pc\<close> and how often it was repeated at its last occurrence (0 if that was the eleventh frame itself).  Every
  frame with another program counter is kept; a later frame with \<open>pc\<close> is lost even when it stands alone, because
  \<open>repeatedPC\<close> is never cleared.\<close>

theorem recursion_collapsed:
  assumes "FIRCLSProcessGetThreadState P k p thread = Some (Some r)"
    and "walks (walker P) t env (FIRCLSUnwindInit r) (xs @ pc # ys) c"
    and "FIRCLSUnwindNextFrame (walker P) t env c = Some (False, c')" "collectionDepth f > 0"
    and "calm xs" "trailing_repeats (xs @ [pc]) \<ge> 10"
  shows "FIRCLSProcessRecordThread P k t env p thread level f = Some (True, level,
    f\<lparr>written := written f @ sep f @ print_json (JObject ([
        (''registers'', JObject (map (\<lambda>(key, v). (key, JUint v)) (register_entries P r))),
        (''stacktrace'', JArray (map JUint (xs @ filter (\<lambda>q. q \<noteq> pc) ys)))] @
      (if FIRCLSProcessIsCrashedThread k p thread then [(''crashed'', JBool True)] else []) @
      [(''repeated_pc'', JUint pc), (''repeat_count'', JUint (ucast (word_of_nat
        (if pc \<in> set ys then trailing_repeats (xs @ pc # upto_last pc ys) else 0) :: u32)))])),
      needComma := True\<rparr>)"
proof -
  have "pc \<noteq> 0"
    using walk_summary [OF assms(2)] by (auto simp: FIRCLSIsValidPointer_def)
  from record_frames_storm [OF assms(5,6) this, of 0 ys]
  show ?thesis unfolding record_thread_written [OF assms(1-4)] thread_json_def using \<open>pc \<noteq> 0\<close> by auto
qed

text \<open>C15. The report's section on the threads is one line of JSON with every thread's registers and
  stack trace, in the kernel's order, after which the file is ready for the next section; when the registers of a
  thread cannot be had, the threads before it are still reported, the line is still complete, and the
  failure is the result.\<close>

theorem all_threads_line:
  assumes "list_all2 (thread_recorded P k t env p) (take n (threads p)) vs" "n \<le> length (threads p)"
    and "n < length (threads p) \<Longrightarrow> FIRCLSProcessGetThreadState P k p (threads p ! n) = Some None"
    and "needComma f = False" "collectionDepth f = 0"
  shows "FIRCLSProcessRecordAllThreads P k t env p level f = Some (n = length (threads p), level,
    f\<lparr>written := written f @ print_json (JObject [(''threads'', JArray vs)]) @ [CHR 0x0A]\<rparr>)"
  using all_threads_json(1) [OF assms(1-3)] section_json [OF all_threads_json(2) [OF assms(1-3)] assms(4,5)]
  by simp

text \<open>C18. Recording a thread always comes to an end, however corrupt its stack is: as long as no
  single step faults, the call returns.\<close>

theorem record_thread_returns:
  assumes "FIRCLSProcessGetThreadState P k p thread = Some (Some r)"
    and "\<And>pcs c. walks (walker P) t env (FIRCLSUnwindInit r) pcs c \<Longrightarrow>
      FIRCLSUnwindNextFrame (walker P) t env c \<noteq> None"
  shows "\<exists>f'. FIRCLSProcessRecordThread P k t env p thread level f = Some (True, level, f')"
proof -
  define g where "g = FIRCLSFileWriteArrayStart (FIRCLSFileWriteHashKey ''stacktrace'' (FIRCLSFileWriteHashEnd
    (FIRCLSProcessRecordThreadRegisters P r (FIRCLSFileWriteHashStart (FIRCLSFileWriteHashKey ''registers''
      (FIRCLSFileWriteHashStart f))))))"
  have "record_loop (walker P) t env level (FIRCLSUnwindInit r) level 0 0 g \<noteq> None"
    by (rule record_loop_returns) (rule assms(2))
  then obtain res where "record_loop (walker P) t env level (FIRCLSUnwindInit r) level 0 0 g = Some res"
    by blast
  then show ?thesis
    by (cases res) (simp add: FIRCLSProcessRecordThread_def assms(1) Let_def g_def [symmetric])
qed

text \<open>The statistics are one line of JSON; the value under \<open>resident\<close> is the number of active
  bytes of the whole host, not the resident size of the process.\<close>

theorem stats_line:
  assumes "host_vm_counts k = Some (a, i, w, fr)" "task_basic_info k = Some (vs, rs, ut, st)"
    and "needComma f = False" "collectionDepth f = 0"
  shows "FIRCLSProcessRecordStats k f = f\<lparr>written := written f @ print_json (JObject [(''process_stats'',
    JObject [(''active'', JUint (ucast a * host_page_size k)), (''inactive'', JUint (ucast i * host_page_size k)),
      (''wired'', JUint (ucast w * host_page_size k)), (''freeMem'', JUint (ucast fr * host_page_size k)),
      (''free_mem'', JUint (ucast fr * host_page_size k)), (''virtual'', JUint vs),
      (''resident'', JUint (ucast a * host_page_size k)), (''user_time'', JUint (time_entry ut)),
      (''sys_time'', JUint (time_entry st))])]) @ [CHR 0x0A]\<rparr>"
  unfolding stats_json [OF assms(1,2)] by (rule section_json) (simp_all add: assms(3,4))

text \<open>A time is reported exactly as long as its microseconds fit in a signed 32-bit integer,
  about 35 minutes; beyond that the reported number is never the time.\<close>

theorem time_entry_exact:
  assumes "unat sec < 2 ^ 31" "unat usec < 1000000"
  shows "unat (time_entry (sec, usec)) = unat sec * 1000000 + unat usec \<longleftrightarrow>
    unat sec * 1000000 + unat usec < 2 ^ 31"
  by (rule time_value [OF assms])

text \<open>C35. A string is accepted exactly if every byte up to its terminator, or up to the limit, is
  readable: a string without a terminator within the limit is accepted too.\<close>

theorem read_string_safe:
  assumes "unat a + n < 2 ^ 64" "FIRCLSIsValidPointer a"
  shows "FIRCLSReadString (flat_task m) a n \<longleftrightarrow>
    (\<forall>i < n. (\<forall>j < i. m (a + word_of_nat j) \<noteq> Some 0) \<longrightarrow> m (a + word_of_nat i) \<noteq> None)"
  unfolding FIRCLSReadString_def by (rule read_string_loop_flat [OF assms])

text \<open>Suspending the other threads never touches the current one, and it gives up at the first
  failure: the threads after it are left running, and the result is false.\<close>

theorem suspend_others:
  "FIRCLSProcessSuspendAllOtherThreads k thread_suspend p =
    (let others = filter (\<lambda>thread. \<not> FIRCLSProcessIsCurrentThread k p thread) (threads p) in
     (list_all thread_suspend others,
      takeWhile thread_suspend others @ take 1 (dropWhile thread_suspend others)))"
  unfolding FIRCLSProcessSuspendAllOtherThreads_def other_threads threads_list by simp

text \<open>The names of the threads are one line of JSON, in the order of the threads, a thread
  without a name as the empty string; so are the labels of their dispatch queues.\<close>

theorem names_lines:
  assumes "needComma f = False" "collectionDepth f = 0"
    and "list_all2 (\<lambda>thread name.
      load_string t (FIRCLSProcessGetThreadDispatchQueueName k t thread) = Some name) (threads p) names"
  shows "FIRCLSProcessRecordThreadNames k p f = f\<lparr>written := written f @
      print_json (JObject [(''thread_names'',
        JArray (map (\<lambda>thread. JString (Some (case pthread_getname k thread of None \<Rightarrow> [] | Some n \<Rightarrow> n))) (threads p)))]) @
      [CHR 0x0A]\<rparr>"
    and "FIRCLSProcessRecordDispatchQueueNames k t p f = Some (f\<lparr>written := written f @
      print_json (JObject [(''dispatch_queue_names'', JArray (map JString names))]) @ [CHR 0x0A]\<rparr>)"
proof -
  have name: "snd (FIRCLSProcessGetThreadName k thread) = (case pthread_getname k thread of None \<Rightarrow> [] | Some n \<Rightarrow> n)"
    for thread by (simp add: FIRCLSProcessGetThreadName_def split: option.split)
  show "FIRCLSProcessRecordThreadNames k p f = f\<lparr>written := written f @
      print_json (JObject [(''thread_names'',
        JArray (map (\<lambda>thread. JString (Some (case pthread_getname k thread of None \<Rightarrow> [] | Some n \<Rightarrow> n))) (threads p)))]) @
      [CHR 0x0A]\<rparr>"
    unfolding thread_names_json name by (rule section_json) (simp_all add: assms list_all_iff)
  have "FIRCLSProcessRecordDispatchQueueNames k t p f = Some (FIRCLSFileWriteSectionEnd
      (write_collection (JArray (map JString names)) (FIRCLSFileWriteSectionStart ''dispatch_queue_names'' f)))"
    using queue_names [of t k p "[0..<length (threads p)]" names] assms(3)
    by (simp add: FIRCLSProcessRecordDispatchQueueNames_def FIRCLSProcessGetThreadCount_def threads_list)
  also have "FIRCLSFileWriteSectionEnd (write_collection (JArray (map JString names))
      (FIRCLSFileWriteSectionStart ''dispatch_queue_names'' f)) = f\<lparr>written := written f @
      print_json (JObject [(''dispatch_queue_names'', JArray (map JString names))]) @ [CHR 0x0A]\<rparr>"
    by (rule section_json) (simp_all add: assms list_all_iff)
  finally show "FIRCLSProcessRecordDispatchQueueNames k t p f = Some (f\<lparr>written := written f @
      print_json (JObject [(''dispatch_queue_names'', JArray (map JString names))]) @ [CHR 0x0A]\<rparr>)" .
qed

section \<open>Witnesses\<close>

text \<open>One thread, twelve frames of the same function behind the current one.\<close>

definition storm_stack :: "u64 list" where
  "storm_stack = concat (map (\<lambda>i. [0x2000 + 16 * word_of_nat i, 0x5100]) [1..<12]) @ [0, 0x5100]"

abbreviation storm_task :: task where
  "storm_task \<equiv> flat_task (block 0x2000 (words_mem storm_stack))"

definition storm_arm :: arm_thread where
  "storm_arm = \<lparr>ss_x = \<lambda>n. 0, ss_fp = 0x2000, ss_lr = 0, ss_sp = 0x2000, ss_pc = 0x5000, ss_cpsr = 0\<rparr>"

lemma storm_words:
  "stack_word storm_task 0x2000 = Some 0x2010" "stack_word storm_task 0x2008 = Some 0x5100"
  "stack_word storm_task 0x2010 = Some 0x2020" "stack_word storm_task 0x2018 = Some 0x5100"
  "stack_word storm_task 0x2020 = Some 0x2030" "stack_word storm_task 0x2028 = Some 0x5100"
  "stack_word storm_task 0x2030 = Some 0x2040" "stack_word storm_task 0x2038 = Some 0x5100"
  "stack_word storm_task 0x2040 = Some 0x2050" "stack_word storm_task 0x2048 = Some 0x5100"
  "stack_word storm_task 0x2050 = Some 0x2060" "stack_word storm_task 0x2058 = Some 0x5100"
  "stack_word storm_task 0x2060 = Some 0x2070" "stack_word storm_task 0x2068 = Some 0x5100"
  "stack_word storm_task 0x2070 = Some 0x2080" "stack_word storm_task 0x2078 = Some 0x5100"
  "stack_word storm_task 0x2080 = Some 0x2090" "stack_word storm_task 0x2088 = Some 0x5100"
  "stack_word storm_task 0x2090 = Some 0x20A0" "stack_word storm_task 0x2098 = Some 0x5100"
  "stack_word storm_task 0x20A0 = Some 0x20B0" "stack_word storm_task 0x20A8 = Some 0x5100"
  "stack_word storm_task 0x20B0 = Some 0" "stack_word storm_task 0x20B8 = Some 0x5100"
  using stack_word_block [of 0 storm_stack "0x2000"] stack_word_block [of 1 storm_stack "0x2000"]
    stack_word_block [of 2 storm_stack "0x2000"] stack_word_block [of 3 storm_stack "0x2000"]
    stack_word_block [of 4 storm_stack "0x2000"] stack_word_block [of 5 storm_stack "0x2000"]
    stack_word_block [of 6 storm_stack "0x2000"] stack_word_block [of 7 storm_stack "0x2000"]
    stack_word_block [of 8 storm_stack "0x2000"] stack_word_block [of 9 storm_stack "0x2000"]
    stack_word_block [of 10 storm_stack "0x2000"] stack_word_block [of 11 storm_stack "0x2000"]
    stack_word_block [of 12 storm_stack "0x2000"] stack_word_block [of 13 storm_stack "0x2000"]
    stack_word_block [of 14 storm_stack "0x2000"] stack_word_block [of 15 storm_stack "0x2000"]
    stack_word_block [of 16 storm_stack "0x2000"] stack_word_block [of 17 storm_stack "0x2000"]
    stack_word_block [of 18 storm_stack "0x2000"] stack_word_block [of 19 storm_stack "0x2000"]
    stack_word_block [of 20 storm_stack "0x2000"] stack_word_block [of 21 storm_stack "0x2000"]
    stack_word_block [of 22 storm_stack "0x2000"] stack_word_block [of 23 storm_stack "0x2000"]
  by (simp_all add: storm_stack_def upt_rec)

definition demo_kernel :: "arm_thread kernel" where
  "demo_kernel = \<lparr>MACH_PORT_INDEX = drop_bit 8, task_threads = Some [0x103, 0x203],
     thread_get_state = (\<lambda>thread. if thread = 0x203 then Some storm_arm else None),
     load_ucontext = (\<lambda>a. None), builtin_frame_address = 0x2000, builtin_return_address = 0x5200,
     builtin_current_pc = 0x5000, pthread_getname = (\<lambda>thread. None), thread_dispatch_qaddr = (\<lambda>thread. None),
     dispatch_queue_get_label = (\<lambda>q. 0), host_vm_counts = Some (1, 2, 3, 4), host_page_size = 4096,
     task_basic_info = Some (9, 8, (1, 5), (0, 7)), objc_msgSend = 0, objc_msgSendSuper = 0,
     objc_msgSend_stret = 0, objc_msgSendSuper_stret = 0, objc_msgSend_fpret = 0\<rparr>"

definition demo_process :: process where
  "demo_process = \<lparr>thisThread = 0x103, crashedThread = 0x103, threads = [0x203, 0x303], uapVoid = 0\<rparr>"

lemma demo_state:
  "FIRCLSProcessGetThreadState arm_platform demo_kernel demo_process 0x203 = Some (Some storm_arm)"
  "FIRCLSProcessGetThreadState arm_platform demo_kernel demo_process 0x303 = Some None"
  by (simp_all add: FIRCLSProcessGetThreadState_def FIRCLSProcessIsCrashedThread_def
      FIRCLSProcessIsCurrentThread_def demo_kernel_def demo_process_def)

definition storm_pcs :: "u64 list" where
  "storm_pcs = [0x5100, 0x5100, 0x5100, 0x5100, 0x5100, 0x5100, 0x5100, 0x5100, 0x5100, 0x5100]"

lemma storm_chain: "fp_chain storm_task CLS_PTRAUTH_STRIP 0x2000 (storm_pcs @ [0x5100, 0x5100])"
  by (simp add: storm_pcs_def CLS_PTRAUTH_STRIP_def FIRCLSIsValidPointer_def storm_words)

lemma storm_walk:
  "\<exists>c c'. walks arm_unwinder storm_task no_images (FIRCLSUnwindInit storm_arm)
      ((0x5000 # storm_pcs) @ 0x5100 # [0x5100]) c \<and>
    FIRCLSUnwindNextFrame arm_unwinder storm_task no_images c = Some (False, c')"
  using arm_chain_walk [of storm_arm "block 0x2000 (words_mem storm_stack)" "storm_pcs @ [0x5100, 0x5100]" no_images]
    storm_chain
  by (simp add: storm_arm_def CLS_PTRAUTH_STRIP_def FIRCLSIsValidPointer_def storm_pcs_def)

lemma storm_calm: "calm (0x5000 # storm_pcs)" "trailing_repeats ((0x5000 # storm_pcs) @ [0x5100]) = 10"
  by (simp_all add: calm_def frames_def trailing_repeats_def storm_pcs_def upt_rec)

definition open_report :: report_file where
  "open_report = \<lparr>needComma = False, collectionDepth = 1, written = []\<rparr>"

lemma recursion_collapsed_witness:
  "\<exists>f'. FIRCLSProcessRecordThread arm_platform demo_kernel storm_task no_images demo_process 0x203 2 open_report =
      Some (True, 2, f') \<and>
    written f' = print_json (JObject [
      (''registers'', JObject (map (\<lambda>(key, v). (key, JUint v)) (arm_register_entries storm_arm))),
      (''stacktrace'', JArray (map JUint (0x5000 # storm_pcs))),
      (''repeated_pc'', JUint 0x5100), (''repeat_count'', JUint 11)])"
proof -
  obtain c c' where c: "walks arm_unwinder storm_task no_images (FIRCLSUnwindInit storm_arm)
      ((0x5000 # storm_pcs) @ 0x5100 # [0x5100]) c"
    "FIRCLSUnwindNextFrame arm_unwinder storm_task no_images c = Some (False, c')"
    using storm_walk by blast
  have "\<not> FIRCLSProcessIsCrashedThread demo_kernel demo_process 0x203"
    by (simp add: FIRCLSProcessIsCrashedThread_def demo_kernel_def demo_process_def)
  moreover have "trailing_repeats ((0x5000 # storm_pcs) @ 0x5100 # upto_last 0x5100 [0x5100]) = 11"
    by (simp add: upto_last_def trailing_repeats_def storm_pcs_def)
  ultimately show ?thesis
    using recursion_collapsed [OF demo_state(1), of storm_task no_images "0x5000 # storm_pcs" "0x5100" "[0x5100]" c c'
        open_report 2] c storm_calm
    by (simp add: arm_platform_def open_report_def sep_def)
qed

lemma demo_walk:
  "thread_recorded arm_platform demo_kernel storm_task no_images demo_process 0x203
    (thread_json arm_platform False storm_arm ((0x5000 # storm_pcs) @ 0x5100 # [0x5100]))"
proof -
  have "\<not> FIRCLSProcessIsCrashedThread demo_kernel demo_process 0x203"
    by (simp add: FIRCLSProcessIsCrashedThread_def demo_kernel_def demo_process_def)
  then show ?thesis
    using storm_walk demo_state(1) unfolding thread_recorded_def by (auto simp: arm_platform_def)
qed

text \<open>The second thread of the process is gone when its registers are asked for.\<close>

lemma all_threads_line_witness:
  "\<exists>f'. FIRCLSProcessRecordAllThreads arm_platform demo_kernel storm_task no_images demo_process 2 empty_report =
      Some (False, 2, f') \<and>
    written f' = print_json (JObject [(''threads'', JArray
      [thread_json arm_platform False storm_arm ((0x5000 # storm_pcs) @ 0x5100 # [0x5100])])]) @ [CHR 0x0A]"
  using all_threads_line [of arm_platform demo_kernel storm_task no_images demo_process 1
      "[thread_json arm_platform False storm_arm ((0x5000 # storm_pcs) @ 0x5100 # [0x5100])]" empty_report 2]
    demo_walk demo_state(2)
  by (simp add: demo_process_def empty_report_def)

text \<open>Without images no step on arm64 can fault.\<close>

lemma arm_total: "FIRCLSUnwindNextFrame arm_unwinder t no_images c \<noteq> None"
proof -
  have "FIRCLSUnwindWithCompactUnwindInfo arm_unwinder t no_images c' = Some (False, c')" for c'
    by (simp add: FIRCLSUnwindWithCompactUnwindInfo_def FIRCLSBinaryImageSafeFindImageForAddress_def no_images_def)
  then have "FIRCLSUnwindNextFrameUsingAllStrategies arm_unwinder t no_images c \<noteq> None"
    by (auto simp: FIRCLSUnwindNextFrameUsingAllStrategies_def arm_unwinder_def Let_def split: prod.splits)
  then show ?thesis
    by (auto simp: FIRCLSUnwindNextFrame_def Let_def split: prod.splits)
qed

lemma record_thread_returns_witness:
  "\<exists>f'. FIRCLSProcessRecordThread arm_platform demo_kernel storm_task no_images demo_process 0x203 2 open_report =
    Some (True, 2, f')"
  by (rule record_thread_returns [OF demo_state(1)]) (simp add: arm_platform_def arm_total)

lemma stats_line_witness:
  "written (FIRCLSProcessRecordStats demo_kernel empty_report) = print_json (JObject [(''process_stats'',
    JObject [(''active'', JUint 4096), (''inactive'', JUint 8192), (''wired'', JUint 12288),
      (''freeMem'', JUint 16384), (''free_mem'', JUint 16384), (''virtual'', JUint 9),
      (''resident'', JUint 4096), (''user_time'', JUint 1000005), (''sys_time'', JUint 7)])]) @ [CHR 0x0A]"
  using stats_line [of demo_kernel 1 2 3 4 9 8 "(1, 5)" "(0, 7)" empty_report]
  by (simp add: demo_kernel_def empty_report_def time_entry_def)

lemma time_entry_exact_witness:
  "unat (time_entry (2147, 0)) = 2147000000 \<and> unat (time_entry (2148, 0)) \<noteq> 2148000000"
  using time_entry_exact [of 2147 0] time_entry_exact [of 2148 0] by simp

lemma all_less_numeral: "(\<forall>i < 2. Q i) \<longleftrightarrow> Q 0 \<and> Q (1 :: nat)" "(\<forall>i < 3. Q i) \<longleftrightarrow> Q 0 \<and> Q 1 \<and> Q (2 :: nat)"
  by (auto simp: numeral_eq_Suc less_Suc_eq)

lemma read_string_safe_witness:
  "FIRCLSReadString (flat_task (block 0x2000 [65, 66])) 0x2000 2 \<and>
   \<not> FIRCLSReadString (flat_task (block 0x2000 [65, 66])) 0x2000 3"
  using read_string_safe [of "0x2000" 2 "block 0x2000 [65, 66]"] read_string_safe [of "0x2000" 3 "block 0x2000 [65, 66]"]
  by (simp add: FIRCLSIsValidPointer_def block_def all_less_numeral)

end
