(* ===== verification/Crash_Info.thy ===== *)
theory Crash_Info
  imports Process_Record
begin

text \<open>The messages that system libraries leave for crash reporters (\<open>FIRCLSProcess.c\<close>, the section
  "runtime") and the redaction of UUIDs in them (\<open>FIRCLSRedactUUID\<close> of \<open>FIRCLSUtility.m\<close>).  The strings are
  redacted in place, so the memory of the process is a state here: a map from addresses to bytes, which is threaded
  through the loop.  \<open>redact\<close> says what redaction does to the characters of a string, \<open>cstring\<close> that memory
  holds one.\<close>

section \<open>Redacting\<close>

type_synonym address_space = "u64 \<Rightarrow> byte option"

text \<open>\<open>strchr\<close> of the C library for a character other than the terminator; 0 is the null pointer.\<close>

function c_strchr :: "task \<Rightarrow> u64 \<Rightarrow> byte \<Rightarrow> u64 option" where
  "c_strchr t s c =
     (case deref t s of
        None \<Rightarrow> None
      | Some b \<Rightarrow>
          if b = c then Some s
          else if b = 0 then Some 0
          else if unat s + 1 < 2 ^ 64 then c_strchr t (s + 1) c else None)"
  by pat_completeness auto
termination
proof (relation "measure (\<lambda>(t, s, c). 2 ^ 64 - unat s)")
  fix t :: task and s :: u64 and b c :: byte
  assume "unat s + 1 < (2 :: nat) ^ 64"
  then have "unat (s + 1) = unat s + 1" by (simp add: unat_word_ariths)
  with \<open>unat s + 1 < (2 :: nat) ^ 64\<close>
  show "((t, s + 1, c), (t, s, c)) \<in> measure (\<lambda>(t, s, c). 2 ^ 64 - unat s)" by simp
qed simp

declare c_strchr.simps [simp del]

text \<open>The inner loop: every character of the group but \<open>-\<close> is overwritten; a store to memory that cannot
  be written, which \<open>rw\<close> says, faults.\<close>

fun redact_chars :: "(u64 \<Rightarrow> bool) \<Rightarrow> u64 \<Rightarrow> nat \<Rightarrow> address_space \<Rightarrow> address_space option" where
  "redact_chars rw p 0 m = Some m"
| "redact_chars rw p (Suc n) m = do {
     b \<leftarrow> m p;
     m \<leftarrow> (if b \<noteq> 0x2D then (if rw p then Some (m(p \<mapsto> 0x2A)) else None) else Some m);
     redact_chars rw (p + 1) n m }"

partial_function (option) redact_loop :: "(u64 \<Rightarrow> bool) \<Rightarrow> u64 \<Rightarrow> address_space \<Rightarrow> address_space option" where
  [code]: "redact_loop rw openParen m =
     Option.bind (c_strchr (flat_task m) openParen 0x28) (\<lambda>openParen.
       if openParen = 0 then Some m
       else Option.bind (c_strchr (flat_task m) openParen 0x29) (\<lambda>closeParen.
         if closeParen = 0 then Some m
         else if closeParen - openParen = 37 then redact_chars rw (openParen + 1) 36 m
         else redact_loop rw (openParen + 1) m))"

definition FIRCLSRedactUUID :: "(u64 \<Rightarrow> bool) \<Rightarrow> u64 \<Rightarrow> address_space \<Rightarrow> address_space option" where
  "FIRCLSRedactUUID rw value m = (if value = 0 then Some m else redact_loop rw value m)"

section \<open>Crash information and the runtime section\<close>

text \<open>The strings that system libraries leave for crash reporters: \<open>crash_info_t\<close> has the version at offset 0
  and the message at offset 8 of its 56 bytes.  The address space is threaded, for messages are
  redacted in place.\<close>

definition crash_message :: "address_space \<Rightarrow> image_node \<Rightarrow> u64 option" where
  "crash_message m node =
     (if image_crashInfo node = 0 then None
      else case FIRCLSReadMemory (flat_task m) (image_crashInfo node) 56 of
        None \<Rightarrow> None
      | Some info \<Rightarrow>
          let version = le_word (take 4 info) :: u32; message = le_word (take 8 (drop 8 info)) in
          if version > 5 then None
          else if message = 0 then None
          else if \<not> FIRCLSReadString (flat_task m) message 256 then None
          else Some message)"

fun crash_info_loop ::
    "(u64 \<Rightarrow> bool) \<Rightarrow> image_node list \<Rightarrow> address_space \<Rightarrow> report_file \<Rightarrow> (address_space \<times> report_file) option" where
  "crash_info_loop rw [] m f = Some (m, f)"
| "crash_info_loop rw (node # ns) m f =
     (case crash_message m node of
        None \<Rightarrow> crash_info_loop rw ns m f
      | Some message \<Rightarrow> do {
          m \<leftarrow> FIRCLSRedactUUID rw message m;
          string \<leftarrow> load_string (flat_task m) (CAt message);
          crash_info_loop rw ns m (FIRCLSFileWriteArrayEntryHexEncodedString string f) })"

definition FIRCLSProcessRecordCrashInfo ::
    "(u64 \<Rightarrow> bool) \<Rightarrow> images \<Rightarrow> address_space \<Rightarrow> report_file \<Rightarrow> (address_space \<times> report_file) option" where
  "FIRCLSProcessRecordCrashInfo rw env m f =
     (case nodes env of None \<Rightarrow> Some (m, f) | Some ns \<Rightarrow> crash_info_loop rw ns m f)"

text \<open>When the registers of the crashed thread cannot be had, the code goes on with the uninitialised
  \<open>mcontext\<close>: the argument \<open>garbage\<close>.\<close>

definition FIRCLSProcessRecordRuntimeInfo ::
    "'r platform \<Rightarrow> 'r kernel \<Rightarrow> 'r \<Rightarrow> (u64 \<Rightarrow> bool) \<Rightarrow> images \<Rightarrow> process \<Rightarrow> address_space \<Rightarrow> report_file \<Rightarrow>
     (address_space \<times> report_file) option" where
  "FIRCLSProcessRecordRuntimeInfo P k garbage rw env p m f = do {
     state \<leftarrow> FIRCLSProcessGetThreadState P k p (crashedThread p);
     let mcontext = (case state of None \<Rightarrow> garbage | Some context \<Rightarrow> context);
     let f = FIRCLSFileWriteSectionStart ''runtime'' f;
     let f = FIRCLSFileWriteHashStart f;
     selector \<leftarrow> load_string (flat_task m) (FIRCLSProcessGetObjCSelectorName P k (flat_task m) mcontext);
     let f = FIRCLSFileWriteHashEntryString ''objc_selector'' selector f;
     let f = FIRCLSFileWriteHashKey ''crash_info_entries'' f;
     let f = FIRCLSFileWriteArrayStart f;
     (m, f) \<leftarrow> FIRCLSProcessRecordCrashInfo rw env m f;
     let f = FIRCLSFileWriteArrayEnd f;
     let f = FIRCLSFileWriteHashEnd f;
     Some (m, FIRCLSFileWriteSectionEnd f) }"

section \<open>What redacting does to a string\<close>

text \<open>\<open>redact\<close> on the characters of a string: the first parenthesis whose group has 36 characters.\<close>

definition star_char :: "byte \<Rightarrow> byte" where
  "star_char b = (if b = 0x2D then 0x2D else 0x2A)"

fun redact :: "byte list \<Rightarrow> byte list" where
  "redact [] = []"
| "redact (c # cs) =
     (if c \<noteq> 0x28 then c # redact cs
      else if 0x29 \<notin> set cs then c # cs
      else if length (takeWhile (\<lambda>x. x \<noteq> 0x29) cs) = 36 then c # map star_char (take 36 cs) @ drop 36 cs
      else c # redact cs)"

definition cstring :: "address_space \<Rightarrow> u64 \<Rightarrow> byte list \<Rightarrow> bool" where
  "cstring m p s \<longleftrightarrow> at_cursor (flat_task m) p (s @ [0]) \<and> 0 \<notin> set s"

lemma cstring_Nil: "cstring m p [] \<longleftrightarrow> m p = Some 0 \<and> unat p + 1 < 2 ^ 64"
  by (auto simp: cstring_def at_cursor_def holds_Cons)

lemma cstring_Cons: "cstring m p (c # cs) \<longleftrightarrow> m p = Some c \<and> c \<noteq> 0 \<and> unat p + 1 < 2 ^ 64 \<and> cstring m (p + 1) cs"
proof (cases "unat p + 1 < 2 ^ 64")
  case True
  then have "unat (p + 1) = unat p + 1" by (simp add: unat_word_ariths)
  then show ?thesis using True by (auto simp: cstring_def at_cursor_def holds_Cons)
qed (auto simp: cstring_def at_cursor_def)

lemma strchr_cstring:
  assumes "cstring m p s" "c \<noteq> 0"
  shows "c_strchr (flat_task m) p c = Some (if c \<in> set s then p + word_of_nat (length (takeWhile (\<lambda>x. x \<noteq> c) s)) else 0)"
  using assms(1)
proof (induction s arbitrary: p)
  case Nil
  then show ?case using assms(2) by (subst c_strchr.simps) (auto simp: cstring_Nil)
next
  case (Cons b s)
  then show ?case
    by (subst c_strchr.simps) (auto simp: cstring_Cons Cons.IH add.assoc)
qed

lemma cstring_bound: "cstring m p s \<Longrightarrow> unat p + length s + 1 < 2 ^ 64"
  by (simp add: cstring_def at_cursor_def)

lemma unat_offset: "unat (p :: u64) + i < 2 ^ 64 \<Longrightarrow> unat (p + word_of_nat i) = unat p + i"
  by (simp add: unat_word_ariths unat_of_nat)

lemma offsets_differ:
  "unat (p :: u64) + i < 2 ^ 64 \<Longrightarrow> unat p + j < 2 ^ 64 \<Longrightarrow> p + word_of_nat i = p + word_of_nat j \<longleftrightarrow> i = j"
  by (metis add_left_cancel unat_offset)

lemma cstring_suffix: "cstring m p (xs @ ys) \<Longrightarrow> cstring m (p + word_of_nat (length xs)) ys"
  by (induction xs arbitrary: p) (auto simp: cstring_Cons simp flip: add.assoc)

lemma takeWhile_found: "x \<in> set cs \<Longrightarrow> length (takeWhile (\<lambda>y. y \<noteq> x) cs) < length cs"
  by (induction cs) auto

lemma cstring_prefix:
  assumes "cstring m p (xs @ ys)" "cstring m' (p + word_of_nat (length xs)) ys'"
    and "\<And>i. i < length xs \<Longrightarrow> m' (p + word_of_nat i) = m (p + word_of_nat i)"
  shows "cstring m' p (xs @ ys')"
  using assms
proof (induction xs arbitrary: p)
  case (Cons x xs)
  have "m' (p + 1 + word_of_nat i) = m (p + 1 + word_of_nat i)" if "i < length xs" for i
    using Cons.prems(3) [of "Suc i"] that by (simp add: add.assoc)
  then have "cstring m' (p + 1) (xs @ ys')" using Cons.prems by (intro Cons.IH) (auto simp: cstring_Cons add.assoc)
  then show ?case using Cons.prems(1) Cons.prems(3) [of 0] by (simp add: cstring_Cons)
qed simp

lemma cstring_cong:
  assumes "cstring m p s" "\<And>i. i \<le> length s \<Longrightarrow> m' (p + word_of_nat i) = m (p + word_of_nat i)"
  shows "cstring m' p s"
proof -
  have "cstring m' (p + word_of_nat (length s)) []"
    using cstring_suffix [of m p s "[]"] assms by (simp add: cstring_Nil)
  then show ?thesis using cstring_prefix [of m p s "[]" m' "[]"] assms by simp
qed

lemma redact_chars_cstring:
  assumes "cstring m p (u @ rest)" "\<And>i. i < length u \<Longrightarrow> rw (p + word_of_nat i)"
  shows "\<exists>m'. redact_chars rw p (length u) m = Some m' \<and> cstring m' p (map star_char u @ rest) \<and>
    (\<forall>q. (\<forall>i < length u. q \<noteq> p + word_of_nat i) \<longrightarrow> m' q = m q)"
  using assms
proof (induction u arbitrary: p m)
  case (Cons b u)
  let ?m = "if b \<noteq> 0x2D then m(p \<mapsto> 0x2A) else m"
  have b: "m p = Some b" "unat p + length (u @ rest) + 2 < 2 ^ 64"
    using Cons.prems(1) cstring_bound [OF Cons.prems(1)] by (simp_all add: cstring_Cons)
  have ne: "p + 1 + word_of_nat i \<noteq> p" if "i \<le> length (u @ rest)" for i
    using offsets_differ [of p "Suc i" 0] that b(2) by (simp add: add.assoc)
  have "cstring ?m (p + 1) (u @ rest)"
  proof (rule cstring_cong)
    show "cstring m (p + 1) (u @ rest)" using Cons.prems(1) by (simp add: cstring_Cons)
    show "?m (p + 1 + word_of_nat i) = m (p + 1 + word_of_nat i)" if "i \<le> length (u @ rest)" for i
      using fun_upd_other [OF ne [OF that], of m] by (simp only: if_cancel split: if_split) simp
  qed
  moreover have "rw (p + 1 + word_of_nat i)" if "i < length u" for i
    using Cons.prems(2) [of "Suc i"] that by (simp add: add.assoc)
  ultimately obtain m' where m': "redact_chars rw (p + 1) (length u) ?m = Some m'" "cstring m' (p + 1) (map star_char u @ rest)"
    "\<forall>q. (\<forall>i < length u. q \<noteq> p + 1 + word_of_nat i) \<longrightarrow> m' q = ?m q" using Cons.IH by blast
  have "p \<noteq> p + 1 + word_of_nat i" if "i < length u" for i by (rule not_sym [OF ne]) (use that in simp)
  then have "m' p = ?m p" using m'(3) by blast
  then have "cstring m' p (star_char b # map star_char u @ rest)"
    using m'(2) b by (auto simp: cstring_Cons star_char_def)
  moreover have "redact_chars rw p (length (b # u)) m = Some m'"
    using m'(1) b(1) Cons.prems(2) [of 0] by (auto split: if_splits)
  moreover have "m' q = m q" if "\<forall>i < length (b # u). q \<noteq> p + word_of_nat i" for q
  proof -
    have "q \<noteq> p + 1 + word_of_nat i" if "i < length u" for i
      using \<open>\<forall>i < length (b # u). q \<noteq> p + word_of_nat i\<close> [rule_format, of "Suc i"] that by (simp add: add.assoc)
    moreover have "q \<noteq> p" using that [rule_format, of 0] by simp
    ultimately show ?thesis using m'(3) by simp
  qed
  ultimately show ?case by auto
qed simp

lemma redact_append: "0x28 \<notin> set pre \<Longrightarrow> redact (pre @ s) = pre @ redact s"
  by (induction pre) auto

lemma redact_none: "0x28 \<notin> set s \<Longrightarrow> redact s = s"
  using redact_append [of s "[]"] by simp

lemma length_redact [simp]: "length (redact s) = length s"
  by (induction s) (auto simp: not_less min_def dest!: arg_cong [where f = length])

lemma redact_loop_cstring:
  assumes "cstring m p s" "p \<noteq> 0" "\<And>i. i < length s \<Longrightarrow> rw (p + word_of_nat i)"
  shows "\<exists>m'. redact_loop rw p m = Some m' \<and> cstring m' p (redact s) \<and>
    (\<forall>q. (\<forall>i < length s. q \<noteq> p + word_of_nat i) \<longrightarrow> m' q = m q)"
  using assms
proof (induction "length s" arbitrary: p s rule: less_induct)
  case less
  show ?case
  proof (cases "0x28 \<in> set s")
    case False
    then have "redact_loop rw p m = Some m"
      using strchr_cstring [OF less.prems(1), of "0x28"] by (simp add: redact_loop.simps [of rw p m])
    then show ?thesis using less.prems(1) redact_none [OF False] by auto
  next
    case True
    then obtain pre cs where s: "s = pre @ 0x28 # cs" "0x28 \<notin> set pre" by (meson split_list_first)
    let ?op = "p + word_of_nat (length pre)"
    have tw: "takeWhile (\<lambda>x. x \<noteq> 0x28) s = pre" using s by (auto simp: takeWhile_append takeWhile_eq_all_conv)
    have bd: "unat p + length s + 1 < 2 ^ 64" by (rule cstring_bound [OF less.prems(1)])
    have uop: "unat ?op = unat p + length pre" using bd s(1) by (intro unat_offset) simp
    have nz: "?op \<noteq> 0" using uop less.prems(2) by (metis add_is_0 unat_0 unat_eq_zero)
    have cop: "cstring m ?op (0x28 # cs)" using cstring_suffix less.prems(1) s(1) by blast
    have l: "redact_loop rw p m = (if 0x29 \<notin> set cs then Some m
        else if length (takeWhile (\<lambda>x. x \<noteq> 0x29) cs) = 36 then redact_chars rw (?op + 1) 36 m
        else redact_loop rw (?op + 1) m)"
    proof (cases "0x29 \<in> set cs")
      case False
      then show ?thesis using strchr_cstring [OF less.prems(1), of "0x28"] strchr_cstring [OF cop, of "0x29"] True nz
        by (simp add: redact_loop.simps [of rw p m] tw)
    next
      case ex: True
      define j where "j = length (takeWhile (\<lambda>x. x \<noteq> 0x29) cs)"
      have j: "j < length cs" unfolding j_def by (rule takeWhile_found [OF ex])
      have uc: "unat (?op + word_of_nat (Suc j)) = unat ?op + Suc j" using bd uop s(1) j by (intro unat_offset) simp
      have "?op + word_of_nat (Suc j) \<noteq> 0" using uc by (metis add_Suc_right nat.distinct(1) unat_0)
      moreover have "?op + word_of_nat (Suc j) - ?op = 37 \<longleftrightarrow> j = 36"
      proof -
        have "(word_of_nat (Suc j) :: u64) = 37 \<longleftrightarrow> Suc j = 37"
          using bd s(1) j by (subst word_unat_eq_iff) (simp add: unat_of_nat del: of_nat_Suc)
        then show ?thesis by simp
      qed
      ultimately show ?thesis
        using strchr_cstring [OF less.prems(1), of "0x28"] strchr_cstring [OF cop, of "0x29"] True nz ex
        by (simp add: redact_loop.simps [of rw p m] tw j_def [symmetric] del: of_nat_Suc)
    qed
    have rw: "rw (?op + 1 + word_of_nat i)" if "i < length cs" for i
      using less.prems(3) [of "length pre + Suc i"] that s(1) by (simp add: add_ac)
    have c1: "cstring m (?op + 1) cs" using cop by (simp add: cstring_Cons)
    have away: "q = p + word_of_nat i \<Longrightarrow> i \<le> length pre \<Longrightarrow> k < length cs \<Longrightarrow> q \<noteq> ?op + 1 + word_of_nat k" for q i k
      using offsets_differ [of p i "length pre + Suc k"] bd s(1) by (simp add: add_ac)
    have step: ?thesis if m': "redact_loop rw p m = Some m'" "cstring m' (?op + 1) cs'"
      "\<forall>q. (\<forall>i < length cs. q \<noteq> ?op + 1 + word_of_nat i) \<longrightarrow> m' q = m q" "redact (0x28 # cs) = 0x28 # cs'" for m' cs'
    proof -
      have same: "m' (p + word_of_nat i) = m (p + word_of_nat i)" if "i < length (pre @ [0x28])" for i
        by (rule m'(3) [rule_format], rule away [OF refl]) (use that in simp_all)
      have "cstring m' p ((pre @ [0x28]) @ cs')"
      proof (rule cstring_prefix)
        show "cstring m p ((pre @ [0x28]) @ cs)" using less.prems(1) unfolding s(1) by simp
        show "cstring m' (p + word_of_nat (length (pre @ [0x28]))) cs'" using m'(2) by (simp add: add_ac)
      qed (rule same)
      moreover have "m' q = m q" if "\<forall>i < length s. q \<noteq> p + word_of_nat i" for q
      proof -
        have "q \<noteq> ?op + 1 + word_of_nat i" if "i < length cs" for i
          using \<open>\<forall>i < length s. q \<noteq> p + word_of_nat i\<close> [rule_format, of "length pre + Suc i"] that s(1) by (simp add: add_ac)
        then show ?thesis using m'(3) by blast
      qed
      ultimately show ?thesis using m'(1,4) redact_append [OF s(2), of "0x28 # cs"] s(1) by auto
    qed
    consider "0x29 \<notin> set cs" | "0x29 \<in> set cs" "length (takeWhile (\<lambda>x. x \<noteq> 0x29) cs) = 36"
      | "0x29 \<in> set cs" "length (takeWhile (\<lambda>x. x \<noteq> 0x29) cs) \<noteq> 36" by blast
    then show ?thesis
    proof cases
      case 1
      then show ?thesis using step [of m cs] l c1 by simp
    next
      case 2
      have "36 < length cs" using takeWhile_found [OF 2(1)] 2(2) by simp
      then have c36: "cs = take 36 cs @ drop 36 cs" "length (take 36 cs) = 36" by simp_all
      obtain m' where m': "redact_chars rw (?op + 1) 36 m = Some m'" "cstring m' (?op + 1) (map star_char (take 36 cs) @ drop 36 cs)"
        "\<forall>q. (\<forall>i < 36. q \<noteq> ?op + 1 + word_of_nat i) \<longrightarrow> m' q = m q"
        using redact_chars_cstring [of m "?op + 1" "take 36 cs" "drop 36 cs" rw] c1 c36 rw by auto
      show ?thesis
        by (rule step [of m' "map star_char (take 36 cs) @ drop 36 cs"]) (use m' l 2 \<open>36 < length cs\<close> in auto)
    next
      case 3
      have ne: "?op + 1 \<noteq> 0" using unat_offset [of ?op 1] uop bd s(1) by (metis add_is_0 of_nat_1 unat_0 zero_neq_one
          add.assoc add_lessD1 length_Cons length_append plus_1_eq_Suc add_Suc_right)
      obtain m' where m': "redact_loop rw (?op + 1) m = Some m'" "cstring m' (?op + 1) (redact cs)"
        "\<forall>q. (\<forall>i < length cs. q \<noteq> ?op + 1 + word_of_nat i) \<longrightarrow> m' q = m q"
        using less.hyps [OF _ c1 ne rw] s(1) by auto
      show ?thesis by (rule step [of m' "redact cs"]) (use m' l 3 in auto)
    qed
  qed
qed

section \<open>Redacting keeps strings strings\<close>

text \<open>Some characters of strings have become \<open>*\<close>; no terminator has changed.\<close>

definition starred :: "address_space \<Rightarrow> address_space \<Rightarrow> bool" where
  "starred m0 m \<longleftrightarrow> (\<forall>q. m q = m0 q \<or> m q = Some 0x2A \<and> m0 q \<noteq> None \<and> m0 q \<noteq> Some 0)"

definition star_of :: "byte list \<Rightarrow> byte list \<Rightarrow> bool" where
  "star_of = list_all2 (\<lambda>b c. c = b \<or> c = 0x2A)"

lemma starred_refl: "starred m m"
  by (simp add: starred_def)

lemma starred_trans: "starred m0 m \<Longrightarrow> starred m m' \<Longrightarrow> starred m0 m'"
  unfolding starred_def by (metis (full_types))

lemma starred_zero: "starred m0 m \<Longrightarrow> m q = Some 0 \<longleftrightarrow> m0 q = Some 0" "starred m0 m \<Longrightarrow> m q = None \<longleftrightarrow> m0 q = None"
  by (auto simp: starred_def dest: spec [of _ q])

lemma cstring_starred:
  assumes "cstring m0 p s" "starred m0 m"
  shows "\<exists>x. cstring m p x \<and> star_of s x"
  using assms(1)
proof (induction s arbitrary: p)
  case Nil
  then show ?case using starred_zero(1) [OF assms(2), of p] by (intro exI [of _ "[]"]) (simp add: cstring_Nil star_of_def)
next
  case (Cons b s)
  then obtain x where x: "cstring m (p + 1) x" "star_of s x" by (auto simp: cstring_Cons)
  have "m0 p = Some b" "b \<noteq> 0" "unat p + 1 < 2 ^ 64" using Cons.prems by (simp_all add: cstring_Cons)
  moreover obtain c where "m p = Some c" "c = b \<or> c = 0x2A" using assms(2) calculation(1) unfolding starred_def by metis
  ultimately show ?case using x by (intro exI [of _ "c # x"]) (auto simp: cstring_Cons star_of_def)
qed

lemma star_of_redact: "star_of s (redact s)"
proof (induction s)
  case (Cons c cs)
  have id: "star_of cs cs" for cs by (simp add: star_of_def list_all2_refl)
  have "star_of u (map star_char u)" for u by (induction u) (auto simp: star_of_def star_char_def)
  then have "star_of (take 36 cs @ drop 36 cs) (map star_char (take 36 cs) @ drop 36 cs)"
    using id unfolding star_of_def by (intro list_all2_appendI)
  then show ?case using Cons id by (auto simp: star_of_def)
qed (simp add: star_of_def)

lemma cstring_nth: "cstring m p s \<Longrightarrow> i < length s \<Longrightarrow> m (p + word_of_nat i) = Some (s ! i) \<and> s ! i \<noteq> 0"
proof (induction s arbitrary: p i)
  case (Cons b s)
  then show ?case using Cons.IH [of "p + 1" "i - 1"] by (cases i) (auto simp: cstring_Cons add_ac)
qed simp

lemma redacted:
  assumes "cstring m p s" "p \<noteq> 0" "\<And>i. i < length s \<Longrightarrow> rw (p + word_of_nat i)"
  obtains m' where "FIRCLSRedactUUID rw p m = Some m'" "cstring m' p (redact s)" "starred m m'"
    "\<And>q. (\<And>i. i < length s \<Longrightarrow> q \<noteq> p + word_of_nat i) \<Longrightarrow> m' q = m q"
proof -
  obtain m' where m': "redact_loop rw p m = Some m'" "cstring m' p (redact s)"
    "\<forall>q. (\<forall>i < length s. q \<noteq> p + word_of_nat i) \<longrightarrow> m' q = m q"
    using redact_loop_cstring [of m p s rw] assms by blast
  have "starred m m'"
    unfolding starred_def
  proof
    fix q
    show "m' q = m q \<or> m' q = Some 0x2A \<and> m q \<noteq> None \<and> m q \<noteq> Some 0"
    proof (cases "\<exists>i < length s. q = p + word_of_nat i")
      case True
      then obtain i where i: "i < length s" "q = p + word_of_nat i" by blast
      have "redact s ! i = s ! i \<or> redact s ! i = 0x2A"
        using star_of_redact [of s] i(1) by (auto simp: star_of_def list_all2_conv_all_nth)
      then show ?thesis using cstring_nth [OF assms(1) i(1)] cstring_nth [OF m'(2), of i] i by auto
    qed (use m'(3) in auto)
  qed
  then show ?thesis using that m' assms(2) by (simp add: FIRCLSRedactUUID_def)
qed

section \<open>The messages\<close>

lemma read_string_starred:
  "starred m0 m \<Longrightarrow> read_string_loop (flat_task m) e a n = read_string_loop (flat_task m0) e a n"
proof (induction n arbitrary: a)
  case (Suc n)
  have "(case FIRCLSReadMemory (flat_task m) a 1 of None \<Rightarrow> False | Some bs \<Rightarrow> bs = [0] \<or> Q) \<longleftrightarrow>
      (case FIRCLSReadMemory (flat_task m0) a 1 of None \<Rightarrow> False | Some bs \<Rightarrow> bs = [0] \<or> Q)" for Q
    using starred_zero [OF Suc.prems, of a]
    by (cases "m a"; cases "m0 a") (auto simp: FIRCLSReadMemory_def flat_task_def)
  then show ?case using Suc.IH [OF Suc.prems] by (simp split: option.splits) (smt (verit) option.case)
qed simp

lemma read_map_cong: "(\<And>i. i < n \<Longrightarrow> m' (p + word_of_nat i) = m (p + word_of_nat i)) \<Longrightarrow> read_map m' p n = read_map m p n"
proof (induction n arbitrary: p)
  case (Suc n)
  have "m' (p + 1 + word_of_nat i) = m (p + 1 + word_of_nat i)" if "i < n" for i
    using Suc.prems [of "Suc i"] that by (simp add: add_ac)
  then show ?case using Suc.IH [of "p + 1"] Suc.prems [of 0] by simp
qed simp

lemma crash_message_starred:
  assumes "starred m0 m" "\<And>j. j < 56 \<Longrightarrow> m (image_crashInfo node + word_of_nat j) = m0 (image_crashInfo node + word_of_nat j)"
  shows "crash_message m node = crash_message m0 node"
proof -
  have "FIRCLSReadMemory (flat_task m) (image_crashInfo node) 56 = FIRCLSReadMemory (flat_task m0) (image_crashInfo node) 56"
    using read_map_cong [where n = 56 and p = "image_crashInfo node" and m' = m and m = m0, OF assms(2)]
    by (simp add: FIRCLSReadMemory_def flat_task_def)
  moreover have "FIRCLSReadString (flat_task m) a n = FIRCLSReadString (flat_task m0) a n" for a n
    by (simp add: FIRCLSReadString_def read_string_starred [OF assms(1)])
  ultimately show ?thesis by (simp only: crash_message_def)
qed

definition messages_ok :: "(u64 \<Rightarrow> bool) \<Rightarrow> image_node list \<Rightarrow> address_space \<Rightarrow> bool" where
  "messages_ok rw ns m \<longleftrightarrow> (\<forall>node \<in> set ns. \<forall>a. crash_message m node = Some a \<longrightarrow>
     (\<exists>s. cstring m a s \<and> (\<forall>i < length s. rw (a + word_of_nat i) \<and>
       (\<forall>n \<in> set ns. \<forall>j < 56. a + word_of_nat i \<noteq> image_crashInfo n + word_of_nat j))))"

definition message_entry :: "byte list \<Rightarrow> json" where
  "message_entry s = JHex (Some (map (\<lambda>b. char_of (unat b)) s))"

lemma load_cstring: "cstring m a s \<Longrightarrow> load_string (flat_task m) (CAt a) = Some (Some (map (\<lambda>b. char_of (unat b)) s))"
  using strlen_holds [of "flat_task m" a s] holds_load [of "flat_task m" a s] at_cursor_append(2) [of "flat_task m" a s "[0]"]
  by (simp add: load_string_def cstring_def at_cursor_def)

lemma crash_info_loop_entries:
  assumes "messages_ok rw ns m0" "set ns' \<subseteq> set ns" "starred m0 m"
    and "\<And>n j. n \<in> set ns \<Longrightarrow> j < 56 \<Longrightarrow> m (image_crashInfo n + word_of_nat j) = m0 (image_crashInfo n + word_of_nat j)"
  shows "\<exists>m' xs. crash_info_loop rw ns' m f = Some (m', fold write_element (map (message_entry \<circ> redact) xs) f) \<and>
    list_all2 (\<lambda>a x. \<exists>s. cstring m0 a s \<and> star_of s x) (List.map_filter (crash_message m0) ns') xs"
  using assms(2-)
proof (induction ns' arbitrary: m f)
  case Nil
  then show ?case by (intro exI [of _ m] exI [of _ "[]"]) simp
next
  case (Cons node ns')
  have node: "node \<in> set ns" "set ns' \<subseteq> set ns" using Cons.prems(1) by auto
  have cm: "crash_message m node = crash_message m0 node"
    by (rule crash_message_starred [OF Cons.prems(2) Cons.prems(3) [OF node(1)]])
  show ?case
  proof (cases "crash_message m0 node")
    case None
    then show ?thesis using Cons.IH [OF node(2) Cons.prems(2,3)] cm by (simp add: List.map_filter_simps)
  next
    case (Some a)
    obtain s where s: "cstring m0 a s" "\<And>i. i < length s \<Longrightarrow> rw (a + word_of_nat i)"
      "\<And>i n j. i < length s \<Longrightarrow> n \<in> set ns \<Longrightarrow> j < 56 \<Longrightarrow> a + word_of_nat i \<noteq> image_crashInfo n + word_of_nat j"
      using assms(1) node(1) Some unfolding messages_ok_def by blast
    obtain x where x: "cstring m a x" "star_of s x" using cstring_starred [OF s(1) Cons.prems(2)] by blast
    have len: "length x = length s" using x(2) by (simp add: star_of_def list_all2_lengthD)
    have a0: "a \<noteq> 0" using Some by (auto simp: crash_message_def Let_def split: option.splits if_splits)
    obtain m1 where m1: "FIRCLSRedactUUID rw a m = Some m1" "cstring m1 a (redact x)" "starred m m1"
      "\<And>q. (\<And>i. i < length x \<Longrightarrow> q \<noteq> a + word_of_nat i) \<Longrightarrow> m1 q = m q"
      using redacted [OF x(1) a0, of rw] s(2) len by metis
    have st: "starred m0 m1" by (rule starred_trans [OF Cons.prems(2) m1(3)])
    have same: "m1 (image_crashInfo n + word_of_nat j) = m0 (image_crashInfo n + word_of_nat j)" if "n \<in> set ns" "j < 56" for n j
    proof -
      have "m1 (image_crashInfo n + word_of_nat j) = m (image_crashInfo n + word_of_nat j)"
        by (rule m1(4), rule not_sym, rule s(3)) (use that len in simp_all)
      then show ?thesis using Cons.prems(3) [OF that] by simp
    qed
    obtain m' xs where r: "crash_info_loop rw ns' m1 (write_element (message_entry (redact x)) f) =
        Some (m', fold write_element (map (message_entry \<circ> redact) xs) (write_element (message_entry (redact x)) f))"
      "list_all2 (\<lambda>a x. \<exists>s. cstring m0 a s \<and> star_of s x) (List.map_filter (crash_message m0) ns') xs"
      using Cons.IH [OF node(2) st same, of "write_element (message_entry (redact x)) f"] by blast
    have "crash_info_loop rw (node # ns') m f = Some (m', fold write_element (map (message_entry \<circ> redact) (x # xs)) f)"
      using r(1) m1(1) load_cstring [OF m1(2)] cm Some by (simp add: message_entry_def)
    moreover have "list_all2 (\<lambda>a x. \<exists>s. cstring m0 a s \<and> star_of s x) (List.map_filter (crash_message m0) (node # ns')) (x # xs)"
      using r(2) s(1) x(2) Some by (auto simp: List.map_filter_simps)
    ultimately show ?thesis by blast
  qed
qed

text \<open>What the section says: the selector and the redacted messages.\<close>

definition runtime_json :: "string option \<Rightarrow> byte list list \<Rightarrow> json" where
  "runtime_json selector xs = JObject [(''objc_selector'', JString selector),
     (''crash_info_entries'', JArray (map (message_entry \<circ> redact) xs))]"

lemma writable_runtime: "writable (runtime_json selector xs)"
  by (simp add: runtime_json_def message_entry_def list_all_iff)

lemma runtime_json_written:
  assumes "FIRCLSProcessGetThreadState P k p (crashedThread p) = Some state"
    and "load_string (flat_task m) (FIRCLSProcessGetObjCSelectorName P k (flat_task m)
      (case state of None \<Rightarrow> garbage | Some c \<Rightarrow> c)) = Some selector"
    and "nodes env = Some ns" "messages_ok rw ns m"
  shows "\<exists>m' xs. FIRCLSProcessRecordRuntimeInfo P k garbage rw env p m f = Some (m', FIRCLSFileWriteSectionEnd
      (write_collection (runtime_json selector xs) (FIRCLSFileWriteSectionStart ''runtime'' f))) \<and>
    list_all2 (\<lambda>a x. \<exists>s. cstring m a s \<and> star_of s x) (List.map_filter (crash_message m) ns) xs"
proof -
  define g where "g = FIRCLSFileWriteArrayStart (FIRCLSFileWriteHashKey ''crash_info_entries''
    (FIRCLSFileWriteHashEntryString ''objc_selector'' selector
      (FIRCLSFileWriteHashStart (FIRCLSFileWriteSectionStart ''runtime'' f))))"
  obtain m' xs where r: "crash_info_loop rw ns m g = Some (m', fold write_element (map (message_entry \<circ> redact) xs) g)"
    "list_all2 (\<lambda>a x. \<exists>s. cstring m a s \<and> star_of s x) (List.map_filter (crash_message m) ns) xs"
    using crash_info_loop_entries [OF assms(4) order_refl starred_refl, of g] by blast
  have "FIRCLSProcessRecordRuntimeInfo P k garbage rw env p m f = Some (m', FIRCLSFileWriteSectionEnd
      (write_collection (runtime_json selector xs) (FIRCLSFileWriteSectionStart ''runtime'' f)))"
    using r(1) assms(1-3)
    by (simp add: FIRCLSProcessRecordRuntimeInfo_def FIRCLSProcessRecordCrashInfo_def runtime_json_def g_def [symmetric] Let_def)
  then show ?thesis using r(2) by blast
qed

section \<open>Properties\<close>

lemma redact_uuid:
  assumes "length u = 36" "0x28 \<notin> set pre" "0x29 \<notin> set u"
  shows "redact (pre @ 0x28 # u @ 0x29 # post) = pre @ 0x28 # map star_char u @ 0x29 # post"
proof -
  have "takeWhile (\<lambda>x. x \<noteq> 0x29) (u @ 0x29 # post) = u" using assms(3) by (induction u) auto
  then show ?thesis using assms(1,2) redact_append [of pre "0x28 # u @ 0x29 # post"] by simp
qed

text \<open>C27. Redacting a string in memory returns, and leaves exactly the string \<open>redact\<close> describes: the first
  parentheses around 36 characters have every character but \<open>-\<close> replaced by \<open>*\<close>; the string keeps its
  length and terminator, and no byte outside of it changes.\<close>

theorem uuid_redacted:
  assumes "cstring m p s" "p \<noteq> 0" "\<And>i. i < length s \<Longrightarrow> rw (p + word_of_nat i)"
  shows "\<exists>m'. FIRCLSRedactUUID rw p m = Some m' \<and> cstring m' p (redact s) \<and> length (redact s) = length s \<and>
    (\<forall>q. (\<forall>i < length s. q \<noteq> p + word_of_nat i) \<longrightarrow> m' q = m q)"
  using redact_loop_cstring [of m p s rw] assms by (simp add: FIRCLSRedactUUID_def)

text \<open>The section on the runtime is one line of JSON with the selector and, for every image that left a message
  for crash reporters, that message as it stands in memory, redacted.\<close>

theorem runtime_line:
  assumes "FIRCLSProcessGetThreadState P k p (crashedThread p) = Some state"
    and "load_string (flat_task m) (FIRCLSProcessGetObjCSelectorName P k (flat_task m)
      (case state of None \<Rightarrow> garbage | Some c \<Rightarrow> c)) = Some selector"
    and "nodes env = Some ns" "messages_ok rw ns m" "needComma f = False" "collectionDepth f = 0"
  shows "\<exists>m' xs. FIRCLSProcessRecordRuntimeInfo P k garbage rw env p m f = Some (m', f\<lparr>written := written f @
      print_json (JObject [(''runtime'', runtime_json selector xs)]) @ [CHR 0x0A]\<rparr>) \<and>
    list_all2 (\<lambda>a x. \<exists>s. cstring m a s \<and> star_of s x) (List.map_filter (crash_message m) ns) xs"
proof -
  obtain m' xs where "FIRCLSProcessRecordRuntimeInfo P k garbage rw env p m f = Some (m', FIRCLSFileWriteSectionEnd
      (write_collection (runtime_json selector xs) (FIRCLSFileWriteSectionStart ''runtime'' f)))"
    "list_all2 (\<lambda>a x. \<exists>s. cstring m a s \<and> star_of s x) (List.map_filter (crash_message m) ns) xs"
    using runtime_json_written [OF assms(1-4), of f] by blast
  then show ?thesis using section_json [OF writable_runtime assms(5,6)] by auto
qed

section \<open>Witnesses\<close>

text \<open>The example of the comment in the code.\<close>

definition uuid_text :: "byte list" where
  "uuid_text =
    [0x66, 0x6F, 0x6F, 0x20, 0x28, 0x62, 0x61, 0x72, 0x29, 0x20, 0x28, 0x34, 0x35, 0x44, 0x36, 0x32, 0x43,
     0x43, 0x32, 0x2D, 0x43, 0x46, 0x42, 0x35, 0x2D, 0x34, 0x45, 0x33, 0x33, 0x2D, 0x41, 0x42, 0x36, 0x31,
     0x2D, 0x42, 0x30, 0x36, 0x38, 0x34, 0x36, 0x32, 0x37, 0x46, 0x31, 0x42, 0x36, 0x29, 0x20, 0x62, 0x61,
     0x7A]"

definition redacted_text :: "byte list" where
  "redacted_text =
    [0x66, 0x6F, 0x6F, 0x20, 0x28, 0x62, 0x61, 0x72, 0x29, 0x20, 0x28, 0x2A, 0x2A, 0x2A, 0x2A, 0x2A, 0x2A,
     0x2A, 0x2A, 0x2D, 0x2A, 0x2A, 0x2A, 0x2A, 0x2D, 0x2A, 0x2A, 0x2A, 0x2A, 0x2D, 0x2A, 0x2A, 0x2A, 0x2A,
     0x2D, 0x2A, 0x2A, 0x2A, 0x2A, 0x2A, 0x2A, 0x2A, 0x2A, 0x2A, 0x2A, 0x2A, 0x2A, 0x29, 0x20, 0x62, 0x61,
     0x7A]"

lemma uuid_text_redacted: "redact uuid_text = redacted_text"
  unfolding uuid_text_def redacted_text_def by code_simp

lemma uuid_redacted_witness:
  "\<exists>m'. FIRCLSRedactUUID (\<lambda>q. True) 0x2000 (block 0x2000 (uuid_text @ [0])) = Some m' \<and> cstring m' 0x2000 redacted_text"
proof -
  have "length (uuid_text @ [0]) = 53" "0 \<notin> set uuid_text" by (simp_all add: uuid_text_def)
  then have "cstring (block 0x2000 (uuid_text @ [0])) 0x2000 uuid_text"
    using holds_block [of "uuid_text @ [0]" "0x2000"] by (simp add: cstring_def at_cursor_def)
  from uuid_redacted [OF this, of "\<lambda>q. True"] show ?thesis by (auto simp: uuid_text_redacted)
qed

end
