(* ===== verification/Crash_Handler.thy ===== *)
theory Crash_Handler
  imports Crash_Info
begin

text \<open>What all handlers of crashes do (\<open>FIRCLSHandler.m\<close>): stop the other threads, write the sections of the
  report, leave the marker file and let the threads go on.  The state has the memory, the files, the mark that the
  process has crashed and how often each thread is suspended; what comes from the system is the record
  \<open>crash_env\<close>.  \<open>handler_lines\<close> says which lines the handler adds to a report; the locale
  \<open>once_only\<close> is what the handlers promise one another.\<close>

section \<open>The common handler\<close>

text \<open>What the handlers use of the system: the results of the calls that are not part of the repository, the
  paths of the context, and the state they change.  \<open>disk\<close> is the result of \<open>statfs\<close>: available and all
  blocks, and their size.\<close>

record 'r crash_env =
  platform_of :: "'r platform"
  kernel_of :: "'r kernel"
  loaded_images :: images
  garbage_context :: 'r
  can_write :: "u64 \<Rightarrow> bool"
  thread_suspend :: "u32 \<Rightarrow> bool"
  thread_resume :: "u32 \<Rightarrow> bool"
  disk :: "(u64 \<times> u64 \<times> u32) option"
  cannot_open :: "string \<Rightarrow> bool"
  marker_path :: string
  mach_thread_self :: u32
  time_now :: u64
  log_level :: nat

record crash_state =
  space :: address_space
  files :: "string \<Rightarrow> string option"
  crashOccurred :: bool
  suspend_count :: "u32 \<Rightarrow> nat"

text \<open>Opening a file in append mode and closing it, without a buffer: what is written follows what is there.\<close>

definition FIRCLSFileInitWithPath :: "'r crash_env \<Rightarrow> string \<Rightarrow> crash_state \<Rightarrow> (report_file \<times> crash_state) option" where
  "FIRCLSFileInitWithPath E path s =
     (if cannot_open E path then None
      else let old = (case files s path of None \<Rightarrow> [] | Some c \<Rightarrow> c) in
        Some (\<lparr>needComma = False, collectionDepth = 0, written = old\<rparr>, s\<lparr>files := (files s)(path \<mapsto> old)\<rparr>))"

definition FIRCLSFileClose :: "string \<Rightarrow> report_file \<Rightarrow> crash_state \<Rightarrow> crash_state" where
  "FIRCLSFileClose path f s = s\<lparr>files := (files s)(path \<mapsto> written f)\<rparr>"

definition FIRCLSContextMarkAndCheckIfCrashed :: "'r crash_env \<Rightarrow> crash_state \<Rightarrow> bool \<times> crash_state" where
  "FIRCLSContextMarkAndCheckIfCrashed E s =
     (if \<not> context_initialized (loaded_images E) then (False, s)
      else if crashOccurred s then (True, s)
      else (False, s\<lparr>crashOccurred := True\<rparr>))"

definition FIRCLSCreateCrashedMarkerFile :: "'r crash_env \<Rightarrow> crash_state \<Rightarrow> crash_state" where
  "FIRCLSCreateCrashedMarkerFile E s =
     (case FIRCLSFileInitWithPath E (marker_path E) s of
        None \<Rightarrow> s
      | Some (f, s) \<Rightarrow> FIRCLSFileClose (marker_path E) f s)"

definition FIRCLSHostWriteDiskUsage :: "'r crash_env \<Rightarrow> report_file \<Rightarrow> report_file" where
  "FIRCLSHostWriteDiskUsage E f =
     (let f = FIRCLSFileWriteHashStart (FIRCLSFileWriteSectionStart ''storage'' f);
          f = (case disk E of
                 None \<Rightarrow> f
               | Some (bavail, blocks, bsize) \<Rightarrow>
                   FIRCLSFileWriteHashEntryUint64 ''total'' (blocks * ucast bsize)
                     (FIRCLSFileWriteHashEntryUint64 ''free'' (bavail * ucast bsize) f))
      in FIRCLSFileWriteSectionEnd (FIRCLSFileWriteHashEnd f))"

text \<open>The effect of the calls on the threads: a suspended thread has a positive count, and resuming one whose
  count is 0 fails.\<close>

definition suspend_all :: "'r crash_env \<Rightarrow> process \<Rightarrow> crash_state \<Rightarrow> crash_state" where
  "suspend_all E p s =
     (let (ok, calls) = FIRCLSProcessSuspendAllOtherThreads (kernel_of E) (thread_suspend E) p in
      s\<lparr>suspend_count := \<lambda>t. suspend_count s t + count_list (filter (thread_suspend E) calls) t\<rparr>)"

definition resume_all :: "'r crash_env \<Rightarrow> process \<Rightarrow> crash_state \<Rightarrow> crash_state" where
  "resume_all E p s =
     (let call = (\<lambda>t. thread_resume E t \<and> suspend_count s t > 0);
          (ok, calls) = FIRCLSProcessResumeAllOtherThreads (kernel_of E) call p in
      s\<lparr>suspend_count := \<lambda>t. suspend_count s t - count_list (filter call calls) t\<rparr>)"

definition FIRCLSHandler :: "'r crash_env \<Rightarrow> u32 \<Rightarrow> u64 \<Rightarrow> report_file \<Rightarrow> crash_state \<Rightarrow> (report_file \<times> crash_state) option" where
  "FIRCLSHandler E crashed uap f s = do {
     let P = platform_of E;
     let k = kernel_of E;
     let env = loaded_images E;
     let process = snd (FIRCLSProcessInit k (mach_thread_self E) crashed uap);
     let s = suspend_all E process s;
     (ok, level, f) \<leftarrow> FIRCLSProcessRecordAllThreads P k (flat_task (space s)) env process (log_level E) f;
     (m, f) \<leftarrow> FIRCLSProcessRecordRuntimeInfo P k (garbage_context E) (can_write E) env process (space s) f;
     let s = s\<lparr>space := m\<rparr>;
     f \<leftarrow> FIRCLSProcessRecordDispatchQueueNames k (flat_task (space s)) process f;
     let f = FIRCLSProcessRecordThreadNames k process f;
     let f = FIRCLSProcessRecordStats k f;
     let f = FIRCLSHostWriteDiskUsage E f;
     let s = FIRCLSCreateCrashedMarkerFile E s;
     Some (f, resume_all E process s) }"

section \<open>The lines of a report\<close>

definition section_line :: "string \<times> json \<Rightarrow> string" where
  "section_line nv = print_json (JObject [nv]) @ [CHR 0x0A]"

definition add_lines :: "(string \<times> json) list \<Rightarrow> report_file \<Rightarrow> report_file" where
  "add_lines nvs f = f\<lparr>written := written f @ concat (map section_line nvs)\<rparr>"

definition between_sections :: "report_file \<Rightarrow> bool" where
  "between_sections f \<longleftrightarrow> needComma f = False \<and> collectionDepth f = 0"

lemma add_lines_add_lines: "add_lines ys (add_lines xs f) = add_lines (xs @ ys) f"
  by (simp add: add_lines_def)

lemma between_add_lines [simp]: "between_sections (add_lines xs f) = between_sections f"
  by (simp add: add_lines_def between_sections_def)

lemma section_added:
  "writable v \<Longrightarrow> between_sections f \<Longrightarrow>
    FIRCLSFileWriteSectionEnd (write_collection v (FIRCLSFileWriteSectionStart name f)) = add_lines [(name, v)] f"
  using section_json [of v f name] by (simp add: between_sections_def add_lines_def section_line_def)

definition stats_sections :: "'r kernel \<Rightarrow> (string \<times> json) list" where
  "stats_sections k = (case (host_vm_counts k, task_basic_info k) of
     (Some (a, i, w, fr), Some (vs, rs, ut, st)) \<Rightarrow>
       [(''process_stats'', JObject
         [(''active'', JUint (ucast a * host_page_size k)), (''inactive'', JUint (ucast i * host_page_size k)),
          (''wired'', JUint (ucast w * host_page_size k)), (''freeMem'', JUint (ucast fr * host_page_size k)),
          (''free_mem'', JUint (ucast fr * host_page_size k)), (''virtual'', JUint vs),
          (''resident'', JUint (ucast a * host_page_size k)), (''user_time'', JUint (time_entry ut)),
          (''sys_time'', JUint (time_entry st))])]
   | _ \<Rightarrow> [])"

definition storage_json :: "'r crash_env \<Rightarrow> json" where
  "storage_json E = JObject (case disk E of None \<Rightarrow> []
     | Some (bavail, blocks, bsize) \<Rightarrow> [(''free'', JUint (bavail * ucast bsize)), (''total'', JUint (blocks * ucast bsize))])"

definition thread_names_value :: "'r kernel \<Rightarrow> process \<Rightarrow> json" where
  "thread_names_value k p = JArray (map (\<lambda>thread. JString (Some (snd (FIRCLSProcessGetThreadName k thread)))) (threads p))"

lemma stats_added: "between_sections f \<Longrightarrow> FIRCLSProcessRecordStats k f = add_lines (stats_sections k) f"
proof -
  assume f: "between_sections f"
  consider a i w fr vs rs ut st where "host_vm_counts k = Some (a, i, w, fr)" "task_basic_info k = Some (vs, rs, ut, st)"
    | "host_vm_counts k = None \<or> task_basic_info k = None" by (cases "host_vm_counts k"; cases "task_basic_info k") auto
  then show ?thesis
  proof cases
    case 1
    show ?thesis unfolding stats_json [OF 1] using f 1 by (subst section_added) (simp_all add: stats_sections_def)
  next
    case 2
    then show ?thesis
      by (auto simp: FIRCLSProcessRecordStats_def FIRCLSProcessGetMemoryUsage_def FIRCLSProcessGetInfo_def stats_sections_def
          add_lines_def split: option.splits)
  qed
qed

lemma storage_added: "between_sections f \<Longrightarrow> FIRCLSHostWriteDiskUsage E f = add_lines [(''storage'', storage_json E)] f"
  using section_added [of "storage_json E" f "''storage''"]
  by (auto simp: FIRCLSHostWriteDiskUsage_def storage_json_def Let_def split: option.splits)

lemma names_added:
  "between_sections f \<Longrightarrow> FIRCLSProcessRecordThreadNames k p f = add_lines [(''thread_names'', thread_names_value k p)] f"
  unfolding thread_names_json thread_names_value_def by (rule section_added) (simp_all add: list_all_iff)

lemma queues_added:
  assumes "between_sections f"
    and "list_all2 (\<lambda>thread name. load_string t (FIRCLSProcessGetThreadDispatchQueueName k t thread) = Some name) (threads p) names"
  shows "FIRCLSProcessRecordDispatchQueueNames k t p f = Some (add_lines [(''dispatch_queue_names'', JArray (map JString names))] f)"
proof -
  have "FIRCLSProcessRecordDispatchQueueNames k t p f = Some (FIRCLSFileWriteSectionEnd
      (write_collection (JArray (map JString names)) (FIRCLSFileWriteSectionStart ''dispatch_queue_names'' f)))"
    using queue_names [of t k p "[0..<length (threads p)]" names] assms(2)
    by (simp add: FIRCLSProcessRecordDispatchQueueNames_def FIRCLSProcessGetThreadCount_def threads_list)
  then show ?thesis by (subst (asm) section_added) (simp_all add: assms(1) list_all_iff)
qed

lemma threads_added:
  assumes "between_sections f" "list_all2 (thread_recorded P k t env p) (take n (threads p)) vs" "n \<le> length (threads p)"
    and "n < length (threads p) \<Longrightarrow> FIRCLSProcessGetThreadState P k p (threads p ! n) = Some None"
  shows "FIRCLSProcessRecordAllThreads P k t env p level f =
    Some (n = length (threads p), level, add_lines [(''threads'', JArray vs)] f)"
  using all_threads_json(1) [OF assms(2-4)] section_added [OF all_threads_json(2) [OF assms(2-4)] assms(1)] by simp

text \<open>A crash that can be recorded: the walks of the threads end, and the strings the report quotes are strings.\<close>

definition recordable ::
    "'r crash_env \<Rightarrow> process \<Rightarrow> address_space \<Rightarrow> json list \<Rightarrow> string option \<Rightarrow> bool" where
  "recordable E p m vs selector \<longleftrightarrow>
     (let P = platform_of E; k = kernel_of E; env = loaded_images E; n = length vs in
      list_all2 (thread_recorded P k (flat_task m) env p) (take n (threads p)) vs \<and> n \<le> length (threads p) \<and>
      (n < length (threads p) \<longrightarrow> FIRCLSProcessGetThreadState P k p (threads p ! n) = Some None) \<and>
      (\<exists>state. FIRCLSProcessGetThreadState P k p (crashedThread p) = Some state \<and>
        load_string (flat_task m) (FIRCLSProcessGetObjCSelectorName P k (flat_task m)
          (case state of None \<Rightarrow> garbage_context E | Some c \<Rightarrow> c)) = Some selector) \<and>
      (\<exists>ns. nodes env = Some ns \<and> messages_ok (can_write E) ns m) \<and>
      (\<forall>m' f f'. FIRCLSProcessRecordRuntimeInfo P k (garbage_context E) (can_write E) env p m f = Some (m', f') \<longrightarrow>
        (\<exists>names. list_all2 (\<lambda>thread name. load_string (flat_task m')
           (FIRCLSProcessGetThreadDispatchQueueName k (flat_task m') thread) = Some name) (threads p) names)))"

definition report_sections ::
    "'r crash_env \<Rightarrow> process \<Rightarrow> json list \<Rightarrow> string option \<Rightarrow> byte list list \<Rightarrow> string option list \<Rightarrow> (string \<times> json) list" where
  "report_sections E p vs selector xs names =
     [(''threads'', JArray vs), (''runtime'', runtime_json selector xs),
      (''dispatch_queue_names'', JArray (map JString names)), (''thread_names'', thread_names_value (kernel_of E) p)] @
     stats_sections (kernel_of E) @ [(''storage'', storage_json E)]"

text \<open>What the report quotes from memory: the messages of the system libraries, some of whose characters an
  earlier redaction of overlapping strings may have replaced, and the labels of the queues.\<close>

definition quotes_messages :: "'r crash_env \<Rightarrow> address_space \<Rightarrow> byte list list \<Rightarrow> bool" where
  "quotes_messages E m xs \<longleftrightarrow> (\<forall>ns. nodes (loaded_images E) = Some ns \<longrightarrow>
     list_all2 (\<lambda>a x. \<exists>s. cstring m a s \<and> star_of s x) (List.map_filter (crash_message m) ns) xs)"

definition quotes_labels :: "'r crash_env \<Rightarrow> process \<Rightarrow> address_space \<Rightarrow> string option list \<Rightarrow> bool" where
  "quotes_labels E p m names \<longleftrightarrow> list_all2 (\<lambda>thread name. load_string (flat_task m)
     (FIRCLSProcessGetThreadDispatchQueueName (kernel_of E) (flat_task m) thread) = Some name) (threads p) names"

lemma space_suspend [simp]: "space (suspend_all E p s) = space s" "files (suspend_all E p s) = files s"
  "crashOccurred (suspend_all E p s) = crashOccurred s"
  by (simp_all add: suspend_all_def split: prod.split)

lemma handler_lines:
  assumes "recordable E p (space s) vs selector" "p = snd (FIRCLSProcessInit (kernel_of E) (mach_thread_self E) crashed uap)"
    and "between_sections f"
  shows "\<exists>m xs names. FIRCLSHandler E crashed uap f s = Some (add_lines (report_sections E p vs selector xs names) f,
    resume_all E p (FIRCLSCreateCrashedMarkerFile E ((suspend_all E p s)\<lparr>space := m\<rparr>))) \<and>
    quotes_messages E (space s) xs \<and> quotes_labels E p m names"
proof -
  let ?P = "platform_of E" let ?k = "kernel_of E" let ?env = "loaded_images E" let ?m = "space s"
  note r = assms(1) [unfolded recordable_def Let_def]
  have th: "FIRCLSProcessRecordAllThreads ?P ?k (flat_task ?m) ?env p (log_level E) f =
      Some (length vs = length (threads p), log_level E, add_lines [(''threads'', JArray vs)] f)"
    using r by (intro threads_added [OF assms(3)]) auto
  let ?f = "add_lines [(''threads'', JArray vs)] f"
  obtain state where state: "FIRCLSProcessGetThreadState ?P ?k p (crashedThread p) = Some state"
    "load_string (flat_task ?m) (FIRCLSProcessGetObjCSelectorName ?P ?k (flat_task ?m)
      (case state of None \<Rightarrow> garbage_context E | Some c \<Rightarrow> c)) = Some selector" using r by blast
  obtain ns where ns: "nodes ?env = Some ns" "messages_ok (can_write E) ns ?m" using r by blast
  obtain m xs where m: "FIRCLSProcessRecordRuntimeInfo ?P ?k (garbage_context E) (can_write E) ?env p ?m ?f =
      Some (m, add_lines [(''runtime'', runtime_json selector xs)] ?f)"
    "list_all2 (\<lambda>a x. \<exists>s. cstring ?m a s \<and> star_of s x) (List.map_filter (crash_message ?m) ns) xs"
    using runtime_json_written [OF state ns, of ?f] section_added [OF writable_runtime, of ?f] assms(3) by auto
  obtain names where names: "list_all2 (\<lambda>thread name. load_string (flat_task m)
      (FIRCLSProcessGetThreadDispatchQueueName ?k (flat_task m) thread) = Some name) (threads p) names" using r m(1) by blast
  have "FIRCLSHandler E crashed uap f s = Some (add_lines (report_sections E p vs selector xs names) f,
      resume_all E p (FIRCLSCreateCrashedMarkerFile E ((suspend_all E p s)\<lparr>space := m\<rparr>)))"
    unfolding FIRCLSHandler_def Let_def assms(2) [symmetric]
    using th m(1) queues_added [OF _ names] assms(3)
    by (simp add: names_added stats_added storage_added add_lines_add_lines report_sections_def)
  then show ?thesis using m(2) names ns(1) by (auto simp: quotes_messages_def quotes_labels_def)
qed

section \<open>One report per process\<close>

text \<open>What the handlers promise one another: once a crash is marked, no event changes what was recorded.\<close>

locale once_only =
  fixes event :: "'s \<Rightarrow> 's \<Rightarrow> bool" and crashed :: "'s \<Rightarrow> bool" and recorded :: "'s \<Rightarrow> 'r"
  assumes kept: "event y y' \<Longrightarrow> crashed y \<Longrightarrow> recorded y' = recorded y"
    and marked: "event y y' \<Longrightarrow> crashed y \<Longrightarrow> crashed y'"
begin

lemma events_kept:
  assumes "event\<^sup>*\<^sup>* y y'" "crashed y"
  shows "recorded y' = recorded y \<and> crashed y'"
  using assms(1)
proof (induction rule: rtranclp_induct)
  case (step y1 y2)
  then show ?case using kept [OF step(2)] marked [OF step(2)] by simp
qed (simp add: assms(2))

end

lemma filter_takeWhile: "filter P (takeWhile P xs @ take (Suc 0) (dropWhile P xs)) = takeWhile P xs"
  by (induction xs) auto

lemma takeWhile_self: "distinct xs \<Longrightarrow> takeWhile (\<lambda>t. t \<in> set (takeWhile P xs)) xs = takeWhile P xs"
proof (induction xs)
  case (Cons x xs)
  have "takeWhile (\<lambda>t. t = x \<or> t \<in> set (takeWhile P xs)) xs = takeWhile (\<lambda>t. t \<in> set (takeWhile P xs)) xs"
    using Cons.prems by (intro takeWhile_cong) auto
  then show ?case using Cons by simp
qed simp

lemma suspend_resume:
  assumes "distinct (threads p)" "\<And>t. thread_resume E t" "\<And>t. t \<in> set (threads p) \<Longrightarrow> suspend_count s t = 0"
    and "suspend_count s' = suspend_count (suspend_all E p s)"
  shows "suspend_count (resume_all E p s') = suspend_count s"
proof -
  define others where "others = filter (\<lambda>t. \<not> FIRCLSProcessIsCurrentThread (kernel_of E) p t) (threads p)"
  have d: "distinct others" "set others \<subseteq> set (threads p)" using assms(1) by (auto simp: others_def)
  let ?A = "takeWhile (thread_suspend E) others"
  have calls: "snd (FIRCLSProcessSuspendAllOtherThreads (kernel_of E) call p) = takeWhile call others @ take (Suc 0) (dropWhile call others)"
    "snd (FIRCLSProcessResumeAllOtherThreads (kernel_of E) call p) = takeWhile call others @ take (Suc 0) (dropWhile call others)" for call
    by (simp_all add: FIRCLSProcessSuspendAllOtherThreads_def FIRCLSProcessResumeAllOtherThreads_def other_threads
        threads_list others_def Let_def)
  have s': "suspend_count s' t = suspend_count s t + count_list ?A t" for t
    using assms(4) calls(1) by (simp add: suspend_all_def split_def filter_takeWhile del: filter_append)
  define call where "call = (\<lambda>t. thread_resume E t \<and> suspend_count s' t > 0)"
  have "call t \<longleftrightarrow> t \<in> set ?A" if "t \<in> set others" for t
  proof -
    have "suspend_count s t = 0" using assms(3) d(2) that by blast
    then show ?thesis using assms(2) s' count_list_0_iff [of ?A t] by (auto simp: call_def)
  qed
  then have "takeWhile call others = takeWhile (\<lambda>t. t \<in> set ?A) others" by (intro takeWhile_cong) auto
  also have "\<dots> = ?A"
    by (rule takeWhile_self [OF d(1)])
  finally have "filter call (takeWhile call others @ take (Suc 0) (dropWhile call others)) = ?A"
    using filter_takeWhile [of call others] by simp
  then have "suspend_count (resume_all E p s') t = suspend_count s' t - count_list ?A t" for t
    using calls(2) [of call] by (simp add: resume_all_def split_def call_def [symmetric] Let_def)
  then show ?thesis using s' by auto
qed

lemma marker_kept:
  "space (FIRCLSCreateCrashedMarkerFile E s) = space s" "crashOccurred (FIRCLSCreateCrashedMarkerFile E s) = crashOccurred s"
  "suspend_count (FIRCLSCreateCrashedMarkerFile E s) = suspend_count s"
  by (auto simp: FIRCLSCreateCrashedMarkerFile_def FIRCLSFileInitWithPath_def FIRCLSFileClose_def Let_def)

lemma resume_kept [simp]: "files (resume_all E p s) = files s" "crashOccurred (resume_all E p s) = crashOccurred s"
  "space (resume_all E p s) = space s"
  by (simp_all add: resume_all_def Let_def split: prod.split)

definition file_contents :: "crash_state \<Rightarrow> string \<Rightarrow> string" where
  "file_contents s path = (case files s path of None \<Rightarrow> [] | Some c \<Rightarrow> c)"

lemma file_opened:
  "\<not> cannot_open E path \<Longrightarrow> FIRCLSFileInitWithPath E path s =
    Some (\<lparr>needComma = False, collectionDepth = 0, written = file_contents s path\<rparr>,
      s\<lparr>files := (files s)(path \<mapsto> file_contents s path)\<rparr>)"
  by (simp add: FIRCLSFileInitWithPath_def file_contents_def Let_def)

text \<open>The state after the common handler.\<close>

lemma handler_state:
  assumes "FIRCLSHandler E crashed uap f s = Some (f', s')" "p = snd (FIRCLSProcessInit (kernel_of E) (mach_thread_self E) crashed uap)"
  shows "crashOccurred s' = crashOccurred s"
    "distinct (threads p) \<Longrightarrow> (\<And>t. thread_resume E t) \<Longrightarrow> (\<And>t. t \<in> set (threads p) \<Longrightarrow> suspend_count s t = 0) \<Longrightarrow>
      suspend_count s' = suspend_count s"
proof -
  obtain m where s': "s' = resume_all E p (FIRCLSCreateCrashedMarkerFile E ((suspend_all E p s)\<lparr>space := m\<rparr>))"
    using assms by (auto simp: FIRCLSHandler_def Let_def bind_Some_iff split: prod.splits)
  show "crashOccurred s' = crashOccurred s" by (simp add: s' marker_kept)
  show "suspend_count s' = suspend_count s"
    if "distinct (threads p)" "\<And>t. thread_resume E t" "\<And>t. t \<in> set (threads p) \<Longrightarrow> suspend_count s t = 0"
    unfolding s' by (rule suspend_resume [OF that]) (simp_all add: marker_kept(3))
qed

section \<open>A crash for the witnesses\<close>

text \<open>The crashing thread and one other, whose stack has two frames; above the stack is the \<open>siginfo_t\<close> of a
  \<open>SIGSEGV\<close> with code 1 at address \<open>0xDEAD0\<close>.\<close>

definition crash_memory :: address_space where
  "crash_memory = block 0x2000 (words_mem [0x2010, 0x5100, 0, 0x5100, 11, 1, 0, 0xDEAD0])"

definition fault_env :: "arm_thread crash_env" where
  "fault_env = \<lparr>platform_of = arm_platform, kernel_of = demo_kernel\<lparr>task_threads := Some [0x203]\<rparr>,
     loaded_images = \<lparr>context_initialized = True, nodes = Some []\<rparr>, garbage_context = storm_arm, can_write = \<lambda>a. True,
     thread_suspend = \<lambda>t. True, thread_resume = \<lambda>t. True, disk = Some (3, 7, 4096), cannot_open = \<lambda>path. False,
     marker_path = ''crash_marker'', mach_thread_self = 0x103, time_now = 1700, log_level = 2\<rparr>"

definition fault_state :: crash_state where
  "fault_state = \<lparr>space = crash_memory, files = \<lambda>path. None, crashOccurred = False, suspend_count = \<lambda>t. 0\<rparr>"

definition fault_process :: "u32 \<Rightarrow> process" where
  "fault_process crashed = \<lparr>thisThread = 0x103, crashedThread = crashed, threads = [0x203], uapVoid = 0\<rparr>"

abbreviation fault_trace :: "u32 \<Rightarrow> json" where
  "fault_trace crashed \<equiv> thread_json arm_platform (crashed = 0x203) storm_arm [0x5000, 0x5100, 0x5100]"

lemma fault_processes:
  "snd (FIRCLSProcessInit (kernel_of fault_env) (mach_thread_self fault_env) crashed 0) = fault_process crashed"
  by (simp add: fault_env_def fault_process_def FIRCLSProcessInit_def)

lemma fault_words:
  "stack_word (flat_task crash_memory) 0x2000 = Some 0x2010" "stack_word (flat_task crash_memory) 0x2008 = Some 0x5100"
  "stack_word (flat_task crash_memory) 0x2010 = Some 0" "stack_word (flat_task crash_memory) 0x2018 = Some 0x5100"
  unfolding crash_memory_def
  using stack_word_block [of 0 "[0x2010, 0x5100, 0, 0x5100, 11, 1, 0, 0xDEAD0]" "0x2000"]
    stack_word_block [of 1 "[0x2010, 0x5100, 0, 0x5100, 11, 1, 0, 0xDEAD0]" "0x2000"]
    stack_word_block [of 2 "[0x2010, 0x5100, 0, 0x5100, 11, 1, 0, 0xDEAD0]" "0x2000"]
    stack_word_block [of 3 "[0x2010, 0x5100, 0, 0x5100, 11, 1, 0, 0xDEAD0]" "0x2000"]
  by simp_all

lemma fault_images: "no_unwind_info (loaded_images fault_env) a"
  by (simp add: fault_env_def no_unwind_info_def FIRCLSBinaryImageSafeFindImageForAddress_def)

lemma fault_walk:
  "\<exists>c c'. walks arm_unwinder (flat_task crash_memory) (loaded_images fault_env) (FIRCLSUnwindInit storm_arm)
      [0x5000, 0x5100, 0x5100] c \<and>
    FIRCLSUnwindNextFrame arm_unwinder (flat_task crash_memory) (loaded_images fault_env) c = Some (False, c')"
  using arm_chain_walk [of storm_arm crash_memory "[0x5100, 0x5100]" "loaded_images fault_env"] fault_images
  by (simp add: storm_arm_def CLS_PTRAUTH_STRIP_def FIRCLSIsValidPointer_def fault_words)

lemma fault_recordable:
  assumes "crashed \<in> {0x103, 0x203}"
  shows "recordable fault_env (fault_process crashed) crash_memory [fault_trace crashed] (Some [])"
proof -
  have crashed: "FIRCLSProcessIsCrashedThread (kernel_of fault_env) (fault_process crashed) 0x203 \<longleftrightarrow> crashed = 0x203"
    using assms by (auto simp: FIRCLSProcessIsCrashedThread_def fault_env_def fault_process_def demo_kernel_def)
  have state: "FIRCLSProcessGetThreadState (platform_of fault_env) (kernel_of fault_env) (fault_process crashed) 0x203 =
      Some (Some storm_arm)"
    by (simp add: FIRCLSProcessGetThreadState_def FIRCLSProcessIsCurrentThread_def fault_env_def fault_process_def
        demo_kernel_def FIRCLSIsValidPointer_def)
  have "\<exists>r. FIRCLSProcessGetThreadState (platform_of fault_env) (kernel_of fault_env) (fault_process crashed) crashed =
      Some (Some r) \<and> FIRCLSThreadContextGetPC arm64 r = 0x5000"
    using assms by (auto simp: FIRCLSProcessGetThreadState_def FIRCLSProcessIsCurrentThread_def fault_env_def
        fault_process_def demo_kernel_def FIRCLSIsValidPointer_def arm_platform_def arm_fake_context_def storm_arm_def
        thread_context_defs arm64_def CLS_PTRAUTH_STRIP_def Let_def)
  then have selector: "\<exists>state. FIRCLSProcessGetThreadState (platform_of fault_env) (kernel_of fault_env) (fault_process crashed)
        (crashedThread (fault_process crashed)) = Some state \<and>
      load_string (flat_task crash_memory) (FIRCLSProcessGetObjCSelectorName (platform_of fault_env) (kernel_of fault_env)
        (flat_task crash_memory) (case state of None \<Rightarrow> garbage_context fault_env | Some c \<Rightarrow> c)) = Some (Some [])"
    by (auto simp: fault_process_def fault_env_def FIRCLSProcessGetObjCSelectorName_def arm_platform_def arm_selector_address_def
        in_stub_def demo_kernel_def load_string_def)
  have queue: "load_string t (FIRCLSProcessGetThreadDispatchQueueName (kernel_of fault_env) t 0x203) = Some None" for t
    by (simp add: FIRCLSProcessGetThreadDispatchQueueName_def fault_env_def demo_kernel_def load_string_def)
  have trace: "thread_recorded (platform_of fault_env) (kernel_of fault_env) (flat_task crash_memory) (loaded_images fault_env)
      (fault_process crashed) 0x203 (fault_trace crashed)"
    using fault_walk state unfolding thread_recorded_def crashed by (fastforce simp: fault_env_def arm_platform_def)
  show ?thesis
    unfolding recordable_def Let_def
    using trace selector queue
    by (fastforce simp: fault_process_def messages_ok_def fault_env_def)
qed

definition siginfo_bytes :: "byte list" where
  "siginfo_bytes = [11, 0, 0, 0, 0, 0, 0, 0, 1, 0, 0, 0, 0, 0, 0, 0, 0, 0, 0, 0, 0, 0, 0, 0, 0xD0, 0xEA, 0x0D, 0, 0, 0, 0, 0]"

lemma le_bytes_numeral: "le_bytes (numeral k) x = word_of_nat (x mod 256) # le_bytes (pred_numeral k) (x div 256)"
  by (simp only: numeral_eq_Suc [of k] le_bytes.simps)

lemma fault_bytes: "words_mem [0x2010, 0x5100, 0, 0x5100, 11, 1, 0, 0xDEAD0] =
    words_mem [0x2010, 0x5100, 0, 0x5100] @ siginfo_bytes" "length (words_mem [0x2010, 0x5100, 0, 0x5100]) = 32"
  by (simp_all add: siginfo_bytes_def words_mem_def le_bytes_numeral)

lemma load_sample:
  assumes "i + n \<le> 32"
  shows "load_bytes (flat_task crash_memory) (0x2020 + word_of_nat i) n = Some (take n (drop i siginfo_bytes))"
  unfolding crash_memory_def fault_bytes(1)
  using load_block [of "words_mem [0x2010, 0x5100, 0, 0x5100] @ siginfo_bytes" "32 + i" n "0x2000"] assms
  by (simp add: fault_bytes(2)) (simp add: siginfo_bytes_def add_ac)

end
