(* ===== verification/Signal_Handler.thy ===== *)
theory Signal_Handler
  imports Crash_Handler
begin

text \<open>The handler of fatal signals (\<open>FIRCLSSignal.c\<close>).  The kernel is a state: the actions of the
  signals, the alternate stack, the blocked signals and \<open>errno\<close>, with the failures of the calls to come as a
  list.  Installation saves the actions of the application, the handler puts them back after the report.\<close>

section \<open>Signals of the system\<close>

text \<open>The part of the kernel the code talks to: the disposition of every signal, the alternate stack and whether
  the running code is on it, the mask of blocked signals and \<open>errno\<close>.  The results of the calls to come
  are a list of error numbers, 0 for success; past its end they succeed.  As documented, the alternate
  stack cannot be changed while it is in use (\<open>EPERM\<close>, 1).\<close>

record c_sigaction =
  sa_sigaction :: u64
  sa_flags :: u32
  sa_mask :: u32

record c_stack =
  stack_sp :: u64
  stack_size :: u64
  stack_flags :: u32

record signals =
  dispositions :: "nat \<Rightarrow> c_sigaction"
  sigstack :: c_stack
  on_sigstack :: bool
  blocked :: u32
  errno :: u32
  call_results :: "u32 list"

definition next_result :: "signals \<Rightarrow> bool \<times> signals" where
  "next_result g = (case call_results g of
       [] \<Rightarrow> (True, g)
     | e # es \<Rightarrow> if e = 0 then (True, g\<lparr>call_results := es\<rparr>) else (False, g\<lparr>call_results := es, errno := e\<rparr>))"

definition sigaction :: "nat \<Rightarrow> c_sigaction option \<Rightarrow> signals \<Rightarrow> c_sigaction option \<times> signals" where
  "sigaction signal act g =
     (let (ok, g) = next_result g in
      if \<not> ok then (None, g)
      else (Some (dispositions g signal), case act of
        None \<Rightarrow> g | Some a \<Rightarrow> g\<lparr>dispositions := (dispositions g)(signal := a)\<rparr>))"

definition sigaltstack :: "c_stack \<Rightarrow> signals \<Rightarrow> c_stack option \<times> signals" where
  "sigaltstack new g =
     (if on_sigstack g then (None, g\<lparr>errno := 1\<rparr>)
      else let (ok, g) = next_result g in
        if \<not> ok then (None, g) else (Some (sigstack g), g\<lparr>sigstack := new\<rparr>))"

definition sigunblock_all :: "signals \<Rightarrow> bool \<times> signals" where
  "sigunblock_all g = (let (ok, g) = next_result g in if ok then (True, g\<lparr>blocked := 0\<rparr>) else (False, g))"

definition SIG_DFL :: u64 where "SIG_DFL = 0"
definition SIGILL :: nat where "SIGILL = 4"
definition SIGTRAP :: nat where "SIGTRAP = 5"
definition SIGABRT :: nat where "SIGABRT = 6"
definition SIGFPE :: nat where "SIGFPE = 8"
definition SIGBUS :: nat where "SIGBUS = 10"
definition SIGSEGV :: nat where "SIGSEGV = 11"
definition SIGSYS :: nat where "SIGSYS = 12"

lemmas signal_numbers = SIGILL_def SIGTRAP_def SIGABRT_def SIGFPE_def SIGBUS_def SIGSEGV_def SIGSYS_def

section \<open>Installing and restoring handlers\<close>

definition FIRCLSFatalSignals :: "nat list" where
  "FIRCLSFatalSignals = [SIGABRT, SIGBUS, SIGFPE, SIGILL, SIGSEGV, SIGSYS, SIGTRAP]"

definition FIRCLSSignalCount :: nat where "FIRCLSSignalCount = 7"

definition CLS_SIGNAL_HANDLER_STACK_SIZE :: u64 where "CLS_SIGNAL_HANDLER_STACK_SIZE = 131072 * 2"

record signal_context =
  signal_path :: string
  originalActions :: "c_sigaction list"
  originalStack :: c_stack

text \<open>Addresses of the handler and of its stack, and the uninitialised \<open>sa_flags\<close> of
  \<open>FIRCLSSignalSafeRemoveHandlers\<close>; \<open>readonly_valid\<close> says whether the global context exists.\<close>

record 'r signal_env =
  crash_env_of :: "'r crash_env"
  signal_handler :: u64
  signalStack :: u64
  garbage_flags :: u32
  readonly_valid :: bool

definition FIRCLSUnlinkIfExists :: "string \<Rightarrow> bool \<Rightarrow> crash_state \<Rightarrow> bool \<times> crash_state" where
  "FIRCLSUnlinkIfExists path ok s = (if files s path = None then (True, s)
     else if ok then (True, s\<lparr>files := (files s)(path := None)\<rparr>) else (False, s))"

definition FIRCLSSignalInstallAltStack :: "'r signal_env \<Rightarrow> signal_context \<Rightarrow> signals \<Rightarrow> signal_context \<times> signals" where
  "FIRCLSSignalInstallAltStack X c g =
     (let (old, g) = sigaltstack \<lparr>stack_sp = signalStack X, stack_size = CLS_SIGNAL_HANDLER_STACK_SIZE, stack_flags = 0\<rparr> g in
      case old of None \<Rightarrow> (c, g) | Some old \<Rightarrow> (c\<lparr>originalStack := old\<rparr>, g))"

text \<open>The body of the block for the signal with index \<open>idx\<close>.\<close>

definition install_handler :: "'r signal_env \<Rightarrow> nat \<Rightarrow> signal_context \<times> signals \<Rightarrow> signal_context \<times> signals" where
  "install_handler X idx cg =
     (let (c, g) = cg;
          (old, g) = sigaction (FIRCLSFatalSignals ! idx)
            (Some \<lparr>sa_sigaction = signal_handler X, sa_flags = 0x40 OR 0x1, sa_mask = 0\<rparr>) g;
          actions = (originalActions c)[idx := (originalActions c ! idx)\<lparr>sa_sigaction := 0\<rparr>];
          actions = (case old of None \<Rightarrow> actions
            | Some old \<Rightarrow> if sa_sigaction old \<noteq> 0 then actions[idx := old] else actions)
      in (c\<lparr>originalActions := actions\<rparr>, g))"

definition FIRCLSSignalInstallHandlers :: "'r signal_env \<Rightarrow> signal_context \<Rightarrow> signals \<Rightarrow> signal_context \<times> signals" where
  "FIRCLSSignalInstallHandlers X c g = fold (install_handler X) [0..<FIRCLSSignalCount] (c, g)"

definition FIRCLSSignalInitialize ::
    "'r signal_env \<Rightarrow> bool \<Rightarrow> signal_context \<Rightarrow> signals \<Rightarrow> crash_state \<Rightarrow> signal_context \<times> signals \<times> crash_state" where
  "FIRCLSSignalInitialize X unlink_ok c g s =
     (let (ok, s) = FIRCLSUnlinkIfExists (signal_path c) unlink_ok s;
          (c, g) = FIRCLSSignalInstallAltStack X c g;
          (c, g) = FIRCLSSignalInstallHandlers X c g
      in (c, g, s))"

definition remove_handler :: "'r signal_env \<Rightarrow> bool \<Rightarrow> nat \<Rightarrow> signals \<Rightarrow> signals" where
  "remove_handler X includingAbort i g =
     (if \<not> includingAbort \<and> FIRCLSFatalSignals ! i = SIGABRT then g
      else snd (sigaction (FIRCLSFatalSignals ! i)
        (Some \<lparr>sa_sigaction = SIG_DFL, sa_flags = garbage_flags X, sa_mask = 0\<rparr>) g))"

definition FIRCLSSignalSafeRemoveHandlers :: "'r signal_env \<Rightarrow> bool \<Rightarrow> signals \<Rightarrow> signals" where
  "FIRCLSSignalSafeRemoveHandlers X includingAbort g = fold (remove_handler X includingAbort) [0..<FIRCLSSignalCount] g"

definition restore_handler :: "signal_context \<Rightarrow> nat \<Rightarrow> bool \<times> signals \<Rightarrow> bool \<times> signals" where
  "restore_handler c i sg =
     (let (success, g) = sg in
      if sa_sigaction (originalActions c ! i) = 0 then (success, g)
      else let (old, g) = sigaction (FIRCLSFatalSignals ! i) (Some (originalActions c ! i)) g in
        (if old = None then False else success, g))"

definition FIRCLSSignalSafeInstallPreexistingHandlers :: "'r signal_env \<Rightarrow> signal_context \<Rightarrow> signals \<Rightarrow> bool \<times> signals" where
  "FIRCLSSignalSafeInstallPreexistingHandlers X c g =
     (let g = FIRCLSSignalSafeRemoveHandlers X True g;
          (old, g) = (if stack_sp (originalStack c) \<noteq> 0 then sigaltstack (originalStack c) g else (Some (sigstack g), g))
      in if old = None then (False, g)
         else fold (restore_handler c) [0..<FIRCLSSignalCount] (True, g))"

text \<open>The messages of \<open>FIRCLSSignalCheckHandlers\<close>: a signal that cannot be asked for, or one with a foreign
  handler and the name of its symbol.\<close>

datatype handler_warning = Unreadable | Foreign string "string option"

definition FIRCLSSignalNameLookup :: "nat \<Rightarrow> string \<times> string option" where
  "FIRCLSSignalNameLookup number =
     (if number = SIGABRT then (''SIGABRT'', Some ''ABORT'')
      else if number = SIGBUS then (''SIGBUS'', None)
      else if number = SIGFPE then (''SIGFPE'', None)
      else if number = SIGILL then (''SIGILL'', None)
      else if number = SIGSEGV then (''SIGSEGV'', None)
      else if number = SIGSYS then (''SIGSYS'', None)
      else if number = SIGTRAP then (''SIGTRAP'', None)
      else (''UNKNOWN'', None))"

definition check_handler ::
    "'r signal_env \<Rightarrow> (u64 \<Rightarrow> string option) \<Rightarrow> nat \<Rightarrow> handler_warning list \<times> signals \<Rightarrow> handler_warning list \<times> signals" where
  "check_handler X dladdr signal wg =
     (let (ws, g) = wg; (old, g) = sigaction signal None g in
      case old of
        None \<Rightarrow> (ws @ [Unreadable], g)
      | Some a \<Rightarrow>
          if sa_sigaction a = signal_handler X then (ws, g)
          else (ws @ [Foreign (fst (FIRCLSSignalNameLookup signal)) (dladdr (sa_sigaction a))], g))"

definition FIRCLSSignalCheckHandlers ::
    "'r signal_env \<Rightarrow> (u64 \<Rightarrow> string option) \<Rightarrow> bool \<Rightarrow> signals \<Rightarrow> handler_warning list \<times> signals" where
  "FIRCLSSignalCheckHandlers X dladdr debuggerAttached g =
     (if debuggerAttached then ([], g) else fold (check_handler X dladdr) FIRCLSFatalSignals ([], g))"

section \<open>The handler\<close>

text \<open>The fields of \<open>siginfo_t\<close>: number and code at offsets 0 and 8, the address at 24.\<close>

definition write_siginfo :: "address_space \<Rightarrow> u64 \<Rightarrow> report_file \<Rightarrow> report_file option" where
  "write_siginfo m info f = do {
     si_signo \<leftarrow> load_bytes (flat_task m) info 4;
     si_code \<leftarrow> load_bytes (flat_task m) (info + 8) 4;
     si_addr \<leftarrow> load_bytes (flat_task m) (info + 24) 8;
     let signo = (le_word si_signo :: u32);
     let code = (le_word si_code :: u32);
     let (name, codeName) = FIRCLSSignalNameLookup (unat signo);
     let f = FIRCLSFileWriteHashEntryUint64 ''number'' (scast signo) f;
     let f = FIRCLSFileWriteHashEntryUint64 ''code'' (scast code) f;
     let f = FIRCLSFileWriteHashEntryUint64 ''address'' (le_word si_addr) f;
     let f = FIRCLSFileWriteHashEntryString ''name'' (Some name) f;
     Some (FIRCLSFileWriteHashEntryString ''code_name'' codeName f) }"

text \<open>The first result says whether the process exits.\<close>

definition FIRCLSSignalRecordSignal ::
    "'r signal_env \<Rightarrow> signal_context \<Rightarrow> u32 \<Rightarrow> u64 \<Rightarrow> u64 \<Rightarrow> crash_state \<Rightarrow> (bool \<times> crash_state) option" where
  "FIRCLSSignalRecordSignal X c savedErrno info uap s =
     (let E = crash_env_of X in
      if \<not> readonly_valid X then Some (False, s)
      else let (crashed, s) = FIRCLSContextMarkAndCheckIfCrashed E s in
      if crashed then Some (True, s)
      else case FIRCLSFileInitWithPath E (signal_path c) s of
        None \<Rightarrow> Some (False, s)
      | Some (f, s) \<Rightarrow> do {
          let f = FIRCLSFileWriteHashStart (FIRCLSFileWriteSectionStart ''signal'' f);
          f \<leftarrow> (if FIRCLSIsValidPointer info then write_siginfo (space s) info f else Some f);
          let f = FIRCLSFileWriteHashEntryUint64 ''errno'' (scast savedErrno) f;
          let f = FIRCLSFileWriteHashEntryUint64 ''time'' (time_now E) f;
          let f = FIRCLSFileWriteSectionEnd (FIRCLSFileWriteHashEnd f);
          (f, s) \<leftarrow> FIRCLSHandler E (mach_thread_self E) uap f s;
          Some (False, FIRCLSFileClose (signal_path c) f s) })"

definition FIRCLSSignalHandler ::
    "'r signal_env \<Rightarrow> signal_context \<Rightarrow> u64 \<Rightarrow> u64 \<Rightarrow> signals \<Rightarrow> crash_state \<Rightarrow> (bool \<times> signals \<times> crash_state) option" where
  "FIRCLSSignalHandler X c info uap g s = do {
     let savedErrno = errno g;
     let g = g\<lparr>errno := 0\<rparr>;
     let g = FIRCLSSignalSafeRemoveHandlers X True g;
     let g = snd (sigunblock_all g);
     let info = (if \<not> FIRCLSIsValidPointer info then 0 else info);
     let uap = (if \<not> FIRCLSIsValidPointer uap then 0 else uap);
     (exits, s) \<leftarrow> FIRCLSSignalRecordSignal X c savedErrno info uap s;
     if exits then Some (True, g, s)
     else do {
       let g = (if readonly_valid X then snd (FIRCLSSignalSafeInstallPreexistingHandlers X c g) else g);
       Some (False, g\<lparr>errno := savedErrno\<rparr>, s) } }"

section \<open>Dispositions after the loops\<close>

lemma fatal_signals: "length FIRCLSFatalSignals = FIRCLSSignalCount" "distinct FIRCLSFatalSignals"
  by (simp_all add: FIRCLSFatalSignals_def FIRCLSSignalCount_def signal_numbers)

definition default_action :: "'r signal_env \<Rightarrow> c_sigaction" where
  "default_action X = \<lparr>sa_sigaction = SIG_DFL, sa_flags = garbage_flags X, sa_mask = 0\<rparr>"

definition our_action :: "'r signal_env \<Rightarrow> c_sigaction" where
  "our_action X = \<lparr>sa_sigaction = signal_handler X, sa_flags = 0x40 OR 0x1, sa_mask = 0\<rparr>"

lemma sigaction_works:
  "call_results g = [] \<Longrightarrow> sigaction signal (Some a) g = (Some (dispositions g signal), g\<lparr>dispositions := (dispositions g)(signal := a)\<rparr>)"
  by (simp add: sigaction_def next_result_def)

lemma remove_loop:
  assumes "n \<le> FIRCLSSignalCount" "call_results g = []"
  shows "fold (remove_handler X True) [0..<n] g =
    g\<lparr>dispositions := \<lambda>s. if s \<in> set (take n FIRCLSFatalSignals) then default_action X else dispositions g s\<rparr>"
  using assms(1)
proof (induction n)
  case (Suc n)
  then have "take (Suc n) FIRCLSFatalSignals = take n FIRCLSFatalSignals @ [FIRCLSFatalSignals ! n]"
    by (intro take_Suc_conv_app_nth) (simp add: fatal_signals)
  then show ?case using Suc assms(2) by (auto simp: remove_handler_def sigaction_works default_action_def fun_eq_iff)
qed simp

lemma handlers_removed:
  "call_results g = [] \<Longrightarrow> FIRCLSSignalSafeRemoveHandlers X True g =
    g\<lparr>dispositions := \<lambda>s. if s \<in> set FIRCLSFatalSignals then default_action X else dispositions g s\<rparr>"
  using remove_loop [of FIRCLSSignalCount g X] fatal_signals by (simp add: FIRCLSSignalSafeRemoveHandlers_def)

text \<open>What \<open>originalActions\<close> holds of a signal whose action was \<open>old\<close>.\<close>

definition saved_action :: "c_sigaction \<Rightarrow> c_sigaction \<Rightarrow> c_sigaction" where
  "saved_action previous old = (if sa_sigaction old \<noteq> 0 then old else previous\<lparr>sa_sigaction := 0\<rparr>)"

lemma install_loop:
  assumes "n \<le> FIRCLSSignalCount" "call_results g = []" "length (originalActions c) = FIRCLSSignalCount"
  shows "\<exists>actions. fold (install_handler X) [0..<n] (c, g) = (c\<lparr>originalActions := actions\<rparr>,
      g\<lparr>dispositions := \<lambda>s. if s \<in> set (take n FIRCLSFatalSignals) then our_action X else dispositions g s\<rparr>) \<and>
    length actions = FIRCLSSignalCount \<and>
    (\<forall>i < FIRCLSSignalCount. actions ! i = (if i < n
      then saved_action (originalActions c ! i) (dispositions g (FIRCLSFatalSignals ! i)) else originalActions c ! i))"
  using assms(1)
proof (induction n)
  case 0
  then show ?case using assms(3) by (intro exI [of _ "originalActions c"]) simp
next
  case (Suc n)
  then obtain actions where a: "fold (install_handler X) [0..<n] (c, g) = (c\<lparr>originalActions := actions\<rparr>,
      g\<lparr>dispositions := \<lambda>s. if s \<in> set (take n FIRCLSFatalSignals) then our_action X else dispositions g s\<rparr>)"
    "length actions = FIRCLSSignalCount" "\<forall>i < FIRCLSSignalCount. actions ! i = (if i < n
      then saved_action (originalActions c ! i) (dispositions g (FIRCLSFatalSignals ! i)) else originalActions c ! i)" by auto
  have n: "n < length FIRCLSFatalSignals" using Suc.prems by (simp add: fatal_signals)
  have t: "take (Suc n) FIRCLSFatalSignals = take n FIRCLSFatalSignals @ [FIRCLSFatalSignals ! n]"
    by (rule take_Suc_conv_app_nth [OF n])
  have "distinct (take (Suc n) FIRCLSFatalSignals)" using fatal_signals(2) by (rule distinct_take)
  then have new: "FIRCLSFatalSignals ! n \<notin> set (take n FIRCLSFatalSignals)" unfolding t by simp
  let ?old = "dispositions g (FIRCLSFatalSignals ! n)"
  have "fold (install_handler X) [0..<Suc n] (c, g) = (c\<lparr>originalActions := actions[n := saved_action (originalActions c ! n) ?old]\<rparr>,
      g\<lparr>dispositions := \<lambda>s. if s \<in> set (take (Suc n) FIRCLSFatalSignals) then our_action X else dispositions g s\<rparr>)"
    using a new n assms(2) Suc.prems unfolding t
    by (auto simp: install_handler_def sigaction_works saved_action_def our_action_def fun_eq_iff Let_def)
  then show ?case using a(2,3) Suc.prems
    by (intro exI [of _ "actions[n := saved_action (originalActions c ! n) ?old]"]) (auto simp: nth_list_update less_Suc_eq)
qed

lemma restore_loop:
  assumes "n \<le> FIRCLSSignalCount" "call_results g = []"
  shows "\<exists>d. fold (restore_handler c) [0..<n] (True, g) = (True, g\<lparr>dispositions := d\<rparr>) \<and>
    (\<forall>i < n. d (FIRCLSFatalSignals ! i) = (if sa_sigaction (originalActions c ! i) \<noteq> 0 then originalActions c ! i
      else dispositions g (FIRCLSFatalSignals ! i))) \<and>
    (\<forall>s. s \<notin> set (take n FIRCLSFatalSignals) \<longrightarrow> d s = dispositions g s)"
  using assms(1)
proof (induction n)
  case 0
  then show ?case by (intro exI [of _ "dispositions g"]) simp
next
  case (Suc n)
  then obtain d where d: "fold (restore_handler c) [0..<n] (True, g) = (True, g\<lparr>dispositions := d\<rparr>)"
    "\<forall>i < n. d (FIRCLSFatalSignals ! i) = (if sa_sigaction (originalActions c ! i) \<noteq> 0 then originalActions c ! i
      else dispositions g (FIRCLSFatalSignals ! i))"
    "\<forall>s. s \<notin> set (take n FIRCLSFatalSignals) \<longrightarrow> d s = dispositions g s" by auto
  have n: "n < length FIRCLSFatalSignals" using Suc.prems by (simp add: fatal_signals)
  have t: "take (Suc n) FIRCLSFatalSignals = take n FIRCLSFatalSignals @ [FIRCLSFatalSignals ! n]"
    by (rule take_Suc_conv_app_nth [OF n])
  have "distinct (take (Suc n) FIRCLSFatalSignals)" using fatal_signals(2) by (rule distinct_take)
  then have new: "FIRCLSFatalSignals ! n \<notin> set (take n FIRCLSFatalSignals)" unfolding t by simp
  have ne: "FIRCLSFatalSignals ! i \<noteq> FIRCLSFatalSignals ! n" if "i < n" for i
    using that n fatal_signals(2) by (simp add: nth_eq_iff_index_eq)
  let ?d = "if sa_sigaction (originalActions c ! n) \<noteq> 0 then d(FIRCLSFatalSignals ! n := originalActions c ! n) else d"
  have "fold (restore_handler c) [0..<Suc n] (True, g) = (True, g\<lparr>dispositions := ?d\<rparr>)"
    using d(1) assms(2) by (simp add: restore_handler_def sigaction_works)
  moreover have "\<forall>i < Suc n. ?d (FIRCLSFatalSignals ! i) = (if sa_sigaction (originalActions c ! i) \<noteq> 0 then originalActions c ! i
      else dispositions g (FIRCLSFatalSignals ! i))"
    using d(2,3) new ne by (auto simp: less_Suc_eq)
  moreover have "\<forall>s. s \<notin> set (take (Suc n) FIRCLSFatalSignals) \<longrightarrow> ?d s = dispositions g s"
    using d(3) unfolding t by auto
  ultimately show ?case by blast
qed

lemma preexisting_installed:
  assumes "call_results g = []" "on_sigstack g \<Longrightarrow> stack_sp (originalStack c) = 0"
  shows "\<exists>d. FIRCLSSignalSafeInstallPreexistingHandlers X c g = (True, g\<lparr>dispositions := d,
      sigstack := if stack_sp (originalStack c) \<noteq> 0 then originalStack c else sigstack g\<rparr>) \<and>
    (\<forall>i < FIRCLSSignalCount. d (FIRCLSFatalSignals ! i) = (if sa_sigaction (originalActions c ! i) \<noteq> 0 then originalActions c ! i
      else default_action X)) \<and>
    (\<forall>s. s \<notin> set FIRCLSFatalSignals \<longrightarrow> d s = dispositions g s)"
proof -
  define g1 where "g1 = (FIRCLSSignalSafeRemoveHandlers X True g)
    \<lparr>sigstack := if stack_sp (originalStack c) \<noteq> 0 then originalStack c else sigstack g\<rparr>"
  have g1: "g1 = g\<lparr>dispositions := \<lambda>s. if s \<in> set FIRCLSFatalSignals then default_action X else dispositions g s,
      sigstack := if stack_sp (originalStack c) \<noteq> 0 then originalStack c else sigstack g\<rparr>"
    using handlers_removed [OF assms(1), of X] by (simp add: g1_def)
  then have r: "call_results g1 = []" using assms(1) by simp
  obtain d where d: "fold (restore_handler c) [0..<FIRCLSSignalCount] (True, g1) = (True, g1\<lparr>dispositions := d\<rparr>)"
    "\<forall>i < FIRCLSSignalCount. d (FIRCLSFatalSignals ! i) = (if sa_sigaction (originalActions c ! i) \<noteq> 0 then originalActions c ! i
      else dispositions g1 (FIRCLSFatalSignals ! i))"
    "\<forall>s. s \<notin> set (take FIRCLSSignalCount FIRCLSFatalSignals) \<longrightarrow> d s = dispositions g1 s"
    using restore_loop [OF order_refl r, of c] by blast
  have "FIRCLSSignalSafeInstallPreexistingHandlers X c g = (True, g1\<lparr>dispositions := d\<rparr>)"
    using d(1) assms handlers_removed [OF assms(1), of X]
    by (auto simp: FIRCLSSignalSafeInstallPreexistingHandlers_def sigaltstack_def next_result_def g1_def Let_def)
  moreover have "FIRCLSFatalSignals ! i \<in> set FIRCLSFatalSignals" if "i < FIRCLSSignalCount" for i
    using that by (simp add: fatal_signals)
  ultimately show ?thesis using d(2,3) by (intro exI [of _ d]) (simp add: g1 fatal_signals(1) [symmetric])
qed

lemma initialized_signals:
  assumes "FIRCLSSignalInitialize X unlink_ok c g s = (c', g', s')" "call_results g = []" "\<not> on_sigstack g"
    and "length (originalActions c) = FIRCLSSignalCount"
  shows "originalStack c' = sigstack g" "signal_path c' = signal_path c"
    "\<forall>i < FIRCLSSignalCount. originalActions c' ! i = saved_action (originalActions c ! i) (dispositions g (FIRCLSFatalSignals ! i))"
    "\<forall>s. dispositions g' s = (if s \<in> set FIRCLSFatalSignals then our_action X else dispositions g s)"
proof -
  let ?g = "g\<lparr>sigstack := \<lparr>stack_sp = signalStack X, stack_size = CLS_SIGNAL_HANDLER_STACK_SIZE, stack_flags = 0\<rparr>\<rparr>"
  have a: "FIRCLSSignalInstallAltStack X c g = (c\<lparr>originalStack := sigstack g\<rparr>, ?g)"
    using assms(2,3) by (simp add: FIRCLSSignalInstallAltStack_def sigaltstack_def next_result_def)
  obtain actions where "FIRCLSSignalInstallHandlers X (c\<lparr>originalStack := sigstack g\<rparr>) ?g =
      (c\<lparr>originalStack := sigstack g, originalActions := actions\<rparr>,
       ?g\<lparr>dispositions := \<lambda>s. if s \<in> set FIRCLSFatalSignals then our_action X else dispositions g s\<rparr>)"
    "\<forall>i < FIRCLSSignalCount. actions ! i = saved_action (originalActions c ! i) (dispositions g (FIRCLSFatalSignals ! i))"
    using install_loop [of FIRCLSSignalCount ?g "c\<lparr>originalStack := sigstack g\<rparr>" X] assms(2,4)
    by (auto simp: FIRCLSSignalInstallHandlers_def fatal_signals(1) [symmetric] cong: if_cong)
  moreover obtain ok s1 where "FIRCLSUnlinkIfExists (signal_path c) unlink_ok s = (ok, s1)" by fastforce
  ultimately have "c' = c\<lparr>originalStack := sigstack g, originalActions := actions\<rparr>"
    "g' = ?g\<lparr>dispositions := \<lambda>s. if s \<in> set FIRCLSFatalSignals then our_action X else dispositions g s\<rparr>"
    "\<forall>i < FIRCLSSignalCount. actions ! i = saved_action (originalActions c ! i) (dispositions g (FIRCLSFatalSignals ! i))"
    using assms(1) a by (auto simp: FIRCLSSignalInitialize_def)
  then show "originalStack c' = sigstack g" "signal_path c' = signal_path c"
    "\<forall>i < FIRCLSSignalCount. originalActions c' ! i = saved_action (originalActions c ! i) (dispositions g (FIRCLSFatalSignals ! i))"
    "\<forall>s. dispositions g' s = (if s \<in> set FIRCLSFatalSignals then our_action X else dispositions g s)"
    by simp_all
qed

section \<open>The handler\<close>

lemma handler_signals:
  assumes "FIRCLSSignalHandler X c info uap h s = Some (False, h', s')" "readonly_valid X"
  obtains g where "g = snd (sigunblock_all (FIRCLSSignalSafeRemoveHandlers X True (h\<lparr>errno := 0\<rparr>)))"
    "h' = (snd (FIRCLSSignalSafeInstallPreexistingHandlers X c g))\<lparr>errno := errno h\<rparr>"
  using assms by (auto simp: FIRCLSSignalHandler_def Let_def bind_Some_iff split: if_splits prod.splits)

lemma unblocked: "call_results g = [] \<Longrightarrow> sigunblock_all g = (True, g\<lparr>blocked := 0\<rparr>)"
  by (simp add: sigunblock_all_def next_result_def)

lemma handlers_restored_aux:
  assumes "FIRCLSSignalInitialize X unlink_ok c g s = (c', g', s')" "call_results g = []" "\<not> on_sigstack g"
    and "length (originalActions c) = FIRCLSSignalCount"
    and "FIRCLSSignalHandler X c' info uap h s1 = Some (False, h', s2)" "readonly_valid X"
    and "call_results h = []" "on_sigstack h \<Longrightarrow> stack_sp (sigstack g) = 0"
  shows "dispositions h' signal =
      (if signal \<notin> set FIRCLSFatalSignals then dispositions h signal
       else if sa_sigaction (dispositions g signal) = SIG_DFL then default_action X else dispositions g signal)"
    "sigstack h' = (if stack_sp (sigstack g) \<noteq> 0 then sigstack g else sigstack h)" "errno h' = errno h" "blocked h' = 0"
proof -
  note init = initialized_signals [OF assms(1-4)]
  obtain g1 where g1: "g1 = snd (sigunblock_all (FIRCLSSignalSafeRemoveHandlers X True (h\<lparr>errno := 0\<rparr>)))"
    "h' = (snd (FIRCLSSignalSafeInstallPreexistingHandlers X c' g1))\<lparr>errno := errno h\<rparr>"
    using handler_signals [OF assms(5,6)] by blast
  have g1': "g1 = h\<lparr>errno := 0, blocked := 0,
      dispositions := \<lambda>s. if s \<in> set FIRCLSFatalSignals then default_action X else dispositions h s\<rparr>"
    using assms(7) by (simp add: g1(1) handlers_removed unblocked cong: if_cong)
  obtain d where d: "FIRCLSSignalSafeInstallPreexistingHandlers X c' g1 = (True, g1\<lparr>dispositions := d,
      sigstack := if stack_sp (originalStack c') \<noteq> 0 then originalStack c' else sigstack g1\<rparr>)"
    "\<forall>i < FIRCLSSignalCount. d (FIRCLSFatalSignals ! i) = (if sa_sigaction (originalActions c' ! i) \<noteq> 0 then originalActions c' ! i
      else default_action X)"
    "\<forall>s. s \<notin> set FIRCLSFatalSignals \<longrightarrow> d s = dispositions g1 s"
    using preexisting_installed [of g1 c' X] assms(7,8) init(1) g1' by auto
  have h': "dispositions h' = d" "sigstack h' = (if stack_sp (sigstack g) \<noteq> 0 then sigstack g else sigstack h)"
    using d(1) g1(2) g1' init(1) by simp_all
  show "dispositions h' signal =
      (if signal \<notin> set FIRCLSFatalSignals then dispositions h signal
       else if sa_sigaction (dispositions g signal) = SIG_DFL then default_action X else dispositions g signal)"
  proof (cases "signal \<in> set FIRCLSFatalSignals")
    case True
    then obtain i where "i < FIRCLSSignalCount" "signal = FIRCLSFatalSignals ! i" by (metis in_set_conv_nth fatal_signals(1))
    then show ?thesis using d(2) init(3) h'(1) True by (simp add: saved_action_def SIG_DFL_def)
  next
    case False
    then show ?thesis using d(3) h'(1) g1' by simp
  qed
  show "sigstack h' = (if stack_sp (sigstack g) \<noteq> 0 then sigstack g else sigstack h)" by (rule h'(2))
  show "errno h' = errno h" "blocked h' = 0" using d(1) g1(2) g1' by simp_all
qed

lemma handlers_lost_aux:
  assumes "FIRCLSSignalHandler X c info uap h s = Some (False, h', s')" "readonly_valid X"
    and "call_results h = []" "on_sigstack h" "stack_sp (originalStack c) \<noteq> 0" "signal \<in> set FIRCLSFatalSignals"
  shows "dispositions h' signal = default_action X"
proof -
  obtain g1 where g1: "g1 = snd (sigunblock_all (FIRCLSSignalSafeRemoveHandlers X True (h\<lparr>errno := 0\<rparr>)))"
    "h' = (snd (FIRCLSSignalSafeInstallPreexistingHandlers X c g1))\<lparr>errno := errno h\<rparr>"
    using handler_signals [OF assms(1,2)] by blast
  show ?thesis using g1 assms(3-6)
    by (simp add: handlers_removed unblocked FIRCLSSignalSafeInstallPreexistingHandlers_def sigaltstack_def Let_def)
qed

section \<open>The report of a signal\<close>

text \<open>The entries on \<open>info\<close>; none if the pointer is invalid.\<close>

definition siginfo_entries :: "address_space \<Rightarrow> u64 \<Rightarrow> (string \<times> json) list option" where
  "siginfo_entries m info =
     (if \<not> FIRCLSIsValidPointer info then Some []
      else do {
        si_signo \<leftarrow> load_bytes (flat_task m) info 4;
        si_code \<leftarrow> load_bytes (flat_task m) (info + 8) 4;
        si_addr \<leftarrow> load_bytes (flat_task m) (info + 24) 8;
        let signo = (le_word si_signo :: u32);
        Some [(''number'', JUint (scast signo)), (''code'', JUint (scast (le_word si_code :: u32))),
          (''address'', JUint (le_word si_addr)),
          (''name'', JString (Some (fst (FIRCLSSignalNameLookup (unat signo))))),
          (''code_name'', JString (snd (FIRCLSSignalNameLookup (unat signo))))] })"

definition signal_json :: "'r crash_env \<Rightarrow> u32 \<Rightarrow> (string \<times> json) list \<Rightarrow> json" where
  "signal_json E e es = JObject (es @ [(''errno'', JUint (scast e)), (''time'', JUint (time_now E))])"

lemma siginfo_written:
  assumes "siginfo_entries m info = Some es"
  shows "(if FIRCLSIsValidPointer info then write_siginfo m info f else Some f) =
      Some (fold (\<lambda>(k, v). write_entry k v) es f)"
    "list_all (\<lambda>(k, v). writable_entry v) es"
  using assms
  by (auto simp: siginfo_entries_def write_siginfo_def bind_Some_iff split_def Let_def split: if_splits)

lemma writable_signal: "list_all (\<lambda>(k, v). writable_entry v) es \<Longrightarrow> writable (signal_json E e es)"
  by (simp add: signal_json_def)

lemma invalid_pointer: "siginfo_entries m (if \<not> FIRCLSIsValidPointer info then 0 else info) = siginfo_entries m info"
  by (auto simp: siginfo_entries_def FIRCLSIsValidPointer_def)

lemma record_signal_lines:
  assumes "readonly_valid X" "context_initialized (loaded_images (crash_env_of X))" "\<not> crashOccurred s"
    and "\<not> cannot_open (crash_env_of X) (signal_path c)" "siginfo_entries (space s) info = Some es"
    and "recordable (crash_env_of X) p (space s) vs selector"
    and "p = snd (FIRCLSProcessInit (kernel_of (crash_env_of X)) (mach_thread_self (crash_env_of X)) (mach_thread_self (crash_env_of X)) uap)"
  shows "\<exists>xs names s'. FIRCLSSignalRecordSignal X c e info uap s = Some (False, s') \<and> crashOccurred s' \<and>
    files s' (signal_path c) = Some (file_contents s (signal_path c) @ concat (map section_line
      ((''signal'', signal_json (crash_env_of X) e es) # report_sections (crash_env_of X) p vs selector xs names))) \<and>
    quotes_messages (crash_env_of X) (space s) xs \<and> quotes_labels (crash_env_of X) p (space s') names"
proof -
  let ?E = "crash_env_of X" let ?s = "s\<lparr>crashOccurred := True, files := (files s)(signal_path c \<mapsto> file_contents s (signal_path c))\<rparr>"
  let ?f = "\<lparr>needComma = False, collectionDepth = 0, written = file_contents s (signal_path c)\<rparr>"
  have open_file: "FIRCLSFileInitWithPath ?E (signal_path c) (s\<lparr>crashOccurred := True\<rparr>) = Some (?f, ?s)"
    using file_opened [OF assms(4), of "s\<lparr>crashOccurred := True\<rparr>"] by (simp add: file_contents_def)
  have between: "between_sections ?f" by (simp add: between_sections_def)
  note sig = siginfo_written [OF assms(5)]
  have sec: "FIRCLSFileWriteSectionEnd (write_collection (signal_json ?E e es) (FIRCLSFileWriteSectionStart ''signal'' ?f)) =
      add_lines [(''signal'', signal_json ?E e es)] ?f"
    by (rule section_added [OF writable_signal [OF sig(2)] between])
  have r: "recordable ?E p (space ?s) vs selector" using assms(6) by simp
  let ?f1 = "add_lines [(''signal'', signal_json ?E e es)] ?f"
  obtain m xs names where h: "FIRCLSHandler ?E (mach_thread_self ?E) uap ?f1 ?s =
      Some (add_lines (report_sections ?E p vs selector xs names) ?f1,
        resume_all ?E p (FIRCLSCreateCrashedMarkerFile ?E ((suspend_all ?E p ?s)\<lparr>space := m\<rparr>)))"
    "quotes_messages ?E (space s) xs" "quotes_labels ?E p m names"
    using handler_lines [OF r assms(7), of ?f1] between by auto
  define s' where "s' = FIRCLSFileClose (signal_path c) (add_lines (report_sections ?E p vs selector xs names) ?f1)
    (resume_all ?E p (FIRCLSCreateCrashedMarkerFile ?E ((suspend_all ?E p ?s)\<lparr>space := m\<rparr>)))"
  have "FIRCLSSignalRecordSignal X c e info uap s = Some (False, s')"
    using assms(1-3) open_file sig(1) h(1) sec
    by (simp add: FIRCLSSignalRecordSignal_def FIRCLSContextMarkAndCheckIfCrashed_def signal_json_def s'_def Let_def
        split del: if_split cong: if_cong)
  moreover have "crashOccurred s'" by (simp add: s'_def FIRCLSFileClose_def marker_kept)
  moreover have "files s' (signal_path c) = Some (file_contents s (signal_path c) @ concat (map section_line
      ((''signal'', signal_json ?E e es) # report_sections ?E p vs selector xs names)))"
    by (simp add: s'_def FIRCLSFileClose_def add_lines_def)
  moreover have "space s' = m" by (simp add: s'_def FIRCLSFileClose_def marker_kept)
  ultimately show ?thesis using h(2,3) by blast
qed

lemma signal_handler_lines:
  assumes "readonly_valid X" "context_initialized (loaded_images (crash_env_of X))" "\<not> crashOccurred s"
    and "\<not> cannot_open (crash_env_of X) (signal_path c)" "siginfo_entries (space s) info = Some es"
    and "recordable (crash_env_of X) p (space s) vs selector"
    and "p = snd (FIRCLSProcessInit (kernel_of (crash_env_of X)) (mach_thread_self (crash_env_of X))
      (mach_thread_self (crash_env_of X)) (if \<not> FIRCLSIsValidPointer uap then 0 else uap))"
  shows "\<exists>xs names h' s'. FIRCLSSignalHandler X c info uap h s = Some (False, h', s') \<and> crashOccurred s' \<and>
    files s' (signal_path c) = Some (file_contents s (signal_path c) @ concat (map section_line
      ((''signal'', signal_json (crash_env_of X) (errno h) es) # report_sections (crash_env_of X) p vs selector xs names))) \<and>
    quotes_messages (crash_env_of X) (space s) xs \<and> quotes_labels (crash_env_of X) p (space s') names"
proof -
  have info: "siginfo_entries (space s) (if \<not> FIRCLSIsValidPointer info then 0 else info) = Some es"
    using assms(5) by (simp only: invalid_pointer)
  from record_signal_lines [OF assms(1-4) info assms(6,7), of "errno h"]
  show ?thesis using assms(1) by (fastforce simp: FIRCLSSignalHandler_def Let_def)
qed

lemma second_signal_exits:
  assumes "readonly_valid X" "context_initialized (loaded_images (crash_env_of X))" "crashOccurred s"
  shows "\<exists>h'. FIRCLSSignalHandler X c info uap h s = Some (True, h', s)"
  using assms
  by (simp add: FIRCLSSignalHandler_def FIRCLSSignalRecordSignal_def FIRCLSContextMarkAndCheckIfCrashed_def Let_def)

section \<open>Properties\<close>

lemma record_signal_threads:
  assumes "FIRCLSSignalRecordSignal X c e info uap s = Some (False, s')" "E = crash_env_of X"
    and "p = snd (FIRCLSProcessInit (kernel_of E) (mach_thread_self E) (mach_thread_self E) uap)"
    and "distinct (threads p)" "\<And>t. thread_resume E t" "\<And>t. t \<in> set (threads p) \<Longrightarrow> suspend_count s t = 0"
  shows "suspend_count s' = suspend_count s"
proof (cases "s' = s \<or> s' = s\<lparr>crashOccurred := True\<rparr>")
  case False
  then obtain f s1 f' s2 where h: "FIRCLSHandler E (mach_thread_self E) uap f s1 = Some (f', s2)"
    "suspend_count s1 = suspend_count s" "suspend_count s' = suspend_count s2"
    using assms(1,2)
    by (auto simp: FIRCLSSignalRecordSignal_def FIRCLSContextMarkAndCheckIfCrashed_def FIRCLSFileInitWithPath_def
        FIRCLSFileClose_def Let_def bind_Some_iff split: if_splits)
  then show ?thesis using handler_state(2) [OF h(1) assms(3-5)] assms(6) by simp
qed auto

text \<open>C4. The first fatal signal is recorded: when the context is ready and the crash can be recorded, the handler
  returns, and the signal file has what it had before and the lines of the report: the signal with number, code,
  address and names, then the threads, the messages, queue labels, names, statistics and disk usage.  The other threads
  are left as they were.\<close>

theorem signal_report:
  assumes "readonly_valid X" "context_initialized (loaded_images E)" "\<not> crashOccurred s" "E = crash_env_of X"
    and "\<not> cannot_open E (signal_path c)" "siginfo_entries (space s) info = Some es"
    and "p = snd (FIRCLSProcessInit (kernel_of E) (mach_thread_self E) (mach_thread_self E)
      (if \<not> FIRCLSIsValidPointer uap then 0 else uap))"
    and "recordable E p (space s) vs selector"
    and "distinct (threads p)" "\<And>t. thread_resume E t" "\<And>t. t \<in> set (threads p) \<Longrightarrow> suspend_count s t = 0"
  shows "\<exists>xs names h' s'. FIRCLSSignalHandler X c info uap h s = Some (False, h', s') \<and> crashOccurred s' \<and>
    files s' (signal_path c) = Some (file_contents s (signal_path c) @ concat (map section_line
      ((''signal'', signal_json E (errno h) es) # report_sections E p vs selector xs names))) \<and>
    quotes_messages E (space s) xs \<and> quotes_labels E p (space s') names \<and> suspend_count s' = suspend_count s"
proof -
  obtain xs names h' s' where h': "FIRCLSSignalHandler X c info uap h s = Some (False, h', s')" "crashOccurred s'"
    "files s' (signal_path c) = Some (file_contents s (signal_path c) @ concat (map section_line
      ((''signal'', signal_json E (errno h) es) # report_sections E p vs selector xs names)))"
    "quotes_messages E (space s) xs" "quotes_labels E p (space s') names"
    using signal_handler_lines [of X s c info es p vs selector uap h] assms(1-8) by blast
  then obtain e i where "FIRCLSSignalRecordSignal X c e i (if \<not> FIRCLSIsValidPointer uap then 0 else uap) s = Some (False, s')"
    by (auto simp: FIRCLSSignalHandler_def Let_def bind_Some_iff split: if_splits)
  from record_signal_threads [OF this assms(4,7,9-11)] h' show ?thesis by blast
qed

text \<open>C13. Between initialisation and the end of a handler that does not run on an alternate stack while the application
  had one before, the handlers of the application are only borrowed: every fatal signal gets back the action it had before
  initialisation (and the default if that is what it had), other signals are untouched, \<open>errno\<close> is restored and no
  signal is blocked.  The alternate stack of the application is installed again if it had one; if it had none, the one
  installed at initialisation stays.  The case left out is that of the next property.\<close>

theorem handlers_restored:
  assumes "FIRCLSSignalInitialize X unlink_ok c g s = (c', g', s')" "call_results g = []" "\<not> on_sigstack g"
    and "length (originalActions c) = FIRCLSSignalCount"
    and "FIRCLSSignalHandler X c' info uap h s1 = Some (False, h', s2)" "readonly_valid X"
    and "call_results h = []" "on_sigstack h \<Longrightarrow> stack_sp (sigstack g) = 0"
  shows "dispositions h' signal =
      (if signal \<notin> set FIRCLSFatalSignals then dispositions h signal
       else if sa_sigaction (dispositions g signal) = SIG_DFL then default_action X else dispositions g signal) \<and>
    sigstack h' = (if stack_sp (sigstack g) \<noteq> 0 then sigstack g else sigstack h) \<and> errno h' = errno h \<and> blocked h' = 0"
  using handlers_restored_aux [OF assms] by blast

text \<open>C40. When the handler runs on its alternate stack and there was another one before, the kernel refuses to restore that one,
  and the handlers of the application are never reinstalled.\<close>

theorem handlers_lost:
  assumes "FIRCLSSignalInitialize X unlink_ok c g s = (c', g', s')" "call_results g = []" "\<not> on_sigstack g"
    and "length (originalActions c) = FIRCLSSignalCount" "stack_sp (sigstack g) \<noteq> 0"
    and "FIRCLSSignalHandler X c' info uap h s1 = Some (False, h', s2)" "readonly_valid X"
    and "call_results h = []" "on_sigstack h" "signal \<in> set FIRCLSFatalSignals"
  shows "dispositions h' signal = default_action X"
  using handlers_lost_aux [OF assms(6-9) _ assms(10)] initialized_signals(1) [OF assms(1-4)] assms(5) by simp

section \<open>Witnesses\<close>

lemma fault_siginfo: "siginfo_entries crash_memory 0x2020 = Some
    [(''number'', JUint 11), (''code'', JUint 1), (''address'', JUint 0xDEAD0), (''name'', JString (Some ''SIGSEGV'')),
     (''code_name'', JString None)]"
proof -
  have "load_bytes (flat_task crash_memory) 0x2020 4 = Some [11, 0, 0, 0]"
    "load_bytes (flat_task crash_memory) (0x2020 + 8) 4 = Some [1, 0, 0, 0]"
    "load_bytes (flat_task crash_memory) (0x2020 + 24) 8 = Some [0xD0, 0xEA, 0x0D, 0, 0, 0, 0, 0]"
    using load_sample [of 0 4] load_sample [of 8 4] load_sample [of 24 8] by (simp_all add: siginfo_bytes_def)
  moreover have "(le_word [11, 0, 0, 0] :: u32) = 11" "(le_word [1, 0, 0, 0] :: u32) = 1"
    "(le_word [0xD0, 0xEA, 0x0D, 0, 0, 0, 0, 0] :: u64) = 0xDEAD0" by (simp_all add: le_word_def)
  moreover have "FIRCLSIsValidPointer 0x2020" "(scast (11 :: u32) :: u64) = 11" "(scast (1 :: u32) :: u64) = 1" "unat (11 :: u32) = 11"
    by (simp_all add: FIRCLSIsValidPointer_def)
  ultimately show ?thesis
    by (simp add: siginfo_entries_def FIRCLSSignalNameLookup_def signal_numbers Let_def)
qed

definition fault_signals :: signals where
  "fault_signals = \<lparr>dispositions = \<lambda>s. \<lparr>sa_sigaction = if s = SIGSEGV then 0x7000 else 0, sa_flags = 0, sa_mask = 0\<rparr>,
     sigstack = \<lparr>stack_sp = 0, stack_size = 0, stack_flags = 0\<rparr>, on_sigstack = False, blocked = 0, errno = 2, call_results = []\<rparr>"

definition fault_signal_env :: "arm_thread signal_env" where
  "fault_signal_env = \<lparr>crash_env_of = fault_env, signal_handler = 0x9000, signalStack = 0xA000, garbage_flags = 0,
     readonly_valid = True\<rparr>"

definition fault_context :: signal_context where
  "fault_context = \<lparr>signal_path = ''signal'', originalActions = replicate FIRCLSSignalCount \<lparr>sa_sigaction = 0, sa_flags = 0, sa_mask = 0\<rparr>,
     originalStack = \<lparr>stack_sp = 0, stack_size = 0, stack_flags = 0\<rparr>\<rparr>"

lemma fault_ready:
  "readonly_valid fault_signal_env" "crash_env_of fault_signal_env = fault_env" "context_initialized (loaded_images fault_env)"
  "\<not> cannot_open fault_env path" "\<not> crashOccurred fault_state" "space fault_state = crash_memory"
  "thread_resume fault_env t" "suspend_count fault_state t = 0" "threads (fault_process crashed) = [0x203]"
  "file_contents fault_state path = []"
  by (simp_all add: fault_signal_env_def fault_env_def fault_state_def fault_process_def file_contents_def)

lemma signal_report_witness:
  "\<exists>xs names h' s'. FIRCLSSignalHandler fault_signal_env fault_context 0x2020 0 fault_signals fault_state = Some (False, h', s') \<and>
    files s' (signal_path fault_context) = Some (concat (map section_line
      ((''signal'', signal_json fault_env 2 [(''number'', JUint 11), (''code'', JUint 1), (''address'', JUint 0xDEAD0),
         (''name'', JString (Some ''SIGSEGV'')), (''code_name'', JString None)]) #
       report_sections fault_env (fault_process 0x103) [fault_trace 0x103] (Some []) xs names)))"
proof -
  have p: "fault_process 0x103 = snd (FIRCLSProcessInit (kernel_of fault_env) (mach_thread_self fault_env) (mach_thread_self fault_env)
      (if \<not> FIRCLSIsValidPointer 0 then 0 else 0))"
    using fault_processes [of "0x103"] by (simp add: fault_env_def)
  have r: "recordable fault_env (fault_process 0x103) (space fault_state) [fault_trace 0x103] (Some [])"
    using fault_recordable [of "0x103"] by (simp add: fault_ready)
  have i: "siginfo_entries (space fault_state) 0x2020 = Some [(''number'', JUint 11), (''code'', JUint 1),
      (''address'', JUint 0xDEAD0), (''name'', JString (Some ''SIGSEGV'')), (''code_name'', JString None)]"
    by (simp add: fault_siginfo fault_ready)
  show ?thesis
    using signal_report [where h = fault_signals, OF fault_ready(1,3,5) fault_ready(2) [symmetric] fault_ready(4) i p r]
    by (fastforce simp: fault_ready fault_signals_def)
qed

text \<open>The handler at work, whatever was installed.\<close>

lemma fault_handled: "\<exists>h' s'. FIRCLSSignalHandler fault_signal_env c 0x2020 0 h fault_state = Some (False, h', s')"
proof -
  have p: "fault_process 0x103 = snd (FIRCLSProcessInit (kernel_of (crash_env_of fault_signal_env))
      (mach_thread_self (crash_env_of fault_signal_env)) (mach_thread_self (crash_env_of fault_signal_env))
      (if \<not> FIRCLSIsValidPointer 0 then 0 else 0))"
    using fault_processes [of "0x103"] fault_ready(2) by (simp add: fault_env_def)
  show ?thesis
    using signal_handler_lines [OF fault_ready(1) _ _ _ _ _ p, of fault_state c "0x2020" _ "[fault_trace 0x103]" "Some []" h]
      fault_recordable [of "0x103"] fault_siginfo
    by (fastforce simp: fault_ready)
qed

definition installed :: "signals \<Rightarrow> signal_context" where
  "installed g = fst (FIRCLSSignalInitialize fault_signal_env True fault_context g fault_state)"

lemma installed_init:
  obtains g' s' where "FIRCLSSignalInitialize fault_signal_env True fault_context g fault_state = (installed g, g', s')"
  by (metis installed_def prod.collapse)

lemma fault_actions: "length (originalActions fault_context) = FIRCLSSignalCount"
  by (simp add: fault_context_def)

lemma handlers_restored_witness:
  "\<exists>h' s'. FIRCLSSignalHandler fault_signal_env (installed fault_signals) 0x2020 0 (fault_signals\<lparr>on_sigstack := True\<rparr>) fault_state =
      Some (False, h', s') \<and> sa_sigaction (dispositions h' SIGSEGV) = 0x7000"
proof -
  obtain h' s' where h': "FIRCLSSignalHandler fault_signal_env (installed fault_signals) 0x2020 0 (fault_signals\<lparr>on_sigstack := True\<rparr>)
      fault_state = Some (False, h', s')" using fault_handled by blast
  obtain g1 s1 where init: "FIRCLSSignalInitialize fault_signal_env True fault_context fault_signals fault_state =
      (installed fault_signals, g1, s1)" by (rule installed_init)
  have "dispositions h' SIGSEGV = dispositions fault_signals SIGSEGV"
    using handlers_restored [OF init _ _ fault_actions h' fault_ready(1), of SIGSEGV]
    by (simp add: fault_signals_def FIRCLSFatalSignals_def SIG_DFL_def)
  then show ?thesis using h' by (auto simp: fault_signals_def)
qed

lemma handlers_lost_witness:
  "\<exists>h' s'. FIRCLSSignalHandler fault_signal_env (installed (fault_signals\<lparr>sigstack := \<lparr>stack_sp = 0x6000, stack_size = 4096, stack_flags = 0\<rparr>\<rparr>))
      0x2020 0 (fault_signals\<lparr>on_sigstack := True\<rparr>) fault_state = Some (False, h', s') \<and>
    sa_sigaction (dispositions h' SIGSEGV) = SIG_DFL"
proof -
  let ?g = "fault_signals\<lparr>sigstack := \<lparr>stack_sp = 0x6000, stack_size = 4096, stack_flags = 0\<rparr>\<rparr>"
  obtain h' s' where h': "FIRCLSSignalHandler fault_signal_env (installed ?g) 0x2020 0 (fault_signals\<lparr>on_sigstack := True\<rparr>)
      fault_state = Some (False, h', s')" using fault_handled by blast
  obtain g1 s1 where init: "FIRCLSSignalInitialize fault_signal_env True fault_context ?g fault_state = (installed ?g, g1, s1)"
    by (rule installed_init)
  have "dispositions h' SIGSEGV = default_action fault_signal_env"
    using handlers_lost [OF init _ _ fault_actions _ h' fault_ready(1), of SIGSEGV]
    by (simp add: fault_signals_def FIRCLSFatalSignals_def)
  then show ?thesis using h' by (auto simp: default_action_def)
qed

end
