(* ===== verification/Mach_Exception.thy ===== *)
theory Mach_Exception
  imports Signal_Handler
begin

text \<open>The handler of Mach exceptions (\<open>FIRCLSMachException.c\<close>): registration of the exception
  ports, the loop of the server thread over its messages, and the report of an exception.  Signals and exceptions
  together: one report per process, and the race that allows two.\<close>

section \<open>The kernel's exception ports\<close>

text \<open>Every exception type has an action: a port, a behavior and a thread state flavor.  The results of the
  kernel and thread calls to come are a list, 0 for success; past its end they succeed.  A message that
  cannot be received is \<^term>\<open>None\<close> in the server's argument below; \<open>sent\<close> are the replies.\<close>

record exc_action =
  exc_port :: u32
  exc_behavior :: u32
  exc_flavor :: u32

record mach_reply =
  reply_bits :: u32
  reply_port :: u32
  reply_id :: u32
  retCode :: u32

record mach_state =
  exc_actions :: "nat \<Rightarrow> exc_action"
  receive_rights :: "u32 list"
  send_rights :: "u32 list"
  kern_results :: "u32 list"
  server_started :: bool
  sent :: "mach_reply list"

record mach_message =
  msgh_bits :: u32
  msgh_remote_port :: u32
  msgh_id :: u32
  thread_name :: u32
  task_name :: u32
  exception :: u32
  codeCnt :: u32
  codes :: "u64 list"

text \<open>\<open>original_ports\<close> are the parallel arrays of \<open>FIRCLSMachExceptionOriginalPorts\<close>, masks and actions.\<close>

record mach_context =
  mach_port :: u32
  mach_path :: string
  mach_mask :: u32
  original_ports :: "(u32 \<times> exc_action) list"

text \<open>\<open>group_ports\<close> is how the kernel lists the previous actions of the types in a mask: as pairs of a mask and
  the action of its types.\<close>

record 'r mach_env =
  signal_env_of :: "'r signal_env"
  mach_task_self :: u32
  fresh_port :: u32
  group_ports :: "(nat \<Rightarrow> exc_action) \<Rightarrow> u32 \<Rightarrow> (u32 \<times> exc_action) list"
  thread_state_none :: u32
  cpu_x86 :: bool

record system =
  mach :: mach_state
  sigs :: signals
  crash :: crash_state

definition next_kern :: "mach_state \<Rightarrow> u32 \<times> mach_state" where
  "next_kern k = (case kern_results k of [] \<Rightarrow> (0, k) | r # rs \<Rightarrow> (r, k\<lparr>kern_results := rs\<rparr>))"

definition set_actions :: "u32 \<Rightarrow> exc_action \<Rightarrow> mach_state \<Rightarrow> mach_state" where
  "set_actions mask' a k = k\<lparr>exc_actions := \<lambda>t. if bit mask' t then a else exc_actions k t\<rparr>"

definition task_set_exception_ports :: "u32 \<Rightarrow> exc_action \<Rightarrow> mach_state \<Rightarrow> u32 \<times> mach_state" where
  "task_set_exception_ports mask' a k =
     (let (kr, k) = next_kern k in (kr, if kr = 0 then set_actions mask' a k else k))"

definition task_swap_exception_ports ::
    "'r mach_env \<Rightarrow> u32 \<Rightarrow> exc_action \<Rightarrow> mach_state \<Rightarrow> u32 \<times> (u32 \<times> exc_action) list \<times> mach_state" where
  "task_swap_exception_ports M mask' a k =
     (let (kr, k) = next_kern k in
      if kr = 0 then (0, group_ports M (exc_actions k) mask', set_actions mask' a k) else (kr, [], k))"

definition KERN_SUCCESS :: u32 where "KERN_SUCCESS = 0"
definition KERN_FAILURE :: u32 where "KERN_FAILURE = 5"
definition MACH_PORT_NULL :: u32 where "MACH_PORT_NULL = 0"
definition EXCEPTION_DEFAULT_CODES :: u32 where "EXCEPTION_DEFAULT_CODES = 1 OR 0x80000000"

definition EXC_BAD_ACCESS :: nat where "EXC_BAD_ACCESS = 1"
definition EXC_BAD_INSTRUCTION :: nat where "EXC_BAD_INSTRUCTION = 2"
definition EXC_ARITHMETIC :: nat where "EXC_ARITHMETIC = 3"
definition EXC_BREAKPOINT :: nat where "EXC_BREAKPOINT = 6"
definition EXC_CRASH :: nat where "EXC_CRASH = 10"
definition EXC_GUARD :: nat where "EXC_GUARD = 12"

lemmas exception_types = EXC_BAD_ACCESS_def EXC_BAD_INSTRUCTION_def EXC_ARITHMETIC_def EXC_BREAKPOINT_def EXC_CRASH_def EXC_GUARD_def

definition exc_mask :: "nat \<Rightarrow> u32" where
  "exc_mask t = push_bit t 1"

section \<open>Registration\<close>

definition FIRCLSMachExceptionMask :: u32 where
  "FIRCLSMachExceptionMask = exc_mask EXC_BAD_ACCESS OR exc_mask EXC_BAD_INSTRUCTION OR exc_mask EXC_ARITHMETIC OR
     exc_mask EXC_BREAKPOINT OR exc_mask EXC_GUARD"

definition FIRCLSMachExceptionMaskForSignal :: "nat \<Rightarrow> u32" where
  "FIRCLSMachExceptionMaskForSignal signal =
     (if signal = SIGTRAP then exc_mask EXC_BREAKPOINT
      else if signal = SIGSEGV then exc_mask EXC_BAD_ACCESS
      else if signal = SIGBUS then exc_mask EXC_BAD_ACCESS
      else if signal = SIGILL then exc_mask EXC_BAD_INSTRUCTION
      else if signal = SIGABRT then exc_mask EXC_CRASH
      else if signal = SIGSYS then exc_mask EXC_CRASH
      else if signal = SIGFPE then exc_mask EXC_ARITHMETIC
      else 0)"

text \<open>\<open>mach_port_deallocate\<close> does nothing to a receive right.\<close>

definition FIRCLSMachExceptionRegister :: "'r mach_env \<Rightarrow> u32 \<Rightarrow> mach_context \<Rightarrow> mach_state \<Rightarrow> bool \<times> mach_context \<times> mach_state" where
  "FIRCLSMachExceptionRegister M ignoreMask c k =
     (let (kr, k) = next_kern k in
      if kr \<noteq> KERN_SUCCESS then (False, c, k)
      else let c = c\<lparr>mach_port := fresh_port M\<rparr>; k = k\<lparr>receive_rights := fresh_port M # receive_rights k\<rparr>;
               (kr, k) = next_kern k in
      if kr \<noteq> KERN_SUCCESS then (False, c, k\<lparr>send_rights := remove1 (mach_port c) (send_rights k)\<rparr>)
      else let k = k\<lparr>send_rights := mach_port c # send_rights k\<rparr>;
               c = c\<lparr>mach_mask := FIRCLSMachExceptionMask AND NOT ignoreMask\<rparr>;
               (kr, ports, k) = task_swap_exception_ports M (mach_mask c)
                 \<lparr>exc_port = mach_port c, exc_behavior = EXCEPTION_DEFAULT_CODES, exc_flavor = thread_state_none M\<rparr> k in
      if kr \<noteq> KERN_SUCCESS then (False, c, k)
      else (True, c\<lparr>original_ports := ports\<rparr>, k))"

text \<open>The loop over the original ports, which clears their masks and ignores failures.\<close>

definition restore_port :: "u32 \<times> exc_action \<Rightarrow> u32 \<times> mach_state \<Rightarrow> u32 \<times> mach_state" where
  "restore_port p mk = (fst mk AND NOT (fst p), snd (task_set_exception_ports (fst p) (snd p) (snd mk)))"

definition FIRCLSMachExceptionUnregister :: "'r mach_env \<Rightarrow> (u32 \<times> exc_action) list \<Rightarrow> u32 \<Rightarrow> mach_state \<Rightarrow> bool \<times> mach_state" where
  "FIRCLSMachExceptionUnregister M originalPorts mask' k =
     (let (mask', k) = fold restore_port originalPorts (mask', k);
          (kr, k) = task_set_exception_ports mask'
            \<lparr>exc_port = MACH_PORT_NULL, exc_behavior = EXCEPTION_DEFAULT_CODES, exc_flavor = thread_state_none M\<rparr> k
      in (kr = KERN_SUCCESS, k))"

definition FIRCLSMachExceptionThreadStart :: "mach_state \<Rightarrow> bool \<times> mach_state" where
  "FIRCLSMachExceptionThreadStart k =
     (let (init, k) = next_kern k in if init \<noteq> 0 then (False, k)
      else let (detach, k) = next_kern k in if detach \<noteq> 0 then (False, k)
      else let (stack, k) = next_kern k in if stack \<noteq> 0 then (False, k)
      else let (create, k) = next_kern k in if create \<noteq> 0 then (False, k)
      else (True, k\<lparr>server_started := True\<rparr>))"

definition FIRCLSMachExceptionInit ::
    "'r mach_env \<Rightarrow> bool \<Rightarrow> u32 \<Rightarrow> mach_context \<Rightarrow> mach_state \<Rightarrow> crash_state \<Rightarrow> mach_context \<times> mach_state \<times> crash_state" where
  "FIRCLSMachExceptionInit M unlink_ok ignoreMask c k s =
     (let (ok, s) = FIRCLSUnlinkIfExists (mach_path c) unlink_ok s;
          (ok, c, k) = FIRCLSMachExceptionRegister M ignoreMask c k in
      if \<not> ok then (c, k, s)
      else let (ok, k) = FIRCLSMachExceptionThreadStart k in
        if \<not> ok then (c, snd (FIRCLSMachExceptionUnregister M (original_ports c) (mach_mask c) k), s)
        else (c, k, s))"

section \<open>Recording an exception\<close>

definition lookup_code :: "(u64 \<times> string) list \<Rightarrow> u64 \<Rightarrow> string option" where
  "lookup_code = map_of"

definition FIRCLSMachExceptionNameLookup :: "bool \<Rightarrow> nat \<Rightarrow> u64 \<Rightarrow> string option \<times> string option" where
  "FIRCLSMachExceptionNameLookup x86 number code =
     (if number = EXC_BAD_ACCESS then (Some ''EXC_BAD_ACCESS'',
        lookup_code [(1, ''KERN_INVALID_ADDRESS''), (2, ''KERN_PROTECTION_FAILURE'')] code)
      else if number = EXC_BAD_INSTRUCTION then (Some ''EXC_BAD_INSTRUCTION'', if x86 then Some ''EXC_I386_INVOP'' else None)
      else if number = EXC_ARITHMETIC then (Some ''EXC_ARITHMETIC'', if x86 then
        lookup_code [(1, ''EXC_I386_DIV''), (2, ''EXC_I386_INTO''), (3, ''EXC_I386_NOEXT''), (4, ''EXC_I386_EXTOVR''),
          (5, ''EXC_I386_EXTERR''), (6, ''EXC_I386_EMERR''), (7, ''EXC_I386_BOUND''), (8, ''EXC_I386_SSEEXTERR'')] code
        else None)
      else if number = EXC_BREAKPOINT then (Some ''EXC_BREAKPOINT'', if x86 then
        lookup_code [(0, ''EXC_I386_DIVERR''), (1, ''EXC_I386_SGLSTP''), (2, ''EXC_I386_NMIFLT''), (3, ''EXC_I386_BPTFLT''),
          (4, ''EXC_I386_INTOFLT''), (5, ''EXC_I386_BOUNDFLT''), (6, ''EXC_I386_INVOPFLT''), (7, ''EXC_I386_NOEXTFLT''),
          (9, ''EXC_I386_EXTOVRFLT''), (10, ''EXC_I386_INVTSSFLT''), (11, ''EXC_I386_SEGNPFLT''), (12, ''EXC_I386_STKFLT''),
          (13, ''EXC_I386_GPFLT''), (14, ''EXC_I386_PGFLT''), (16, ''EXC_I386_EXTERRFLT''), (17, ''EXC_I386_ALIGNFLT''),
          (33, ''EXC_I386_ENDPERR''), (32, ''EXC_I386_ENOEXTFLT'')] code
        else None)
      else if number = EXC_GUARD then (Some ''EXC_GUARD'', None)
      else (None, None))"

text \<open>The codes of the message: the array has two, and a greater count reads past it.\<close>

definition message_codes :: "mach_message \<Rightarrow> u64 list option" where
  "message_codes msg = (if unat (codeCnt msg) \<le> length (codes msg) then Some (take (unat (codeCnt msg)) (codes msg)) else None)"

text \<open>The result: whether the process exits, the return value, and the state.\<close>

definition FIRCLSMachExceptionRecord ::
    "'r mach_env \<Rightarrow> mach_context \<Rightarrow> mach_message \<Rightarrow> crash_state \<Rightarrow> (bool \<times> bool \<times> crash_state) option" where
  "FIRCLSMachExceptionRecord M c msg s =
     (let E = crash_env_of (signal_env_of M);
          (crashed, s) = FIRCLSContextMarkAndCheckIfCrashed E s in
      if crashed then Some (True, False, s)
      else case FIRCLSFileInitWithPath E (mach_path c) s of
        None \<Rightarrow> Some (False, False, s)
      | Some (f, s) \<Rightarrow> do {
          let f = FIRCLSFileWriteHashStart (FIRCLSFileWriteSectionStart ''mach_exception'' f);
          let f = FIRCLSFileWriteHashEntryUint64 ''exception'' (scast (exception msg)) f;
          let f = FIRCLSFileWriteArrayStart (FIRCLSFileWriteHashKey ''codes'' f);
          cs \<leftarrow> message_codes msg;
          let f = FIRCLSFileWriteArrayEnd (fold FIRCLSFileWriteArrayEntryUint64 cs f);
          let (name, codeName) = FIRCLSMachExceptionNameLookup (cpu_x86 M) (unat (exception msg)) (if cs = [] then 0 else hd cs);
          let f = FIRCLSFileWriteHashEntryString ''name'' name f;
          let f = FIRCLSFileWriteHashEntryString ''code_name'' codeName f;
          let f = FIRCLSFileWriteHashEntryUint64 ''original_ports'' (word_of_nat (length (original_ports c))) f;
          let f = FIRCLSFileWriteHashEntryUint64 ''time'' (time_now E) f;
          let f = FIRCLSFileWriteSectionEnd (FIRCLSFileWriteHashEnd f);
          (f, s) \<leftarrow> FIRCLSHandler E (thread_name msg) 0 f s;
          Some (False, True, FIRCLSFileClose (mach_path c) f s) })"

section \<open>The server\<close>

text \<open>The result: whether the process exits, the kernel return code for the reply, and the state.\<close>

definition FIRCLSMachExceptionDispatchMessage ::
    "'r mach_env \<Rightarrow> mach_context \<Rightarrow> signal_context \<Rightarrow> mach_message \<Rightarrow> system \<Rightarrow> (bool \<times> u32 \<times> system) option" where
  "FIRCLSMachExceptionDispatchMessage M c sc msg y =
     (if task_name msg \<noteq> mach_task_self M then Some (False, KERN_FAILURE, y)
      else let (ok, k) = FIRCLSMachExceptionUnregister M (original_ports c) (mach_mask c) (mach y); y = y\<lparr>mach := k\<rparr> in
      if \<not> ok then Some (False, KERN_FAILURE, y)
      else let (ok, g) = FIRCLSSignalSafeInstallPreexistingHandlers (signal_env_of M) sc (sigs y); y = y\<lparr>sigs := g\<rparr> in
      if \<not> ok then Some (False, KERN_FAILURE, y)
      else do {
        (exits, ok, s) \<leftarrow> FIRCLSMachExceptionRecord M c msg (crash y);
        Some (exits, if ok then KERN_SUCCESS else KERN_FAILURE, y\<lparr>crash := s\<rparr>) })"

definition make_reply :: "mach_message \<Rightarrow> u32 \<Rightarrow> mach_reply" where
  "make_reply msg result = \<lparr>reply_bits = msgh_bits msg AND 0x1F, reply_port = msgh_remote_port msg,
     reply_id = msgh_id msg + 100, retCode = result\<rparr>"

definition FIRCLSMachExceptionReply :: "mach_message \<Rightarrow> u32 \<Rightarrow> mach_state \<Rightarrow> bool \<times> mach_state" where
  "FIRCLSMachExceptionReply msg result k =
     (let (kr, k) = next_kern k in
      if kr \<noteq> 0 then (False, k) else (True, k\<lparr>sent := sent k @ [make_reply msg result]\<rparr>))"

datatype server_end = Waiting | Stopped | Exited

fun FIRCLSMachExceptionServer ::
    "'r mach_env \<Rightarrow> mach_context \<Rightarrow> signal_context \<Rightarrow> mach_message option list \<Rightarrow> system \<Rightarrow> (server_end \<times> system) option" where
  "FIRCLSMachExceptionServer M c sc [] y = Some (Waiting, y)"
| "FIRCLSMachExceptionServer M c sc (None # msgs) y = Some (Stopped, y)"
| "FIRCLSMachExceptionServer M c sc (Some msg # msgs) y = do {
     (exits, result, y) \<leftarrow> FIRCLSMachExceptionDispatchMessage M c sc msg y;
     if exits then Some (Exited, y)
     else let (ok, k) = FIRCLSMachExceptionReply msg result (mach y); y = y\<lparr>mach := k\<rparr> in
       if \<not> ok then Some (Stopped, y)
       else FIRCLSMachExceptionServer M c sc msgs y }"

section \<open>Restoring the exception ports\<close>

text \<open>What is documented of the list of previous actions: a type in one of its masks is one of those asked for
  and has that action, and every type with a port is in a mask.\<close>

definition groups_ports :: "((nat \<Rightarrow> exc_action) \<Rightarrow> u32 \<Rightarrow> (u32 \<times> exc_action) list) \<Rightarrow> bool" where
  "groups_ports listing \<longleftrightarrow> (\<forall>act types.
     (\<forall>p \<in> set (listing act types). \<forall>t. bit (fst p) t \<longrightarrow> bit types t \<and> act t = snd p) \<and>
     (\<forall>t. bit types t \<longrightarrow> exc_port (act t) \<noteq> MACH_PORT_NULL \<longrightarrow> (\<exists>p \<in> set (listing act types). bit (fst p) t)))"

lemma next_kern_ok [simp]: "kern_results k = [] \<Longrightarrow> next_kern k = (0, k)"
  by (simp add: next_kern_def)

lemma restore_ports_loop:
  assumes "kern_results k = []" "\<And>p t. p \<in> set ps \<Longrightarrow> bit (fst p) t \<Longrightarrow> orig t = snd p"
  shows "\<exists>types'. fold restore_port ps (types, k) =
      (types', k\<lparr>exc_actions := \<lambda>t. if \<exists>p \<in> set ps. bit (fst p) t then orig t else exc_actions k t\<rparr>) \<and>
    (\<forall>t. bit types' t \<longleftrightarrow> bit types t \<and> \<not> (\<exists>p \<in> set ps. bit (fst p) t))"
  using assms
proof (induction ps arbitrary: types k)
  case (Cons p ps)
  let ?k = "set_actions (fst p) (snd p) k"
  have k: "kern_results ?k = []" using Cons.prems(1) by (simp add: set_actions_def)
  have rest: "orig t = snd q" if "q \<in> set ps" "bit (fst q) t" for q t using Cons.prems(2) [of q t] that by simp
  obtain types' where t: "fold restore_port ps (types AND NOT (fst p), ?k) =
      (types', ?k\<lparr>exc_actions := \<lambda>t. if \<exists>p \<in> set ps. bit (fst p) t then orig t else exc_actions ?k t\<rparr>)"
    "\<forall>t. bit types' t \<longleftrightarrow> bit (types AND NOT (fst p)) t \<and> \<not> (\<exists>p \<in> set ps. bit (fst p) t)"
    using Cons.IH [OF k rest, of "types AND NOT (fst p)"] by blast
  have o: "orig t = snd p" if "bit (fst p) t" for t using Cons.prems(2) [of p t] that by simp
  have act: "(\<lambda>t. if \<exists>q \<in> set ps. bit (fst q) t then orig t else exc_actions ?k t) =
      (\<lambda>t. if \<exists>q \<in> set (p # ps). bit (fst q) t then orig t else exc_actions k t)"
    by (rule ext) (auto simp: set_actions_def o)
  have "restore_port p (types, k) = (types AND NOT (fst p), ?k)"
    using Cons.prems(1) by (simp add: restore_port_def task_set_exception_ports_def)
  moreover have "?k\<lparr>exc_actions := d\<rparr> = k\<lparr>exc_actions := d\<rparr>" for d by (simp add: set_actions_def)
  ultimately have "fold restore_port (p # ps) (types, k) =
      (types', k\<lparr>exc_actions := \<lambda>t. if \<exists>p \<in> set (p # ps). bit (fst p) t then orig t else exc_actions k t\<rparr>)"
    using t(1) by (simp only: fold_simps comp_apply act)
  moreover have "bit types' t \<longleftrightarrow> bit types t \<and> \<not> (\<exists>p \<in> set (p # ps). bit (fst p) t)" for t
    using t(2) by (auto simp: bit_simps dest: bit_imp_le_length)
  ultimately show ?case by blast
qed simp

lemma registered:
  assumes "FIRCLSMachExceptionRegister M ignoreMask c k = (ok, c', k')" "kern_results k = []"
  shows "ok" "mach_mask c' = FIRCLSMachExceptionMask AND NOT ignoreMask"
    "original_ports c' = group_ports M (exc_actions k) (mach_mask c')"
    "mach_path c' = mach_path c" "kern_results k' = []"
    "exc_actions k' t = (if bit (mach_mask c') t
      then \<lparr>exc_port = fresh_port M, exc_behavior = EXCEPTION_DEFAULT_CODES, exc_flavor = thread_state_none M\<rparr> else exc_actions k t)"
  using assms by (auto simp: FIRCLSMachExceptionRegister_def task_swap_exception_ports_def set_actions_def KERN_SUCCESS_def Let_def)

lemma unregistered:
  assumes "groups_ports (group_ports M)" "original_ports c = group_ports M act (mach_mask c)" "kern_results k = []"
  shows "\<exists>d. FIRCLSMachExceptionUnregister M (original_ports c) (mach_mask c) k = (True, k\<lparr>exc_actions := d\<rparr>) \<and>
    (\<forall>t. (bit (mach_mask c) t \<longrightarrow> exc_port (d t) = exc_port (act t) \<and> (exc_port (act t) \<noteq> MACH_PORT_NULL \<longrightarrow> d t = act t)) \<and>
      (\<not> bit (mach_mask c) t \<longrightarrow> d t = exc_actions k t))"
proof -
  let ?ps = "original_ports c"
  have g: "\<And>p t. p \<in> set ?ps \<Longrightarrow> bit (fst p) t \<Longrightarrow> bit (mach_mask c) t \<and> act t = snd p"
    "\<And>t. bit (mach_mask c) t \<Longrightarrow> exc_port (act t) \<noteq> MACH_PORT_NULL \<Longrightarrow> \<exists>p \<in> set ?ps. bit (fst p) t"
    using assms(1) unfolding groups_ports_def assms(2) by blast+
  obtain types' where t: "fold restore_port ?ps (mach_mask c, k) =
      (types', k\<lparr>exc_actions := \<lambda>t. if \<exists>p \<in> set ?ps. bit (fst p) t then act t else exc_actions k t\<rparr>)"
    "\<forall>t. bit types' t \<longleftrightarrow> bit (mach_mask c) t \<and> \<not> (\<exists>p \<in> set ?ps. bit (fst p) t)"
    using restore_ports_loop [of k ?ps act "mach_mask c"] assms(3) g(1) by blast
  let ?d = "\<lambda>t. if bit types' t then \<lparr>exc_port = MACH_PORT_NULL, exc_behavior = EXCEPTION_DEFAULT_CODES, exc_flavor = thread_state_none M\<rparr>
    else if \<exists>p \<in> set ?ps. bit (fst p) t then act t else exc_actions k t"
  have "FIRCLSMachExceptionUnregister M ?ps (mach_mask c) k = (True, k\<lparr>exc_actions := ?d\<rparr>)"
    using t(1) assms(3)
    by (simp add: FIRCLSMachExceptionUnregister_def task_set_exception_ports_def set_actions_def KERN_SUCCESS_def cong: if_cong)
  moreover have "(bit (mach_mask c) t \<longrightarrow> exc_port (?d t) = exc_port (act t) \<and> (exc_port (act t) \<noteq> MACH_PORT_NULL \<longrightarrow> ?d t = act t)) \<and>
      (\<not> bit (mach_mask c) t \<longrightarrow> ?d t = exc_actions k t)" for t
  proof (cases "\<exists>p \<in> set ?ps. bit (fst p) t")
    case True
    then have "\<not> bit types' t" "bit (mach_mask c) t" using t(2) g(1) by blast+
    then show ?thesis using True by simp
  next
    case False
    then have "bit (mach_mask c) t \<Longrightarrow> exc_port (act t) = MACH_PORT_NULL" using g(2) by blast
    then show ?thesis using t(2) False by auto
  qed
  ultimately show ?thesis by blast
qed

lemma bit_exc_mask: "n < 32 \<Longrightarrow> bit (exc_mask n) t \<longleftrightarrow> t = n"
  by (auto simp: exc_mask_def bit_simps)

lemma mask_bits: "bit (FIRCLSMachExceptionMask AND NOT ignoreMask) t \<longleftrightarrow> t \<in> {1, 2, 3, 6, 12} \<and> \<not> bit ignoreMask t"
proof -
  have "bit FIRCLSMachExceptionMask t \<longleftrightarrow> t \<in> {1, 2, 3, 6, 12}"
    unfolding FIRCLSMachExceptionMask_def exception_types bit_or_iff by (simp add: bit_exc_mask disj_ac)
  then show ?thesis by (auto simp: bit_and_iff bit_not_iff dest: bit_imp_le_length)
qed

section \<open>The report of an exception\<close>

definition mach_json :: "'r mach_env \<Rightarrow> mach_context \<Rightarrow> mach_message \<Rightarrow> u64 list \<Rightarrow> json" where
  "mach_json M c msg cs =
     (let names = FIRCLSMachExceptionNameLookup (cpu_x86 M) (unat (exception msg)) (if cs = [] then 0 else hd cs) in
      JObject [(''exception'', JUint (scast (exception msg))), (''codes'', JArray (map JUint cs)),
        (''name'', JString (fst names)), (''code_name'', JString (snd names)),
        (''original_ports'', JUint (word_of_nat (length (original_ports c)))),
        (''time'', JUint (time_now (crash_env_of (signal_env_of M))))])"

lemma codes_written: "fold write_element (map JUint cs) f = fold FIRCLSFileWriteArrayEntryUint64 cs f"
  by (induction cs arbitrary: f) simp_all

lemma record_exception_lines:
  assumes "E = crash_env_of (signal_env_of M)" "context_initialized (loaded_images E)" "\<not> crashOccurred s"
    and "\<not> cannot_open E (mach_path c)" "message_codes msg = Some cs"
    and "recordable E p (space s) vs selector"
    and "p = snd (FIRCLSProcessInit (kernel_of E) (mach_thread_self E) (thread_name msg) 0)"
  shows "\<exists>xs names s'. FIRCLSMachExceptionRecord M c msg s = Some (False, True, s') \<and> crashOccurred s' \<and>
    files s' (mach_path c) = Some (file_contents s (mach_path c) @ concat (map section_line
      ((''mach_exception'', mach_json M c msg cs) # report_sections E p vs selector xs names))) \<and>
    quotes_messages E (space s) xs \<and> quotes_labels E p (space s') names"
proof -
  let ?s = "s\<lparr>crashOccurred := True, files := (files s)(mach_path c \<mapsto> file_contents s (mach_path c))\<rparr>"
  let ?f = "\<lparr>needComma = False, collectionDepth = 0, written = file_contents s (mach_path c)\<rparr>"
  have open_file: "FIRCLSFileInitWithPath E (mach_path c) (s\<lparr>crashOccurred := True\<rparr>) = Some (?f, ?s)"
    using file_opened [OF assms(4), of "s\<lparr>crashOccurred := True\<rparr>"] by (simp add: file_contents_def)
  have between: "between_sections ?f" by (simp add: between_sections_def)
  let ?f1 = "add_lines [(''mach_exception'', mach_json M c msg cs)] ?f"
  have sec: "FIRCLSFileWriteSectionEnd (write_collection (mach_json M c msg cs) (FIRCLSFileWriteSectionStart ''mach_exception'' ?f)) = ?f1"
    by (rule section_added [OF _ between]) (simp add: mach_json_def Let_def list_all_iff)
  obtain m xs names where h: "FIRCLSHandler E (thread_name msg) 0 ?f1 ?s =
      Some (add_lines (report_sections E p vs selector xs names) ?f1,
        resume_all E p (FIRCLSCreateCrashedMarkerFile E ((suspend_all E p ?s)\<lparr>space := m\<rparr>)))"
    "quotes_messages E (space s) xs" "quotes_labels E p m names"
    using handler_lines [of E p ?s vs selector, OF _ assms(7), of ?f1] assms(6) between by auto
  define s' where "s' = FIRCLSFileClose (mach_path c) (add_lines (report_sections E p vs selector xs names) ?f1)
    (resume_all E p (FIRCLSCreateCrashedMarkerFile E ((suspend_all E p ?s)\<lparr>space := m\<rparr>)))"
  have "FIRCLSMachExceptionRecord M c msg s = Some (False, True, s')"
    using assms(2,3,5) open_file h(1) sec
    by (simp add: FIRCLSMachExceptionRecord_def FIRCLSContextMarkAndCheckIfCrashed_def mach_json_def s'_def Let_def
        codes_written split_def assms(1) [symmetric])
  moreover have "crashOccurred s'" by (simp add: s'_def FIRCLSFileClose_def marker_kept)
  moreover have "files s' (mach_path c) = Some (file_contents s (mach_path c) @ concat (map section_line
      ((''mach_exception'', mach_json M c msg cs) # report_sections E p vs selector xs names)))"
    by (simp add: s'_def FIRCLSFileClose_def add_lines_def)
  moreover have "space s' = m" by (simp add: s'_def FIRCLSFileClose_def marker_kept)
  ultimately show ?thesis using h(2,3) by blast
qed

section \<open>The server\<close>

lemma foreign_messages:
  assumes "\<And>m. m \<in> set others \<Longrightarrow> task_name m \<noteq> mach_task_self M" "kern_results (mach y) = []"
  shows "FIRCLSMachExceptionServer M c sc (map Some others @ msgs) y =
    FIRCLSMachExceptionServer M c sc msgs (y\<lparr>mach := (mach y)\<lparr>sent := sent (mach y) @ map (\<lambda>m. make_reply m KERN_FAILURE) others\<rparr>\<rparr>)"
  using assms
proof (induction others arbitrary: y)
  case (Cons m others)
  let ?y = "y\<lparr>mach := (mach y)\<lparr>sent := sent (mach y) @ [make_reply m KERN_FAILURE]\<rparr>\<rparr>"
  have "FIRCLSMachExceptionServer M c sc (map Some (m # others) @ msgs) y = FIRCLSMachExceptionServer M c sc (map Some others @ msgs) ?y"
    using Cons.prems by (simp add: FIRCLSMachExceptionDispatchMessage_def FIRCLSMachExceptionReply_def)
  also have "\<dots> = FIRCLSMachExceptionServer M c sc msgs
      (?y\<lparr>mach := (mach ?y)\<lparr>sent := sent (mach ?y) @ map (\<lambda>m. make_reply m KERN_FAILURE) others\<rparr>\<rparr>)"
    by (rule Cons.IH) (use Cons.prems in auto)
  finally show ?case by simp
qed simp

section \<open>One report per process\<close>

text \<open>Signals and messages, handled one after another.\<close>

inductive handler_step :: "'r mach_env \<Rightarrow> mach_context \<Rightarrow> signal_context \<Rightarrow> system \<Rightarrow> system \<Rightarrow> bool"
  for M :: "'r mach_env" and c :: mach_context and sc :: signal_context where
  signal: "FIRCLSSignalHandler (signal_env_of M) sc info uap (sigs y) (crash y) = Some (exits, g, s) \<Longrightarrow>
    handler_step M c sc y (y\<lparr>sigs := g, crash := s\<rparr>)"
| message: "FIRCLSMachExceptionDispatchMessage M c sc msg y = Some (exits, kr, y') \<Longrightarrow> handler_step M c sc y y'"

inductive_cases handler_stepE: "handler_step M c sc y y'"

lemma signal_after_crash:
  assumes "FIRCLSSignalHandler X sc info uap g s = Some (exits, g', s')" "crashOccurred s"
    and "context_initialized (loaded_images (crash_env_of X))"
  shows "s' = s"
  using assms
  by (auto simp: FIRCLSSignalHandler_def FIRCLSSignalRecordSignal_def FIRCLSContextMarkAndCheckIfCrashed_def Let_def bind_Some_iff
      split: if_splits)

lemma message_after_crash:
  assumes "FIRCLSMachExceptionDispatchMessage M c sc msg y = Some (exits, kr, y')" "crashOccurred (crash y)"
    and "context_initialized (loaded_images (crash_env_of (signal_env_of M)))"
  shows "crash y' = crash y"
  using assms
  by (auto simp: FIRCLSMachExceptionDispatchMessage_def FIRCLSMachExceptionRecord_def FIRCLSContextMarkAndCheckIfCrashed_def
      Let_def bind_Some_iff split: if_splits prod.splits)

lemma handled_after_crash:
  assumes "handler_step M c sc y y'" "crashOccurred (crash y)"
    and "context_initialized (loaded_images (crash_env_of (signal_env_of M)))"
  shows "crash y' = crash y"
  using assms by (elim handler_stepE) (auto dest: signal_after_crash message_after_crash)

interpretation reports: once_only "handler_step M c sc"
    "\<lambda>y. crashOccurred (crash y) \<and> context_initialized (loaded_images (crash_env_of (signal_env_of M)))" crash
  for M c sc by unfold_locales (auto dest: handled_after_crash)

section \<open>Two threads at once\<close>

text \<open>The test and the assignment of \<open>FIRCLSContextMarkAndCheckIfCrashed\<close> are two accesses of the flag; run by two
  threads they can be interleaved.\<close>

datatype mark_pc = Testing | Setting | Done bool

fun mark_step :: "bool \<Rightarrow> mark_pc \<Rightarrow> bool \<times> mark_pc" where
  "mark_step flag Testing = (flag, if flag then Done True else Setting)"
| "mark_step flag Setting = (True, Done False)"
| "mark_step flag (Done b) = (flag, Done b)"

inductive marks :: "bool \<times> mark_pc list \<Rightarrow> bool \<times> mark_pc list \<Rightarrow> bool" where
  "i < length pcs \<Longrightarrow> mark_step flag (pcs ! i) = (flag', pc) \<Longrightarrow> marks (flag, pcs) (flag', pcs[i := pc])"

text \<open>One thread alone computes the function of the sequential model.\<close>

lemma mark_sequential:
  assumes "context_initialized (loaded_images E)"
  shows "(let (flag, pc) = mark_step (crashOccurred s) Testing; (flag, pc) = mark_step flag pc in (pc, flag)) =
    (let (crashed, s') = FIRCLSContextMarkAndCheckIfCrashed E s in (Done crashed, crashOccurred s'))"
  using assms by (simp add: FIRCLSContextMarkAndCheckIfCrashed_def)

section \<open>Properties\<close>

text \<open>C5. The server refuses the messages about other tasks and records the first exception of this one: the exception ports
  are given back, the file gets the lines of the report, and the reply says that the exception was handled.\<close>

theorem mach_report:
  assumes "\<And>m. m \<in> set others \<Longrightarrow> task_name m \<noteq> mach_task_self M" "task_name msg = mach_task_self M"
    and "kern_results (mach y) = []" "call_results (sigs y) = []" "on_sigstack (sigs y) \<Longrightarrow> stack_sp (originalStack sc) = 0"
    and "groups_ports (group_ports M)" "original_ports c = group_ports M act (mach_mask c)"
    and "E = crash_env_of (signal_env_of M)" "context_initialized (loaded_images E)" "\<not> crashOccurred (crash y)"
    and "\<not> cannot_open E (mach_path c)" "message_codes msg = Some cs"
    and "recordable E p (space (crash y)) vs selector"
    and "p = snd (FIRCLSProcessInit (kernel_of E) (mach_thread_self E) (thread_name msg) 0)"
  shows "\<exists>xs names y'. FIRCLSMachExceptionServer M c sc (map Some (others @ [msg])) y = Some (Waiting, y') \<and>
    sent (mach y') = sent (mach y) @ map (\<lambda>m. make_reply m KERN_FAILURE) others @ [make_reply msg KERN_SUCCESS] \<and>
    (\<forall>t. bit (mach_mask c) t \<longrightarrow> exc_port (exc_actions (mach y') t) = exc_port (act t)) \<and>
    crashOccurred (crash y') \<and>
    files (crash y') (mach_path c) = Some (file_contents (crash y) (mach_path c) @ concat (map section_line
      ((''mach_exception'', mach_json M c msg cs) # report_sections E p vs selector xs names))) \<and>
    quotes_messages E (space (crash y)) xs \<and> quotes_labels E p (space (crash y')) names"
proof -
  let ?k = "(mach y)\<lparr>sent := sent (mach y) @ map (\<lambda>m. make_reply m KERN_FAILURE) others\<rparr>"
  have k: "kern_results ?k = []" using assms(3) by simp
  obtain d where d: "FIRCLSMachExceptionUnregister M (original_ports c) (mach_mask c) ?k = (True, ?k\<lparr>exc_actions := d\<rparr>)"
    "\<forall>t. bit (mach_mask c) t \<longrightarrow> exc_port (d t) = exc_port (act t)"
    using unregistered [OF assms(6,7) k] by blast
  obtain e where e: "FIRCLSSignalSafeInstallPreexistingHandlers (signal_env_of M) sc (sigs y) = (True, (sigs y)\<lparr>dispositions := e,
      sigstack := if stack_sp (originalStack sc) \<noteq> 0 then originalStack sc else sigstack (sigs y)\<rparr>)"
    using preexisting_installed [OF assms(4), of sc "signal_env_of M"] assms(5) by blast
  obtain xs names s' where s': "FIRCLSMachExceptionRecord M c msg (crash y) = Some (False, True, s')" "crashOccurred s'"
    "files s' (mach_path c) = Some (file_contents (crash y) (mach_path c) @ concat (map section_line
      ((''mach_exception'', mach_json M c msg cs) # report_sections E p vs selector xs names)))"
    "quotes_messages E (space (crash y)) xs" "quotes_labels E p (space s') names"
    using record_exception_lines [OF assms(8-14)] by blast
  have "FIRCLSMachExceptionServer M c sc (map Some others @ [Some msg]) y = Some (Waiting, y\<lparr>mach := ?k\<lparr>exc_actions := d,
      sent := sent ?k @ [make_reply msg KERN_SUCCESS]\<rparr>, sigs := (sigs y)\<lparr>dispositions := e,
      sigstack := if stack_sp (originalStack sc) \<noteq> 0 then originalStack sc else sigstack (sigs y)\<rparr>, crash := s'\<rparr>)"
    using foreign_messages [where c = c and sc = sc and msgs = "[Some msg]", OF assms(1,3)] assms(2,3) d(1) e s'(1)
    by (simp add: FIRCLSMachExceptionDispatchMessage_def FIRCLSMachExceptionReply_def KERN_SUCCESS_def)
  then show ?thesis using d(2) s'(2-) by fastforce
qed

text \<open>C26. Registration takes exactly the types bad access, bad instruction, arithmetic, breakpoint and guard that are not
  ignored; unregistration gives each its former port, with the former behavior if there was one, and touches no
  other type.\<close>

theorem ports_restored:
  assumes "FIRCLSMachExceptionRegister M ignoreMask c k = (ok, c', k')" "kern_results k = []" "groups_ports (group_ports M)"
    and "FIRCLSMachExceptionUnregister M (original_ports c') (mach_mask c') h = (ok', h')" "kern_results h = []"
  shows "ok \<and> ok' \<and> (if t \<in> {EXC_BAD_ACCESS, EXC_BAD_INSTRUCTION, EXC_ARITHMETIC, EXC_BREAKPOINT, EXC_GUARD} \<and> \<not> bit ignoreMask t
      then exc_port (exc_actions k' t) = fresh_port M \<and> exc_port (exc_actions h' t) = exc_port (exc_actions k t) \<and>
        (exc_port (exc_actions k t) \<noteq> MACH_PORT_NULL \<longrightarrow> exc_actions h' t = exc_actions k t)
      else exc_actions k' t = exc_actions k t \<and> exc_actions h' t = exc_actions h t)"
proof -
  note r = registered [OF assms(1,2)]
  have bits: "bit (mach_mask c') t \<longleftrightarrow> t \<in> {EXC_BAD_ACCESS, EXC_BAD_INSTRUCTION, EXC_ARITHMETIC, EXC_BREAKPOINT, EXC_GUARD} \<and>
      \<not> bit ignoreMask t"
    by (simp add: r(2) mask_bits exception_types)
  obtain d where "FIRCLSMachExceptionUnregister M (original_ports c') (mach_mask c') h = (True, h\<lparr>exc_actions := d\<rparr>)"
    "(bit (mach_mask c') t \<longrightarrow> exc_port (d t) = exc_port (exc_actions k t) \<and>
        (exc_port (exc_actions k t) \<noteq> MACH_PORT_NULL \<longrightarrow> d t = exc_actions k t)) \<and>
      (\<not> bit (mach_mask c') t \<longrightarrow> d t = exc_actions h t)"
    using unregistered [OF assms(3) r(3) assms(5)] by blast
  then show ?thesis unfolding bits [symmetric] using assms(4) r(1) r(6) [of t] by simp
qed

text \<open>C14. One report per process: once a crash is marked, no sequence of further signals and exception messages changes
  the files, the memory, the marks or the threads; every signal makes the process exit.\<close>

theorem no_second_report:
  assumes "(handler_step M c sc)\<^sup>*\<^sup>* y y'" "crashOccurred (crash y)"
    and "context_initialized (loaded_images (crash_env_of (signal_env_of M)))" "readonly_valid (signal_env_of M)"
  shows "crash y' = crash y \<and>
    (\<exists>g. FIRCLSSignalHandler (signal_env_of M) sc info uap (sigs y') (crash y') = Some (True, g, crash y'))"
  using reports.events_kept [OF assms(1)] assms(2-) second_signal_exits by fastforce

text \<open>The mark is tested and set in two accesses: two threads that crash at the same time can both pass the test,
  and both record.\<close>

theorem both_threads_record: "marks\<^sup>*\<^sup>* (False, [Testing, Testing]) (True, [Done False, Done False])"
proof -
  have "marks (False, [Testing, Testing]) (False, [Setting, Testing])"
    using marks.intros [of 0 "[Testing, Testing]" False False Setting] by simp
  moreover have "marks (False, [Setting, Testing]) (False, [Setting, Setting])"
    using marks.intros [of 1 "[Setting, Testing]" False False Setting] by simp
  moreover have "marks (False, [Setting, Setting]) (True, [Done False, Setting])"
    using marks.intros [of 0 "[Setting, Setting]" False True "Done False"] by simp
  moreover have "marks (True, [Done False, Setting]) (True, [Done False, Done False])"
    using marks.intros [of 1 "[Done False, Setting]" True True "Done False"] by simp
  ultimately show ?thesis by (meson rtranclp.rtrancl_into_rtrancl rtranclp.rtrancl_refl)
qed

section \<open>Witnesses\<close>

text \<open>A kernel that lists every type by itself.\<close>

definition listing :: "(nat \<Rightarrow> exc_action) \<Rightarrow> u32 \<Rightarrow> (u32 \<times> exc_action) list" where
  "listing act types = map (\<lambda>t. (exc_mask t, act t)) (filter (bit types) [0..<32])"

lemma groups_listing: "groups_ports listing"
  unfolding groups_ports_def
proof (intro allI conjI ballI impI)
  fix act types p t
  assume p: "p \<in> set (listing act types)" and t: "bit (fst p) t"
  from p obtain u where "p = (exc_mask u, act u)" "bit types u" "u < 32" by (auto simp: listing_def)
  then show "bit types t" "act t = snd p" using t by (auto simp: bit_exc_mask)
next
  fix act :: "nat \<Rightarrow> exc_action" and types :: u32 and t
  assume t: "bit types t"
  then have "t < 32" using bit_imp_le_length by fastforce
  then show "\<exists>p \<in> set (listing act types). bit (fst p) t"
    using t by (intro bexI [of _ "(exc_mask t, act t)"]) (auto simp: listing_def bit_exc_mask)
qed

definition fault_mach_env :: "arm_thread mach_env" where
  "fault_mach_env = \<lparr>signal_env_of = fault_signal_env, mach_task_self = 0x107, fresh_port = 0x1003, group_ports = listing,
     thread_state_none = 5, cpu_x86 = False\<rparr>"

definition fault_mach :: mach_state where
  "fault_mach = \<lparr>exc_actions = \<lambda>t. \<lparr>exc_port = if t = EXC_BAD_ACCESS then 0x55 else 0, exc_behavior = 1, exc_flavor = 5\<rparr>,
     receive_rights = [], send_rights = [], kern_results = [], server_started = False, sent = []\<rparr>"

definition fault_message :: mach_message where
  "fault_message = \<lparr>msgh_bits = 0x1112, msgh_remote_port = 0x2003, msgh_id = 2405, thread_name = 0x203, task_name = 0x107,
     exception = 1, codeCnt = 2, codes = [1, 0xDEAD0]\<rparr>"

definition fault_mach_context :: mach_context where
  "fault_mach_context = \<lparr>mach_port = 0x1003, mach_path = ''mach'', mach_mask = FIRCLSMachExceptionMask,
     original_ports = listing (exc_actions fault_mach) FIRCLSMachExceptionMask\<rparr>"

definition fault_system :: system where
  "fault_system = \<lparr>mach = fault_mach, sigs = fault_signals, crash = fault_state\<rparr>"

lemma mach_report_witness:
  "\<exists>xs names y'. FIRCLSMachExceptionServer fault_mach_env fault_mach_context fault_context
      (map Some [fault_message\<lparr>task_name := 0x99\<rparr>, fault_message]) fault_system = Some (Waiting, y') \<and>
    map retCode (sent (mach y')) = [KERN_FAILURE, KERN_SUCCESS] \<and>
    exc_port (exc_actions (mach y') EXC_BAD_ACCESS) = 0x55 \<and>
    files (crash y') ''mach'' = Some (concat (map section_line
      ((''mach_exception'', mach_json fault_mach_env fault_mach_context fault_message [1, 0xDEAD0]) #
       report_sections fault_env (fault_process 0x203) [fault_trace 0x203] (Some []) xs names)))"
proof -
  have g: "groups_ports (group_ports fault_mach_env)" by (simp add: fault_mach_env_def groups_listing)
  have o: "original_ports fault_mach_context = group_ports fault_mach_env (exc_actions fault_mach) (mach_mask fault_mach_context)"
    by (simp add: fault_mach_context_def fault_mach_env_def)
  have e: "fault_env = crash_env_of (signal_env_of fault_mach_env)" by (simp add: fault_mach_env_def fault_ready)
  have cs: "message_codes fault_message = Some [1, 0xDEAD0]" by (simp add: message_codes_def fault_message_def)
  have p: "fault_process 0x203 = snd (FIRCLSProcessInit (kernel_of fault_env) (mach_thread_self fault_env) (thread_name fault_message) 0)"
    using fault_processes [of "0x203"] by (simp add: fault_message_def)
  have r: "recordable fault_env (fault_process 0x203) (space (crash fault_system)) [fault_trace 0x203] (Some [])"
    using fault_recordable [of "0x203"] by (simp add: fault_system_def fault_ready)
  have b: "bit (mach_mask fault_mach_context) EXC_BAD_ACCESS"
    using mask_bits [of 0 EXC_BAD_ACCESS] by (simp add: fault_mach_context_def exception_types)
  have m: "m \<in> set [fault_message\<lparr>task_name := 0x99\<rparr>] \<Longrightarrow> task_name m \<noteq> mach_task_self fault_mach_env"
    "task_name fault_message = mach_task_self fault_mach_env" for m
    by (auto simp: fault_mach_env_def fault_message_def)
  have q: "kern_results (mach fault_system) = []" "call_results (sigs fault_system) = []"
    "on_sigstack (sigs fault_system) \<Longrightarrow> stack_sp (originalStack fault_context) = 0" "\<not> crashOccurred (crash fault_system)"
    "file_contents (crash fault_system) path = []" "sent (mach fault_system) = []" for path
    by (simp_all add: fault_system_def fault_mach_def fault_signals_def fault_context_def fault_ready)
  obtain xs names y' where y': "FIRCLSMachExceptionServer fault_mach_env fault_mach_context fault_context
      (map Some ([fault_message\<lparr>task_name := 0x99\<rparr>] @ [fault_message])) fault_system = Some (Waiting, y')"
    "sent (mach y') = sent (mach fault_system) @ map (\<lambda>m. make_reply m KERN_FAILURE) [fault_message\<lparr>task_name := 0x99\<rparr>] @
       [make_reply fault_message KERN_SUCCESS]"
    "\<forall>t. bit (mach_mask fault_mach_context) t \<longrightarrow> exc_port (exc_actions (mach y') t) = exc_port (exc_actions fault_mach t)"
    "files (crash y') (mach_path fault_mach_context) = Some (file_contents (crash fault_system) (mach_path fault_mach_context) @
      concat (map section_line
      ((''mach_exception'', mach_json fault_mach_env fault_mach_context fault_message [1, 0xDEAD0]) #
       report_sections fault_env (fault_process 0x203) [fault_trace 0x203] (Some []) xs names)))"
    using mach_report [OF m q(1,2,3) g o e fault_ready(3) q(4) fault_ready(4) cs r p] by blast
  have "exc_port (exc_actions (mach y') EXC_BAD_ACCESS) = 0x55" using y'(3) b by (simp add: fault_mach_def)
  moreover have "map retCode (sent (mach y')) = [KERN_FAILURE, KERN_SUCCESS]" by (simp add: y'(2) q make_reply_def)
  moreover have "mach_path fault_mach_context = ''mach''" by (simp add: fault_mach_context_def)
  ultimately show ?thesis using y'(1,4) q(5) by (intro exI [of _ xs] exI [of _ names] exI [of _ y']) simp
qed

lemma ports_restored_witness:
  "let (ok, c, k) = FIRCLSMachExceptionRegister fault_mach_env 0 fault_mach_context fault_mach;
       (ok', h) = FIRCLSMachExceptionUnregister fault_mach_env (original_ports c) (mach_mask c) k in
   ok \<and> ok' \<and> exc_port (exc_actions k EXC_GUARD) = 0x1003 \<and> exc_port (exc_actions h EXC_GUARD) = MACH_PORT_NULL"
proof -
  obtain ok c k where r: "FIRCLSMachExceptionRegister fault_mach_env 0 fault_mach_context fault_mach = (ok, c, k)"
    by (metis prod.collapse)
  obtain ok' h where u: "FIRCLSMachExceptionUnregister fault_mach_env (original_ports c) (mach_mask c) k = (ok', h)"
    by (metis prod.collapse)
  have "kern_results fault_mach = []" by (simp add: fault_mach_def)
  then have "kern_results k = []" using registered(5) [OF r] by simp
  then show ?thesis
    using ports_restored [OF r _ _ u, of EXC_GUARD] r u groups_listing
    by (simp add: fault_mach_env_def fault_mach_def exception_types MACH_PORT_NULL_def)
qed

lemma no_second_report_witness:
  "\<exists>y'. (handler_step fault_mach_env fault_mach_context fault_context)\<^sup>*\<^sup>*
      (fault_system\<lparr>crash := fault_state\<lparr>crashOccurred := True\<rparr>\<rparr>) y' \<and>
    crash y' = fault_state\<lparr>crashOccurred := True\<rparr>"
proof -
  let ?s = "fault_state\<lparr>crashOccurred := True\<rparr>"
  let ?y = "fault_system\<lparr>crash := ?s\<rparr>"
  have i: "context_initialized (loaded_images (crash_env_of (signal_env_of fault_mach_env)))" "readonly_valid (signal_env_of fault_mach_env)"
    by (simp_all add: fault_mach_env_def fault_ready)
  obtain g where g: "FIRCLSSignalHandler (signal_env_of fault_mach_env) fault_context 0 0 (sigs ?y) (crash ?y) = Some (True, g, ?s)"
    using second_signal_exits [OF i(2,1), of ?s fault_context 0 0 "sigs ?y"] by auto
  then have run: "(handler_step fault_mach_env fault_mach_context fault_context)\<^sup>*\<^sup>* ?y (?y\<lparr>sigs := g, crash := ?s\<rparr>)"
    by (intro r_into_rtranclp handler_step.signal)
  have "crash (?y\<lparr>sigs := g, crash := ?s\<rparr>) = ?s" using no_second_report [OF run _ i] by simp
  then show ?thesis using run by (intro exI conjI) auto
qed

end
