(* ===== verification/Allocate.thy ===== *)
theory Allocate
  imports Task_Memory
begin

text \<open>
  The crash reporter's allocator: \<open>FIRCLSAllocate.c\<close>.  A region is bumped by a compare-and-swap, so
  that threads may allocate at the same time; the interleavings are sequences of atomic steps.  The
  system calls are the record \<open>vm\<close>: \<open>mmap\<close> and \<open>malloc\<close> give an address or nothing, \<open>mprotect\<close>
  whether it succeeded.
\<close>

record vm =
  page_size :: u64
  mmap :: "u64 \<Rightarrow> u64 option"
  mprotect :: "u64 \<Rightarrow> u64 \<Rightarrow> bool"
  malloc :: "u64 \<Rightarrow> u64"

record region =
  region_size :: u64
  start :: u64
  cursor :: u64

record allocator =
  buffer :: u64
  protectionEnabled :: bool
  writeableRegion :: region
  readableRegion :: region

datatype allocation_type = CLS_READONLY | CLS_READWRITE

text \<open>\<open>sizeof(FIRCLSAllocator)\<close>: a pointer, a padded flag and two regions of three words.\<close>

definition sizeof_allocator :: u64 where
  "sizeof_allocator = 64"

section \<open>One thread in the allocation loop\<close>

text \<open>Where a thread is: before reading the cursor, before the compare-and-swap with the cursor it
  read, or returned with an address.  The two atomic actions are the load of the cursor, with the
  check of the space left, and the compare-and-swap.\<close>

datatype loop_pc = Begin u64 | Swap u64 u64 | Returned u64

definition fits :: "region \<Rightarrow> u64 \<Rightarrow> u64 \<Rightarrow> bool" where
  "fits region originalCursor n \<longleftrightarrow> \<not> originalCursor - start region + n > region_size region"

fun loop_step :: "vm \<Rightarrow> loop_pc \<Rightarrow> region \<Rightarrow> loop_pc \<times> region" where
  "loop_step v (Begin n) region =
     (let originalCursor = cursor region in
      if \<not> fits region originalCursor n then (Returned (malloc v n), region)
      else (Swap n originalCursor, region))"
| "loop_step v (Swap n originalCursor) region =
     (let newCursor = originalCursor + n in
      if cursor region = originalCursor then (Returned originalCursor, region\<lparr>cursor := newCursor\<rparr>)
      else (Begin n, region))"
| "loop_step v (Returned p) region = (Returned p, region)"

text \<open>A call that no other thread disturbs.\<close>

definition FIRCLSAllocatorSafeAllocateFromRegion :: "vm \<Rightarrow> region \<Rightarrow> u64 \<Rightarrow> u64 \<times> region" where
  "FIRCLSAllocatorSafeAllocateFromRegion v region n =
     (case (let (pc, region) = loop_step v (Begin n) region in loop_step v pc region) of
        (Returned p, region) \<Rightarrow> (p, region)
      | (_, region) \<Rightarrow> (0, region))"

section \<open>The allocator\<close>

text \<open>The address of the allocator, inside the region that is to be protected, and its contents;
  \<^term>\<open>None\<close> is the null result and the outer \<^term>\<open>None\<close> a store through a null pointer.\<close>

definition round_to_pages :: "vm \<Rightarrow> u64 \<Rightarrow> u64" where
  "round_to_pages v space = (if space > 0 then (space div page_size v + 1) * page_size v else 0)"

definition FIRCLSAllocatorCreate :: "vm \<Rightarrow> u64 \<Rightarrow> u64 \<Rightarrow> (u64 \<times> allocator) option option" where
  "FIRCLSAllocatorCreate v writableSpace readableSpace =
     (let pageSize = page_size v;
          readableSpace = readableSpace + sizeof_allocator;
          writableSize = round_to_pages v writableSpace;
          readableSize = round_to_pages v readableSpace;
          allocationSize = writableSize + readableSize + pageSize * 3 in
      case mmap v allocationSize of None \<Rightarrow> Some None
      | Some buf \<Rightarrow>
          let writableStart = buf + pageSize;
              readableStart = buf + pageSize + writableSize + pageSize in
          if \<not> mprotect v buf pageSize then Some None
          else if \<not> mprotect v (buf + pageSize + writableSize) pageSize then Some None
          else if \<not> mprotect v (buf + pageSize + writableSize + pageSize + readableSize) pageSize then Some None
          else
            let (p, readable) = FIRCLSAllocatorSafeAllocateFromRegion v
                  \<lparr>region_size = readableSize, start = readableStart, cursor = readableStart\<rparr> sizeof_allocator in
            if p = 0 then None
            else Some (Some (p, \<lparr>buffer = buf, protectionEnabled = False,
              writeableRegion = \<lparr>region_size = writableSize, start = writableStart, cursor = writableStart\<rparr>,
              readableRegion = readable\<rparr>)))"

text \<open>The first argument is the allocator's address; \<open>protect\<close> sets the flag and returns the result of
  the protection of the readable region.\<close>

definition FIRCLSAllocatorProtect :: "vm \<Rightarrow> u64 \<Rightarrow> allocator \<Rightarrow> bool \<times> allocator" where
  "FIRCLSAllocatorProtect v p a =
     (if \<not> FIRCLSIsValidPointer p then (False, a)
      else if protectionEnabled a then (True, a)
      else
        let a = a\<lparr>protectionEnabled := True\<rparr>;
            address = buffer a + page_size v + region_size (writeableRegion a) + page_size v in
        (mprotect v address (region_size (readableRegion a)), a))"

definition FIRCLSAllocatorUnprotect :: "vm \<Rightarrow> u64 \<Rightarrow> allocator \<Rightarrow> bool \<times> allocator" where
  "FIRCLSAllocatorUnprotect v p a =
     (if p = 0 then (False, a)
      else
        let bufferSize = buffer a + page_size v + region_size (writeableRegion a) + page_size v +
              region_size (readableRegion a) + page_size v;
            a = a\<lparr>protectionEnabled := \<not> mprotect v (buffer a) bufferSize\<rparr> in
        (protectionEnabled a, a))"

text \<open>\<^term>\<open>None\<close> is the null allocator.\<close>

definition FIRCLSAllocatorSafeAllocate ::
    "vm \<Rightarrow> allocator option \<Rightarrow> u64 \<Rightarrow> allocation_type \<Rightarrow> u64 \<times> allocator option" where
  "FIRCLSAllocatorSafeAllocate v allocator n type =
     (case allocator of None \<Rightarrow> (malloc v n, None)
      | Some a \<Rightarrow>
          if protectionEnabled a then (malloc v n, Some a)
          else case type of
            CLS_READONLY \<Rightarrow>
              let (p, r) = FIRCLSAllocatorSafeAllocateFromRegion v (readableRegion a) n in
              (p, Some (a\<lparr>readableRegion := r\<rparr>))
          | CLS_READWRITE \<Rightarrow>
              let (p, r) = FIRCLSAllocatorSafeAllocateFromRegion v (writeableRegion a) n in
              (p, Some (a\<lparr>writeableRegion := r\<rparr>)))"

section \<open>Interleavings\<close>

text \<open>A machine is the region and the threads that allocate from it; a schedule names the thread that
  makes the next step.\<close>

type_synonym machine = "region \<times> loop_pc list"

definition machine_step :: "vm \<Rightarrow> nat \<Rightarrow> machine \<Rightarrow> machine" where
  "machine_step v i m =
     (if i < length (snd m) then
        let (pc, region) = loop_step v (snd m ! i) (fst m) in (region, (snd m)[i := pc])
      else m)"

definition run_schedule :: "vm \<Rightarrow> nat list \<Rightarrow> machine \<Rightarrow> machine" where
  "run_schedule v sched m = fold (machine_step v) sched m"

text \<open>Requests \<open>ns\<close> against a region that nothing has been allocated from.\<close>

definition requests :: "u64 \<Rightarrow> u64 \<Rightarrow> u64 list \<Rightarrow> machine" where
  "requests base space ns = (\<lparr>region_size = space, start = base, cursor = base\<rparr>, map Begin ns)"

section \<open>Allocations are disjoint\<close>

text \<open>What the machine keeps: the cursor only moves forward inside the region, a thread about to swap
  has room for its request behind the cursor it read, and what has been returned lies before the
  cursor.  \<open>within\<close> says that an address belongs to the region.\<close>

definition within :: "u64 \<Rightarrow> u64 \<Rightarrow> u64 \<Rightarrow> bool" where
  "within base space p \<longleftrightarrow> base \<le> p \<and> unat p < unat base + unat space"

definition thread_ok :: "u64 \<Rightarrow> u64 \<Rightarrow> region \<Rightarrow> u64 \<Rightarrow> loop_pc \<Rightarrow> bool" where
  "thread_ok base space r n pc = (case pc of
     Begin n' \<Rightarrow> n' = n
   | Swap n' c \<Rightarrow> n' = n \<and> base \<le> c \<and> unat c + unat n \<le> unat base + unat space
   | Returned p \<Rightarrow> within base space p \<longrightarrow> unat p + unat n \<le> unat (cursor r))"

definition apart :: "u64 \<Rightarrow> u64 \<Rightarrow> u64 \<Rightarrow> loop_pc \<Rightarrow> u64 \<Rightarrow> loop_pc \<Rightarrow> bool" where
  "apart base space n pc n' pc' \<longleftrightarrow> (\<forall>p p'. pc = Returned p \<longrightarrow> pc' = Returned p' \<longrightarrow>
     within base space p \<longrightarrow> within base space p' \<longrightarrow>
     unat p + unat n \<le> unat p' \<or> unat p' + unat n' \<le> unat p)"

definition machine_ok :: "u64 \<Rightarrow> u64 \<Rightarrow> u64 list \<Rightarrow> machine \<Rightarrow> bool" where
  "machine_ok base space ns m \<longleftrightarrow> (case m of (r, pcs) \<Rightarrow>
     start r = base \<and> region_size r = space \<and> base \<le> cursor r \<and>
     unat (cursor r) \<le> unat base + unat space \<and> length pcs = length ns \<and>
     (\<forall>i < length ns. thread_ok base space r (ns ! i) (pcs ! i)) \<and>
     (\<forall>i < length ns. \<forall>j < length ns. i \<noteq> j \<longrightarrow> apart base space (ns ! i) (pcs ! i) (ns ! j) (pcs ! j)))"

lemma fits_iff:
  assumes "start r = base" "region_size r = space" "base \<le> c" "unat c \<le> unat base + unat space"
    and "unat space + unat n < 2 ^ 64"
  shows "fits r c n \<longleftrightarrow> unat c + unat n \<le> unat base + unat space"
proof -
  have "unat (c - base) = unat c - unat base" using assms(3) by (rule unat_sub)
  moreover have "unat base \<le> unat c" using assms(3) by (simp add: word_le_nat_alt)
  ultimately have "unat (c - base + n) = unat c - unat base + unat n"
    using assms(4,5) by (simp add: unat_word_ariths)
  then show ?thesis using assms(1,2) \<open>unat base \<le> unat c\<close> by (auto simp: fits_def word_le_nat_alt word_less_nat_alt)
qed

text \<open>One step of a thread against what the others have.\<close>

lemma loop_step_ok:
  assumes "loop_step v pc r = (pc', r')" "thread_ok base space r n pc"
    and "start r = base" "region_size r = space" "base \<le> cursor r" "unat (cursor r) \<le> unat base + unat space"
    and "unat space + unat n < 2 ^ 64" "unat base + unat space < 2 ^ 64"
    and "\<And>n. \<not> within base space (malloc v n)"
  shows "thread_ok base space r' n pc' \<and> start r' = base \<and> region_size r' = space \<and> cursor r \<le> cursor r' \<and>
    unat (cursor r') \<le> unat base + unat space \<and>
    (\<forall>p. pc' = Returned p \<longrightarrow> pc \<noteq> pc' \<longrightarrow> within base space p \<longrightarrow> p = cursor r)"
proof (cases pc)
  case (Begin n')
  then show ?thesis using assms fits_iff [OF assms(3-7)]
    by (auto simp: thread_ok_def Let_def split: if_splits)
next
  case (Swap n' c)
  then have n: "n' = n" "base \<le> c" "unat c + unat n \<le> unat base + unat space"
    using assms(2) by (auto simp: thread_ok_def)
  then have u: "unat (c + n) = unat c + unat n" using assms(8) by (simp add: unat_word_ariths)
  show ?thesis
  proof (cases "cursor r = c")
    case True
    then show ?thesis using Swap assms n u by (auto simp: thread_ok_def Let_def word_le_nat_alt)
  qed (use Swap assms n in \<open>auto simp: thread_ok_def\<close>)
qed (use assms in \<open>auto simp: thread_ok_def\<close>)

lemma thread_ok_mono: "thread_ok base space r n pc \<Longrightarrow> cursor r \<le> cursor r' \<Longrightarrow> thread_ok base space r' n pc"
  by (auto simp: thread_ok_def word_le_nat_alt split: loop_pc.splits)

lemma machine_step_ok:
  assumes "machine_ok base space ns m" "\<forall>n \<in> set ns. unat space + unat n < 2 ^ 64"
    and "unat base + unat space < 2 ^ 64" "\<And>n. \<not> within base space (malloc v n)"
  shows "machine_ok base space ns (machine_step v i m)"
proof (cases "i < length (snd m)")
  case True
  obtain r pcs where m: "m = (r, pcs)" by fastforce
  obtain pc' r' where st: "loop_step v (pcs ! i) r = (pc', r')" by fastforce
  have ok: "start r = base" "region_size r = space" "base \<le> cursor r" "unat (cursor r) \<le> unat base + unat space"
    "length pcs = length ns" "\<And>j. j < length ns \<Longrightarrow> thread_ok base space r (ns ! j) (pcs ! j)"
    "\<And>j k. j < length ns \<Longrightarrow> k < length ns \<Longrightarrow> j \<noteq> k \<Longrightarrow> apart base space (ns ! j) (pcs ! j) (ns ! k) (pcs ! k)"
    using assms(1) by (auto simp: machine_ok_def m)
  have i: "i < length ns" using True m ok(5) by simp
  have "unat space + unat (ns ! i) < 2 ^ 64" using assms(2) i by simp
  note step = loop_step_ok [OF st ok(6) [OF i] ok(1-4) this assms(3,4)]
  have new: "apart base space (ns ! i) pc' (ns ! j) (pcs ! j)" if "j < length ns" "j \<noteq> i" for j
  proof (cases "pcs ! i = pc'")
    case True
    then show ?thesis using ok(7) [OF i that(1)] that(2) by auto
  next
    case False
    have old: "unat p' + unat (ns ! j) \<le> unat (cursor r)" if "pcs ! j = Returned p'" "within base space p'" for p'
      using ok(6) [OF \<open>j < length ns\<close>] that by (simp add: thread_ok_def)
    have "p = cursor r" if "pc' = Returned p" "within base space p" for p
      using step False that by blast
    with old show ?thesis unfolding apart_def by blast
  qed
  have sym: "apart base space n pc n' pc2 \<longleftrightarrow> apart base space n' pc2 n pc" for n pc n' pc2
    by (auto simp: apart_def)
  have apart': "apart base space (ns ! j) (pcs[i := pc'] ! j) (ns ! k) (pcs[i := pc'] ! k)"
    if "j < length ns" "k < length ns" "j \<noteq> k" for j k
  proof -
    have "apart base space (ns ! j) (pcs ! j) (ns ! i) pc'" if "j < length ns" "j \<noteq> i" for j
      using new [OF that] sym by blast
    then show ?thesis using that new ok(7) ok(5)
      by (cases "j = i"; cases "k = i") simp_all
  qed
  have thread': "thread_ok base space r' (ns ! j) (pcs[i := pc'] ! j)" if "j < length ns" for j
  proof -
    have "thread_ok base space r' (ns ! j) (pcs ! j)"
      using thread_ok_mono [OF ok(6) [OF that], of r'] step by blast
    then show ?thesis using step i ok(5) by (cases "j = i") simp_all
  qed
  have e: "machine_step v i m = (r', pcs[i := pc'])" using True by (simp add: machine_step_def m st)
  have "base \<le> cursor r'" using step ok(3) order_trans by blast
  then show ?thesis unfolding e machine_ok_def prod.case using step ok(5) thread' apart'
    by (intro conjI allI impI) simp_all
qed (simp add: machine_step_def assms(1))

lemma run_ok:
  assumes "machine_ok base space ns m" "\<forall>n \<in> set ns. unat space + unat n < 2 ^ 64"
    and "unat base + unat space < 2 ^ 64" "\<And>n. \<not> within base space (malloc v n)"
  shows "machine_ok base space ns (run_schedule v sched m)"
  using assms(1) unfolding run_schedule_def
  by (induction sched arbitrary: m) (simp_all add: machine_step_ok [OF _ assms(2-4)])

lemma requests_ok: "machine_ok base space ns (requests base space ns)"
  by (simp add: machine_ok_def requests_def thread_ok_def apart_def)

section \<open>The allocation loop ends\<close>

fun finished :: "loop_pc \<Rightarrow> bool" where
  "finished (Returned p) = True"
| "finished pc = False"

definition pending :: "nat \<Rightarrow> loop_pc list \<Rightarrow> nat set" where
  "pending i pcs = {j. j < length pcs \<and> j \<noteq> i \<and> \<not> finished (pcs ! j)}"

text \<open>How many steps thread \<open>i\<close> may still need: two for every other thread that can still win a
  compare-and-swap, and the rest of its own round.\<close>

definition rank :: "nat \<Rightarrow> machine \<Rightarrow> nat" where
  "rank i m = (case snd m ! i of
     Returned p \<Rightarrow> 0
   | Begin n \<Rightarrow> 2 + 2 * card (pending i (snd m))
   | Swap n c \<Rightarrow> (if c = cursor (fst m) then 1 else 3) + 2 * card (pending i (snd m)))"

lemma finite_pending [simp]: "finite (pending i pcs)"
  by (simp add: pending_def)

lemma rank_own:
  assumes "i < length (snd m)"
  shows "rank i (machine_step v i m) \<le> rank i m - 1"
proof -
  obtain r pcs where m: "m = (r, pcs)" by fastforce
  have p: "pending i (pcs[i := pc]) = pending i pcs" for pc
    by (auto simp: pending_def)
  show ?thesis using assms
    by (cases "pcs ! i") (auto simp: m rank_def machine_step_def Let_def p)
qed

lemma rank_other:
  assumes "j \<noteq> i" "i < length (snd m)"
  shows "rank i (machine_step v j m) \<le> rank i m"
proof (cases "j < length (snd m)")
  case True
  obtain r pcs where m: "m = (r, pcs)" by fastforce
  have j: "j < length pcs" "i < length pcs" using True assms(2) m by simp_all
  have sub: "pending i (pcs[j := pc]) \<subseteq> insert j (pending i pcs)" for pc
    by (auto simp: pending_def nth_list_update split: if_splits)
  have same: "pending i (pcs[j := pc]) = pending i pcs" if "finished pc = finished (pcs ! j)" for pc
    using that j by (auto simp: pending_def nth_list_update split: if_splits)
  have less: "card (pending i pcs) = Suc (card (pending i (pcs[j := pc])))" if "finished pc" "\<not> finished (pcs ! j)" for pc
  proof -
    have "pending i pcs = insert j (pending i (pcs[j := pc]))" "j \<notin> pending i (pcs[j := pc])"
      using that j assms(1) by (auto simp: pending_def nth_list_update split: if_splits)
    then show ?thesis by simp
  qed
  show ?thesis
  proof (cases "pcs ! j")
    case (Begin n)
    then show ?thesis using j assms(1) same [of "Swap n (cursor r)"] less [of "Returned (malloc v n)"]
      by (auto simp: m rank_def machine_step_def Let_def split: loop_pc.split)
  next
    case (Swap n c)
    then show ?thesis using j assms(1) same [of "Begin n"] less [of "Returned c"]
      by (auto simp: m rank_def machine_step_def Let_def split: loop_pc.split)
  next
    case (Returned p)
    then have "machine_step v j m = m" using j list_update_id [of pcs j] by (simp add: m machine_step_def)
    then show ?thesis by simp
  qed
qed (simp add: machine_step_def)

lemma machine_step_length [simp]: "length (snd (machine_step v i m)) = length (snd m)"
  by (cases m) (auto simp: machine_step_def split: prod.split)

lemma rank_run:
  "i < length (snd m) \<Longrightarrow> rank i (run_schedule v sched m) \<le> rank i m - count_list sched i"
proof (induction sched arbitrary: m)
  case (Cons j sched)
  have "rank i (run_schedule v (j # sched) m) \<le> rank i (machine_step v j m) - count_list sched i"
    using Cons.IH [of "machine_step v j m"] Cons.prems by (simp add: run_schedule_def)
  then show ?case
    using rank_own [OF Cons.prems, of v] rank_other [of j i m v, OF _ Cons.prems] by (cases "j = i") fastforce+
qed (simp add: run_schedule_def)

lemma rank_zero: "rank i m = 0 \<Longrightarrow> \<exists>p. snd m ! i = Returned p"
  by (auto simp: rank_def split: loop_pc.splits if_splits)

lemma rank_requests: "i < length ns \<Longrightarrow> rank i (requests base space ns) = 2 * length ns"
proof -
  assume i: "i < length ns"
  have "pending i (map Begin ns) = {..<length ns} - {i}" by (auto simp: pending_def)
  then have "card (pending i (map Begin ns)) = length ns - 1" using i by simp
  then show ?thesis using i by (simp add: rank_def requests_def)
qed

lemma run_length [simp]: "length (snd (run_schedule v sched m)) = length (snd m)"
  unfolding run_schedule_def by (induction sched arbitrary: m) simp_all

section \<open>The layout of the mapping\<close>

lemma div_page: "0 < g \<Longrightarrow> s div g * g \<le> s \<and> s < s div g * g + (g :: nat)"
  using div_mult_mod_eq [of s g] mod_less_divisor [of g s] by linarith

lemma unat_round:
  assumes "0 < page_size v" "unat s + unat (page_size v) < 2 ^ 64" "s > 0"
  shows "unat (round_to_pages v s) = (unat s div unat (page_size v) + 1) * unat (page_size v)"
    and "unat s \<le> unat (round_to_pages v s)" "unat (round_to_pages v s) \<le> unat s + unat (page_size v)"
proof -
  let ?s = "unat s" and ?g = "unat (page_size v)"
  have g: "0 < ?g" using assms(1) by (simp add: word_less_nat_alt)
  note le = div_page [OF g, of ?s]
  have "?s div ?g + 1 \<le> ?s + 1" by simp
  also have "\<dots> < 2 ^ 64" using assms(2) g by linarith
  finally have u: "unat (s div page_size v + 1) = ?s div ?g + 1"
    by (simp add: unat_word_ariths unat_div)
  have l: "(?s div ?g + 1) * ?g < 2 ^ 64" using le assms(2) unfolding add_mult_distrib by linarith
  show eq: "unat (round_to_pages v s) = (?s div ?g + 1) * ?g"
  proof -
    have "unat ((s div page_size v + 1) * page_size v) = unat (s div page_size v + 1) * ?g mod 2 ^ LENGTH(64)"
      by (rule unat_word_ariths)
    then have "unat ((s div page_size v + 1) * page_size v) = (?s div ?g + 1) * ?g"
      unfolding u using l mod_less by simp
    then show ?thesis using assms(3) by (simp add: round_to_pages_def)
  qed
  show "?s \<le> unat (round_to_pages v s)" "unat (round_to_pages v s) \<le> ?s + ?g"
    unfolding eq using le by simp_all
qed

lemma round_zero: "round_to_pages v 0 = 0"
  by (simp add: round_to_pages_def)

lemma fresh_allocation:
  assumes "fits \<lparr>region_size = s, start = b, cursor = b\<rparr> b n"
  shows "FIRCLSAllocatorSafeAllocateFromRegion v \<lparr>region_size = s, start = b, cursor = b\<rparr> n =
    (b, \<lparr>region_size = s, start = b, cursor = b + n\<rparr>)"
  using assms by (simp add: FIRCLSAllocatorSafeAllocateFromRegion_def Let_def)

section \<open>Properties\<close>

text \<open>C11. Threads that allocate from a region at the same time never get overlapping memory: under every
  interleaving, the blocks that have been returned from the region are pairwise disjoint and lie
  inside it, before the cursor.\<close>

theorem concurrent_allocations_disjoint:
  assumes "\<forall>n \<in> set ns. unat space + unat n < 2 ^ 64" "unat base + unat space < 2 ^ 64"
    and "\<And>n. \<not> within base space (malloc v n)"
    and "run_schedule v sched (requests base space ns) = (r, pcs)"
    and "i < length ns" "pcs ! i = Returned p" "within base space p"
  shows "unat p + unat (ns ! i) \<le> unat (cursor r) \<and> unat (cursor r) \<le> unat base + unat space \<and>
    (\<forall>j < length ns. \<forall>q. j \<noteq> i \<longrightarrow> pcs ! j = Returned q \<longrightarrow> within base space q \<longrightarrow>
      unat p + unat (ns ! i) \<le> unat q \<or> unat q + unat (ns ! j) \<le> unat p)"
proof -
  have "machine_ok base space ns (r, pcs)"
    using run_ok [OF requests_ok assms(1-3), of sched] assms(4) by simp
  then show ?thesis using assms(5-7) by (auto simp: machine_ok_def thread_ok_def apart_def)
qed

text \<open>C20. The allocation loop ends: whatever the other threads do, a call among \<open>n\<close> concurrent ones has
  returned after at most \<open>2 * n\<close> steps of its own.\<close>

theorem allocation_returns:
  assumes "i < length ns" "count_list sched i \<ge> 2 * length ns"
  shows "\<exists>p. snd (run_schedule v sched (requests base space ns)) ! i = Returned p"
  using rank_run [of i "requests base space ns" v sched] rank_requests [OF assms(1)] assms
  by (intro rank_zero) (simp add: requests_def)

text \<open>C36. The allocator lays out its one mapping as guard, writable region, guard, readable region,
  guard, and protects the three guards: both regions are whole pages and at least as large as asked
  for, they do not overlap each other or a guard, and the allocator itself is the first block of the
  readable region.\<close>

theorem create_layout:
  assumes "FIRCLSAllocatorCreate v w s = Some (Some (p, a))" "0 < page_size v"
    and "unat w + unat s + 64 + 5 * unat (page_size v) < 2 ^ 64"
    and "\<And>n b. mmap v n = Some b \<Longrightarrow> unat b + unat n < 2 ^ 64"
  defines "W \<equiv> writeableRegion a" and "R \<equiv> readableRegion a" and "page \<equiv> unat (page_size v)"
  shows "unat (start W) = unat (buffer a) + page \<and> cursor W = start W \<and>
    unat (start R) = unat (start W) + unat (region_size W) + page \<and>
    unat (start R) + unat (region_size R) + page < 2 ^ 64 \<and>
    page dvd unat (region_size W) \<and> page dvd unat (region_size R) \<and>
    unat w \<le> unat (region_size W) \<and> unat s + 64 \<le> unat (region_size R) \<and>
    p = start R \<and> unat (cursor R) = unat p + 64 \<and>
    mprotect v (buffer a) (page_size v) \<and> mprotect v (start W + region_size W) (page_size v) \<and>
    mprotect v (start R + region_size R) (page_size v)"
proof -
  have pg: "0 < page" using assms(2) by (simp add: page_def word_less_nat_alt)
  define ws where "ws = round_to_pages v w"
  define s' where "s' = s + sizeof_allocator"
  define rs where "rs = round_to_pages v s'"
  have s': "unat s' = unat s + 64" "s' > 0"
    using assms(3) by (simp_all add: s'_def sizeof_allocator_def unat_word_ariths word_less_nat_alt)
  have rs: "page dvd unat rs" "unat s + 64 \<le> unat rs" "unat rs \<le> unat s + 64 + page"
    using unat_round [of v s'] assms(2,3) s' by (simp_all add: rs_def page_def)
  have ws: "page dvd unat ws" "unat w \<le> unat ws" "unat ws \<le> unat w + page"
    using unat_round [of v w] assms(2,3) round_zero [of v]
    by (cases "w = 0"; simp add: ws_def page_def word_neq_0_conv [symmetric])+
  obtain b where b: "mmap v (ws + rs + page_size v * 3) = Some b"
    and g: "mprotect v b (page_size v)" "mprotect v (b + page_size v + ws) (page_size v)"
      "mprotect v (b + page_size v + ws + page_size v + rs) (page_size v)"
    and al: "FIRCLSAllocatorSafeAllocateFromRegion v \<lparr>region_size = rs,
        start = b + page_size v + ws + page_size v, cursor = b + page_size v + ws + page_size v\<rparr> sizeof_allocator =
        (p, readableRegion a)"
    and a: "buffer a = b" "writeableRegion a = \<lparr>region_size = ws, start = b + page_size v, cursor = b + page_size v\<rparr>"
    using assms(1) unfolding FIRCLSAllocatorCreate_def Let_def ws_def rs_def s'_def
    by (auto split: option.splits if_splits prod.splits)
  have "unat (ws + rs + page_size v * 3) = unat ws + unat rs + 3 * page"
    using assms(3) rs(3) ws(3) by (simp add: unat_word_ariths page_def)
  then have lim: "unat b + (unat ws + unat rs + 3 * page) < 2 ^ 64" using assms(4) [OF b] by simp
  have at: "unat (b + page_size v) = unat b + page" "unat (b + page_size v + ws) = unat b + page + unat ws"
    "unat (b + page_size v + ws + page_size v) = unat b + page + unat ws + page"
    using lim by (simp_all add: unat_word_ariths page_def)
  have "fits \<lparr>region_size = rs, start = b + page_size v + ws + page_size v,
      cursor = b + page_size v + ws + page_size v\<rparr> (b + page_size v + ws + page_size v) sizeof_allocator"
    using rs(2) by (simp add: fits_def sizeof_allocator_def word_less_nat_alt word_le_nat_alt)
  from fresh_allocation [OF this, of v] al have R: "p = b + page_size v + ws + page_size v"
    "R = \<lparr>region_size = rs, start = p, cursor = p + sizeof_allocator\<rparr>"
    by (auto simp: R_def)
  have "unat (p + sizeof_allocator) = unat p + 64"
    using lim at rs(2) R(1) by (simp add: unat_word_ariths sizeof_allocator_def)
  then show ?thesis using a g at lim R ws rs by (simp add: W_def add.assoc)
qed

section \<open>Witnesses\<close>

definition demo_vm :: vm where
  "demo_vm = \<lparr>page_size = 4096, mmap = (\<lambda>n. if n \<le> 0x100000 then Some 0x200000 else None),
     mprotect = (\<lambda>a n. True), malloc = (\<lambda>n. 0)\<rparr>"

text \<open>Two threads read the cursor, the first one wins, the second has to start again.\<close>

lemma demo_race:
  "run_schedule demo_vm [0, 1, 0, 1, 1, 1] (requests 0x1000 64 [16, 24]) =
    (\<lparr>region_size = 64, start = 0x1000, cursor = 0x1028\<rparr>, [Returned 0x1000, Returned 0x1010])"
  by (simp add: run_schedule_def requests_def machine_step_def fits_def demo_vm_def Let_def)

lemma concurrent_allocations_disjoint_witness:
  "unat (0x1000 :: u64) + unat (16 :: u64) \<le> unat (0x1010 :: u64) \<or>
   unat (0x1010 :: u64) + unat (24 :: u64) \<le> unat (0x1000 :: u64)"
  using concurrent_allocations_disjoint [of "[16, 24]" 64 "0x1000" demo_vm "[0, 1, 0, 1, 1, 1]"
      "\<lparr>region_size = 64, start = 0x1000, cursor = 0x1028\<rparr>" "[Returned 0x1000, Returned 0x1010]" 0 "0x1000"]
    demo_race
  by (auto simp: within_def demo_vm_def less_Suc_eq)

lemma allocation_returns_witness:
  "\<exists>p. snd (run_schedule demo_vm [0, 1, 0, 1, 1, 1] (requests 0x1000 64 [16, 24])) ! 1 = Returned p"
  using allocation_returns [of 1 "[16, 24]" "[0, 1, 0, 1, 1, 1]" demo_vm "0x1000" 64] by simp

lemma demo_create:
  "FIRCLSAllocatorCreate demo_vm 100 5000 = Some (Some (0x203000, \<lparr>buffer = 0x200000, protectionEnabled = False,
    writeableRegion = \<lparr>region_size = 4096, start = 0x201000, cursor = 0x201000\<rparr>,
    readableRegion = \<lparr>region_size = 8192, start = 0x203000, cursor = 0x203040\<rparr>\<rparr>))"
  by (simp add: FIRCLSAllocatorCreate_def FIRCLSAllocatorSafeAllocateFromRegion_def round_to_pages_def
      sizeof_allocator_def demo_vm_def fits_def Let_def)

lemma create_layout_witness:
  "unat (0x203000 :: u64) = unat (0x201000 :: u64) + unat (4096 :: u64) + 4096"
  using create_layout [OF demo_create]
  by (simp add: demo_vm_def word_less_nat_alt word_le_nat_alt split: if_splits)

text \<open>The result of \<open>FIRCLSAllocatorUnprotect\<close> says whether the protection is still on.\<close>

lemma unprotect_inverted:
  "p \<noteq> 0 \<Longrightarrow> fst (FIRCLSAllocatorUnprotect v p a) =
    (\<not> mprotect v (buffer a) (buffer a + page_size v + region_size (writeableRegion a) + page_size v +
      region_size (readableRegion a) + page_size v))"
  by (simp add: FIRCLSAllocatorUnprotect_def Let_def)

end
