(* ===== verification/Internal_Log.thy ===== *)
theory Internal_Log
  imports Task_Memory Report_File
begin

text \<open>
  The log of the crash reporter itself: \<open>FIRCLSSDKFileLog\<close> of \<open>FIRCLSInternalLogging.c\<close>, which may run inside a
  signal handler and therefore has its own formatting on top of \<open>write\<close>, and the number writers of \<open>FIRCLSFile.m\<close>
  it calls.  The descriptor is that of \<open>Report_File\<close>; a format and a string are C strings, without nulls.  The
  result is \<^term>\<open>None\<close> where \<open>va_arg\<close> takes an argument of another type or one that is not there.
\<close>

section \<open>Numbers on a descriptor\<close>

definition FIRCLSFileFDWriteUInt64 :: "u64 \<Rightarrow> bool \<Rightarrow> descriptor \<Rightarrow> descriptor" where
  "FIRCLSFileFDWriteUInt64 number hex d = snd (FIRCLSFileWriteWithRetries (FIRCLSFilePrepareUInt64 number hex) d)"

definition FIRCLSFileFDWriteInt64 :: "u64 \<Rightarrow> descriptor \<Rightarrow> descriptor" where
  "FIRCLSFileFDWriteInt64 number d =
     (let d = (if number <s 0 then snd (FIRCLSFileWriteWithRetries ''-'' d) else d);
          number = (if number <s 0 then number * (- 1) else number)
      in FIRCLSFileFDWriteUInt64 number False d)"

section \<open>The log call\<close>

text \<open>The variable arguments; taking one of another type is undefined.  A null string is \<^term>\<open>None\<close>.\<close>

datatype log_arg = Int32 u32 | Pointer u64 | Chars "string option"

fun log_conversion :: "char \<Rightarrow> log_arg list \<Rightarrow> descriptor \<Rightarrow> (log_arg list \<times> descriptor) option" where
  "log_conversion c args d =
     (if c = CHR ''d'' then (case args of Int32 v # args \<Rightarrow> Some (args, FIRCLSFileFDWriteInt64 (scast v) d) | _ \<Rightarrow> None)
      else if c = CHR ''u'' then (case args of Int32 v # args \<Rightarrow> Some (args, FIRCLSFileFDWriteUInt64 (ucast v) False d) | _ \<Rightarrow> None)
      else if c = CHR ''p'' then (case args of
        Pointer v # args \<Rightarrow> Some (args, FIRCLSFileFDWriteUInt64 v True (snd (sys_write ''0x'' d))) | _ \<Rightarrow> None)
      else if c = CHR ''s'' then (case args of
        Chars s # args \<Rightarrow> Some (args, snd (sys_write (case s of None \<Rightarrow> ''(null)'' | Some s \<Rightarrow> s) d)) | _ \<Rightarrow> None)
      else if c = CHR ''x'' then (case args of Int32 v # args \<Rightarrow> Some (args, FIRCLSFileFDWriteUInt64 (ucast v) True d) | _ \<Rightarrow> None)
      else Some (args, snd (sys_write [CHR ''%'', c] d)))"

text \<open>After a percent sign at the end of the format the terminator is taken for the conversion, and written.\<close>

fun log_loop :: "string \<Rightarrow> log_arg list \<Rightarrow> descriptor \<Rightarrow> descriptor option" where
  "log_loop [] args d = Some d"
| "log_loop (c # cs) args d =
     (if c \<noteq> CHR ''%'' then log_loop cs args (snd (sys_write [c] d))
      else case cs of
          [] \<Rightarrow> map_option snd (log_conversion (char_of (0 :: nat)) args d)
        | k # cs \<Rightarrow> (case log_conversion k args d of
              None \<Rightarrow> None
            | Some (args, d) \<Rightarrow> log_loop cs args d))"

text \<open>The writable part of the context, \<open>dispatch_once\<close> and the file; of the environment, whether both
  contexts exist, the path and the descriptor that opening it gives.\<close>

record internal_log =
  logFd :: int
  logLevel :: nat
  once_done :: bool
  log_descriptor :: descriptor

record log_env =
  contexts_exist :: bool
  logPath :: u64
  open_log :: int

definition FIRCLSSDKFileLog :: "log_env \<Rightarrow> nat \<Rightarrow> string \<Rightarrow> log_arg list \<Rightarrow> internal_log \<Rightarrow> internal_log option" where
  "FIRCLSSDKFileLog E level format args l =
     (if \<not> contexts_exist E then Some l
      else if \<not> FIRCLSIsValidPointer (logPath E) then Some l
      else if logLevel l > level then Some l
      else
        let l = (if once_done l then l
                 else (if logFd l = -1 then l\<lparr>logFd := open_log E\<rparr> else l)\<lparr>once_done := True\<rparr>) in
        if logFd l < 0 then Some l
        else map_option (\<lambda>d. l\<lparr>log_descriptor := d\<rparr>) (log_loop format args (log_descriptor l)))"

section \<open>What a format means\<close>

text \<open>A number in a base, most significant digit first; and the pieces of a format with the text each stands for.\<close>

fun radix :: "nat \<Rightarrow> nat \<Rightarrow> string" where
  "radix base n = (if base < 2 \<or> n < base then [digit_char (word_of_nat n)] else radix base (n div base) @ [digit_char (word_of_nat (n mod base))])"

declare radix.simps [simp del]

datatype log_piece =
    Literal_text string
  | Signed_number u32
  | Unsigned_number u32
  | Hex_number u32
  | Address_number u64
  | String_text "string option"
  | Unknown_conversion char

fun piece_ok :: "log_piece \<Rightarrow> bool" where
  "piece_ok (Literal_text s) \<longleftrightarrow> CHR ''%'' \<notin> set s \<and> no_null s"
| "piece_ok (Unknown_conversion c) \<longleftrightarrow> c \<notin> set ''dupsx'' \<and> c \<noteq> CHR 0x00"
| "piece_ok (String_text s) = pred_option no_null s"
| "piece_ok _ = True"

fun piece_format :: "log_piece \<Rightarrow> string" where
  "piece_format (Literal_text s) = s"
| "piece_format (Signed_number v) = ''%d''"
| "piece_format (Unsigned_number v) = ''%u''"
| "piece_format (Hex_number v) = ''%x''"
| "piece_format (Address_number v) = ''%p''"
| "piece_format (String_text s) = ''%s''"
| "piece_format (Unknown_conversion c) = [CHR ''%'', c]"

fun piece_args :: "log_piece \<Rightarrow> log_arg list" where
  "piece_args (Literal_text s) = []"
| "piece_args (Signed_number v) = [Int32 v]"
| "piece_args (Unsigned_number v) = [Int32 v]"
| "piece_args (Hex_number v) = [Int32 v]"
| "piece_args (Address_number v) = [Pointer v]"
| "piece_args (String_text s) = [Chars s]"
| "piece_args (Unknown_conversion c) = []"

fun piece_text :: "log_piece \<Rightarrow> string" where
  "piece_text (Literal_text s) = s"
| "piece_text (Signed_number v) = (if sint v < 0 then ''-'' else []) @ radix 10 (nat \<bar>sint v\<bar>)"
| "piece_text (Unsigned_number v) = radix 10 (unat v)"
| "piece_text (Hex_number v) = radix 16 (unat v)"
| "piece_text (Address_number v) = ''0x'' @ radix 16 (unat v)"
| "piece_text (String_text s) = (case s of None \<Rightarrow> ''(null)'' | Some s \<Rightarrow> s)"
| "piece_text (Unknown_conversion c) = [CHR ''%'', c]"

section \<open>The log call writes what its format means\<close>

lemma prepare_radix:
  assumes "base \<in> {10, 16}" "unat number < unat base ^ i" "0 < i"
  shows "prepare_loop base i number acc = radix (unat base) (unat number) @ acc"
  using assms(2,3)
proof (induction i arbitrary: number acc)
  case (Suc i)
  have base: "1 < unat base" "unat base \<noteq> 0" using assms(1) by auto
  have u: "unat (number mod base) = unat number mod unat base" "unat (number div base) = unat number div unat base"
    by (simp_all add: unat_mod_distrib unat_div_distrib)
  have d: "digit_char (number mod base) = digit_char (word_of_nat (unat number mod unat base))"
    by (simp add: u(1) [symmetric])
  show ?case
  proof (cases "unat number < unat base")
    case True
    then have "unat (number div base) = 0" by (simp add: u)
    then have "number div base = 0" by (simp add: unat_eq_0)
    then show ?thesis using True base by (simp add: d radix.simps [of _ "unat number"] Let_def)
  next
    case False
    then have "unat (number div base) \<noteq> 0" using base by (simp add: u div_eq_0_iff)
    then have n: "number div base > 0" using word_neq_0_conv [of "number div base"] by (auto simp: unat_eq_0)
    have i: "0 < i" using False Suc.prems(1) by (cases i) auto
    have "unat (number div base) < unat base ^ i"
      using Suc.prems(1) base by (simp add: u less_mult_imp_div_less mult.commute)
    from Suc.IH [OF this i] show ?thesis using False base n i
      by (simp add: d u radix.simps [of _ "unat number"] Let_def)
  qed
qed simp

lemma number_radix: "FIRCLSFilePrepareUInt64 n hex = radix (if hex then 16 else 10) (unat n)"
proof -
  have "unat n < 2 ^ 64" using unsigned_less [of n, where 'a = nat] by simp
  then have "unat n < unat (16 :: u64) ^ 20" "unat n < unat (10 :: u64) ^ 20" by simp_all
  then show ?thesis using prepare_radix [of 10 n 20 "[]"] prepare_radix [of 16 n 20 "[]"]
    by (simp add: FIRCLSFilePrepareUInt64_def)
qed

text \<open>A descriptor that takes everything.\<close>

definition appended :: "string \<Rightarrow> descriptor \<Rightarrow> descriptor" where
  "appended s d = d\<lparr>fd_data := fd_data d @ s\<rparr>"

lemma appended_simps [simp]: "write_results (appended s d) = write_results d" "appended t (appended s d) = appended (s @ t) d" "appended [] d = d"
  by (simp_all add: appended_def)

lemma write_appended: "write_results d = [] \<Longrightarrow> snd (sys_write s d) = appended s d"
  "write_results d = [] \<Longrightarrow> FIRCLSFileFDWriteUInt64 n hex d = appended (radix (if hex then 16 else 10) (unat n)) d"
  by (simp_all add: sys_write_def appended_def FIRCLSFileFDWriteUInt64_def write_all number_radix)

lemma signed_appended:
  assumes "write_results d = []"
  shows "FIRCLSFileFDWriteInt64 (scast (v :: u32)) d = appended (piece_text (Signed_number v)) d"
proof -
  have s: "sint (scast v :: u64) = sint v" by (simp add: sint_up_scast is_up)
  let ?x = "scast v :: u64"
  have r: "- (2 ^ 31) \<le> sint v" "sint v < 2 ^ 31" using sint_ge [of v] sint_lt [of v] by simp_all
  have u: "uint ?x = sint v mod 2 ^ 64" using uint_sint [of ?x] by (simp add: s take_bit_eq_mod)
  then have m: "uint (- ?x) = (- sint v) mod 2 ^ 64" by (simp add: uint_word_ariths mod_minus_eq)
  have "nat \<bar>sint v\<bar> = (if sint v < 0 then unat (?x * (- 1)) else unat ?x)"
    using u m r by (simp add: unat_eq_nat_uint)
  then show ?thesis using assms s
    by (auto simp: FIRCLSFileFDWriteInt64_def write_appended word_sless_alt FIRCLSFileFDWriteUInt64_def write_all number_radix appended_def Let_def)
qed

lemma plain_appended:
  assumes "CHR ''%'' \<notin> set s" "write_results d = []"
  shows "log_loop (s @ cs) args d = log_loop cs args (appended s d)"
  using assms by (induction s arbitrary: d) (auto simp: write_appended)

lemma piece_appended:
  assumes "piece_ok p" "write_results d = []"
  shows "log_loop (piece_format p @ cs) (piece_args p @ args) d = log_loop cs args (appended (piece_text p) d)"
  using assms plain_appended
  by (cases p) (auto simp: write_appended signed_appended unat_ucast_up del: piece_text.simps(2) split: option.split)

lemma pieces_appended:
  assumes "list_all piece_ok ps" "write_results d = []"
  shows "log_loop (concat (map piece_format ps) @ cs) (concat (map piece_args ps) @ args) d =
    log_loop cs args (appended (concat (map piece_text ps)) d)"
  using assms by (induction ps arbitrary: d) (simp_all add: piece_appended)

text \<open>C31. The log call prints what its format means: for a format made of literal text and the conversions it knows, a call
  at a sufficient level appends the text with the arguments printed in place, numbers in their base and sign; other
  conversions are printed as they are and take no argument.  The first such call opens the file; once that has failed
  nothing is ever written.  (The kernel takes every write whole.)\<close>

theorem log_call:
  assumes "list_all piece_ok ps" "write_results (log_descriptor l) = []" "contexts_exist E" "FIRCLSIsValidPointer (logPath E)"
    and "fd = (if \<not> once_done l \<and> logFd l = -1 then open_log E else logFd l)"
  shows "FIRCLSSDKFileLog E level (concat (map piece_format ps)) (concat (map piece_args ps)) l =
    Some (if logLevel l > level then l
      else l\<lparr>logFd := fd, once_done := True, log_descriptor :=
        (if fd < 0 then log_descriptor l else appended (concat (map piece_text ps)) (log_descriptor l))\<rparr>)"
  using assms pieces_appended [OF assms(1,2), of "[]" "[]"] by (simp add: FIRCLSSDKFileLog_def Let_def)

text \<open>Length modifiers are not known: the line that the exception server logs has the conversions of the codes instead of
  their values.\<close>

lemma exception_codes_not_logged:
  assumes "write_results d = []"
  shows "log_loop ''Mach exception: 0x%x, count: %d, code: 0x%llx 0x%llx'' [Int32 e, Int32 n, Pointer a, Pointer b] d =
    Some (appended (''Mach exception: 0x'' @ piece_text (Hex_number e) @ '', count: '' @ piece_text (Signed_number n) @ '', code: 0x%llx 0x%llx'') d)"
  using pieces_appended [OF _ assms, of "[Literal_text ''Mach exception: 0x'', Hex_number e, Literal_text '', count: '', Signed_number n, Literal_text '', code: 0x'', Unknown_conversion (CHR ''l''),
      Literal_text ''lx 0x'', Unknown_conversion (CHR ''l''), Literal_text ''lx'']" "[]" "[Pointer a, Pointer b]"]
  by (simp add: no_null_def del: piece_text.simps(2,4))

text \<open>After a modifier the arguments no longer match: here \<open>%d\<close> takes the argument of \<open>%ld\<close>.\<close>

lemma modifier_shifts_arguments:
  "write_results d = [] \<Longrightarrow> log_loop ''%ld%d'' [Pointer a, Int32 n] d = None"
  by simp

section \<open>Examples\<close>

definition demo_log :: internal_log where
  "demo_log = \<lparr>logFd = -1, logLevel = 3, once_done = False, log_descriptor = \<lparr>fd_data = [], write_results = []\<rparr>\<rparr>"

lemma example_chars: "char_of (55 :: nat) = CHR ''7''" "char_of (98 :: nat) = CHR ''b''" "char_of (101 :: nat) = CHR ''e''"
  "char_of (102 :: nat) = CHR ''f''"
  by (simp_all add: char_of_def bit_simps)

lemma log_call_witness:
  "map_option (\<lambda>l. fd_data (log_descriptor l)) (FIRCLSSDKFileLog \<lparr>contexts_exist = True, logPath = 0x5000, open_log = 4\<rparr> 3
     ''thread %d at %p'' [Int32 (- 7), Pointer 0xBEEF] demo_log) = Some ''thread -7 at 0xbeef''"
  using log_call [of "[Literal_text ''thread '', Signed_number (- 7), Literal_text '' at '', Address_number 0xBEEF]" demo_log
      "\<lparr>contexts_exist = True, logPath = 0x5000, open_log = 4\<rparr>" 4 3]
  by (simp add: demo_log_def FIRCLSIsValidPointer_def no_null_def appended_def radix.simps digit_char_def example_chars)

end
