(* ===== verification/Pb_Input.thy ===== *)
theory Pb_Input
  imports Task_Memory
begin

text \<open>
  The input streams of nanopb (\<open>pb_decode.c\<close>), as the pod builds it: callbacks, error messages and
  64-bit integers.  A stream's callback is a value of the record \<open>pb_source\<close> beside the stream.  The
  outer option is a fault in a callback.  The locale \<open>pb_input\<close> is the contract of a callback, the
  buffer its interpretation.
\<close>

section \<open>Input\<close>

record 'st pb_istream =
  istate :: 'st
  bytes_left :: u64
  ierrmsg :: "string option"

text \<open>A callback gets the stream, whether there is a destination, and a count; it returns its status,
  the bytes it stored and the stream.\<close>

record 'st pb_source =
  icallback :: "'st pb_istream \<Rightarrow> bool \<Rightarrow> u64 \<Rightarrow> (bool \<times> byte list \<times> 'st pb_istream) option"
  is_buf_read :: bool

definition buf_read :: "task \<Rightarrow> u64 pb_istream \<Rightarrow> bool \<Rightarrow> u64 \<Rightarrow> (bool \<times> byte list \<times> u64 pb_istream) option" where
  "buf_read t stream buf count =
     (let source = istate stream; stream = stream\<lparr>istate := source + count\<rparr> in
      if buf then do { bs \<leftarrow> load_bytes t source (unat count); Some (True, bs, stream) }
      else Some (True, [], stream))"

definition buffer_source :: "task \<Rightarrow> u64 pb_source" where
  "buffer_source t = \<lparr>icallback = buf_read t, is_buf_read = True\<rparr>"

definition pb_istream_from_buffer :: "u64 \<Rightarrow> u64 \<Rightarrow> u64 pb_istream" where
  "pb_istream_from_buffer buf bufsize = \<lparr>istate = buf, bytes_left = bufsize, ierrmsg = None\<rparr>"

text \<open>\<open>PB_SET_ERROR\<close> keeps the first message.\<close>

definition iset_error :: "string \<Rightarrow> 'st pb_istream \<Rightarrow> 'st pb_istream" where
  "iset_error msg stream = stream\<lparr>ierrmsg := (case ierrmsg stream of None \<Rightarrow> Some msg | Some m \<Rightarrow> Some m)\<rparr>"

text \<open>\<open>pb_read\<close>: its direct case, the loop that skips through a callback in pieces of 16 bytes, and the
  function.  The second component is what is stored at \<open>buf\<close>.\<close>

definition read_direct ::
    "'st pb_source \<Rightarrow> 'st pb_istream \<Rightarrow> bool \<Rightarrow> u64 \<Rightarrow> (bool \<times> byte list \<times> 'st pb_istream) option" where
  "read_direct S stream buf count =
     (if count = 0 then Some (True, [], stream)
      else if bytes_left stream < count then Some (False, [], iset_error ''end-of-stream'' stream)
      else do {
        (ok, bs, stream) \<leftarrow> icallback S stream buf count;
        if \<not> ok then Some (False, bs, iset_error ''io error'' stream)
        else Some (True, bs, stream\<lparr>bytes_left := bytes_left stream - count\<rparr>) })"

function skip_loop :: "'st pb_source \<Rightarrow> 'st pb_istream \<Rightarrow> u64 \<Rightarrow> (bool \<times> byte list \<times> 'st pb_istream) option" where
  "skip_loop S stream count =
     (if count > 16 then do {
        (ok, bs, stream) \<leftarrow> read_direct S stream True 16;
        if \<not> ok then Some (False, [], stream) else skip_loop S stream (count - 16) }
      else map_option (\<lambda>(ok, bs, stream). (ok, [], stream)) (read_direct S stream True count))"
  by pat_completeness auto
termination
proof (relation "measure (\<lambda>(S, stream, count). unat count)")
  fix S :: "'a pb_source" and stream :: "'a pb_istream" and count :: u64 and x xa y xb y'
  assume "16 < count"
  then show "((S, y', count - 16), S, stream, count) \<in> measure (\<lambda>(S, stream, count). unat count)"
    using unat_sub [of 16 count] by (simp add: word_less_nat_alt word_le_nat_alt)
qed simp

declare skip_loop.simps [simp del]

definition pb_read ::
    "'st pb_source \<Rightarrow> 'st pb_istream \<Rightarrow> bool \<Rightarrow> u64 \<Rightarrow> (bool \<times> byte list \<times> 'st pb_istream) option" where
  "pb_read S stream buf count =
     (if count = 0 then Some (True, [], stream)
      else if \<not> buf \<and> \<not> is_buf_read S then skip_loop S stream count
      else read_direct S stream buf count)"

text \<open>\<open>pb_readbyte\<close>: the byte is \<^term>\<open>None\<close> unless the result is true.\<close>

definition pb_readbyte :: "'st pb_source \<Rightarrow> 'st pb_istream \<Rightarrow> (byte option \<times> 'st pb_istream) option" where
  "pb_readbyte S stream =
     (if bytes_left stream = 0 then Some (None, iset_error ''end-of-stream'' stream)
      else do {
        (ok, bs, stream) \<leftarrow> icallback S stream True 1;
        if \<not> ok then Some (None, iset_error ''io error'' stream)
        else Some (Some (hd bs), stream\<lparr>bytes_left := bytes_left stream - 1\<rparr>) })"

text \<open>The contract of a source: \<open>coming st bs\<close> says that from state \<open>st\<close> on, the bytes \<open>bs\<close> come next;
  the callback delivers them in order, whatever the stream's limit.\<close>

locale pb_input =
  fixes S :: "'st pb_source" and coming :: "'st \<Rightarrow> byte list \<Rightarrow> bool"
  assumes coming_prefix: "coming st (xs @ ys) \<Longrightarrow> coming st xs"
    and deliver: "coming (istate stream) (xs @ ys) \<Longrightarrow> xs \<noteq> [] \<Longrightarrow> length xs = unat count \<Longrightarrow>
      \<exists>st'. icallback S stream buf count = Some (True, if buf then xs else [], stream\<lparr>istate := st'\<rparr>) \<and>
        coming st' ys"
begin

text \<open>\<open>at stream bs\<close>: the bytes \<open>bs\<close> come next and are within the stream's limit.\<close>

definition at_input :: "'st pb_istream \<Rightarrow> byte list \<Rightarrow> nat \<Rightarrow> bool" where
  "at_input stream bs n \<longleftrightarrow> coming (istate stream) bs \<and> unat (bytes_left stream) = n"

lemma read_direct_deliver:
  assumes "at_input stream (xs @ ys) n" "length xs = unat count" "length xs \<le> n"
  shows "\<exists>stream'. read_direct S stream buf count = Some (True, if buf then xs else [], stream') \<and>
    at_input stream' ys (n - length xs) \<and> ierrmsg stream' = ierrmsg stream"
proof (cases "count = 0")
  case True
  then show ?thesis using assms by (simp add: read_direct_def)
next
  case False
  then have "xs \<noteq> []" using assms(2) by (auto simp: unat_eq_zero)
  then obtain st' where st': "icallback S stream buf count = Some (True, if buf then xs else [], stream\<lparr>istate := st'\<rparr>)"
    "coming st' ys"
    using deliver [of stream xs ys count buf] assms by (auto simp: at_input_def)
  have "\<not> bytes_left stream < count" using assms by (auto simp: at_input_def word_less_nat_alt)
  then show ?thesis using False st' assms
    by (auto simp: read_direct_def at_input_def unat_sub word_le_nat_alt)
qed

lemma skip_loop_deliver:
  assumes "at_input stream (xs @ ys) n" "length xs = unat count" "length xs \<le> n"
  shows "\<exists>stream'. skip_loop S stream count = Some (True, [], stream') \<and>
    at_input stream' ys (n - length xs) \<and> ierrmsg stream' = ierrmsg stream"
  using assms
proof (induction "unat count" arbitrary: stream xs n count rule: less_induct)
  case less
  show ?case
  proof (cases "16 < count")
    case False
    then show ?thesis using read_direct_deliver [OF less.prems, of True]
      by (auto simp: skip_loop.simps [of S stream count])
  next
    case True
    then have c: "unat (count - 16) = unat count - 16" "16 < unat count"
      using unat_sub [of 16 count] by (simp_all add: word_less_nat_alt word_le_nat_alt)
    have xs: "xs = take 16 xs @ drop 16 xs" "length (take 16 xs) = unat (16 :: u64)" using c less.prems(2) by simp_all
    obtain s1 where s1: "read_direct S stream True 16 = Some (True, take 16 xs, s1)"
      "at_input s1 (drop 16 xs @ ys) (n - 16)" "ierrmsg s1 = ierrmsg stream"
    proof -
      have "at_input stream (take 16 xs @ drop 16 xs @ ys) n"
        using less.prems(1) append_take_drop_id [of 16 xs] by (metis append.assoc)
      then show ?thesis using that read_direct_deliver [of stream "take 16 xs" "drop 16 xs @ ys" n 16 True]
          less.prems xs(2) c by auto
    qed
    obtain s2 where "skip_loop S s1 (count - 16) = Some (True, [], s2)"
      "at_input s2 ys (n - 16 - length (drop 16 xs))" "ierrmsg s2 = ierrmsg s1"
      using less.hyps [OF _ s1(2), of "count - 16"] c less.prems
        diff_le_mono [of "unat count" n 16] by auto
    then show ?thesis using True s1 c less.prems(2) by (simp add: skip_loop.simps [of S stream count])
  qed
qed

lemma pb_read_deliver:
  assumes "at_input stream (xs @ ys) n" "length xs = unat count" "length xs \<le> n"
  shows "\<exists>stream'. pb_read S stream buf count = Some (True, if buf then xs else [], stream') \<and>
    at_input stream' ys (n - length xs) \<and> ierrmsg stream' = ierrmsg stream"
  using read_direct_deliver [OF assms, of buf] skip_loop_deliver [OF assms] assms(1,2)
  by (cases "count = 0") (auto simp: pb_read_def)

lemma pb_readbyte_deliver:
  assumes "at_input stream (x # ys) n" "0 < n"
  shows "\<exists>stream'. pb_readbyte S stream = Some (Some x, stream') \<and> at_input stream' ys (n - 1) \<and>
    ierrmsg stream' = ierrmsg stream"
proof -
  obtain st' where st': "icallback S stream True 1 = Some (True, [x], stream\<lparr>istate := st'\<rparr>)" "coming st' ys"
    using deliver [of stream "[x]" ys 1 True] assms by (auto simp: at_input_def)
  have nz: "bytes_left stream \<noteq> 0" using assms by (auto simp: at_input_def)
  then have "unat (bytes_left stream - 1) = n - 1"
    using unat_minus_one [OF nz] assms by (simp add: at_input_def)
  then show ?thesis using st' assms nz by (auto simp: pb_readbyte_def at_input_def)
qed

end

interpretation buffer_in: pb_input "buffer_source (flat_task m)" "holds (flat_task m)" for m
proof
  show "holds (flat_task m) st xs" if "holds (flat_task m) st (xs @ ys)" for st xs ys
    using that by (simp add: holds_append)
next
  fix stream :: "u64 pb_istream" and xs ys and count :: u64 and buf
  assume a: "holds (flat_task m) (istate stream) (xs @ ys)" "length xs = unat count"
  then have c: "word_of_nat (length xs) = count" by simp
  show "\<exists>st'. icallback (buffer_source (flat_task m)) stream buf count =
      Some (True, if buf then xs else [], stream\<lparr>istate := st'\<rparr>) \<and> holds (flat_task m) st' ys"
    using a holds_load [of "flat_task m" "istate stream" xs] c
    by (intro exI [of _ "istate stream + count"]) (auto simp: buffer_source_def buf_read_def holds_append Let_def)
qed

end
