(* ===== verification/Pb_Decode.thy ===== *)
theory Pb_Decode
  imports Pb_Input Data_Parsing
begin

text \<open>
  The decoders of \<open>pb_decode.c\<close> below the level of fields: numbers, tags, skipping and substreams.  The
  lemmas \<open>_deliver\<close> in the context of \<open>pb_input\<close> say what each reads from the encodings it is meant
  for, whatever the callback; the numbers are the \<open>uleb_encode\<close> of the DWARF readers.
\<close>

section \<open>Variable-length numbers\<close>

text \<open>Results: the number, or \<^term>\<open>None\<close> for the return value \<open>false\<close>; and the stream.  \<open>bitpos\<close> is a
  \<open>uint_fast8_t\<close>, 8 bits wide on these targets.\<close>

partial_function (option) varint32_loop ::
    "'st pb_source \<Rightarrow> 'st pb_istream \<Rightarrow> u32 \<Rightarrow> byte \<Rightarrow> (u32 option \<times> 'st pb_istream) option" where
  [code]: "varint32_loop S stream result bitpos =
     Option.bind (pb_readbyte S stream) (\<lambda>r. case r of (b, stream) \<Rightarrow>
       case b of None \<Rightarrow> Some (None, stream)
       | Some byte \<Rightarrow>
           let sign_extension = (if bitpos < 63 then 0xFF else 0x01 :: byte) in
           if bitpos \<ge> 32 \<and> byte AND 0x7F \<noteq> 0 \<and> (drop_bit 31 result = 0 \<or> byte \<noteq> sign_extension)
           then Some (None, iset_error ''varint overflow'' stream)
           else
             let result = (if bitpos \<ge> 32 then result
                   else result OR push_bit (unat bitpos) (ucast (byte AND 0x7F)));
                 bitpos = bitpos + 7 in
             if byte AND 0x80 \<noteq> 0 then varint32_loop S stream result bitpos
             else if bitpos = 35 \<and> byte AND 0x70 \<noteq> 0
             then Some (None, iset_error ''varint overflow'' stream)
             else Some (Some result, stream))"

text \<open>The second component is what is stored through \<open>eof\<close>, if anything.\<close>

definition pb_decode_varint32_eof ::
    "'st pb_source \<Rightarrow> 'st pb_istream \<Rightarrow> (u32 option \<times> bool option \<times> 'st pb_istream) option" where
  "pb_decode_varint32_eof S stream = do {
     (b, stream) \<leftarrow> pb_readbyte S stream;
     case b of
       None \<Rightarrow> Some (None, (if bytes_left stream = 0 then Some True else None), stream)
     | Some byte \<Rightarrow>
         if byte AND 0x80 = 0 then Some (Some (ucast byte), None, stream)
         else map_option (\<lambda>(r, stream). (r, None, stream))
           (varint32_loop S stream (ucast (byte AND 0x7F)) 7) }"

definition pb_decode_varint32 :: "'st pb_source \<Rightarrow> 'st pb_istream \<Rightarrow> (u32 option \<times> 'st pb_istream) option" where
  "pb_decode_varint32 S stream = map_option (\<lambda>(r, eof, stream). (r, stream)) (pb_decode_varint32_eof S stream)"

partial_function (option) varint_loop ::
    "'st pb_source \<Rightarrow> 'st pb_istream \<Rightarrow> u64 \<Rightarrow> byte \<Rightarrow> (u64 option \<times> 'st pb_istream) option" where
  [code]: "varint_loop S stream result bitpos =
     (if bitpos \<ge> 64 then Some (None, iset_error ''varint overflow'' stream)
      else Option.bind (pb_readbyte S stream) (\<lambda>r. case r of (b, stream) \<Rightarrow>
        case b of None \<Rightarrow> Some (None, stream)
        | Some byte \<Rightarrow>
            let result = result OR push_bit (unat bitpos) (ucast (byte AND 0x7F)) in
            if byte AND 0x80 \<noteq> 0 then varint_loop S stream result (bitpos + 7)
            else Some (Some result, stream)))"

definition pb_decode_varint :: "'st pb_source \<Rightarrow> 'st pb_istream \<Rightarrow> (u64 option \<times> 'st pb_istream) option" where
  "pb_decode_varint S stream = varint_loop S stream 0 0"

definition pb_decode_svarint :: "'st pb_source \<Rightarrow> 'st pb_istream \<Rightarrow> (u64 option \<times> 'st pb_istream) option" where
  "pb_decode_svarint S stream = do {
     (value, stream) \<leftarrow> pb_decode_varint S stream;
     Some (map_option (\<lambda>value. if value AND 1 \<noteq> 0 then NOT (drop_bit 1 value) else drop_bit 1 value) value,
       stream) }"

section \<open>Fixed-width numbers\<close>

text \<open>The byte-wise shifts of the code compute the little-endian number.\<close>

definition pb_decode_fixed32 :: "'st pb_source \<Rightarrow> 'st pb_istream \<Rightarrow> (u32 option \<times> 'st pb_istream) option" where
  "pb_decode_fixed32 S stream = do {
     (ok, bytes, stream) \<leftarrow> pb_read S stream True 4;
     Some (if \<not> ok then None else Some (
       push_bit 0 (ucast (bytes ! 0)) OR push_bit 8 (ucast (bytes ! 1)) OR
       push_bit 16 (ucast (bytes ! 2)) OR push_bit 24 (ucast (bytes ! 3))), stream) }"

definition pb_decode_fixed64 :: "'st pb_source \<Rightarrow> 'st pb_istream \<Rightarrow> (u64 option \<times> 'st pb_istream) option" where
  "pb_decode_fixed64 S stream = do {
     (ok, bytes, stream) \<leftarrow> pb_read S stream True 8;
     Some (if \<not> ok then None else Some (
       push_bit 0 (ucast (bytes ! 0)) OR push_bit 8 (ucast (bytes ! 1)) OR
       push_bit 16 (ucast (bytes ! 2)) OR push_bit 24 (ucast (bytes ! 3)) OR
       push_bit 32 (ucast (bytes ! 4)) OR push_bit 40 (ucast (bytes ! 5)) OR
       push_bit 48 (ucast (bytes ! 6)) OR push_bit 56 (ucast (bytes ! 7))), stream) }"

section \<open>Tags and skipping\<close>

definition PB_WT_VARINT :: u32 where "PB_WT_VARINT = 0"
definition PB_WT_64BIT :: u32 where "PB_WT_64BIT = 1"
definition PB_WT_STRING :: u32 where "PB_WT_STRING = 2"
definition PB_WT_32BIT :: u32 where "PB_WT_32BIT = 5"

lemmas wire_types = PB_WT_VARINT_def PB_WT_64BIT_def PB_WT_STRING_def PB_WT_32BIT_def

text \<open>\<open>pb_decode_tag\<close>: status, wire type, tag and the end-of-message flag.\<close>

definition pb_decode_tag ::
    "'st pb_source \<Rightarrow> 'st pb_istream \<Rightarrow> (bool \<times> u32 \<times> u32 \<times> bool \<times> 'st pb_istream) option" where
  "pb_decode_tag S stream = do {
     (temp, eof, stream) \<leftarrow> pb_decode_varint32_eof S stream;
     case temp of
       None \<Rightarrow> Some (False, 0, 0, (case eof of None \<Rightarrow> False | Some e \<Rightarrow> e), stream)
     | Some temp \<Rightarrow>
         if temp = 0 then Some (False, 0, 0, True, stream)
         else Some (True, temp AND 7, drop_bit 3 temp, False, stream) }"

partial_function (option) pb_skip_varint :: "'st pb_source \<Rightarrow> 'st pb_istream \<Rightarrow> (bool \<times> 'st pb_istream) option" where
  [code]: "pb_skip_varint S stream =
     Option.bind (pb_read S stream True 1) (\<lambda>r. case r of (ok, bs, stream) \<Rightarrow>
       if \<not> ok then Some (False, stream)
       else if hd bs AND 0x80 \<noteq> 0 then pb_skip_varint S stream
       else Some (True, stream))"

definition pb_skip :: "'st pb_source \<Rightarrow> 'st pb_istream \<Rightarrow> u64 \<Rightarrow> (bool \<times> 'st pb_istream) option" where
  "pb_skip S stream count = map_option (\<lambda>(ok, bs, stream). (ok, stream)) (pb_read S stream False count)"

definition pb_skip_string :: "'st pb_source \<Rightarrow> 'st pb_istream \<Rightarrow> (bool \<times> 'st pb_istream) option" where
  "pb_skip_string S stream = do {
     (length', stream) \<leftarrow> pb_decode_varint32 S stream;
     case length' of None \<Rightarrow> Some (False, stream) | Some n \<Rightarrow> pb_skip S stream (ucast n) }"

definition pb_skip_field :: "'st pb_source \<Rightarrow> 'st pb_istream \<Rightarrow> u32 \<Rightarrow> (bool \<times> 'st pb_istream) option" where
  "pb_skip_field S stream wire_type =
     (if wire_type = PB_WT_VARINT then pb_skip_varint S stream
      else if wire_type = PB_WT_64BIT then pb_skip S stream 8
      else if wire_type = PB_WT_STRING then pb_skip_string S stream
      else if wire_type = PB_WT_32BIT then pb_skip S stream 4
      else Some (False, iset_error ''invalid wire_type'' stream))"

text \<open>\<open>read_raw_value\<close>: status, the bytes stored, the size and the stream.\<close>

partial_function (option) raw_varint_loop ::
    "'st pb_source \<Rightarrow> 'st pb_istream \<Rightarrow> u64 \<Rightarrow> u64 \<Rightarrow> byte list \<Rightarrow> (bool \<times> byte list \<times> u64 \<times> 'st pb_istream) option" where
  [code]: "raw_varint_loop S stream max_size size' buf =
     (if size' + 1 > max_size then Some (False, buf, size' + 1, stream)
      else Option.bind (pb_read S stream True 1) (\<lambda>r. case r of (ok, bs, stream) \<Rightarrow>
        if \<not> ok then Some (False, buf @ bs, size' + 1, stream)
        else if hd bs AND 0x80 \<noteq> 0 then raw_varint_loop S stream max_size (size' + 1) (buf @ bs)
        else Some (True, buf @ bs, size' + 1, stream)))"

definition read_raw_value ::
    "'st pb_source \<Rightarrow> 'st pb_istream \<Rightarrow> u32 \<Rightarrow> u64 \<Rightarrow> (bool \<times> byte list \<times> u64 \<times> 'st pb_istream) option" where
  "read_raw_value S stream wire_type max_size =
     (if wire_type = PB_WT_VARINT then raw_varint_loop S stream max_size 0 []
      else if wire_type = PB_WT_64BIT then
        map_option (\<lambda>(ok, bs, stream). (ok, bs, 8, stream)) (pb_read S stream True 8)
      else if wire_type = PB_WT_32BIT then
        map_option (\<lambda>(ok, bs, stream). (ok, bs, 4, stream)) (pb_read S stream True 4)
      else Some (False, [], max_size, iset_error ''invalid wire_type'' stream))"

section \<open>Substreams\<close>

text \<open>\<open>pb_make_string_substream\<close>: the stream and the substream, of which the second is \<^term>\<open>None\<close>
  unless it was assigned.\<close>

definition pb_make_string_substream ::
    "'st pb_source \<Rightarrow> 'st pb_istream \<Rightarrow> (bool \<times> 'st pb_istream \<times> 'st pb_istream option) option" where
  "pb_make_string_substream S stream = do {
     (size', stream) \<leftarrow> pb_decode_varint32 S stream;
     case size' of
       None \<Rightarrow> Some (False, stream, None)
     | Some n \<Rightarrow>
         if bytes_left stream < ucast n
         then Some (False, iset_error ''parent stream too short'' stream, Some stream)
         else Some (True, stream\<lparr>bytes_left := bytes_left stream - ucast n\<rparr>,
           Some (stream\<lparr>bytes_left := ucast n\<rparr>)) }"

definition pb_close_string_substream ::
    "'st pb_source \<Rightarrow> 'st pb_istream \<Rightarrow> 'st pb_istream \<Rightarrow> (bool \<times> 'st pb_istream) option" where
  "pb_close_string_substream S stream substream = do {
     (ok, substream) \<leftarrow> (if bytes_left substream \<noteq> 0 then pb_skip S substream (bytes_left substream)
       else Some (True, substream));
     if \<not> ok then Some (False, stream)
     else Some (True, stream\<lparr>istate := istate substream, ierrmsg := ierrmsg substream\<rparr>) }"

section \<open>Reading what has been written\<close>

text \<open>The bytes of a number as the loops see them.\<close>

lemma encode_step:
  "uleb_encode n = (word_of_nat (if n < 128 then n else n mod 128 + 128) :: byte) #
    (if n < 128 then [] else uleb_encode (n div 128))"
  by (subst uleb_encode.simps) simp

lemma encode_byte:
  fixes n :: nat
  defines "b \<equiv> (word_of_nat (if n < 128 then n else n mod 128 + 128) :: byte)"
  shows "b AND 0x7F = word_of_nat (n mod 128)" "b AND 0x80 = 0 \<longleftrightarrow> n < 128"
    "unat b = (if n < 128 then n else n mod 128 + 128)"
proof -
  let ?e = "if n < 128 then n else n mod 128 + 128"
  have e: "?e < 256" "?e mod 128 = n mod 128" "?e < 128 \<longleftrightarrow> n < 128" by auto
  show "b AND 0x7F = word_of_nat (n mod 128)"
    using low7 [of ?e] e(2) by (simp only: b_def and.commute)
  show "b AND 0x80 = 0 \<longleftrightarrow> n < 128"
    using high_bit [OF e(1)] e(3) by (simp only: b_def and.commute)
  show "unat b = ?e" using unat_byte_of_nat [OF e(1)] by (simp only: b_def)
qed

lemma low_bits_zero: "word_of_nat (n mod 128) = (0 :: byte) \<longleftrightarrow> n mod 128 = 0"
proof -
  have "unat (word_of_nat (n mod 128) :: byte) = n mod 128" by (rule unat_byte_of_nat) simp
  then show ?thesis by (simp only: unat_eq_zero [symmetric])
qed

lemma ucast_low_bits: "ucast (word_of_nat (n mod 128) :: byte) = (word_of_nat (n mod 128) :: 'a :: len word)"
proof -
  have "n mod 128 < 2 ^ 8" by (rule less_trans [of _ 128]) simp_all
  then show ?thesis by (simp add: unsigned_of_nat take_bit_nat_eq_self)
qed

lemma or_push_word:
  fixes r :: "'a :: len word"
  assumes "unat r < 2 ^ s"
  shows "r OR push_bit s (word_of_nat m) = word_of_nat (unat r + m * 2 ^ s)"
proof -
  have "unat (take_bit s r) = unat r"
    using assms by (simp add: unsigned_take_bit_eq take_bit_nat_eq_self_iff)
  then have low: "take_bit s r = r" by (simp add: word_unat_eq_iff)
  have "r AND push_bit s (word_of_nat m) = 0"
  proof (rule bit_word_eqI)
    fix n
    show "bit (r AND push_bit s (word_of_nat m)) n = bit (0 :: 'a word) n"
      by (subst low [symmetric]) (simp add: bit_simps)
  qed
  then have "r OR push_bit s (word_of_nat m) = r + push_bit s (word_of_nat m)"
    by (simp only: disjunctive_add_eq_or)
  then show ?thesis by (simp add: push_bit_eq_mult mult.commute)
qed

lemma split_low: "(n :: nat) * 2 ^ s = (n mod 128) * 2 ^ s + (n div 128) * 2 ^ (s + 7)"
proof -
  have "n = n mod 128 + n div 128 * 128" by simp
  then have "n * 2 ^ s = (n mod 128 + n div 128 * 128) * 2 ^ s" by simp
  then show ?thesis by (simp only: add_mult_distrib power_add mult.assoc) simp
qed

lemma small_byte: "s < 256 \<Longrightarrow> unat (word_of_nat s :: byte) = s"
  by (rule unat_byte_of_nat)

context pb_input begin

lemma varint_loop_step:
  assumes "at_input stream (uleb_encode n @ ys) len" "length (uleb_encode n) \<le> len"
    and "s < 64" "unat result < 2 ^ s"
  obtains stream' where
    "varint_loop S stream result (word_of_nat s) =
      (let result = word_of_nat (unat result + n mod 128 * 2 ^ s) in
       if n < 128 then Some (Some result, stream') else varint_loop S stream' result (word_of_nat (s + 7)))"
    "at_input stream' ((if n < 128 then [] else uleb_encode (n div 128)) @ ys) (len - 1)"
    "ierrmsg stream' = ierrmsg stream"
proof -
  note b = encode_byte [of n]
  let ?b = "word_of_nat (if n < 128 then n else n mod 128 + 128) :: byte"
  have at: "at_input stream (?b # (if n < 128 then [] else uleb_encode (n div 128)) @ ys) len" "0 < len"
    using assms(1,2) by (simp_all add: encode_step [of n])
  obtain stream' where s': "pb_readbyte S stream = Some (Some ?b, stream')"
    "at_input stream' ((if n < 128 then [] else uleb_encode (n div 128)) @ ys) (len - 1)"
    "ierrmsg stream' = ierrmsg stream"
    using pb_readbyte_deliver [OF at] by blast
  have bp: "\<not> (64 :: byte) \<le> word_of_nat s" "unat (word_of_nat s :: byte) = s"
    using assms(3) small_byte [of s] by (simp_all add: word_le_nat_alt)
  have "result OR push_bit s (ucast (?b AND 0x7F)) = word_of_nat (unat result + n mod 128 * 2 ^ s)"
    by (simp only: b(1) ucast_low_bits or_push_word [OF assms(4)])
  then have "varint_loop S stream result (word_of_nat s) =
      (let result = word_of_nat (unat result + n mod 128 * 2 ^ s) in
       if n < 128 then Some (Some result, stream') else varint_loop S stream' result (word_of_nat (s + 7)))"
    using s'(1) bp b(2) by (subst varint_loop.simps) (simp add: Let_def)
  then show thesis using that s'(2,3) by blast
qed

lemma varint_loop_decode:
  assumes "at_input stream (uleb_encode n @ ys) len" "length (uleb_encode n) \<le> len"
    and "unat result < 2 ^ s" "unat result + n * 2 ^ s < 2 ^ 64" "n > 0 \<or> s = 0" "s mod 7 = 0"
  shows "\<exists>stream'. varint_loop S stream result (word_of_nat s) =
      Some (Some (word_of_nat (unat result + n * 2 ^ s)), stream') \<and>
    at_input stream' ys (len - length (uleb_encode n)) \<and> ierrmsg stream' = ierrmsg stream"
  using assms
proof (induction n arbitrary: stream len result s rule: uleb_encode.induct)
  case (1 n)
  have s: "s < 64"
  proof (rule ccontr)
    assume "\<not> s < 64"
    then have "(2 :: nat) ^ 64 \<le> 2 ^ s" by (intro power_increasing) simp_all
    moreover have "n > 0" using "1.prems"(5) \<open>\<not> s < 64\<close> by auto
    ultimately have "2 ^ 64 \<le> n * 2 ^ s" by (metis One_nat_def Suc_leI le_trans mult_le_mono1 nat_mult_1)
    then show False using "1.prems"(4) by linarith
  qed
  obtain stream' where s': "varint_loop S stream result (word_of_nat s) =
      (let result = word_of_nat (unat result + n mod 128 * 2 ^ s) in
       if n < 128 then Some (Some result, stream') else varint_loop S stream' result (word_of_nat (s + 7)))"
    "at_input stream' ((if n < 128 then [] else uleb_encode (n div 128)) @ ys) (len - 1)"
    "ierrmsg stream' = ierrmsg stream"
    using varint_loop_step [OF "1.prems"(1,2) s "1.prems"(3)] by blast
  show ?case
  proof (cases "n < 128")
    case True
    then show ?thesis using s' by (simp add: encode_step [of n])
  next
    case False
    define r' :: u64 where "r' = word_of_nat (unat result + n mod 128 * 2 ^ s)"
    note sp = split_low [of n s]
    have "unat result + n mod 128 * 2 ^ s < 2 ^ 64" using "1.prems"(4) sp by linarith
    then have ur: "unat r' = unat result + n mod 128 * 2 ^ s"
      unfolding r'_def unat_of_nat by (intro mod_less) simp
    have "n mod 128 \<le> 127" using mod_less_divisor [of 128 n] by simp
    then have "n mod 128 * 2 ^ s \<le> 127 * 2 ^ s" by (rule mult_le_mono1)
    moreover have "(2 :: nat) ^ (s + 7) = 128 * 2 ^ s" by (simp add: power_add)
    ultimately have "unat r' < 2 ^ (s + 7)" using "1.prems"(3) ur by linarith
    moreover have sum: "unat r' + n div 128 * 2 ^ (s + 7) = unat result + n * 2 ^ s" using ur sp by linarith
    moreover have len: "length (uleb_encode n) = Suc (length (uleb_encode (n div 128)))"
      using False by (subst encode_step) simp
    moreover have "length (uleb_encode (n div 128)) \<le> len - 1" using len "1.prems"(2) by linarith
    moreover have "n div 128 > 0" "(s + 7) mod 7 = 0" using False "1.prems"(6) by simp_all
    moreover have "at_input stream' (uleb_encode (n div 128) @ ys) (len - 1)" using s'(2) False by simp
    ultimately obtain stream2 where
      "varint_loop S stream' r' (word_of_nat (s + 7)) = Some (Some (word_of_nat (unat result + n * 2 ^ s)), stream2)"
      "at_input stream2 ys (len - 1 - length (uleb_encode (n div 128)))" "ierrmsg stream2 = ierrmsg stream'"
      using "1.IH" [OF False, of stream' "len - 1" r' "s + 7"] "1.prems"(4) by auto
    moreover have "varint_loop S stream result (word_of_nat s) = varint_loop S stream' r' (word_of_nat (s + 7))"
      using s'(1) False by (simp only: Let_def if_False r'_def)
    ultimately show ?thesis using s'(3) len by auto
  qed
qed

lemma pb_decode_varint_deliver:
  assumes "at_input stream (uleb_encode n @ ys) len" "length (uleb_encode n) \<le> len" "n < 2 ^ 64"
  shows "\<exists>stream'. pb_decode_varint S stream = Some (Some (word_of_nat n), stream') \<and>
    at_input stream' ys (len - length (uleb_encode n)) \<and> ierrmsg stream' = ierrmsg stream"
  using varint_loop_decode [OF assms(1,2), of 0 0] assms(3) by (simp add: pb_decode_varint_def)

end

section \<open>32-bit numbers\<close>

lemma high_bits_70: "n < 128 \<Longrightarrow> (word_of_nat n :: byte) AND 0x70 = 0 \<longleftrightarrow> n < 16"
proof -
  have "\<forall>n \<in> set [0..<128]. ((word_of_nat n :: byte) AND 0x70 = 0) = (n < 16)" by code_simp
  then show "n < 128 \<Longrightarrow> (word_of_nat n :: byte) AND 0x70 = 0 \<longleftrightarrow> n < 16" by simp
qed

text \<open>The byte of \<open>n\<close> is the sign extension expected at \<open>s\<close>.\<close>

definition sign_byte :: "nat \<Rightarrow> nat \<Rightarrow> bool" where
  "sign_byte s n \<longleftrightarrow> (if s < 63 then n \<ge> 128 \<and> n mod 128 = 127 else n = 1)"

lemma sign_byte_eq:
  "s < 256 \<Longrightarrow> (word_of_nat (if n < 128 then n else n mod 128 + 128) :: byte) =
     (if (word_of_nat s :: byte) < 63 then 0xFF else 0x01) \<longleftrightarrow> sign_byte s n"
proof -
  assume s: "s < 256"
  have lt: "(word_of_nat s :: byte) < 63 \<longleftrightarrow> s < 63"
    using small_byte [OF s] by (simp add: word_less_nat_alt)
  show ?thesis unfolding lt word_unat_eq_iff encode_byte(3) by (auto simp: sign_byte_def)
qed

context pb_input begin

lemma varint32_step:
  assumes "at_input stream (uleb_encode n @ ys) len" "length (uleb_encode n) \<le> len" "s < 200"
  obtains stream' where
    "varint32_loop S stream result (word_of_nat s) =
      (if s \<ge> 32 \<and> n mod 128 \<noteq> 0 \<and> (drop_bit 31 result = 0 \<or> \<not> sign_byte s n)
       then Some (None, iset_error ''varint overflow'' stream')
       else let result = (if s \<ge> 32 then result else result OR push_bit s (word_of_nat (n mod 128))) in
         if n \<ge> 128 then varint32_loop S stream' result (word_of_nat (s + 7))
         else if s = 28 \<and> n \<ge> 16 then Some (None, iset_error ''varint overflow'' stream')
         else Some (Some result, stream'))"
    "at_input stream' ((if n < 128 then [] else uleb_encode (n div 128)) @ ys) (len - 1)"
    "ierrmsg stream' = ierrmsg stream"
proof -
  note b = encode_byte [of n]
  let ?b = "word_of_nat (if n < 128 then n else n mod 128 + 128) :: byte"
  have at: "at_input stream (?b # (if n < 128 then [] else uleb_encode (n div 128)) @ ys) len" "0 < len"
    using assms(1,2) by (simp_all add: encode_step [of n])
  obtain stream' where s': "pb_readbyte S stream = Some (Some ?b, stream')"
    "at_input stream' ((if n < 128 then [] else uleb_encode (n div 128)) @ ys) (len - 1)"
    "ierrmsg stream' = ierrmsg stream"
    using pb_readbyte_deliver [OF at] by blast
  have bp: "(32 :: byte) \<le> word_of_nat s \<longleftrightarrow> s \<ge> 32" "unat (word_of_nat s :: byte) = s"
    using assms(3) small_byte [of s] by (simp_all add: word_le_nat_alt)
  have "unat (word_of_nat s + 7 :: byte) = s + 7" using assms(3) bp(2) by (simp add: unat_word_ariths)
  then have b35: "word_of_nat s + 7 = (35 :: byte) \<longleftrightarrow> s = 28" by (simp add: word_unat_eq_iff)
  have "varint32_loop S stream result (word_of_nat s) =
      (if s \<ge> 32 \<and> n mod 128 \<noteq> 0 \<and> (drop_bit 31 result = 0 \<or> \<not> sign_byte s n)
       then Some (None, iset_error ''varint overflow'' stream')
       else let result = (if s \<ge> 32 then result else result OR push_bit s (word_of_nat (n mod 128))) in
         if n \<ge> 128 then varint32_loop S stream' result (word_of_nat (s + 7))
         else if s = 28 \<and> n \<ge> 16 then Some (None, iset_error ''varint overflow'' stream')
         else Some (Some result, stream'))"
    using s'(1) sign_byte_eq [of s n] assms(3)
    by (subst varint32_loop.simps)
      (simp only: Option.bind.simps prod.case option.case Let_def b(1,2) low_bits_zero ucast_low_bits bp b35
        high_bits_70 not_le not_less cong: if_cong, auto simp: high_bits_70)
  then show thesis using that s'(2,3) by blast
qed

end

context pb_input begin

text \<open>After the fifth byte the loop only compares: a number that is not sign-extended is refused.\<close>

lemma varint32_tail_refuses:
  assumes "at_input stream (uleb_encode n @ ys) len" "length (uleb_encode n) \<le> len"
    and "35 \<le> s" "0 < n" "n * 2 ^ s < 2 ^ 64" "n * 2 ^ s < 2 ^ 63 \<or> drop_bit 31 result = 0"
  shows "\<exists>stream'. varint32_loop S stream result (word_of_nat s) = Some (None, stream') \<and> ierrmsg stream' \<noteq> None"
  using assms
proof (induction n arbitrary: stream len s rule: uleb_encode.induct)
  case (1 n)
  have s: "s < 64"
  proof (rule ccontr)
    assume "\<not> s < 64"
    then have "(2 :: nat) ^ 64 \<le> 2 ^ s" by (intro power_increasing) simp_all
    also have "\<dots> \<le> n * 2 ^ s" using "1.prems"(4) by simp
    finally show False using "1.prems"(5) by linarith
  qed
  obtain stream' where s': "varint32_loop S stream result (word_of_nat s) =
      (if s \<ge> 32 \<and> n mod 128 \<noteq> 0 \<and> (drop_bit 31 result = 0 \<or> \<not> sign_byte s n)
       then Some (None, iset_error ''varint overflow'' stream')
       else let result = (if s \<ge> 32 then result else result OR push_bit s (word_of_nat (n mod 128))) in
         if n \<ge> 128 then varint32_loop S stream' result (word_of_nat (s + 7))
         else if s = 28 \<and> n \<ge> 16 then Some (None, iset_error ''varint overflow'' stream')
         else Some (Some result, stream'))"
    "at_input stream' ((if n < 128 then [] else uleb_encode (n div 128)) @ ys) (len - 1)"
    using varint32_step [OF "1.prems"(1,2), of s result] s by auto
  show ?case
  proof (cases "n mod 128 \<noteq> 0 \<and> (drop_bit 31 result = 0 \<or> \<not> sign_byte s n)")
    case True
    then show ?thesis using s'(1) "1.prems"(3) by (auto simp: iset_error_def split: option.splits)
  next
    case pass: False
    show ?thesis
    proof (cases "n < 128")
      case True
      then have ext: "drop_bit 31 result \<noteq> 0" "sign_byte s n" using pass "1.prems"(4) by auto
      then have "63 \<le> s" using True by (auto simp: sign_byte_def split: if_splits)
      then have "(2 :: nat) ^ 63 \<le> 2 ^ s" by (intro power_increasing) simp_all
      also have "\<dots> \<le> n * 2 ^ s" using "1.prems"(4) by simp
      finally show ?thesis using ext "1.prems"(6) by linarith
    next
      case False
      have "n div 128 * 2 ^ (s + 7) \<le> n * 2 ^ s" using split_low [of n s] by linarith
      moreover have "length (uleb_encode (n div 128)) \<le> len - 1"
        using False "1.prems"(2) by (subst (asm) encode_step) simp
      ultimately have "\<exists>stream2. varint32_loop S stream' result (word_of_nat (s + 7)) = Some (None, stream2) \<and>
          ierrmsg stream2 \<noteq> None"
        using "1.IH" [OF False, of stream' "len - 1" "s + 7"] s'(2) False "1.prems"(3,5,6) by auto
      moreover have "varint32_loop S stream result (word_of_nat s) = varint32_loop S stream' result (word_of_nat (s + 7))"
        unfolding s'(1) using pass False "1.prems"(3) by (auto simp: Let_def)
      ultimately show ?thesis by simp
    qed
  qed
qed

text \<open>The first five bytes.\<close>

lemma varint32_head:
  assumes "at_input stream (uleb_encode n @ ys) len" "length (uleb_encode n) \<le> len"
    and "s \<in> {7, 14, 21, 28}" "unat result < 2 ^ s"
  shows "\<exists>stream'. ierrmsg stream' = ierrmsg stream \<and>
    (if n < 2 ^ (35 - s) then
       at_input stream' ys (len - length (uleb_encode n)) \<and>
       varint32_loop S stream result (word_of_nat s) =
         Some (if unat result + n * 2 ^ s < 2 ^ 32 then (Some (word_of_nat (unat result + n * 2 ^ s)), stream')
           else (None, iset_error ''varint overflow'' stream'))
     else
       at_input stream' (uleb_encode (n div 2 ^ (35 - s)) @ ys)
         (len + length (uleb_encode (n div 2 ^ (35 - s))) - length (uleb_encode n)) \<and>
       length (uleb_encode (n div 2 ^ (35 - s))) < length (uleb_encode n) \<and>
       varint32_loop S stream result (word_of_nat s) =
         varint32_loop S stream' (word_of_nat (unat result + n * 2 ^ s)) (word_of_nat 35))"
  using assms
proof (induction n arbitrary: stream len s result rule: uleb_encode.induct)
  case (1 n)
  have sl: "s < 32" "s < 200" using "1.prems"(3) by auto
  obtain stream' where s': "varint32_loop S stream result (word_of_nat s) =
      (if s \<ge> 32 \<and> n mod 128 \<noteq> 0 \<and> (drop_bit 31 result = 0 \<or> \<not> sign_byte s n)
       then Some (None, iset_error ''varint overflow'' stream')
       else let result = (if s \<ge> 32 then result else result OR push_bit s (word_of_nat (n mod 128))) in
         if n \<ge> 128 then varint32_loop S stream' result (word_of_nat (s + 7))
         else if s = 28 \<and> n \<ge> 16 then Some (None, iset_error ''varint overflow'' stream')
         else Some (Some result, stream'))"
    "at_input stream' ((if n < 128 then [] else uleb_encode (n div 128)) @ ys) (len - 1)"
    "ierrmsg stream' = ierrmsg stream"
    using varint32_step [OF "1.prems"(1,2) sl(2), of result] by blast
  define r' :: u32 where "r' = word_of_nat (unat result + n mod 128 * 2 ^ s)"
  have st: "varint32_loop S stream result (word_of_nat s) =
      (if n \<ge> 128 then varint32_loop S stream' r' (word_of_nat (s + 7))
       else if s = 28 \<and> n \<ge> 16 then Some (None, iset_error ''varint overflow'' stream')
       else Some (Some r', stream'))"
    using s'(1) sl by (simp add: or_push_word [OF "1.prems"(4)] r'_def Let_def del: of_nat_add of_nat_mult)
  show ?case
  proof (cases "n < 128")
    case True
    have len: "length (uleb_encode n) = 1" using True by (subst encode_step) simp
    have small: "n < 2 ^ (35 - s)" using True "1.prems"(3) by auto
    have fits: "unat result + n * 2 ^ s < 2 ^ 32 \<longleftrightarrow> \<not> (s = 28 \<and> n \<ge> 16)"
      using True "1.prems"(3,4) by auto
    show ?thesis using st True small fits s'(2,3) len by (auto simp: r'_def simp del: of_nat_add of_nat_mult)
  next
    case False
    have len: "length (uleb_encode n) = Suc (length (uleb_encode (n div 128)))"
      using False by (subst encode_step) simp
    note sp = split_low [of n s]
    show ?thesis
    proof (cases "s = 28")
      case True
      have "(word_of_nat (unat result + n * 2 ^ s) :: u32) = r'"
      proof -
        have "n div 128 * 2 ^ (s + 7) = 2 ^ 32 * (8 * (n div 128))" using True by (simp add: power_add)
        then have "unat result + n * 2 ^ s = (unat result + n mod 128 * 2 ^ s) + 2 ^ 32 * (8 * (n div 128))"
          using sp by linarith
        then have "(unat result + n * 2 ^ s) mod 2 ^ 32 = (unat result + n mod 128 * 2 ^ s) mod 2 ^ 32"
          by (simp only: mod_mult_self2)
        then show ?thesis unfolding r'_def word_of_nat_eq_iff take_bit_eq_mod by simp
      qed
      then show ?thesis using st False True s'(2,3) len "1.prems"(2)
        by (intro exI [of _ stream']) (simp del: of_nat_add of_nat_mult)
    next
      case s28: False
      have "unat result + n mod 128 * 2 ^ s < 2 ^ (s + 7)"
      proof -
        have "n mod 128 \<le> 127" using mod_less_divisor [of 128 n] by simp
        then have "n mod 128 * 2 ^ s \<le> 127 * 2 ^ s" by (rule mult_le_mono1)
        moreover have "(2 :: nat) ^ (s + 7) = 128 * 2 ^ s" by (simp add: power_add)
        ultimately show ?thesis using "1.prems"(4) by linarith
      qed
      moreover have "(2 :: nat) ^ (s + 7) \<le> 2 ^ 28" using "1.prems"(3) s28 by (intro power_increasing) auto
      ultimately have ur: "unat r' = unat result + n mod 128 * 2 ^ s" "unat r' < 2 ^ (s + 7)"
        by (simp_all add: r'_def unat_of_nat del: of_nat_add of_nat_mult)
      have sum: "unat r' + n div 128 * 2 ^ (s + 7) = unat result + n * 2 ^ s" using ur sp by linarith
      have s7: "s + 7 \<in> {7, 14, 21, 28}" "35 - s = 7 + (35 - (s + 7))" using "1.prems"(3) s28 by auto
      have bound: "n div 128 < 2 ^ (35 - (s + 7)) \<longleftrightarrow> n < 2 ^ (35 - s)"
        using div_less_pow2 [of "7 + (35 - (s + 7))" n, folded s7(2)] s7(1) by auto
      have quot: "n div 128 div 2 ^ (35 - (s + 7)) = n div 2 ^ (35 - s)"
        unfolding s7(2) by (simp add: power_add div_mult2_eq)
      have le: "length (uleb_encode (n div 128)) \<le> len - 1" using len "1.prems"(2) by linarith
      have at: "at_input stream' (uleb_encode (n div 128) @ ys) (len - 1)" using s'(2) False by simp
      have lens: "len - 1 - length (uleb_encode (n div 128)) = len - length (uleb_encode n)"
        "len - 1 + k - length (uleb_encode (n div 128)) = len + k - length (uleb_encode n)" for k
        using len "1.prems"(2) by linarith+
      have st': "varint32_loop S stream result (word_of_nat s) = varint32_loop S stream' r' (word_of_nat (s + 7))"
        using st False by simp
      from "1.IH" [OF False at le s7(1) ur(2)] show ?thesis
        unfolding st' bound quot sum lens s'(3) using len by (auto split: if_splits simp del: of_nat_add)
    qed
  qed
qed

end

lemma encode_length_pos: "0 < length (uleb_encode n)"
  by (subst encode_step) simp

lemma top_bit_u32: "drop_bit 31 (w :: u32) = 0 \<longleftrightarrow> unat w < 2 ^ 31"
proof -
  have "unat (drop_bit 31 w) = unat w div 2 ^ 31" by (simp add: drop_bit_eq_div unat_div)
  moreover have "drop_bit 31 w = 0 \<longleftrightarrow> unat (drop_bit 31 w) = 0" by (simp only: unat_eq_zero)
  ultimately show ?thesis by (simp add: div_eq_0_iff)
qed

lemma iset_error_some [simp]: "\<exists>m. ierrmsg (iset_error msg stream) = Some m"
  by (simp add: iset_error_def split: option.split)

context pb_input begin

text \<open>The tail of a negative number.\<close>

lemma varint32_tail_accepts:
  assumes "at_input stream (uleb_encode n @ ys) len" "length (uleb_encode n) \<le> len"
    and "s \<in> {35, 42, 49, 56, 63}" "n = 2 ^ (64 - s) - 1" "drop_bit 31 result \<noteq> 0"
  shows "\<exists>stream'. varint32_loop S stream result (word_of_nat s) = Some (Some result, stream') \<and>
    at_input stream' ys (len - length (uleb_encode n)) \<and> ierrmsg stream' = ierrmsg stream"
  using assms
proof (induction n arbitrary: stream len s rule: uleb_encode.induct)
  case (1 n)
  have sl: "32 \<le> s" "s < 200" "s \<noteq> 28" using "1.prems"(3) by auto
  from "1.prems"(3) consider "s = 35" | "s = 42" | "s = 49" | "s = 56" | "s = 63" by blast
  then have "sign_byte s n \<and> (n < 128 \<longleftrightarrow> s = 63)"
    by cases (simp_all add: sign_byte_def "1.prems"(4))
  then have sign: "sign_byte s n" "n < 128 \<longleftrightarrow> s = 63" by simp_all
  obtain stream' where s0: "varint32_loop S stream result (word_of_nat s) =
      (if s \<ge> 32 \<and> n mod 128 \<noteq> 0 \<and> (drop_bit 31 result = 0 \<or> \<not> sign_byte s n)
       then Some (None, iset_error ''varint overflow'' stream')
       else let result = (if s \<ge> 32 then result else result OR push_bit s (word_of_nat (n mod 128))) in
         if n \<ge> 128 then varint32_loop S stream' result (word_of_nat (s + 7))
         else if s = 28 \<and> n \<ge> 16 then Some (None, iset_error ''varint overflow'' stream')
         else Some (Some result, stream'))"
    "at_input stream' ((if n < 128 then [] else uleb_encode (n div 128)) @ ys) (len - 1)"
    "ierrmsg stream' = ierrmsg stream"
    using varint32_step [OF "1.prems"(1,2) sl(2), of result] by blast
  have "varint32_loop S stream result (word_of_nat s) =
      (if n \<ge> 128 then varint32_loop S stream' result (word_of_nat (s + 7)) else Some (Some result, stream'))"
    unfolding s0(1) using sign(1) sl "1.prems"(5) by (simp only: Let_def if_True if_False simp_thms)
  note s' = this s0(2,3)
  show ?case
  proof (cases "n < 128")
    case True
    then have "length (uleb_encode n) = 1" by (subst encode_step) simp
    then show ?thesis using s' True by simp
  next
    case False
    then have s7: "s + 7 \<in> {35, 42, 49, 56, 63}" "n div 128 = 2 ^ (64 - (s + 7)) - 1"
      using "1.prems"(3,4) by auto
    have len: "length (uleb_encode n) = Suc (length (uleb_encode (n div 128)))"
      using False by (subst encode_step) simp
    have le: "length (uleb_encode (n div 128)) \<le> len - 1" using len "1.prems"(2) by linarith
    have at: "at_input stream' (uleb_encode (n div 128) @ ys) (len - 1)" using s'(2) False by simp
    from "1.IH" [OF False at le s7 "1.prems"(5)] show ?thesis using s'(1,3) False len by auto
  qed
qed

text \<open>A number is read if it fits in 32 bits or is the sign extension of a negative one, and refused
  if it is larger and its sign or its bit 31 is clear.\<close>

lemma pb_decode_varint32_deliver:
  assumes "at_input stream (uleb_encode n @ ys) len" "length (uleb_encode n) \<le> len" "n < 2 ^ 64"
  shows "n < 2 ^ 32 \<or> 2 ^ 64 - 2 ^ 31 \<le> n \<Longrightarrow>
      \<exists>stream'. pb_decode_varint32_eof S stream = Some (Some (word_of_nat n), None, stream') \<and>
        at_input stream' ys (len - length (uleb_encode n)) \<and> ierrmsg stream' = ierrmsg stream"
    and "2 ^ 32 \<le> n \<Longrightarrow> n < 2 ^ 63 \<or> n mod 2 ^ 32 < 2 ^ 31 \<Longrightarrow>
      \<exists>stream'. pb_decode_varint32_eof S stream = Some (None, None, stream') \<and> ierrmsg stream' \<noteq> None"
proof -
  note b = encode_byte [of n]
  let ?b = "word_of_nat (if n < 128 then n else n mod 128 + 128) :: byte"
  have at: "at_input stream (?b # (if n < 128 then [] else uleb_encode (n div 128)) @ ys) len" "0 < len"
    using assms(1,2) by (simp_all add: encode_step [of n])
  obtain s1 where s1: "pb_readbyte S stream = Some (Some ?b, s1)"
    "at_input s1 ((if n < 128 then [] else uleb_encode (n div 128)) @ ys) (len - 1)"
    "ierrmsg s1 = ierrmsg stream"
    using pb_readbyte_deliver [OF at] by blast
  define r :: u32 where "r = word_of_nat (n mod 128)"
  have r: "unat r = n mod 128" unfolding r_def unat_of_nat by (rule mod_less) (rule less_trans [of _ 128], simp_all)
  have ub: "ucast ?b = (word_of_nat n :: u32)" if "n < 128"
  proof -
    have "n mod 128 = n" using that by simp
    then show ?thesis using ucast_low_bits [of n, where 'a = 32] that by simp
  qed
  have start: "pb_decode_varint32_eof S stream =
      (if n < 128 then Some (Some (word_of_nat n), None, s1)
       else map_option (\<lambda>(r, stream). (r, None, stream)) (varint32_loop S s1 r (word_of_nat 7)))"
    unfolding pb_decode_varint32_eof_def s1(1) r_def using b(1,2) ub ucast_low_bits [of n, where 'a = 32] by auto
  have N: "unat r + n div 128 * 2 ^ 7 = n" by (simp add: r mult.commute)
  have len: "length (uleb_encode n) = Suc (length (uleb_encode (n div 128)))" if "\<not> n < 128"
    using that by (subst encode_step) simp
  have head: "\<exists>s2. ierrmsg s2 = ierrmsg stream \<and>
    (if n < 2 ^ 35 then
       at_input s2 ys (len - length (uleb_encode n)) \<and>
       varint32_loop S s1 r (word_of_nat 7) =
         Some (if n < 2 ^ 32 then (Some (word_of_nat n), s2) else (None, iset_error ''varint overflow'' s2))
     else \<exists>len'. at_input s2 (uleb_encode (n div 2 ^ 35) @ ys) len' \<and> length (uleb_encode (n div 2 ^ 35)) \<le> len' \<and>
       len' - length (uleb_encode (n div 2 ^ 35)) = len - length (uleb_encode n) \<and>
       varint32_loop S s1 r (word_of_nat 7) = varint32_loop S s2 (word_of_nat n) (word_of_nat 35))"
    if "\<not> n < 128"
  proof -
    have at1: "at_input s1 (uleb_encode (n div 128) @ ys) (len - 1)" using s1(2) that by simp
    have le1: "length (uleb_encode (n div 128)) \<le> len - 1" using len [OF that] assms(2) by linarith
    have q: "n div 128 < 2 ^ (35 - 7) \<longleftrightarrow> n < 2 ^ 35" "n div 128 div 2 ^ (35 - 7) = n div 2 ^ 35"
      by (simp_all add: div_less_iff_less_mult flip: div_mult2_eq)
    have "7 \<in> {7, 14, 21, 28 :: nat}" "unat r < 2 ^ 7" using r by simp_all
    from varint32_head [OF at1 le1 this] obtain s2 where "ierrmsg s2 = ierrmsg s1 \<and>
      (if n < 2 ^ 35 then
       at_input s2 ys (len - 1 - length (uleb_encode (n div 128))) \<and>
       varint32_loop S s1 r (word_of_nat 7) =
         Some (if n < 2 ^ 32 then (Some (word_of_nat n), s2) else (None, iset_error ''varint overflow'' s2))
     else
       at_input s2 (uleb_encode (n div 2 ^ 35) @ ys)
         (len - 1 + length (uleb_encode (n div 2 ^ 35)) - length (uleb_encode (n div 128))) \<and>
       length (uleb_encode (n div 2 ^ 35)) < length (uleb_encode (n div 128)) \<and>
       varint32_loop S s1 r (word_of_nat 7) = varint32_loop S s2 (word_of_nat n) (word_of_nat 35))"
      unfolding N q by blast
    then show ?thesis using s1(3) len [OF that] le1
      by (intro exI [of _ s2]) (auto split: if_splits)
  qed
  show "\<exists>stream'. pb_decode_varint32_eof S stream = Some (Some (word_of_nat n), None, stream') \<and>
        at_input stream' ys (len - length (uleb_encode n)) \<and> ierrmsg stream' = ierrmsg stream"
    if c: "n < 2 ^ 32 \<or> 2 ^ 64 - 2 ^ 31 \<le> n"
  proof (cases "n < 128")
    case True
    then have "length (uleb_encode n) = 1" by (subst encode_step) simp
    then show ?thesis using start True s1(2,3) by simp
  next
    case False
    show ?thesis
    proof (cases "n < 2 ^ 32")
      case True
      then show ?thesis using head [OF False] start False by auto
    next
      case neg: False
      then have big: "2 ^ 64 - 2 ^ 31 \<le> n" using c by simp
      have q: "n div 2 ^ 35 = 2 ^ 29 - 1"
        using big assms(3) by (intro div_nat_eqI) simp_all
      obtain s2 len' where s2: "ierrmsg s2 = ierrmsg stream" "at_input s2 (uleb_encode (n div 2 ^ 35) @ ys) len'"
        "length (uleb_encode (n div 2 ^ 35)) \<le> len'"
        "len' - length (uleb_encode (n div 2 ^ 35)) = len - length (uleb_encode n)"
        "varint32_loop S s1 r (word_of_nat 7) = varint32_loop S s2 (word_of_nat n) (word_of_nat 35)"
        using head [OF False] big by auto
      have "n mod 2 ^ 32 = n - (2 ^ 64 - 2 ^ 32)"
        using big assms(3) mod_nat_eqI [of "n - (2 ^ 64 - 2 ^ 32)" "2 ^ 32" n] by simp
      then have "2 ^ 31 \<le> n mod 2 ^ 32" using big by simp
      then have "drop_bit 31 (word_of_nat n :: u32) \<noteq> 0" by (simp add: top_bit_u32 unat_of_nat)
      moreover have "n div 2 ^ 35 = 2 ^ (64 - 35) - 1" "35 \<in> {35, 42, 49, 56, 63 :: nat}" using q by simp_all
      ultimately obtain s3 where
        "varint32_loop S s2 (word_of_nat n) (word_of_nat 35) = Some (Some (word_of_nat n), s3)"
        "at_input s3 ys (len - length (uleb_encode n))" "ierrmsg s3 = ierrmsg s2"
        using varint32_tail_accepts [OF s2(2,3)] s2(4) by metis
      then show ?thesis using start False s2(1,5) by simp
    qed
  qed
  show "\<exists>stream'. pb_decode_varint32_eof S stream = Some (None, None, stream') \<and> ierrmsg stream' \<noteq> None"
    if c: "2 ^ 32 \<le> n" "n < 2 ^ 63 \<or> n mod 2 ^ 32 < 2 ^ 31"
  proof -
    have n: "\<not> n < 128" using c(1) by simp
    show ?thesis
    proof (cases "n < 2 ^ 35")
      case True
      then show ?thesis using head [OF n] start n c(1) by auto
    next
      case False
      then obtain s2 len' where s2: "at_input s2 (uleb_encode (n div 2 ^ 35) @ ys) len'"
        "length (uleb_encode (n div 2 ^ 35)) \<le> len'"
        "varint32_loop S s1 r (word_of_nat 7) = varint32_loop S s2 (word_of_nat n) (word_of_nat 35)"
        using head [OF n] by auto
      have q: "0 < n div 2 ^ 35" using False by (simp add: div_greater_zero_iff)
      have le: "n div 2 ^ 35 * 2 ^ 35 \<le> n" by (rule div_times_less_eq_dividend)
      have "n div 2 ^ 35 * 2 ^ 35 < 2 ^ 64" using le assms(3) by (rule le_less_trans)
      moreover have "n div 2 ^ 35 * 2 ^ 35 < 2 ^ 63 \<or> drop_bit 31 (word_of_nat n :: u32) = 0"
        using c(2) le by (auto simp: top_bit_u32 unat_of_nat)
      ultimately show ?thesis
        using varint32_tail_refuses [OF s2(1,2) order_refl q, of "word_of_nat n"] start n s2(3) by auto
    qed
  qed
qed

end

section \<open>Fixed-width numbers and tags\<close>

lemma or_byte:
  fixes r :: "'a :: len word" and b :: byte
  assumes "unat r < 2 ^ s" "s + 8 \<le> LENGTH('a)"
  shows "unat (r OR push_bit s (ucast b)) = unat r + unat b * 2 ^ s"
    and "unat (r OR push_bit s (ucast b)) < 2 ^ (s + 8)"
proof -
  have "unat b \<le> 255" using unat_byte_less [of b] by simp
  then have "unat b * 2 ^ s \<le> 255 * 2 ^ s" by (rule mult_le_mono1)
  moreover have p: "(2 :: nat) ^ (s + 8) = 256 * 2 ^ s" by (simp add: power_add)
  ultimately have lt: "unat r + unat b * 2 ^ s < 2 ^ (s + 8)" using assms(1) by linarith
  moreover have "(2 :: nat) ^ (s + 8) \<le> 2 ^ LENGTH('a)" using assms(2) by (intro power_increasing) simp_all
  ultimately have fit: "unat r + unat b * 2 ^ s < 2 ^ LENGTH('a)" by linarith
  have "ucast b = (word_of_nat (unat b) :: 'a word)" by simp
  then have "r OR push_bit s (ucast b) = word_of_nat (unat r + unat b * 2 ^ s)"
    using or_push_word [OF assms(1), of "unat b"] by simp
  then show "unat (r OR push_bit s (ucast b)) = unat r + unat b * 2 ^ s"
    using fit by (simp only: unat_of_nat mod_less)
  with lt show "unat (r OR push_bit s (ucast b)) < 2 ^ (s + 8)" by simp
qed

lemma or_byte_step:
  fixes r :: "'a :: len word"
  assumes "unat r = x" "x < 2 ^ s" "s + 8 \<le> LENGTH('a)" "t = s + 8"
  shows "unat (r OR push_bit s (ucast (b :: byte))) = x + unat b * 2 ^ s \<and> x + unat b * 2 ^ s < 2 ^ t"
  using or_byte [of r s b] assms by simp

lemma fixed32_bytes:
  fixes a b c d :: byte
  shows "push_bit 0 (ucast a) OR push_bit 8 (ucast b) OR push_bit 16 (ucast c) OR push_bit 24 (ucast d) =
    (le_word [a, b, c, d] :: u32)"
proof -
  have 1: "unat (ucast a :: u32) = unat a" "unat a < 2 ^ 8" using unat_byte_less [of a] by (simp_all add: unat_ucast_up)
  have 2: "unat ((ucast a :: u32) OR push_bit 8 (ucast b)) = unat a + unat b * 2 ^ 8 \<and>
      unat a + unat b * 2 ^ 8 < 2 ^ 16"
    by (rule or_byte_step [OF 1]) simp_all
  have 3: "unat (((ucast a :: u32) OR push_bit 8 (ucast b)) OR push_bit 16 (ucast c)) =
      unat a + unat b * 2 ^ 8 + unat c * 2 ^ 16 \<and> unat a + unat b * 2 ^ 8 + unat c * 2 ^ 16 < 2 ^ 24"
    by (rule or_byte_step [OF conjunct1 [OF 2] conjunct2 [OF 2]]) simp_all
  have 4: "unat ((((ucast a :: u32) OR push_bit 8 (ucast b)) OR push_bit 16 (ucast c)) OR push_bit 24 (ucast d)) =
      unat a + unat b * 2 ^ 8 + unat c * 2 ^ 16 + unat d * 2 ^ 24 \<and>
      unat a + unat b * 2 ^ 8 + unat c * 2 ^ 16 + unat d * 2 ^ 24 < 2 ^ 32"
    by (rule or_byte_step [OF conjunct1 [OF 3] conjunct2 [OF 3]]) simp_all
  have "unat (le_word [a, b, c, d] :: u32) = le_nat [a, b, c, d]" by (rule unat_le_word) simp
  then show ?thesis using conjunct1 [OF 4] by (simp add: word_unat_eq_iff or.assoc)
qed

lemma fixed64_bytes:
  fixes a b c d e f g h :: byte
  shows "push_bit 0 (ucast a) OR push_bit 8 (ucast b) OR push_bit 16 (ucast c) OR push_bit 24 (ucast d) OR
    push_bit 32 (ucast e) OR push_bit 40 (ucast f) OR push_bit 48 (ucast g) OR push_bit 56 (ucast h) =
    (le_word [a, b, c, d, e, f, g, h] :: u64)"
proof -
  let ?n = "\<lambda>x :: byte. unat x"
  have 1: "unat (ucast a :: u64) = unat a" "unat a < 2 ^ 8" using unat_byte_less [of a] by (simp_all add: unat_ucast_up)
  note s = or_byte_step [OF conjunct1 conjunct2]
  let ?w2 = "(ucast a :: u64) OR push_bit 8 (ucast b)"
  let ?v2 = "?n a + ?n b * 2 ^ 8"
  have 2: "unat ?w2 = ?v2 \<and> ?v2 < 2 ^ 16"
    by (rule or_byte_step [OF 1]) simp_all
  let ?w3 = "?w2 OR push_bit 16 (ucast c)" and ?v3 = "?v2 + ?n c * 2 ^ 16"
  have 3: "unat ?w3 = ?v3 \<and> ?v3 < 2 ^ 24" by (rule s [OF 2 2]) simp_all
  let ?w4 = "?w3 OR push_bit 24 (ucast d)" and ?v4 = "?v3 + ?n d * 2 ^ 24"
  have 4: "unat ?w4 = ?v4 \<and> ?v4 < 2 ^ 32" by (rule s [OF 3 3]) simp_all
  let ?w5 = "?w4 OR push_bit 32 (ucast e)" and ?v5 = "?v4 + ?n e * 2 ^ 32"
  have 5: "unat ?w5 = ?v5 \<and> ?v5 < 2 ^ 40" by (rule s [OF 4 4]) simp_all
  let ?w6 = "?w5 OR push_bit 40 (ucast f)" and ?v6 = "?v5 + ?n f * 2 ^ 40"
  have 6: "unat ?w6 = ?v6 \<and> ?v6 < 2 ^ 48" by (rule s [OF 5 5]) simp_all
  let ?w7 = "?w6 OR push_bit 48 (ucast g)" and ?v7 = "?v6 + ?n g * 2 ^ 48"
  have 7: "unat ?w7 = ?v7 \<and> ?v7 < 2 ^ 56" by (rule s [OF 6 6]) simp_all
  let ?w8 = "?w7 OR push_bit 56 (ucast h)" and ?v8 = "?v7 + ?n h * 2 ^ 56"
  have 8: "unat ?w8 = ?v8 \<and> ?v8 < 2 ^ 64" by (rule s [OF 7 7]) simp_all
  have "unat (le_word [a, b, c, d, e, f, g, h] :: u64) = le_nat [a, b, c, d, e, f, g, h]"
    by (rule unat_le_word) simp
  then show ?thesis using conjunct1 [OF 8] by (simp add: word_unat_eq_iff or.assoc)
qed

lemma length4:
  assumes "length xs = 4"
  obtains a b c d where "xs = [a, b, c, d]"
  using assms that by (auto simp: eval_nat_numeral length_Suc_conv)

lemma length8:
  assumes "length xs = 8"
  obtains a b c d e f g h where "xs = [a, b, c, d, e, f, g, h]"
  using assms that by (auto simp: eval_nat_numeral length_Suc_conv)

context pb_input begin

lemma pb_decode_fixed32_deliver:
  assumes "at_input stream (xs @ ys) n" "length xs = 4" "4 \<le> n"
  shows "\<exists>stream'. pb_decode_fixed32 S stream = Some (Some (le_word xs), stream') \<and>
    at_input stream' ys (n - 4) \<and> ierrmsg stream' = ierrmsg stream"
proof -
  obtain a b c d where xs: "xs = [a, b, c, d]" by (rule length4 [OF assms(2)])
  obtain s' where "pb_read S stream True 4 = Some (True, xs, s')" "at_input s' ys (n - 4)" "ierrmsg s' = ierrmsg stream"
    using pb_read_deliver [OF assms(1), of 4 True] assms(2,3) by auto
  then show ?thesis using fixed32_bytes [of a b c d] by (simp add: pb_decode_fixed32_def xs)
qed

lemma pb_decode_fixed64_deliver:
  assumes "at_input stream (xs @ ys) n" "length xs = 8" "8 \<le> n"
  shows "\<exists>stream'. pb_decode_fixed64 S stream = Some (Some (le_word xs), stream') \<and>
    at_input stream' ys (n - 8) \<and> ierrmsg stream' = ierrmsg stream"
proof -
  obtain a b c d e f g h where xs: "xs = [a, b, c, d, e, f, g, h]" by (rule length8 [OF assms(2)])
  obtain s' where "pb_read S stream True 8 = Some (True, xs, s')" "at_input s' ys (n - 8)" "ierrmsg s' = ierrmsg stream"
    using pb_read_deliver [OF assms(1), of 8 True] assms(2,3) by auto
  then show ?thesis using fixed64_bytes [of a b c d e f g h] by (simp add: pb_decode_fixed64_def xs)
qed

end

lemma decode_varint32_eof_value:
  "pb_decode_varint32_eof S stream = Some (v, e, stream') \<Longrightarrow> pb_decode_varint32 S stream = Some (v, stream')"
  by (simp add: pb_decode_varint32_def)

lemma unat_u32: "n < 2 ^ 32 \<Longrightarrow> unat (word_of_nat n :: u32) = n"
  by (simp add: unat_of_nat)

lemma word_u32_eq: "unat (x :: u32) = n \<Longrightarrow> x = word_of_nat n"
  by (drule sym) simp

lemma tag_word:
  assumes "t < 2 ^ 29" "w < 8"
  shows "word_of_nat (t * 8 + w) AND 7 = (word_of_nat w :: u32)"
    and "drop_bit 3 (word_of_nat (t * 8 + w)) = (word_of_nat t :: u32)"
proof -
  have "t * 8 + w < 2 ^ 32" using assms by simp
  then have n: "unat (word_of_nat (t * 8 + w) :: u32) = t * 8 + w" by (rule unat_u32)
  have seven: "(7 :: u32) = Bit_Operations.mask 3" by (simp add: mask_eq_exp_minus_1)
  have "word_of_nat (t * 8 + w) AND 7 = take_bit 3 (word_of_nat (t * 8 + w) :: u32)"
    unfolding seven by (simp only: take_bit_eq_mask)
  moreover have "unat (take_bit 3 (word_of_nat (t * 8 + w) :: u32)) = w"
    unfolding unsigned_take_bit_eq n using assms(2) by (simp add: take_bit_eq_mod)
  ultimately have "unat (word_of_nat (t * 8 + w) AND 7 :: u32) = w" by simp
  then show "word_of_nat (t * 8 + w) AND 7 = (word_of_nat w :: u32)"
    by (rule word_u32_eq)
  have "unat (drop_bit 3 (word_of_nat (t * 8 + w) :: u32)) = (t * 8 + w) div 2 ^ 3"
    by (simp only: drop_bit_eq_div unat_div n) simp
  also have "\<dots> = t" using assms(2) by simp
  finally show "drop_bit 3 (word_of_nat (t * 8 + w)) = (word_of_nat t :: u32)"
    by (rule word_u32_eq)
qed

text \<open>The encodings of one field's value, by wire type.\<close>

definition wire_value :: "u32 \<Rightarrow> byte list \<Rightarrow> bool" where
  "wire_value w bs \<longleftrightarrow>
     (w = PB_WT_VARINT \<and> (\<exists>n. bs = uleb_encode n)) \<or>
     (w = PB_WT_64BIT \<and> length bs = 8) \<or>
     (w = PB_WT_STRING \<and> (\<exists>xs. bs = uleb_encode (length xs) @ xs \<and> length xs < 2 ^ 32)) \<or>
     (w = PB_WT_32BIT \<and> length bs = 4)"

context pb_input begin

lemma pb_decode_varint32_value:
  assumes "at_input stream (uleb_encode n @ ys) len" "length (uleb_encode n) \<le> len" "n < 2 ^ 32"
  shows "\<exists>stream'. pb_decode_varint32 S stream = Some (Some (word_of_nat n), stream') \<and>
    at_input stream' ys (len - length (uleb_encode n)) \<and> ierrmsg stream' = ierrmsg stream"
proof -
  have "n < 2 ^ 64" using assms(3) by (rule less_trans) simp
  then show ?thesis
    using pb_decode_varint32_deliver(1) [OF assms(1,2) _ disjI1 [OF assms(3)]] decode_varint32_eof_value [of S stream]
    by blast
qed

lemma pb_decode_tag_deliver:
  assumes "at_input stream (uleb_encode (t * 8 + w) @ ys) len" "length (uleb_encode (t * 8 + w)) \<le> len"
    and "t < 2 ^ 29" "w < 8" "0 < t * 8 + w"
  shows "\<exists>stream'. pb_decode_tag S stream = Some (True, word_of_nat w, word_of_nat t, False, stream') \<and>
    at_input stream' ys (len - length (uleb_encode (t * 8 + w))) \<and> ierrmsg stream' = ierrmsg stream"
proof -
  have lt: "t * 8 + w < 2 ^ 32" using assms(3,4) by simp
  then have lt': "t * 8 + w < 2 ^ 64" by (rule less_trans) simp
  obtain s' where s': "pb_decode_varint32_eof S stream = Some (Some (word_of_nat (t * 8 + w)), None, s')"
    "at_input s' ys (len - length (uleb_encode (t * 8 + w)))" "ierrmsg s' = ierrmsg stream"
    using pb_decode_varint32_deliver(1) [OF assms(1,2) lt' disjI1 [OF lt]] by blast
  have "unat (word_of_nat (t * 8 + w) :: u32) = t * 8 + w" using lt by (rule unat_u32)
  then have nz: "(word_of_nat (t * 8 + w) :: u32) \<noteq> 0" using assms(5) by (metis unat_0 less_irrefl)
  have "pb_decode_tag S stream = Some (True, word_of_nat w, word_of_nat t, False, s')"
    unfolding pb_decode_tag_def s'(1) bind.bind_lunit prod.case option.case
    by (simp only: nz if_False tag_word [OF assms(3,4)] prod.case option.case bind.bind_lunit)
  then show ?thesis using s' by blast
qed

lemma pb_read_one:
  assumes "at_input stream (x # ys) n" "0 < n"
  shows "\<exists>stream'. pb_read S stream True 1 = Some (True, [x], stream') \<and> at_input stream' ys (n - 1) \<and>
    ierrmsg stream' = ierrmsg stream"
  using pb_read_deliver [of stream "[x]" ys n 1 True] assms by simp

lemma pb_skip_varint_deliver:
  assumes "at_input stream (uleb_encode n @ ys) len" "length (uleb_encode n) \<le> len"
  shows "\<exists>stream'. pb_skip_varint S stream = Some (True, stream') \<and>
    at_input stream' ys (len - length (uleb_encode n)) \<and> ierrmsg stream' = ierrmsg stream"
  using assms
proof (induction n arbitrary: stream len rule: uleb_encode.induct)
  case (1 n)
  let ?b = "word_of_nat (if n < 128 then n else n mod 128 + 128) :: byte"
  let ?rest = "if n < 128 then [] else uleb_encode (n div 128)"
  have e: "uleb_encode n = ?b # ?rest" by (rule encode_step)
  obtain s' where s': "pb_read S stream True 1 = Some (True, [?b], s')" "at_input s' (?rest @ ys) (len - 1)"
    "ierrmsg s' = ierrmsg stream"
    using pb_read_one [of stream ?b "?rest @ ys" len] "1.prems" e by (simp only: append_Cons length_Cons) auto
  have st: "pb_skip_varint S stream = (if n < 128 then Some (True, s') else pb_skip_varint S s')"
    using encode_byte(2) [of n] by (subst pb_skip_varint.simps) (simp add: s'(1))
  show ?case
  proof (cases "n < 128")
    case True
    then show ?thesis using st s' e by simp
  next
    case False
    then have le: "length (uleb_encode (n div 128)) \<le> len - 1" using "1.prems"(2) e by simp
    have at': "at_input s' (uleb_encode (n div 128) @ ys) (len - 1)" using s'(2) False by simp
    show ?thesis using "1.IH" [OF _ at' le] False st s'(3) e by simp
  qed
qed

lemma pb_skip_deliver:
  assumes "at_input stream (xs @ ys) n" "length xs = unat count" "length xs \<le> n"
  shows "\<exists>stream'. pb_skip S stream count = Some (True, stream') \<and>
    at_input stream' ys (n - length xs) \<and> ierrmsg stream' = ierrmsg stream"
  using pb_read_deliver [OF assms, of False] by (auto simp: pb_skip_def)

lemma length_word: "length xs < 2 ^ 32 \<Longrightarrow> unat (ucast (word_of_nat (length xs) :: u32) :: u64) = length xs"
  by (simp add: unat_ucast_up unat_of_nat)

lemma pb_skip_string_deliver:
  assumes "at_input stream (uleb_encode (length xs) @ xs @ ys) len"
    and "length (uleb_encode (length xs)) + length xs \<le> len" "length xs < 2 ^ 32"
  shows "\<exists>stream'. pb_skip_string S stream = Some (True, stream') \<and>
    at_input stream' ys (len - length (uleb_encode (length xs)) - length xs) \<and> ierrmsg stream' = ierrmsg stream"
proof -
  obtain s1 where s1: "pb_decode_varint32 S stream = Some (Some (word_of_nat (length xs)), s1)"
    "at_input s1 (xs @ ys) (len - length (uleb_encode (length xs)))" "ierrmsg s1 = ierrmsg stream"
    using pb_decode_varint32_value [OF assms(1) _ assms(3)] assms(2) by auto
  have le: "length xs \<le> len - length (uleb_encode (length xs))" using assms(2) by simp
  obtain s2 where "pb_skip S s1 (ucast (word_of_nat (length xs) :: u32)) = Some (True, s2)"
    "at_input s2 ys (len - length (uleb_encode (length xs)) - length xs)" "ierrmsg s2 = ierrmsg s1"
    using pb_skip_deliver [OF s1(2) length_word [OF assms(3), symmetric] le] by blast
  then show ?thesis using s1 by (auto simp: pb_skip_string_def)
qed

lemma pb_skip_field_deliver:
  assumes "at_input stream (bs @ ys) len" "length bs \<le> len" "wire_value w bs"
  shows "\<exists>stream'. pb_skip_field S stream w = Some (True, stream') \<and>
    at_input stream' ys (len - length bs) \<and> ierrmsg stream' = ierrmsg stream"
  using assms(3) unfolding wire_value_def
proof (elim disjE conjE exE)
  fix n assume "w = PB_WT_VARINT" "bs = uleb_encode n"
  then show ?thesis using pb_skip_varint_deliver assms(1,2) by (simp add: pb_skip_field_def)
next
  assume "w = PB_WT_64BIT" "length bs = 8"
  then show ?thesis using pb_skip_deliver [OF assms(1), of 8] assms(2) by (simp add: pb_skip_field_def wire_types)
next
  fix xs assume s: "w = PB_WT_STRING" "bs = uleb_encode (length xs) @ xs" "length xs < 2 ^ 32"
  then show ?thesis using pb_skip_string_deliver [of stream xs ys len] assms(1,2)
    by (simp add: pb_skip_field_def wire_types)
next
  assume "w = PB_WT_32BIT" "length bs = 4"
  then show ?thesis using pb_skip_deliver [OF assms(1), of 4] assms(2) by (simp add: pb_skip_field_def wire_types)
qed

lemma substream_open:
  assumes "at_input stream (uleb_encode (length xs) @ xs @ ys) len"
    and "length (uleb_encode (length xs)) + length xs \<le> len" "length xs < 2 ^ 32"
  shows "\<exists>stream' sub. pb_make_string_substream S stream = Some (True, stream', Some sub) \<and>
    at_input sub (xs @ ys) (length xs) \<and> ierrmsg sub = ierrmsg stream \<and>
    unat (bytes_left stream') = len - length (uleb_encode (length xs)) - length xs"
proof -
  obtain s1 where s1: "pb_decode_varint32 S stream = Some (Some (word_of_nat (length xs)), s1)"
    "at_input s1 (xs @ ys) (len - length (uleb_encode (length xs)))" "ierrmsg s1 = ierrmsg stream"
    using pb_decode_varint32_value [OF assms(1) _ assms(3)] assms(2) by auto
  let ?n = "ucast (word_of_nat (length xs) :: u32) :: u64"
  note u = length_word [OF assms(3)]
  have "\<not> bytes_left s1 < ?n" using s1(2) u assms(2) by (simp add: word_less_nat_alt at_input_def)
  moreover have "unat (bytes_left s1 - ?n) = len - length (uleb_encode (length xs)) - length xs"
    using s1(2) u assms(2) by (subst unat_sub) (simp_all add: word_le_nat_alt at_input_def)
  ultimately show ?thesis using s1 u by (simp add: pb_make_string_substream_def at_input_def)
qed

lemma substream_close:
  assumes "at_input sub (zs @ ys) (length zs)" "unat (bytes_left stream) = n"
  shows "\<exists>stream'. pb_close_string_substream S stream sub = Some (True, stream') \<and>
    at_input stream' ys n \<and> ierrmsg stream' = ierrmsg sub"
proof (cases "bytes_left sub = 0")
  case True
  then have "zs = []" using assms(1) by (simp add: at_input_def)
  then show ?thesis using True assms by (simp add: pb_close_string_substream_def at_input_def)
next
  case False
  have "length zs = unat (bytes_left sub)" using assms(1) by (simp add: at_input_def)
  then obtain s2 where "pb_skip S sub (bytes_left sub) = Some (True, s2)" "at_input s2 ys (length zs - length zs)"
    "ierrmsg s2 = ierrmsg sub"
    using pb_skip_deliver [OF assms(1)] by auto
  then show ?thesis using False assms(2) by (simp add: pb_close_string_substream_def at_input_def)
qed

end

end
