(* ===== verification/Pb_Encode.thy ===== *)
theory Pb_Encode
  imports Pb_Decode
begin

text \<open>
  The output streams and the encoders of \<open>pb_encode.c\<close> below the level of fields.  In the locale
  \<open>pb_output\<close>, \<open>emits f xs\<close> says at once what the encoder \<open>f\<close> counts on a sizing stream, writes on a
  stream with room, and does on one without; \<open>emits_then\<close> composes encoders.  The buffer is the
  interpretation.
\<close>

section \<open>Output\<close>

record 'st pb_ostream =
  ostate :: 'st
  max_size :: u64
  bytes_written :: u64
  oerrmsg :: "string option"

text \<open>A callback gets the stream and the bytes; the null callback of a sizing stream is \<^term>\<open>None\<close>.\<close>

type_synonym 'st pb_callback = "'st pb_ostream \<Rightarrow> byte list \<Rightarrow> (bool \<times> 'st pb_ostream) option"
type_synonym 'st pb_sink = "'st pb_callback option"

text \<open>The memory of a buffer, and the stores into it.\<close>

type_synonym memory = "u64 \<Rightarrow> byte option"

fun store_bytes :: "memory \<Rightarrow> u64 \<Rightarrow> byte list \<Rightarrow> memory option" where
  "store_bytes m p [] = Some m"
| "store_bytes m p (b # bs) = (if m p = None then None else store_bytes (m(p \<mapsto> b)) (p + 1) bs)"

definition buf_write :: "(u64 \<times> memory) pb_callback" where
  "buf_write stream buf =
     (case ostate stream of (dest, m) \<Rightarrow> do {
        m \<leftarrow> store_bytes m dest buf;
        Some (True, stream\<lparr>ostate := (dest + word_of_nat (length buf), m)\<rparr>) })"

definition pb_ostream_from_buffer :: "memory \<Rightarrow> u64 \<Rightarrow> u64 \<Rightarrow> (u64 \<times> memory) pb_ostream" where
  "pb_ostream_from_buffer m buf bufsize =
     \<lparr>ostate = (buf, m), max_size = bufsize, bytes_written = 0, oerrmsg = None\<rparr>"

definition PB_OSTREAM_SIZING :: "'st \<Rightarrow> 'st pb_ostream" where
  "PB_OSTREAM_SIZING st = \<lparr>ostate = st, max_size = 0, bytes_written = 0, oerrmsg = None\<rparr>"

definition oset_error :: "string \<Rightarrow> 'st pb_ostream \<Rightarrow> 'st pb_ostream" where
  "oset_error msg stream = stream\<lparr>oerrmsg := (case oerrmsg stream of None \<Rightarrow> Some msg | Some m \<Rightarrow> Some m)\<rparr>"

text \<open>\<open>buf\<close> is what the \<open>count\<close> bytes at the pointer are, \<^term>\<open>None\<close> where they cannot be read; a sizing
  stream does not read them.\<close>

definition pb_write ::
    "'st pb_sink \<Rightarrow> 'st pb_ostream \<Rightarrow> byte list option \<Rightarrow> u64 \<Rightarrow> (bool \<times> 'st pb_ostream) option" where
  "pb_write W stream buf count =
     (case (if count > 0 then W else None) of
        None \<Rightarrow> Some (True, stream\<lparr>bytes_written := bytes_written stream + count\<rparr>)
      | Some callback \<Rightarrow>
          if bytes_written stream + count < bytes_written stream \<or>
            bytes_written stream + count > max_size stream
          then Some (False, oset_error ''stream full'' stream)
          else do {
            bytes \<leftarrow> buf;
            (ok, stream) \<leftarrow> callback stream bytes;
            if \<not> ok then Some (False, oset_error ''io error'' stream)
            else Some (True, stream\<lparr>bytes_written := bytes_written stream + count\<rparr>) })"

section \<open>Encoding numbers\<close>

text \<open>The loop of \<open>pb_encode_varint\<close> fills \<open>buffer\<close>.\<close>

function varint_buffer :: "u64 \<Rightarrow> byte list" where
  "varint_buffer val =
     (if val = 0 then [] else (ucast (val AND 0x7F) OR 0x80) # varint_buffer (drop_bit 7 val))"
  by pat_completeness auto
termination
proof (relation "measure unat")
  fix val :: u64 assume "val \<noteq> 0"
  then have "0 < unat val" by (simp add: unat_gt_0)
  then show "(drop_bit 7 val, val) \<in> measure unat"
    by (simp add: drop_bit_eq_div unat_div)
qed simp

declare varint_buffer.simps [simp del]

definition pb_encode_varint :: "'st pb_sink \<Rightarrow> 'st pb_ostream \<Rightarrow> u64 \<Rightarrow> (bool \<times> 'st pb_ostream) option" where
  "pb_encode_varint W stream val =
     (if val \<le> 0x7F then pb_write W stream (Some [ucast val]) 1
      else
        let buffer = varint_buffer val; i = length buffer;
            buffer = buffer[i - 1 := buffer ! (i - 1) AND 0x7F] in
        pb_write W stream (Some buffer) (word_of_nat i))"

definition pb_encode_svarint :: "'st pb_sink \<Rightarrow> 'st pb_ostream \<Rightarrow> u64 \<Rightarrow> (bool \<times> 'st pb_ostream) option" where
  "pb_encode_svarint W stream val =
     (let zigzagged = (if sint val < 0 then NOT (push_bit 1 val) else push_bit 1 val) in
      pb_encode_varint W stream zigzagged)"

definition pb_encode_fixed32 :: "'st pb_sink \<Rightarrow> 'st pb_ostream \<Rightarrow> u32 \<Rightarrow> (bool \<times> 'st pb_ostream) option" where
  "pb_encode_fixed32 W stream val =
     pb_write W stream (Some [ucast (val AND 0xFF), ucast (drop_bit 8 val AND 0xFF),
       ucast (drop_bit 16 val AND 0xFF), ucast (drop_bit 24 val AND 0xFF)]) 4"

definition pb_encode_fixed64 :: "'st pb_sink \<Rightarrow> 'st pb_ostream \<Rightarrow> u64 \<Rightarrow> (bool \<times> 'st pb_ostream) option" where
  "pb_encode_fixed64 W stream val =
     pb_write W stream (Some [ucast (val AND 0xFF), ucast (drop_bit 8 val AND 0xFF),
       ucast (drop_bit 16 val AND 0xFF), ucast (drop_bit 24 val AND 0xFF),
       ucast (drop_bit 32 val AND 0xFF), ucast (drop_bit 40 val AND 0xFF),
       ucast (drop_bit 48 val AND 0xFF), ucast (drop_bit 56 val AND 0xFF)]) 8"

definition pb_encode_tag :: "'st pb_sink \<Rightarrow> 'st pb_ostream \<Rightarrow> u32 \<Rightarrow> u32 \<Rightarrow> (bool \<times> 'st pb_ostream) option" where
  "pb_encode_tag W stream wiretype field_number =
     pb_encode_varint W stream (push_bit 3 (ucast field_number) OR ucast wiretype)"

definition pb_encode_string ::
    "'st pb_sink \<Rightarrow> 'st pb_ostream \<Rightarrow> byte list option \<Rightarrow> u64 \<Rightarrow> (bool \<times> 'st pb_ostream) option" where
  "pb_encode_string W stream buffer size' = do {
     (ok, stream) \<leftarrow> pb_encode_varint W stream size';
     if \<not> ok then Some (False, stream) else pb_write W stream buffer size' }"

section \<open>What an encoder emits\<close>

text \<open>The contract of a callback: from a state in which the bytes \<open>bs\<close> are written, it appends what it
  is given as long as at most \<open>room\<close> bytes are out.\<close>

lemma unat_u64_bound: "unat (w :: u64) < 2 ^ 64"
  using unsigned_less [of w, where 'a = nat] by simp

locale pb_output =
  fixes cb :: "'st pb_callback" and wrote :: "'st \<Rightarrow> byte list \<Rightarrow> bool" and room :: nat
  assumes append_out: "wrote (ostate stream) bs \<Longrightarrow> length bs + length xs \<le> room \<Longrightarrow>
    \<exists>st'. cb stream xs = Some (True, stream\<lparr>ostate := st'\<rparr>) \<and> wrote st' (bs @ xs)"
begin

text \<open>The bytes \<open>bs\<close> are out and \<open>r\<close> more may follow.\<close>

definition at_output :: "'st pb_ostream \<Rightarrow> byte list \<Rightarrow> nat \<Rightarrow> bool" where
  "at_output stream bs r \<longleftrightarrow> wrote (ostate stream) bs \<and>
     unat (bytes_written stream) + r = unat (max_size stream) \<and> length bs + r \<le> room"

text \<open>An encoder emits \<open>xs\<close>: on a sizing stream it counts them; with enough room it writes them; and
  without, it fails with an error after writing a part of them, as long as the counter does not wrap.\<close>

definition emits :: "('st pb_sink \<Rightarrow> 'st pb_ostream \<Rightarrow> (bool \<times> 'st pb_ostream) option) \<Rightarrow> byte list \<Rightarrow> bool" where
  "emits f xs \<longleftrightarrow>
     (\<forall>stream. f None stream = Some (True, stream\<lparr>bytes_written := bytes_written stream + word_of_nat (length xs)\<rparr>)) \<and>
     (\<forall>stream bs r. at_output stream bs r \<longrightarrow>
        (if length xs \<le> r
         then \<exists>stream'. f (Some cb) stream = Some (True, stream') \<and> at_output stream' (bs @ xs) (r - length xs) \<and>
           max_size stream' = max_size stream \<and> (oerrmsg stream = None \<longrightarrow> oerrmsg stream' = None)
         else unat (bytes_written stream) + length xs < 2 ^ 64 \<longrightarrow> (\<exists>stream' k. f (Some cb) stream = Some (False, stream') \<and> k \<le> r \<and>
           at_output stream' (bs @ take k xs) (r - k) \<and> oerrmsg stream' \<noteq> None)))"

lemma emits_sizing:
  "emits f xs \<Longrightarrow> f None stream = Some (True, stream\<lparr>bytes_written := bytes_written stream + word_of_nat (length xs)\<rparr>)"
  by (simp add: emits_def)

lemma emits_fits:
  assumes "emits f xs" "at_output stream bs r" "length xs \<le> r"
  obtains stream' where "f (Some cb) stream = Some (True, stream')" "at_output stream' (bs @ xs) (r - length xs)"
    "max_size stream' = max_size stream" "oerrmsg stream = None \<Longrightarrow> oerrmsg stream' = None"
  using assms unfolding emits_def by metis

lemma emits_full:
  assumes "emits f xs" "at_output stream bs r" "r < length xs" "unat (bytes_written stream) + length xs < 2 ^ 64"
  obtains stream' k where "f (Some cb) stream = Some (False, stream')" "k \<le> r"
    "at_output stream' (bs @ take k xs) (r - k)" "oerrmsg stream' \<noteq> None"
  using assms unfolding emits_def by (metis linorder_not_less)

lemma emits_write:
  assumes "length xs = unat count"
  shows "emits (\<lambda>W stream. pb_write W stream (Some xs) count) xs"
  unfolding emits_def
proof (intro conjI allI impI)
  fix stream :: "'st pb_ostream"
  show "pb_write None stream (Some xs) count =
      Some (True, stream\<lparr>bytes_written := bytes_written stream + word_of_nat (length xs)\<rparr>)"
    by (simp add: pb_write_def assms)
next
  fix stream bs r
  assume at: "at_output stream bs r"
  show "if length xs \<le> r
     then \<exists>stream'. pb_write (Some cb) stream (Some xs) count = Some (True, stream') \<and>
       at_output stream' (bs @ xs) (r - length xs) \<and>
       max_size stream' = max_size stream \<and> (oerrmsg stream = None \<longrightarrow> oerrmsg stream' = None)
     else unat (bytes_written stream) + length xs < 2 ^ 64 \<longrightarrow> (\<exists>stream' k. pb_write (Some cb) stream (Some xs) count = Some (False, stream') \<and> k \<le> r \<and>
       at_output stream' (bs @ take k xs) (r - k) \<and> oerrmsg stream' \<noteq> None)"
  proof (cases "count = 0")
    case True
    then show ?thesis using at assms by (simp add: pb_write_def)
  next
    case nz: False
    then have pos: "count > 0" by (simp add: word_gt_0)
    let ?b = "bytes_written stream" and ?m = "max_size stream"
    have sum: "unat ?b + r = unat ?m" "wrote (ostate stream) bs" "length bs + r \<le> room"
      using at by (simp_all add: at_output_def)
    show ?thesis
    proof (cases "length xs \<le> r")
      case True
      then have le: "unat ?b + unat count \<le> unat ?m" using sum assms by simp
      then have "unat ?b + unat count < 2 ^ 64" using unat_u64_bound [of ?m] by simp
      then have u: "unat (?b + count) = unat ?b + unat count" by (simp add: unat_word_ariths)
      then have ok: "\<not> (?b + count < ?b \<or> ?b + count > ?m)" using le by (simp add: word_less_nat_alt)
      obtain st' where st': "cb stream xs = Some (True, stream\<lparr>ostate := st'\<rparr>)" "wrote st' (bs @ xs)"
        using append_out [OF sum(2), of xs] sum(3) True by auto
      have "pb_write (Some cb) stream (Some xs) count =
          Some (True, stream\<lparr>ostate := st', bytes_written := ?b + count\<rparr>)"
        using pos ok by (simp add: pb_write_def st'(1))
      then show ?thesis using True st'(2) sum u assms by (simp add: at_output_def)
    next
      case False
      have "?b + count < ?b \<or> ?b + count > ?m"
      proof (cases "unat ?b + unat count < 2 ^ 64")
        case True
        then have "unat (?b + count) = unat ?b + unat count" by (simp add: unat_word_ariths)
        then show ?thesis using False sum(1) assms by (simp add: word_less_nat_alt)
      next
        case big: False
        then have "unat (?b + count) < unat ?b"
          using unat_u64_bound [of count] unat_u64_bound [of ?b] by (simp add: unat_word_ariths mod_if, linarith)
        then show ?thesis by (simp add: word_less_nat_alt)
      qed
      then have "pb_write (Some cb) stream (Some xs) count = Some (False, oset_error ''stream full'' stream)"
        using pos by (simp add: pb_write_def)
      then show ?thesis using False at
        by (intro if_not_P [THEN iffD2] exI [of _ "oset_error ''stream full'' stream"] exI [of _ 0])
          (auto simp: oset_error_def at_output_def split: option.split)
    qed
  qed
qed

lemma emitsI:
  assumes "\<And>stream. f None stream =
      Some (True, stream\<lparr>bytes_written := bytes_written stream + word_of_nat (length xs)\<rparr>)"
    and "\<And>stream bs r. at_output stream bs r \<Longrightarrow> length xs \<le> r \<Longrightarrow>
      \<exists>stream'. f (Some cb) stream = Some (True, stream') \<and> at_output stream' (bs @ xs) (r - length xs) \<and>
        max_size stream' = max_size stream \<and> (oerrmsg stream = None \<longrightarrow> oerrmsg stream' = None)"
    and "\<And>stream bs r. at_output stream bs r \<Longrightarrow> r < length xs \<Longrightarrow>
      unat (bytes_written stream) + length xs < 2 ^ 64 \<Longrightarrow>
      \<exists>stream' k. f (Some cb) stream = Some (False, stream') \<and> k \<le> r \<and>
        at_output stream' (bs @ take k xs) (r - k) \<and> oerrmsg stream' \<noteq> None"
  shows "emits f xs"
  unfolding emits_def using assms by simp

lemma emits_count:
  assumes "at_output stream bs r" "at_output stream' bs' (r - n)" "max_size stream' = max_size stream" "n \<le> r"
  shows "unat (bytes_written stream') = unat (bytes_written stream) + n"
proof -
  have "unat (bytes_written stream) + r = unat (max_size stream)"
    "unat (bytes_written stream') + (r - n) = unat (max_size stream)"
    using assms(1-3) by (simp_all add: at_output_def)
  then show ?thesis using assms(4) by linarith
qed

lemma emits_Nil: "emits (\<lambda>W stream. Some (True, stream)) []"
  by (rule emitsI) simp_all

lemma emits_then:
  assumes "emits f xs" "emits g ys"
  shows "emits (\<lambda>W stream. do { (ok, stream) \<leftarrow> f W stream;
    if \<not> ok then Some (False, stream) else g W stream }) (xs @ ys)"
proof (rule emitsI, goal_cases)
  case (1 stream)
  show ?case using assms by (simp add: emits_sizing add.assoc)
next
  case (2 stream bs r)
  then have "length xs \<le> r" "length ys \<le> r - length xs" by simp_all
  obtain s where s: "f (Some cb) stream = Some (True, s)" "at_output s (bs @ xs) (r - length xs)"
    "max_size s = max_size stream" "oerrmsg stream = None \<Longrightarrow> oerrmsg s = None"
    using emits_fits [OF assms(1) 2(1) \<open>length xs \<le> r\<close>] by metis
  obtain s' where "g (Some cb) s = Some (True, s')" "at_output s' ((bs @ xs) @ ys) (r - length xs - length ys)"
    "max_size s' = max_size s" "oerrmsg s = None \<Longrightarrow> oerrmsg s' = None"
    using emits_fits [OF assms(2) s(2) \<open>length ys \<le> r - length xs\<close>] by metis
  then show ?case using s by simp
next
  case (3 stream bs r)
  show ?case
  proof (cases "length xs \<le> r")
    case False
    then obtain s k where "f (Some cb) stream = Some (False, s)" "k \<le> r"
      "at_output s (bs @ take k xs) (r - k)" "oerrmsg s \<noteq> None"
      using emits_full [OF assms(1) 3(1)] 3(3) by auto
    then show ?thesis using False by auto
  next
    case True
    obtain s where s: "f (Some cb) stream = Some (True, s)" "at_output s (bs @ xs) (r - length xs)"
      "max_size s = max_size stream"
      using emits_fits [OF assms(1) 3(1) True] by metis
    have "unat (bytes_written s) + length ys < 2 ^ 64" "r - length xs < length ys"
      using emits_count [OF 3(1) s(2,3) True] 3(2,3) True by simp_all
    then obtain s' k where s': "g (Some cb) s = Some (False, s')" "k \<le> r - length xs"
      "at_output s' ((bs @ xs) @ take k ys) (r - length xs - k)" "oerrmsg s' \<noteq> None"
      using emits_full [OF assms(2) s(2)] by metis
    have "at_output s' (bs @ take (length xs + k) (xs @ ys)) (r - (length xs + k))" using s'(3) by simp
    moreover have "length xs + k \<le> r" using s'(2) True by simp
    ultimately show ?thesis using s(1) s'(1,4)
      by (intro exI [of _ s'] exI [of _ "length xs + k"]) simp
  qed
qed

end

lemma and_low7: "unat (v AND 0x7F) = unat (v :: u64) mod 128"
proof -
  have "v AND 0x7F = take_bit 7 v" by (simp add: take_bit_eq_mask mask_eq_exp_minus_1)
  moreover have "unat (take_bit 7 v) = unat v mod 2 ^ 7"
    unfolding unsigned_take_bit_eq by (simp only: take_bit_eq_mod)
  ultimately show ?thesis by simp
qed

lemma unat_ucast_byte: "unat (ucast w :: byte) = unat (w :: 'a :: len word) mod 256"
  by (simp add: unsigned_ucast_eq take_bit_eq_mod)

lemma byte_eqI: "unat (b :: byte) = n mod 256 \<Longrightarrow> b = word_of_nat n"
  by (simp add: word_unat_eq_iff unat_of_nat)

lemma low7_byte: "ucast (v AND 0x7F) = (word_of_nat (unat (v :: u64) mod 128) :: byte)"
  by (rule byte_eqI) (simp add: unat_ucast_byte and_low7)

lemma continued_byte: "ucast (v AND 0x7F) OR 0x80 = (word_of_nat (unat (v :: u64) mod 128 + 128) :: byte)"
proof -
  let ?r = "ucast (v AND 0x7F) :: byte"
  have r: "unat ?r = unat v mod 128" by (simp add: unat_ucast_byte and_low7)
  then have "unat ?r < 2 ^ 7" by simp
  moreover have "(0x80 :: byte) = push_bit 7 (word_of_nat 1)" by simp
  ultimately show ?thesis using or_push_word [of ?r 7 1] r by simp
qed

lemma last_byte: "(ucast (v AND 0x7F) OR 0x80) AND 0x7F = (word_of_nat (unat (v :: u64) mod 128) :: byte)"
  using low7 [of "unat v mod 128 + 128"] by (simp add: continued_byte and.commute)

lemma varint_buffer_encode:
  assumes "v \<noteq> 0"
  shows "varint_buffer v \<noteq> [] \<and>
    (varint_buffer v)[length (varint_buffer v) - 1 := varint_buffer v ! (length (varint_buffer v) - 1) AND 0x7F] =
    uleb_encode (unat v)"
  using assms
proof (induction v rule: varint_buffer.induct)
  case (1 v)
  let ?b = "ucast (v AND 0x7F) OR 0x80 :: byte" and ?rest = "varint_buffer (drop_bit 7 v)"
  have b: "varint_buffer v = ?b # ?rest" using "1.prems" by (subst varint_buffer.simps) simp
  have d: "unat (drop_bit 7 v) = unat v div 128" by (simp add: drop_bit_eq_div unat_div)
  have z: "drop_bit 7 v = 0 \<longleftrightarrow> unat v < 128" by (simp only: unat_eq_zero [symmetric] d) (simp add: div_eq_0_iff)
  show ?case
  proof (cases "unat v < 128")
    case True
    then have "?rest = []" using z by (subst varint_buffer.simps) simp
    then show ?thesis using True last_byte [of v] by (simp add: b encode_step [of "unat v"])
  next
    case False
    then have ih: "?rest \<noteq> []" "?rest[length ?rest - 1 := ?rest ! (length ?rest - 1) AND 0x7F] =
        uleb_encode (unat v div 128)"
      using "1.IH" "1.prems" z d by simp_all
    then obtain k where k: "length ?rest = Suc k" by (cases ?rest) auto
    then show ?thesis using False ih(2) continued_byte [of v] by (simp add: b encode_step [of "unat v"])
  qed
qed

lemma uleb_length_le:
  assumes "n < 128 ^ k" "0 < k"
  shows "length (uleb_encode n) \<le> k"
  using assms
proof (induction k arbitrary: n)
  case (Suc k)
  show ?case
  proof (cases "n < 128")
    case False
    then have "0 < k" using Suc.prems(1) by (cases k) auto
    moreover have "n div 128 < 128 ^ k" using Suc.prems(1) by (simp add: div_less_iff_less_mult mult.commute)
    ultimately show ?thesis using Suc.IH [of "n div 128"] by (subst encode_step) simp
  qed (subst encode_step, simp)
qed simp

lemma uleb_length_u64: "length (uleb_encode (unat (v :: u64))) \<le> 10"
proof (rule uleb_length_le)
  show "unat v < 128 ^ 10" by (rule less_trans [OF unat_u64_bound]) simp
qed simp

lemma varint_written:
  "pb_encode_varint W stream v =
    pb_write W stream (Some (uleb_encode (unat v))) (word_of_nat (length (uleb_encode (unat v))))"
proof (cases "v \<le> 0x7F")
  case True
  then have "unat v < 128" by (simp add: word_le_nat_alt)
  moreover have "ucast v = (word_of_nat (unat v) :: byte)" by simp
  ultimately show ?thesis using True by (subst (1 2) encode_step) (simp add: pb_encode_varint_def)
next
  case False
  then have "v \<noteq> 0" by auto
  from varint_buffer_encode [OF this] have e: "(varint_buffer v)[length (varint_buffer v) - 1 :=
      varint_buffer v ! (length (varint_buffer v) - 1) AND 0x7F] = uleb_encode (unat v)" by simp
  then have "length (uleb_encode (unat v)) = length (varint_buffer v)" by (metis length_list_update)
  then show ?thesis using False e by (simp add: pb_encode_varint_def Let_def)
qed

lemma low8: "unat (x AND 0xFF) = unat (x :: 'a :: len word) mod 256" if "8 < LENGTH('a)"
proof -
  have "x AND 0xFF = take_bit 8 x" by (simp add: take_bit_eq_mask mask_eq_exp_minus_1)
  moreover have "unat (take_bit 8 x) = unat x mod 2 ^ 8"
    unfolding unsigned_take_bit_eq by (simp only: take_bit_eq_mod)
  ultimately show ?thesis by simp
qed

lemma byte_at: "ucast (drop_bit k x AND 0xFF) = (word_of_nat (unat (x :: 'a :: len word) div 2 ^ k mod 256) :: byte)"
  if "8 < LENGTH('a)"
proof (rule byte_eqI)
  have "unat (drop_bit k x) = unat x div 2 ^ k" unfolding unat_drop_bit_eq by (simp only: drop_bit_eq_div)
  then show "unat (ucast (drop_bit k x AND 0xFF) :: byte) = unat x div 2 ^ k mod 256 mod 256"
    by (simp add: unat_ucast_byte low8 [OF that])
qed

lemma le_bytes_map: "le_bytes n x = map (\<lambda>i. word_of_nat (x div 2 ^ (8 * i) mod 256)) [0..<n]"
proof (induction n arbitrary: x)
  case (Suc n)
  have "x div 256 div 2 ^ (8 * i) = x div 2 ^ (8 * Suc i)" for i
    by (simp add: div_mult2_eq [symmetric] power_add)
  then show ?case by (simp add: Suc.IH map_upt_Suc del: upt_Suc)
qed simp

lemma upto4: "[0..<4] = [0, 1, 2, 3 :: nat]"
  by (simp add: upt_rec)

lemma upto8: "[0..<8] = [0, 1, 2, 3, 4, 5, 6, 7 :: nat]"
  by (simp add: upt_rec)

lemma le_bytes4: "le_bytes 4 n = [word_of_nat (n div 2 ^ 0 mod 256), word_of_nat (n div 2 ^ 8 mod 256),
    word_of_nat (n div 2 ^ 16 mod 256), word_of_nat (n div 2 ^ 24 mod 256)]"
  unfolding le_bytes_map upto4 by simp

lemma le_bytes8: "le_bytes 8 n = [word_of_nat (n div 2 ^ 0 mod 256), word_of_nat (n div 2 ^ 8 mod 256),
    word_of_nat (n div 2 ^ 16 mod 256), word_of_nat (n div 2 ^ 24 mod 256),
    word_of_nat (n div 2 ^ 32 mod 256), word_of_nat (n div 2 ^ 40 mod 256),
    word_of_nat (n div 2 ^ 48 mod 256), word_of_nat (n div 2 ^ 56 mod 256)]"
  unfolding le_bytes_map upto8 by simp

lemma fixed32_written: "pb_encode_fixed32 W stream v = pb_write W stream (Some (le_bytes 4 (unat v))) 4"
  using byte_at [of 0 v] by (simp add: pb_encode_fixed32_def le_bytes4 byte_at)

lemma fixed64_written: "pb_encode_fixed64 W stream v = pb_write W stream (Some (le_bytes 8 (unat v))) 8"
  using byte_at [of 0 v] by (simp add: pb_encode_fixed64_def le_bytes8 byte_at)

text \<open>The zigzag code of a signed number.\<close>

definition zigzag :: "u64 \<Rightarrow> u64" where
  "zigzag v = (if sint v < 0 then NOT (push_bit 1 v) else push_bit 1 v)"

lemma sign_bit: "sint (v :: u64) < 0 \<longleftrightarrow> bit v 63"
  using bit_last_iff [of v] by simp

lemma bit_zigzag: "bit (zigzag v) n \<longleftrightarrow> n < 64 \<and> ((sint v < 0) \<noteq> (0 < n \<and> bit v (n - 1)))"
  unfolding zigzag_def by (cases "sint v < 0") (auto simp: bit_not_iff bit_push_bit_iff simp del: push_bit_Suc)

lemma zigzag_low_bit: "zigzag v AND 1 \<noteq> 0 \<longleftrightarrow> sint v < 0"
proof -
  have "zigzag v AND 1 \<noteq> 0 \<longleftrightarrow> bit (zigzag v) 0"
    by (simp add: and_one_eq odd_iff_mod_2_eq_one [symmetric] bit_0)
  then show ?thesis by (simp add: bit_zigzag)
qed

lemma zigzag_back: "(if zigzag v AND 1 \<noteq> 0 then NOT (drop_bit 1 (zigzag v)) else drop_bit 1 (zigzag v)) = v"
proof (rule bit_word_eqI)
  fix n assume "n < LENGTH(64)"
  then have n: "n < 64" by simp
  have d: "bit (drop_bit 1 (zigzag v)) n \<longleftrightarrow> n < 63 \<and> ((sint v < 0) \<noteq> bit v n)"
    unfolding bit_drop_bit_eq comp_def bit_zigzag by auto
  have nb: "bit (NOT (drop_bit 1 (zigzag v))) n \<longleftrightarrow> \<not> bit (drop_bit 1 (zigzag v)) n"
    using n by (simp only: bit_not_iff possible_bit_word) simp
  have "n = 63 \<or> n < 63" using n by auto
  then show "bit (if zigzag v AND 1 \<noteq> 0 then NOT (drop_bit 1 (zigzag v)) else drop_bit 1 (zigzag v)) n = bit v n"
    unfolding zigzag_low_bit if_distrib [where f = "\<lambda>w. bit w n"] nb d using sign_bit [of v] by auto
qed

lemma tag_sum:
  fixes w t :: u32
  assumes "unat w < 8"
  shows "push_bit 3 (ucast t) OR ucast w = (word_of_nat (unat t * 8 + unat w) :: u64)"
    and "unat (word_of_nat (unat t * 8 + unat w) :: u64) = unat t * 8 + unat w"
proof -
  have w: "unat (ucast w :: u64) = unat w" "unat (ucast w :: u64) < 2 ^ 3"
    using assms by (simp_all add: unat_ucast_up)
  have "ucast t = (word_of_nat (unat t) :: u64)" by simp
  then show "push_bit 3 (ucast t) OR ucast w = (word_of_nat (unat t * 8 + unat w) :: u64)"
    using or_push_word [OF w(2), of "unat t"] w(1) by (simp add: or.commute add.commute)
  have "unat t < 2 ^ 32" using unsigned_less [of t, where 'a = nat] by simp
  then have "unat t * 8 + unat w < 2 ^ 64" using assms by simp
  then show "unat (word_of_nat (unat t * 8 + unat w) :: u64) = unat t * 8 + unat w"
    by (simp only: unat_of_nat) (simp add: mod_less)
qed

lemma svarint_written: "pb_encode_svarint W stream v = pb_encode_varint W stream (zigzag v)"
  by (simp add: pb_encode_svarint_def zigzag_def)

context pb_output begin

lemma emits_varint: "emits (\<lambda>W stream. pb_encode_varint W stream v) (uleb_encode (unat v))"
proof -
  have "length (uleb_encode (unat v)) = unat (word_of_nat (length (uleb_encode (unat v))) :: u64)"
    using uleb_length_u64 [of v] by (simp add: unat_of_nat)
  from emits_write [OF this] show ?thesis by (simp only: varint_written)
qed

lemma emits_svarint: "emits (\<lambda>W stream. pb_encode_svarint W stream v) (uleb_encode (unat (zigzag v)))"
  using emits_varint by (simp only: svarint_written)

lemma emits_fixed32: "emits (\<lambda>W stream. pb_encode_fixed32 W stream v) (le_bytes 4 (unat v))"
  by (simp only: fixed32_written) (rule emits_write, simp)

lemma emits_fixed64: "emits (\<lambda>W stream. pb_encode_fixed64 W stream v) (le_bytes 8 (unat v))"
  by (simp only: fixed64_written) (rule emits_write, simp)

lemma emits_tag:
  "unat w < 8 \<Longrightarrow> emits (\<lambda>W stream. pb_encode_tag W stream w t) (uleb_encode (unat t * 8 + unat w))"
  unfolding pb_encode_tag_def using emits_varint [of "word_of_nat (unat t * 8 + unat w)"] tag_sum [of w t] by simp

lemma emits_string:
  assumes "length xs = unat n"
  shows "emits (\<lambda>W stream. pb_encode_string W stream (Some xs) n) (uleb_encode (length xs) @ xs)"
  using emits_then [OF emits_varint [of n] emits_write [OF assms]]
  by (simp add: pb_encode_string_def assms)

end

section \<open>Buffers\<close>

definition overwrite :: "memory \<Rightarrow> u64 \<Rightarrow> byte list \<Rightarrow> memory" where
  "overwrite m p bs = (\<lambda>q. if unat (q - p) < length bs then Some (bs ! unat (q - p)) else m q)"

definition in_buffer :: "memory \<Rightarrow> u64 \<Rightarrow> u64 \<times> memory \<Rightarrow> byte list \<Rightarrow> bool" where
  "in_buffer m0 base st bs \<longleftrightarrow> st = (base + word_of_nat (length bs), overwrite m0 base bs)"

text \<open>Memory that can be stored into, from \<open>base\<close> on for \<open>n\<close> bytes.\<close>

definition mapped :: "memory \<Rightarrow> u64 \<Rightarrow> nat \<Rightarrow> bool" where
  "mapped m base n \<longleftrightarrow> n \<le> 2 ^ 64 \<and> (\<forall>i < n. m (base + word_of_nat i) \<noteq> None)"

lemma overwrite_Nil [simp]: "overwrite m p [] = m"
  by (simp add: overwrite_def)

lemma offset_unat: "i < 2 ^ 64 \<Longrightarrow> unat (p + word_of_nat i - p :: u64) = i"
  by (simp add: unat_of_nat)

lemma overwrite_snoc:
  assumes "length bs < 2 ^ 64"
  shows "overwrite m p (bs @ [b]) = (overwrite m p bs)(p + word_of_nat (length bs) \<mapsto> b)"
proof
  fix q
  have "q = p + word_of_nat (length bs)" if e: "unat (q - p) = length bs"
  proof -
    have "q - p = word_of_nat (length bs)" using arg_cong [OF e, of "word_of_nat :: nat \<Rightarrow> u64"] by simp
    then show ?thesis by (simp add: diff_eq_eq add.commute)
  qed
  then have "q = p + word_of_nat (length bs) \<longleftrightarrow> unat (q - p) = length bs"
    using offset_unat [OF assms, of p] by auto
  then show "overwrite m p (bs @ [b]) q = ((overwrite m p bs)(p + word_of_nat (length bs) \<mapsto> b)) q"
    by (auto simp: overwrite_def nth_append less_Suc_eq)
qed

lemma store_overwrite:
  assumes "mapped m base n" "length bs + length xs \<le> n"
  shows "store_bytes (overwrite m base bs) (base + word_of_nat (length bs)) xs = Some (overwrite m base (bs @ xs))"
  using assms(2)
proof (induction xs arbitrary: bs)
  case (Cons x xs)
  have n: "n \<le> 2 ^ 64" "m (base + word_of_nat (length bs)) \<noteq> None"
    using assms(1) Cons.prems by (simp_all add: mapped_def)
  then have lt: "length bs < 2 ^ 64" using Cons.prems by simp
  then have "overwrite m base bs (base + word_of_nat (length bs)) \<noteq> None"
    using n(2) by (simp add: overwrite_def unat_of_nat)
  moreover have "store_bytes (overwrite m base (bs @ [x])) (base + word_of_nat (length bs) + 1) xs =
      Some (overwrite m base (bs @ x # xs))"
    using Cons.IH [of "bs @ [x]"] Cons.prems by (simp add: ac_simps)
  ultimately show ?case by (simp only: store_bytes.simps if_False overwrite_snoc [OF lt, symmetric])
qed simp

lemma holds_overwrite: "length bs \<le> 2 ^ 64 \<Longrightarrow> holds (flat_task (overwrite m p bs)) p bs"
  by (simp add: holds_nth overwrite_def unat_of_nat)

text \<open>A mapped buffer appends; nothing but its first bytes changes.\<close>

interpretation buffer_out: pb_output buf_write "\<lambda>st bs. mapped m base n \<and> in_buffer m base st bs" n for m base n
proof
  fix stream :: "(u64 \<times> memory) pb_ostream" and bs xs :: "byte list"
  assume "mapped m base n \<and> in_buffer m base (ostate stream) bs" "length bs + length xs \<le> n"
  then show "\<exists>st'. buf_write stream xs = Some (True, stream\<lparr>ostate := st'\<rparr>) \<and>
      (mapped m base n \<and> in_buffer m base st' (bs @ xs))"
    using store_overwrite [of m base n bs xs]
    by (intro exI [of _ "(base + word_of_nat (length (bs @ xs)), overwrite m base (bs @ xs))"])
      (simp add: buf_write_def in_buffer_def add.assoc)
qed

lemma buffer_out_start:
  "mapped m buf (unat n) \<Longrightarrow>
    buffer_out.at_output m buf (unat n) (pb_ostream_from_buffer m buf n) [] (unat n)"
  unfolding buffer_out.at_output_def by (simp add: pb_ostream_from_buffer_def in_buffer_def)

end
