(* ===== verification/Pb_Field.thy ===== *)
theory Pb_Field
  imports Pb_Encode
begin

text \<open>
  The fields of a message: their descriptions (\<open>pb.h\<close>), the iterator over a table of them
  (\<open>pb_common.c\<close>), and the encoder and decoder of one value of every type, from and into the memory of
  the message structure.
\<close>

section \<open>Field descriptions\<close>

record pb_field =
  tag :: u32
  ftype :: byte
  data_offset :: u32
  size_offset :: u32
  data_size :: u32
  array_size :: u32
  ptr :: u64

definition PB_LTYPE :: "byte \<Rightarrow> byte" where "PB_LTYPE x = x AND 0x0F"
definition PB_HTYPE :: "byte \<Rightarrow> byte" where "PB_HTYPE x = x AND 0x30"
definition PB_ATYPE :: "byte \<Rightarrow> byte" where "PB_ATYPE x = x AND 0xC0"

definition PB_LTYPE_BOOL :: byte where "PB_LTYPE_BOOL = 0x00"
definition PB_LTYPE_VARINT :: byte where "PB_LTYPE_VARINT = 0x01"
definition PB_LTYPE_UVARINT :: byte where "PB_LTYPE_UVARINT = 0x02"
definition PB_LTYPE_SVARINT :: byte where "PB_LTYPE_SVARINT = 0x03"
definition PB_LTYPE_FIXED32 :: byte where "PB_LTYPE_FIXED32 = 0x04"
definition PB_LTYPE_FIXED64 :: byte where "PB_LTYPE_FIXED64 = 0x05"
definition PB_LTYPE_BYTES :: byte where "PB_LTYPE_BYTES = 0x06"
definition PB_LTYPE_STRING :: byte where "PB_LTYPE_STRING = 0x07"
definition PB_LTYPE_SUBMESSAGE :: byte where "PB_LTYPE_SUBMESSAGE = 0x08"
definition PB_LTYPE_EXTENSION :: byte where "PB_LTYPE_EXTENSION = 0x09"
definition PB_LTYPE_FIXED_LENGTH_BYTES :: byte where "PB_LTYPE_FIXED_LENGTH_BYTES = 0x0A"
definition PB_HTYPE_REQUIRED :: byte where "PB_HTYPE_REQUIRED = 0x00"
definition PB_HTYPE_OPTIONAL :: byte where "PB_HTYPE_OPTIONAL = 0x10"
definition PB_HTYPE_REPEATED :: byte where "PB_HTYPE_REPEATED = 0x20"
definition PB_HTYPE_ONEOF :: byte where "PB_HTYPE_ONEOF = 0x30"
definition PB_ATYPE_STATIC :: byte where "PB_ATYPE_STATIC = 0x00"
definition PB_ATYPE_POINTER :: byte where "PB_ATYPE_POINTER = 0x80"

lemmas pb_ltypes = PB_LTYPE_BOOL_def PB_LTYPE_VARINT_def PB_LTYPE_UVARINT_def PB_LTYPE_SVARINT_def
  PB_LTYPE_FIXED32_def PB_LTYPE_FIXED64_def PB_LTYPE_BYTES_def PB_LTYPE_STRING_def
  PB_LTYPE_SUBMESSAGE_def PB_LTYPE_EXTENSION_def PB_LTYPE_FIXED_LENGTH_BYTES_def
lemmas pb_htypes = PB_HTYPE_REQUIRED_def PB_HTYPE_OPTIONAL_def PB_HTYPE_REPEATED_def PB_HTYPE_ONEOF_def
lemmas pb_atypes = PB_ATYPE_STATIC_def PB_ATYPE_POINTER_def

section \<open>Walking the fields of a message\<close>

text \<open>\<open>pb_field_iter_t\<close>: the table is a list of fields, \<open>pos\<close> an index into it.\<close>

record pb_field_iter =
  start :: "pb_field list"
  pos :: nat
  required_field_index :: u32
  dest_struct :: u64
  pData :: u64
  pSize :: u64

definition field_at :: "pb_field list \<Rightarrow> nat \<Rightarrow> pb_field option" where
  "field_at table i = (if i < length table then Some (table ! i) else None)"

definition pb_field_iter_begin :: "pb_field list \<Rightarrow> u64 \<Rightarrow> (bool \<times> pb_field_iter) option" where
  "pb_field_iter_begin table dest = do {
     f \<leftarrow> field_at table 0;
     let data = dest + ucast (data_offset f);
     Some (tag f \<noteq> 0, \<lparr>start = table, pos = 0, required_field_index = 0, dest_struct = dest,
       pData = data, pSize = data + scast (size_offset f)\<rparr>) }"

definition pb_field_iter_next :: "pb_field_iter \<Rightarrow> (bool \<times> pb_field_iter) option" where
  "pb_field_iter_next iter = do {
     prev_field \<leftarrow> field_at (start iter) (pos iter);
     if tag prev_field = 0 then Some (False, iter)
     else do {
       let iter = iter\<lparr>pos := pos iter + 1\<rparr>;
       f \<leftarrow> field_at (start iter) (pos iter);
       if tag f = 0 then
         map_option (\<lambda>(b, iter). (False, iter)) (pb_field_iter_begin (start iter) (dest_struct iter))
       else
         let prev_size = ucast (data_size prev_field) :: u64 in
         if PB_HTYPE (ftype prev_field) = PB_HTYPE_ONEOF \<and> PB_HTYPE (ftype f) = PB_HTYPE_ONEOF \<and>
            data_offset f = 0xFFFFFFFF
         then Some (True, iter)
         else
           let prev_size =
                 (if PB_ATYPE (ftype prev_field) = PB_ATYPE_STATIC \<and>
                    PB_HTYPE (ftype prev_field) = PB_HTYPE_REPEATED
                  then prev_size * ucast (array_size prev_field)
                  else if PB_ATYPE (ftype prev_field) = PB_ATYPE_POINTER then 8
                  else prev_size);
               iter = (if PB_HTYPE (ftype prev_field) = PB_HTYPE_REQUIRED
                       then iter\<lparr>required_field_index := required_field_index iter + 1\<rparr> else iter);
               data = pData iter + prev_size + ucast (data_offset f) in
           Some (True, iter\<lparr>pData := data, pSize := data + scast (size_offset f)\<rparr>) } }"

partial_function (option) find_loop ::
    "pb_field_iter \<Rightarrow> nat \<Rightarrow> u32 \<Rightarrow> (bool \<times> pb_field_iter) option" where
  [code]: "find_loop iter start' t =
     Option.bind (field_at (start iter) (pos iter)) (\<lambda>f.
       if tag f = t \<and> PB_LTYPE (ftype f) \<noteq> PB_LTYPE_EXTENSION then Some (True, iter)
       else Option.bind (pb_field_iter_next iter) (\<lambda>r. case r of (b, iter) \<Rightarrow>
         if pos iter \<noteq> start' then find_loop iter start' t else Some (False, iter)))"

definition pb_field_iter_find :: "pb_field_iter \<Rightarrow> u32 \<Rightarrow> (bool \<times> pb_field_iter) option" where
  "pb_field_iter_find iter t = find_loop iter (pos iter) t"

section \<open>Encoding one value of a field\<close>

text \<open>\<open>m\<close> is the memory of the message structure, which the output does not overlap.\<close>

definition load_word :: "memory \<Rightarrow> u64 \<Rightarrow> nat \<Rightarrow> 'a :: len word option" where
  "load_word m p n = map_option le_word (read_map m p n)"

definition safe_read_bool :: "memory \<Rightarrow> u64 \<Rightarrow> bool option" where
  "safe_read_bool m p = map_option (\<lambda>b. b \<noteq> 0) (m p)"

definition pb_enc_bool ::
    "'st pb_sink \<Rightarrow> 'st pb_ostream \<Rightarrow> memory \<Rightarrow> pb_field \<Rightarrow> u64 \<Rightarrow> (bool \<times> 'st pb_ostream) option" where
  "pb_enc_bool W stream m field src = do {
     b \<leftarrow> safe_read_bool m src;
     pb_encode_varint W stream (if b then 1 else 0) }"

text \<open>The signed and the unsigned number of \<open>data_size\<close> bytes; the inner \<^term>\<open>None\<close> is an invalid size.\<close>

definition load_signed :: "memory \<Rightarrow> u32 \<Rightarrow> u64 \<Rightarrow> u64 option option" where
  "load_signed m n src =
     (if n = 1 then map_option (\<lambda>v :: byte. Some (scast v)) (load_word m src 1)
      else if n = 2 then map_option (\<lambda>v :: 16 word. Some (scast v)) (load_word m src 2)
      else if n = 4 then map_option (\<lambda>v :: u32. Some (scast v)) (load_word m src 4)
      else if n = 8 then map_option Some (load_word m src 8)
      else Some None)"

definition load_unsigned :: "memory \<Rightarrow> u32 \<Rightarrow> u64 \<Rightarrow> u64 option option" where
  "load_unsigned m n src =
     (if n = 1 then map_option (\<lambda>v :: byte. Some (ucast v)) (load_word m src 1)
      else if n = 2 then map_option (\<lambda>v :: 16 word. Some (ucast v)) (load_word m src 2)
      else if n = 4 then map_option (\<lambda>v :: u32. Some (ucast v)) (load_word m src 4)
      else if n = 8 then map_option Some (load_word m src 8)
      else Some None)"

definition pb_enc_varint ::
    "'st pb_sink \<Rightarrow> 'st pb_ostream \<Rightarrow> memory \<Rightarrow> pb_field \<Rightarrow> u64 \<Rightarrow> (bool \<times> 'st pb_ostream) option" where
  "pb_enc_varint W stream m field src = do {
     v \<leftarrow> load_signed m (data_size field) src;
     case v of None \<Rightarrow> Some (False, oset_error ''invalid data_size'' stream)
     | Some v \<Rightarrow> pb_encode_varint W stream v }"

definition pb_enc_uvarint ::
    "'st pb_sink \<Rightarrow> 'st pb_ostream \<Rightarrow> memory \<Rightarrow> pb_field \<Rightarrow> u64 \<Rightarrow> (bool \<times> 'st pb_ostream) option" where
  "pb_enc_uvarint W stream m field src = do {
     v \<leftarrow> load_unsigned m (data_size field) src;
     case v of None \<Rightarrow> Some (False, oset_error ''invalid data_size'' stream)
     | Some v \<Rightarrow> pb_encode_varint W stream v }"

definition pb_enc_svarint ::
    "'st pb_sink \<Rightarrow> 'st pb_ostream \<Rightarrow> memory \<Rightarrow> pb_field \<Rightarrow> u64 \<Rightarrow> (bool \<times> 'st pb_ostream) option" where
  "pb_enc_svarint W stream m field src = do {
     v \<leftarrow> load_signed m (data_size field) src;
     case v of None \<Rightarrow> Some (False, oset_error ''invalid data_size'' stream)
     | Some v \<Rightarrow> pb_encode_svarint W stream v }"

definition pb_enc_fixed32 ::
    "'st pb_sink \<Rightarrow> 'st pb_ostream \<Rightarrow> memory \<Rightarrow> pb_field \<Rightarrow> u64 \<Rightarrow> (bool \<times> 'st pb_ostream) option" where
  "pb_enc_fixed32 W stream m field src = do {
     v \<leftarrow> load_word m src 4; pb_encode_fixed32 W stream v }"

definition pb_enc_fixed64 ::
    "'st pb_sink \<Rightarrow> 'st pb_ostream \<Rightarrow> memory \<Rightarrow> pb_field \<Rightarrow> u64 \<Rightarrow> (bool \<times> 'st pb_ostream) option" where
  "pb_enc_fixed64 W stream m field src = do {
     v \<leftarrow> load_word m src 8; pb_encode_fixed64 W stream v }"

text \<open>A \<open>pb_bytes_array_t\<close> is its size in 4 bytes and the bytes.\<close>

definition pb_enc_bytes ::
    "'st pb_sink \<Rightarrow> 'st pb_ostream \<Rightarrow> memory \<Rightarrow> pb_field \<Rightarrow> u64 \<Rightarrow> (bool \<times> 'st pb_ostream) option" where
  "pb_enc_bytes W stream m field src =
     (if src = 0 then pb_encode_string W stream None 0
      else do {
        n \<leftarrow> load_word m src 4;
        let n = (ucast (n :: u32) :: u64);
        let allocsize = n + 4;
        if allocsize < n \<or> (PB_ATYPE (ftype field) = PB_ATYPE_STATIC \<and> allocsize > ucast (data_size field))
        then Some (False, oset_error ''bytes size exceeded'' stream)
        else pb_encode_string W stream (read_map m (src + 4) (unat n)) n })"

text \<open>The loop that finds the terminator; its bound is \<open>max_size\<close>.\<close>

primrec string_size :: "memory \<Rightarrow> u64 \<Rightarrow> nat \<Rightarrow> nat option" where
  "string_size m p 0 = Some 0"
| "string_size m p (Suc k) = do {
     b \<leftarrow> m p;
     if b = 0 then Some 0 else map_option Suc (string_size m (p + 1) k) }"

definition pb_enc_string ::
    "'st pb_sink \<Rightarrow> 'st pb_ostream \<Rightarrow> memory \<Rightarrow> pb_field \<Rightarrow> u64 \<Rightarrow> (bool \<times> 'st pb_ostream) option" where
  "pb_enc_string W stream m field src =
     (let max_size = (if PB_ATYPE (ftype field) = PB_ATYPE_POINTER then 0xFFFFFFFFFFFFFFFF
        else ucast (data_size field) :: u64) in
      do {
        n \<leftarrow> (if src = 0 then Some 0 else string_size m src (unat max_size));
        pb_encode_string W stream (read_map m src n) (word_of_nat n) })"

definition pb_enc_fixed_length_bytes ::
    "'st pb_sink \<Rightarrow> 'st pb_ostream \<Rightarrow> memory \<Rightarrow> pb_field \<Rightarrow> u64 \<Rightarrow> (bool \<times> 'st pb_ostream) option" where
  "pb_enc_fixed_length_bytes W stream m field src =
     pb_encode_string W stream (read_map m src (unat (data_size field))) (ucast (data_size field))"

definition pb_encode_tag_for_field :: "'st pb_sink \<Rightarrow> 'st pb_ostream \<Rightarrow> pb_field \<Rightarrow> (bool \<times> 'st pb_ostream) option" where
  "pb_encode_tag_for_field W stream field =
     (let t = PB_LTYPE (ftype field) in
      if t = PB_LTYPE_BOOL \<or> t = PB_LTYPE_VARINT \<or> t = PB_LTYPE_UVARINT \<or> t = PB_LTYPE_SVARINT
      then pb_encode_tag W stream PB_WT_VARINT (tag field)
      else if t = PB_LTYPE_FIXED32 then pb_encode_tag W stream PB_WT_32BIT (tag field)
      else if t = PB_LTYPE_FIXED64 then pb_encode_tag W stream PB_WT_64BIT (tag field)
      else if t = PB_LTYPE_BYTES \<or> t = PB_LTYPE_STRING \<or> t = PB_LTYPE_SUBMESSAGE \<or>
        t = PB_LTYPE_FIXED_LENGTH_BYTES
      then pb_encode_tag W stream PB_WT_STRING (tag field)
      else Some (False, oset_error ''invalid field type'' stream))"

section \<open>Decoding one value of a field\<close>

text \<open>\<open>m\<close> is the memory of the message structure, which the input does not overlap.\<close>

definition store_word :: "memory \<Rightarrow> u64 \<Rightarrow> nat \<Rightarrow> 'a :: len word \<Rightarrow> memory option" where
  "store_word m p n v = store_bytes m p (le_bytes n (unat v))"

definition read_into ::
    "'st pb_source \<Rightarrow> 'st pb_istream \<Rightarrow> memory \<Rightarrow> u64 \<Rightarrow> u64 \<Rightarrow> (bool \<times> 'st pb_istream \<times> memory) option" where
  "read_into S stream m dest count = do {
     (ok, bs, stream) \<leftarrow> pb_read S stream True count;
     m \<leftarrow> store_bytes m dest bs;
     Some (ok, stream, m) }"

definition pb_dec_bool ::
    "'st pb_source \<Rightarrow> 'st pb_istream \<Rightarrow> memory \<Rightarrow> pb_field \<Rightarrow> u64 \<Rightarrow> (bool \<times> 'st pb_istream \<times> memory) option" where
  "pb_dec_bool S stream m field dest = do {
     (v, stream) \<leftarrow> pb_decode_varint32 S stream;
     case v of None \<Rightarrow> Some (False, stream, m)
     | Some v \<Rightarrow> do { m \<leftarrow> store_bytes m dest [if v \<noteq> 0 then 1 else 0]; Some (True, stream, m) } }"

text \<open>\<open>store_clamped\<close>: the stores of the narrowed number and the value of \<open>clamped\<close>, for signed and
  unsigned fields.\<close>

definition store_signed :: "memory \<Rightarrow> u64 \<Rightarrow> u32 \<Rightarrow> u64 \<Rightarrow> (u64 \<times> memory) option option" where
  "store_signed m dest n v =
     (if n = 8 then map_option (\<lambda>m. Some (v, m)) (store_word m dest 8 v)
      else if n = 4 then map_option (\<lambda>m. Some (scast (ucast v :: u32), m)) (store_word m dest 4 (ucast v :: u32))
      else if n = 2 then map_option (\<lambda>m. Some (scast (ucast v :: 16 word), m)) (store_word m dest 2 (ucast v :: 16 word))
      else if n = 1 then map_option (\<lambda>m. Some (scast (ucast v :: byte), m)) (store_word m dest 1 (ucast v :: byte))
      else Some None)"

definition store_unsigned :: "memory \<Rightarrow> u64 \<Rightarrow> u32 \<Rightarrow> u64 \<Rightarrow> (u64 \<times> memory) option option" where
  "store_unsigned m dest n v =
     (if n = 8 then map_option (\<lambda>m. Some (v, m)) (store_word m dest 8 v)
      else if n = 4 then map_option (\<lambda>m. Some (ucast (ucast v :: u32), m)) (store_word m dest 4 (ucast v :: u32))
      else if n = 2 then map_option (\<lambda>m. Some (ucast (ucast v :: 16 word), m)) (store_word m dest 2 (ucast v :: 16 word))
      else if n = 1 then map_option (\<lambda>m. Some (ucast (ucast v :: byte), m)) (store_word m dest 1 (ucast v :: byte))
      else Some None)"

definition pb_dec_varint ::
    "'st pb_source \<Rightarrow> 'st pb_istream \<Rightarrow> memory \<Rightarrow> pb_field \<Rightarrow> u64 \<Rightarrow> (bool \<times> 'st pb_istream \<times> memory) option" where
  "pb_dec_varint S stream m field dest = do {
     (v, stream) \<leftarrow> pb_decode_varint S stream;
     case v of None \<Rightarrow> Some (False, stream, m)
     | Some v \<Rightarrow>
         let svalue = (if data_size field = 8 then v else scast (ucast v :: u32)) in do {
           r \<leftarrow> store_signed m dest (data_size field) svalue;
           case r of None \<Rightarrow> Some (False, iset_error ''invalid data_size'' stream, m)
           | Some (clamped, m) \<Rightarrow>
               if clamped \<noteq> svalue then Some (False, iset_error ''integer too large'' stream, m)
               else Some (True, stream, m) } }"

definition pb_dec_uvarint ::
    "'st pb_source \<Rightarrow> 'st pb_istream \<Rightarrow> memory \<Rightarrow> pb_field \<Rightarrow> u64 \<Rightarrow> (bool \<times> 'st pb_istream \<times> memory) option" where
  "pb_dec_uvarint S stream m field dest = do {
     (v, stream) \<leftarrow> pb_decode_varint S stream;
     case v of None \<Rightarrow> Some (False, stream, m)
     | Some v \<Rightarrow> do {
         r \<leftarrow> store_unsigned m dest (data_size field) v;
         case r of None \<Rightarrow> Some (False, iset_error ''invalid data_size'' stream, m)
         | Some (clamped, m) \<Rightarrow>
             if clamped \<noteq> v then Some (False, iset_error ''integer too large'' stream, m)
             else Some (True, stream, m) } }"

definition pb_dec_svarint ::
    "'st pb_source \<Rightarrow> 'st pb_istream \<Rightarrow> memory \<Rightarrow> pb_field \<Rightarrow> u64 \<Rightarrow> (bool \<times> 'st pb_istream \<times> memory) option" where
  "pb_dec_svarint S stream m field dest = do {
     (v, stream) \<leftarrow> pb_decode_svarint S stream;
     case v of None \<Rightarrow> Some (False, stream, m)
     | Some v \<Rightarrow> do {
         r \<leftarrow> store_signed m dest (data_size field) v;
         case r of None \<Rightarrow> Some (False, iset_error ''invalid data_size'' stream, m)
         | Some (clamped, m) \<Rightarrow>
             if clamped \<noteq> v then Some (False, iset_error ''integer too large'' stream, m)
             else Some (True, stream, m) } }"

definition pb_dec_fixed32 ::
    "'st pb_source \<Rightarrow> 'st pb_istream \<Rightarrow> memory \<Rightarrow> pb_field \<Rightarrow> u64 \<Rightarrow> (bool \<times> 'st pb_istream \<times> memory) option" where
  "pb_dec_fixed32 S stream m field dest = do {
     (v, stream) \<leftarrow> pb_decode_fixed32 S stream;
     case v of None \<Rightarrow> Some (False, stream, m)
     | Some v \<Rightarrow> do { m \<leftarrow> store_word m dest 4 v; Some (True, stream, m) } }"

definition pb_dec_fixed64 ::
    "'st pb_source \<Rightarrow> 'st pb_istream \<Rightarrow> memory \<Rightarrow> pb_field \<Rightarrow> u64 \<Rightarrow> (bool \<times> 'st pb_istream \<times> memory) option" where
  "pb_dec_fixed64 S stream m field dest = do {
     (v, stream) \<leftarrow> pb_decode_fixed64 S stream;
     case v of None \<Rightarrow> Some (False, stream, m)
     | Some v \<Rightarrow> do { m \<leftarrow> store_word m dest 8 v; Some (True, stream, m) } }"

text \<open>The allocator is the C library's: new pointer, which is 0 on failure, and memory.\<close>

type_synonym reallocator = "u64 \<Rightarrow> u64 \<Rightarrow> memory \<Rightarrow> u64 \<times> memory"

definition allocate_field ::
    "reallocator \<Rightarrow> 'st pb_istream \<Rightarrow> memory \<Rightarrow> u64 \<Rightarrow> u64 \<Rightarrow> u64 \<Rightarrow> (bool \<times> 'st pb_istream \<times> memory) option" where
  "allocate_field pb_realloc stream m data d_size a_size = do {
     p \<leftarrow> load_word m data 8;
     if d_size = 0 \<or> a_size = 0 then Some (False, iset_error ''invalid size'' stream, m)
     else
       let check_limit = push_bit 32 1 :: u64 in
       if (d_size \<ge> check_limit \<or> a_size \<ge> check_limit) \<and> 0xFFFFFFFFFFFFFFFF div a_size < d_size
       then Some (False, iset_error ''size too large'' stream, m)
       else case pb_realloc p (a_size * d_size) m of (p, m) \<Rightarrow>
         if p = 0 then Some (False, iset_error ''realloc failed'' stream, m)
         else do { m \<leftarrow> store_word m data 8 p; Some (True, stream, m) } }"

definition pb_dec_bytes ::
    "reallocator \<Rightarrow> 'st pb_source \<Rightarrow> 'st pb_istream \<Rightarrow> memory \<Rightarrow> pb_field \<Rightarrow> u64 \<Rightarrow>
      (bool \<times> 'st pb_istream \<times> memory) option" where
  "pb_dec_bytes pb_realloc S stream m field dest = do {
     (n, stream) \<leftarrow> pb_decode_varint32 S stream;
     case n of None \<Rightarrow> Some (False, stream, m)
     | Some n \<Rightarrow>
         let alloc_size = ucast n + 4 :: u64 in
         if ucast n > alloc_size then Some (False, iset_error ''size too large'' stream, m)
         else if PB_ATYPE (ftype field) = PB_ATYPE_POINTER then do {
           (ok, stream, m) \<leftarrow> allocate_field pb_realloc stream m dest alloc_size 1;
           if \<not> ok then Some (False, stream, m)
           else do {
             bdest \<leftarrow> load_word m dest 8;
             m \<leftarrow> store_word m bdest 4 n;
             read_into S stream m (bdest + 4) (ucast n) } }
         else if alloc_size > ucast (data_size field) then Some (False, iset_error ''bytes overflow'' stream, m)
         else do {
           m \<leftarrow> store_word m dest 4 n;
           read_into S stream m (dest + 4) (ucast n) } }"

text \<open>\<open>size + 1\<close> is a 32-bit sum.\<close>

definition pb_dec_string ::
    "reallocator \<Rightarrow> 'st pb_source \<Rightarrow> 'st pb_istream \<Rightarrow> memory \<Rightarrow> pb_field \<Rightarrow> u64 \<Rightarrow>
      (bool \<times> 'st pb_istream \<times> memory) option" where
  "pb_dec_string pb_realloc S stream m field dest = do {
     (n, stream) \<leftarrow> pb_decode_varint32 S stream;
     case n of None \<Rightarrow> Some (False, stream, m)
     | Some n \<Rightarrow>
         let alloc_size = ucast (n + 1 :: u32) :: u64;
             finish = (\<lambda>stream m dest. do {
               (status, stream, m) \<leftarrow> read_into S stream m dest (ucast n);
               m \<leftarrow> store_bytes m (dest + ucast n) [0];
               Some (status, stream, m) }) in
         if alloc_size < ucast n then Some (False, iset_error ''size too large'' stream, m)
         else if PB_ATYPE (ftype field) = PB_ATYPE_POINTER then do {
           (ok, stream, m) \<leftarrow> allocate_field pb_realloc stream m dest alloc_size 1;
           if \<not> ok then Some (False, stream, m)
           else do { dest \<leftarrow> load_word m dest 8; finish stream m dest } }
         else if alloc_size > ucast (data_size field) then Some (False, iset_error ''string overflow'' stream, m)
         else finish stream m dest }"

definition pb_dec_fixed_length_bytes ::
    "'st pb_source \<Rightarrow> 'st pb_istream \<Rightarrow> memory \<Rightarrow> pb_field \<Rightarrow> u64 \<Rightarrow> (bool \<times> 'st pb_istream \<times> memory) option" where
  "pb_dec_fixed_length_bytes S stream m field dest = do {
     (n, stream) \<leftarrow> pb_decode_varint32 S stream;
     case n of None \<Rightarrow> Some (False, stream, m)
     | Some n \<Rightarrow>
         if n = 0 then do {
           m \<leftarrow> store_bytes m dest (replicate (unat (data_size field)) 0);
           Some (True, stream, m) }
         else if n \<noteq> data_size field
         then Some (False, iset_error ''incorrect fixed length bytes size'' stream, m)
         else read_into S stream m dest (ucast (data_size field)) }"

lemma ucast_scast_up: "ucast (scast w :: u64) = w" if "LENGTH('a) \<le> 64" for w :: "'a :: len word"
proof (rule bit_word_eqI)
  fix n assume n: "n < LENGTH('a)"
  then have "min n (LENGTH('a) - 1) = n" by auto
  then show "bit (ucast (scast w :: u64) :: 'a word) n = bit w n"
    using n that by (simp add: bit_simps)
qed

lemma scast_narrow: "scast (ucast (scast w :: u64) :: u32) = (scast w :: u64)" if "LENGTH('a) \<le> 32" for w :: "'a :: len word"
  using that by (intro bit_word_eqI) (auto simp: bit_simps min_def)

lemma ucast_ucast_up: "ucast (ucast w :: u64) = w" if "LENGTH('a) \<le> 64" for w :: "'a :: len word"
  using that by (intro bit_word_eqI) (auto simp: bit_simps)

lemma read_map_length: "read_map m p n = Some bs \<Longrightarrow> length bs = n"
  using load_bytes_length [of "flat_task m" p n bs] by (simp add: load_bytes_flat_task)

lemma store_le_word:
  assumes "length bs = n" "LENGTH('a) = 8 * n"
  shows "store_word m p n (le_word bs :: 'a :: len word) = store_bytes m p bs"
proof -
  have "unat (le_word bs :: 'a word) = le_nat bs" using assms by (intro unat_le_word) (simp add: power_mult)
  then show ?thesis using le_bytes_le_nat [of bs] assms(1) by (simp add: store_word_def)
qed

definition int_size :: "u32 \<Rightarrow> bool" where
  "int_size n \<longleftrightarrow> n = 1 \<or> n = 2 \<or> n = 4 \<or> n = 8"

lemma signed_round:
  assumes "int_size n" "read_map m src (unat n) = Some bs"
  obtains v where "load_signed m n src = Some (Some v)"
    "\<And>m' dest. store_signed m' dest n v = map_option (\<lambda>m. Some (v, m)) (store_bytes m' dest bs)"
    "n \<noteq> 8 \<Longrightarrow> scast (ucast v :: u32) = v"
proof -
  have l: "length bs = unat n" using assms(2) by (rule read_map_length)
  from assms(1) consider "n = 1" | "n = 2" | "n = 4" | "n = 8" by (auto simp: int_size_def)
  then show ?thesis
  proof cases
    case 1
    show ?thesis
      by (rule that [of "scast (le_word bs :: byte)"])
        (use assms(2) l 1 in \<open>simp_all add: load_signed_def load_word_def store_signed_def ucast_scast_up
          scast_narrow store_le_word\<close>)
  next
    case 2
    show ?thesis
      by (rule that [of "scast (le_word bs :: 16 word)"])
        (use assms(2) l 2 in \<open>simp_all add: load_signed_def load_word_def store_signed_def ucast_scast_up
          scast_narrow store_le_word\<close>)
  next
    case 3
    show ?thesis
      by (rule that [of "scast (le_word bs :: u32)"])
        (use assms(2) l 3 in \<open>simp_all add: load_signed_def load_word_def store_signed_def ucast_scast_up
          scast_narrow store_le_word\<close>)
  next
    case 4
    show ?thesis
      by (rule that [of "le_word bs"])
        (use assms(2) l 4 in \<open>simp_all add: load_signed_def load_word_def store_signed_def store_le_word\<close>)
  qed
qed

lemma unsigned_round:
  assumes "int_size n" "read_map m src (unat n) = Some bs"
  obtains v where "load_unsigned m n src = Some (Some v)"
    "\<And>m' dest. store_unsigned m' dest n v = map_option (\<lambda>m. Some (v, m)) (store_bytes m' dest bs)"
proof -
  have l: "length bs = unat n" using assms(2) by (rule read_map_length)
  from assms(1) consider "n = 1" | "n = 2" | "n = 4" | "n = 8" by (auto simp: int_size_def)
  then show ?thesis
  proof cases
    case 1
    show ?thesis
      by (rule that [of "ucast (le_word bs :: byte)"])
        (use assms(2) l 1 in \<open>simp_all add: load_unsigned_def load_word_def store_unsigned_def ucast_ucast_up
          store_le_word\<close>)
  next
    case 2
    show ?thesis
      by (rule that [of "ucast (le_word bs :: 16 word)"])
        (use assms(2) l 2 in \<open>simp_all add: load_unsigned_def load_word_def store_unsigned_def ucast_ucast_up
          store_le_word\<close>)
  next
    case 3
    show ?thesis
      by (rule that [of "ucast (le_word bs :: u32)"])
        (use assms(2) l 3 in \<open>simp_all add: load_unsigned_def load_word_def store_unsigned_def ucast_ucast_up
          store_le_word\<close>)
  next
    case 4
    show ?thesis
      by (rule that [of "le_word bs"])
        (use assms(2) l 4 in \<open>simp_all add: load_unsigned_def load_word_def store_unsigned_def store_le_word\<close>)
  qed
qed

section \<open>The tables of encoders and decoders\<close>

text \<open>Indexed by the low bits of a field's type; the null entry is \<^term>\<open>None\<close>.  The functions for
  submessages are arguments.\<close>

type_synonym 'st pb_encoder =
  "'st pb_sink \<Rightarrow> 'st pb_ostream \<Rightarrow> memory \<Rightarrow> pb_field \<Rightarrow> u64 \<Rightarrow> (bool \<times> 'st pb_ostream) option"
type_synonym 'st pb_decoder =
  "'st pb_source \<Rightarrow> 'st pb_istream \<Rightarrow> memory \<Rightarrow> pb_field \<Rightarrow> u64 \<Rightarrow> (bool \<times> 'st pb_istream \<times> memory) option"

definition PB_ENCODERS :: "'st pb_encoder \<Rightarrow> byte \<Rightarrow> 'st pb_encoder option" where
  "PB_ENCODERS enc_submessage t =
     (if t = PB_LTYPE_BOOL then Some pb_enc_bool
      else if t = PB_LTYPE_VARINT then Some pb_enc_varint
      else if t = PB_LTYPE_UVARINT then Some pb_enc_uvarint
      else if t = PB_LTYPE_SVARINT then Some pb_enc_svarint
      else if t = PB_LTYPE_FIXED32 then Some pb_enc_fixed32
      else if t = PB_LTYPE_FIXED64 then Some pb_enc_fixed64
      else if t = PB_LTYPE_BYTES then Some pb_enc_bytes
      else if t = PB_LTYPE_STRING then Some pb_enc_string
      else if t = PB_LTYPE_SUBMESSAGE then Some enc_submessage
      else if t = PB_LTYPE_FIXED_LENGTH_BYTES then Some pb_enc_fixed_length_bytes
      else None)"

definition PB_DECODERS :: "reallocator \<Rightarrow> 'st pb_decoder \<Rightarrow> byte \<Rightarrow> 'st pb_decoder option" where
  "PB_DECODERS pb_realloc dec_submessage t =
     (if t = PB_LTYPE_BOOL then Some pb_dec_bool
      else if t = PB_LTYPE_VARINT then Some pb_dec_varint
      else if t = PB_LTYPE_UVARINT then Some pb_dec_uvarint
      else if t = PB_LTYPE_SVARINT then Some pb_dec_svarint
      else if t = PB_LTYPE_FIXED32 then Some pb_dec_fixed32
      else if t = PB_LTYPE_FIXED64 then Some pb_dec_fixed64
      else if t = PB_LTYPE_BYTES then Some (pb_dec_bytes pb_realloc)
      else if t = PB_LTYPE_STRING then Some (pb_dec_string pb_realloc)
      else if t = PB_LTYPE_SUBMESSAGE then Some dec_submessage
      else if t = PB_LTYPE_FIXED_LENGTH_BYTES then Some pb_dec_fixed_length_bytes
      else None)"

section \<open>Scalar values\<close>

text \<open>\<open>bs\<close> are the bytes in memory of a value of a scalar type and size; \<open>scalar_wire\<close> is its encoding by
  the wire format.\<close>

definition scalar_value :: "byte \<Rightarrow> u32 \<Rightarrow> byte list \<Rightarrow> bool" where
  "scalar_value t n bs \<longleftrightarrow> length bs = unat n \<and>
     (t = PB_LTYPE_BOOL \<and> (bs = [0] \<or> bs = [1]) \<or>
      (t = PB_LTYPE_VARINT \<or> t = PB_LTYPE_UVARINT \<or> t = PB_LTYPE_SVARINT) \<and> int_size n \<or>
      t = PB_LTYPE_FIXED32 \<and> n = 4 \<or> t = PB_LTYPE_FIXED64 \<and> n = 8)"

definition the_number :: "u64 option option \<Rightarrow> u64" where
  "the_number x = (case x of Some (Some v) \<Rightarrow> v | _ \<Rightarrow> 0)"

definition scalar_wire :: "memory \<Rightarrow> byte \<Rightarrow> u32 \<Rightarrow> u64 \<Rightarrow> byte list \<Rightarrow> byte list" where
  "scalar_wire m t n src bs =
     (if t = PB_LTYPE_BOOL then uleb_encode (le_nat bs)
      else if t = PB_LTYPE_VARINT then uleb_encode (unat (the_number (load_signed m n src)))
      else if t = PB_LTYPE_UVARINT then uleb_encode (unat (the_number (load_unsigned m n src)))
      else if t = PB_LTYPE_SVARINT then uleb_encode (unat (zigzag (the_number (load_signed m n src))))
      else bs)"

lemma scalar_cases:
  assumes "scalar_value t n bs"
  obtains "t = PB_LTYPE_BOOL" "bs = [0] \<or> bs = [1]" "n = 1"
  | "t = PB_LTYPE_VARINT" "int_size n"
  | "t = PB_LTYPE_UVARINT" "int_size n"
  | "t = PB_LTYPE_SVARINT" "int_size n"
  | "t = PB_LTYPE_FIXED32" "n = 4" "length bs = 4"
  | "t = PB_LTYPE_FIXED64" "n = 8" "length bs = 8"
proof -
  have "n = 1" if "bs = [0] \<or> bs = [1]"
  proof -
    have "unat n = 1" using assms that by (auto simp: scalar_value_def)
    then show ?thesis by (simp add: word_unat_eq_iff)
  qed
  then show ?thesis using assms that unfolding scalar_value_def by auto
qed

lemma scalar_wire_length:
  assumes "scalar_value t n bs"
  shows "length (scalar_wire m t n src bs) \<le> 10"
  using assms
proof (cases rule: scalar_cases)
  case 1
  from 1(2) have "le_nat bs < 128 ^ 1" by (elim disjE) simp_all
  then have "length (uleb_encode (le_nat bs)) \<le> 1" by (rule uleb_length_le) simp
  then show ?thesis using 1 by (simp add: scalar_wire_def)
qed (simp_all add: scalar_wire_def pb_ltypes uleb_length_u64)

context pb_output begin

lemma scalar_emits:
  assumes "scalar_value t (data_size f) bs" "read_map m src (unat (data_size f)) = Some bs"
  shows "\<exists>enc. PB_ENCODERS sub t = Some enc \<and>
    emits (\<lambda>W stream. enc W stream m f src) (scalar_wire m t (data_size f) src bs)"
  using assms(1)
proof (cases rule: scalar_cases)
  case 1
  then have "m src = Some (hd bs)" "bs = [hd bs]" "hd bs = 0 \<or> hd bs = 1"
    using assms(2) by (auto simp: bind_eq_Some_conv)
  then show ?thesis using emits_varint [of "if hd bs \<noteq> 0 then 1 else 0"] 1
    by (auto simp: PB_ENCODERS_def scalar_wire_def pb_enc_bool_def safe_read_bool_def)
next
  case 2
  then obtain v where "load_signed m (data_size f) src = Some (Some v)" using signed_round assms(2) by metis
  then show ?thesis using 2 emits_varint [of v]
    by (simp add: PB_ENCODERS_def scalar_wire_def pb_enc_varint_def pb_ltypes the_number_def)
next
  case 3
  then obtain v where "load_unsigned m (data_size f) src = Some (Some v)" using unsigned_round assms(2) by metis
  then show ?thesis using 3 emits_varint [of v]
    by (simp add: PB_ENCODERS_def scalar_wire_def pb_enc_uvarint_def pb_ltypes the_number_def)
next
  case 4
  then obtain v where "load_signed m (data_size f) src = Some (Some v)" using signed_round assms(2) by metis
  then show ?thesis using 4 emits_svarint [of v]
    by (simp add: PB_ENCODERS_def scalar_wire_def pb_enc_svarint_def pb_ltypes the_number_def)
next
  case 5
  have "unat (le_word bs :: u32) = le_nat bs" using 5 by (intro unat_le_word) simp
  then have "le_bytes 4 (unat (le_word bs :: u32)) = bs" using le_bytes_le_nat [of bs] 5 by simp
  then show ?thesis using 5 assms(2) emits_fixed32 [of "le_word bs"]
    by (simp add: PB_ENCODERS_def scalar_wire_def pb_enc_fixed32_def pb_ltypes load_word_def)
next
  case 6
  have "unat (le_word bs :: u64) = le_nat bs" using 6 by (intro unat_le_word) simp
  then have "le_bytes 8 (unat (le_word bs :: u64)) = bs" using le_bytes_le_nat [of bs] 6 by simp
  then show ?thesis using 6 assms(2) emits_fixed64 [of "le_word bs"]
    by (simp add: PB_ENCODERS_def scalar_wire_def pb_enc_fixed64_def pb_ltypes load_word_def)
qed

end

lemma store_mapped: "mapped m p n \<Longrightarrow> length bs = n \<Longrightarrow> store_bytes m p bs = Some (overwrite m p bs)"
  using store_overwrite [of m p n "[]" bs] by simp

context pb_input begin

text \<open>A decoder takes the bytes \<open>xs\<close> and leaves the memory \<open>m'\<close>.\<close>

definition fills :: "('st pb_istream \<Rightarrow> (bool \<times> 'st pb_istream \<times> memory) option) \<Rightarrow> byte list \<Rightarrow> memory \<Rightarrow> bool" where
  "fills g xs m' \<longleftrightarrow> (\<forall>stream ys n. at_input stream (xs @ ys) n \<longrightarrow> length xs \<le> n \<longrightarrow>
     (\<exists>stream'. g stream = Some (True, stream', m') \<and> at_input stream' ys (n - length xs) \<and>
       ierrmsg stream' = ierrmsg stream))"

lemma fillsD:
  assumes "fills g xs m'" "at_input stream (xs @ ys) n" "length xs \<le> n"
  obtains stream' where "g stream = Some (True, stream', m')" "at_input stream' ys (n - length xs)"
    "ierrmsg stream' = ierrmsg stream"
  using assms unfolding fills_def by blast

lemma pb_decode_svarint_deliver:
  assumes "at_input stream (uleb_encode (unat (zigzag v)) @ ys) len" "length (uleb_encode (unat (zigzag v))) \<le> len"
  shows "\<exists>stream'. pb_decode_svarint S stream = Some (Some v, stream') \<and>
    at_input stream' ys (len - length (uleb_encode (unat (zigzag v)))) \<and> ierrmsg stream' = ierrmsg stream"
proof -
  have "unat (zigzag v) < 2 ^ 64" by (rule unat_u64_bound)
  from pb_decode_varint_deliver [OF assms this] obtain s where
    s: "pb_decode_varint S stream = Some (Some (zigzag v), s)" "ierrmsg s = ierrmsg stream"
    "at_input s ys (len - length (uleb_encode (unat (zigzag v))))" by auto
  then have "pb_decode_svarint S stream = Some (Some v, s)"
    by (simp only: pb_decode_svarint_def bind.bind_lunit prod.case option.map zigzag_back)
  then show ?thesis using s by blast
qed

lemma scalar_fills:
  assumes "scalar_value t (data_size f) bs" "read_map m src (unat (data_size f)) = Some bs"
    and "mapped m2 dest (unat (data_size f))"
  shows "\<exists>dec. PB_DECODERS ra sub t = Some dec \<and>
    fills (\<lambda>stream. dec S stream m2 f dest) (scalar_wire m t (data_size f) src bs) (overwrite m2 dest bs)"
proof -
  have store: "store_bytes m2 dest bs = Some (overwrite m2 dest bs)"
    using assms read_map_length by (intro store_mapped) auto
  note lt = unat_u64_bound
  from assms(1) show ?thesis
  proof (cases rule: scalar_cases)
    case 1
    then have b: "le_nat bs < 2 ^ 32" "[if (word_of_nat (le_nat bs) :: u32) \<noteq> 0 then 1 else 0] = bs" by auto
    show ?thesis using 1 b store pb_decode_varint32_value [OF _ _ b(1)]
      by (fastforce simp: PB_DECODERS_def scalar_wire_def fills_def pb_dec_bool_def)
  next
    case 2
    then obtain v where v: "load_signed m (data_size f) src = Some (Some v)"
      "\<And>m' dest. store_signed m' dest (data_size f) v = map_option (\<lambda>m. Some (v, m)) (store_bytes m' dest bs)"
      "data_size f \<noteq> 8 \<Longrightarrow> scast (ucast v :: u32) = v" using signed_round assms(2) by metis
    have sv: "(if data_size f = 8 then v else scast (ucast v :: u32)) = v" using v(3) by simp
    show ?thesis using 2 store v(1,2) sv pb_decode_varint_deliver [OF _ _ lt [of v]]
      by (fastforce simp: PB_DECODERS_def scalar_wire_def fills_def pb_dec_varint_def pb_ltypes the_number_def Let_def)
  next
    case 3
    then obtain v where v: "load_unsigned m (data_size f) src = Some (Some v)"
      "\<And>m' dest. store_unsigned m' dest (data_size f) v = map_option (\<lambda>m. Some (v, m)) (store_bytes m' dest bs)"
      using unsigned_round assms(2) by metis
    show ?thesis using 3 store v pb_decode_varint_deliver [OF _ _ lt [of v]]
      by (fastforce simp: PB_DECODERS_def scalar_wire_def fills_def pb_dec_uvarint_def pb_ltypes the_number_def)
  next
    case 4
    then obtain v where v: "load_signed m (data_size f) src = Some (Some v)"
      "\<And>m' dest. store_signed m' dest (data_size f) v = map_option (\<lambda>m. Some (v, m)) (store_bytes m' dest bs)"
      using signed_round assms(2) by metis
    show ?thesis using 4 store v pb_decode_svarint_deliver [of _ v]
      by (fastforce simp: PB_DECODERS_def scalar_wire_def fills_def pb_dec_svarint_def pb_ltypes the_number_def)
  next
    case 5
    have "store_word m2 dest 4 (le_word bs :: u32) = Some (overwrite m2 dest bs)"
      using store 5 by (simp add: store_le_word)
    then show ?thesis using 5 pb_decode_fixed32_deliver [of _ bs]
      by (fastforce simp: PB_DECODERS_def scalar_wire_def fills_def pb_dec_fixed32_def pb_ltypes)
  next
    case 6
    have "store_word m2 dest 8 (le_word bs :: u64) = Some (overwrite m2 dest bs)"
      using store 6 by (simp add: store_le_word)
    then show ?thesis using 6 pb_decode_fixed64_deliver [of _ bs]
      by (fastforce simp: PB_DECODERS_def scalar_wire_def fills_def pb_dec_fixed64_def pb_ltypes)
  qed
qed

end

section \<open>Writing a buffer and reading it back\<close>

definition reading :: "(u64 \<times> memory) pb_ostream \<Rightarrow> u64 pb_source" where
  "reading out = buffer_source (flat_task (snd (ostate out)))"

lemma buffer_written:
  assumes "\<And>m n. buffer_out.emits m buf n f xs" "mapped m buf (unat n)" "length xs \<le> unat n"
  obtains out where "f (Some buf_write) (pb_ostream_from_buffer m buf n) = Some (True, out)"
    "ostate out = (buf + word_of_nat (length xs), overwrite m buf xs)"
    "bytes_written out = word_of_nat (length xs)" "length xs < 2 ^ 64"
    "buffer_in.at_input (overwrite m buf xs) (pb_istream_from_buffer buf (bytes_written out)) (xs @ []) (length xs)"
proof -
  let ?s = "pb_ostream_from_buffer m buf n"
  obtain out where out: "f (Some buf_write) ?s = Some (True, out)"
    "buffer_out.at_output m buf (unat n) out ([] @ xs) (unat n - length xs)" "max_size out = max_size ?s"
    using buffer_out.emits_fits [OF assms(1) buffer_out_start [OF assms(2)] assms(3)] by blast
  have lt: "length xs < 2 ^ 64" using assms(3) unat_u64_bound [of n] by (rule le_less_trans)
  have st: "ostate out = (buf + word_of_nat (length xs), overwrite m buf xs)"
    using out(2) unfolding buffer_out.at_output_def by (simp add: in_buffer_def)
  have "unat (bytes_written out) + (unat n - length xs) = unat (max_size out)"
    using out(2) unfolding buffer_out.at_output_def by simp
  then have b: "unat (bytes_written out) = length xs"
    using out(3) assms(3) by (simp add: pb_ostream_from_buffer_def)
  then have w: "bytes_written out = word_of_nat (length xs)" by (simp add: b [symmetric])
  have "buffer_in.at_input (overwrite m buf xs) (pb_istream_from_buffer buf (bytes_written out)) (xs @ []) (length xs)"
    unfolding buffer_in.at_input_def using b holds_overwrite [of xs m buf] lt
    by (simp add: pb_istream_from_buffer_def)
  then show ?thesis using that out(1) st w lt by blast
qed

lemma at_end: "buffer_in.at_input m stream ys 0 \<Longrightarrow> bytes_left stream = 0"
  unfolding buffer_in.at_input_def by (simp add: unat_eq_zero)

text \<open>A 64-bit number written as a varint into a buffer with 10 bytes of room is read back, with
  nothing left.\<close>

theorem pb_varint_roundtrip:
  assumes "mapped m buf (unat n)" "10 \<le> n"
  shows "\<exists>out inp. pb_encode_varint (Some buf_write) (pb_ostream_from_buffer m buf n) v = Some (True, out) \<and>
    pb_decode_varint (reading out) (pb_istream_from_buffer buf (bytes_written out)) = Some (Some v, inp) \<and>
    bytes_left inp = 0"
proof -
  have "length (uleb_encode (unat v)) \<le> unat n"
    using uleb_length_u64 [of v] assms(2) by (simp add: word_le_nat_alt)
  from buffer_written [OF buffer_out.emits_varint assms(1) this] obtain out where
    out: "pb_encode_varint (Some buf_write) (pb_ostream_from_buffer m buf n) v = Some (True, out)"
    "snd (ostate out) = overwrite m buf (uleb_encode (unat v))"
    "buffer_in.at_input (overwrite m buf (uleb_encode (unat v))) (pb_istream_from_buffer buf (bytes_written out))
      (uleb_encode (unat v) @ []) (length (uleb_encode (unat v)))" by (metis snd_conv)
  show ?thesis using buffer_in.pb_decode_varint_deliver [OF out(3) order_refl unat_u64_bound] out(1,2) at_end
    by (fastforce simp: reading_def)
qed

lemma pb_varint_roundtrip_witness:
  "\<exists>out inp. pb_encode_varint (Some buf_write) (pb_ostream_from_buffer (block 0x1000 (replicate 16 0)) 0x1000 16)
      (2 ^ 63 + 5) = Some (True, out) \<and>
    pb_decode_varint (reading out) (pb_istream_from_buffer 0x1000 (bytes_written out)) = Some (Some (2 ^ 63 + 5), inp) \<and>
    bytes_left inp = 0"
  by (rule pb_varint_roundtrip) (simp_all add: mapped_def block_def unat_of_nat)

text \<open>The same for signed numbers, through the zigzag code.\<close>

theorem pb_svarint_roundtrip:
  assumes "mapped m buf (unat n)" "10 \<le> n"
  shows "\<exists>out inp. pb_encode_svarint (Some buf_write) (pb_ostream_from_buffer m buf n) v = Some (True, out) \<and>
    pb_decode_svarint (reading out) (pb_istream_from_buffer buf (bytes_written out)) = Some (Some v, inp) \<and>
    bytes_left inp = 0"
proof -
  have "length (uleb_encode (unat (zigzag v))) \<le> unat n"
    using uleb_length_u64 [of "zigzag v"] assms(2) by (simp add: word_le_nat_alt)
  from buffer_written [OF buffer_out.emits_svarint assms(1) this] obtain out where
    out: "pb_encode_svarint (Some buf_write) (pb_ostream_from_buffer m buf n) v = Some (True, out)"
    "snd (ostate out) = overwrite m buf (uleb_encode (unat (zigzag v)))"
    "buffer_in.at_input (overwrite m buf (uleb_encode (unat (zigzag v)))) (pb_istream_from_buffer buf (bytes_written out))
      (uleb_encode (unat (zigzag v)) @ []) (length (uleb_encode (unat (zigzag v))))" by (metis snd_conv)
  show ?thesis using buffer_in.pb_decode_svarint_deliver [OF out(3) order_refl] out(1,2) at_end
    by (fastforce simp: reading_def)
qed

lemma pb_svarint_roundtrip_witness:
  "\<exists>out inp. pb_encode_svarint (Some buf_write) (pb_ostream_from_buffer (block 0x1000 (replicate 16 0)) 0x1000 16)
      (- 7) = Some (True, out) \<and>
    pb_decode_svarint (reading out) (pb_istream_from_buffer 0x1000 (bytes_written out)) = Some (Some (- 7), inp) \<and>
    bytes_left inp = 0"
  by (rule pb_svarint_roundtrip) (simp_all add: mapped_def block_def unat_of_nat)

text \<open>C39. Every scalar value of every size the generator uses survives: what the encoder of the field's
  type writes, the decoder of that type stores, and it stores the same bytes.\<close>

theorem pb_scalar_roundtrip:
  assumes "mapped out_m buf (unat n)" "10 \<le> n"
    and "scalar_value (PB_LTYPE (ftype f)) (data_size f) bs" "read_map m src (unat (data_size f)) = Some bs"
    and "mapped m2 dest (unat (data_size f))"
  shows "\<exists>enc dec out inp. PB_ENCODERS enc_sub (PB_LTYPE (ftype f)) = Some enc \<and>
    PB_DECODERS pb_realloc dec_sub (PB_LTYPE (ftype f)) = Some dec \<and>
    enc (Some buf_write) (pb_ostream_from_buffer out_m buf n) m f src = Some (True, out) \<and>
    dec (reading out) (pb_istream_from_buffer buf (bytes_written out)) m2 f dest =
      Some (True, inp, overwrite m2 dest bs) \<and> bytes_left inp = 0"
proof -
  let ?t = "PB_LTYPE (ftype f)" and ?xs = "scalar_wire m (PB_LTYPE (ftype f)) (data_size f) src bs"
  obtain enc where enc: "PB_ENCODERS enc_sub ?t = Some enc"
    using buffer_out.scalar_emits [OF assms(3,4)] by blast
  have emits: "buffer_out.emits m' buf n' (\<lambda>W stream. enc W stream m f src) ?xs" for m' n'
    using buffer_out.scalar_emits [OF assms(3,4), of enc_sub m' buf n'] enc by simp
  have "length ?xs \<le> unat n"
    using scalar_wire_length [OF assms(3)] assms(2) le_trans by (fastforce simp: word_le_nat_alt)
  from buffer_written [OF emits assms(1) this] obtain out where
    out: "enc (Some buf_write) (pb_ostream_from_buffer out_m buf n) m f src = Some (True, out)"
    "snd (ostate out) = overwrite out_m buf ?xs"
    "buffer_in.at_input (overwrite out_m buf ?xs) (pb_istream_from_buffer buf (bytes_written out)) (?xs @ []) (length ?xs)"
    by (metis snd_conv)
  obtain dec where dec: "PB_DECODERS pb_realloc dec_sub ?t = Some dec"
    "buffer_in.fills (overwrite out_m buf ?xs)
      (\<lambda>stream. dec (buffer_source (flat_task (overwrite out_m buf ?xs))) stream m2 f dest) ?xs (overwrite m2 dest bs)"
    using buffer_in.scalar_fills [OF assms(3-5)] by blast
  obtain inp where inp: "dec (buffer_source (flat_task (overwrite out_m buf ?xs)))
      (pb_istream_from_buffer buf (bytes_written out)) m2 f dest = Some (True, inp, overwrite m2 dest bs)"
    "buffer_in.at_input (overwrite out_m buf ?xs) inp [] (length ?xs - length ?xs)"
    using buffer_in.fillsD [OF dec(2) out(3) order_refl] by blast
  have z: "bytes_left inp = 0" using inp(2) at_end by simp
  show ?thesis
    by (intro exI conjI, rule enc, rule dec(1), rule out(1), simp only: reading_def out(2) inp(1), rule z)
qed

section \<open>What the decoder accepts\<close>

definition reads_32 :: "nat \<Rightarrow> u32 option \<times> u64 pb_istream \<Rightarrow> bool" where
  "reads_32 n r \<longleftrightarrow> pb_decode_varint32 (buffer_source (flat_task (block 0x1000 (uleb_encode n))))
     (pb_istream_from_buffer 0x1000 (word_of_nat (length (uleb_encode n)))) = Some r"

lemma block_input:
  assumes "length bs < 2 ^ 64"
  shows "buffer_in.at_input (block p bs) (pb_istream_from_buffer p (word_of_nat (length bs))) (bs @ []) (length bs)"
  unfolding buffer_in.at_input_def using assms holds_block [of bs p]
  by (simp add: pb_istream_from_buffer_def unat_of_nat)

lemma uleb_length_64: "n < 2 ^ 64 \<Longrightarrow> length (uleb_encode n) < 2 ^ 64"
  by (rule le_less_trans [OF uleb_length_le [of n 10]]) simp_all

text \<open>The 32-bit reader on the varint of a number below \<open>2 ^ 64\<close>: it returns the low 32 bits of a
  number that fits 32 bits, unsigned or as a sign-extended negative one, and consumes it all; and
  it refuses with an error every other number that is below \<open>2 ^ 63\<close> or whose low half is not
  negative.\<close>

theorem pb_varint32_range:
  assumes "n < 2 ^ 64"
  shows "if n < 2 ^ 32 \<or> 2 ^ 64 - 2 ^ 31 \<le> n
     then \<exists>inp. reads_32 n (Some (word_of_nat n), inp) \<and> bytes_left inp = 0
     else (n < 2 ^ 63 \<or> n mod 2 ^ 32 < 2 ^ 31) \<longrightarrow> (\<exists>inp. reads_32 n (None, inp) \<and> ierrmsg inp \<noteq> None)"
proof -
  note at = block_input [OF uleb_length_64 [OF assms], of "0x1000"]
  note r = buffer_in.pb_decode_varint32_deliver [OF at order_refl assms]
  show ?thesis
  proof (cases "n < 2 ^ 32 \<or> 2 ^ 64 - 2 ^ 31 \<le> n")
    case True
    from r(1) [OF True] show ?thesis using True at_end by (fastforce simp: reads_32_def pb_decode_varint32_def)
  next
    case False
    then have ge: "2 ^ 32 \<le> n" by simp
    show ?thesis
    proof (cases "n < 2 ^ 63 \<or> n mod 2 ^ 32 < 2 ^ 31")
      case True
      from r(2) [OF ge True] have "\<exists>inp. reads_32 n (None, inp) \<and> ierrmsg inp \<noteq> None"
        by (auto simp: reads_32_def pb_decode_varint32_def)
      then show ?thesis by (simp only: False if_False) simp
    next
      case False
      then show ?thesis using \<open>\<not> (n < 2 ^ 32 \<or> 2 ^ 64 - 2 ^ 31 \<le> n)\<close> by simp
    qed
  qed
qed

lemma pb_varint32_range_witness:
  "\<exists>inp. reads_32 (2 ^ 64 - 1) (Some (word_of_nat (2 ^ 64 - 1)), inp) \<and> bytes_left inp = 0"
  using pb_varint32_range [of "2 ^ 64 - 1"] by simp

lemma read_map_block: "n = length bs \<Longrightarrow> length bs \<le> 2 ^ 64 \<Longrightarrow> read_map (block p bs) p n = Some bs"
  using holds_block [of bs p] by (simp add: holds_def load_bytes_flat_task)

definition sample_scalar :: pb_field where
  "sample_scalar = \<lparr>tag = 1, ftype = PB_LTYPE_SVARINT, data_offset = 0, size_offset = 0, data_size = 4,
     array_size = 0, ptr = 0\<rparr>"

lemma sample_scalar_simps [simp]:
  "PB_LTYPE (ftype sample_scalar) = PB_LTYPE_SVARINT" "data_size sample_scalar = 4"
  by (simp_all add: sample_scalar_def PB_LTYPE_def PB_LTYPE_SVARINT_def)

lemma pb_scalar_roundtrip_witness:
  "\<exists>enc dec out inp. PB_ENCODERS (\<lambda>_ _ _ _ _. None) (PB_LTYPE (ftype sample_scalar)) = Some enc \<and>
    PB_DECODERS (\<lambda>_ _ m. (0, m)) (\<lambda>_ _ _ _ _. None) (PB_LTYPE (ftype sample_scalar)) = Some dec \<and>
    enc (Some buf_write) (pb_ostream_from_buffer (block 0x1000 (replicate 16 0)) 0x1000 16)
      (block 0x2000 [0xFE, 0xFF, 0xFF, 0xFF]) sample_scalar 0x2000 = Some (True, out) \<and>
    dec (reading out) (pb_istream_from_buffer 0x1000 (bytes_written out)) (block 0x3000 [0, 0, 0, 0]) sample_scalar 0x3000 =
      Some (True, inp, overwrite (block 0x3000 [0, 0, 0, 0]) 0x3000 [0xFE, 0xFF, 0xFF, 0xFF]) \<and> bytes_left inp = 0"
proof (rule pb_scalar_roundtrip)
  show "mapped (block 0x1000 (replicate 16 0)) 0x1000 (unat (16 :: u64))"
    by (simp add: mapped_def block_def unat_of_nat)
  show "scalar_value (PB_LTYPE (ftype sample_scalar)) (data_size sample_scalar) [0xFE, 0xFF, 0xFF, 0xFF]"
    by (simp add: scalar_value_def int_size_def)
  show "read_map (block 0x2000 [0xFE, 0xFF, 0xFF, 0xFF]) 0x2000 (unat (data_size sample_scalar)) = Some [0xFE, 0xFF, 0xFF, 0xFF]"
    by (rule read_map_block) simp_all
  show "mapped (block 0x3000 [0, 0, 0, 0]) 0x3000 (unat (data_size sample_scalar))"
    by (simp add: mapped_def block_def unat_of_nat)
qed simp

end
