(* ===== verification/Pb_Message.thy ===== *)
theory Pb_Message
  imports Pb_Field
begin

text \<open>
  The message encoder of \<open>pb_encode.c\<close>: arrays, optional and repeated fields, submessages, callback
  fields and extensions, driven by the table of fields.  What the encoder reaches through pointers and
  is not its own is an argument: \<open>tables\<close> gives the field table at an address, \<open>encode_func\<close> and
  \<open>ext_encode_func\<close> the functions of callback fields and extensions.  The nesting of submessages is
  bounded by an argument (the C stack); at 0 the result is \<^term>\<open>None\<close>.
\<close>

record 'st pb_env =
  tables :: "u64 \<Rightarrow> pb_field list option"
  encode_func :: "u64 \<Rightarrow> 'st pb_encoder"
  ext_encode_func :: "u64 \<Rightarrow> 'st pb_sink \<Rightarrow> 'st pb_ostream \<Rightarrow> memory \<Rightarrow> u64 \<Rightarrow> (bool \<times> 'st pb_ostream) option"

definition PB_LTYPE_LAST_PACKABLE :: byte where "PB_LTYPE_LAST_PACKABLE = 0x05"
definition PB_ATYPE_CALLBACK :: byte where "PB_ATYPE_CALLBACK = 0x40"

section \<open>Arrays\<close>

primrec encode_items ::
    "('st pb_ostream \<Rightarrow> u64 \<Rightarrow> (bool \<times> 'st pb_ostream) option) \<Rightarrow> 'st pb_ostream \<Rightarrow> u64 \<Rightarrow> u32 \<Rightarrow> nat \<Rightarrow>
      (bool \<times> 'st pb_ostream) option" where
  "encode_items item stream p d_size 0 = Some (True, stream)"
| "encode_items item stream p d_size (Suc k) = do {
     (ok, stream) \<leftarrow> item stream p;
     if \<not> ok then Some (False, stream) else encode_items item stream (p + ucast d_size) d_size k }"

definition encode_array ::
    "'st pb_sink \<Rightarrow> 'st pb_ostream \<Rightarrow> memory \<Rightarrow> pb_field \<Rightarrow> u64 \<Rightarrow> u64 \<Rightarrow> 'st pb_encoder \<Rightarrow>
      (bool \<times> 'st pb_ostream) option" where
  "encode_array W stream m field data count func =
     (let t = PB_LTYPE (ftype field); a = PB_ATYPE (ftype field); d_size = data_size field in
      if count = 0 then Some (True, stream)
      else if a \<noteq> PB_ATYPE_POINTER \<and> count > ucast (array_size field)
      then Some (False, oset_error ''array max size exceeded'' stream)
      else if t \<le> PB_LTYPE_LAST_PACKABLE then do {
        (ok, stream) \<leftarrow> pb_encode_tag W stream PB_WT_STRING (tag field);
        if \<not> ok then Some (False, stream)
        else do {
          size' \<leftarrow> (if t = PB_LTYPE_FIXED32 then Some (Some (4 * count))
            else if t = PB_LTYPE_FIXED64 then Some (Some (8 * count))
            else do {
              (ok, sizestream) \<leftarrow> encode_items (\<lambda>s p. func None s m field p)
                (PB_OSTREAM_SIZING (ostate stream)) data d_size (unat count);
              Some (if ok then Some (bytes_written sizestream) else None) });
          case size' of None \<Rightarrow> Some (False, stream)
          | Some size' \<Rightarrow> do {
              (ok, stream) \<leftarrow> pb_encode_varint W stream size';
              if \<not> ok then Some (False, stream)
              else if W = None then pb_write W stream None size'
              else encode_items (\<lambda>s p. func W s m field p) stream data d_size (unat count) } } }
      else encode_items (\<lambda>s p. do {
          (ok, s) \<leftarrow> pb_encode_tag_for_field W s field;
          if \<not> ok then Some (False, s)
          else if a = PB_ATYPE_POINTER \<and> (t = PB_LTYPE_STRING \<or> t = PB_LTYPE_BYTES)
          then do { q \<leftarrow> load_word m p 8; func W s m field q }
          else func W s m field p }) stream data d_size (unat count))"

section \<open>Default values\<close>

primrec all_zero :: "memory \<Rightarrow> u64 \<Rightarrow> nat \<Rightarrow> bool option" where
  "all_zero m p 0 = Some True"
| "all_zero m p (Suc k) = do { b \<leftarrow> m p; if b \<noteq> 0 then Some False else all_zero m (p + 1) k }"

text \<open>The loop over the fields of a submessage stops at one that is not at its default.\<close>

partial_function (option) all_default ::
    "(pb_field \<Rightarrow> u64 \<Rightarrow> bool option) \<Rightarrow> pb_field_iter \<Rightarrow> bool option" where
  [code]: "all_default is_default iter =
     Option.bind (field_at (start iter) (pos iter)) (\<lambda>f.
       Option.bind (is_default f (pData iter)) (\<lambda>d.
         if \<not> d then Some False
         else Option.bind (pb_field_iter_next iter) (\<lambda>r. case r of (again, iter) \<Rightarrow>
           if again then all_default is_default iter else Some True)))"

text \<open>The value itself, after the cases decided by a size or presence flag.\<close>

definition value_is_default ::
    "(u64 \<Rightarrow> pb_field list option) \<Rightarrow> (pb_field \<Rightarrow> u64 \<Rightarrow> bool option) \<Rightarrow> memory \<Rightarrow> pb_field \<Rightarrow> u64 \<Rightarrow> bool option" where
  "value_is_default tabs is_default m field data =
     (let t = PB_LTYPE (ftype field); a = PB_ATYPE (ftype field) in
      if a = PB_ATYPE_STATIC \<and> t = PB_LTYPE_BYTES then map_option (\<lambda>n :: u32. n = 0) (load_word m data 4)
      else if a = PB_ATYPE_STATIC \<and> t = PB_LTYPE_STRING then map_option (\<lambda>b. b = 0) (m data)
      else if a = PB_ATYPE_STATIC \<and> t = PB_LTYPE_FIXED_LENGTH_BYTES then Some (data_size field = 0)
      else if a = PB_ATYPE_STATIC \<and> t = PB_LTYPE_SUBMESSAGE then do {
        table \<leftarrow> tabs (ptr field);
        (some_field, iter) \<leftarrow> pb_field_iter_begin table data;
        if some_field then all_default is_default iter else Some True }
      else if a = PB_ATYPE_POINTER \<and> t > PB_LTYPE_LAST_PACKABLE
      then map_option (\<lambda>p :: u64. p = 0) (load_word m data 8)
      else all_zero m data (unat (data_size field)))"

primrec pb_check_proto3_default_value ::
    "nat \<Rightarrow> (u64 \<Rightarrow> pb_field list option) \<Rightarrow> memory \<Rightarrow> pb_field \<Rightarrow> u64 \<Rightarrow> bool option" where
  "pb_check_proto3_default_value 0 tabs m field data = None"
| "pb_check_proto3_default_value (Suc d) tabs m field data =
     (let h = PB_HTYPE (ftype field); size_ptr = data + scast (size_offset field);
          rest = value_is_default tabs (pb_check_proto3_default_value d tabs m) m field data in
      if h = PB_HTYPE_REQUIRED then Some False
      else if h = PB_HTYPE_REPEATED \<and> size_offset field \<noteq> 0
      then map_option (\<lambda>n :: u32. n = 0) (load_word m size_ptr 4)
      else if h = PB_HTYPE_REPEATED \<and> PB_ATYPE (ftype field) = PB_ATYPE_STATIC then Some False
      else if h = PB_HTYPE_ONEOF then map_option (\<lambda>n :: u32. n = 0) (load_word m size_ptr 4)
      else if h = PB_HTYPE_OPTIONAL \<and> size_offset field \<noteq> 0 then map_option Not (safe_read_bool m size_ptr)
      else rest)"

section \<open>Fields\<close>

text \<open>A step of the encoder that gives up at the first failure.\<close>

definition tag_then ::
    "'st pb_sink \<Rightarrow> 'st pb_ostream \<Rightarrow> pb_field \<Rightarrow> ('st pb_ostream \<Rightarrow> (bool \<times> 'st pb_ostream) option) \<Rightarrow>
      (bool \<times> 'st pb_ostream) option" where
  "tag_then W stream field func = do {
     (ok, stream) \<leftarrow> pb_encode_tag_for_field W stream field;
     if \<not> ok then Some (False, stream) else func stream }"

text \<open>\<open>pSize\<close> is the address in the message, or \<^term>\<open>None\<close> for the local \<open>implicit_has\<close>; a null entry of
  the table of encoders is a fault when it is called.\<close>

definition encode_basic_field ::
    "nat \<Rightarrow> (u64 \<Rightarrow> pb_field list option) \<Rightarrow> 'st pb_encoder \<Rightarrow> 'st pb_sink \<Rightarrow> 'st pb_ostream \<Rightarrow> memory \<Rightarrow> pb_field \<Rightarrow>
      u64 \<Rightarrow> (bool \<times> 'st pb_ostream) option" where
  "encode_basic_field d tabs enc_submessage W stream m field data =
     (let h = PB_HTYPE (ftype field);
          func = (\<lambda>W s m field p. do { e \<leftarrow> PB_ENCODERS enc_submessage (PB_LTYPE (ftype field)); e W s m field p });
          size_ptr = (if size_offset field \<noteq> 0 then Some (data + scast (size_offset field)) else None) in
      do {
        implicit_has \<leftarrow> (if size_offset field = 0 \<and> h = PB_HTYPE_OPTIONAL
          then map_option Not (pb_check_proto3_default_value d tabs m field data) else Some True);
        (data, implicit_has) \<leftarrow> (if PB_ATYPE (ftype field) = PB_ATYPE_POINTER
          then map_option (\<lambda>p :: u64. (p, p \<noteq> 0)) (load_word m data 8) else Some (data, implicit_has));
        if h = PB_HTYPE_REQUIRED then
          if data = 0 then Some (False, oset_error ''missing required field'' stream)
          else tag_then W stream field (\<lambda>s. func W s m field data)
        else if h = PB_HTYPE_OPTIONAL then do {
          has \<leftarrow> (case size_ptr of Some p \<Rightarrow> safe_read_bool m p | None \<Rightarrow> Some implicit_has);
          if has then tag_then W stream field (\<lambda>s. func W s m field data) else Some (True, stream) }
        else if h = PB_HTYPE_REPEATED then do {
          count \<leftarrow> (case size_ptr of Some p \<Rightarrow> load_word m p 4 | None \<Rightarrow> Some (array_size field));
          encode_array W stream m field data (ucast count) func }
        else do {
          which \<leftarrow> (case size_ptr of Some p \<Rightarrow> load_word m p 4 | None \<Rightarrow> None);
          if which = tag field then tag_then W stream field (\<lambda>s. func W s m field data)
          else Some (True, stream) } })"

definition encode_callback_field ::
    "'st pb_env \<Rightarrow> 'st pb_sink \<Rightarrow> 'st pb_ostream \<Rightarrow> memory \<Rightarrow> pb_field \<Rightarrow> u64 \<Rightarrow> (bool \<times> 'st pb_ostream) option" where
  "encode_callback_field env W stream m field data = do {
     encode \<leftarrow> load_word m data 8;
     if encode \<noteq> 0 then do {
       (ok, stream) \<leftarrow> encode_func env encode W stream m field (data + 8);
       Some (if \<not> ok then (False, oset_error ''callback error'' stream) else (True, stream)) }
     else Some (True, stream) }"

definition encode_field ::
    "nat \<Rightarrow> 'st pb_env \<Rightarrow> 'st pb_encoder \<Rightarrow> 'st pb_sink \<Rightarrow> 'st pb_ostream \<Rightarrow> memory \<Rightarrow> pb_field \<Rightarrow> u64 \<Rightarrow>
      (bool \<times> 'st pb_ostream) option" where
  "encode_field d env enc_submessage W stream m field data =
     (let a = PB_ATYPE (ftype field) in
      if a = PB_ATYPE_STATIC \<or> a = PB_ATYPE_POINTER
      then encode_basic_field d (tables env) enc_submessage W stream m field data
      else if a = PB_ATYPE_CALLBACK then encode_callback_field env W stream m field data
      else Some (False, oset_error ''invalid field type'' stream))"

section \<open>Extensions\<close>

text \<open>A \<open>pb_extension_t\<close> has the pointers \<open>type\<close>, \<open>dest\<close> and \<open>next\<close> at 0, 8 and 16; its type the
  pointers \<open>encode\<close> and \<open>arg\<close> at 8 and 16.\<close>

definition default_extension_encoder ::
    "nat \<Rightarrow> 'st pb_env \<Rightarrow> 'st pb_encoder \<Rightarrow> 'st pb_sink \<Rightarrow> 'st pb_ostream \<Rightarrow> memory \<Rightarrow> u64 \<Rightarrow>
      (bool \<times> 'st pb_ostream) option" where
  "default_extension_encoder d env enc_submessage W stream m extension = do {
     type \<leftarrow> load_word m extension 8;
     arg \<leftarrow> load_word m (type + 16) 8;
     table \<leftarrow> tables env arg;
     field \<leftarrow> field_at table 0;
     if PB_ATYPE (ftype field) = PB_ATYPE_POINTER
     then encode_field d env enc_submessage W stream m field (extension + 8)
     else do {
       dest \<leftarrow> load_word m (extension + 8) 8;
       encode_field d env enc_submessage W stream m field dest } }"

partial_function (option) extension_loop ::
    "nat \<Rightarrow> 'st pb_env \<Rightarrow> 'st pb_encoder \<Rightarrow> 'st pb_sink \<Rightarrow> 'st pb_ostream \<Rightarrow> memory \<Rightarrow> u64 \<Rightarrow>
      (bool \<times> 'st pb_ostream) option" where
  [code]: "extension_loop d env enc_submessage W stream m extension =
     (if extension = 0 then Some (True, stream)
      else Option.bind (load_word m extension 8) (\<lambda>type.
        Option.bind (load_word m (type + 8) 8) (\<lambda>encode.
          Option.bind (if encode \<noteq> 0 then ext_encode_func env encode W stream m extension
              else default_extension_encoder d env enc_submessage W stream m extension) (\<lambda>r. case r of (status, stream) \<Rightarrow>
            if \<not> status then Some (False, stream)
            else Option.bind (load_word m (extension + 16) 8) (\<lambda>next.
              extension_loop d env enc_submessage W stream m next)))))"

definition encode_extension_field ::
    "nat \<Rightarrow> 'st pb_env \<Rightarrow> 'st pb_encoder \<Rightarrow> 'st pb_sink \<Rightarrow> 'st pb_ostream \<Rightarrow> memory \<Rightarrow> u64 \<Rightarrow>
      (bool \<times> 'st pb_ostream) option" where
  "encode_extension_field d env enc_submessage W stream m data = do {
     extension \<leftarrow> load_word m data 8;
     extension_loop d env enc_submessage W stream m extension }"

section \<open>Messages\<close>

partial_function (option) encode_loop ::
    "nat \<Rightarrow> 'st pb_env \<Rightarrow> 'st pb_encoder \<Rightarrow> 'st pb_sink \<Rightarrow> 'st pb_ostream \<Rightarrow> memory \<Rightarrow> pb_field_iter \<Rightarrow>
      (bool \<times> 'st pb_ostream) option" where
  [code]: "encode_loop d env enc_submessage W stream m iter =
     Option.bind (field_at (start iter) (pos iter)) (\<lambda>field.
       Option.bind (if PB_LTYPE (ftype field) = PB_LTYPE_EXTENSION
           then encode_extension_field d env enc_submessage W stream m (pData iter)
           else encode_field d env enc_submessage W stream m field (pData iter)) (\<lambda>r. case r of (ok, stream) \<Rightarrow>
         if \<not> ok then Some (False, stream)
         else Option.bind (pb_field_iter_next iter) (\<lambda>r. case r of (again, iter) \<Rightarrow>
           if again then encode_loop d env enc_submessage W stream m iter else Some (True, stream))))"

text \<open>\<open>pb_encode_submessage\<close>: the message is encoded twice, first to find its size.  A sizing stream has
  no state; that of the stream stands in its place.\<close>

definition pb_encode_submessage_with ::
    "('st pb_sink \<Rightarrow> 'st pb_ostream \<Rightarrow> (bool \<times> 'st pb_ostream) option) \<Rightarrow> 'st pb_sink \<Rightarrow> 'st pb_ostream \<Rightarrow>
      (bool \<times> 'st pb_ostream) option" where
  "pb_encode_submessage_with encode W stream = do {
     (ok, substream) \<leftarrow> encode None (PB_OSTREAM_SIZING (ostate stream));
     if \<not> ok then Some (False, stream\<lparr>oerrmsg := oerrmsg substream\<rparr>)
     else let size' = bytes_written substream in do {
       (ok, stream) \<leftarrow> pb_encode_varint W stream size';
       if \<not> ok then Some (False, stream)
       else if W = None then pb_write W stream None size'
       else if bytes_written stream + size' > max_size stream
       then Some (False, oset_error ''stream full'' stream)
       else do {
         (status, substream) \<leftarrow> encode W
           \<lparr>ostate = ostate stream, max_size = size', bytes_written = 0, oerrmsg = None\<rparr>;
         let stream = stream\<lparr>bytes_written := bytes_written stream + bytes_written substream,
               ostate := ostate substream, oerrmsg := oerrmsg substream\<rparr>;
         Some (if bytes_written substream \<noteq> size'
           then (False, oset_error ''submsg size changed'' stream) else (status, stream)) } } }"

primrec pb_encode ::
    "nat \<Rightarrow> 'st pb_env \<Rightarrow> 'st pb_sink \<Rightarrow> 'st pb_ostream \<Rightarrow> memory \<Rightarrow> pb_field list \<Rightarrow> u64 \<Rightarrow>
      (bool \<times> 'st pb_ostream) option" where
  "pb_encode 0 env W stream m table src = None"
| "pb_encode (Suc d) env W stream m table src = do {
     (some_field, iter) \<leftarrow> pb_field_iter_begin table src;
     if \<not> some_field then Some (True, stream)
     else
       let pb_enc_submessage = (\<lambda>W stream m field src.
             if ptr field = 0 then Some (False, oset_error ''invalid field descriptor'' stream)
             else do {
               subtable \<leftarrow> tables env (ptr field);
               pb_encode_submessage_with (\<lambda>W s. pb_encode d env W s m subtable src) W stream }) in
       encode_loop (Suc d) env pb_enc_submessage W stream m iter }"

definition pb_encode_submessage ::
    "nat \<Rightarrow> 'st pb_env \<Rightarrow> 'st pb_sink \<Rightarrow> 'st pb_ostream \<Rightarrow> memory \<Rightarrow> pb_field list \<Rightarrow> u64 \<Rightarrow>
      (bool \<times> 'st pb_ostream) option" where
  "pb_encode_submessage d env W stream m table src =
     pb_encode_submessage_with (\<lambda>W s. pb_encode d env W s m table src) W stream"

definition pb_encode_delimited ::
    "nat \<Rightarrow> 'st pb_env \<Rightarrow> 'st pb_sink \<Rightarrow> 'st pb_ostream \<Rightarrow> memory \<Rightarrow> pb_field list \<Rightarrow> u64 \<Rightarrow>
      (bool \<times> 'st pb_ostream) option" where
  "pb_encode_delimited = pb_encode_submessage"

definition pb_encode_nullterminated ::
    "nat \<Rightarrow> 'st pb_env \<Rightarrow> 'st pb_sink \<Rightarrow> 'st pb_ostream \<Rightarrow> memory \<Rightarrow> pb_field list \<Rightarrow> u64 \<Rightarrow>
      (bool \<times> 'st pb_ostream) option" where
  "pb_encode_nullterminated d env W stream m table src = do {
     (ok, stream) \<leftarrow> pb_encode d env W stream m table src;
     if \<not> ok then Some (False, stream) else pb_write W stream (Some [0]) 1 }"

definition pb_get_encoded_size ::
    "nat \<Rightarrow> 'st pb_env \<Rightarrow> 'st \<Rightarrow> memory \<Rightarrow> pb_field list \<Rightarrow> u64 \<Rightarrow> u64 option option" where
  "pb_get_encoded_size d env st m table src = do {
     (ok, stream) \<leftarrow> pb_encode d env None (PB_OSTREAM_SIZING st) m table src;
     Some (if ok then Some (bytes_written stream) else None) }"

section \<open>The encoding of a message\<close>

text \<open>A reference encoder: the bytes of a message by recursion over its fields, without streams, sizes
  found in advance or substreams.  \<^term>\<open>None\<close> where the message cannot be encoded.  Lengths are below
  \<open>2 ^ 63\<close>, as those of objects in memory are.\<close>

definition delimited :: "byte list \<Rightarrow> byte list option" where
  "delimited xs = (if length xs < 2 ^ 63 then Some (uleb_encode (length xs) @ xs) else None)"

definition wire_type_of :: "byte \<Rightarrow> u32 option" where
  "wire_type_of t =
     (if t = PB_LTYPE_BOOL \<or> t = PB_LTYPE_VARINT \<or> t = PB_LTYPE_UVARINT \<or> t = PB_LTYPE_SVARINT then Some PB_WT_VARINT
      else if t = PB_LTYPE_FIXED32 then Some PB_WT_32BIT
      else if t = PB_LTYPE_FIXED64 then Some PB_WT_64BIT
      else if t = PB_LTYPE_BYTES \<or> t = PB_LTYPE_STRING \<or> t = PB_LTYPE_SUBMESSAGE \<or> t = PB_LTYPE_FIXED_LENGTH_BYTES
      then Some PB_WT_STRING
      else None)"

definition tag_bytes :: "u32 \<Rightarrow> u32 \<Rightarrow> byte list" where
  "tag_bytes t w = uleb_encode (unat t * 8 + unat w)"

context pb_output begin

lemma emits_submessage:
  assumes "emits f xs" "length xs < 2 ^ 63"
  shows "emits (pb_encode_submessage_with f) (uleb_encode (length xs) @ xs)"
proof (rule emitsI, goal_cases)
  let ?n = "word_of_nat (length xs) :: u64"
  have "length xs < 2 ^ 64" using assms(2) by simp
  then have n: "unat ?n = length xs" by (simp add: unat_of_nat)
  note enc = emits_varint [of ?n, unfolded n]
  {
    case (1 stream)
    show ?case using assms n emits_sizing [OF enc]
      by (simp add: pb_encode_submessage_with_def emits_sizing PB_OSTREAM_SIZING_def pb_write_def add.assoc)
  next
    case (2 stream bs r)
    then have le: "length (uleb_encode (length xs)) \<le> r" "length xs \<le> r - length (uleb_encode (length xs))"
      by simp_all
    obtain s where s: "pb_encode_varint (Some cb) stream ?n = Some (True, s)"
      "at_output s (bs @ uleb_encode (length xs)) (r - length (uleb_encode (length xs)))"
      "max_size s = max_size stream" "oerrmsg stream = None \<Longrightarrow> oerrmsg s = None"
      using emits_fits [OF enc 2(1) le(1)] by metis
    let ?sub = "\<lparr>ostate = ostate s, max_size = ?n, bytes_written = 0, oerrmsg = None\<rparr>"
    have sub: "at_output ?sub (bs @ uleb_encode (length xs)) (length xs)"
      using s(2) le(2) n by (simp add: at_output_def)
    obtain s' where s': "f (Some cb) ?sub = Some (True, s')"
      "at_output s' ((bs @ uleb_encode (length xs)) @ xs) (length xs - length xs)"
      "max_size s' = max_size ?sub" "oerrmsg ?sub = None \<Longrightarrow> oerrmsg s' = None"
      using emits_fits [OF assms(1) sub order_refl] by metis
    have w: "bytes_written s' = ?n"
      using s'(2,3) by (simp add: at_output_def word_unat_eq_iff)
    have "unat (bytes_written s) + length xs \<le> unat (max_size s)" using s(2) le(2) by (simp add: at_output_def)
    moreover from this have "unat (bytes_written s + ?n) = unat (bytes_written s) + length xs"
      using unat_u64_bound [of "max_size s"] n by (simp add: unat_word_ariths)
    ultimately have fit: "\<not> bytes_written s + ?n > max_size s"
      "unat (bytes_written s + ?n) = unat (bytes_written s) + length xs" by (simp_all add: word_less_nat_alt)
    let ?out = "s\<lparr>bytes_written := bytes_written s + ?n, ostate := ostate s', oerrmsg := oerrmsg s'\<rparr>"
    have "pb_encode_submessage_with f (Some cb) stream = Some (True, ?out)"
      using s(1) s'(1) w fit(1) assms(1)
      by (simp add: pb_encode_submessage_with_def emits_sizing PB_OSTREAM_SIZING_def Let_def)
    moreover have "unat (bytes_written s) + length xs + (r - length (uleb_encode (length xs)) - length xs) =
        unat (max_size s)" "length (bs @ uleb_encode (length xs) @ xs) +
        (r - length (uleb_encode (length xs)) - length xs) \<le> room"
      using s(2) le(2) by (auto simp: at_output_def)
    then have "at_output ?out (bs @ uleb_encode (length xs) @ xs) (r - length (uleb_encode (length xs)) - length xs)"
      using s'(2) fit(2) by (simp add: at_output_def)
    ultimately show ?case using s(3) s'(4) by simp
  next
    case (3 stream bs r)
    show ?case
    proof (cases "length (uleb_encode (length xs)) \<le> r")
      case False
      then obtain s k where "pb_encode_varint (Some cb) stream ?n = Some (False, s)" "k \<le> r"
        "at_output s (bs @ take k (uleb_encode (length xs))) (r - k)" "oerrmsg s \<noteq> None"
        using emits_full [OF enc 3(1)] 3(3) by auto
      then show ?thesis using False assms(1)
        by (intro exI [of _ s] exI [of _ k])
          (simp add: pb_encode_submessage_with_def emits_sizing PB_OSTREAM_SIZING_def)
    next
      case True
      obtain s where s: "pb_encode_varint (Some cb) stream ?n = Some (True, s)"
        "at_output s (bs @ uleb_encode (length xs)) (r - length (uleb_encode (length xs)))"
        "max_size s = max_size stream"
        using emits_fits [OF enc 3(1) True] by metis
      have "unat (bytes_written s) + length xs < 2 ^ 64" "r - length (uleb_encode (length xs)) < length xs"
        using emits_count [OF 3(1) s(2,3) True] 3(2,3) True by simp_all
      moreover from this have "unat (bytes_written s + ?n) = unat (bytes_written s) + length xs"
        using n by (simp add: unat_word_ariths)
      moreover have "unat (bytes_written s) + (r - length (uleb_encode (length xs))) = unat (max_size s)"
        using s(2) by (simp add: at_output_def)
      ultimately have "bytes_written s + ?n > max_size s" by (simp add: word_less_nat_alt)
      then have "pb_encode_submessage_with f (Some cb) stream = Some (False, oset_error ''stream full'' s)"
        using s(1) assms(1) by (simp add: pb_encode_submessage_with_def emits_sizing PB_OSTREAM_SIZING_def)
      moreover have "at_output (oset_error ''stream full'' s) (bs @ uleb_encode (length xs)) (r - length (uleb_encode (length xs)))"
        using s(2) by (simp add: at_output_def oset_error_def)
      moreover have "oerrmsg (oset_error ''stream full'' s) \<noteq> None" by (simp add: oset_error_def split: option.split)
      ultimately show ?thesis using True
        by (intro exI [of _ "oset_error ''stream full'' s"] exI [of _ "length (uleb_encode (length xs))"]) simp
    qed
  }
qed

end

text \<open>One value, by the type of its field.\<close>

definition number_bytes :: "u64 option option \<Rightarrow> byte list option" where
  "number_bytes x = (case x of Some (Some v) \<Rightarrow> Some (uleb_encode (unat v)) | _ \<Rightarrow> None)"

definition value_bytes :: "(pb_field \<Rightarrow> u64 \<Rightarrow> byte list option) \<Rightarrow> memory \<Rightarrow> pb_field \<Rightarrow> u64 \<Rightarrow> byte list option" where
  "value_bytes submessage m f p =
     (let t = PB_LTYPE (ftype f) in
      if t = PB_LTYPE_BOOL then map_option (\<lambda>b. uleb_encode (if b \<noteq> 0 then 1 else 0)) (m p)
      else if t = PB_LTYPE_VARINT then number_bytes (load_signed m (data_size f) p)
      else if t = PB_LTYPE_UVARINT then number_bytes (load_unsigned m (data_size f) p)
      else if t = PB_LTYPE_SVARINT then number_bytes (map_option (map_option zigzag) (load_signed m (data_size f) p))
      else if t = PB_LTYPE_FIXED32 then read_map m p 4
      else if t = PB_LTYPE_FIXED64 then read_map m p 8
      else if t = PB_LTYPE_BYTES then
        if p = 0 then delimited []
        else do {
          n \<leftarrow> load_word m p 4;
          if PB_ATYPE (ftype f) = PB_ATYPE_STATIC \<and> unat (n :: u32) + 4 > unat (data_size f) then None
          else do { bs \<leftarrow> read_map m (p + 4) (unat n); delimited bs } }
      else if t = PB_LTYPE_STRING then do {
        n \<leftarrow> (if p = 0 then Some 0 else string_size m p
          (if PB_ATYPE (ftype f) = PB_ATYPE_POINTER then 2 ^ 64 - 1 else unat (data_size f)));
        bs \<leftarrow> read_map m p n;
        delimited bs }
      else if t = PB_LTYPE_SUBMESSAGE then submessage f p
      else if t = PB_LTYPE_FIXED_LENGTH_BYTES then do {
        bs \<leftarrow> read_map m p (unat (data_size f));
        delimited bs }
      else None)"

definition tagged :: "pb_field \<Rightarrow> byte list option \<Rightarrow> byte list option" where
  "tagged f v = do {
     w \<leftarrow> wire_type_of (PB_LTYPE (ftype f));
     xs \<leftarrow> v;
     Some (tag_bytes (tag f) w @ xs) }"

primrec items_bytes :: "(u64 \<Rightarrow> byte list option) \<Rightarrow> u64 \<Rightarrow> u32 \<Rightarrow> nat \<Rightarrow> byte list option" where
  "items_bytes item p d_size 0 = Some []"
| "items_bytes item p d_size (Suc k) = do {
     xs \<leftarrow> item p;
     ys \<leftarrow> items_bytes item (p + ucast d_size) d_size k;
     Some (xs @ ys) }"

definition array_bytes ::
    "(pb_field \<Rightarrow> u64 \<Rightarrow> byte list option) \<Rightarrow> memory \<Rightarrow> pb_field \<Rightarrow> u64 \<Rightarrow> u32 \<Rightarrow> byte list option" where
  "array_bytes submessage m f p count =
     (let t = PB_LTYPE (ftype f); a = PB_ATYPE (ftype f); one = value_bytes submessage m f in
      if count = 0 then Some []
      else if a \<noteq> PB_ATYPE_POINTER \<and> count > array_size f then None
      else if t \<le> PB_LTYPE_LAST_PACKABLE then do {
        xs \<leftarrow> items_bytes one p (data_size f) (unat count);
        ys \<leftarrow> delimited xs;
        Some (tag_bytes (tag f) PB_WT_STRING @ ys) }
      else items_bytes (\<lambda>p. tagged f
          (if a = PB_ATYPE_POINTER \<and> (t = PB_LTYPE_STRING \<or> t = PB_LTYPE_BYTES)
           then do { q \<leftarrow> load_word m p 8; one q } else one p)) p (data_size f) (unat count))"

text \<open>A field at an address of the message that is no extension.  A callback field has an encoding here only
  when no function is installed: what an installed one writes is the client's.\<close>

definition plain_field_bytes ::
    "nat \<Rightarrow> (u64 \<Rightarrow> pb_field list option) \<Rightarrow> (pb_field \<Rightarrow> u64 \<Rightarrow> byte list option) \<Rightarrow> memory \<Rightarrow> pb_field \<Rightarrow> u64 \<Rightarrow>
      byte list option" where
  "plain_field_bytes d tabs submessage m f addr =
     (let h = PB_HTYPE (ftype f); a = PB_ATYPE (ftype f); size_ptr = addr + scast (size_offset f) in
      if a = PB_ATYPE_CALLBACK then do { p \<leftarrow> load_word m addr 8; if p = (0 :: u64) then Some [] else None }
      else if a = PB_ATYPE_STATIC \<or> a = PB_ATYPE_POINTER then do {
        is_default \<leftarrow> (if size_offset f = 0 \<and> h = PB_HTYPE_OPTIONAL
          then pb_check_proto3_default_value d tabs m f addr else Some False);
        p \<leftarrow> (if a = PB_ATYPE_POINTER then load_word m addr 8 else Some addr);
        if h = PB_HTYPE_REQUIRED then
          if p = 0 then None else tagged f (value_bytes submessage m f p)
        else if h = PB_HTYPE_OPTIONAL then do {
          present \<leftarrow> (if size_offset f \<noteq> 0 then safe_read_bool m size_ptr
            else if a = PB_ATYPE_POINTER then Some (p \<noteq> 0) else Some (\<not> is_default));
          if present then tagged f (value_bytes submessage m f p) else Some [] }
        else if h = PB_HTYPE_REPEATED then do {
          count \<leftarrow> (if size_offset f \<noteq> 0 then load_word m size_ptr 4 else Some (array_size f));
          array_bytes submessage m f p count }
        else do {
          which \<leftarrow> (if size_offset f \<noteq> 0 then load_word m size_ptr 4 else None);
          if which = tag f then tagged f (value_bytes submessage m f p) else Some [] } }
      else None)"

text \<open>The list of extensions at an address: each is the field its type describes, at the address it holds
  or, for a pointer, where it holds the pointer.  A type with an \<open>encode\<close> function of its own has no encoding
  here, and neither has a list that does not end.\<close>

definition extension_value :: "memory \<Rightarrow> u64 \<Rightarrow> pb_field \<Rightarrow> u64 option" where
  "extension_value m e f =
     (if PB_ATYPE (ftype f) = PB_ATYPE_POINTER then Some (e + 8) else load_word m (e + 8) 8)"

definition extension_field :: "(u64 \<Rightarrow> pb_field list option) \<Rightarrow> memory \<Rightarrow> u64 \<Rightarrow> (pb_field \<times> u64) option" where
  "extension_field tabs m e = do {
     type \<leftarrow> load_word m e 8;
     encode \<leftarrow> load_word m (type + 8) 8;
     arg \<leftarrow> load_word m (type + 16) 8;
     table \<leftarrow> tabs arg;
     if (encode :: u64) \<noteq> 0 \<or> table = [] then None
     else do { addr \<leftarrow> extension_value m e (hd table); Some (hd table, addr) } }"

partial_function (option) extensions_bytes ::
    "(u64 \<Rightarrow> pb_field list option) \<Rightarrow> (pb_field \<Rightarrow> u64 \<Rightarrow> byte list option) \<Rightarrow> memory \<Rightarrow> u64 \<Rightarrow> byte list option" where
  [code]: "extensions_bytes tabs one m e =
     (if e = 0 then Some []
      else Option.bind (extension_field tabs m e) (\<lambda>fa.
        Option.bind (one (fst fa) (snd fa)) (\<lambda>xs.
          Option.bind (load_word m (e + 16) 8) (\<lambda>next.
            Option.bind (extensions_bytes tabs one m next) (\<lambda>ys. Some (xs @ ys))))))"

definition field_bytes ::
    "nat \<Rightarrow> (u64 \<Rightarrow> pb_field list option) \<Rightarrow> (pb_field \<Rightarrow> u64 \<Rightarrow> byte list option) \<Rightarrow> memory \<Rightarrow> pb_field \<Rightarrow> u64 \<Rightarrow>
      byte list option" where
  "field_bytes d tabs submessage m f addr =
     (if PB_LTYPE (ftype f) = PB_LTYPE_EXTENSION
      then do { e \<leftarrow> load_word m addr 8; extensions_bytes tabs (plain_field_bytes d tabs submessage m) m e }
      else plain_field_bytes d tabs submessage m f addr)"

text \<open>The fields of a message with their addresses, up to the terminator.\<close>

definition field_extent :: "pb_field \<Rightarrow> u64" where
  "field_extent f =
     (if PB_ATYPE (ftype f) = PB_ATYPE_STATIC \<and> PB_HTYPE (ftype f) = PB_HTYPE_REPEATED
      then ucast (data_size f) * ucast (array_size f)
      else if PB_ATYPE (ftype f) = PB_ATYPE_POINTER then 8 else ucast (data_size f))"

definition in_same_union :: "pb_field \<Rightarrow> pb_field \<Rightarrow> bool" where
  "in_same_union f g \<longleftrightarrow> PB_HTYPE (ftype f) = PB_HTYPE_ONEOF \<and> PB_HTYPE (ftype g) = PB_HTYPE_ONEOF \<and>
     data_offset g = 0xFFFFFFFF"

fun layout_from :: "pb_field \<Rightarrow> u64 \<Rightarrow> pb_field list \<Rightarrow> (pb_field \<times> u64) list" where
  "layout_from f addr [] = [(f, addr)]"
| "layout_from f addr (g # gs) =
     (f, addr) # (if tag g = 0 then [] else layout_from g
       (if in_same_union f g then addr else addr + field_extent f + ucast (data_offset g)) gs)"

definition message_layout :: "pb_field list \<Rightarrow> u64 \<Rightarrow> (pb_field \<times> u64) list" where
  "message_layout table src =
     (case table of [] \<Rightarrow> [] | f # fs \<Rightarrow>
        if tag f = 0 then [] else layout_from f (src + ucast (data_offset f)) fs)"

definition terminated :: "pb_field list \<Rightarrow> bool" where
  "terminated table \<longleftrightarrow> (\<exists>f \<in> set table. tag f = 0)"

primrec fields_bytes :: "(pb_field \<Rightarrow> u64 \<Rightarrow> byte list option) \<Rightarrow> (pb_field \<times> u64) list \<Rightarrow> byte list option" where
  "fields_bytes one [] = Some []"
| "fields_bytes one (fa # fas) = do {
     xs \<leftarrow> one (fst fa) (snd fa);
     ys \<leftarrow> fields_bytes one fas;
     Some (xs @ ys) }"

primrec message_bytes ::
    "nat \<Rightarrow> (u64 \<Rightarrow> pb_field list option) \<Rightarrow> memory \<Rightarrow> pb_field list \<Rightarrow> u64 \<Rightarrow> byte list option" where
  "message_bytes 0 tabs m table src = None"
| "message_bytes (Suc d) tabs m table src =
     (if \<not> terminated table then None
      else fields_bytes (field_bytes (Suc d) tabs (\<lambda>f p.
          if ptr f = 0 then None
          else do {
            subtable \<leftarrow> tabs (ptr f);
            xs \<leftarrow> message_bytes d tabs m subtable p;
            delimited xs }) m) (message_layout table src))"

section \<open>The iterator walks the layout\<close>

text \<open>An iterator at the field \<open>f\<close> at \<open>addr\<close>, with the fields \<open>fs\<close> after it.\<close>

definition iter_at :: "pb_field_iter \<Rightarrow> pb_field \<Rightarrow> u64 \<Rightarrow> pb_field list \<Rightarrow> bool" where
  "iter_at iter f addr fs \<longleftrightarrow> pos iter < length (start iter) \<and> drop (pos iter) (start iter) = f # fs \<and>
     tag f \<noteq> 0 \<and> terminated fs \<and> pData iter = addr"

lemma iter_at_field: "iter_at iter f addr fs \<Longrightarrow> field_at (start iter) (pos iter) = Some f"
  by (auto simp: iter_at_def field_at_def) (metis hd_drop_conv_nth list.sel(1))

lemma iter_begin:
  assumes "terminated (f # fs)"
  shows "\<exists>iter. pb_field_iter_begin (f # fs) dest = Some (tag f \<noteq> 0, iter) \<and> start iter = f # fs \<and>
    dest_struct iter = dest \<and> pos iter = 0 \<and>
    (tag f \<noteq> 0 \<longrightarrow> iter_at iter f (dest + ucast (data_offset f)) fs)"
  using assms by (auto simp: pb_field_iter_begin_def field_at_def iter_at_def terminated_def Let_def)

lemma iter_next:
  assumes "iter_at iter f addr (g # gs)"
  shows "tag g \<noteq> 0 \<Longrightarrow> \<exists>iter'. pb_field_iter_next iter = Some (True, iter') \<and>
      iter_at iter' g (if in_same_union f g then addr else addr + field_extent f + ucast (data_offset g)) gs \<and>
      start iter' = start iter \<and> dest_struct iter' = dest_struct iter \<and> pos iter' = Suc (pos iter)"
    and "tag g = 0 \<Longrightarrow> \<exists>iter' b. pb_field_iter_begin (start iter) (dest_struct iter) = Some (b, iter') \<and>
      pb_field_iter_next iter = Some (False, iter')"
proof -
  have d: "drop (pos iter) (start iter) = f # g # gs" using assms by (simp add: iter_at_def)
  have "length (drop (pos iter) (start iter)) = Suc (Suc (length gs))" by (simp only: d list.size add_0_right add_Suc_right)
  then have l: "Suc (pos iter) < length (start iter)" by (simp only: length_drop)
  have g: "field_at (start iter) (Suc (pos iter)) = Some g"
    using l d by (simp add: field_at_def) (metis drop_Suc list.sel(1) list.sel(3) hd_drop_conv_nth tl_drop)
  have dg: "drop (Suc (pos iter)) (start iter) = g # gs" by (metis d drop_Suc tl_drop list.sel(3))
  note f = iter_at_field [OF assms]
  {
    assume t: "tag g \<noteq> 0"
    show "\<exists>iter'. pb_field_iter_next iter = Some (True, iter') \<and>
      iter_at iter' g (if in_same_union f g then addr else addr + field_extent f + ucast (data_offset g)) gs \<and>
      start iter' = start iter \<and> dest_struct iter' = dest_struct iter \<and> pos iter' = Suc (pos iter)"
    proof (cases "in_same_union f g")
      case True
      then show ?thesis using assms t f g dg l
        by (simp add: pb_field_iter_next_def iter_at_def in_same_union_def [symmetric] Let_def terminated_def)
    next
      case False
      then show ?thesis using assms t f g dg l
        by (simp add: pb_field_iter_next_def iter_at_def in_same_union_def [symmetric] Let_def terminated_def
            field_extent_def)
    qed
  next
    assume t: "tag g = 0"
    show "\<exists>iter' b. pb_field_iter_begin (start iter) (dest_struct iter) = Some (b, iter') \<and>
      pb_field_iter_next iter = Some (False, iter')"
    proof -
      have "start iter \<noteq> []" using l by auto
      then obtain b iter' where "pb_field_iter_begin (start iter) (dest_struct iter) = Some (b, iter')"
        by (cases "start iter") (simp_all add: pb_field_iter_begin_def field_at_def Let_def)
      then show ?thesis using assms t f g by (simp add: pb_field_iter_next_def iter_at_def)
    qed
  }
qed

section \<open>The encoder emits the encoding\<close>

lemma delimitedD: "delimited xs = Some ys \<Longrightarrow> ys = uleb_encode (length xs) @ xs \<and> length xs < 2 ^ 63"
  by (simp add: delimited_def split: if_splits)

lemma string_size_le: "string_size m p k = Some n \<Longrightarrow> n \<le> k"
  by (induction k arbitrary: p n) (auto simp: bind_eq_Some_conv split: if_splits)

lemma wire_type_small: "wire_type_of t = Some w \<Longrightarrow> unat w < 8"
  by (auto simp: wire_type_of_def wire_types split: if_splits)

lemma write_null: "pb_write W s None 0 = pb_write W s (Some []) 0"
  by (simp add: pb_write_def)

context pb_output begin

lemma emits_cong: "emits g xs \<Longrightarrow> (\<And>W s. f W s = g W s) \<Longrightarrow> emits f xs"
  by (metis ext)

lemma emits_field_tag:
  assumes "wire_type_of (PB_LTYPE (ftype f)) = Some w"
  shows "emits (\<lambda>W s. pb_encode_tag_for_field W s f) (tag_bytes (tag f) w)"
proof -
  have "pb_encode_tag_for_field W s f = pb_encode_tag W s w (tag f)" for W :: "'st pb_sink" and s
    using assms by (auto simp: pb_encode_tag_for_field_def wire_type_of_def Let_def split: if_splits)
  with emits_tag [OF wire_type_small [OF assms], of "tag f"] show ?thesis
    unfolding tag_bytes_def by (rule emits_cong)
qed

lemma emits_tag_then:
  assumes "wire_type_of (PB_LTYPE (ftype f)) = Some w" "emits g xs"
  shows "emits (\<lambda>W s. tag_then W s f (g W)) (tag_bytes (tag f) w @ xs)"
  unfolding tag_then_def by (rule emits_then [OF emits_field_tag [OF assms(1)] assms(2)])

lemma emits_string_at:
  assumes "read_map m p n = Some bs" "delimited bs = Some xs"
  shows "emits (\<lambda>W s. pb_encode_string W s (read_map m p n) (word_of_nat n)) xs"
proof -
  have l: "length bs = n" using assms(1) by (rule read_map_length)
  have d: "xs = uleb_encode (length bs) @ bs" "length bs < 2 ^ 63" using delimitedD [OF assms(2)] by auto
  then have "length bs = unat (word_of_nat n :: u64)" using l by (simp add: unat_of_nat)
  from emits_string [OF this] show ?thesis using d(1) by (simp add: assms(1))
qed

lemma emits_bytes:
  assumes "(if p = 0 then delimited []
    else do {
      n \<leftarrow> load_word m p 4;
      if PB_ATYPE (ftype f) = PB_ATYPE_STATIC \<and> unat (n :: u32) + 4 > unat (data_size f) then None
      else do { bs \<leftarrow> read_map m (p + 4) (unat n); delimited bs } }) = Some xs"
  shows "emits (\<lambda>W s. pb_enc_bytes W s m f p) xs"
proof (cases "p = 0")
  case True
  have eq: "pb_enc_bytes W s m f p = pb_encode_string W s (Some []) 0" for W :: "'st pb_sink" and s
    unfolding pb_enc_bytes_def pb_encode_string_def write_null by (simp add: True)
  have "emits (\<lambda>W s. pb_encode_string W s (Some []) 0) xs"
    using emits_string_at [of m p 0 "[]" xs] True assms by simp
  then show ?thesis by (rule emits_cong [OF _ eq])
next
  case False
  then obtain n bs where n: "load_word m p 4 = Some (n :: u32)" "read_map m (p + 4) (unat n) = Some bs"
    "delimited bs = Some xs" "\<not> (PB_ATYPE (ftype f) = PB_ATYPE_STATIC \<and> unat n + 4 > unat (data_size f))"
    using assms by (auto simp: bind_eq_Some_conv split: if_splits)
  have u: "unat (ucast n :: u64) = unat n" by (simp add: unat_ucast_up)
  have "unat n < 2 ^ 32" using unsigned_less [of n, where 'a = nat] by simp
  then have a: "unat (ucast n + 4 :: u64) = unat n + 4" using u by (simp add: unat_word_ariths)
  have "pb_enc_bytes W s m f p = pb_encode_string W s (read_map m (p + 4) (unat n)) (word_of_nat (unat n))"
    for W :: "'st pb_sink" and s
    using False n(1,4) a u by (auto simp: pb_enc_bytes_def word_less_nat_alt unat_ucast_up)
  with emits_string_at [OF n(2,3)] show ?thesis by (rule emits_cong)
qed

lemma emits_number: "number_bytes x = Some xs \<Longrightarrow>
    \<exists>v. x = Some (Some v) \<and> emits (\<lambda>W s. pb_encode_varint W s v) xs"
  using emits_varint by (auto simp: number_bytes_def split: option.splits)

lemma value_emits:
  assumes "value_bytes submessage m f p = Some xs"
    and sub: "\<And>f p xs. submessage f p = Some xs \<Longrightarrow> emits (\<lambda>W s. enc_sub W s m f p) xs"
  shows "\<exists>e. PB_ENCODERS enc_sub (PB_LTYPE (ftype f)) = Some e \<and> emits (\<lambda>W s. e W s m f p) xs"
proof -
  let ?t = "PB_LTYPE (ftype f)" and ?a = "PB_ATYPE (ftype f)"
  consider "?t = PB_LTYPE_BOOL" | "?t = PB_LTYPE_VARINT" | "?t = PB_LTYPE_UVARINT" | "?t = PB_LTYPE_SVARINT"
    | "?t = PB_LTYPE_FIXED32" | "?t = PB_LTYPE_FIXED64" | "?t = PB_LTYPE_BYTES" | "?t = PB_LTYPE_STRING"
    | "?t = PB_LTYPE_SUBMESSAGE" | "?t = PB_LTYPE_FIXED_LENGTH_BYTES"
    using assms(1) by (auto simp: value_bytes_def Let_def split: if_splits)
  then show ?thesis
  proof cases
    case 1
    then obtain b where "m p = Some b" "xs = uleb_encode (if b \<noteq> 0 then 1 else 0)"
      using assms(1) by (auto simp: value_bytes_def)
    then show ?thesis using 1 emits_varint [of "if b \<noteq> 0 then 1 else 0"]
      by (auto simp: PB_ENCODERS_def pb_enc_bool_def safe_read_bool_def)
  next
    case 2
    then have "number_bytes (load_signed m (data_size f) p) = Some xs"
      using assms(1) by (simp add: value_bytes_def pb_ltypes)
    from emits_number [OF this] show ?thesis using 2 by (auto simp: PB_ENCODERS_def pb_ltypes pb_enc_varint_def)
  next
    case 3
    then have "number_bytes (load_unsigned m (data_size f) p) = Some xs"
      using assms(1) by (simp add: value_bytes_def pb_ltypes)
    from emits_number [OF this] show ?thesis using 3 by (auto simp: PB_ENCODERS_def pb_ltypes pb_enc_uvarint_def)
  next
    case 4
    then have "number_bytes (map_option (map_option zigzag) (load_signed m (data_size f) p)) = Some xs"
      using assms(1) by (simp add: value_bytes_def pb_ltypes)
    then obtain v where "load_signed m (data_size f) p = Some (Some v)" "xs = uleb_encode (unat (zigzag v))"
      by (auto simp: number_bytes_def split: option.splits)
    then show ?thesis using 4 emits_svarint [of v] by (auto simp: PB_ENCODERS_def pb_ltypes pb_enc_svarint_def)
  next
    case 5
    then have r: "read_map m p 4 = Some xs" using assms(1) by (simp add: value_bytes_def pb_ltypes)
    then have "length xs = 4" by (rule read_map_length)
    moreover from this have "unat (le_word xs :: u32) = le_nat xs" by (intro unat_le_word) simp
    ultimately have "le_bytes 4 (unat (le_word xs :: u32)) = xs" using le_bytes_le_nat [of xs] by simp
    then show ?thesis using 5 r emits_fixed32 [of "le_word xs"]
      by (simp add: PB_ENCODERS_def pb_ltypes pb_enc_fixed32_def load_word_def)
  next
    case 6
    then have r: "read_map m p 8 = Some xs" using assms(1) by (simp add: value_bytes_def pb_ltypes)
    then have "length xs = 8" by (rule read_map_length)
    moreover from this have "unat (le_word xs :: u64) = le_nat xs" by (intro unat_le_word) simp
    ultimately have "le_bytes 8 (unat (le_word xs :: u64)) = xs" using le_bytes_le_nat [of xs] by simp
    then show ?thesis using 6 r emits_fixed64 [of "le_word xs"]
      by (simp add: PB_ENCODERS_def pb_ltypes pb_enc_fixed64_def load_word_def)
  next
    case 7
    have "emits (\<lambda>W s. pb_enc_bytes W s m f p) xs"
    proof (rule emits_bytes)
      show "(if p = 0 then delimited []
        else do {
          n \<leftarrow> load_word m p 4;
          if ?a = PB_ATYPE_STATIC \<and> unat (n :: u32) + 4 > unat (data_size f) then None
          else do { bs \<leftarrow> read_map m (p + 4) (unat n); delimited bs } }) = Some xs"
        using assms(1) 7 by (simp add: value_bytes_def pb_ltypes)
    qed
    then show ?thesis using 7 by (simp add: PB_ENCODERS_def pb_ltypes)
  next
    case 8
    let ?k = "if ?a = PB_ATYPE_POINTER then 2 ^ 64 - 1 else unat (data_size f)"
    obtain n bs where n: "(if p = 0 then Some 0 else string_size m p ?k) = Some n" "read_map m p n = Some bs"
      "delimited bs = Some xs"
      using assms(1) 8 by (auto simp: value_bytes_def pb_ltypes bind_eq_Some_conv)
    have k: "unat (if ?a = PB_ATYPE_POINTER then 0xFFFFFFFFFFFFFFFF else ucast (data_size f) :: u64) = ?k"
      by (simp add: unat_ucast_up)
    have "pb_enc_string W s m f p = pb_encode_string W s (read_map m p n) (word_of_nat n)" for W :: "'st pb_sink" and s
      unfolding pb_enc_string_def Let_def k n(1) by simp
    with emits_string_at [OF n(2,3)] have "emits (\<lambda>W s. pb_enc_string W s m f p) xs" by (rule emits_cong)
    then show ?thesis using 8 by (simp add: PB_ENCODERS_def pb_ltypes)
  next
    case 9
    then have "submessage f p = Some xs" using assms(1) by (simp add: value_bytes_def pb_ltypes)
    then show ?thesis using 9 sub by (simp add: PB_ENCODERS_def pb_ltypes)
  next
    case 10
    then obtain bs where "read_map m p (unat (data_size f)) = Some bs" "delimited bs = Some xs"
      using assms(1) by (auto simp: value_bytes_def pb_ltypes bind_eq_Some_conv)
    from emits_string_at [OF this] show ?thesis using 10
      by (simp add: PB_ENCODERS_def pb_ltypes pb_enc_fixed_length_bytes_def)
  qed
qed

end

context pb_output begin

lemma items_emit:
  assumes "items_bytes one p d k = Some xs"
    and "\<And>p xs. one p = Some xs \<Longrightarrow> emits (\<lambda>W s. item W s p) xs"
  shows "emits (\<lambda>W s. encode_items (item W) s p d k) xs"
  using assms(1)
proof (induction k arbitrary: p xs)
  case 0
  then show ?case using emits_Nil by simp
next
  case (Suc k)
  then obtain ys zs where "one p = Some ys" "items_bytes one (p + ucast d) d k = Some zs" "xs = ys @ zs"
    by (auto simp: bind_eq_Some_conv)
  then show ?case using emits_then [OF assms(2) Suc.IH] by simp
qed

lemma items_bytes_length:
  assumes "items_bytes one p d k = Some xs" "\<And>p xs. one p = Some xs \<Longrightarrow> length xs = n"
  shows "length xs = n * k"
  using assms(1)
proof (induction k arbitrary: p xs)
  case (Suc k)
  then show ?case using assms(2) by (fastforce simp: bind_eq_Some_conv)
qed simp

text \<open>A packed array finds its size in advance, by the number of entries or on a sizing stream, and a
  sizing stream then skips the entries.\<close>

lemma emits_packed:
  assumes "emits items xs" "length xs < 2 ^ 63"
    and size': "\<And>W s. size_of W s = Some (Some (word_of_nat (length xs)))"
  shows "emits (\<lambda>W s. do { sz \<leftarrow> size_of W s;
      case sz of None \<Rightarrow> Some (False, s)
      | Some sz \<Rightarrow> do {
          (ok, s) \<leftarrow> pb_encode_varint W s sz;
          if \<not> ok then Some (False, s)
          else if W = None then pb_write W s None sz else items W s } })
    (uleb_encode (length xs) @ xs)"
proof -
  let ?n = "word_of_nat (length xs) :: u64"
  have "length xs < 2 ^ 64" using assms(2) by simp
  then have n: "unat ?n = length xs" by (simp add: unat_of_nat)
  have one: "emits (\<lambda>W s. if W = None then pb_write W s None ?n else items W s) xs"
  proof (rule emitsI, goal_cases)
    case (1 stream)
    show ?case by (simp add: pb_write_def)
  next
    case (2 stream bs r)
    show ?case by (rule emits_fits [OF assms(1) 2]) auto
  next
    case (3 stream bs r)
    show ?case by (rule emits_full [OF assms(1) 3]) auto
  qed
  show ?thesis
    using emits_then [OF emits_varint [of ?n, unfolded n] one] by (simp add: size')
qed

lemma array_emits:
  assumes "array_bytes submessage m f p count = Some xs"
    and one: "\<And>p xs. value_bytes submessage m f p = Some xs \<Longrightarrow> emits (\<lambda>W s. func W s m f p) xs"
  shows "emits (\<lambda>W s. encode_array W s m f p (ucast count) func) xs"
proof -
  let ?t = "PB_LTYPE (ftype f)" and ?a = "PB_ATYPE (ftype f)" and ?d = "data_size f"
  have z: "(ucast count = (0 :: u64)) \<longleftrightarrow> count = 0" by (simp add: word_unat_eq_iff unat_ucast_up)
  have c: "unat (ucast count :: u64) = unat count" by (simp add: unat_ucast_up)
  have le: "(ucast count :: u64) > ucast (array_size f) \<longleftrightarrow> count > array_size f"
    by (simp add: word_less_nat_alt unat_ucast_up)
  show ?thesis
  proof (cases "count = 0")
    case True
    then show ?thesis using assms(1) emits_Nil by (simp add: array_bytes_def encode_array_def Let_def)
  next
    case nz: False
    have ok: "\<not> (?a \<noteq> PB_ATYPE_POINTER \<and> count > array_size f)"
      using assms(1) nz by (auto simp: array_bytes_def Let_def)
    show ?thesis
    proof (cases "?t \<le> PB_LTYPE_LAST_PACKABLE")
      case True
      then obtain ys where ys: "items_bytes (value_bytes submessage m f) p ?d (unat count) = Some ys"
        "length ys < 2 ^ 63" "xs = tag_bytes (tag f) PB_WT_STRING @ uleb_encode (length ys) @ ys"
        using assms(1) nz ok delimitedD by (fastforce simp: array_bytes_def Let_def bind_eq_Some_conv split: if_splits)
      let ?size = "\<lambda>(W :: 'st pb_sink) stream. if ?t = PB_LTYPE_FIXED32 then Some (Some (4 * ucast count))
            else if ?t = PB_LTYPE_FIXED64 then Some (Some (8 * ucast count))
            else do {
              (ok, sizestream) \<leftarrow> encode_items (\<lambda>s p. func None s m f p)
                (PB_OSTREAM_SIZING (ostate stream)) p ?d (unat (ucast count :: u64));
              Some (if ok then Some (bytes_written sizestream) else None) }"
      have items: "emits (\<lambda>W s. encode_items (\<lambda>s p. func W s m f p) s p ?d (unat (ucast count :: u64))) ys"
        unfolding c by (rule items_emit [OF ys(1) one])
      have fixed: "length ys = n * unat count"
        if "?t = PB_LTYPE_FIXED32 \<and> n = 4 \<or> ?t = PB_LTYPE_FIXED64 \<and> n = 8" for n
        by (rule items_bytes_length [OF ys(1)]) (use that read_map_length in \<open>auto simp: value_bytes_def pb_ltypes\<close>)
      have size': "?size W s = Some (Some (word_of_nat (length ys)))" for W s
      proof -
        have "word_of_nat (unat count) = (ucast count :: u64)" by simp
        then show ?thesis using fixed [of 4] fixed [of 8] emits_sizing [OF items]
          by (auto simp: PB_OSTREAM_SIZING_def pb_ltypes)
      qed
      have w: "unat PB_WT_STRING < 8" by (simp add: wire_types)
      have "encode_array W s m f p (ucast count) func =
          (do { (ok, s) \<leftarrow> pb_encode_tag W s PB_WT_STRING (tag f);
            if \<not> ok then Some (False, s)
            else do { sz \<leftarrow> ?size W s;
              case sz of None \<Rightarrow> Some (False, s)
              | Some sz \<Rightarrow> do {
                  (ok, s) \<leftarrow> pb_encode_varint W s sz;
                  if \<not> ok then Some (False, s)
                  else if W = None then pb_write W s None sz
                  else encode_items (\<lambda>s p. func W s m f p) s p ?d (unat (ucast count :: u64)) } } })"
        for W :: "'st pb_sink" and s
        by (simp only: encode_array_def Let_def z le nz ok True if_True if_False)
      with emits_then [OF emits_tag [OF w, of "tag f"] emits_packed [OF items ys(2) size']] show ?thesis
        unfolding ys(3) tag_bytes_def by (rule emits_cong)
    next
      case False
      let ?b = "?a = PB_ATYPE_POINTER \<and> (?t = PB_LTYPE_STRING \<or> ?t = PB_LTYPE_BYTES)"
      have xs: "items_bytes (\<lambda>p. tagged f (if ?b then do { q \<leftarrow> load_word m p 8; value_bytes submessage m f q }
          else value_bytes submessage m f p)) p ?d (unat count) = Some xs"
        using assms(1) nz ok False by (simp add: array_bytes_def Let_def)
      have "emits (\<lambda>W s. do {
          (ok, s) \<leftarrow> pb_encode_tag_for_field W s f;
          if \<not> ok then Some (False, s)
          else if ?b then do { q \<leftarrow> load_word m p 8; func W s m f q } else func W s m f p }) zs"
        if t: "tagged f (if ?b then do { q \<leftarrow> load_word m p 8; value_bytes submessage m f q }
          else value_bytes submessage m f p) = Some zs" for p zs
      proof -
        obtain w us where w: "wire_type_of ?t = Some w" "zs = tag_bytes (tag f) w @ us"
          "(if ?b then do { q \<leftarrow> load_word m p 8; value_bytes submessage m f q }
            else value_bytes submessage m f p) = Some us"
          using t by (auto simp: tagged_def bind_eq_Some_conv)
        have "emits (\<lambda>W s. if ?b then do { q \<leftarrow> load_word m p 8; func W s m f q } else func W s m f p) us"
          using w(3) one by (auto simp: bind_eq_Some_conv split: if_splits)
        from emits_then [OF emits_field_tag [OF w(1)] this] show ?thesis using w(2) by simp
      qed
      note items = items_emit [OF xs this]
      have "encode_array W s m f p (ucast count) func =
          encode_items (\<lambda>s p. do {
              (ok, s) \<leftarrow> pb_encode_tag_for_field W s f;
              if \<not> ok then Some (False, s)
              else if ?b then do { q \<leftarrow> load_word m p 8; func W s m f q } else func W s m f p }) s p ?d (unat count)"
        for W :: "'st pb_sink" and s
        by (simp only: encode_array_def Let_def z le c nz ok False if_True if_False)
      with items show ?thesis by (rule emits_cong)
    qed
  qed
qed

end

context pb_output begin

lemma plain_field_emits:
  assumes "plain_field_bytes d tabs submessage m f addr = Some xs" "tabs = tables env"
    and sub: "\<And>f p xs. submessage f p = Some xs \<Longrightarrow> emits (\<lambda>W s. enc_sub W s m f p) xs"
  shows "emits (\<lambda>W s. encode_field d env enc_sub W s m f addr) xs"
proof -
  let ?t = "PB_LTYPE (ftype f)" and ?a = "PB_ATYPE (ftype f)" and ?h = "PB_HTYPE (ftype f)"
  let ?size = "addr + scast (size_offset f)"
  show ?thesis
  proof (cases "?a = PB_ATYPE_CALLBACK")
    case True
    then have null: "load_word m addr 8 = Some (0 :: u64)" "xs = []"
      using assms(1) by (auto simp: plain_field_bytes_def bind_eq_Some_conv split: if_splits)
    have "encode_field d env enc_sub W s m f addr = Some (True, s)" for W :: "'st pb_sink" and s
      using null(1) True by (simp add: encode_field_def encode_callback_field_def pb_atypes PB_ATYPE_CALLBACK_def)
    then show ?thesis by (rule emits_cong [OF emits_Nil [folded null(2)]])
  next
    case False
    then have a: "?a = PB_ATYPE_STATIC \<or> ?a = PB_ATYPE_POINTER"
      using assms(1) by (auto simp: plain_field_bytes_def Let_def split: if_splits)
    obtain dflt p where dp:
      "(if size_offset f = 0 \<and> ?h = PB_HTYPE_OPTIONAL then pb_check_proto3_default_value d tabs m f addr
        else Some False) = Some dflt"
      "(if ?a = PB_ATYPE_POINTER then load_word m addr 8 else Some addr) = Some p"
      using assms(1) False a by (auto simp: plain_field_bytes_def Let_def bind_eq_Some_conv split: if_splits)
    let ?func = "\<lambda>(W :: 'st pb_sink) s m f p. do { e \<leftarrow> PB_ENCODERS enc_sub (PB_LTYPE (ftype f)); e W s m f p }"
    have one: "emits (\<lambda>W s. ?func W s m f q) ys" if "value_bytes submessage m f q = Some ys" for q ys
      using value_emits [where submessage = submessage and enc_sub = enc_sub and f = f and p = q, OF that sub] by auto
    have tag1: "emits (\<lambda>W s. tag_then W s f (\<lambda>s. ?func W s m f p)) ys"
      if t: "tagged f (value_bytes submessage m f p) = Some ys" for ys
    proof -
      obtain w zs where "wire_type_of ?t = Some w" "value_bytes submessage m f p = Some zs" "ys = tag_bytes (tag f) w @ zs"
        using t by (auto simp: tagged_def bind_eq_Some_conv)
      then show ?thesis using emits_tag_then one by simp
    qed
    let ?ih = "if ?a = PB_ATYPE_POINTER then p \<noteq> 0 else if size_offset f = 0 \<and> ?h = PB_HTYPE_OPTIONAL then \<not> dflt else True"
    have sp: "(case if size_offset f \<noteq> 0 then Some ?size else None of Some q \<Rightarrow> F q | None \<Rightarrow> G) =
        (if size_offset f \<noteq> 0 then F ?size else G)" for F :: "u64 \<Rightarrow> 'z" and G by simp
    have step: "encode_field d env enc_sub W s m f addr =
        (if ?h = PB_HTYPE_REQUIRED then
          if p = 0 then Some (False, oset_error ''missing required field'' s)
          else tag_then W s f (\<lambda>s. ?func W s m f p)
        else if ?h = PB_HTYPE_OPTIONAL then do {
          has \<leftarrow> (if size_offset f \<noteq> 0 then safe_read_bool m ?size else Some ?ih);
          if has then tag_then W s f (\<lambda>s. ?func W s m f p) else Some (True, s) }
        else if ?h = PB_HTYPE_REPEATED then do {
          count \<leftarrow> (if size_offset f \<noteq> 0 then load_word m ?size 4 else Some (array_size f));
          encode_array W s m f p (ucast count) ?func }
        else do {
          which \<leftarrow> (if size_offset f \<noteq> 0 then load_word m ?size 4 else None);
          if which = tag f then tag_then W s f (\<lambda>s. ?func W s m f p) else Some (True, s) })"
      for W :: "'st pb_sink" and s
    proof -
      have ih: "(if size_offset f = 0 \<and> ?h = PB_HTYPE_OPTIONAL
          then map_option Not (pb_check_proto3_default_value d tabs m f addr) else Some True) =
          Some (if size_offset f = 0 \<and> ?h = PB_HTYPE_OPTIONAL then \<not> dflt else True)"
        using dp(1) by auto
      have pr: "(if ?a = PB_ATYPE_POINTER then map_option (\<lambda>p :: u64. (p, p \<noteq> 0)) (load_word m addr 8)
          else Some (addr, i)) = Some (p, if ?a = PB_ATYPE_POINTER then p \<noteq> 0 else i)" for i
        using dp(2) by auto
      show ?thesis
        by (simp only: a ih pr sp encode_field_def encode_basic_field_def Let_def assms(2) [symmetric] if_True if_False
            bind.bind_lunit prod.case)
    qed
    let ?present = "if size_offset f \<noteq> 0 then safe_read_bool m ?size
      else if ?a = PB_ATYPE_POINTER then Some (p \<noteq> 0) else Some (\<not> dflt)"
    have fb: "(if ?h = PB_HTYPE_REQUIRED then if p = 0 then None else tagged f (value_bytes submessage m f p)
        else if ?h = PB_HTYPE_OPTIONAL then do {
          present \<leftarrow> ?present;
          if present then tagged f (value_bytes submessage m f p) else Some [] }
        else if ?h = PB_HTYPE_REPEATED then do {
          count \<leftarrow> (if size_offset f \<noteq> 0 then load_word m ?size 4 else Some (array_size f));
          array_bytes submessage m f p count }
        else do {
          which \<leftarrow> (if size_offset f \<noteq> 0 then load_word m ?size 4 else None);
          if which = tag f then tagged f (value_bytes submessage m f p) else Some [] }) = Some xs"
      using assms(1) by (simp only: plain_field_bytes_def Let_def False a dp if_True if_False bind.bind_lunit)
    show ?thesis
    proof (cases "?h = PB_HTYPE_REQUIRED")
      case True
      then have p: "p \<noteq> 0" "tagged f (value_bytes submessage m f p) = Some xs"
        using fb by (simp_all split: if_splits)
      show ?thesis by (rule emits_cong [OF tag1 [OF p(2)]]) (simp only: step True [THEN eqTrueI] p(1) if_True if_False)
    next
      case req: False
      show ?thesis
      proof (cases "?h = PB_HTYPE_OPTIONAL")
        case True
        then have pre: "(if size_offset f \<noteq> 0 then safe_read_bool m ?size else Some ?ih) = ?present" by auto
        have "(do { present \<leftarrow> ?present;
            if present then tagged f (value_bytes submessage m f p) else Some [] }) = Some xs"
          using fb by (simp only: True [THEN eqTrueI] req if_True if_False)
        then obtain has where "?present = Some has"
          "(if has then tagged f (value_bytes submessage m f p) else Some []) = Some xs"
          by (auto simp only: bind_eq_Some_conv)
        note has = this(1) [folded pre] this(2)
        have "emits (\<lambda>W s. if has then tag_then W s f (\<lambda>s. ?func W s m f p) else Some (True, s)) xs"
          using has(2) tag1 emits_Nil by (cases has) auto
        then show ?thesis
          by (rule emits_cong) (simp only: step req True [THEN eqTrueI] has(1) [unfolded True [THEN eqTrueI]] if_True if_False bind.bind_lunit)
      next
        case opt: False
        show ?thesis
        proof (cases "?h = PB_HTYPE_REPEATED")
          case True
          have "(do { count \<leftarrow> (if size_offset f \<noteq> 0 then load_word m ?size 4 else Some (array_size f));
              array_bytes submessage m f p count }) = Some xs"
            using fb by (simp only: req opt True [THEN eqTrueI] if_True if_False)
          then obtain count where c: "(if size_offset f \<noteq> 0 then load_word m ?size 4 else Some (array_size f)) = Some count"
            "array_bytes submessage m f p count = Some xs"
            by (auto simp only: bind_eq_Some_conv)
          have arr: "emits (\<lambda>W s. encode_array W s m f p (ucast count) ?func) xs"
            using array_emits [where func = ?func, OF c(2) one] by simp
          have "encode_field d env enc_sub W s m f addr = encode_array W s m f p (ucast count) ?func"
            for W :: "'st pb_sink" and s
            by (simp only: step req opt True [THEN eqTrueI] c(1) if_True if_False bind.bind_lunit)
          with arr show ?thesis by (rule emits_cong)
        next
          case False
          have "(do { which \<leftarrow> (if size_offset f \<noteq> 0 then load_word m ?size 4 else None);
              if which = tag f then tagged f (value_bytes submessage m f p) else Some [] }) = Some xs"
            using fb by (simp only: req opt False if_True if_False)
          then obtain which where w: "(if size_offset f \<noteq> 0 then load_word m ?size 4 else None) = Some which"
            "(if which = tag f then tagged f (value_bytes submessage m f p) else Some []) = Some xs"
            by (auto simp only: bind_eq_Some_conv)
          have "emits (\<lambda>W s. if which = tag f then tag_then W s f (\<lambda>s. ?func W s m f p) else Some (True, s)) xs"
            using w(2) tag1 emits_Nil by (cases "which = tag f") auto
          then show ?thesis
            by (rule emits_cong) (simp only: step req opt False w(1) if_True if_False bind.bind_lunit)
        qed
      qed
    qed
  qed
qed

lemma extensions_emit:
  assumes "extensions_bytes tabs (plain_field_bytes d tabs submessage m) m e = Some xs" "tabs = tables env"
    and sub: "\<And>f p xs. submessage f p = Some xs \<Longrightarrow> emits (\<lambda>W s. enc_sub W s m f p) xs"
  shows "emits (\<lambda>W s. extension_loop d env enc_sub W s m e) xs"
proof -
  let ?one = "plain_field_bytes d tabs submessage m"
  let ?P = "\<lambda>t one m' e xs. t = tabs \<longrightarrow> one = ?one \<longrightarrow> m' = m \<longrightarrow> emits (\<lambda>W s. extension_loop d env enc_sub W s m e) xs"
  have "?P tabs ?one m e xs"
  proof (rule extensions_bytes.raw_induct [where P = ?P, OF _ assms(1)], intro impI)
    fix rec t one m' e xs
    assume IH: "\<And>t one m' e xs. rec t one m' e = Some xs \<Longrightarrow> ?P t one m' e xs"
      and xs: "(if e = 0 then Some []
        else Option.bind (extension_field t m' e) (\<lambda>fa.
          Option.bind (one (fst fa) (snd fa)) (\<lambda>xs.
            Option.bind (load_word m' (e + 16) 8) (\<lambda>next.
              Option.bind (rec t one m' next) (\<lambda>ys. Some (xs @ ys)))))) = Some xs"
      and eq: "t = tabs" "one = ?one" "m' = m"
    show "emits (\<lambda>W s. extension_loop d env enc_sub W s m e) xs"
    proof (cases "e = 0")
      case True
      then show ?thesis using xs emits_Nil by (simp add: extension_loop.simps)
    next
      case False
      then obtain f a ys next' zs where s: "extension_field tabs m e = Some (f, a)" "?one f a = Some ys"
        "load_word m (e + 16) 8 = Some next'" "rec tabs ?one m next' = Some zs" "xs = ys @ zs"
        using xs eq by (auto simp: bind_eq_Some_conv)
      then obtain type arg table where x: "load_word m e 8 = Some (type :: u64)" "load_word m (type + 8) 8 = Some (0 :: u64)"
        "load_word m (type + 16) 8 = Some arg" "tables env arg = Some table" "table \<noteq> []" "f = hd table"
        "extension_value m e f = Some a"
        using assms(2) by (auto simp: extension_field_def bind_eq_Some_conv split: if_splits)
      have enc: "default_extension_encoder d env enc_sub W s m e = encode_field d env enc_sub W s m f a"
        for W :: "'st pb_sink" and s
        using x(1,3-7) by (auto simp: default_extension_encoder_def extension_value_def field_at_def hd_conv_nth)
      have "extension_loop d env enc_sub W s m e =
          do { (ok, s) \<leftarrow> encode_field d env enc_sub W s m f a;
            if \<not> ok then Some (False, s) else extension_loop d env enc_sub W s m next' }"
        for W :: "'st pb_sink" and s
        by (subst extension_loop.simps) (simp add: False x(1,2) enc s(3) cong: if_cong)
      with emits_then [OF plain_field_emits [where submessage = submessage and enc_sub = enc_sub and m = m and env = env, OF s(2) assms(2) sub] IH [OF s(4), rule_format, OF refl refl refl]]
      show ?thesis unfolding s(5) by (rule emits_cong)
    qed
  qed
  then show ?thesis by simp
qed

lemma field_emits:
  assumes "field_bytes d tabs submessage m f addr = Some xs" "tabs = tables env"
    and sub: "\<And>f p xs. submessage f p = Some xs \<Longrightarrow> emits (\<lambda>W s. enc_sub W s m f p) xs"
  shows "emits (\<lambda>W s. if PB_LTYPE (ftype f) = PB_LTYPE_EXTENSION then encode_extension_field d env enc_sub W s m addr
    else encode_field d env enc_sub W s m f addr) xs"
proof (cases "PB_LTYPE (ftype f) = PB_LTYPE_EXTENSION")
  case True
  then obtain e where e: "load_word m addr 8 = Some e"
    "extensions_bytes tabs (plain_field_bytes d tabs submessage m) m e = Some xs"
    using assms(1) by (auto simp: field_bytes_def bind_eq_Some_conv)
  have "(if PB_LTYPE (ftype f) = PB_LTYPE_EXTENSION then encode_extension_field d env enc_sub W s m addr
      else encode_field d env enc_sub W s m f addr) = extension_loop d env enc_sub W s m e" for W :: "'st pb_sink" and s
    using True by (simp add: encode_extension_field_def e(1))
  with extensions_emit [where submessage = submessage and enc_sub = enc_sub and m = m and env = env, OF e(2) assms(2) sub]
  show ?thesis by (rule emits_cong)
next
  case False
  then have "plain_field_bytes d tabs submessage m f addr = Some xs" using assms(1) by (simp add: field_bytes_def)
  note plain = plain_field_emits [where submessage = submessage and enc_sub = enc_sub and m = m and env = env, OF this assms(2) sub]
  have "(if PB_LTYPE (ftype f) = PB_LTYPE_EXTENSION then encode_extension_field d env enc_sub W s m addr
      else encode_field d env enc_sub W s m f addr) = encode_field d env enc_sub W s m f addr" for W :: "'st pb_sink" and s
    using False by simp
  with plain show ?thesis by (rule emits_cong)
qed

end

context pb_output begin

lemma loop_emits:
  assumes "iter_at iter f addr fs" "fields_bytes one (layout_from f addr fs) = Some xs"
    and field: "\<And>f addr xs. one f addr = Some xs \<Longrightarrow>
      emits (\<lambda>W s. if PB_LTYPE (ftype f) = PB_LTYPE_EXTENSION then encode_extension_field d env enc_sub W s m addr
        else encode_field d env enc_sub W s m f addr) xs"
  shows "emits (\<lambda>W s. encode_loop d env enc_sub W s m iter) xs"
  using assms(1,2)
proof (induction fs arbitrary: iter f addr xs)
  case Nil
  then show ?case by (simp add: iter_at_def terminated_def)
next
  case (Cons g gs)
  let ?next = "if tag g = 0 then [] else layout_from g
      (if in_same_union f g then addr else addr + field_extent f + ucast (data_offset g)) gs"
  obtain ys zs where yz: "one f addr = Some ys" "fields_bytes one ?next = Some zs" "xs = ys @ zs"
    using Cons.prems(2) by (auto simp: bind_eq_Some_conv)
  obtain again iter' where next': "pb_field_iter_next iter = Some (again, iter')" "again \<longleftrightarrow> tag g \<noteq> 0"
    "tag g \<noteq> 0 \<Longrightarrow> iter_at iter' g
      (if in_same_union f g then addr else addr + field_extent f + ucast (data_offset g)) gs"
    using iter_next [OF Cons.prems(1)] by blast
  have rest: "emits (\<lambda>W s. if again then encode_loop d env enc_sub W s m iter' else Some (True, s)) zs"
  proof (cases "tag g = 0")
    case True
    then show ?thesis using next'(2) yz(2) emits_Nil by simp
  next
    case False
    then show ?thesis using Cons.IH [OF next'(3)] yz(2) next'(2) by simp
  qed
  have "encode_loop d env enc_sub W s m iter =
      do { (ok, s) \<leftarrow> (if PB_LTYPE (ftype f) = PB_LTYPE_EXTENSION then encode_extension_field d env enc_sub W s m addr
          else encode_field d env enc_sub W s m f addr);
        if \<not> ok then Some (False, s)
        else if again then encode_loop d env enc_sub W s m iter' else Some (True, s) }"
    for W :: "'st pb_sink" and s
  proof -
    have "pData iter = addr" using Cons.prems(1) by (simp add: iter_at_def)
    then show ?thesis
      by (subst encode_loop.simps) (simp only: iter_at_field [OF Cons.prems(1)] next'(1) bind.bind_lunit prod.case)
  qed
  with emits_then [OF field [OF yz(1)] rest] show ?case unfolding yz(3) by (rule emits_cong)
qed

theorem message_emits:
  assumes "message_bytes d (tables env) m table src = Some xs"
  shows "emits (\<lambda>W s. pb_encode d env W s m table src) xs"
  using assms
proof (induction d arbitrary: table src xs)
  case (Suc d)
  let ?sub = "\<lambda>f p. if ptr f = 0 then None
    else do { subtable \<leftarrow> tables env (ptr f); xs \<leftarrow> message_bytes d (tables env) m subtable p; delimited xs }"
  let ?enc = "\<lambda>(W :: 'st pb_sink) s m f p. if ptr f = 0 then Some (False, oset_error ''invalid field descriptor'' s)
    else do { subtable \<leftarrow> tables env (ptr f);
      pb_encode_submessage_with (\<lambda>W s. pb_encode d env W s m subtable p) W s }"
  have sub: "emits (\<lambda>W s. ?enc W s m f p) ys" if s: "?sub f p = Some ys" for f p ys
  proof -
    obtain subtable zs where z: "ptr f \<noteq> 0" "tables env (ptr f) = Some subtable"
      "message_bytes d (tables env) m subtable p = Some zs" "delimited zs = Some ys"
      using s by (auto simp: bind_eq_Some_conv split: if_splits)
    note y = delimitedD [OF z(4)]
    from emits_submessage [OF Suc.IH [OF z(3)] conjunct2 [OF y]] show ?thesis
      using z(1,2) y by simp
  qed
  have t: "terminated table"
    "fields_bytes (field_bytes (Suc d) (tables env) ?sub m) (message_layout table src) = Some xs"
    using Suc.prems by (simp_all split: if_splits)
  then obtain f fs where table: "table = f # fs" by (cases table) (auto simp: terminated_def)
  obtain iter where iter: "pb_field_iter_begin table src = Some (tag f \<noteq> 0, iter)"
    "tag f \<noteq> 0 \<Longrightarrow> iter_at iter f (src + ucast (data_offset f)) fs"
    using iter_begin [of f fs src] t(1) table by blast
  have enc: "pb_encode (Suc d) env W s m table src =
      (if tag f = 0 then Some (True, s) else encode_loop (Suc d) env ?enc W s m iter)" for W :: "'st pb_sink" and s
    by (simp add: iter(1) Let_def)
  show ?case
  proof (cases "tag f = 0")
    case True
    then show ?thesis using t(2) table emits_Nil enc by (simp add: message_layout_def)
  next
    case False
    have "fields_bytes (field_bytes (Suc d) (tables env) ?sub m) (layout_from f (src + ucast (data_offset f)) fs) = Some xs"
      using t(2) False table by (simp add: message_layout_def)
    from loop_emits [OF iter(2) [OF False] this, of "Suc d" env ?enc m] field_emits [where submessage = ?sub and enc_sub = ?enc and env = env and m = m and d = "Suc d", OF _ refl sub]
    have "emits (\<lambda>W s. encode_loop (Suc d) env ?enc W s m iter) xs" by blast
    then show ?thesis using enc False by simp
  qed
qed simp

end

section \<open>Messages in buffers\<close>

text \<open>A message with a \<open>uint32\<close> field, number 1, and a submessage of the same kind, number 2.\<close>

definition sample_field :: pb_field where
  "sample_field = \<lparr>tag = 1, ftype = 0x02, data_offset = 0, size_offset = 0, data_size = 4, array_size = 0, ptr = 0\<rparr>"

definition sample_submessage :: pb_field where
  "sample_submessage = \<lparr>tag = 2, ftype = 0x08, data_offset = 0, size_offset = 0, data_size = 4, array_size = 0, ptr = 0x80\<rparr>"

definition last_field :: pb_field where
  "last_field = \<lparr>tag = 0, ftype = 0, data_offset = 0, size_offset = 0, data_size = 0, array_size = 0, ptr = 0\<rparr>"

definition sample_env :: "(u64 \<times> memory) pb_env" where
  "sample_env = \<lparr>tables = (\<lambda>p. if p = 0x80 then Some [sample_field, last_field] else None),
     encode_func = (\<lambda>_ _ _ _ _ _. None), ext_encode_func = (\<lambda>_ _ _ _ _. None)\<rparr>"

definition sample_memory :: memory where
  "sample_memory = block 0x2000 [0x96, 0, 0, 0, 5, 0, 0, 0]"

lemma uleb_small: "n < 128 \<Longrightarrow> uleb_encode n = [word_of_nat n]"
  by (subst encode_step) simp

lemma uleb_150: "uleb_encode 150 = [0x96, 1]"
  by (subst encode_step) (simp add: uleb_small)

lemmas sample_defs = sample_field_def sample_submessage_def last_field_def sample_env_def

lemma sample_load:
  "load_unsigned sample_memory 4 0x2000 = Some (Some 150)" "load_unsigned sample_memory 4 0x2004 = Some (Some 5)"
proof -
  have "read_map sample_memory 0x2000 4 = Some [0x96, 0, 0, 0]" "read_map sample_memory 0x2004 4 = Some [5, 0, 0, 0]"
    using load_block [of "[0x96, 0, 0, 0, 5, 0, 0, 0]" 0 4 "0x2000"] load_block [of "[0x96, 0, 0, 0, 5, 0, 0, 0]" 4 4 "0x2000"]
    by (simp_all add: load_bytes_flat_task sample_memory_def)
  then show "load_unsigned sample_memory 4 0x2000 = Some (Some 150)" "load_unsigned sample_memory 4 0x2004 = Some (Some 5)"
    by (simp_all add: load_unsigned_def load_word_def le_word_def)
qed

lemma sample_types: "PB_LTYPE 2 = PB_LTYPE_UVARINT" "PB_HTYPE 2 = PB_HTYPE_REQUIRED" "PB_ATYPE 2 = PB_ATYPE_STATIC"
  "PB_LTYPE 8 = PB_LTYPE_SUBMESSAGE" "PB_HTYPE 8 = PB_HTYPE_REQUIRED" "PB_ATYPE 8 = PB_ATYPE_STATIC"
  by (simp_all add: PB_LTYPE_def PB_HTYPE_def PB_ATYPE_def pb_ltypes pb_htypes pb_atypes)

lemma sample_field_bytes:
  "field_bytes d tabs sub sample_memory sample_field 0x2000 = Some [0x08, 0x96, 0x01]"
  "field_bytes d tabs sub sample_memory sample_field 0x2004 = Some [0x08, 0x05]"
  by (simp_all add: field_bytes_def plain_field_bytes_def sample_field_def sample_types Let_def tagged_def wire_type_of_def value_bytes_def
    number_bytes_def sample_load uleb_small uleb_150 tag_bytes_def pb_ltypes pb_htypes pb_atypes PB_ATYPE_CALLBACK_def wire_types)

lemma sample_submessage_bytes:
  "message_bytes (Suc 0) (tables sample_env) sample_memory [sample_field, last_field] 0x2004 = Some [0x08, 0x05]"
proof -
  have "message_layout [sample_field, last_field] 0x2004 = [(sample_field, 0x2004)]" "terminated [sample_field, last_field]"
    by (simp_all add: message_layout_def sample_defs terminated_def)
  then show ?thesis by (simp add: sample_field_bytes)
qed

lemma sample_layout:
  "message_layout [sample_field, sample_submessage, last_field] 0x2000 = [(sample_field, 0x2000), (sample_submessage, 0x2004)]"
  "terminated [sample_field, sample_submessage, last_field]"
  by (simp_all add: message_layout_def sample_defs terminated_def in_same_union_def field_extent_def sample_types
    pb_htypes pb_atypes)

lemma sample_bytes:
  "message_bytes 2 (tables sample_env) sample_memory [sample_field, sample_submessage, last_field] 0x2000 =
    Some [0x08, 0x96, 0x01, 0x12, 0x02, 0x08, 0x05]"
proof -
  have t: "tables sample_env 0x80 = Some [sample_field, last_field]" by (simp add: sample_env_def)
  have "field_bytes d tabs (\<lambda>f p. if ptr f = 0 then None
      else do { subtable \<leftarrow> tables sample_env (ptr f);
        xs \<leftarrow> message_bytes (Suc 0) (tables sample_env) sample_memory subtable p; delimited xs })
    sample_memory sample_submessage 0x2004 = Some [0x12, 0x02, 0x08, 0x05]" for d tabs
    using t by (simp add: field_bytes_def plain_field_bytes_def sample_submessage_def sample_types Let_def tagged_def wire_type_of_def
      value_bytes_def sample_submessage_bytes delimited_def uleb_small tag_bytes_def pb_ltypes pb_htypes pb_atypes
      PB_ATYPE_CALLBACK_def wire_types del: message_bytes.simps)
  then show ?thesis
    unfolding numeral_2_eq_2 message_bytes.simps(2) [of "Suc 0"] sample_layout(1)
    by (simp add: sample_layout(2) sample_field_bytes del: message_bytes.simps)
qed

text \<open>The same with an extension, number 3: the placeholder points to a \<open>pb_extension_t\<close> at \<open>0x2010\<close>, whose type
  is at \<open>0x2028\<close> and whose value is at \<open>0x2040\<close>.\<close>

definition sample_placeholder :: pb_field where
  "sample_placeholder = \<lparr>tag = 100, ftype = 0x59, data_offset = 0, size_offset = 0, data_size = 8, array_size = 0, ptr = 0\<rparr>"

definition sample_extension :: pb_field where
  "sample_extension = \<lparr>tag = 3, ftype = 0x02, data_offset = 0, size_offset = 0, data_size = 4, array_size = 0, ptr = 0\<rparr>"

definition extended_env :: "(u64 \<times> memory) pb_env" where
  "extended_env = sample_env\<lparr>tables := (\<lambda>p. if p = 0x90 then Some [sample_extension] else tables sample_env p)\<rparr>"

definition extended_bytes :: "byte list" where
  "extended_bytes = [0x96, 0, 0, 0, 5, 0, 0, 0, 0x10, 0x20, 0, 0, 0, 0, 0, 0,
     0x28, 0x20, 0, 0, 0, 0, 0, 0, 0x40, 0x20, 0, 0, 0, 0, 0, 0, 0, 0, 0, 0, 0, 0, 0, 0,
     0, 0, 0, 0, 0, 0, 0, 0, 0, 0, 0, 0, 0, 0, 0, 0, 0x90, 0, 0, 0, 0, 0, 0, 0, 7, 0, 0, 0]"

definition extended_memory :: memory where
  "extended_memory = block 0x2000 extended_bytes"

lemma extended_read: "i + n \<le> length extended_bytes \<Longrightarrow>
    read_map extended_memory (0x2000 + word_of_nat i) n = Some (take n (drop i extended_bytes))"
  using load_block [of extended_bytes i n "0x2000"]
  by (simp add: load_bytes_flat_task extended_memory_def extended_bytes_def)

lemma extended_loads:
  "load_word extended_memory 0x2008 8 = Some (0x2010 :: u64)" "load_word extended_memory 0x2010 8 = Some (0x2028 :: u64)"
  "load_word extended_memory 0x2018 8 = Some (0x2040 :: u64)" "load_word extended_memory 0x2020 8 = Some (0 :: u64)"
  "load_word extended_memory 0x2030 8 = Some (0 :: u64)" "load_word extended_memory 0x2038 8 = Some (0x90 :: u64)"
  "load_unsigned extended_memory 4 0x2000 = Some (Some 150)" "load_unsigned extended_memory 4 0x2004 = Some (Some 5)"
  "load_unsigned extended_memory 4 0x2040 = Some (Some 7)"
  using extended_read [of 8 8] extended_read [of 16 8] extended_read [of 24 8] extended_read [of 32 8]
    extended_read [of 48 8] extended_read [of 56 8] extended_read [of 0 4] extended_read [of 4 4] extended_read [of 64 4]
  by (simp_all add: extended_bytes_def load_unsigned_def load_word_def le_word_def)

lemma placeholder_types: "PB_LTYPE 0x59 = PB_LTYPE_EXTENSION" "PB_ATYPE 0x59 = PB_ATYPE_CALLBACK"
  "PB_HTYPE 0x59 = PB_HTYPE_OPTIONAL"
  by (simp_all add: PB_LTYPE_def PB_ATYPE_def PB_HTYPE_def pb_ltypes pb_htypes PB_ATYPE_CALLBACK_def)

lemma extended_submessage_bytes:
  "message_bytes (Suc 0) (tables extended_env) extended_memory [sample_field, last_field] 0x2004 = Some [0x08, 0x05]"
proof -
  have "message_layout [sample_field, last_field] 0x2004 = [(sample_field, 0x2004)]" "terminated [sample_field, last_field]"
    by (simp_all add: message_layout_def sample_defs terminated_def)
  then show ?thesis
    by (simp add: field_bytes_def plain_field_bytes_def sample_field_def sample_types Let_def tagged_def wire_type_of_def
      value_bytes_def number_bytes_def extended_loads uleb_small tag_bytes_def pb_ltypes pb_htypes pb_atypes
      PB_ATYPE_CALLBACK_def wire_types)
qed

lemma extended_message_bytes:
  "message_bytes 2 (tables extended_env) extended_memory [sample_field, sample_submessage, sample_placeholder, last_field] 0x2000 =
    Some [0x08, 0x96, 0x01, 0x12, 0x02, 0x08, 0x05, 0x18, 0x07]"
proof -
  let ?sub = "\<lambda>f p. if ptr f = 0 then None
      else do { subtable \<leftarrow> tables extended_env (ptr f);
        xs \<leftarrow> message_bytes (Suc 0) (tables extended_env) extended_memory subtable p; delimited xs }"
  let ?table = "[sample_field, sample_submessage, sample_placeholder, last_field]"
  note types = sample_types Let_def tagged_def wire_type_of_def value_bytes_def number_bytes_def extended_loads uleb_small
    uleb_150 tag_bytes_def pb_ltypes pb_htypes pb_atypes PB_ATYPE_CALLBACK_def wire_types
  have t: "tables extended_env 0x80 = Some [sample_field, last_field]" "tables extended_env 0x90 = Some [sample_extension]"
    by (simp_all add: extended_env_def sample_env_def)
  have l: "message_layout ?table 0x2000 = [(sample_field, 0x2000), (sample_submessage, 0x2004), (sample_placeholder, 0x2008)]"
    "terminated ?table"
    by (simp_all add: message_layout_def sample_defs sample_placeholder_def terminated_def in_same_union_def
      field_extent_def sample_types pb_htypes pb_atypes)
  have f: "field_bytes d tabs ?sub extended_memory sample_field 0x2000 = Some [0x08, 0x96, 0x01]"
    "field_bytes d tabs ?sub extended_memory sample_submessage 0x2004 = Some [0x12, 0x02, 0x08, 0x05]"
    "plain_field_bytes d tabs ?sub extended_memory sample_extension 0x2040 = Some [0x18, 0x07]" for d tabs
    using t by (simp_all add: field_bytes_def plain_field_bytes_def sample_defs sample_extension_def types delimited_def
      extended_submessage_bytes [unfolded sample_defs] del: message_bytes.simps)
  have x: "extension_field (tables extended_env) extended_memory 0x2010 = Some (sample_extension, 0x2040)"
    using t by (simp add: extension_field_def extension_value_def extended_loads sample_extension_def sample_types pb_atypes)
  have e: "field_bytes d (tables extended_env) ?sub extended_memory sample_placeholder 0x2008 = Some [0x18, 0x07]" for d
    by (simp add: field_bytes_def sample_placeholder_def placeholder_types extended_loads f(3) x
      extensions_bytes.simps [of _ _ _ "0x2010"] extensions_bytes.simps [of _ _ _ 0] del: message_bytes.simps)
  show ?thesis
    unfolding numeral_2_eq_2 message_bytes.simps(2) [of "Suc 0"] l(1)
    by (simp add: l(2) f e del: message_bytes.simps)
qed

text \<open>C2. The encoder refines the reference encoder: with enough room, a message that has an encoding is
  encoded, its buffer then holds exactly that encoding and nothing else has changed, and
  \<open>bytes_written\<close> counts it.  The encoding covers submessages, arrays and the extensions that use the default
  encoder; a message has none if a callback or an \<open>encode\<close> function of an extension is installed.\<close>

theorem pb_encode_correct:
  assumes "mapped m0 buf (unat n)" "message_bytes d (tables env) m table src = Some xs" "length xs \<le> unat n"
  shows "\<exists>out. pb_encode d env (Some buf_write) (pb_ostream_from_buffer m0 buf n) m table src = Some (True, out) \<and>
    snd (ostate out) = overwrite m0 buf xs \<and> bytes_written out = word_of_nat (length xs)"
  by (rule buffer_written [OF buffer_out.message_emits [OF assms(2)] assms(1,3)]) auto

lemma pb_encode_correct_witness:
  "\<exists>out. pb_encode 2 extended_env (Some buf_write) (pb_ostream_from_buffer (block 0x1000 (replicate 16 0)) 0x1000 16)
      extended_memory [sample_field, sample_submessage, sample_placeholder, last_field] 0x2000 = Some (True, out) \<and>
    snd (ostate out) = overwrite (block 0x1000 (replicate 16 0)) 0x1000
      [0x08, 0x96, 0x01, 0x12, 0x02, 0x08, 0x05, 0x18, 0x07] \<and>
    bytes_written out = word_of_nat (length [0x08, 0x96, 0x01, 0x12, 0x02, 0x08, 0x05, 0x18, 0x07 :: byte])"
  by (rule pb_encode_correct [OF _ extended_message_bytes]) (simp_all add: mapped_def block_def unat_of_nat)

text \<open>C37. The sizing pass and the writing pass agree: the size computed without a buffer is the length
  of the encoding.\<close>

theorem pb_get_encoded_size_correct:
  assumes "message_bytes d (tables env) m table src = Some xs"
  shows "pb_get_encoded_size d (env :: (u64 \<times> memory) pb_env) st m table src = Some (Some (word_of_nat (length xs)))"
  using buffer_out.emits_sizing [OF buffer_out.message_emits [OF assms]]
  by (simp add: pb_get_encoded_size_def PB_OSTREAM_SIZING_def)

lemma pb_get_encoded_size_correct_witness:
  "pb_get_encoded_size 2 sample_env (0, Map.empty) sample_memory [sample_field, sample_submessage, last_field] 0x2000 =
    Some (Some (word_of_nat (length [0x08, 0x96, 0x01, 0x12, 0x02, 0x08, 0x05 :: byte])))"
  by (rule pb_get_encoded_size_correct [OF sample_bytes])

text \<open>C19. In a buffer that is too small the encoder fails with an error, and has written no more than a
  part of the encoding, inside the buffer.\<close>

theorem pb_encode_full:
  assumes "mapped m0 buf (unat n)" "message_bytes d (tables env) m table src = Some xs"
    and "unat n < length xs" "length xs < 2 ^ 64"
  shows "\<exists>out k. pb_encode d env (Some buf_write) (pb_ostream_from_buffer m0 buf n) m table src = Some (False, out) \<and>
    oerrmsg out \<noteq> None \<and> k \<le> unat n \<and> snd (ostate out) = overwrite m0 buf (take k xs)"
proof -
  have "unat (bytes_written (pb_ostream_from_buffer m0 buf n)) + length xs < 2 ^ 64"
    using assms(4) by (simp add: pb_ostream_from_buffer_def)
  from buffer_out.emits_full [OF buffer_out.message_emits [OF assms(2)] buffer_out_start [OF assms(1)] assms(3) this]
  obtain out k where "pb_encode d env (Some buf_write) (pb_ostream_from_buffer m0 buf n) m table src = Some (False, out)"
    "k \<le> unat n" "buffer_out.at_output m0 buf (unat n) out ([] @ take k xs) (unat n - k)" "oerrmsg out \<noteq> None"
    by metis
  moreover from this(3) have "snd (ostate out) = overwrite m0 buf (take k xs)"
    unfolding buffer_out.at_output_def by (simp add: in_buffer_def)
  ultimately show ?thesis by blast
qed

lemma pb_encode_full_witness:
  "\<exists>out k. pb_encode 2 sample_env (Some buf_write) (pb_ostream_from_buffer (block 0x1000 (replicate 4 0)) 0x1000 4)
      sample_memory [sample_field, sample_submessage, last_field] 0x2000 = Some (False, out) \<and>
    oerrmsg out \<noteq> None \<and> k \<le> unat (4 :: u64) \<and>
    snd (ostate out) = overwrite (block 0x1000 (replicate 4 0)) 0x1000
      (take k [0x08, 0x96, 0x01, 0x12, 0x02, 0x08, 0x05])"
  by (rule pb_encode_full [OF _ sample_bytes]) (simp_all add: mapped_def block_def unat_of_nat)

section \<open>Finding a field\<close>

definition message_fields :: "pb_field list \<Rightarrow> pb_field list" where
  "message_fields table = takeWhile (\<lambda>f. tag f \<noteq> 0) table"

definition field_matches :: "u32 \<Rightarrow> pb_field \<Rightarrow> bool" where
  "field_matches t f \<longleftrightarrow> tag f = t \<and> PB_LTYPE (ftype f) \<noteq> PB_LTYPE_EXTENSION"

text \<open>An iterator at one of the fields.\<close>

definition iter_ok :: "pb_field_iter \<Rightarrow> bool" where
  "iter_ok iter \<longleftrightarrow> terminated (start iter) \<and> pos iter < length (message_fields (start iter))"

lemma message_fields_nth: "i < length (message_fields table) \<Longrightarrow>
    field_at table i = Some (message_fields table ! i) \<and> tag (message_fields table ! i) \<noteq> 0"
  using length_takeWhile_le [of "\<lambda>f. tag f \<noteq> 0" table] nth_mem [of i "message_fields table"]
  by (auto simp: message_fields_def field_at_def takeWhile_nth dest: set_takeWhileD)

lemma fields_before_terminator: "terminated table \<Longrightarrow> length (message_fields table) < length table"
  by (induction table) (auto simp: terminated_def message_fields_def)

lemma terminator_at: "terminated table \<Longrightarrow> \<exists>f. field_at table (length (message_fields table)) = Some f \<and> tag f = 0"
  using fields_before_terminator [of table] nth_length_takeWhile [of "\<lambda>f. tag f \<noteq> 0" table]
  by (auto simp: message_fields_def field_at_def)

lemma iter_next_pos:
  assumes "iter_ok iter"
  shows "\<exists>again iter'. pb_field_iter_next iter = Some (again, iter') \<and> start iter' = start iter \<and>
    pos iter' = (if Suc (pos iter) < length (message_fields (start iter)) then Suc (pos iter) else 0)"
proof -
  let ?t = "start iter" and ?k = "length (message_fields (start iter))"
  have k: "pos iter < ?k" and t: "terminated ?t" using assms by (simp_all add: iter_ok_def)
  note here = message_fields_nth [OF k]
  show ?thesis
  proof (cases "Suc (pos iter) < ?k")
    case True
    then show ?thesis using here message_fields_nth [OF True]
      by (intro exI [of _ True]) (simp add: pb_field_iter_next_def Let_def)
  next
    case False
    then have "Suc (pos iter) = ?k" using k by simp
    then obtain g where g: "field_at ?t (Suc (pos iter)) = Some g" "tag g = 0" using terminator_at [OF t] by metis
    obtain h where "field_at ?t 0 = Some h" using t by (cases ?t) (auto simp: terminated_def field_at_def)
    then show ?thesis using False here g
      by (intro exI [of _ False]) (simp add: pb_field_iter_next_def pb_field_iter_begin_def Let_def)
  qed
qed

lemma find_loop_correct:
  assumes "iter_ok iter" "s < k" "k = length (message_fields (start iter))" "pos iter = (s + i) mod k" "i < k"
    and "\<forall>j < i. \<not> field_matches t (message_fields (start iter) ! ((s + j) mod k))"
  shows "\<exists>found iter'. find_loop iter s t = Some (found, iter') \<and> start iter' = start iter \<and>
    (found \<longleftrightarrow> (\<exists>j < k. field_matches t (message_fields (start iter) ! ((s + j) mod k)))) \<and>
    (if found then pos iter' < k \<and> field_matches t (message_fields (start iter) ! pos iter') else pos iter' = s)"
  using assms
proof (induction "k - i" arbitrary: iter i)
  case (Suc n)
  let ?fields = "message_fields (start iter)"
  have here: "field_at (start iter) (pos iter) = Some (?fields ! pos iter)" "pos iter < k"
    using Suc.prems(1,3) message_fields_nth by (auto simp: iter_ok_def)
  show ?case
  proof (cases "field_matches t (?fields ! pos iter)")
    case True
    then have "find_loop iter s t = Some (True, iter)"
      using here by (subst find_loop.simps) (simp add: field_matches_def)
    moreover have "field_matches t (?fields ! ((s + i) mod k))" using True Suc.prems(4) by simp
    ultimately show ?thesis using True here(2) Suc.prems(5) by auto
  next
    case False
    obtain again iter' where n': "pb_field_iter_next iter = Some (again, iter')" "start iter' = start iter"
      "pos iter' = (if Suc (pos iter) < k then Suc (pos iter) else 0)"
      using iter_next_pos [OF Suc.prems(1)] Suc.prems(3) by auto
    have p: "pos iter' = (s + Suc i) mod k"
      using n'(3) here(2) Suc.prems(4) by (simp add: mod_Suc)
    have step: "find_loop iter s t = (if pos iter' \<noteq> s then find_loop iter' s t else Some (False, iter'))"
      using False here n' by (subst find_loop.simps) (auto simp: field_matches_def)
    have none: "\<forall>j < Suc i. \<not> field_matches t (?fields ! ((s + j) mod k))"
      using Suc.prems(4,6) False by (auto simp: less_Suc_eq)
    show ?thesis
    proof (cases "Suc i = k")
      case True
      then have "pos iter' = s" using p Suc.prems(2) by simp
      then show ?thesis using step n'(2) none True by auto
    next
      case le: False
      then have i: "Suc i < k" using Suc.prems(5) by simp
      then have "(s + Suc i) mod k \<noteq> s" using Suc.prems(2) by (auto simp: mod_if)
      then have step': "find_loop iter s t = find_loop iter' s t" using step p by simp
      have "pos iter' < k" using n'(3) here(2) by auto
      then have ok: "iter_ok iter'" using Suc.prems(1,3) n'(2) by (simp add: iter_ok_def)
      have m: "n = k - Suc i" using Suc.hyps(2) by simp
      show ?thesis
        using Suc.hyps(1) [OF m ok Suc.prems(2), unfolded n'(2), OF Suc.prems(3) p i none]
        unfolding step' .
    qed
  qed
qed simp

lemma pb_field_iter_find_total:
  assumes "terminated (start iter)" "pos iter < length (message_fields (start iter))"
  shows "\<exists>found iter'. pb_field_iter_find iter t = Some (found, iter') \<and> start iter' = start iter \<and>
    (found \<longleftrightarrow> (\<exists>f \<in> set (message_fields (start iter)). field_matches t f)) \<and>
    (if found then pos iter' < length (message_fields (start iter)) \<and>
       field_matches t (message_fields (start iter) ! pos iter') else pos iter' = pos iter)"
proof -
  let ?fields = "message_fields (start iter)" and ?k = "length (message_fields (start iter))"
  obtain found iter' where r: "find_loop iter (pos iter) t = Some (found, iter')" "start iter' = start iter"
    "found \<longleftrightarrow> (\<exists>j < ?k. field_matches t (?fields ! ((pos iter + j) mod ?k)))"
    "if found then pos iter' < ?k \<and> field_matches t (?fields ! pos iter') else pos iter' = pos iter"
  proof -
    have "\<exists>found iter'. find_loop iter (pos iter) t = Some (found, iter') \<and> start iter' = start iter \<and>
      (found \<longleftrightarrow> (\<exists>j < ?k. field_matches t (?fields ! ((pos iter + j) mod ?k)))) \<and>
      (if found then pos iter' < ?k \<and> field_matches t (?fields ! pos iter') else pos iter' = pos iter)"
      by (rule find_loop_correct [where i = 0]) (use assms in \<open>auto simp: iter_ok_def\<close>)
    then show ?thesis using that by blast
  qed
  have "(\<exists>j < ?k. field_matches t (?fields ! ((pos iter + j) mod ?k))) \<longleftrightarrow> (\<exists>f \<in> set ?fields. field_matches t f)"
  proof
    assume "\<exists>j < ?k. field_matches t (?fields ! ((pos iter + j) mod ?k))"
    then show "\<exists>f \<in> set ?fields. field_matches t f" using assms(2) by (metis mod_less_divisor nth_mem gr_implies_not0 neq0_conv)
  next
    assume "\<exists>f \<in> set ?fields. field_matches t f"
    then obtain i where i: "i < ?k" "field_matches t (?fields ! i)" by (auto simp: in_set_conv_nth)
    let ?j = "(i + (?k - pos iter)) mod ?k"
    have "(pos iter + ?j) mod ?k = (pos iter + (i + (?k - pos iter))) mod ?k" by (simp add: mod_add_right_eq)
    also have "\<dots> = i" using i(1) assms(2) by simp
    finally have "field_matches t (?fields ! ((pos iter + ?j) mod ?k))" using i(2) by simp
    moreover have "?j < ?k" by (rule mod_less_divisor) (use assms(2) in linarith)
    ultimately show "\<exists>j < ?k. field_matches t (?fields ! ((pos iter + j) mod ?k))" by blast
  qed
  then show ?thesis using r by (simp add: pb_field_iter_find_def)
qed

definition sample_iter :: pb_field_iter where
  "sample_iter = \<lparr>start = [sample_field, sample_submessage, last_field], pos = 1, required_field_index = 0,
     dest_struct = 0x2000, pData = 0x2004, pSize = 0x2004\<rparr>"

text \<open>C38. The search for a field number goes round the table once from wherever the iterator stands: it
  ends, it finds a field that is not an extension if and only if the message has one, and otherwise
  leaves the iterator where it was.\<close>

theorem pb_field_iter_find_correct:
  assumes "terminated (start iter)" "pos iter < length (message_fields (start iter))"
  shows "\<exists>found iter'. pb_field_iter_find iter t = Some (found, iter') \<and> start iter' = start iter \<and>
    (found \<longleftrightarrow> (\<exists>f \<in> set (message_fields (start iter)). field_matches t f)) \<and>
    (if found then pos iter' < length (message_fields (start iter)) \<and>
       field_matches t (message_fields (start iter) ! pos iter') else pos iter' = pos iter)"
  using assms by (rule pb_field_iter_find_total)

lemma pb_field_iter_find_correct_witness:
  "\<exists>found iter'. pb_field_iter_find sample_iter 1 = Some (found, iter') \<and> start iter' = start sample_iter \<and>
    (found \<longleftrightarrow> (\<exists>f \<in> set (message_fields (start sample_iter)). field_matches 1 f)) \<and>
    (if found then pos iter' < length (message_fields (start sample_iter)) \<and>
       field_matches 1 (message_fields (start sample_iter) ! pos iter') else pos iter' = pos sample_iter)"
  by (rule pb_field_iter_find_correct)
    (simp_all add: sample_iter_def terminated_def message_fields_def sample_defs)

end
