(* ===== verification/Pb_Message_Decode.thy ===== *)
theory Pb_Message_Decode
  imports Pb_Message
begin

text \<open>
  The message decoder of \<open>pb_decode.c\<close>: static, pointer and callback fields, extensions, default values,
  releasing what was allocated, and the loop over the fields of the input.  The C library's
  allocator, the field tables and the functions of callback fields and extensions are arguments, in
  the record \<open>pb_dec_env\<close>; \<open>frame d\<close> is where the local \<open>fixed_count_size\<close> of a call at depth \<open>d\<close> lives,
  to which \<open>pSize\<close> may point.  A callback gets a stream of the decoder's own kind or, for a scalar
  value, a stream over a small buffer: the same C function is given here for both.  The nesting of
  submessages is bounded by an argument, as in the encoder.
\<close>

record 'st pb_dec_env =
  dtables :: "u64 \<Rightarrow> pb_field list option"
  pb_realloc :: reallocator
  pb_free :: "u64 \<Rightarrow> memory \<Rightarrow> memory"
  decode_func :: "u64 \<Rightarrow> 'st pb_decoder"
  decode_scalar_func :: "u64 \<Rightarrow> u64 pb_decoder"
  ext_decode_func :: "u64 \<Rightarrow> 'st pb_source \<Rightarrow> 'st pb_istream \<Rightarrow> memory \<Rightarrow> u64 \<Rightarrow> u32 \<Rightarrow> u32 \<Rightarrow>
    (bool \<times> 'st pb_istream \<times> memory) option"
  frame :: "nat \<Rightarrow> u64"

section \<open>Default values\<close>

definition iter_from_extension :: "(u64 \<Rightarrow> pb_field list option) \<Rightarrow> memory \<Rightarrow> u64 \<Rightarrow> pb_field_iter option" where
  "iter_from_extension tabs m extension = do {
     type \<leftarrow> load_word m extension 8;
     arg \<leftarrow> load_word m (type + 16) 8;
     table \<leftarrow> tabs arg;
     field \<leftarrow> field_at table 0;
     dest \<leftarrow> load_word m (extension + 8) 8;
     (b, iter) \<leftarrow> pb_field_iter_begin table dest;
     Some (iter\<lparr>pData := (if PB_ATYPE (ftype field) = PB_ATYPE_POINTER then extension + 8 else dest),
       pSize := extension + 24\<rparr>) }"

text \<open>The loops over an extension's list and over the fields of a message, around the operation on one
  field.\<close>

partial_function (option) each_extension ::
    "(u64 \<Rightarrow> pb_field list option) \<Rightarrow> bool \<Rightarrow> (memory \<Rightarrow> pb_field_iter \<Rightarrow> memory option) \<Rightarrow> memory \<Rightarrow> u64 \<Rightarrow> memory option" where
  [code]: "each_extension tabs clear_found one m ext =
     (if ext = 0 then Some m
      else Option.bind (if clear_found then store_bytes m (ext + 24) [0] else Some m) (\<lambda>m.
        Option.bind (iter_from_extension tabs m ext) (\<lambda>iter.
          Option.bind (one m iter) (\<lambda>m.
            Option.bind (load_word m (ext + 16) 8) (\<lambda>next.
              each_extension tabs clear_found one m next)))))"

partial_function (option) each_field ::
    "(memory \<Rightarrow> pb_field_iter \<Rightarrow> memory option) \<Rightarrow> memory \<Rightarrow> pb_field_iter \<Rightarrow> memory option" where
  [code]: "each_field one m iter =
     Option.bind (one m iter) (\<lambda>m.
       Option.bind (pb_field_iter_next iter) (\<lambda>r. case r of (again, iter) \<Rightarrow>
         if again then each_field one m iter else Some m))"

definition set_message_defaults ::
    "(memory \<Rightarrow> pb_field_iter \<Rightarrow> memory option) \<Rightarrow> memory \<Rightarrow> pb_field list \<Rightarrow> u64 \<Rightarrow> memory option" where
  "set_message_defaults one m table dest = do {
     (some_field, iter) \<leftarrow> pb_field_iter_begin table dest;
     if some_field then each_field one m iter else Some m }"

primrec pb_field_set_to_default ::
    "nat \<Rightarrow> (u64 \<Rightarrow> pb_field list option) \<Rightarrow> memory \<Rightarrow> pb_field_iter \<Rightarrow> memory option" where
  "pb_field_set_to_default 0 tabs m iter = None"
| "pb_field_set_to_default (Suc d) tabs m iter = do {
     f \<leftarrow> field_at (start iter) (pos iter);
     let t = PB_LTYPE (ftype f);
     let h = PB_HTYPE (ftype f);
     let a = PB_ATYPE (ftype f);
     let one = pb_field_set_to_default d tabs;
     let counted = (h = PB_HTYPE_REPEATED \<or> h = PB_HTYPE_ONEOF);
     if t = PB_LTYPE_EXTENSION then do {
       ext \<leftarrow> load_word m (pData iter) 8;
       each_extension tabs True one m ext }
     else if a = PB_ATYPE_STATIC then
       if \<not> (h = PB_HTYPE_OPTIONAL \<and> pSize iter \<noteq> pData iter) \<and> counted
       then store_word m (pSize iter) 4 (0 :: u32)
       else do {
         m \<leftarrow> (if h = PB_HTYPE_OPTIONAL \<and> pSize iter \<noteq> pData iter then store_bytes m (pSize iter) [0] else Some m);
         if t = PB_LTYPE_SUBMESSAGE then do {
           table \<leftarrow> tabs (ptr f);
           set_message_defaults one m table (pData iter) }
         else if ptr f \<noteq> 0 then do {
           bs \<leftarrow> read_map m (ptr f) (unat (data_size f));
           store_bytes m (pData iter) bs }
         else store_bytes m (pData iter) (replicate (unat (data_size f)) 0) }
     else if a = PB_ATYPE_POINTER then do {
       m \<leftarrow> store_word m (pData iter) 8 (0 :: u64);
       if counted then store_word m (pSize iter) 4 (0 :: u32) else Some m }
     else Some m }"

definition pb_message_set_to_defaults ::
    "nat \<Rightarrow> (u64 \<Rightarrow> pb_field list option) \<Rightarrow> memory \<Rightarrow> pb_field list \<Rightarrow> u64 \<Rightarrow> memory option" where
  "pb_message_set_to_defaults d tabs = set_message_defaults (pb_field_set_to_default d tabs)"

section \<open>Releasing\<close>

definition release_message ::
    "(memory \<Rightarrow> pb_field_iter \<Rightarrow> memory option) \<Rightarrow> memory \<Rightarrow> pb_field list \<Rightarrow> u64 \<Rightarrow> memory option" where
  "release_message one m table dest =
     (if dest = 0 then Some m
      else do {
        (some_field, iter) \<leftarrow> pb_field_iter_begin table dest;
        if some_field then each_field one m iter else Some m })"

primrec release_items ::
    "(memory \<Rightarrow> u64 \<Rightarrow> memory option) \<Rightarrow> memory \<Rightarrow> u64 \<Rightarrow> u32 \<Rightarrow> nat \<Rightarrow> memory option" where
  "release_items one m p d_size 0 = Some m"
| "release_items one m p d_size (Suc k) = do {
     m \<leftarrow> one m p;
     release_items one m (p + ucast d_size) d_size k }"

text \<open>The entries of a repeated string or bytes field, each freed and cleared.\<close>

primrec free_entries :: "(u64 \<Rightarrow> memory \<Rightarrow> memory) \<Rightarrow> memory \<Rightarrow> u64 \<Rightarrow> nat \<Rightarrow> memory option" where
  "free_entries free m p 0 = Some m"
| "free_entries free m p (Suc k) = do {
     q \<leftarrow> load_word m p 8;
     m \<leftarrow> store_word (free q m) p 8 (0 :: u64);
     free_entries free m (p + 8) k }"

definition release_pointer ::
    "(u64 \<Rightarrow> memory \<Rightarrow> memory) \<Rightarrow> memory \<Rightarrow> pb_field \<Rightarrow> pb_field_iter \<Rightarrow> memory option" where
  "release_pointer free m f iter =
     (let t = PB_LTYPE (ftype f); h = PB_HTYPE (ftype f) in
      do {
        m \<leftarrow> (if h = PB_HTYPE_REPEATED \<and> (t = PB_LTYPE_STRING \<or> t = PB_LTYPE_BYTES) then do {
            item \<leftarrow> load_word m (pData iter) 8;
            count \<leftarrow> load_word m (pSize iter) 4;
            free_entries free m item (unat (count :: u32)) }
          else Some m);
        m \<leftarrow> (if h = PB_HTYPE_REPEATED then store_word m (pSize iter) 4 (0 :: u32) else Some m);
        p \<leftarrow> load_word m (pData iter) 8;
        store_word (free p m) (pData iter) 8 (0 :: u64) })"

primrec pb_release_single_field ::
    "nat \<Rightarrow> (u64 \<Rightarrow> pb_field list option) \<Rightarrow> (u64 \<Rightarrow> memory \<Rightarrow> memory) \<Rightarrow> memory \<Rightarrow> pb_field_iter \<Rightarrow> memory option" where
  "pb_release_single_field 0 tabs free m iter = None"
| "pb_release_single_field (Suc d) tabs free m iter = do {
     f \<leftarrow> field_at (start iter) (pos iter);
     let t = PB_LTYPE (ftype f);
     let h = PB_HTYPE (ftype f);
     let a = PB_ATYPE (ftype f);
     let one = pb_release_single_field d tabs free;
     current \<leftarrow> (if h = PB_HTYPE_ONEOF then map_option (\<lambda>w. w = tag f) (load_word m (pSize iter) 4) else Some True);
     if \<not> current then Some m
     else do {
       m \<leftarrow> (if t = PB_LTYPE_EXTENSION then do {
           ext \<leftarrow> load_word m (pData iter) 8;
           each_extension tabs False one m ext }
         else if t = PB_LTYPE_SUBMESSAGE \<and> a \<noteq> PB_ATYPE_CALLBACK then do {
           item \<leftarrow> (if a = PB_ATYPE_POINTER then load_word m (pData iter) 8 else Some (pData iter));
           count \<leftarrow> (if h = PB_HTYPE_REPEATED then do {
               count \<leftarrow> (if a = PB_ATYPE_STATIC \<and> pSize iter = pData iter then Some (array_size f)
                 else load_word m (pSize iter) 4);
               Some (if a = PB_ATYPE_STATIC \<and> count > array_size f then array_size f else count) }
             else Some 1);
           if item \<noteq> 0 then
             release_items (\<lambda>m p. do { table \<leftarrow> tabs (ptr f); release_message one m table p })
               m item (data_size f) (unat count)
           else Some m }
         else Some m);
       if a = PB_ATYPE_POINTER then release_pointer free m f iter else Some m } }"

definition pb_release ::
    "nat \<Rightarrow> (u64 \<Rightarrow> pb_field list option) \<Rightarrow> (u64 \<Rightarrow> memory \<Rightarrow> memory) \<Rightarrow> memory \<Rightarrow> pb_field list \<Rightarrow> u64 \<Rightarrow> memory option" where
  "pb_release d tabs free = release_message (pb_release_single_field d tabs free)"

text \<open>A field of a union replaces another: status, memory and iterator, which moves and comes back.\<close>

definition pb_release_union_field ::
    "nat \<Rightarrow> 'st pb_dec_env \<Rightarrow> 'st pb_istream \<Rightarrow> memory \<Rightarrow> pb_field_iter \<Rightarrow>
      (bool \<times> 'st pb_istream \<times> memory \<times> pb_field_iter) option" where
  "pb_release_union_field d env stream m iter = do {
     f \<leftarrow> field_at (start iter) (pos iter);
     old_tag \<leftarrow> load_word m (pSize iter) 4;
     let new_tag = tag f;
     if old_tag = 0 \<or> old_tag = new_tag then Some (True, stream, m, iter)
     else do {
       (found, iter) \<leftarrow> pb_field_iter_find iter old_tag;
       if \<not> found then Some (False, iset_error ''invalid union tag'' stream, m, iter)
       else do {
         m \<leftarrow> pb_release_single_field d (dtables env) (pb_free env) m iter;
         (found, iter) \<leftarrow> pb_field_iter_find iter new_tag;
         Some (if \<not> found then (False, iset_error ''iterator error'' stream, m, iter)
           else (True, stream, m, iter)) } } }"

section \<open>Decoding a field\<close>

text \<open>The address of entry \<open>n\<close> of an array; the product is a 32-bit one.\<close>

definition item_at :: "u64 \<Rightarrow> pb_field \<Rightarrow> u32 \<Rightarrow> u64" where
  "item_at p f n = p + ucast (data_size f * n)"

text \<open>The loop over a packed array in a static field: status, substream and memory.\<close>

partial_function (option) static_packed_loop ::
    "('st pb_istream \<Rightarrow> memory \<Rightarrow> u64 \<Rightarrow> (bool \<times> 'st pb_istream \<times> memory) option) \<Rightarrow> pb_field \<Rightarrow> u64 \<Rightarrow> u64 \<Rightarrow>
      'st pb_istream \<Rightarrow> memory \<Rightarrow> (bool \<times> 'st pb_istream \<times> memory) option" where
  [code]: "static_packed_loop func f data size_ptr substream m =
     Option.bind (if bytes_left substream > 0 then load_word m size_ptr 4 else Some (array_size f)) (\<lambda>n.
       if \<not> (bytes_left substream > 0 \<and> n < array_size f) then Some (True, substream, m)
       else Option.bind (func substream m (item_at data f n)) (\<lambda>r. case r of (ok, substream, m) \<Rightarrow>
         if \<not> ok then Some (False, substream, m)
         else Option.bind (load_word m size_ptr 4) (\<lambda>n.
           Option.bind (store_word m size_ptr 4 (n + 1 :: u32)) (\<lambda>m.
             static_packed_loop func f data size_ptr substream m))))"

definition decode_static_field ::
    "nat \<Rightarrow> 'st pb_dec_env \<Rightarrow> 'st pb_decoder \<Rightarrow> 'st pb_source \<Rightarrow> 'st pb_istream \<Rightarrow> memory \<Rightarrow> u32 \<Rightarrow> pb_field_iter \<Rightarrow>
      (bool \<times> 'st pb_istream \<times> memory) option" where
  "decode_static_field d env dec_submessage S stream m wire_type iter = do {
     f \<leftarrow> field_at (start iter) (pos iter);
     let h = PB_HTYPE (ftype f);
     let t = PB_LTYPE (ftype f);
     let func = (\<lambda>s m p. do { e \<leftarrow> PB_DECODERS (pb_realloc env) dec_submessage t; e S s m f p });
     if h = PB_HTYPE_REQUIRED then func stream m (pData iter)
     else if h = PB_HTYPE_OPTIONAL then do {
       m \<leftarrow> (if pSize iter \<noteq> pData iter then store_bytes m (pSize iter) [1] else Some m);
       func stream m (pData iter) }
     else if h = PB_HTYPE_REPEATED then
       if wire_type = PB_WT_STRING \<and> t \<le> PB_LTYPE_LAST_PACKABLE then do {
         (ok, stream, substream) \<leftarrow> pb_make_string_substream S stream;
         if \<not> ok then Some (False, stream, m)
         else do {
           substream \<leftarrow> substream;
           (status, substream, m) \<leftarrow> static_packed_loop func f (pData iter) (pSize iter) substream m;
           if bytes_left substream \<noteq> 0 then Some (False, iset_error ''array overflow'' stream, m)
           else do {
             (ok, stream) \<leftarrow> pb_close_string_substream S stream substream;
             Some (if \<not> ok then False else status, stream, m) } } }
       else do {
         n \<leftarrow> load_word m (pSize iter) 4;
         m \<leftarrow> store_word m (pSize iter) 4 (n + 1 :: u32);
         if n \<ge> array_size f then Some (False, iset_error ''array overflow'' stream, m)
         else func stream m (item_at (pData iter) f n) }
     else do {
       m \<leftarrow> store_word m (pSize iter) 4 (tag f);
       m \<leftarrow> (if t = PB_LTYPE_SUBMESSAGE then do {
           m \<leftarrow> store_bytes m (pData iter) (replicate (unat (data_size f)) 0);
           table \<leftarrow> dtables env (ptr f);
           pb_message_set_to_defaults d (dtables env) m table (pData iter) }
         else Some m);
       func stream m (pData iter) } }"

definition initialize_pointer_field ::
    "nat \<Rightarrow> (u64 \<Rightarrow> pb_field list option) \<Rightarrow> memory \<Rightarrow> pb_field \<Rightarrow> u64 \<Rightarrow> memory option" where
  "initialize_pointer_field d tabs m f item =
     (let t = PB_LTYPE (ftype f) in
      if t = PB_LTYPE_STRING \<or> t = PB_LTYPE_BYTES then store_word m item 8 (0 :: u64)
      else if t = PB_LTYPE_SUBMESSAGE then do {
        m \<leftarrow> store_bytes m item (replicate (unat (data_size f)) 0);
        table \<leftarrow> tabs (ptr f);
        pb_message_set_to_defaults d tabs m table item }
      else Some m)"

text \<open>The loop over a packed array in a pointer field: status, stream, substream and memory.\<close>

partial_function (option) pointer_packed_loop ::
    "nat \<Rightarrow> 'st pb_dec_env \<Rightarrow> ('st pb_istream \<Rightarrow> memory \<Rightarrow> u64 \<Rightarrow> (bool \<times> 'st pb_istream \<times> memory) option) \<Rightarrow>
      pb_field \<Rightarrow> pb_field_iter \<Rightarrow> u64 \<Rightarrow> 'st pb_istream \<Rightarrow> 'st pb_istream \<Rightarrow> memory \<Rightarrow>
      (bool \<times> 'st pb_istream \<times> 'st pb_istream \<times> memory) option" where
  [code]: "pointer_packed_loop d env func f iter allocated_size stream substream m =
     (if bytes_left substream = 0 then Some (True, stream, substream, m)
      else Option.bind (load_word m (pSize iter) 4) (\<lambda>n :: u32.
        if n = 0xFFFFFFFF
        then Some (False, stream\<lparr>ierrmsg := Some ''too many array entries''\<rparr>, substream, m)
        else Option.bind (if ucast n + 1 > allocated_size then
              if data_size f = 0 then None
              else
                let remain = (bytes_left substream - 1) div ucast (data_size f) + 1;
                    allocated_size = (if remain < 0xFFFFFFFF - allocated_size
                      then allocated_size + remain else allocated_size + 1) in
                map_option (\<lambda>(ok, substream, m). (ok, substream, m, allocated_size))
                  (allocate_field (pb_realloc env) substream m (pData iter) (ucast (data_size f)) allocated_size)
            else Some (True, substream, m, allocated_size)) (\<lambda>r. case r of (ok, substream, m, allocated_size) \<Rightarrow>
          if \<not> ok then Some (False, stream, substream, m)
          else Option.bind (load_word m (pData iter) 8) (\<lambda>base.
            Option.bind (load_word m (pSize iter) 4) (\<lambda>n.
              let item = item_at base f n in
              Option.bind (initialize_pointer_field d (dtables env) m f item) (\<lambda>m.
                Option.bind (func substream m item) (\<lambda>r. case r of (ok, substream, m) \<Rightarrow>
                  if \<not> ok then Some (False, stream, substream, m)
                  else Option.bind (load_word m (pSize iter) 4) (\<lambda>n.
                    Option.bind (store_word m (pSize iter) 4 (n + 1 :: u32)) (\<lambda>m.
                      pointer_packed_loop d env func f iter allocated_size stream substream m)))))))))"

definition decode_pointer_field ::
    "nat \<Rightarrow> 'st pb_dec_env \<Rightarrow> 'st pb_decoder \<Rightarrow> 'st pb_source \<Rightarrow> 'st pb_istream \<Rightarrow> memory \<Rightarrow> u32 \<Rightarrow> pb_field_iter \<Rightarrow>
      (bool \<times> 'st pb_istream \<times> memory) option" where
  "decode_pointer_field d env dec_submessage S stream m wire_type iter = do {
     f \<leftarrow> field_at (start iter) (pos iter);
     let h = PB_HTYPE (ftype f);
     let t = PB_LTYPE (ftype f);
     let func = (\<lambda>s m p. do { e \<leftarrow> PB_DECODERS (pb_realloc env) dec_submessage t; e S s m f p });
     if h = PB_HTYPE_REQUIRED \<or> h = PB_HTYPE_OPTIONAL \<or> h = PB_HTYPE_ONEOF then do {
       m \<leftarrow> (if t = PB_LTYPE_SUBMESSAGE then do {
           old \<leftarrow> load_word m (pData iter) 8;
           if old \<noteq> (0 :: u64) then pb_release_single_field d (dtables env) (pb_free env) m iter else Some m }
         else Some m);
       m \<leftarrow> (if h = PB_HTYPE_ONEOF then store_word m (pSize iter) 4 (tag f) else Some m);
       if t = PB_LTYPE_STRING \<or> t = PB_LTYPE_BYTES then func stream m (pData iter)
       else do {
         (ok, stream, m) \<leftarrow> allocate_field (pb_realloc env) stream m (pData iter) (ucast (data_size f)) 1;
         if \<not> ok then Some (False, stream, m)
         else do {
           p \<leftarrow> load_word m (pData iter) 8;
           m \<leftarrow> initialize_pointer_field d (dtables env) m f p;
           p \<leftarrow> load_word m (pData iter) 8;
           func stream m p } } }
     else if wire_type = PB_WT_STRING \<and> t \<le> PB_LTYPE_LAST_PACKABLE then do {
       n \<leftarrow> load_word m (pSize iter) 4;
       (ok, stream, substream) \<leftarrow> pb_make_string_substream S stream;
       if \<not> ok then Some (False, stream, m)
       else do {
         substream \<leftarrow> substream;
         (status, stream, substream, m) \<leftarrow>
           pointer_packed_loop d env func f iter (ucast (n :: u32)) stream substream m;
         (ok, stream) \<leftarrow> pb_close_string_substream S stream substream;
         Some (if \<not> ok then False else status, stream, m) } }
     else do {
       n \<leftarrow> load_word m (pSize iter) 4;
       if n = 0xFFFFFFFF then Some (False, iset_error ''too many array entries'' stream, m)
       else do {
         (ok, stream, m) \<leftarrow> allocate_field (pb_realloc env) stream m (pData iter) (ucast (data_size f)) (ucast (n + 1 :: u32));
         if \<not> ok then Some (False, stream, m)
         else do {
           base \<leftarrow> load_word m (pData iter) 8;
           n \<leftarrow> load_word m (pSize iter) 4;
           let item = item_at base f n;
           m \<leftarrow> store_word m (pSize iter) 4 (n + 1);
           m \<leftarrow> initialize_pointer_field d (dtables env) m f item;
           func stream m item } } } }"

text \<open>A callback field whose function is null is skipped; a string is offered to it in a substream until
  all is read; a scalar value is copied into a buffer of 10 bytes, at \<open>buffer\<close>, whose stream the
  function gets.\<close>

partial_function (option) callback_loop ::
    "('st pb_istream \<Rightarrow> memory \<Rightarrow> (bool \<times> 'st pb_istream \<times> memory) option) \<Rightarrow> 'st pb_istream \<Rightarrow> memory \<Rightarrow>
      (bool \<times> 'st pb_istream \<times> memory) option" where
  [code]: "callback_loop decode substream m =
     Option.bind (decode substream m) (\<lambda>r. case r of (ok, substream, m) \<Rightarrow>
       if \<not> ok then Some (False, substream, m)
       else if bytes_left substream \<noteq> 0 then callback_loop decode substream m
       else Some (True, substream, m))"

definition decode_callback_field ::
    "'st pb_dec_env \<Rightarrow> 'st pb_source \<Rightarrow> 'st pb_istream \<Rightarrow> memory \<Rightarrow> u32 \<Rightarrow> pb_field_iter \<Rightarrow>
      (bool \<times> 'st pb_istream \<times> memory) option" where
  "decode_callback_field env S stream m wire_type iter = do {
     f \<leftarrow> field_at (start iter) (pos iter);
     decode \<leftarrow> (if pData iter = 0 then Some 0 else load_word m (pData iter) 8);
     if decode = 0 then map_option (\<lambda>(ok, stream). (ok, stream, m)) (pb_skip_field S stream wire_type)
     else if wire_type = PB_WT_STRING then do {
       (ok, stream, substream) \<leftarrow> pb_make_string_substream S stream;
       if \<not> ok then Some (False, stream, m)
       else do {
         substream \<leftarrow> substream;
         (ok, substream, m) \<leftarrow> callback_loop (\<lambda>s m. decode_func env decode S s m f (pData iter + 8)) substream m;
         if \<not> ok then Some (False, iset_error ''callback failed'' stream, m)
         else do {
           (ok, stream) \<leftarrow> pb_close_string_substream S stream substream;
           Some (ok, stream, m) } } }
     else do {
       (ok, bytes, n, stream) \<leftarrow> read_raw_value S stream wire_type 10;
       if \<not> ok then Some (False, stream, m)
       else do {
         (ok, substream, m) \<leftarrow> decode_scalar_func env decode
           (buffer_source (flat_task (block 0 bytes))) (pb_istream_from_buffer 0 n) m f (pData iter + 8);
         Some (ok, stream, m) } } }"

definition decode_field ::
    "nat \<Rightarrow> 'st pb_dec_env \<Rightarrow> 'st pb_decoder \<Rightarrow> 'st pb_source \<Rightarrow> 'st pb_istream \<Rightarrow> memory \<Rightarrow> u32 \<Rightarrow> pb_field_iter \<Rightarrow>
      (bool \<times> 'st pb_istream \<times> memory \<times> pb_field_iter) option" where
  "decode_field d env dec_submessage S stream m wire_type iter = do {
     f \<leftarrow> field_at (start iter) (pos iter);
     (ok, stream, m, iter) \<leftarrow> (if PB_HTYPE (ftype f) = PB_HTYPE_ONEOF
       then pb_release_union_field d env stream m iter else Some (True, stream, m, iter));
     if \<not> ok then Some (False, stream, m, iter)
     else do {
       f \<leftarrow> field_at (start iter) (pos iter);
       let a = PB_ATYPE (ftype f);
       map_option (\<lambda>(ok, stream, m). (ok, stream, m, iter))
         (if a = PB_ATYPE_STATIC then decode_static_field d env dec_submessage S stream m wire_type iter
          else if a = PB_ATYPE_POINTER then decode_pointer_field d env dec_submessage S stream m wire_type iter
          else if a = PB_ATYPE_CALLBACK then decode_callback_field env S stream m wire_type iter
          else Some (False, iset_error ''invalid field type'' stream, m)) } }"

section \<open>Extensions\<close>

definition default_extension_decoder ::
    "nat \<Rightarrow> 'st pb_dec_env \<Rightarrow> 'st pb_decoder \<Rightarrow> 'st pb_source \<Rightarrow> 'st pb_istream \<Rightarrow> memory \<Rightarrow> u64 \<Rightarrow> u32 \<Rightarrow> u32 \<Rightarrow>
      (bool \<times> 'st pb_istream \<times> memory) option" where
  "default_extension_decoder d env dec_submessage S stream m extension t wire_type = do {
     type \<leftarrow> load_word m extension 8;
     arg \<leftarrow> load_word m (type + 16) 8;
     table \<leftarrow> dtables env arg;
     field \<leftarrow> field_at table 0;
     if tag field \<noteq> t then Some (True, stream, m)
     else do {
       iter \<leftarrow> iter_from_extension (dtables env) m extension;
       m \<leftarrow> store_bytes m (extension + 24) [1];
       (ok, stream, m, iter) \<leftarrow> decode_field d env dec_submessage S stream m wire_type iter;
       Some (ok, stream, m) } }"

partial_function (option) decode_extension_loop ::
    "nat \<Rightarrow> 'st pb_dec_env \<Rightarrow> 'st pb_decoder \<Rightarrow> 'st pb_source \<Rightarrow> u64 \<Rightarrow> u32 \<Rightarrow> u32 \<Rightarrow> 'st pb_istream \<Rightarrow> memory \<Rightarrow> u64 \<Rightarrow>
      (bool \<times> 'st pb_istream \<times> memory) option" where
  [code]: "decode_extension_loop d env dec_submessage S position t wire_type stream m extension =
     (if \<not> (extension \<noteq> 0 \<and> position = bytes_left stream) then Some (True, stream, m)
      else Option.bind (load_word m extension 8) (\<lambda>type.
        Option.bind (load_word m type 8) (\<lambda>decode.
          Option.bind (if decode \<noteq> 0 then ext_decode_func env decode S stream m extension t wire_type
              else default_extension_decoder d env dec_submessage S stream m extension t wire_type)
            (\<lambda>r. case r of (status, stream, m) \<Rightarrow>
              if \<not> status then Some (False, stream, m)
              else Option.bind (load_word m (extension + 16) 8) (\<lambda>next.
                decode_extension_loop d env dec_submessage S position t wire_type stream m next)))))"

definition decode_extension ::
    "nat \<Rightarrow> 'st pb_dec_env \<Rightarrow> 'st pb_decoder \<Rightarrow> 'st pb_source \<Rightarrow> 'st pb_istream \<Rightarrow> memory \<Rightarrow> u32 \<Rightarrow> u32 \<Rightarrow> pb_field_iter \<Rightarrow>
      (bool \<times> 'st pb_istream \<times> memory) option" where
  "decode_extension d env dec_submessage S stream m t wire_type iter = do {
     extension \<leftarrow> load_word m (pData iter) 8;
     decode_extension_loop d env dec_submessage S (bytes_left stream) t wire_type stream m extension }"

partial_function (option) find_extension_loop :: "pb_field_iter \<Rightarrow> nat \<Rightarrow> (bool \<times> pb_field_iter) option" where
  [code]: "find_extension_loop iter start' =
     Option.bind (field_at (start iter) (pos iter)) (\<lambda>f.
       if PB_LTYPE (ftype f) = PB_LTYPE_EXTENSION then Some (True, iter)
       else Option.bind (pb_field_iter_next iter) (\<lambda>r. case r of (b, iter) \<Rightarrow>
         if pos iter \<noteq> start' then find_extension_loop iter start' else Some (False, iter)))"

definition find_extension_field :: "pb_field_iter \<Rightarrow> (bool \<times> pb_field_iter) option" where
  "find_extension_field iter = find_extension_loop iter (pos iter)"

section \<open>Decoding a message\<close>

text \<open>The state of \<open>pb_decode_noinit\<close>'s loop; \<open>fixed_count_field\<close> is an index into the table.  The local
  \<open>fixed_count_size\<close> is the word at \<open>frame d\<close>.\<close>

record 'st noinit =
  nstream :: "'st pb_istream"
  nmem :: memory
  niter :: pb_field_iter
  fields_seen :: "u32 list"
  extension_range_start :: u32
  fixed_count_field :: "nat option"

datatype loop_outcome = Continue | Break | Fail

text \<open>A fixed count field that ended short.\<close>

definition fixed_count_wrong :: "pb_field list \<Rightarrow> memory \<Rightarrow> u64 \<Rightarrow> nat option \<Rightarrow> bool option" where
  "fixed_count_wrong table m slot field =
     (case field of None \<Rightarrow> Some False
      | Some i \<Rightarrow> do {
          f \<leftarrow> field_at table i;
          n \<leftarrow> load_word m slot 4;
          Some (n \<noteq> array_size f) })"

text \<open>A field that is not in the table: an extension, or skipped.\<close>

definition unknown_field ::
    "nat \<Rightarrow> 'st pb_dec_env \<Rightarrow> 'st pb_decoder \<Rightarrow> 'st pb_source \<Rightarrow> u32 \<Rightarrow> u32 \<Rightarrow> 'st noinit \<Rightarrow>
      (loop_outcome \<times> 'st noinit) option" where
  "unknown_field d env dec_submessage S t wire_type st = do {
     let before = bytes_left (nstream st);
     (ok, st) \<leftarrow> (if t \<ge> extension_range_start st then do {
         (found, iter) \<leftarrow> find_extension_field (niter st);
         f \<leftarrow> field_at (start iter) (pos iter);
         let st = st\<lparr>niter := iter, extension_range_start := (if \<not> found then 0xFFFFFFFF else tag f)\<rparr>;
         if t \<ge> extension_range_start st then do {
           (ok, stream, m) \<leftarrow> decode_extension d env dec_submessage S (nstream st) (nmem st) t wire_type (niter st);
           Some (ok, st\<lparr>nstream := stream, nmem := m\<rparr>) }
         else Some (True, st) }
       else Some (True, st));
     if \<not> ok then Some (Fail, st)
     else if before \<noteq> bytes_left (nstream st) then Some (Continue, st)
     else do {
       (ok, stream) \<leftarrow> pb_skip_field S (nstream st) wire_type;
       Some (if ok then Continue else Fail, st\<lparr>nstream := stream\<rparr>) } }"

text \<open>A field of the table: the counter of a fixed count field, the note that a required field was seen,
  and its value.\<close>

definition count_fixed :: "u64 \<Rightarrow> pb_field \<Rightarrow> 'st noinit \<Rightarrow> (bool \<times> 'st noinit) option" where
  "count_fixed slot f st =
     (let iter = niter st in
      if \<not> (PB_HTYPE (ftype f) = PB_HTYPE_REPEATED \<and> pSize iter = pData iter) then Some (True, st)
      else do {
        (ok, st) \<leftarrow> (if fixed_count_field st \<noteq> Some (pos iter) then do {
            wrong \<leftarrow> fixed_count_wrong (start iter) (nmem st) slot (fixed_count_field st);
            if wrong
            then Some (False, st\<lparr>nstream := iset_error ''wrong size for fixed count field'' (nstream st)\<rparr>)
            else do {
              m \<leftarrow> store_word (nmem st) slot 4 (0 :: u32);
              Some (True, st\<lparr>nmem := m, fixed_count_field := Some (pos iter)\<rparr>) } }
          else Some (True, st));
        Some (ok, if ok then st\<lparr>niter := iter\<lparr>pSize := slot\<rparr>\<rparr> else st) })"

definition note_required :: "pb_field \<Rightarrow> 'st noinit \<Rightarrow> 'st noinit" where
  "note_required f st =
     (let i = required_field_index (niter st) in
      if PB_HTYPE (ftype f) = PB_HTYPE_REQUIRED \<and> i < 64
      then let w = unat (drop_bit 5 i) in
        st\<lparr>fields_seen := (fields_seen st)[w := fields_seen st ! w OR push_bit (unat (i AND 31)) 1]\<rparr>
      else st)"

definition known_field ::
    "nat \<Rightarrow> 'st pb_dec_env \<Rightarrow> 'st pb_decoder \<Rightarrow> 'st pb_source \<Rightarrow> u32 \<Rightarrow> 'st noinit \<Rightarrow>
      (loop_outcome \<times> 'st noinit) option" where
  "known_field d env dec_submessage S wire_type st = do {
     f \<leftarrow> field_at (start (niter st)) (pos (niter st));
     (ok, st) \<leftarrow> count_fixed (frame env d) f st;
     if \<not> ok then Some (Fail, st)
     else do {
       let st = note_required f st;
       (ok, stream, m, iter) \<leftarrow> decode_field d env dec_submessage S (nstream st) (nmem st) wire_type (niter st);
       Some (if ok then Continue else Fail, st\<lparr>nstream := stream, nmem := m, niter := iter\<rparr>) } }"

definition noinit_step ::
    "nat \<Rightarrow> 'st pb_dec_env \<Rightarrow> 'st pb_decoder \<Rightarrow> 'st pb_source \<Rightarrow> 'st noinit \<Rightarrow> (loop_outcome \<times> 'st noinit) option" where
  "noinit_step d env dec_submessage S st = do {
     (ok, wire_type, t, eof, stream) \<leftarrow> pb_decode_tag S (nstream st);
     let st = st\<lparr>nstream := stream\<rparr>;
     if \<not> ok then Some (if eof then Break else Fail, st)
     else do {
       (found, iter) \<leftarrow> pb_field_iter_find (niter st) t;
       let st = st\<lparr>niter := iter\<rparr>;
       if \<not> found then unknown_field d env dec_submessage S t wire_type st
       else known_field d env dec_submessage S wire_type st } }"

partial_function (option) noinit_loop ::
    "nat \<Rightarrow> 'st pb_dec_env \<Rightarrow> 'st pb_decoder \<Rightarrow> 'st pb_source \<Rightarrow> 'st noinit \<Rightarrow> (bool \<times> 'st noinit) option" where
  [code]: "noinit_loop d env dec_submessage S st =
     (if bytes_left (nstream st) = 0 then Some (True, st)
      else Option.bind (noinit_step d env dec_submessage S st) (\<lambda>r. case r of (outcome, st) \<Rightarrow>
        case outcome of Continue \<Rightarrow> noinit_loop d env dec_submessage S st
        | Break \<Rightarrow> Some (True, st) | Fail \<Rightarrow> Some (False, st)))"

text \<open>The number of required fields, by walking to the end of the table: the iterator wraps to its start
  after the last field.\<close>

partial_function (option) count_required :: "pb_field_iter \<Rightarrow> (u32 \<times> byte \<times> pb_field_iter) option" where
  [code]: "count_required iter =
     Option.bind (field_at (start iter) (pos iter)) (\<lambda>f.
       let n = required_field_index iter; last_type = ftype f in
       Option.bind (pb_field_iter_next iter) (\<lambda>r. case r of (again, iter) \<Rightarrow>
         if again then count_required iter else Some (n, last_type, iter)))"

definition required_missing :: "u32 list \<Rightarrow> u32 \<Rightarrow> bool" where
  "required_missing seen req_field_count =
     (let n = (if req_field_count > 64 then 64 else req_field_count) in
      n > 0 \<and>
      ((\<exists>i < unat (drop_bit 5 n). seen ! i \<noteq> 0xFFFFFFFF) \<or>
       n AND 31 \<noteq> 0 \<and> seen ! unat (drop_bit 5 n) \<noteq> drop_bit (32 - unat (n AND 31)) 0xFFFFFFFF))"

definition finish_noinit :: "nat \<Rightarrow> 'st pb_dec_env \<Rightarrow> 'st noinit \<Rightarrow> (bool \<times> 'st pb_istream \<times> memory) option" where
  "finish_noinit d env st = do {
     wrong \<leftarrow> fixed_count_wrong (start (niter st)) (nmem st) (frame env d) (fixed_count_field st);
     if wrong then Some (False, iset_error ''wrong size for fixed count field'' (nstream st), nmem st)
     else do {
       (n, last_type, iter) \<leftarrow> count_required (niter st);
       f \<leftarrow> field_at (start iter) (pos iter);
       let n = (if PB_HTYPE last_type = PB_HTYPE_REQUIRED \<and> tag f \<noteq> 0 then n + 1 else n);
       Some (if required_missing (fields_seen st) n
         then (False, iset_error ''missing required field'' (nstream st), nmem st)
         else (True, nstream st, nmem st)) } }"

definition noinit_with ::
    "nat \<Rightarrow> 'st pb_dec_env \<Rightarrow> 'st pb_decoder \<Rightarrow> 'st pb_source \<Rightarrow> 'st pb_istream \<Rightarrow> memory \<Rightarrow> pb_field list \<Rightarrow> u64 \<Rightarrow>
      (bool \<times> 'st pb_istream \<times> memory) option" where
  "noinit_with d env dec_submessage S stream m table dest = do {
     m \<leftarrow> store_word m (frame env d) 4 (0 :: u32);
     (b, iter) \<leftarrow> pb_field_iter_begin table dest;
     (ok, st) \<leftarrow> noinit_loop d env dec_submessage S
       \<lparr>nstream = stream, nmem = m, niter = iter, fields_seen = [0, 0], extension_range_start = 0,
        fixed_count_field = None\<rparr>;
     if \<not> ok then Some (False, nstream st, nmem st) else finish_noinit d env st }"

text \<open>\<open>pb_decode_with\<close> is \<open>pb_decode\<close> given the function for submessages; \<open>pb_dec_submessage\<close> is by recursion
  on the depth.\<close>

definition pb_decode_with ::
    "nat \<Rightarrow> 'st pb_dec_env \<Rightarrow> 'st pb_decoder \<Rightarrow> 'st pb_source \<Rightarrow> 'st pb_istream \<Rightarrow> memory \<Rightarrow> pb_field list \<Rightarrow> u64 \<Rightarrow>
      (bool \<times> 'st pb_istream \<times> memory) option" where
  "pb_decode_with d env dec_submessage S stream m table dest = do {
     m \<leftarrow> pb_message_set_to_defaults d (dtables env) m table dest;
     (status, stream, m) \<leftarrow> noinit_with d env dec_submessage S stream m table dest;
     m \<leftarrow> (if \<not> status then pb_release d (dtables env) (pb_free env) m table dest else Some m);
     Some (status, stream, m) }"

primrec pb_dec_submessage :: "nat \<Rightarrow> 'st pb_dec_env \<Rightarrow> 'st pb_decoder" where
  "pb_dec_submessage 0 env S stream m field dest = None"
| "pb_dec_submessage (Suc d) env S stream m field dest = do {
     (ok, stream, substream) \<leftarrow> pb_make_string_substream S stream;
     if \<not> ok then Some (False, stream, m)
     else if ptr field = 0 then Some (False, iset_error ''invalid field descriptor'' stream, m)
     else do {
       substream \<leftarrow> substream;
       table \<leftarrow> dtables env (ptr field);
       (status, substream, m) \<leftarrow> (if PB_HTYPE (ftype field) = PB_HTYPE_REPEATED
         then pb_decode_with d env (pb_dec_submessage d env) S substream m table dest
         else noinit_with d env (pb_dec_submessage d env) S substream m table dest);
       (ok, stream) \<leftarrow> pb_close_string_substream S stream substream;
       Some (if \<not> ok then False else status, stream, m) } }"

definition pb_decode_noinit ::
    "nat \<Rightarrow> 'st pb_dec_env \<Rightarrow> 'st pb_source \<Rightarrow> 'st pb_istream \<Rightarrow> memory \<Rightarrow> pb_field list \<Rightarrow> u64 \<Rightarrow>
      (bool \<times> 'st pb_istream \<times> memory) option" where
  "pb_decode_noinit d env = noinit_with d env (pb_dec_submessage d env)"

definition pb_decode ::
    "nat \<Rightarrow> 'st pb_dec_env \<Rightarrow> 'st pb_source \<Rightarrow> 'st pb_istream \<Rightarrow> memory \<Rightarrow> pb_field list \<Rightarrow> u64 \<Rightarrow>
      (bool \<times> 'st pb_istream \<times> memory) option" where
  "pb_decode d env = pb_decode_with d env (pb_dec_submessage d env)"

text \<open>The variants that read a length first.\<close>

definition decode_delimited ::
    "('st pb_source \<Rightarrow> 'st pb_istream \<Rightarrow> memory \<Rightarrow> pb_field list \<Rightarrow> u64 \<Rightarrow> (bool \<times> 'st pb_istream \<times> memory) option) \<Rightarrow>
      'st pb_source \<Rightarrow> 'st pb_istream \<Rightarrow> memory \<Rightarrow> pb_field list \<Rightarrow> u64 \<Rightarrow> (bool \<times> 'st pb_istream \<times> memory) option" where
  "decode_delimited decode S stream m table dest = do {
     (ok, stream, substream) \<leftarrow> pb_make_string_substream S stream;
     if \<not> ok then Some (False, stream, m)
     else do {
       substream \<leftarrow> substream;
       (status, substream, m) \<leftarrow> decode S substream m table dest;
       (ok, stream) \<leftarrow> pb_close_string_substream S stream substream;
       Some (if \<not> ok then False else status, stream, m) } }"

definition pb_decode_delimited_noinit ::
    "nat \<Rightarrow> 'st pb_dec_env \<Rightarrow> 'st pb_source \<Rightarrow> 'st pb_istream \<Rightarrow> memory \<Rightarrow> pb_field list \<Rightarrow> u64 \<Rightarrow>
      (bool \<times> 'st pb_istream \<times> memory) option" where
  "pb_decode_delimited_noinit d env = decode_delimited (pb_decode_noinit d env)"

definition pb_decode_delimited ::
    "nat \<Rightarrow> 'st pb_dec_env \<Rightarrow> 'st pb_source \<Rightarrow> 'st pb_istream \<Rightarrow> memory \<Rightarrow> pb_field list \<Rightarrow> u64 \<Rightarrow>
      (bool \<times> 'st pb_istream \<times> memory) option" where
  "pb_decode_delimited d env = decode_delimited (pb_decode d env)"

definition pb_decode_nullterminated ::
    "nat \<Rightarrow> 'st pb_dec_env \<Rightarrow> 'st pb_source \<Rightarrow> 'st pb_istream \<Rightarrow> memory \<Rightarrow> pb_field list \<Rightarrow> u64 \<Rightarrow>
      (bool \<times> 'st pb_istream \<times> memory) option" where
  "pb_decode_nullterminated = pb_decode"

end
