(* ===== verification/Pb_Table.thy ===== *)
theory Pb_Table
  imports Pb_Message_Decode
begin

text \<open>
  The decoder's walk over a field table: where the iterator stands after each step, that the searches for
  a known number, an unknown one and an extension end as they should, and how the words that note
  the required fields represent a set.
\<close>

section \<open>Where the iterator stands\<close>

lemma layout_from_fields:
  "tag f \<noteq> 0 \<Longrightarrow> map fst (layout_from f addr fs) = message_fields (f # fs)"
  by (induction f addr fs rule: layout_from.induct) (auto simp: message_fields_def)

lemma layout_fields: "map fst (message_layout table dest) = message_fields table"
proof (cases table)
  case (Cons f fs)
  then show ?thesis
    by (cases "tag f = 0") (simp_all add: message_layout_def layout_from_fields, simp add: message_fields_def)
qed (simp add: message_layout_def message_fields_def)

lemma layout_length: "length (message_layout table dest) = length (message_fields table)"
  by (metis layout_fields length_map)

lemma layout_from_Suc:
  "Suc i < length (layout_from f addr fs) \<Longrightarrow>
    snd (layout_from f addr fs ! Suc i) =
      (let g = fst (layout_from f addr fs ! i); h = fst (layout_from f addr fs ! Suc i); a = snd (layout_from f addr fs ! i) in
       if in_same_union g h then a else a + field_extent g + ucast (data_offset h))"
proof (induction f addr fs arbitrary: i rule: layout_from.induct)
  case (2 f addr g gs)
  have first: "fst (layout_from g a gs ! 0) = g \<and> snd (layout_from g a gs ! 0) = a" for a by (cases gs) auto
  show ?case
  proof (cases i)
    case 0
    then show ?thesis using "2.prems" first by (auto simp: Let_def split: if_splits)
  next
    case (Suc j)
    then show ?thesis using "2.IH" [of j] "2.prems" by (auto split: if_splits)
  qed
qed simp

text \<open>The address of a field, and the number of required fields before it.\<close>

definition field_addr :: "pb_field list \<Rightarrow> u64 \<Rightarrow> nat \<Rightarrow> u64" where
  "field_addr table dest i = snd (message_layout table dest ! i)"

definition required_before :: "pb_field list \<Rightarrow> nat \<Rightarrow> nat" where
  "required_before table i = length (filter (\<lambda>f. PB_HTYPE (ftype f) = PB_HTYPE_REQUIRED) (take i (message_fields table)))"

lemma required_before_Suc:
  "i < length (message_fields table) \<Longrightarrow> required_before table (Suc i) =
    required_before table i + (if PB_HTYPE (ftype (message_fields table ! i)) = PB_HTYPE_REQUIRED then 1 else 0)"
  by (simp add: required_before_def take_Suc_conv_app_nth)

definition no_unions :: "pb_field list \<Rightarrow> bool" where
  "no_unions table \<longleftrightarrow> (\<forall>f \<in> set (message_fields table). PB_HTYPE (ftype f) \<noteq> PB_HTYPE_ONEOF)"

definition iter_in :: "pb_field list \<Rightarrow> u64 \<Rightarrow> pb_field_iter \<Rightarrow> bool" where
  "iter_in table dest iter \<longleftrightarrow> iter_ok iter \<and> start iter = table \<and> dest_struct iter = dest \<and>
     pData iter = field_addr table dest (pos iter) \<and>
     pSize iter = pData iter + scast (size_offset (message_fields table ! pos iter)) \<and>
     required_field_index iter = word_of_nat (required_before table (pos iter))"

lemma layout_nth: "i < length (message_fields table) \<Longrightarrow> fst (message_layout table dest ! i) = message_fields table ! i"
  by (metis layout_fields layout_length nth_map)

lemma field_addr_Suc:
  assumes "Suc i < length (message_fields table)" "no_unions table"
  shows "field_addr table dest (Suc i) = field_addr table dest i + field_extent (message_fields table ! i) +
    ucast (data_offset (message_fields table ! Suc i))"
proof -
  obtain f fs where table: "table = f # fs" "tag f \<noteq> 0"
    using assms(1) by (cases table) (auto simp: message_fields_def split: if_splits)
  have "message_fields table ! i \<in> set (message_fields table)" using assms(1) by simp
  then have "\<not> in_same_union (message_fields table ! i) (message_fields table ! Suc i)"
    using assms(2) by (auto simp: no_unions_def in_same_union_def)
  then show ?thesis
    using layout_from_Suc [of i f "dest + ucast (data_offset f)" fs] assms(1) table
      layout_length [of table dest] layout_nth [of i table dest] layout_nth [of "Suc i" table dest]
    by (simp add: field_addr_def message_layout_def Let_def)
qed

lemma iter_in_begin:
  assumes "terminated table" "message_fields table \<noteq> []"
  shows "\<exists>iter. pb_field_iter_begin table dest = Some (True, iter) \<and> iter_in table dest iter \<and> pos iter = 0"
proof -
  obtain f fs where table: "table = f # fs" "tag f \<noteq> 0"
    using assms(2) by (cases table) (auto simp: message_fields_def split: if_splits)
  have "message_layout table dest ! 0 = (f, dest + ucast (data_offset f))"
    using table by (cases fs) (auto simp: message_layout_def)
  then show ?thesis using table assms
    by (simp add: pb_field_iter_begin_def field_at_def iter_in_def iter_ok_def field_addr_def Let_def
        message_fields_def required_before_def)
qed

lemma iter_in_next:
  assumes "iter_in table dest iter" "no_unions table"
  shows "\<exists>again iter'. pb_field_iter_next iter = Some (again, iter') \<and> iter_in table dest iter' \<and>
    (again \<longleftrightarrow> Suc (pos iter) < length (message_fields table)) \<and>
    pos iter' = (if again then Suc (pos iter) else 0)"
proof -
  let ?fs = "message_fields table" and ?i = "pos iter"
  have ok: "iter_ok iter" "start iter = table" "dest_struct iter = dest" "?i < length ?fs" "terminated table"
    using assms(1) by (auto simp: iter_in_def iter_ok_def)
  note here = message_fields_nth [OF ok(4)]
  have mem: "?fs ! ?i \<in> set ?fs" using ok(4) by simp
  then have nu: "PB_HTYPE (ftype (?fs ! ?i)) \<noteq> PB_HTYPE_ONEOF" using assms(2) by (simp add: no_unions_def)
  show ?thesis
  proof (cases "Suc ?i < length ?fs")
    case True
    note g = message_fields_nth [OF True]
    let ?d = "pData iter + field_extent (?fs ! ?i) + ucast (data_offset (?fs ! Suc ?i))"
    let ?next = "if PB_HTYPE (ftype (?fs ! ?i)) = PB_HTYPE_REQUIRED
      then iter\<lparr>pos := pos iter + 1, required_field_index := required_field_index iter + 1\<rparr>
      else iter\<lparr>pos := pos iter + 1\<rparr>"
    let ?iter = "?next\<lparr>pData := ?d, pSize := ?d + scast (size_offset (?fs ! Suc ?i))\<rparr>"
    have "pb_field_iter_next iter = Some (True, ?iter)"
      using here g nu ok(2,3) by (simp add: pb_field_iter_next_def Let_def field_extent_def)
    moreover have "start ?iter = table" "dest_struct ?iter = dest"
      "pos ?iter = Suc ?i" "pData ?iter = ?d" "pSize ?iter = ?d + scast (size_offset (?fs ! Suc ?i))"
      "required_field_index ?iter = required_field_index iter +
        (if PB_HTYPE (ftype (?fs ! ?i)) = PB_HTYPE_REQUIRED then 1 else 0)"
      using ok(2,3) by simp_all
    ultimately obtain iter' where n: "pb_field_iter_next iter = Some (True, iter')" "start iter' = table"
      "dest_struct iter' = dest" "pos iter' = Suc ?i" "pData iter' = ?d" "pSize iter' = ?d + scast (size_offset (?fs ! Suc ?i))"
      "required_field_index iter' = required_field_index iter +
        (if PB_HTYPE (ftype (?fs ! ?i)) = PB_HTYPE_REQUIRED then 1 else 0)"
      by blast
    then have "iter_in table dest iter'" using assms(1) True ok(5) field_addr_Suc [OF True assms(2)] required_before_Suc [OF ok(4)]
      by (simp add: iter_in_def iter_ok_def)
    then show ?thesis using n True by auto
  next
    case False
    then have "Suc ?i = length ?fs" using ok(4) by simp
    then obtain g where g: "field_at table (Suc ?i) = Some g" "tag g = 0" using terminator_at [OF ok(5)] by metis
    have "?fs \<noteq> []" using ok(4) by auto
    then obtain iter' where "pb_field_iter_begin table dest = Some (True, iter')" "iter_in table dest iter'" "pos iter' = 0"
      using iter_in_begin [OF ok(5)] by blast
    then show ?thesis using False here g ok(2,3) by (auto simp: pb_field_iter_next_def)
  qed
qed

lemma find_loop_in:
  assumes "find_loop iter s t = Some r" "iter_in table dest iter" "no_unions table"
  shows "iter_in table dest (snd r)"
proof -
  let ?P = "\<lambda>iter (s :: nat) (t :: u32) r. iter_in table dest iter \<longrightarrow> iter_in table dest (snd (r :: bool \<times> pb_field_iter))"
  have "?P iter s t r"
  proof (rule find_loop.raw_induct [where P = ?P, OF _ assms(1)], intro impI)
    fix loop iter s t r
    assume ih: "\<And>iter s t y. loop iter s t = Some y \<Longrightarrow> ?P iter s t y"
      and body: "Option.bind (field_at (start iter) (pos iter)) (\<lambda>f.
        if tag f = t \<and> PB_LTYPE (ftype f) \<noteq> PB_LTYPE_EXTENSION then Some (True, iter)
        else Option.bind (pb_field_iter_next iter) (\<lambda>r. case r of (b, iter) \<Rightarrow>
          if pos iter \<noteq> s then loop iter s t else Some (False, iter))) = Some r"
      and it: "iter_in table dest iter"
    obtain again iter' where n: "pb_field_iter_next iter = Some (again, iter')" "iter_in table dest iter'"
      using iter_in_next [OF it assms(3)] by blast
    show "iter_in table dest (snd r)"
      using body n it ih [of iter' s t r] by (auto simp: bind_eq_Some_conv split: if_splits)
  qed
  then show ?thesis using assms(2) by simp
qed

lemma iter_in_ok: "iter_in table dest iter \<Longrightarrow>
    start iter = table \<and> terminated (start iter) \<and> pos iter < length (message_fields (start iter))"
  by (auto simp: iter_in_def iter_ok_def)

text \<open>A table for the theorems below: fields with different numbers, no extension and no union.\<close>

definition plain_table :: "pb_field list \<Rightarrow> bool" where
  "plain_table table \<longleftrightarrow> terminated table \<and> message_fields table \<noteq> [] \<and> no_unions table \<and>
     distinct (map tag (message_fields table)) \<and>
     (\<forall>f \<in> set (message_fields table). PB_LTYPE (ftype f) \<noteq> PB_LTYPE_EXTENSION)"

lemma find_in:
  assumes "iter_in table dest iter" "no_unions table"
  shows "\<exists>found iter'. pb_field_iter_find iter t = Some (found, iter') \<and> iter_in table dest iter' \<and>
    (found \<longleftrightarrow> (\<exists>f \<in> set (message_fields table). field_matches t f)) \<and>
    (if found then pos iter' < length (message_fields table) \<and>
       field_matches t (message_fields table ! pos iter') else pos iter' = pos iter)"
proof -
  have st: "start iter = table" and ok: "terminated (start iter)" "pos iter < length (message_fields (start iter))"
    using iter_in_ok [OF assms(1)] by blast+
  obtain found iter' where
    f: "pb_field_iter_find iter t = Some (found, iter')"
    "found \<longleftrightarrow> (\<exists>f \<in> set (message_fields table). field_matches t f)"
    "if found then pos iter' < length (message_fields table) \<and>
       field_matches t (message_fields table ! pos iter') else pos iter' = pos iter"
    using pb_field_iter_find_total [OF ok, of t] unfolding st by blast
  moreover have "iter_in table dest iter'"
    using find_loop_in [of iter "pos iter" t "(found, iter')"] f(1) assms by (simp add: pb_field_iter_find_def)
  ultimately show ?thesis by blast
qed

lemma find_known:
  assumes "plain_table table" "iter_in table dest iter" "i < length (message_fields table)"
  shows "\<exists>iter'. pb_field_iter_find iter (tag (message_fields table ! i)) = Some (True, iter') \<and>
    iter_in table dest iter' \<and> pos iter' = i"
proof -
  let ?fs = "message_fields table"
  note p = assms(1) [unfolded plain_table_def]
  obtain found iter' where f: "pb_field_iter_find iter (tag (?fs ! i)) = Some (found, iter')" "iter_in table dest iter'"
    "found \<longleftrightarrow> (\<exists>f \<in> set ?fs. field_matches (tag (?fs ! i)) f)"
    "if found then pos iter' < length ?fs \<and> field_matches (tag (?fs ! i)) (?fs ! pos iter') else pos iter' = pos iter"
    using find_in [OF assms(2), of "tag (?fs ! i)"] p by blast
  have "field_matches (tag (?fs ! i)) (?fs ! i)" using p assms(3) by (auto simp: field_matches_def)
  then have found using f(3) assms(3) by auto
  then have "pos iter' = i"
    using f(4) p assms(3) nth_eq_iff_index_eq [of "map tag ?fs" "pos iter'" i] by (auto simp: field_matches_def)
  then show ?thesis using f(1,2) \<open>found\<close> by auto
qed

lemma find_unknown:
  assumes "plain_table table" "iter_in table dest iter" "t \<notin> tag ` set (message_fields table)"
  shows "\<exists>iter'. pb_field_iter_find iter t = Some (False, iter') \<and> iter_in table dest iter'"
proof -
  have "\<not> (\<exists>f \<in> set (message_fields table). field_matches t f)" using assms(3) by (auto simp: field_matches_def)
  then show ?thesis using find_in [OF assms(2), of t] assms(1) by (auto simp: plain_table_def)
qed

text \<open>Without extensions their search goes round the table like that for a number no field has.\<close>

lemma find_extension_loop_none:
  assumes "find_loop iter s t = Some r" "iter_in table dest iter" "plain_table table" "t \<notin> tag ` set (message_fields table)"
  shows "find_extension_loop iter s = Some r"
proof -
  let ?P = "\<lambda>iter s (t' :: u32) r. t' = t \<longrightarrow> iter_in table dest iter \<longrightarrow> find_extension_loop iter s = Some r"
  note p = assms(3) [unfolded plain_table_def]
  have "?P iter s t r"
  proof (rule find_loop.raw_induct [where P = ?P, OF _ assms(1)], intro impI)
    fix loop iter s t' r
    assume ih: "\<And>iter s t y. loop iter s t = Some y \<Longrightarrow> ?P iter s t y"
      and body: "Option.bind (field_at (start iter) (pos iter)) (\<lambda>f.
        if tag f = t' \<and> PB_LTYPE (ftype f) \<noteq> PB_LTYPE_EXTENSION then Some (True, iter)
        else Option.bind (pb_field_iter_next iter) (\<lambda>r. case r of (b, iter) \<Rightarrow>
          if pos iter \<noteq> s then loop iter s t' else Some (False, iter))) = Some r"
      and it: "iter_in table dest iter" and t: "t' = t"
    have i: "start iter = table" "pos iter < length (message_fields table)" using iter_in_ok [OF it] by auto
    note here = message_fields_nth [OF i(2)]
    have f: "message_fields table ! pos iter \<in> set (message_fields table)" using i(2) by simp
    then have g: "PB_LTYPE (ftype (message_fields table ! pos iter)) \<noteq> PB_LTYPE_EXTENSION"
      "tag (message_fields table ! pos iter) \<noteq> t" using p assms(4) by auto
    obtain again iter' where n: "pb_field_iter_next iter = Some (again, iter')" "iter_in table dest iter'"
      using iter_in_next [OF it] p by blast
    have "(if pos iter' \<noteq> s then loop iter' s t else Some (False, iter')) = Some r"
      using body n here i(1) g unfolding t by simp
    then have "(if pos iter' \<noteq> s then find_extension_loop iter' s else Some (False, iter')) = Some r"
      using ih [of iter' s t] n(2) by (simp split: if_splits)
    then show "find_extension_loop iter s = Some r"
      using n here i(1) g by (subst find_extension_loop.simps) simp
  qed
  then show ?thesis using assms(2) by simp
qed

lemma find_no_extension:
  assumes "plain_table table" "iter_in table dest iter" "t \<notin> tag ` set (message_fields table)"
  shows "\<exists>iter'. find_extension_field iter = Some (False, iter') \<and> iter_in table dest iter'"
  using find_unknown [OF assms] find_extension_loop_none [OF _ assms(2,1,3), of "pos iter"]
  by (auto simp: pb_field_iter_find_def find_extension_field_def)

section \<open>Required fields\<close>

text \<open>The words \<open>fields_seen\<close> represent a set of indices below 64.\<close>

definition seen_is :: "u32 list \<Rightarrow> nat set \<Rightarrow> bool" where
  "seen_is seen P \<longleftrightarrow> length seen = 2 \<and> (\<forall>j < 2. \<forall>b < 32. bit (seen ! j) b \<longleftrightarrow> 32 * j + b \<in> P)"

lemma seen_none: "seen_is [0, 0] {}"
  by (simp add: seen_is_def less_Suc_eq numeral_2_eq_2)

lemma index_word: "unat (i AND 31 :: u32) = unat i mod 32" "unat (drop_bit 5 i :: u32) = unat i div 32"
proof -
  have "i AND mask 5 = i mod 2 ^ 5" by (simp add: take_bit_eq_mask [symmetric] take_bit_eq_mod)
  then show "unat (i AND 31) = unat i mod 32" by (simp add: mask_eq_exp_minus_1 unat_mod)
  show "unat (drop_bit 5 i) = unat i div 32" by (simp add: drop_bit_eq_div unat_div)
qed

lemma seen_insert:
  assumes "seen_is seen P" "unat (i :: u32) < 64"
  shows "seen_is (seen[unat (drop_bit 5 i) := seen ! unat (drop_bit 5 i) OR push_bit (unat (i AND 31)) 1])
    (insert (unat i) P)"
proof -
  have lt: "unat i div 32 < 2" using assms(2) by auto
  have "bit (push_bit (unat i mod 32) 1 :: u32) b \<longleftrightarrow> b = unat i mod 32" if "b < 32" for b
    using that by (auto simp: bit_simps)
  moreover have "32 * j + b = unat i \<longleftrightarrow> j = unat i div 32 \<and> b = unat i mod 32" if b: "b < 32" for j b
  proof
    assume "32 * j + b = unat i"
    from this [symmetric] b show "j = unat i div 32 \<and> b = unat i mod 32" by simp
  qed simp
  ultimately show ?thesis using assms(1) lt
    by (auto simp: seen_is_def index_word nth_list_update bit_or_iff)
qed

lemma word_ones: "(w :: u32) = 0xFFFFFFFF \<longleftrightarrow> (\<forall>b < 32. bit w b)"
proof -
  have "(0xFFFFFFFF :: u32) = -1" by simp
  then show ?thesis by (auto simp: bit_eq_iff)
qed

lemma word_low_ones: "r < 32 \<Longrightarrow> (w :: u32) = drop_bit (32 - r) 0xFFFFFFFF \<longleftrightarrow> (\<forall>b < 32. bit w b \<longleftrightarrow> b < r)"
proof -
  assume r: "r < 32"
  have o: "(0xFFFFFFFF :: u32) = -1" by simp
  have "bit (drop_bit (32 - r) 0xFFFFFFFF :: u32) b \<longleftrightarrow> b < r" for b
    using r unfolding o by (auto simp: bit_simps)
  then show ?thesis by (auto simp: bit_eq_iff)
qed

lemma required_missing_iff:
  assumes "seen_is seen P" "P \<subseteq> {..<R}" "R \<le> 64"
  shows "required_missing seen (word_of_nat R) \<longleftrightarrow> \<not> {..<R} \<subseteq> P"
proof -
  let ?q = "R div 32" and ?r = "R mod 32"
  have u: "unat (word_of_nat R :: u32) = R" using assms(3) by (simp add: unat_of_nat)
  then have le: "\<not> (word_of_nat R :: u32) > 64" using assms(3) by (simp add: word_less_nat_alt)
  have pos: "(word_of_nat R :: u32) > 0 \<longleftrightarrow> R > 0" using u by (simp add: word_less_nat_alt)
  have rest: "(word_of_nat R :: u32) AND 31 \<noteq> 0 \<longleftrightarrow> ?r \<noteq> 0"
    using index_word(1) [of "word_of_nat R"] u by (metis unat_eq_zero)
  have q: "?q < 2 \<or> ?r = 0" using assms(3) by presburger
  have miss: "required_missing seen (word_of_nat R) \<longleftrightarrow> R > 0 \<and>
      ((\<exists>i < ?q. \<exists>b < 32. 32 * i + b \<notin> P) \<or> ?r \<noteq> 0 \<and> (\<exists>b < 32. (32 * ?q + b \<in> P) \<noteq> (b < ?r)))"
  proof -
    have "seen ! i \<noteq> 0xFFFFFFFF \<longleftrightarrow> (\<exists>b < 32. 32 * i + b \<notin> P)" if "i < ?q" for i
      using that assms by (auto simp: seen_is_def word_ones)
    moreover have "seen ! ?q \<noteq> drop_bit (32 - ?r) 0xFFFFFFFF \<longleftrightarrow> (\<exists>b < 32. (32 * ?q + b \<in> P) \<noteq> (b < ?r))"
      if "?r \<noteq> 0"
      using that q assms(1) by (auto simp: seen_is_def word_low_ones)
    ultimately show ?thesis
      unfolding required_missing_def Let_def if_not_P [OF le] pos rest index_word u by blast
  qed
  show ?thesis
  proof
    assume "required_missing seen (word_of_nat R)"
    then consider i b where "i < ?q" "b < 32" "32 * i + b \<notin> P" | b where "b < 32" "(32 * ?q + b \<in> P) \<noteq> (b < ?r)"
      unfolding miss by blast
    then show "\<not> {..<R} \<subseteq> P"
    proof cases
      case 1
      then have "32 * i + b < R" by auto
      then show ?thesis using 1(3) by auto
    next
      case 2
      have "b < ?r \<longleftrightarrow> 32 * ?q + b < R" using mult_div_mod_eq [of 32 R] by linarith
      then show ?thesis using 2 assms(2) by auto
    qed
  next
    assume "\<not> {..<R} \<subseteq> P"
    then obtain k where k: "k < R" "k \<notin> P" by auto
    have e: "32 * (k div 32) + k mod 32 = k" by simp
    show "required_missing seen (word_of_nat R)"
    proof (cases "k div 32 < ?q")
      case True
      then show ?thesis using k e unfolding miss by (metis gr_implies_not0 mod_less_divisor not_gr_zero zero_less_numeral)
    next
      case False
      then have "k div 32 = ?q" using div_le_mono [of k R 32] k(1) by simp
      moreover from this have "k mod 32 < ?r" using k(1) e by (metis mult_div_mod_eq nat_add_left_cancel_less)
      ultimately show ?thesis using k e unfolding miss
        by (metis gr_implies_not0 mod_less_divisor not_gr_zero zero_less_numeral)
    qed
  qed
qed

text \<open>Walking to the end of the table counts the required fields.\<close>

definition required_total :: "pb_field list \<Rightarrow> nat" where
  "required_total table = required_before table (length (message_fields table))"

lemma required_before_le: "required_before table i \<le> required_total table"
proof -
  have "take i (message_fields table) @ drop i (message_fields table) = message_fields table" by simp
  then have "required_total table = required_before table i +
      length (filter (\<lambda>f. PB_HTYPE (ftype f) = PB_HTYPE_REQUIRED) (drop i (message_fields table)))"
    unfolding required_total_def required_before_def by (metis filter_append length_append order_refl take_all)
  then show ?thesis by simp
qed

lemma count_required_in:
  assumes "iter_in table dest iter" "no_unions table"
  shows "\<exists>n last iter'. count_required iter = Some (n, last, iter') \<and>
    iter_in table dest iter' \<and> (let l = message_fields table ! (length (message_fields table) - 1) in
      last = ftype l \<and> n + (if PB_HTYPE last = PB_HTYPE_REQUIRED then 1 else 0) = word_of_nat (required_total table))"
  using assms(1)
proof (induction "length (message_fields table) - pos iter" arbitrary: iter rule: less_induct)
  case less
  let ?fs = "message_fields table"
  have i: "start iter = table" "pos iter < length ?fs" using iter_in_ok [OF less.prems] by auto
  note here = message_fields_nth [OF i(2)]
  have idx: "required_field_index iter = word_of_nat (required_before table (pos iter))"
    using less.prems by (simp add: iter_in_def)
  obtain again iter' where n: "pb_field_iter_next iter = Some (again, iter')" "iter_in table dest iter'"
    "again \<longleftrightarrow> Suc (pos iter) < length ?fs" "pos iter' = (if again then Suc (pos iter) else 0)"
    using iter_in_next [OF less.prems assms(2)] by blast
  show ?case
  proof (cases again)
    case True
    then have "length ?fs - pos iter' < length ?fs - pos iter" using n(3,4) by auto
    from less.hyps [OF this n(2)] show ?thesis
      using here i(1) n(1) True by (subst count_required.simps) simp
  next
    case False
    then have l: "length ?fs = Suc (pos iter)" using n(3) i(2) by simp
    have "count_required iter = Some (required_field_index iter, ftype (?fs ! pos iter), iter')"
      using here i(1) n(1) False by (subst count_required.simps) simp
    then show ?thesis using n(2) required_before_Suc [OF i(2)] idx
      by (simp add: l required_total_def)
  qed
qed

end
