(* ===== verification/Pb_Items.thy ===== *)
theory Pb_Items
  imports Pb_Table
begin

text \<open>
  A specification of the message decoder for static fields of one value: the input is a list of items,
  each with an encoding and an effect on the memory, messages inside messages and unknown fields
  included.  One step of the decoder's loop takes one item; by induction on the nesting depth, the
  decoder does to the memory what the items say.
\<close>

lemma word_of_unat: "unat w = k \<Longrightarrow> w = word_of_nat k" for w :: "'a :: len word"
  by auto

section \<open>What a value looks like\<close>

text \<open>\<open>img\<close> are the bytes in memory of a value in a static field, a string with its terminator and bytes
  with their count; \<open>image_wire\<close> is its encoding.\<close>

definition image_wire :: "pb_field \<Rightarrow> byte list \<Rightarrow> byte list option" where
  "image_wire f img =
     (let t = PB_LTYPE (ftype f); n = unat (data_size f) in
      if scalar_value t (data_size f) img then Some (scalar_wire (block 0 img) t (data_size f) 0 img)
      else if t = PB_LTYPE_STRING \<and> img \<noteq> [] \<and> last img = 0 \<and> length img \<le> n then delimited (butlast img)
      else if t = PB_LTYPE_BYTES \<and> 4 \<le> length img \<and> length img \<le> n \<and> take 4 img = le_bytes 4 (length img - 4)
      then delimited (drop 4 img)
      else if t = PB_LTYPE_FIXED_LENGTH_BYTES \<and> img \<noteq> [] \<and> length img = n then delimited img
      else None)"

lemma image_wire_cases:
  assumes "image_wire f img = Some xs"
  obtains "scalar_value (PB_LTYPE (ftype f)) (data_size f) img"
      "xs = scalar_wire (block 0 img) (PB_LTYPE (ftype f)) (data_size f) 0 img"
  | bs where "PB_LTYPE (ftype f) = PB_LTYPE_STRING" "img = bs @ [0]" "length img \<le> unat (data_size f)"
      "xs = uleb_encode (length bs) @ bs"
  | bs where "PB_LTYPE (ftype f) = PB_LTYPE_BYTES" "img = le_bytes 4 (length bs) @ bs" "length img \<le> unat (data_size f)"
      "xs = uleb_encode (length bs) @ bs"
  | "PB_LTYPE (ftype f) = PB_LTYPE_FIXED_LENGTH_BYTES" "img \<noteq> []" "length img = unat (data_size f)"
      "xs = uleb_encode (length img) @ img"
proof (cases "scalar_value (PB_LTYPE (ftype f)) (data_size f) img")
  case True
  then show ?thesis using assms that(1) by (simp add: image_wire_def)
next
  case False
  note a = assms [unfolded image_wire_def Let_def if_not_P [OF False] delimited_def]
  from a consider "PB_LTYPE (ftype f) = PB_LTYPE_STRING \<and> img \<noteq> [] \<and> last img = 0 \<and> length img \<le> unat (data_size f)"
    | "PB_LTYPE (ftype f) = PB_LTYPE_BYTES \<and> 4 \<le> length img \<and> length img \<le> unat (data_size f) \<and>
        take 4 img = le_bytes 4 (length img - 4)"
    | "PB_LTYPE (ftype f) = PB_LTYPE_FIXED_LENGTH_BYTES \<and> img \<noteq> [] \<and> length img = unat (data_size f)"
    by (auto split: if_splits)
  then show ?thesis
  proof cases
    case 1
    then show ?thesis using a that(2) [of "butlast img"] append_butlast_last_id [of img]
      by (auto split: if_splits)
  next
    case 2
    then show ?thesis using a that(3) [of "drop 4 img"] append_take_drop_id [of 4 img]
      by (auto simp: pb_ltypes split: if_splits)
  next
    case 3
    then show ?thesis using a that(4) by (auto simp: pb_ltypes split: if_splits)
  qed
qed

lemma image_length: "image_wire f img = Some xs \<Longrightarrow> length img \<le> unat (data_size f)"
  by (erule image_wire_cases) (auto simp: scalar_value_def)

lemma image_bound: "image_wire f img = Some xs \<Longrightarrow> length img < 2 ^ 32"
  using image_length unat_u32_less [of "data_size f"] by fastforce

lemma uleb_length_image: "image_wire f img = Some xs \<Longrightarrow> n \<le> length img \<Longrightarrow> length (uleb_encode n) \<le> 10"
  using image_bound [of f img xs] by (intro uleb_length_le) simp_all

lemma image_wire_length:
  assumes "image_wire f img = Some xs"
  shows "length xs \<le> length img + 10"
  using assms
proof (cases rule: image_wire_cases)
  case 1
  then show ?thesis using scalar_wire_length [OF 1(1)] by (simp add: trans_le_add2)
next
  case (2 bs)
  then show ?thesis using uleb_length_image [OF assms, of "length bs"] by simp
next
  case (3 bs)
  then show ?thesis using uleb_length_image [OF assms, of "length bs"] by simp
next
  case 4
  then show ?thesis using uleb_length_image [OF assms, of "length img"] by simp
qed

lemma decoder_of:
  "PB_DECODERS ra sub PB_LTYPE_STRING = Some (pb_dec_string ra)"
  "PB_DECODERS ra sub PB_LTYPE_BYTES = Some (pb_dec_bytes ra)"
  "PB_DECODERS ra sub PB_LTYPE_FIXED_LENGTH_BYTES = Some (\<lambda>S. pb_dec_fixed_length_bytes S)"
  "PB_DECODERS ra sub PB_LTYPE_SUBMESSAGE = Some sub"
  by (simp_all add: PB_DECODERS_def pb_ltypes)

context pb_input begin

lemma read_into_deliver:
  assumes "at_input stream (xs @ ys) n" "length xs = unat count" "length xs \<le> n"
    and "store_bytes m p xs = Some m'"
  shows "\<exists>stream'. read_into S stream m p count = Some (True, stream', m') \<and>
    at_input stream' ys (n - length xs) \<and> ierrmsg stream' = ierrmsg stream"
  using pb_read_deliver [OF assms(1-3), of True] assms(4) by (auto simp: read_into_def)

text \<open>A string with its length: first the length, then the bytes.\<close>

lemma delimited_deliver:
  assumes "at_input stream ((uleb_encode (length bs) @ bs) @ ys) n" "length (uleb_encode (length bs) @ bs) \<le> n"
    and "length bs < 2 ^ 32"
  obtains stream' where "pb_decode_varint32 S stream = Some (Some (word_of_nat (length bs)), stream')"
    "at_input stream' (bs @ ys) (n - length (uleb_encode (length bs)))" "ierrmsg stream' = ierrmsg stream"
    "length bs \<le> n - length (uleb_encode (length bs))"
  using pb_decode_varint32_value [of stream "length bs" "bs @ ys" n] assms by fastforce

lemma string_fills:
  assumes "PB_ATYPE (ftype f) = PB_ATYPE_STATIC" "length bs + 1 \<le> unat (data_size f)" "mapped m dest (length bs + 1)"
  shows "fills (\<lambda>stream. pb_dec_string ra S stream m f dest) (uleb_encode (length bs) @ bs) (overwrite m dest (bs @ [0]))"
  unfolding fills_def
proof (intro allI impI)
  fix stream ys n
  assume a: "at_input stream ((uleb_encode (length bs) @ bs) @ ys) n" "length (uleb_encode (length bs) @ bs) \<le> n"
  have lt: "Suc (length bs) < 2 ^ 32" using assms(2) unat_u32_less [of "data_size f"] by simp
  let ?n = "word_of_nat (length bs) :: u32"
  have n: "unat ?n = length bs" "unat (?n + 1) = length bs + 1" "unat (ucast ?n :: u64) = length bs"
    "unat (ucast (?n + 1) :: u64) = length bs + 1"
  proof -
    show "unat ?n = length bs" using lt by (simp add: unat_of_nat)
    have "?n + 1 = word_of_nat (length bs + 1)" by simp
    then show u: "unat (?n + 1) = length bs + 1" using lt unat_u32 [of "length bs + 1"] by (simp add: add.commute)
    show "unat (ucast ?n :: u64) = length bs" using lt by (intro length_word) simp
    show "unat (ucast (?n + 1) :: u64) = length bs + 1" unfolding u [symmetric] by (rule unat_ucast_up) simp
  qed
  obtain s1 where s1: "pb_decode_varint32 S stream = Some (Some ?n, s1)"
    "at_input s1 (bs @ ys) (n - length (uleb_encode (length bs)))" "ierrmsg s1 = ierrmsg stream"
    "length bs \<le> n - length (uleb_encode (length bs))"
    using delimited_deliver [OF a] lt by auto
  have st: "store_bytes m dest bs = Some (overwrite m dest bs)"
    "store_bytes (overwrite m dest bs) (dest + word_of_nat (length bs)) [0] = Some (overwrite m dest (bs @ [0]))"
    using store_overwrite [of m dest "length bs + 1" "[]" bs] store_overwrite [of m dest "length bs + 1" bs "[0]"] assms(3)
    by simp_all
  obtain s2 where s2: "read_into S s1 m dest (ucast ?n) = Some (True, s2, overwrite m dest bs)"
    "at_input s2 ys (n - length (uleb_encode (length bs)) - length bs)" "ierrmsg s2 = ierrmsg s1"
    using read_into_deliver [OF s1(2) _ s1(4) st(1), of "ucast ?n"] n(3) by auto
  have c: "\<not> ucast (?n + 1) < (ucast ?n :: u64)" "\<not> ucast (?n + 1) > (ucast (data_size f) :: u64)"
    using n assms(2) by (simp_all add: word_less_nat_alt unat_ucast_up)
  have w: "ucast ?n = (word_of_nat (length bs) :: u64)" using n(3) by (rule word_of_unat)
  show "\<exists>stream'. pb_dec_string ra S stream m f dest = Some (True, stream', overwrite m dest (bs @ [0])) \<and>
      at_input stream' ys (n - length (uleb_encode (length bs) @ bs)) \<and> ierrmsg stream' = ierrmsg stream"
    using s1 s2 c assms(1) st(2) w by (simp add: pb_dec_string_def pb_atypes)
qed

lemma bytes_fills:
  assumes "PB_ATYPE (ftype f) = PB_ATYPE_STATIC" "length bs + 4 \<le> unat (data_size f)" "mapped m dest (length bs + 4)"
  shows "fills (\<lambda>stream. pb_dec_bytes ra S stream m f dest) (uleb_encode (length bs) @ bs)
    (overwrite m dest (le_bytes 4 (length bs) @ bs))"
  unfolding fills_def
proof (intro allI impI)
  fix stream ys n
  assume a: "at_input stream ((uleb_encode (length bs) @ bs) @ ys) n" "length (uleb_encode (length bs) @ bs) \<le> n"
  have lt: "length bs + 4 < 2 ^ 32" using assms(2) unat_u32_less [of "data_size f"] by simp
  let ?n = "word_of_nat (length bs) :: u32" and ?l = "le_bytes 4 (length bs)"
  have n: "unat ?n = length bs" using lt by (intro unat_u32) simp
  have n64: "unat (ucast ?n :: u64) = length bs" using lt by (intro length_word) simp
  then have "(ucast ?n :: u64) + 4 = word_of_nat (length bs + 4)" using word_of_unat by fastforce
  then have n4: "unat ((ucast ?n :: u64) + 4) = length bs + 4" using lt by (simp only: unat_of_nat) simp
  obtain s1 where s1: "pb_decode_varint32 S stream = Some (Some ?n, s1)"
    "at_input s1 (bs @ ys) (n - length (uleb_encode (length bs)))" "ierrmsg s1 = ierrmsg stream"
    "length bs \<le> n - length (uleb_encode (length bs))"
    using delimited_deliver [OF a] lt by auto
  have st: "store_word m dest 4 ?n = Some (overwrite m dest ?l)"
    "store_bytes (overwrite m dest ?l) (dest + 4) bs = Some (overwrite m dest (?l @ bs))"
    using store_overwrite [of m dest "length bs + 4" "[]" ?l] store_overwrite [of m dest "length bs + 4" ?l bs] assms(3) n
    by (simp_all add: store_word_def)
  obtain s2 where s2: "read_into S s1 (overwrite m dest ?l) (dest + 4) (ucast ?n) = Some (True, s2, overwrite m dest (?l @ bs))"
    "at_input s2 ys (n - length (uleb_encode (length bs)) - length bs)" "ierrmsg s2 = ierrmsg s1"
    using read_into_deliver [OF s1(2) _ s1(4) st(2), of "ucast ?n"] n64 by auto
  have c: "\<not> (ucast ?n :: u64) + 4 < ucast ?n" "\<not> (ucast ?n :: u64) + 4 > ucast (data_size f)"
    using n64 n4 assms(2) by (simp_all add: word_less_nat_alt unat_ucast_up)
  show "\<exists>stream'. pb_dec_bytes ra S stream m f dest = Some (True, stream', overwrite m dest (?l @ bs)) \<and>
      at_input stream' ys (n - length (uleb_encode (length bs) @ bs)) \<and> ierrmsg stream' = ierrmsg stream"
    using s1 s2 c assms(1) st(1) by (simp add: pb_dec_bytes_def pb_atypes)
qed

lemma fixed_length_fills:
  assumes "bs \<noteq> []" "length bs = unat (data_size f)" "mapped m dest (length bs)"
  shows "fills (\<lambda>stream. pb_dec_fixed_length_bytes S stream m f dest) (uleb_encode (length bs) @ bs) (overwrite m dest bs)"
  unfolding fills_def
proof (intro allI impI)
  fix stream ys n
  assume a: "at_input stream ((uleb_encode (length bs) @ bs) @ ys) n" "length (uleb_encode (length bs) @ bs) \<le> n"
  have lt: "length bs < 2 ^ 32" using assms(2) unat_u32_less [of "data_size f"] by simp
  have n: "word_of_nat (length bs) = data_size f" using assms(2) word_of_unat by metis
  then have nz: "data_size f \<noteq> 0" using assms(1,2) by auto
  obtain s1 where s1: "pb_decode_varint32 S stream = Some (Some (data_size f), s1)"
    "at_input s1 (bs @ ys) (n - length (uleb_encode (length bs)))" "ierrmsg s1 = ierrmsg stream"
    "length bs \<le> n - length (uleb_encode (length bs))"
    using delimited_deliver [OF a lt] n by auto
  have "length bs = unat (ucast (data_size f) :: u64)" using assms(2) by (simp add: unat_ucast_up)
  then obtain s2 where "read_into S s1 m dest (ucast (data_size f)) = Some (True, s2, overwrite m dest bs)"
    "at_input s2 ys (n - length (uleb_encode (length bs)) - length bs)" "ierrmsg s2 = ierrmsg s1"
    using read_into_deliver [OF s1(2) _ s1(4) store_mapped [OF assms(3)]] by auto
  then show "\<exists>stream'. pb_dec_fixed_length_bytes S stream m f dest = Some (True, stream', overwrite m dest bs) \<and>
      at_input stream' ys (n - length (uleb_encode (length bs) @ bs)) \<and> ierrmsg stream' = ierrmsg stream"
    using s1 nz by (simp add: pb_dec_fixed_length_bytes_def)
qed

lemma image_fills:
  assumes "image_wire f img = Some xs" "PB_ATYPE (ftype f) = PB_ATYPE_STATIC" "mapped m dest (length img)"
  shows "\<exists>dec. PB_DECODERS ra sub (PB_LTYPE (ftype f)) = Some dec \<and>
    fills (\<lambda>stream. dec S stream m f dest) xs (overwrite m dest img)"
  using assms(1)
proof (cases rule: image_wire_cases)
  case 1
  have len: "length img = unat (data_size f)" using 1(1) by (simp add: scalar_value_def)
  have "read_map (block 0 img) 0 (unat (data_size f)) = Some img"
    using len image_bound [OF assms(1)] by (intro read_map_block) simp_all
  from scalar_fills [OF 1(1) this] assms(3) len 1(2) show ?thesis by simp
next
  case (2 bs)
  then show ?thesis using string_fills [OF assms(2), of bs] assms(3) by (simp add: decoder_of)
next
  case (3 bs)
  then show ?thesis using bytes_fills [OF assms(2), of bs] assms(3) by (simp add: decoder_of add.commute)
next
  case 4
  then show ?thesis using fixed_length_fills [OF 4(2,3)] assms(3) by (simp add: decoder_of)
qed

end

section \<open>One step of the message loop\<close>

definition required_at :: "pb_field list \<Rightarrow> nat \<Rightarrow> bool" where
  "required_at table i \<longleftrightarrow> i < length (message_fields table) \<and> PB_HTYPE (ftype (message_fields table ! i)) = PB_HTYPE_REQUIRED"

text \<open>A required field has its own index below the total.\<close>

lemma required_index_less:
  assumes "required_at table i"
  shows "required_before table i < required_total table"
  using required_before_Suc [of i table] required_before_le [of table "Suc i"] assms by (simp add: required_at_def)

text \<open>A static field that holds one value, and the mark of an optional one.\<close>

definition single_field :: "pb_field \<Rightarrow> bool" where
  "single_field f \<longleftrightarrow> PB_ATYPE (ftype f) = PB_ATYPE_STATIC \<and> unat (tag f) < 2 ^ 29 \<and>
     (PB_HTYPE (ftype f) = PB_HTYPE_REQUIRED \<or> PB_HTYPE (ftype f) = PB_HTYPE_OPTIONAL)"

definition has_mark :: "pb_field \<Rightarrow> bool" where
  "has_mark f \<longleftrightarrow> PB_HTYPE (ftype f) = PB_HTYPE_OPTIONAL \<and> size_offset f \<noteq> 0"

definition mark_present :: "pb_field list \<Rightarrow> u64 \<Rightarrow> nat \<Rightarrow> memory \<Rightarrow> memory" where
  "mark_present table dest i m =
     (let f = message_fields table ! i in
      if has_mark f then overwrite m (field_addr table dest i + scast (size_offset f)) [1] else m)"

lemma mapped_overwrite: "mapped m q n \<Longrightarrow> mapped (overwrite m p bs) q n"
  by (simp add: mapped_def overwrite_def)

lemma mapped_mark: "mapped m q n \<Longrightarrow> mapped (mark_present table dest i m) q n"
  by (simp add: mark_present_def Let_def mapped_overwrite)

lemma scast_zero: "scast w = (0 :: u64) \<longleftrightarrow> w = 0" for w :: u32
proof
  assume "scast w = (0 :: u64)"
  then have "ucast (scast w :: u64) = (0 :: u32)" by simp
  then show "w = 0" by (simp add: ucast_scast_up)
qed simp

context pb_input begin

definition ready :: "pb_field list \<Rightarrow> u64 \<Rightarrow> nat set \<Rightarrow> byte list \<Rightarrow> nat \<Rightarrow> 'st noinit \<Rightarrow> bool" where
  "ready table dest P ys n st \<longleftrightarrow> iter_in table dest (niter st) \<and> at_input (nstream st) ys n \<and>
     extension_range_start st \<in> {0, 0xFFFFFFFF} \<and> fixed_count_field st = None \<and> seen_is (fields_seen st) P"

lemma static_single:
  assumes "iter_in table dest iter" "pos iter = i" "i < length (message_fields table)"
    and "f = message_fields table ! i" "single_field f"
    and "has_mark f \<Longrightarrow> mapped m (field_addr table dest i + scast (size_offset f)) 1"
    and "PB_DECODERS (pb_realloc env) sub (PB_LTYPE (ftype f)) = Some dec"
  shows "decode_field d env sub S stream m w iter =
    map_option (\<lambda>(ok, s, m). (ok, s, m, iter)) (dec S stream (mark_present table dest i m) f (field_addr table dest i))"
proof -
  have f: "field_at (start iter) (pos iter) = Some f"
    using message_fields_nth [of i table] assms(1-4) iter_in_ok by auto
  have ps: "pData iter = field_addr table dest i" "pSize iter = field_addr table dest i + scast (size_offset f)"
    using assms(1,2,4) by (simp_all add: iter_in_def)
  have mark: "(if has_mark f then store_bytes m (pSize iter) [1] else Some m) = Some (mark_present table dest i m)"
    using store_mapped [OF assms(6)] ps assms(4) by (auto simp: mark_present_def Let_def simp del: store_bytes.simps)
  have ne: "pSize iter \<noteq> pData iter \<longleftrightarrow> size_offset f \<noteq> 0" using ps scast_zero by simp
  show ?thesis
    using f assms(5,7) mark ps(1) ne
    by (auto simp: decode_field_def decode_static_field_def single_field_def has_mark_def pb_htypes pb_atypes)
qed

lemma tag_wire: "unat t < 2 ^ 29 \<Longrightarrow> t \<noteq> 0 \<Longrightarrow> unat w < 8 \<Longrightarrow> at_input stream (tag_bytes t w @ ys) n \<Longrightarrow>
    length (tag_bytes t w) \<le> n \<Longrightarrow>
    \<exists>stream'. pb_decode_tag S stream = Some (True, w, t, False, stream') \<and>
      at_input stream' ys (n - length (tag_bytes t w)) \<and> ierrmsg stream' = ierrmsg stream"
  using pb_decode_tag_deliver [of stream "unat t" "unat w" ys n] unat_eq_zero [of t]
  by (auto simp: tag_bytes_def)

lemma known_step:
  assumes "plain_table table" "required_total table \<le> 64" "i < length (message_fields table)"
    and "f = message_fields table ! i" "single_field f" "unat w < 8"
    and "ready table dest P (tag_bytes (tag f) w @ xs @ ys) n st" "length (tag_bytes (tag f) w @ xs) \<le> n"
    and "has_mark f \<Longrightarrow> mapped (nmem st) (field_addr table dest i + scast (size_offset f)) 1"
    and "PB_DECODERS (pb_realloc env) sub (PB_LTYPE (ftype f)) = Some dec"
    and "fills (\<lambda>s. dec S s (mark_present table dest i (nmem st)) f (field_addr table dest i)) xs m'"
  shows "\<exists>st'. noinit_step d env sub S st = Some (Continue, st') \<and>
    ready table dest (if required_at table i then insert (required_before table i) P else P) ys
      (n - length (tag_bytes (tag f) w @ xs)) st' \<and> nmem st' = m' \<and> ierrmsg (nstream st') = ierrmsg (nstream st)"
proof -
  let ?fs = "message_fields table"
  have it: "iter_in table dest (niter st)" and at: "at_input (nstream st) (tag_bytes (tag f) w @ xs @ ys) n"
    and rest: "extension_range_start st \<in> {0, 0xFFFFFFFF}" "fixed_count_field st = None" "seen_is (fields_seen st) P"
    using assms(7) by (simp_all add: ready_def)
  have t: "tag f \<noteq> 0" using message_fields_nth [OF assms(3)] assms(4) by simp
  have lt: "unat (tag f) < 2 ^ 29" using assms(5) by (simp add: single_field_def)
  have le: "length (tag_bytes (tag f) w) \<le> n" and le2: "length xs \<le> n - length (tag_bytes (tag f) w)"
    using assms(8) by simp_all
  obtain s1 where s1: "pb_decode_tag S (nstream st) = Some (True, w, tag f, False, s1)"
    "at_input s1 (xs @ ys) (n - length (tag_bytes (tag f) w))" "ierrmsg s1 = ierrmsg (nstream st)"
    using tag_wire [OF lt t assms(6) at le] by blast
  obtain iter where iter: "pb_field_iter_find (niter st) (tag f) = Some (True, iter)" "iter_in table dest iter" "pos iter = i"
    using find_known [OF assms(1) it assms(3)] assms(4) by blast
  obtain s2 where s2: "dec S s1 (mark_present table dest i (nmem st)) f (field_addr table dest i) = Some (True, s2, m')"
    "at_input s2 ys (n - length (tag_bytes (tag f) w) - length xs)" "ierrmsg s2 = ierrmsg s1"
    using fillsD [OF assms(11) s1(2) le2] by blast
  have f: "field_at (start iter) (pos iter) = Some f"
    using message_fields_nth [OF assms(3)] iter(2,3) iter_in_ok assms(4) by auto
  have idx: "required_field_index iter = word_of_nat (required_before table i)" using iter(2,3) by (simp add: iter_in_def)
  let ?st = "st\<lparr>nstream := s1, niter := iter\<rparr>"
  have count: "count_fixed slot f ?st = Some (True, ?st)" for slot
    using assms(5) by (auto simp: count_fixed_def single_field_def pb_htypes)
  have seen: "seen_is (fields_seen (note_required f ?st))
      (if required_at table i then insert (required_before table i) P else P) \<and>
    nstream (note_required f ?st) = s1 \<and> nmem (note_required f ?st) = nmem st \<and> niter (note_required f ?st) = iter \<and>
    extension_range_start (note_required f ?st) = extension_range_start st \<and>
    fixed_count_field (note_required f ?st) = None"
  proof (cases "required_at table i")
    case True
    have "required_before table i < 64" using required_index_less [OF True] assms(2) by simp
    then have u: "unat (required_field_index iter) = required_before table i" "required_field_index iter < 64"
      unfolding idx by (simp_all add: unat_of_nat word_less_nat_alt)
    show ?thesis using seen_insert [OF rest(3), of "required_field_index iter"] True u rest assms(4)
        \<open>required_before table i < 64\<close>
      by (simp add: note_required_def required_at_def Let_def)
  next
    case False
    then show ?thesis using rest assms(3,4) by (simp add: note_required_def required_at_def Let_def)
  qed
  have dec: "decode_field d env sub S s1 (nmem st) w iter = Some (True, s2, m', iter)"
    using static_single [OF iter(2,3) assms(3-5,9,10)] s2(1) by simp
  have "known_field d env sub S w ?st =
      Some (Continue, (note_required f ?st)\<lparr>nstream := s2, nmem := m', niter := iter\<rparr>)"
    using f count seen dec by (simp add: known_field_def)
  then show ?thesis using s1 s2 iter seen rest
    by (auto simp: noinit_step_def ready_def)
qed

lemma unknown_step:
  assumes "plain_table table" "t \<notin> tag ` set (message_fields table)" "t \<noteq> 0" "unat t < 2 ^ 29" "unat w < 8" "wire_value w bs"
    and "ready table dest P (tag_bytes t w @ bs @ ys) n st" "length (tag_bytes t w @ bs) \<le> n"
  shows "\<exists>st'. noinit_step d env sub S st = Some (Continue, st') \<and>
    ready table dest P ys (n - length (tag_bytes t w @ bs)) st' \<and> nmem st' = nmem st \<and>
    ierrmsg (nstream st') = ierrmsg (nstream st)"
proof -
  have it: "iter_in table dest (niter st)" and at: "at_input (nstream st) (tag_bytes t w @ bs @ ys) n"
    and rest: "extension_range_start st \<in> {0, 0xFFFFFFFF}" "fixed_count_field st = None" "seen_is (fields_seen st) P"
    using assms(7) by (simp_all add: ready_def)
  have le: "length (tag_bytes t w) \<le> n" and le2: "length bs \<le> n - length (tag_bytes t w)"
    using assms(8) by simp_all
  obtain s1 where s1: "pb_decode_tag S (nstream st) = Some (True, w, t, False, s1)"
    "at_input s1 (bs @ ys) (n - length (tag_bytes t w))" "ierrmsg s1 = ierrmsg (nstream st)"
    using tag_wire [OF assms(4,3,5) at le] by blast
  obtain iter where iter: "pb_field_iter_find (niter st) t = Some (False, iter)" "iter_in table dest iter"
    using find_unknown [OF assms(1) it assms(2)] by blast
  obtain iter' where iter': "find_extension_field iter = Some (False, iter')" "iter_in table dest iter'"
    using find_no_extension [OF assms(1) iter(2) assms(2)] by blast
  obtain f where f: "field_at (start iter') (pos iter') = Some f"
    using iter_in_ok [OF iter'(2)] message_fields_nth [of "pos iter'" table] by auto
  have big: "\<not> t \<ge> 0xFFFFFFFF" using assms(4) by (simp add: word_le_nat_alt)
  obtain s2 where s2: "pb_skip_field S s1 w = Some (True, s2)"
    "at_input s2 ys (n - length (tag_bytes t w) - length bs)" "ierrmsg s2 = ierrmsg s1"
    using pb_skip_field_deliver [OF s1(2) le2 assms(6)] by blast
  let ?st = "st\<lparr>nstream := s1, niter := iter\<rparr>"
  obtain st' where st': "unknown_field d env sub S t w ?st = Some (Continue, st')" "nstream st' = s2"
    "nmem st' = nmem st" "iter_in table dest (niter st')" "extension_range_start st' = 0xFFFFFFFF"
    "fixed_count_field st' = None" "fields_seen st' = fields_seen st"
  proof (cases "extension_range_start st = 0")
    case True
    show ?thesis
      by (rule that [of "?st\<lparr>niter := iter', extension_range_start := 0xFFFFFFFF, nstream := s2\<rparr>"])
        (use True iter' f big s2(1) rest(2) in \<open>simp_all add: unknown_field_def\<close>)
  next
    case False
    then have "extension_range_start st = 0xFFFFFFFF" using rest(1) by simp
    then show ?thesis
      by (intro that [of "?st\<lparr>nstream := s2\<rparr>"])
        (use iter big s2(1) rest(2) in \<open>simp_all add: unknown_field_def\<close>)
  qed
  then show ?thesis using s1 s2 iter(1) rest(3)
    by (auto simp: noinit_step_def ready_def)
qed

end

section \<open>Messages as lists of items\<close>

text \<open>The input of the decoder: values of single fields of a message, by the field's position and the bytes it
  is to have in memory, messages in such fields, and fields that the table does not have.\<close>

datatype wire_item =
  Value nat "byte list"
| Submessage nat "wire_item list"
| Unknown u32 u32 "byte list"

fun item_index :: "wire_item \<Rightarrow> nat option" where
  "item_index (Value i img) = Some i"
| "item_index (Submessage i items) = Some i"
| "item_index (Unknown t w bs) = None"

text \<open>Their encoding; a submessage has its own table.\<close>

fun item_encoding :: "(u64 \<Rightarrow> pb_field list option) \<Rightarrow> pb_field list \<Rightarrow> wire_item \<Rightarrow> byte list" where
  "item_encoding tabs table (Value i img) =
     (let f = message_fields table ! i in
      tag_bytes (tag f) (the (wire_type_of (PB_LTYPE (ftype f)))) @ the (image_wire f img))"
| "item_encoding tabs table (Submessage i items) =
     (let f = message_fields table ! i; xs = concat (map (item_encoding tabs (the (tabs (ptr f)))) items) in
      tag_bytes (tag f) PB_WT_STRING @ uleb_encode (length xs) @ xs)"
| "item_encoding tabs table (Unknown t w bs) = tag_bytes t w @ bs"

definition items_encoding :: "(u64 \<Rightarrow> pb_field list option) \<Rightarrow> pb_field list \<Rightarrow> wire_item list \<Rightarrow> byte list" where
  "items_encoding tabs table items = concat (map (item_encoding tabs table) items)"

text \<open>What they do to the memory: a value replaces the bytes of its field and marks an optional field
  as present, a message clears the decoder's counter in its frame and then does what its items do,
  and an unknown field does nothing.\<close>

fun item_effect ::
    "(nat \<Rightarrow> u64) \<Rightarrow> (u64 \<Rightarrow> pb_field list option) \<Rightarrow> nat \<Rightarrow> pb_field list \<Rightarrow> u64 \<Rightarrow> wire_item \<Rightarrow> memory \<Rightarrow> memory" where
  "item_effect frm tabs d table dest (Value i img) m =
     overwrite (mark_present table dest i m) (field_addr table dest i) img"
| "item_effect frm tabs d table dest (Submessage i items) m =
     fold (\<lambda>item m. item_effect frm tabs (d - 1) (the (tabs (ptr (message_fields table ! i)))) (field_addr table dest i) item m)
       items (overwrite (mark_present table dest i m) (frm (d - 1)) [0, 0, 0, 0])"
| "item_effect frm tabs d table dest (Unknown t w bs) m = m"

definition message_effect ::
    "(nat \<Rightarrow> u64) \<Rightarrow> (u64 \<Rightarrow> pb_field list option) \<Rightarrow> nat \<Rightarrow> pb_field list \<Rightarrow> u64 \<Rightarrow> wire_item list \<Rightarrow> memory \<Rightarrow> memory" where
  "message_effect frm tabs d table dest items m =
     fold (item_effect frm tabs d table dest) items (overwrite m (frm d) [0, 0, 0, 0])"

text \<open>All required fields occur.\<close>

definition complete :: "pb_field list \<Rightarrow> wire_item list \<Rightarrow> bool" where
  "complete table items \<longleftrightarrow>
     (\<forall>i < length (message_fields table). required_at table i \<longrightarrow> Some i \<in> item_index ` set items)"

text \<open>The items fit the table and the memory.  A message inside is complete; the tables have at most 64
  required fields, more of which the decoder does not check.\<close>

definition decodable_table :: "pb_field list \<Rightarrow> bool" where
  "decodable_table table \<longleftrightarrow> plain_table table \<and> required_total table \<le> 64"

definition mark_ok :: "memory \<Rightarrow> pb_field list \<Rightarrow> u64 \<Rightarrow> nat \<Rightarrow> bool" where
  "mark_ok m table dest i \<longleftrightarrow> i < length (message_fields table) \<and>
     (let f = message_fields table ! i in
      single_field f \<and> (has_mark f \<longrightarrow> mapped m (field_addr table dest i + scast (size_offset f)) 1))"

fun item_ok ::
    "(nat \<Rightarrow> u64) \<Rightarrow> (u64 \<Rightarrow> pb_field list option) \<Rightarrow> memory \<Rightarrow> nat \<Rightarrow> pb_field list \<Rightarrow> u64 \<Rightarrow> wire_item \<Rightarrow> bool" where
  "item_ok frm tabs m d table dest (Value i img) \<longleftrightarrow>
     mark_ok m table dest i \<and> mapped m (field_addr table dest i) (length img) \<and>
     image_wire (message_fields table ! i) img \<noteq> None"
| "item_ok frm tabs m d table dest (Submessage i items) \<longleftrightarrow>
     (let f = message_fields table ! i; table' = the (tabs (ptr f)) in
      mark_ok m table dest i \<and> PB_LTYPE (ftype f) = PB_LTYPE_SUBMESSAGE \<and> ptr f \<noteq> 0 \<and> tabs (ptr f) \<noteq> None \<and>
      0 < d \<and> decodable_table table' \<and> mapped m (frm (d - 1)) 4 \<and> complete table' items \<and>
      length (items_encoding tabs table' items) < 2 ^ 32 \<and>
      (\<forall>item \<in> set items. item_ok frm tabs m (d - 1) table' (field_addr table dest i) item))"
| "item_ok frm tabs m d table dest (Unknown t w bs) \<longleftrightarrow>
     t \<notin> tag ` set (message_fields table) \<and> t \<noteq> 0 \<and> unat t < 2 ^ 29 \<and> wire_value w bs"

definition items_ok ::
    "(nat \<Rightarrow> u64) \<Rightarrow> (u64 \<Rightarrow> pb_field list option) \<Rightarrow> memory \<Rightarrow> nat \<Rightarrow> pb_field list \<Rightarrow> u64 \<Rightarrow> wire_item list \<Rightarrow> bool" where
  "items_ok frm tabs m d table dest items \<longleftrightarrow> decodable_table table \<and> mapped m (frm d) 4 \<and>
     (\<forall>item \<in> set items. item_ok frm tabs m d table dest item)"

lemma required_before_mono: "i \<le> j \<Longrightarrow> required_before table i \<le> required_before table j"
proof -
  assume "i \<le> j"
  then have "take j (message_fields table) = take i (message_fields table) @ take (j - i) (drop i (message_fields table))"
    by (metis le_add_diff_inverse take_add)
  then show ?thesis by (simp add: required_before_def)
qed

text \<open>The indices of the required fields are the numbers below their total.\<close>

lemma required_before_inj: "inj_on (required_before table) {i. required_at table i}"
proof -
  have "required_before table i < required_before table j" if "required_at table i" "i < j" for i j
    using required_before_Suc [of i table] required_before_mono [of "Suc i" j table] that by (simp add: required_at_def)
  then show ?thesis by (intro inj_onI) (metis less_irrefl linorder_neqE_nat mem_Collect_eq)
qed

lemma required_before_onto: "required_before table ` {i. required_at table i} = {..<required_total table}"
proof (rule card_subset_eq)
  show "required_before table ` {i. required_at table i} \<subseteq> {..<required_total table}"
    using required_index_less by auto
  have "card {i. required_at table i} = required_total table"
    by (simp add: required_total_def required_before_def required_at_def length_filter_conv_card)
  then show "card (required_before table ` {i. required_at table i}) = card {..<required_total table}"
    using card_image [OF required_before_inj] by simp
qed simp

definition seen_items :: "pb_field list \<Rightarrow> wire_item list \<Rightarrow> nat set" where
  "seen_items table items = required_before table ` {i. required_at table i \<and> Some i \<in> item_index ` set items}"

lemma complete_iff: "complete table items \<longleftrightarrow> {..<required_total table} \<subseteq> seen_items table items"
proof -
  have "{..<required_total table} \<subseteq> seen_items table items \<longleftrightarrow>
      {i. required_at table i} \<subseteq> {i. required_at table i \<and> Some i \<in> item_index ` set items}"
    unfolding seen_items_def required_before_onto [symmetric]
    using required_before_inj [of table] unfolding inj_on_def by blast
  then show ?thesis by (auto simp: complete_def required_at_def)
qed

lemma seen_items_less: "seen_items table items \<subseteq> {..<required_total table}"
  using required_index_less by (auto simp: seen_items_def)

text \<open>Mapped memory stays mapped.\<close>

lemma mapped_dom: "mapped m p n \<Longrightarrow> dom m \<subseteq> dom m' \<Longrightarrow> mapped m' p n"
  unfolding mapped_def domIff [symmetric] by blast

lemma dom_overwrite: "dom m \<subseteq> dom (overwrite m p bs)"
  by (auto simp: overwrite_def dom_def)

lemma dom_mark: "dom m \<subseteq> dom (mark_present table dest i m)"
  by (simp add: mark_present_def Let_def dom_overwrite)

lemma dom_fold: "(\<And>x m. x \<in> set xs \<Longrightarrow> dom m \<subseteq> dom (g x m)) \<Longrightarrow> dom m \<subseteq> dom (fold g xs m)"
proof (induction xs arbitrary: m)
  case (Cons x xs)
  then show ?case by (simp add: Cons.IH) (metis Cons.IH list.set_intros order_trans)
qed simp

lemma dom_item_effect: "dom m \<subseteq> dom (item_effect frm tabs d table dest item m)"
proof (induction frm tabs d table dest item m rule: item_effect.induct)
  case (1 frm tabs d table dest i img m)
  show ?case using order_trans [OF dom_mark dom_overwrite] by simp
next
  case (2 frm tabs d table dest i items m)
  let ?m = "overwrite (mark_present table dest i m) (frm (d - 1)) [0, 0, 0, 0]"
  have "dom m \<subseteq> dom ?m" using order_trans [OF dom_mark dom_overwrite] .
  also have "\<dots> \<subseteq> dom (item_effect frm tabs d table dest (Submessage i items) m)"
    unfolding item_effect.simps by (rule dom_fold) (rule 2)
  finally show ?case .
qed simp

lemma seen_items_Nil [simp]: "seen_items table [] = {}"
  by (simp add: seen_items_def)

lemma seen_items_Cons: "seen_items table (item # items) = seen_items table [item] \<union> seen_items table items"
  by (auto simp: seen_items_def)

lemma seen_item_index:
  "item_index item = Some i \<Longrightarrow>
    (if required_at table i then insert (required_before table i) P else P) = P \<union> seen_items table [item]"
  by (auto simp: seen_items_def)

lemma tag_bytes_nonempty: "tag_bytes t w \<noteq> []"
  by (simp add: tag_bytes_def uleb_encode.simps [of "unat t * 8 + unat w"])

lemma item_encoding_nonempty: "item_encoding tabs table item \<noteq> []"
  by (cases item) (simp_all add: tag_bytes_nonempty Let_def)

lemma wire_type_less: "wire_type_of t = Some w \<Longrightarrow> unat w < 8"
  by (auto simp: wire_type_of_def wire_types split: if_splits)

lemma image_wire_type: "image_wire f img = Some xs \<Longrightarrow> \<exists>w. wire_type_of (PB_LTYPE (ftype f)) = Some w"
  by (erule image_wire_cases) (auto simp: wire_type_of_def scalar_value_def)

context pb_input begin

text \<open>What is to be shown of a message at depth \<open>d\<close>.\<close>

definition decodes :: "'st pb_dec_env \<Rightarrow> memory \<Rightarrow> nat \<Rightarrow> bool" where
  "decodes env m0 d \<longleftrightarrow> (\<forall>table dest items m stream ys.
     items_ok (frame env) (dtables env) m0 d table dest items \<longrightarrow> dom m0 \<subseteq> dom m \<longrightarrow>
     at_input stream (items_encoding (dtables env) table items @ ys) (length (items_encoding (dtables env) table items)) \<longrightarrow>
     (\<exists>stream'. noinit_with d env (pb_dec_submessage d env) S stream m table dest =
         Some (complete table items, stream', message_effect (frame env) (dtables env) d table dest items m) \<and>
       at_input stream' ys 0 \<and>
       ierrmsg stream' = ierrmsg (if complete table items then stream else iset_error ''missing required field'' stream)))"

lemma decodesD:
  assumes "decodes env m0 d" "items_ok (frame env) (dtables env) m0 d table dest items" "dom m0 \<subseteq> dom m"
    "at_input stream (items_encoding (dtables env) table items @ ys) (length (items_encoding (dtables env) table items))"
  obtains stream' where "noinit_with d env (pb_dec_submessage d env) S stream m table dest =
      Some (complete table items, stream', message_effect (frame env) (dtables env) d table dest items m)"
    "at_input stream' ys 0"
    "ierrmsg stream' = ierrmsg (if complete table items then stream else iset_error ''missing required field'' stream)"
  using assms unfolding decodes_def by blast

lemma submessage_fills:
  assumes "decodes env m0 d" "items_ok (frame env) (dtables env) m0 d table' p items" "dom m0 \<subseteq> dom m"
    and "complete table' items" "ptr f \<noteq> 0" "dtables env (ptr f) = Some table'" "PB_HTYPE (ftype f) \<noteq> PB_HTYPE_REPEATED"
    and "xs = items_encoding (dtables env) table' items" "length xs < 2 ^ 32"
  shows "fills (\<lambda>s. pb_dec_submessage (Suc d) env S s m f p) (uleb_encode (length xs) @ xs)
    (message_effect (frame env) (dtables env) d table' p items m)"
  unfolding fills_def
proof (intro allI impI)
  fix stream ys n
  assume "at_input stream ((uleb_encode (length xs) @ xs) @ ys) n" "length (uleb_encode (length xs) @ xs) \<le> n"
  then obtain s1 sub where s1: "pb_make_string_substream S stream = Some (True, s1, Some sub)" "at_input sub (xs @ ys) (length xs)"
    "ierrmsg sub = ierrmsg stream" "unat (bytes_left s1) = n - length (uleb_encode (length xs)) - length xs"
    using substream_open [of stream xs ys n] assms(9) by auto
  obtain sub' where "noinit_with d env (pb_dec_submessage d env) S sub m table' p =
      Some (complete table' items, sub', message_effect (frame env) (dtables env) d table' p items m)"
    "at_input sub' ys 0"
    "ierrmsg sub' = ierrmsg (if complete table' items then sub else iset_error ''missing required field'' sub)"
    using s1(2) unfolding assms(8) by (rule decodesD [OF assms(1-3)])
  then have sub': "noinit_with d env (pb_dec_submessage d env) S sub m table' p =
      Some (True, sub', message_effect (frame env) (dtables env) d table' p items m)"
    "at_input sub' ys 0" "ierrmsg sub' = ierrmsg sub" using assms(4) by simp_all
  obtain s2 where "pb_close_string_substream S s1 sub' = Some (True, s2)"
    "at_input s2 ys (n - length (uleb_encode (length xs)) - length xs)" "ierrmsg s2 = ierrmsg sub'"
    using substream_close [of sub' "[]" ys s1] sub'(2) s1(4) by auto
  then show "\<exists>stream'. pb_dec_submessage (Suc d) env S stream m f p =
      Some (True, stream', message_effect (frame env) (dtables env) d table' p items m) \<and>
      at_input stream' ys (n - length (uleb_encode (length xs) @ xs)) \<and> ierrmsg stream' = ierrmsg stream"
    using s1 sub' assms(5-7) by simp
qed

lemma item_step:
  assumes "decodable_table table" "item_ok (frame env) (dtables env) m0 d table dest item" "0 < d \<Longrightarrow> decodes env m0 (d - 1)"
    and "ready table dest P (item_encoding (dtables env) table item @ ys) n st" "length (item_encoding (dtables env) table item) \<le> n"
    and "dom m0 \<subseteq> dom (nmem st)"
  shows "\<exists>st'. noinit_step d env (pb_dec_submessage d env) S st = Some (Continue, st') \<and>
    ready table dest (P \<union> seen_items table [item]) ys (n - length (item_encoding (dtables env) table item)) st' \<and>
    nmem st' = item_effect (frame env) (dtables env) d table dest item (nmem st) \<and>
    ierrmsg (nstream st') = ierrmsg (nstream st)"
proof (cases item)
  case (Value i img)
  let ?f = "message_fields table ! i"
  have ok: "i < length (message_fields table)" "single_field ?f"
    "has_mark ?f \<Longrightarrow> mapped m0 (field_addr table dest i + scast (size_offset ?f)) 1"
    "mapped m0 (field_addr table dest i) (length img)"
    using assms(2) by (simp_all add: Value mark_ok_def Let_def)
  obtain xs where xs: "image_wire ?f img = Some xs" using assms(2) by (auto simp: Value)
  obtain w where w: "wire_type_of (PB_LTYPE (ftype ?f)) = Some w" using image_wire_type [OF xs] by blast
  have b: "item_encoding (dtables env) table item = tag_bytes (tag ?f) w @ xs" using xs w by (simp add: Value)
  have st: "PB_ATYPE (ftype ?f) = PB_ATYPE_STATIC" using ok(2) by (simp add: single_field_def)
  have m: "mapped (mark_present table dest i (nmem st)) (field_addr table dest i) (length img)"
    using ok(4) assms(6) by (intro mapped_mark) (rule mapped_dom)
  obtain dec where dec: "PB_DECODERS (pb_realloc env) (pb_dec_submessage d env) (PB_LTYPE (ftype ?f)) = Some dec"
    "fills (\<lambda>s. dec S s (mark_present table dest i (nmem st)) ?f (field_addr table dest i)) xs
      (overwrite (mark_present table dest i (nmem st)) (field_addr table dest i) img)"
    using image_fills [OF xs st m] by blast
  have mk: "has_mark ?f \<Longrightarrow> mapped (nmem st) (field_addr table dest i + scast (size_offset ?f)) 1"
    using ok(3) assms(6) mapped_dom by blast
  note t = assms(1) [unfolded decodable_table_def]
  have r: "ready table dest P (tag_bytes (tag ?f) w @ xs @ ys) n st" "length (tag_bytes (tag ?f) w @ xs) \<le> n"
    using assms(4,5) b by simp_all
  from known_step [OF conjunct1 [OF t] conjunct2 [OF t] ok(1) refl ok(2) wire_type_less [OF w] r mk dec]
  show ?thesis using seen_item_index [of item i table P] b by (simp add: Value)
next
  case (Submessage i items)
  let ?f = "message_fields table ! i" and ?table = "the (dtables env (ptr (message_fields table ! i)))"
  let ?xs = "items_encoding (dtables env) ?table items"
  note a = assms(2) [unfolded Submessage item_ok.simps Let_def]
  have ok: "i < length (message_fields table)" "single_field ?f"
    "has_mark ?f \<Longrightarrow> mapped m0 (field_addr table dest i + scast (size_offset ?f)) 1"
    using a by (simp_all add: mark_ok_def Let_def)
  have sub: "items_ok (frame env) (dtables env) m0 (d - 1) ?table (field_addr table dest i) items"
    "complete ?table items" "ptr ?f \<noteq> 0" "dtables env (ptr ?f) = Some ?table" "length ?xs < 2 ^ 32" "0 < d"
    "PB_LTYPE (ftype ?f) = PB_LTYPE_SUBMESSAGE"
    using a by (auto simp: items_ok_def)
  have b: "item_encoding (dtables env) table item = tag_bytes (tag ?f) PB_WT_STRING @ uleb_encode (length ?xs) @ ?xs"
    by (simp add: Submessage Let_def items_encoding_def)
  have nr: "PB_HTYPE (ftype ?f) \<noteq> PB_HTYPE_REPEATED" using ok(2) by (auto simp: single_field_def pb_htypes)
  have m: "dom m0 \<subseteq> dom (mark_present table dest i (nmem st))" using assms(6) dom_mark by blast
  have dec: "PB_DECODERS (pb_realloc env) (pb_dec_submessage d env) (PB_LTYPE (ftype ?f)) = Some (pb_dec_submessage d env)"
    using sub(7) by (simp add: decoder_of)
  have fl: "fills (\<lambda>s. pb_dec_submessage d env S s (mark_present table dest i (nmem st)) ?f (field_addr table dest i))
      (uleb_encode (length ?xs) @ ?xs)
      (message_effect (frame env) (dtables env) (d - 1) ?table (field_addr table dest i) items (mark_present table dest i (nmem st)))"
    using submessage_fills [OF assms(3) [OF sub(6)] sub(1) m sub(2-4) nr refl sub(5)] sub(6) by simp
  have mk: "has_mark ?f \<Longrightarrow> mapped (nmem st) (field_addr table dest i + scast (size_offset ?f)) 1"
    using ok(3) assms(6) mapped_dom by blast
  note t = assms(1) [unfolded decodable_table_def]
  have r: "ready table dest P (tag_bytes (tag ?f) PB_WT_STRING @ (uleb_encode (length ?xs) @ ?xs) @ ys) n st"
    "length (tag_bytes (tag ?f) PB_WT_STRING @ (uleb_encode (length ?xs) @ ?xs)) \<le> n"
    using assms(4,5) b by simp_all
  have w: "unat PB_WT_STRING < 8" by (simp add: wire_types)
  from known_step [OF conjunct1 [OF t] conjunct2 [OF t] ok(1) refl ok(2) w r mk dec fl]
  show ?thesis using seen_item_index [of item i table P] b
    by (simp add: Submessage message_effect_def)
next
  case (Unknown t w bs)
  have u: "t \<notin> tag ` set (message_fields table)" "t \<noteq> 0" "unat t < 2 ^ 29" "wire_value w bs"
    using assms(2) by (simp_all add: Unknown)
  have w: "unat w < 8" using u(4) by (auto simp: wire_value_def wire_types)
  have r: "ready table dest P (tag_bytes t w @ bs @ ys) n st" "length (tag_bytes t w @ bs) \<le> n"
    using assms(4,5) by (simp_all add: Unknown)
  note p = conjunct1 [OF assms(1) [unfolded decodable_table_def]]
  from unknown_step [OF p u(1-3) w u(4) r, of d env "pb_dec_submessage d env"]
  show ?thesis by (simp add: Unknown seen_items_def)
qed

end

lemma le_bytes_zero: "le_bytes n 0 = replicate n 0"
  by (induction n) simp_all

context pb_input begin

lemma at_input_left: "at_input stream ys n \<Longrightarrow> bytes_left stream = 0 \<longleftrightarrow> n = 0"
  by (auto simp: at_input_def unat_eq_zero)

lemma items_loop:
  assumes "decodable_table table" "0 < d \<Longrightarrow> decodes env m0 (d - 1)"
    and "\<forall>item \<in> set items. item_ok (frame env) (dtables env) m0 d table dest item"
    and "ready table dest P (items_encoding (dtables env) table items @ ys) (length (items_encoding (dtables env) table items)) st"
    and "dom m0 \<subseteq> dom (nmem st)"
  shows "\<exists>st'. noinit_loop d env (pb_dec_submessage d env) S st = Some (True, st') \<and>
    ready table dest (P \<union> seen_items table items) ys 0 st' \<and>
    nmem st' = fold (item_effect (frame env) (dtables env) d table dest) items (nmem st) \<and>
    ierrmsg (nstream st') = ierrmsg (nstream st)"
  using assms(3-5)
proof (induction items arbitrary: P st)
  case Nil
  then have "bytes_left (nstream st) = 0" using at_input_left by (auto simp: ready_def items_encoding_def)
  then show ?case using Nil by (simp add: noinit_loop.simps items_encoding_def)
next
  case (Cons item items)
  let ?x = "item_encoding (dtables env) table item" and ?xs = "items_encoding (dtables env) table items"
  have b: "items_encoding (dtables env) table (item # items) = ?x @ ?xs" by (simp add: items_encoding_def)
  have r: "ready table dest P (?x @ ?xs @ ys) (length ?x + length ?xs) st" using Cons.prems(2) b by simp
  then have left: "bytes_left (nstream st) \<noteq> 0"
    using at_input_left [of "nstream st"] item_encoding_nonempty [of "dtables env" table item] by (auto simp: ready_def)
  have ok: "item_ok (frame env) (dtables env) m0 d table dest item" using Cons.prems(1) by simp
  obtain st1 where st1: "noinit_step d env (pb_dec_submessage d env) S st = Some (Continue, st1)"
    "ready table dest (P \<union> seen_items table [item]) (?xs @ ys) (length ?x + length ?xs - length ?x) st1"
    "nmem st1 = item_effect (frame env) (dtables env) d table dest item (nmem st)"
    "ierrmsg (nstream st1) = ierrmsg (nstream st)"
    using item_step [OF assms(1) ok assms(2) r _ Cons.prems(3)] by auto
  have m: "dom m0 \<subseteq> dom (nmem st1)" using Cons.prems(3) dom_item_effect unfolding st1(3) by (rule order_trans)
  have r1: "ready table dest (P \<union> seen_items table [item]) (?xs @ ys) (length ?xs) st1" using st1(2) by simp
  obtain st' where st': "noinit_loop d env (pb_dec_submessage d env) S st1 = Some (True, st')"
    "ready table dest (P \<union> seen_items table [item] \<union> seen_items table items) ys 0 st'"
    "nmem st' = fold (item_effect (frame env) (dtables env) d table dest) items (nmem st1)"
    "ierrmsg (nstream st') = ierrmsg (nstream st1)"
    using Cons.IH [OF _ r1 m] Cons.prems(1) by auto
  have "noinit_loop d env (pb_dec_submessage d env) S st = Some (True, st')"
    using left st1(1) st'(1) by (simp add: noinit_loop.simps [of d env _ S st])
  then show ?case using st' st1(3,4) seen_items_Cons [of table item items] by (auto simp: Un_assoc)
qed

lemma finish_ready:
  assumes "decodable_table table" "ready table dest (seen_items table items) ys 0 st"
  shows "finish_noinit d env st =
    Some (complete table items,
      (if complete table items then nstream st else iset_error ''missing required field'' (nstream st)), nmem st)"
proof -
  note t = assms(1) [unfolded decodable_table_def plain_table_def]
  have it: "iter_in table dest (niter st)" and rest: "fixed_count_field st = None" "seen_is (fields_seen st) (seen_items table items)"
    using assms(2) by (simp_all add: ready_def)
  obtain n last iter where c: "count_required (niter st) = Some (n, last, iter)" "iter_in table dest iter"
    "n + (if PB_HTYPE last = PB_HTYPE_REQUIRED then 1 else 0) = word_of_nat (required_total table)"
    using count_required_in [OF it] t by (auto simp: Let_def)
  obtain f where f: "field_at (start iter) (pos iter) = Some f" "tag f \<noteq> 0"
    using iter_in_ok [OF c(2)] message_fields_nth [of "pos iter" table] by auto
  have "required_missing (fields_seen st) (word_of_nat (required_total table)) \<longleftrightarrow> \<not> complete table items"
    using required_missing_iff [OF rest(2) seen_items_less] t complete_iff by simp
  then have m: "required_missing (fields_seen st) (n + (if PB_HTYPE last = PB_HTYPE_REQUIRED then 1 else 0)) \<longleftrightarrow>
      \<not> complete table items" using c(3) by simp
  show ?thesis using c(1) f rest(1) m
    by (cases "PB_HTYPE last = PB_HTYPE_REQUIRED") (auto simp: finish_noinit_def fixed_count_wrong_def)
qed

lemma decodes_step:
  assumes "0 < d \<Longrightarrow> decodes env m0 (d - 1)"
  shows "decodes env m0 d"
  unfolding decodes_def
proof (intro allI impI)
  fix table dest items and m :: memory and stream ys
  assume ok: "items_ok (frame env) (dtables env) m0 d table dest items" and m: "dom m0 \<subseteq> dom m"
    and at: "at_input stream (items_encoding (dtables env) table items @ ys) (length (items_encoding (dtables env) table items))"
  note t = ok [unfolded items_ok_def decodable_table_def plain_table_def]
  have t': "decodable_table table" "mapped m0 (frame env d) 4"
    "\<forall>item \<in> set items. item_ok (frame env) (dtables env) m0 d table dest item"
    using ok by (simp_all add: items_ok_def)
  let ?m = "overwrite m (frame env d) [0, 0, 0, 0]"
  have slot: "store_word m (frame env d) 4 (0 :: u32) = Some ?m"
  proof -
    have "le_bytes 4 0 = [0, 0, 0, 0 :: byte]" by (simp add: le_bytes_zero eval_nat_numeral)
    then show ?thesis using store_mapped [OF mapped_dom [OF t'(2) m], of "[0, 0, 0, 0]"] by (simp add: store_word_def)
  qed
  obtain iter where it: "pb_field_iter_begin table dest = Some (True, iter)" "iter_in table dest iter"
    using iter_in_begin [of table dest] t by auto
  let ?st = "\<lparr>nstream = stream, nmem = ?m, niter = iter, fields_seen = [0, 0], extension_range_start = 0,
    fixed_count_field = None\<rparr>"
  have r: "ready table dest {} (items_encoding (dtables env) table items @ ys) (length (items_encoding (dtables env) table items)) ?st"
    using at it(2) seen_none by (simp add: ready_def)
  have d: "dom m0 \<subseteq> dom (nmem ?st)" using order_trans [OF m dom_overwrite] by simp
  obtain st where st: "noinit_loop d env (pb_dec_submessage d env) S ?st = Some (True, st)"
    "ready table dest ({} \<union> seen_items table items) ys 0 st"
    "nmem st = fold (item_effect (frame env) (dtables env) d table dest) items (nmem ?st)"
    "ierrmsg (nstream st) = ierrmsg (nstream ?st)"
    using items_loop [OF t'(1) assms t'(3) r d] by blast
  let ?s = "if complete table items then nstream st else iset_error ''missing required field'' (nstream st)"
  have "noinit_with d env (pb_dec_submessage d env) S stream m table dest = Some (complete table items, ?s, nmem st)"
    using slot it(1) st(1,2) finish_ready [OF t'(1)] by (simp add: noinit_with_def)
  moreover have "at_input ?s ys 0" using st(2) by (auto simp: ready_def at_input_def iset_error_def)
  moreover have "ierrmsg ?s = ierrmsg (if complete table items then stream else iset_error ''missing required field'' stream)"
    using st(4) by (simp add: iset_error_def)
  ultimately show "\<exists>stream'. noinit_with d env (pb_dec_submessage d env) S stream m table dest =
      Some (complete table items, stream', message_effect (frame env) (dtables env) d table dest items m) \<and>
      at_input stream' ys 0 \<and>
      ierrmsg stream' = ierrmsg (if complete table items then stream else iset_error ''missing required field'' stream)"
    using st(3) by (intro exI [of _ ?s]) (simp add: message_effect_def)
qed

lemma decodes_all: "decodes env m0 d"
proof (induction d)
  case (Suc d)
  show ?case by (rule decodes_step) (simp add: Suc)
qed (rule decodes_step, simp)

end

text \<open>C1. The decoder on a message of single fields, of any nesting and with unknown fields among them: it
  consumes the input and leaves in memory exactly what the items say, later values replacing earlier
  ones, and returns true if every required field of the message occurs; if not it returns false with
  the error ``missing required field''.\<close>

theorem pb_decode_items:
  assumes "items_ok (frame env) (dtables env) m d table dest items"
    and "holds (flat_task input) p (items_encoding (dtables env) table items)"
    and "length (items_encoding (dtables env) table items) < 2 ^ 64"
  shows "\<exists>stream. pb_decode_noinit d env (buffer_source (flat_task input))
      (pb_istream_from_buffer p (word_of_nat (length (items_encoding (dtables env) table items)))) m table dest =
    Some (complete table items, stream, message_effect (frame env) (dtables env) d table dest items m) \<and>
    bytes_left stream = 0 \<and>
    ierrmsg stream = (if complete table items then None else Some ''missing required field'')"
proof -
  let ?xs = "items_encoding (dtables env) table items"
  let ?stream = "pb_istream_from_buffer p (word_of_nat (length ?xs))"
  have at: "buffer_in.at_input input ?stream (?xs @ []) (length ?xs)"
    unfolding buffer_in.at_input_def using assms(2,3) by (simp add: pb_istream_from_buffer_def unat_of_nat)
  obtain stream where d: "noinit_with d env (pb_dec_submessage d env) (buffer_source (flat_task input)) ?stream m table dest =
      Some (complete table items, stream, message_effect (frame env) (dtables env) d table dest items m)"
    "buffer_in.at_input input stream [] 0"
    "ierrmsg stream = ierrmsg (if complete table items then ?stream else iset_error ''missing required field'' ?stream)"
    by (rule buffer_in.decodesD [OF buffer_in.decodes_all assms(1) order_refl at])
  have "ierrmsg stream = (if complete table items then None else Some ''missing required field'')"
    using d(3) by (simp add: pb_istream_from_buffer_def iset_error_def)
  then show ?thesis using d(1) at_end [OF d(2)] unfolding pb_decode_noinit_def by blast
qed

section \<open>A sample message\<close>

text \<open>A table with a required and an optional field, and a submessage with a field of its own; the input
  also has a field the table does not know.\<close>

definition sample_optional :: pb_field where
  "sample_optional = \<lparr>tag = 3, ftype = 0x17, data_offset = 8, size_offset = -4, data_size = 8, array_size = 0, ptr = 0\<rparr>"

definition sample_dec_env :: "u64 pb_dec_env" where
  "sample_dec_env = \<lparr>dtables = (\<lambda>p. if p = 0x80 then Some [sample_field, last_field] else None),
     pb_realloc = (\<lambda>_ _ m. (0, m)), pb_free = (\<lambda>_ m. m), decode_func = (\<lambda>_ _ _ _ _ _. None),
     decode_scalar_func = (\<lambda>_ _ _ _ _ _. None), ext_decode_func = (\<lambda>_ _ _ _ _ _ _. None),
     frame = (\<lambda>d. 0x8000 - 16 * word_of_nat d)\<rparr>"

definition sample_dec_table :: "pb_field list" where
  "sample_dec_table = [sample_field, sample_submessage, sample_optional, last_field]"

definition sample_items :: "wire_item list" where
  "sample_items = [Unknown 9 PB_WT_32BIT [1, 2, 3, 4], Submessage 1 [Value 0 [5, 0, 0, 0]], Value 2 [0x68, 0x69, 0],
     Value 0 [0x96, 0, 0, 0]]"

lemma sample_fields:
  "message_fields sample_dec_table = [sample_field, sample_submessage, sample_optional]"
  "message_fields [sample_field, last_field] = [sample_field]"
  by (simp_all add: message_fields_def sample_dec_table_def sample_field_def sample_submessage_def sample_optional_def last_field_def)

lemma sample_dec_types:
  "PB_LTYPE 0x17 = PB_LTYPE_STRING" "PB_HTYPE 0x17 = PB_HTYPE_OPTIONAL" "PB_ATYPE 0x17 = PB_ATYPE_STATIC"
  by (simp_all add: PB_LTYPE_def PB_HTYPE_def PB_ATYPE_def pb_ltypes pb_htypes pb_atypes)

lemma sample_sel:
  "tag sample_field = 1" "ftype sample_field = 2" "size_offset sample_field = 0" "data_size sample_field = 4"
  "data_offset sample_field = 0" "array_size sample_field = 0"
  "tag sample_submessage = 2" "ftype sample_submessage = 8" "ptr sample_submessage = 0x80" "size_offset sample_submessage = 0"
  "data_offset sample_submessage = 0" "data_size sample_submessage = 4" "array_size sample_submessage = 0"
  "tag sample_optional = 3" "ftype sample_optional = 0x17" "size_offset sample_optional = -4" "data_size sample_optional = 8"
  "data_offset sample_optional = 8" "tag last_field = 0"
  by (simp_all add: sample_defs sample_optional_def)

lemma sample_tables:
  "decodable_table sample_dec_table" "decodable_table [sample_field, last_field]"
  by (simp_all add: decodable_table_def plain_table_def sample_fields no_unions_def required_total_def required_before_def
      sample_sel sample_types sample_dec_types pb_ltypes pb_htypes)
    (simp_all add: terminated_def sample_dec_table_def sample_sel)

lemma sample_images:
  "image_wire sample_field [5, 0, 0, 0] = Some [5]" "image_wire sample_field [0x96, 0, 0, 0] = Some [0x96, 1]"
  "image_wire sample_optional [0x68, 0x69, 0] = Some [2, 0x68, 0x69]"
proof -
  have "read_map (block 0 [5, 0, 0, 0]) 0 4 = Some [5, 0, 0, 0]" "read_map (block 0 [0x96, 0, 0, 0]) 0 4 = Some [0x96, 0, 0, 0]"
    by (rule read_map_block; simp)+
  then have "load_unsigned (block 0 [5, 0, 0, 0]) 4 0 = Some (Some 5)" "load_unsigned (block 0 [0x96, 0, 0, 0]) 4 0 = Some (Some 150)"
    by (simp_all add: load_unsigned_def load_word_def le_word_def)
  then show "image_wire sample_field [5, 0, 0, 0] = Some [5]" "image_wire sample_field [0x96, 0, 0, 0] = Some [0x96, 1]"
    by (simp_all add: image_wire_def scalar_value_def scalar_wire_def sample_sel sample_types the_number_def int_size_def
      pb_ltypes uleb_small uleb_150)
  show "image_wire sample_optional [0x68, 0x69, 0] = Some [2, 0x68, 0x69]"
    by (simp add: image_wire_def scalar_value_def sample_sel sample_dec_types delimited_def pb_ltypes uleb_small)
qed

lemma sample_tabs: "dtables sample_dec_env 0x80 = Some [sample_field, last_field]"
  by (simp add: sample_dec_env_def)

lemma sample_wire:
  "items_encoding (dtables sample_dec_env) [sample_field, last_field] [Value 0 [5, 0, 0, 0]] = [0x08, 5]"
  "items_encoding (dtables sample_dec_env) sample_dec_table sample_items =
    [0x4D, 1, 2, 3, 4, 0x12, 2, 0x08, 5, 0x1A, 2, 0x68, 0x69, 0x08, 0x96, 1]"
  by (simp_all add: items_encoding_def sample_items_def sample_fields sample_sel sample_types sample_dec_types sample_images
      sample_tabs tag_bytes_def wire_type_of_def wire_types pb_ltypes uleb_small Let_def)

lemma sample_addr:
  "field_addr sample_dec_table 0x2000 0 = 0x2000" "field_addr sample_dec_table 0x2000 1 = 0x2004"
  "field_addr sample_dec_table 0x2000 2 = 0x2010"
  by (simp_all add: field_addr_def message_layout_def sample_dec_table_def sample_sel in_same_union_def field_extent_def
      sample_types sample_dec_types pb_htypes pb_atypes)

lemma mapped_all: "n \<le> 2 ^ 64 \<Longrightarrow> mapped (\<lambda>_. Some b) p n"
  by (simp add: mapped_def)

lemma sample_ok:
  "items_ok (frame sample_dec_env) (dtables sample_dec_env) (\<lambda>_. Some 0) 1 sample_dec_table 0x2000 sample_items"
  by (simp add: items_ok_def sample_tables mapped_all sample_items_def mark_ok_def sample_fields sample_sel single_field_def
      sample_types sample_dec_types sample_images sample_wire complete_def required_at_def
      sample_tabs wire_value_def Let_def less_Suc_eq)


definition sample_input :: memory where
  "sample_input = block 0x1000 [0x4D, 1, 2, 3, 4, 0x12, 2, 0x08, 5, 0x1A, 2, 0x68, 0x69, 0x08, 0x96, 1]"

lemma sample_complete: "complete sample_dec_table sample_items"
  by (simp add: complete_def sample_items_def required_at_def sample_fields sample_sel sample_types sample_dec_types
      less_Suc_eq)

lemma pb_decode_items_witness:
  "\<exists>stream. pb_decode_noinit 1 sample_dec_env (buffer_source (flat_task sample_input)) (pb_istream_from_buffer 0x1000 16)
      (\<lambda>_. Some 0) sample_dec_table 0x2000 =
    Some (True, stream,
      message_effect (frame sample_dec_env) (dtables sample_dec_env) 1 sample_dec_table 0x2000 sample_items (\<lambda>_. Some 0)) \<and>
    bytes_left stream = 0 \<and> ierrmsg stream = None"
  using pb_decode_items [OF sample_ok, of sample_input "0x1000"]
  by (simp add: sample_wire sample_complete) (simp add: sample_input_def holds_block)

end
