(* ===== verification/Pb_Safety.thy ===== *)
theory Pb_Safety
  imports Pb_Items
begin

text \<open>The reading side of memory safety. The locale \<open>pb_reader\<close> states what any readable source grants; within
  it every reading primitive of \<open>pb_decode.c\<close> returns, whatever the bytes are. Then where a decoder of a value may
  write, and the fields, arrays and submessages of a message with static fields as sets of addresses.\<close>

section \<open>Reading whatever the input holds\<close>

text \<open>The contract of a source that can be read: \<open>avail st n\<close> says that from the state \<open>st\<close> on, \<open>n\<close> bytes
  can be asked for.  The callback returns, with success and the bytes, or with failure and no fewer
  bytes available than before.\<close>

locale pb_reader =
  fixes S :: "'st pb_source" and avail :: "'st \<Rightarrow> nat \<Rightarrow> bool"
  assumes avail_less: "avail st n \<Longrightarrow> k \<le> n \<Longrightarrow> avail st k"
    and callback_returns: "avail (istate stream) n \<Longrightarrow> unat count \<le> n \<Longrightarrow>
      \<exists>ok bs st'. icallback S stream buf count = Some (ok, bs, stream\<lparr>istate := st'\<rparr>) \<and>
        avail st' (if ok then n - unat count else n) \<and> length bs \<le> unat count \<and>
        (ok \<and> buf \<longrightarrow> length bs = unat count)"
begin

text \<open>A stream that can be read up to its limit, and then \<open>k\<close> bytes more: those of the stream it is a part of.\<close>

definition readable :: "nat \<Rightarrow> 'st pb_istream \<Rightarrow> bool" where
  "readable k stream \<longleftrightarrow> avail (istate stream) (unat (bytes_left stream) + k)"

text \<open>After an operation the stream is readable again and no longer; after one that succeeds it is shorter.\<close>

definition after :: "nat \<Rightarrow> 'st pb_istream \<Rightarrow> bool \<Rightarrow> 'st pb_istream \<Rightarrow> bool" where
  "after k stream ok stream' \<longleftrightarrow> readable k stream' \<and> unat (bytes_left stream') \<le> unat (bytes_left stream) \<and>
     (ok \<longrightarrow> unat (bytes_left stream') < unat (bytes_left stream))"

lemma after_readable: "after k stream ok stream' \<Longrightarrow> readable k stream'"
  by (simp add: after_def)

lemma after_weak: "after k stream ok stream' \<Longrightarrow> (ok' \<Longrightarrow> ok) \<Longrightarrow> after k stream ok' stream'"
  by (auto simp: after_def)

lemma after_then: "after k s1 ok s2 \<Longrightarrow> after k s2 ok' s3 \<Longrightarrow> after k s1 (ok \<or> ok') s3"
  by (auto simp: after_def)

lemma error_left [simp]: "bytes_left (iset_error msg stream) = bytes_left stream" "istate (iset_error msg stream) = istate stream"
  by (simp_all add: iset_error_def)

lemma readable_error [simp]: "readable k (iset_error msg stream) = readable k stream"
  by (simp add: readable_def)

lemma after_error [simp]: "after k stream ok (iset_error msg stream') = after k stream ok stream'"
  by (simp add: after_def)

lemma after_same: "readable k stream \<Longrightarrow> after k stream False stream"
  by (simp add: after_def)

text \<open>Reading \<open>n\<close> bytes or nothing.\<close>

definition took :: "nat \<Rightarrow> 'st pb_istream \<Rightarrow> bool \<Rightarrow> nat \<Rightarrow> 'st pb_istream \<Rightarrow> bool" where
  "took k stream ok n stream' \<longleftrightarrow> readable k stream' \<and> (ok \<longrightarrow> n \<le> unat (bytes_left stream)) \<and>
     unat (bytes_left stream') = unat (bytes_left stream) - (if ok then n else 0)"

lemma took_after: "took k stream ok n stream' \<Longrightarrow> 0 < n \<Longrightarrow> after k stream ok stream'"
  by (auto simp: took_def after_def)

lemma took_weak: "took k stream ok n stream' \<Longrightarrow> after k stream False stream'"
  by (auto simp: took_def after_def)

lemma read_direct_returns:
  assumes "readable k stream"
  shows "\<exists>ok bs stream'. read_direct S stream buf count = Some (ok, bs, stream') \<and> took k stream ok (unat count) stream' \<and>
    length bs \<le> unat count \<and> (ok \<and> buf \<longrightarrow> length bs = unat count)"
proof (cases "count = 0 \<or> bytes_left stream < count")
  case True
  then show ?thesis using assms by (auto simp: read_direct_def took_def)
next
  case False
  then have c: "unat count \<le> unat (bytes_left stream)" by (simp add: word_le_nat_alt not_less)
  then have c': "unat count \<le> unat (bytes_left stream) + k" by simp
  obtain ok bs st' where cb: "icallback S stream buf count = Some (ok, bs, stream\<lparr>istate := st'\<rparr>)"
    "avail st' (if ok then unat (bytes_left stream) + k - unat count else unat (bytes_left stream) + k)"
    "length bs \<le> unat count" "ok \<and> buf \<longrightarrow> length bs = unat count"
    using callback_returns [OF assms [unfolded readable_def] c'] by blast
  have "unat (bytes_left stream - count) = unat (bytes_left stream) - unat count"
    using c by (simp add: unat_sub word_le_nat_alt)
  then show ?thesis using False cb c
    by (cases ok) (simp_all add: ex_bool_eq read_direct_def took_def readable_def)
qed

lemma skip_loop_returns:
  assumes "readable k stream"
  shows "\<exists>ok stream'. skip_loop S stream count = Some (ok, [], stream') \<and> after k stream False stream' \<and>
    (ok \<longrightarrow> took k stream ok (unat count) stream')"
  using assms
proof (induction "unat count" arbitrary: stream count rule: less_induct)
  case less
  show ?case
  proof (cases "16 < count")
    case False
    then show ?thesis using read_direct_returns [OF less.prems, of True count] took_weak
      by (fastforce simp: skip_loop.simps [of S stream count])
  next
    case True
    then have c: "unat (count - 16) = unat count - 16" "16 < unat count"
      using unat_sub [of 16 count] by (simp_all add: word_less_nat_alt word_le_nat_alt)
    obtain ok bs s1 where s1: "read_direct S stream True 16 = Some (ok, bs, s1)" "took k stream ok (unat (16 :: u64)) s1"
      using read_direct_returns [OF less.prems, of True 16] by blast
    have r: "readable k s1" using s1(2) by (simp add: took_def)
    obtain ok' s2 where s2: "skip_loop S s1 (count - 16) = Some (ok', [], s2)" "after k s1 False s2"
      "ok' \<Longrightarrow> took k s1 ok' (unat (count - 16)) s2"
      using less.hyps [OF _ r, of "count - 16"] c by auto
    show ?thesis
    proof (cases ok)
      case True
      have w: "after k stream False s2" using after_then [OF took_weak [OF s1(2)] s2(2)] by simp
      have "took k stream ok' (unat count) s2" if ok' using s1(2) s2(3) [OF that] c that True by (auto simp: took_def)
      then show ?thesis using \<open>16 < count\<close> s1(1) s2(1) True w by (simp add: skip_loop.simps [of S stream count])
    next
      case False
      then show ?thesis using \<open>16 < count\<close> s1 took_weak by (auto simp: skip_loop.simps [of S stream count])
    qed
  qed
qed

lemma pb_read_returns:
  assumes "readable k stream"
  shows "\<exists>ok bs stream'. pb_read S stream buf count = Some (ok, bs, stream') \<and> after k stream (ok \<and> count \<noteq> 0) stream' \<and>
    (ok \<longrightarrow> took k stream ok (unat count) stream') \<and> length bs \<le> unat count \<and> (ok \<and> buf \<longrightarrow> length bs = unat count)"
proof (cases "count = 0")
  case True
  then show ?thesis using after_same [OF assms] assms by (simp add: ex_bool_eq pb_read_def took_def)
next
  case nz: False
  then have pos: "0 < unat count" by (simp add: unat_gt_0)
  show ?thesis
  proof (cases "\<not> buf \<and> \<not> is_buf_read S")
    case True
    obtain ok s1 where s1: "skip_loop S stream count = Some (ok, [], s1)" "after k stream False s1"
      "ok \<longrightarrow> took k stream ok (unat count) s1" using skip_loop_returns [OF assms, of count] by blast
    then have "after k stream ok s1" using took_after [OF _ pos] by (cases ok) auto
    then show ?thesis using nz True s1 by (simp add: pb_read_def)
  next
    case False
    obtain ok bs s1 where s1: "read_direct S stream buf count = Some (ok, bs, s1)" "took k stream ok (unat count) s1"
      "length bs \<le> unat count" "ok \<and> buf \<longrightarrow> length bs = unat count" using read_direct_returns [OF assms, of buf count] by blast
    then show ?thesis using nz False took_after [OF s1(2) pos] by (auto simp: pb_read_def)
  qed
qed

lemma pb_readbyte_returns:
  assumes "readable k stream"
  shows "\<exists>b stream'. pb_readbyte S stream = Some (b, stream') \<and> after k stream (b \<noteq> None) stream'"
proof (cases "bytes_left stream = 0")
  case True
  then show ?thesis using after_same [OF assms] by (auto simp: pb_readbyte_def)
next
  case False
  then have c: "unat (1 :: u64) \<le> unat (bytes_left stream) + k" by (simp add: Suc_le_eq unat_gt_0 trans_le_add1)
  obtain ok bs st' where cb: "icallback S stream True 1 = Some (ok, bs, stream\<lparr>istate := st'\<rparr>)"
    "avail st' (if ok then unat (bytes_left stream) + k - unat (1 :: u64) else unat (bytes_left stream) + k)"
    using callback_returns [OF assms [unfolded readable_def] c] by blast
  have "unat (bytes_left stream - 1) = unat (bytes_left stream) - 1" using False by (rule unat_minus_one)
  moreover have "0 < unat (bytes_left stream)" using False by (simp add: unat_gt_0)
  ultimately show ?thesis using False cb
    by (cases ok) (simp_all add: pb_readbyte_def after_def readable_def)
qed

section \<open>Numbers\<close>

lemma varint32_loop_returns:
  assumes "readable k stream"
  shows "\<exists>r stream'. varint32_loop S stream result bitpos = Some (r, stream') \<and> after k stream (r \<noteq> None) stream'"
  using assms
proof (induction "unat (bytes_left stream)" arbitrary: stream result bitpos rule: less_induct)
  case less
  obtain b s1 where b: "pb_readbyte S stream = Some (b, s1)" "after k stream (b \<noteq> None) s1"
    using pb_readbyte_returns [OF less.prems] by blast
  show ?case
  proof (cases b)
    case None
    then show ?thesis using b by (simp add: varint32_loop.simps [of S stream])
  next
    case (Some byte)
    then have lt: "unat (bytes_left s1) < unat (bytes_left stream)" "readable k s1" using b(2) by (simp_all add: after_def)
    have "\<exists>r s2. varint32_loop S s1 result' bitpos' = Some (r, s2) \<and> after k stream (r \<noteq> None) s2" for result' bitpos'
      using less.hyps [OF lt] after_then [OF b(2)] after_weak by blast
    then show ?thesis using b Some after_weak [OF b(2)]
      by (auto simp: varint32_loop.simps [of S stream] Let_def)
  qed
qed

lemma pb_decode_varint32_eof_returns:
  assumes "readable k stream"
  shows "\<exists>r eof stream'. pb_decode_varint32_eof S stream = Some (r, eof, stream') \<and> after k stream (r \<noteq> None) stream'"
proof -
  obtain b s1 where b: "pb_readbyte S stream = Some (b, s1)" "after k stream (b \<noteq> None) s1"
    using pb_readbyte_returns [OF assms] by blast
  have l: "\<exists>r s2. varint32_loop S s1 result bitpos = Some (r, s2) \<and> after k stream (r \<noteq> None) s2" for result bitpos
    using varint32_loop_returns [OF after_readable [OF b(2)]] after_then [OF b(2)] after_weak by blast
  show ?thesis
  proof (cases b)
    case (Some byte)
    obtain r s2 where "varint32_loop S s1 (ucast (byte AND 0x7F)) 7 = Some (r, s2)" "after k stream (r \<noteq> None) s2" using l by blast
    then show ?thesis using b Some by (simp add: pb_decode_varint32_eof_def)
  qed (use b in \<open>simp add: pb_decode_varint32_eof_def\<close>)
qed

lemma pb_decode_varint32_returns:
  assumes "readable k stream"
  shows "\<exists>r stream'. pb_decode_varint32 S stream = Some (r, stream') \<and> after k stream (r \<noteq> None) stream'"
  using pb_decode_varint32_eof_returns [OF assms] by (auto simp: pb_decode_varint32_def)

lemma varint_loop_returns:
  assumes "readable k stream"
  shows "\<exists>r stream'. varint_loop S stream result bitpos = Some (r, stream') \<and> after k stream (r \<noteq> None) stream'"
  using assms
proof (induction "unat (bytes_left stream)" arbitrary: stream result bitpos rule: less_induct)
  case less
  obtain b s1 where b: "pb_readbyte S stream = Some (b, s1)" "after k stream (b \<noteq> None) s1"
    using pb_readbyte_returns [OF less.prems] by blast
  show ?case
  proof (cases "bitpos \<ge> 64 \<or> b = None")
    case True
    then show ?thesis using b after_same [OF less.prems] by (auto simp: varint_loop.simps [of S stream])
  next
    case False
    then obtain byte where Some: "b = Some byte" "\<not> bitpos \<ge> 64" by auto
    then have lt: "unat (bytes_left s1) < unat (bytes_left stream)" "readable k s1" using b(2) by (simp_all add: after_def)
    have "\<exists>r s2. varint_loop S s1 result' bitpos' = Some (r, s2) \<and> after k stream (r \<noteq> None) s2" for result' bitpos'
      using less.hyps [OF lt] after_then [OF b(2)] after_weak by blast
    then show ?thesis using b Some by (auto simp: varint_loop.simps [of S stream] Let_def)
  qed
qed

lemma pb_decode_varint_returns:
  assumes "readable k stream"
  shows "\<exists>r stream'. pb_decode_varint S stream = Some (r, stream') \<and> after k stream (r \<noteq> None) stream'"
  unfolding pb_decode_varint_def using varint_loop_returns [OF assms] .

lemma pb_decode_svarint_returns:
  assumes "readable k stream"
  shows "\<exists>r stream'. pb_decode_svarint S stream = Some (r, stream') \<and> after k stream (r \<noteq> None) stream'"
  using pb_decode_varint_returns [OF assms] by (auto simp: pb_decode_svarint_def)

lemma pb_decode_fixed32_returns:
  assumes "readable k stream"
  shows "\<exists>r stream'. pb_decode_fixed32 S stream = Some (r, stream') \<and> after k stream (r \<noteq> None) stream'"
  using pb_read_returns [OF assms, of True 4] by (auto simp: pb_decode_fixed32_def)

lemma pb_decode_fixed64_returns:
  assumes "readable k stream"
  shows "\<exists>r stream'. pb_decode_fixed64 S stream = Some (r, stream') \<and> after k stream (r \<noteq> None) stream'"
  using pb_read_returns [OF assms, of True 8] by (auto simp: pb_decode_fixed64_def)

lemma pb_decode_tag_returns:
  assumes "readable k stream"
  shows "\<exists>ok w t eof stream'. pb_decode_tag S stream = Some (ok, w, t, eof, stream') \<and> after k stream ok stream' \<and>
    unat t < 2 ^ 29"
proof -
  obtain r eof s1 where r: "pb_decode_varint32_eof S stream = Some (r, eof, s1)" "after k stream (r \<noteq> None) s1"
    using pb_decode_varint32_eof_returns [OF assms] by blast
  have "unat (drop_bit 3 temp) < 2 ^ 29" for temp :: u32
    using unat_u32_less [of temp] by (simp add: drop_bit_eq_div unat_div)
  then show ?thesis using r after_weak [OF r(2), of False]
    by (cases r) (auto simp: pb_decode_tag_def)
qed

section \<open>Skipping and substreams\<close>

lemma pb_skip_returns:
  assumes "readable k stream"
  shows "\<exists>ok stream'. pb_skip S stream count = Some (ok, stream') \<and> after k stream False stream'"
  using pb_read_returns [OF assms, of False count] after_weak by (fastforce simp: pb_skip_def)

lemma pb_skip_varint_returns:
  assumes "readable k stream"
  shows "\<exists>ok stream'. pb_skip_varint S stream = Some (ok, stream') \<and> after k stream False stream'"
  using assms
proof (induction "unat (bytes_left stream)" arbitrary: stream rule: less_induct)
  case less
  obtain ok bs s1 where r: "pb_read S stream True 1 = Some (ok, bs, s1)" "after k stream ok s1"
    using pb_read_returns [OF less.prems, of True 1] by auto
  show ?case
  proof (cases "ok \<and> hd bs AND 0x80 \<noteq> 0")
    case True
    then have lt: "unat (bytes_left s1) < unat (bytes_left stream)" "readable k s1" using r(2) by (simp_all add: after_def)
    obtain ok' s2 where s2: "pb_skip_varint S s1 = Some (ok', s2)" "after k s1 False s2" using less.hyps [OF lt] by blast
    then have "after k stream False s2" using after_then [OF r(2)] after_weak by blast
    then show ?thesis using r True s2 by (simp add: pb_skip_varint.simps [of S stream])
  next
    case False
    then show ?thesis using r after_weak [OF r(2), of False] by (auto simp: pb_skip_varint.simps [of S stream])
  qed
qed

lemma pb_skip_string_returns:
  assumes "readable k stream"
  shows "\<exists>ok stream'. pb_skip_string S stream = Some (ok, stream') \<and> after k stream False stream'"
proof -
  obtain r s1 where r: "pb_decode_varint32 S stream = Some (r, s1)" "after k stream (r \<noteq> None) s1"
    using pb_decode_varint32_returns [OF assms] by blast
  have "\<exists>ok s2. pb_skip S s1 n = Some (ok, s2) \<and> after k stream False s2" for n
    using pb_skip_returns [OF after_readable [OF r(2)], of n] after_then [OF r(2)] after_weak by blast
  then show ?thesis using r after_weak [OF r(2), of False] by (cases r) (auto simp: pb_skip_string_def)
qed

lemma pb_skip_field_returns:
  assumes "readable k stream"
  shows "\<exists>ok stream'. pb_skip_field S stream w = Some (ok, stream') \<and> after k stream False stream'"
  using pb_skip_varint_returns [OF assms] pb_skip_returns [OF assms] pb_skip_string_returns [OF assms] after_same [OF assms]
  by (simp add: ex_bool_eq pb_skip_field_def)

lemma pb_make_string_substream_returns:
  assumes "readable k stream"
  shows "\<exists>ok stream' sub. pb_make_string_substream S stream = Some (ok, stream', sub) \<and> after k stream ok stream' \<and>
    (ok \<longrightarrow> (\<exists>s. sub = Some s \<and> readable (k + unat (bytes_left stream')) s \<and>
      unat (bytes_left s) < unat (bytes_left stream)))"
proof -
  obtain r s1 where r: "pb_decode_varint32 S stream = Some (r, s1)" "after k stream (r \<noteq> None) s1"
    using pb_decode_varint32_returns [OF assms] by blast
  show ?thesis
  proof (cases r)
    case None
    then show ?thesis using r by (simp add: ex_bool_eq pb_make_string_substream_def)
  next
    case (Some n)
    show ?thesis
    proof (cases "bytes_left s1 < ucast n")
      case True
      then show ?thesis using r Some after_weak [OF r(2), of False] by (simp add: ex_bool_eq pb_make_string_substream_def)
    next
      case False
      then have u: "unat (bytes_left s1 - ucast n) = unat (bytes_left s1) - unat (ucast n :: u64)"
        "unat (ucast n :: u64) \<le> unat (bytes_left s1)"
        by (simp_all add: unat_sub not_less word_le_nat_alt)
      then show ?thesis using r Some False avail_less
        by (auto simp: pb_make_string_substream_def after_def readable_def)
    qed
  qed
qed

lemma pb_close_string_substream_returns:
  assumes "readable k stream" "readable (k + unat (bytes_left stream)) sub"
  shows "\<exists>ok stream'. pb_close_string_substream S stream sub = Some (ok, stream') \<and> readable k stream' \<and>
    bytes_left stream' = bytes_left stream"
proof (cases "bytes_left sub = 0")
  case True
  then show ?thesis using assms(2) by (simp add: ex_bool_eq pb_close_string_substream_def readable_def add.commute)
next
  case False
  obtain ok s1 where s1: "pb_skip S sub (bytes_left sub) = Some (ok, s1)"
    "ok \<Longrightarrow> took (k + unat (bytes_left stream)) sub ok (unat (bytes_left sub)) s1"
    using pb_read_returns [OF assms(2), of False "bytes_left sub"] by (auto simp: pb_skip_def)
  show ?thesis
  proof (cases ok)
    case True
    then have "readable k (stream\<lparr>istate := istate s1, ierrmsg := ierrmsg s1\<rparr>)"
      using s1(2) by (auto simp: took_def readable_def add.commute add.left_commute)
    then show ?thesis using False True s1(1) by (simp add: ex_bool_eq pb_close_string_substream_def)
  next
    case f: False
    then show ?thesis using False assms(1) s1(1) by (simp add: ex_bool_eq pb_close_string_substream_def)
  qed
qed

end

interpretation buffer_reader: pb_reader "buffer_source (flat_task m)" "\<lambda>p n. \<forall>i < n. m (p + word_of_nat i) \<noteq> None" for m
proof
  fix stream :: "u64 pb_istream" and n and count :: u64 and buf
  assume a: "\<forall>i < n. m (istate stream + word_of_nat i) \<noteq> None" "unat count \<le> n"
  have "\<exists>bs. read_map m p k = Some bs" if "\<forall>i < k. m (p + word_of_nat i) \<noteq> None" for p k
    using that
  proof (induction k arbitrary: p)
    case (Suc k)
    have "m (p + 1 + word_of_nat i) \<noteq> None" if "i < k" for i using Suc.prems [rule_format, of "Suc i"] that by (simp add: add.assoc)
    then obtain bs where "read_map m (p + 1) k = Some bs" using Suc.IH [of "p + 1"] by blast
    then show ?case using Suc.prems [rule_format, of 0] by auto
  qed simp
  then obtain bs where bs: "read_map m (istate stream) (unat count) = Some bs" using a by (meson less_le_trans)
  have "m (istate stream + count + word_of_nat i) \<noteq> None" if "i < n - unat count" for i
    using a(1) [rule_format, of "unat count + i"] that by (simp add: add.assoc)
  then show "\<exists>ok bs st'. icallback (buffer_source (flat_task m)) stream buf count = Some (ok, bs, stream\<lparr>istate := st'\<rparr>) \<and>
      (\<forall>i < if ok then n - unat count else n. m (st' + word_of_nat i) \<noteq> None) \<and> length bs \<le> unat count \<and>
      (ok \<and> buf \<longrightarrow> length bs = unat count)"
    using bs read_map_length [OF bs]
    by (intro exI [of _ True] exI [of _ "if buf then bs else []"] exI [of _ "istate stream + count"])
      (simp add: buffer_source_def buf_read_def load_bytes_flat_task Let_def)
qed auto

section \<open>Where a decoder may write\<close>

definition bytes_at :: "u64 \<Rightarrow> nat \<Rightarrow> u64 set" where
  "bytes_at p n = {q. unat (q - p) < n}"

text \<open>The memory changes in \<open>R\<close> only, and stays mapped.\<close>

definition changes :: "u64 set \<Rightarrow> memory \<Rightarrow> memory \<Rightarrow> bool" where
  "changes R m m' \<longleftrightarrow> dom m \<subseteq> dom m' \<and> (\<forall>q. q \<notin> R \<longrightarrow> m' q = m q)"

lemma changes_refl [simp]: "changes R m m"
  by (simp add: changes_def)

lemma changes_trans: "changes R m m' \<Longrightarrow> changes R m' m'' \<Longrightarrow> changes R m m''"
  unfolding changes_def by (intro conjI allI impI; elim conjE) (rule order_trans, simp_all)

lemma changes_mono: "changes R m m' \<Longrightarrow> R \<subseteq> R' \<Longrightarrow> changes R' m m'"
  by (auto simp: changes_def)

lemma changes_dom: "changes R m m' \<Longrightarrow> dom m \<subseteq> dom m'"
  by (simp add: changes_def)

lemma changes_mapped: "changes R m m' \<Longrightarrow> mapped m p n \<Longrightarrow> mapped m' p n"
  by (rule mapped_dom [OF _ changes_dom])

lemma region_mono: "n \<le> n' \<Longrightarrow> bytes_at p n \<subseteq> bytes_at p n'"
  by (auto simp: bytes_at_def)

lemma region_offset:
  assumes "off + n \<le> N"
  shows "bytes_at (p + word_of_nat off) n \<subseteq> bytes_at p N"
proof
  fix q assume "q \<in> bytes_at (p + word_of_nat off) n"
  then have q: "unat (q - (p + word_of_nat off)) < n" by (simp add: bytes_at_def)
  have "q - p = word_of_nat off + (q - (p + word_of_nat off))" by simp
  then have "unat (q - p) \<le> unat (word_of_nat off :: u64) + unat (q - (p + word_of_nat off))"
    by (metis mod_less_eq_dividend unat_word_ariths(1))
  also have "unat (word_of_nat off :: u64) \<le> off" by (simp add: unat_of_nat)
  finally show "q \<in> bytes_at p N" using q assms by (simp add: bytes_at_def)
qed

lemma mapped_offset: "mapped m p N \<Longrightarrow> off + n \<le> N \<Longrightarrow> mapped m (p + word_of_nat off) n"
  by (auto simp: mapped_def add.assoc simp flip: of_nat_add)

lemma overwrite_changes: "changes (bytes_at p (length bs)) m (overwrite m p bs)"
  using dom_overwrite by (auto simp: changes_def overwrite_def bytes_at_def)

lemma store_at:
  assumes "mapped m p N" "off + length bs \<le> N"
  shows "\<exists>m'. store_bytes m (p + word_of_nat off) bs = Some m' \<and> changes (bytes_at p N) m m'"
  using store_mapped [OF mapped_offset [OF assms] refl] overwrite_changes region_offset [OF assms(2)]
  by (blast intro: changes_mono)

lemma store_in:
  assumes "mapped m p N" "length bs \<le> N"
  shows "\<exists>m'. store_bytes m p bs = Some m' \<and> changes (bytes_at p N) m m'"
  using store_at [OF assms(1), of 0 bs] assms(2) by simp

lemma store_word_in:
  assumes "mapped m p N" "n \<le> N"
  shows "\<exists>m'. store_word m p n v = Some m' \<and> changes (bytes_at p N) m m'"
  unfolding store_word_def using store_in [OF assms(1), of "le_bytes n (unat v)"] assms(2) by simp

lemma load_word_mapped:
  assumes "mapped m p n"
  shows "\<exists>v. load_word m p n = Some v"
proof -
  have "\<exists>bs. read_map m p n = Some bs" if "\<forall>i < n. m (p + word_of_nat i) \<noteq> None" for p
    using that
  proof (induction n arbitrary: p)
    case (Suc n)
    have "m (p + 1 + word_of_nat i) \<noteq> None" if "i < n" for i using Suc.prems [rule_format, of "Suc i"] that by (simp add: add.assoc)
    then obtain bs where "read_map m (p + 1) n = Some bs" using Suc.IH [of "p + 1"] by blast
    then show ?case using Suc.prems [rule_format, of 0] by auto
  qed simp
  then show ?thesis using assms by (auto simp: load_word_def mapped_def)
qed

text \<open>A field whose type fits its size.\<close>

definition value_field :: "pb_field \<Rightarrow> bool" where
  "value_field f \<longleftrightarrow>
     (let t = PB_LTYPE (ftype f); n = unat (data_size f) in
      t = PB_LTYPE_BOOL \<and> 1 \<le> n \<or> t = PB_LTYPE_VARINT \<or> t = PB_LTYPE_UVARINT \<or> t = PB_LTYPE_SVARINT \<or>
      t = PB_LTYPE_FIXED32 \<and> 4 \<le> n \<or> t = PB_LTYPE_FIXED64 \<and> 8 \<le> n \<or>
      t = PB_LTYPE_BYTES \<or> t = PB_LTYPE_STRING \<or> t = PB_LTYPE_FIXED_LENGTH_BYTES)"

lemma store_signed_in:
  assumes "mapped m p (unat n)"
  shows "store_signed m p n v = Some None \<or> (\<exists>c m'. store_signed m p n v = Some (Some (c, m')) \<and> changes (bytes_at p (unat n)) m m')"
  using store_word_in [OF assms, of 8 v] store_word_in [OF assms, of 4 "ucast v :: u32"]
    store_word_in [OF assms, of 2 "ucast v :: 16 word"] store_word_in [OF assms, of 1 "ucast v :: byte"]
  by (auto simp: store_signed_def)

lemma store_unsigned_in:
  assumes "mapped m p (unat n)"
  shows "store_unsigned m p n v = Some None \<or>
    (\<exists>c m'. store_unsigned m p n v = Some (Some (c, m')) \<and> changes (bytes_at p (unat n)) m m')"
  using store_word_in [OF assms, of 8 v] store_word_in [OF assms, of 4 "ucast v :: u32"]
    store_word_in [OF assms, of 2 "ucast v :: 16 word"] store_word_in [OF assms, of 1 "ucast v :: byte"]
  by (auto simp: store_unsigned_def)

context pb_reader begin

text \<open>A decoder that returns, whatever the input, and writes in \<open>R\<close> only.\<close>

definition writes_in :: "('st pb_istream \<Rightarrow> (bool \<times> 'st pb_istream \<times> memory) option) \<Rightarrow> nat \<Rightarrow> 'st pb_istream \<Rightarrow>
    u64 set \<Rightarrow> memory \<Rightarrow> bool" where
  "writes_in g k stream R m \<longleftrightarrow>
     (\<exists>ok stream' m'. g stream = Some (ok, stream', m') \<and> after k stream ok stream' \<and> changes R m m')"

lemma writes_inI: "g stream = Some (ok, stream', m') \<Longrightarrow> after k stream ok stream' \<Longrightarrow> changes R m m' \<Longrightarrow> writes_in g k stream R m"
  by (auto simp: writes_in_def)

lemma writes_in_cong: "g stream = h stream \<Longrightarrow> writes_in h k stream R m \<Longrightarrow> writes_in g k stream R m"
  by (simp add: writes_in_def)

lemma writes_in_mono: "writes_in g k stream R m \<Longrightarrow> R \<subseteq> R' \<Longrightarrow> writes_in g k stream R' m"
  unfolding writes_in_def using changes_mono by blast

lemma pb_dec_bool_safe:
  assumes "readable k stream" "mapped m p n" "1 \<le> n"
  shows "writes_in (\<lambda>s. pb_dec_bool S s m f p) k stream (bytes_at p n) m"
proof -
  obtain r s1 where r: "pb_decode_varint32 S stream = Some (r, s1)" "after k stream (r \<noteq> None) s1"
    using pb_decode_varint32_returns [OF assms(1)] by blast
  obtain m' where "store_bytes m p [if the r \<noteq> 0 then 1 else 0] = Some m'" "changes (bytes_at p n) m m'"
    using store_in [OF assms(2), of "[if the r \<noteq> 0 then 1 else 0]"] assms(3) by auto
  then show ?thesis using r by (cases r) (auto simp: pb_dec_bool_def writes_in_def simp del: store_bytes.simps)
qed

lemma clamped_safe:
  assumes "st = Some None \<or> (\<exists>c m'. st = Some (Some (c, m')) \<and> changes R m m')" "after k stream True s1"
  shows "writes_in (\<lambda>_. Option.bind st (\<lambda>r. case r of None \<Rightarrow> Some (False, iset_error msg s1, m)
      | Some (clamped, m) \<Rightarrow> if clamped \<noteq> v then Some (False, iset_error msg' s1, m) else Some (True, s1, m))) k stream R m"
proof (cases "st = Some None")
  case True
  then show ?thesis using after_weak [OF assms(2), of False] by (intro writes_inI [of _ _ False "iset_error msg s1" m]) simp_all
next
  case False
  then obtain c m' where st: "st = Some (Some (c, m'))" "changes R m m'" using assms(1) by blast
  show ?thesis
  proof (cases "c = v")
    case True
    then show ?thesis using st assms(2) by (intro writes_inI [of _ _ True s1 m']) simp_all
  next
    case False
    then show ?thesis using st after_weak [OF assms(2), of False]
      by (intro writes_inI [of _ _ False "iset_error msg' s1" m']) simp_all
  qed
qed

lemma pb_dec_varint_safe:
  assumes "readable k stream" "mapped m p (unat (data_size f))"
  shows "writes_in (\<lambda>s. pb_dec_varint S s m f p) k stream (bytes_at p (unat (data_size f))) m"
proof -
  obtain r s1 where r: "pb_decode_varint S stream = Some (r, s1)" "after k stream (r \<noteq> None) s1"
    using pb_decode_varint_returns [OF assms(1)] by blast
  have w: "after k stream False s1" using r(2) after_weak by blast
  show ?thesis
  proof (cases r)
    case None
    then show ?thesis using r by (intro writes_inI [of _ stream False s1 m]) (simp_all add: pb_dec_varint_def)
  next
    case (Some v)
    define sv where "sv = (if data_size f = 8 then v else scast (ucast v :: u32))"
    have e: "pb_dec_varint S stream m f p = Option.bind (store_signed m p (data_size f) sv) (\<lambda>r. case r of
        None \<Rightarrow> Some (False, iset_error ''invalid data_size'' s1, m)
      | Some (clamped, m) \<Rightarrow> if clamped \<noteq> sv then Some (False, iset_error ''integer too large'' s1, m) else Some (True, s1, m))"
    proof (cases "data_size f = 8")
      case True
      then have sv: "sv = v" by (simp add: sv_def)
      show ?thesis unfolding sv using True r(1) Some by (simp add: pb_dec_varint_def Let_def)
    next
      case False
      then have sv: "sv = scast (ucast v :: u32)" by (simp add: sv_def)
      show ?thesis unfolding sv using False r(1) Some by (simp add: pb_dec_varint_def Let_def)
    qed
    have "after k stream True s1" using r(2) Some by simp
    from clamped_safe [OF store_signed_in [OF assms(2), of sv] this] show ?thesis by (rule writes_in_cong [rotated]) (rule e)
  qed
qed

lemma pb_dec_uvarint_safe:
  assumes "readable k stream" "mapped m p (unat (data_size f))"
  shows "writes_in (\<lambda>s. pb_dec_uvarint S s m f p) k stream (bytes_at p (unat (data_size f))) m"
proof -
  obtain r s1 where r: "pb_decode_varint S stream = Some (r, s1)" "after k stream (r \<noteq> None) s1"
    using pb_decode_varint_returns [OF assms(1)] by blast
  have w: "after k stream False s1" using r(2) after_weak by blast
  show ?thesis
  proof (cases r)
    case None
    then show ?thesis using r by (intro writes_inI [of _ stream False s1 m]) (simp_all add: pb_dec_uvarint_def)
  next
    case (Some v)
    have e: "pb_dec_uvarint S stream m f p = Option.bind (store_unsigned m p (data_size f) v) (\<lambda>r. case r of
        None \<Rightarrow> Some (False, iset_error ''invalid data_size'' s1, m)
      | Some (clamped, m) \<Rightarrow> if clamped \<noteq> v then Some (False, iset_error ''integer too large'' s1, m) else Some (True, s1, m))"
      using r(1) Some by (simp add: pb_dec_uvarint_def)
    have "after k stream True s1" using r(2) Some by simp
    from clamped_safe [OF store_unsigned_in [OF assms(2), of v] this] show ?thesis by (rule writes_in_cong [rotated]) (rule e)
  qed
qed

lemma pb_dec_svarint_safe:
  assumes "readable k stream" "mapped m p (unat (data_size f))"
  shows "writes_in (\<lambda>s. pb_dec_svarint S s m f p) k stream (bytes_at p (unat (data_size f))) m"
proof -
  obtain r s1 where r: "pb_decode_svarint S stream = Some (r, s1)" "after k stream (r \<noteq> None) s1"
    using pb_decode_svarint_returns [OF assms(1)] by blast
  have w: "after k stream False s1" using r(2) after_weak by blast
  show ?thesis
  proof (cases r)
    case None
    then show ?thesis using r by (intro writes_inI [of _ stream False s1 m]) (simp_all add: pb_dec_svarint_def)
  next
    case (Some v)
    have e: "pb_dec_svarint S stream m f p = Option.bind (store_signed m p (data_size f) v) (\<lambda>r. case r of
        None \<Rightarrow> Some (False, iset_error ''invalid data_size'' s1, m)
      | Some (clamped, m) \<Rightarrow> if clamped \<noteq> v then Some (False, iset_error ''integer too large'' s1, m) else Some (True, s1, m))"
      using r(1) Some by (simp add: pb_dec_svarint_def)
    have "after k stream True s1" using r(2) Some by simp
    from clamped_safe [OF store_signed_in [OF assms(2), of v] this] show ?thesis by (rule writes_in_cong [rotated]) (rule e)
  qed
qed

lemma pb_dec_fixed32_safe:
  assumes "readable k stream" "mapped m p n" "4 \<le> n"
  shows "writes_in (\<lambda>s. pb_dec_fixed32 S s m f p) k stream (bytes_at p n) m"
proof -
  obtain r s1 where r: "pb_decode_fixed32 S stream = Some (r, s1)" "after k stream (r \<noteq> None) s1"
    using pb_decode_fixed32_returns [OF assms(1)] by blast
  obtain m' where "store_word m p 4 (the r) = Some m'" "changes (bytes_at p n) m m'"
    using store_word_in [OF assms(2,3), of "the r"] by blast
  then show ?thesis using r by (cases r) (auto simp: pb_dec_fixed32_def writes_in_def)
qed

lemma pb_dec_fixed64_safe:
  assumes "readable k stream" "mapped m p n" "8 \<le> n"
  shows "writes_in (\<lambda>s. pb_dec_fixed64 S s m f p) k stream (bytes_at p n) m"
proof -
  obtain r s1 where r: "pb_decode_fixed64 S stream = Some (r, s1)" "after k stream (r \<noteq> None) s1"
    using pb_decode_fixed64_returns [OF assms(1)] by blast
  obtain m' where "store_word m p 8 (the r) = Some m'" "changes (bytes_at p n) m m'"
    using store_word_in [OF assms(2,3), of "the r"] by blast
  then show ?thesis using r by (cases r) (auto simp: pb_dec_fixed64_def writes_in_def)
qed

lemma read_into_safe:
  assumes "readable k stream" "mapped m p N" "off + unat count \<le> N"
  shows "\<exists>ok stream' m'. read_into S stream m (p + word_of_nat off) count = Some (ok, stream', m') \<and>
    after k stream False stream' \<and> changes (bytes_at p N) m m'"
proof -
  obtain ok bs s1 where r: "pb_read S stream True count = Some (ok, bs, s1)" "after k stream (ok \<and> count \<noteq> 0) s1"
    "length bs \<le> unat count" using pb_read_returns [OF assms(1), of True count] by blast
  obtain m' where "store_bytes m (p + word_of_nat off) bs = Some m'" "changes (bytes_at p N) m m'"
    using store_at [OF assms(2), of off bs] r(3) assms(3) by auto
  then show ?thesis using r after_weak [OF r(2), of False] by (auto simp: read_into_def)
qed

lemma pb_dec_string_safe:
  assumes "readable k stream" "mapped m p (unat (data_size f))" "PB_ATYPE (ftype f) = PB_ATYPE_STATIC"
  shows "writes_in (\<lambda>s. pb_dec_string ra S s m f p) k stream (bytes_at p (unat (data_size f))) m"
proof -
  let ?N = "unat (data_size f)"
  obtain r s1 where r: "pb_decode_varint32 S stream = Some (r, s1)" "after k stream (r \<noteq> None) s1"
    using pb_decode_varint32_returns [OF assms(1)] by blast
  have w: "after k stream False s1" using r(2) after_weak by blast
  show ?thesis
  proof (cases r)
    case None
    then show ?thesis using r by (intro writes_inI [of _ stream False s1 m]) (simp_all add: pb_dec_string_def)
  next
    case (Some n)
    show ?thesis
    proof (cases "ucast (n + 1) < (ucast n :: u64) \<or> ucast (n + 1) > (ucast (data_size f) :: u64)")
      case True
      then have "\<exists>msg. pb_dec_string ra S stream m f p = Some (False, iset_error msg s1, m)"
        using r(1) Some assms(3) by (auto simp: pb_dec_string_def pb_atypes Let_def)
      then show ?thesis using w by (auto simp: writes_in_def)
    next
      case False
      then have le: "unat (n + 1) \<le> ?N" "unat n \<le> unat (n + 1)"
        by (simp_all add: not_less word_le_nat_alt unat_ucast_up)
      have "n + 1 \<noteq> 0" using le(2) by (auto simp: unat_eq_zero)
      then have n: "unat n + 1 \<le> ?N" "unat (ucast n :: u64) = unat n" using le(1) unatSuc [of n] by (simp_all add: unat_ucast_up add.commute)
      have c: "(ucast n :: u64) = word_of_nat (unat n)" using n(2) by (rule word_of_unat)
      obtain ok s2 m1 where s2: "read_into S s1 m p (ucast n) = Some (ok, s2, m1)" "after k s1 False s2"
        "changes (bytes_at p ?N) m m1"
        using read_into_safe [OF after_readable [OF r(2)] assms(2), of 0 "ucast n"] n by auto
      obtain m2 where m2: "store_bytes m1 (p + ucast n) [0] = Some m2" "changes (bytes_at p ?N) m1 m2"
        using store_at [OF changes_mapped [OF s2(3) assms(2)], of "unat n" "[0]"] n(1) unfolding c by auto
      have "after k stream ok s2" using after_then [OF r(2) s2(2)] Some by (auto intro: after_weak)
      moreover have "pb_dec_string ra S stream m f p = Some (ok, s2, m2)"
        using r(1) Some False s2(1) m2(1) assms(3) by (simp add: pb_dec_string_def pb_atypes Let_def del: store_bytes.simps)
      ultimately show ?thesis using changes_trans [OF s2(3) m2(2)] by (intro writes_inI)
    qed
  qed
qed

lemma pb_dec_bytes_safe:
  assumes "readable k stream" "mapped m p (unat (data_size f))" "PB_ATYPE (ftype f) = PB_ATYPE_STATIC"
  shows "writes_in (\<lambda>s. pb_dec_bytes ra S s m f p) k stream (bytes_at p (unat (data_size f))) m"
proof -
  let ?N = "unat (data_size f)"
  obtain r s1 where r: "pb_decode_varint32 S stream = Some (r, s1)" "after k stream (r \<noteq> None) s1"
    using pb_decode_varint32_returns [OF assms(1)] by blast
  have w: "after k stream False s1" using r(2) after_weak by blast
  show ?thesis
  proof (cases r)
    case None
    then show ?thesis using r by (intro writes_inI [of _ stream False s1 m]) (simp_all add: pb_dec_bytes_def)
  next
    case (Some n)
    show ?thesis
    proof (cases "ucast n > (ucast n :: u64) + 4 \<or> (ucast n :: u64) + 4 > ucast (data_size f)")
      case True
      then have "\<exists>msg. pb_dec_bytes ra S stream m f p = Some (False, iset_error msg s1, m)"
        using r(1) Some assms(3) by (auto simp: pb_dec_bytes_def pb_atypes Let_def)
      then show ?thesis using w by (auto simp: writes_in_def)
    next
      case False
      have n: "unat (ucast n :: u64) = unat n" by (simp add: unat_ucast_up)
      have lt: "unat n < 2 ^ 32" using unat_u32_less [of n] by simp
      have "(ucast n :: u64) + 4 = word_of_nat (unat n + 4)" using word_of_unat [OF n] by simp
      then have "unat ((ucast n :: u64) + 4) = unat n + 4" using lt by (simp only: unat_of_nat) simp
      then have le: "unat n + 4 \<le> ?N" using False by (simp add: not_less word_le_nat_alt unat_ucast_up)
      obtain m1 where m1: "store_word m p 4 n = Some m1" "changes (bytes_at p ?N) m m1"
        using store_word_in [OF assms(2), of 4 n] le by auto
      obtain ok s2 m2 where s2: "read_into S s1 m1 (p + 4) (ucast n) = Some (ok, s2, m2)" "after k s1 False s2"
        "changes (bytes_at p ?N) m1 m2"
        using read_into_safe [OF after_readable [OF r(2)] changes_mapped [OF m1(2) assms(2)], of 4 "ucast n"] n le by auto
      have "after k stream ok s2" using after_then [OF r(2) s2(2)] Some by (auto intro: after_weak)
      moreover have "pb_dec_bytes ra S stream m f p = Some (ok, s2, m2)"
        using r(1) Some False s2(1) m1(1) assms(3) by (simp add: pb_dec_bytes_def pb_atypes Let_def)
      ultimately show ?thesis using changes_trans [OF m1(2) s2(3)] by (intro writes_inI)
    qed
  qed
qed

lemma pb_dec_fixed_length_bytes_safe:
  assumes "readable k stream" "mapped m p (unat (data_size f))"
  shows "writes_in (\<lambda>s. pb_dec_fixed_length_bytes S s m f p) k stream (bytes_at p (unat (data_size f))) m"
proof -
  let ?N = "unat (data_size f)"
  obtain r s1 where r: "pb_decode_varint32 S stream = Some (r, s1)" "after k stream (r \<noteq> None) s1"
    using pb_decode_varint32_returns [OF assms(1)] by blast
  have w: "after k stream False s1" using r(2) after_weak by blast
  obtain m1 where m1: "store_bytes m p (replicate ?N 0) = Some m1" "changes (bytes_at p ?N) m m1"
    using store_in [OF assms(2), of "replicate ?N 0"] by auto
  have "unat (ucast (data_size f) :: u64) = ?N" by (simp add: unat_ucast_up)
  then obtain ok s2 m2 where s2: "read_into S s1 m p (ucast (data_size f)) = Some (ok, s2, m2)" "after k s1 False s2"
    "changes (bytes_at p ?N) m m2"
    using read_into_safe [OF after_readable [OF r(2)] assms(2), of 0 "ucast (data_size f)"] by auto
  have "after k stream ok s2" if "r \<noteq> None" using after_then [OF r(2) s2(2)] that by (auto intro: after_weak)
  then show ?thesis using r w m1 s2
    by (cases r; cases ok) (auto simp: pb_dec_fixed_length_bytes_def writes_in_def ex_bool_eq)
qed

lemma value_safe:
  assumes "value_field f" "PB_ATYPE (ftype f) = PB_ATYPE_STATIC" "readable k stream" "mapped m p (unat (data_size f))"
  shows "\<exists>dec. PB_DECODERS ra sub (PB_LTYPE (ftype f)) = Some dec \<and>
    writes_in (\<lambda>s. dec S s m f p) k stream (bytes_at p (unat (data_size f))) m"
  using assms(1)
    pb_dec_bool_safe [OF assms(3,4), of f] pb_dec_varint_safe [OF assms(3,4)] pb_dec_uvarint_safe [OF assms(3,4)]
    pb_dec_svarint_safe [OF assms(3,4)] pb_dec_fixed32_safe [OF assms(3,4), of f] pb_dec_fixed64_safe [OF assms(3,4), of f]
    pb_dec_bytes_safe [OF assms(3,4,2)] pb_dec_string_safe [OF assms(3,4,2)] pb_dec_fixed_length_bytes_safe [OF assms(3,4)]
  unfolding value_field_def Let_def
  by (elim disjE conjE; simp only: decoder_of) (simp_all add: PB_DECODERS_def pb_ltypes)

end

section \<open>Iterators during decoding\<close>

text \<open>The decoder lets \<open>pSize\<close> point to its own counter for an array of fixed count, until the iterator moves.\<close>

definition repeated_at :: "pb_field list \<Rightarrow> nat \<Rightarrow> bool" where
  "repeated_at table i \<longleftrightarrow> PB_HTYPE (ftype (message_fields table ! i)) = PB_HTYPE_REPEATED"

definition iter_near :: "pb_field list \<Rightarrow> u64 \<Rightarrow> u64 \<Rightarrow> pb_field_iter \<Rightarrow> bool" where
  "iter_near table dest slot iter \<longleftrightarrow>
     iter_in table dest iter \<or>
     (\<exists>it. iter_in table dest it \<and> repeated_at table (pos it) \<and> iter = it\<lparr>pSize := slot\<rparr>)"

lemma iter_near_cases:
  assumes "iter_near table dest slot iter"
  obtains it x where "iter_in table dest it" "iter = it\<lparr>pSize := x\<rparr>" "x = pSize it \<or> x = slot \<and> repeated_at table (pos it)"
  using assms unfolding iter_near_def by (metis pb_field_iter.surjective pb_field_iter.update_convs(6))

lemma next_any_size:
  assumes "iter_in table dest it" "no_unions table"
  shows "pb_field_iter_next (it\<lparr>pSize := x\<rparr>) = pb_field_iter_next it"
proof -
  have i: "start it = table" "pos it < length (message_fields table)" using iter_in_ok [OF assms(1)] by auto
  then have "message_fields table ! pos it \<in> set (message_fields table)" by simp
  then have "PB_HTYPE (ftype (message_fields table ! pos it)) \<noteq> PB_HTYPE_ONEOF" using assms(2) by (simp add: no_unions_def)
  then show ?thesis using message_fields_nth [OF i(2)] i(1)
    by (cases it) (auto simp: pb_field_iter_next_def Let_def split: bind_splits if_splits)
qed

lemma find_near:
  assumes "plain_table table" "iter_near table dest slot iter"
  shows "\<exists>found iter'. pb_field_iter_find iter t = Some (found, iter') \<and> iter_near table dest slot iter' \<and>
    (\<not> found \<longrightarrow> t \<notin> tag ` set (message_fields table))"
  using assms(2)
proof (cases rule: iter_near_cases)
  case (1 it x)
  note p = assms(1) [unfolded plain_table_def]
  have i: "start it = table" "pos it < length (message_fields table)" using iter_in_ok [OF 1(1)] by auto
  obtain found iter' where f: "pb_field_iter_find it t = Some (found, iter')" "iter_in table dest iter'"
    "found \<longleftrightarrow> (\<exists>f \<in> set (message_fields table). field_matches t f)"
    using find_in [OF 1(1)] p by blast
  have nt: "t \<notin> tag ` set (message_fields table)" if "\<not> found" using f(3) that p by (auto simp: field_matches_def)
  let ?f = "message_fields table ! pos it"
  have at: "field_at table (pos it) = Some ?f" using message_fields_nth [OF i(2)] by simp
  show ?thesis
  proof (cases "tag ?f = t \<and> PB_LTYPE (ftype ?f) \<noteq> PB_LTYPE_EXTENSION")
    case True
    then have "pb_field_iter_find iter t = Some (True, iter)"
      using at i(1) 1(2) by (simp add: pb_field_iter_find_def find_loop.simps)
    then show ?thesis using assms(2) by blast
  next
    case False
    then have "find_loop iter (pos iter) t = find_loop it (pos it) t"
      using at i(1) 1(2) next_any_size [OF 1(1)] p by (auto simp: find_loop.simps [of it] find_loop.simps [of "it\<lparr>pSize := x\<rparr>"])
    then show ?thesis using f nt by (auto simp: pb_field_iter_find_def iter_near_def)
  qed
qed

lemma find_extension_near:
  assumes "plain_table table" "iter_near table dest slot iter" "t \<notin> tag ` set (message_fields table)"
  shows "\<exists>iter'. find_extension_field iter = Some (False, iter') \<and> iter_in table dest iter'"
  using assms(2)
proof (cases rule: iter_near_cases)
  case (1 it x)
  note p = assms(1) [unfolded plain_table_def]
  have i: "start it = table" "pos it < length (message_fields table)" using iter_in_ok [OF 1(1)] by auto
  then have "message_fields table ! pos it \<in> set (message_fields table)" by simp
  then have ne: "PB_LTYPE (ftype (message_fields table ! pos it)) \<noteq> PB_LTYPE_EXTENSION" using p by blast
  have "find_extension_loop iter (pos iter) = find_extension_loop it (pos it)"
    using message_fields_nth [OF i(2)] i(1) 1(2) ne next_any_size [OF 1(1)] p
    by (simp add: find_extension_loop.simps [of it] find_extension_loop.simps [of "it\<lparr>pSize := x\<rparr>"])
  then show ?thesis using find_no_extension [OF assms(1) 1(1) assms(3)] by (simp add: find_extension_field_def)
qed

lemma count_required_near:
  assumes "plain_table table" "iter_near table dest slot iter"
  shows "\<exists>n last iter'. count_required iter = Some (n, last, iter') \<and> iter_in table dest iter'"
  using assms(2)
proof (cases rule: iter_near_cases)
  case (1 it x)
  note p = assms(1) [unfolded plain_table_def]
  have "count_required iter = count_required it"
    using 1(2) next_any_size [OF 1(1)] p by (simp add: count_required.simps [of it] count_required.simps [of "it\<lparr>pSize := x\<rparr>"] Let_def)
  then show ?thesis using count_required_in [OF 1(1)] p by auto
qed

section \<open>Static messages\<close>

text \<open>An array of fixed count has no count in the structure: its descriptor has size offset 0.  Setting it to its
  default stores four bytes into the array itself, which it must have.\<close>

definition room_for_count :: "pb_field \<Rightarrow> bool" where
  "room_for_count f \<longleftrightarrow> (PB_HTYPE (ftype f) = PB_HTYPE_REPEATED \<and> size_offset f = 0 \<longrightarrow>
     value_field f \<and> 4 \<le> unat (data_size f) * unat (array_size f))"

text \<open>A table of static fields whose submessages are static too, nested less than \<open>d\<close> deep.\<close>

primrec static_message :: "nat \<Rightarrow> (u64 \<Rightarrow> pb_field list option) \<Rightarrow> pb_field list \<Rightarrow> bool" where
  "static_message 0 tabs table = False"
| "static_message (Suc d) tabs table \<longleftrightarrow> plain_table table \<and>
     (\<forall>f \<in> set (message_fields table).
        PB_ATYPE (ftype f) = PB_ATYPE_STATIC \<and> unat (data_size f) * unat (array_size f) < 2 ^ 32 \<and>
        room_for_count f \<and>
        (value_field f \<or>
         PB_LTYPE (ftype f) = PB_LTYPE_SUBMESSAGE \<and> ptr f \<noteq> 0 \<and>
         (case tabs (ptr f) of None \<Rightarrow> False | Some sub \<Rightarrow> static_message d tabs sub)))"

text \<open>The bytes of a message: the values of its fields, arrays and submessages included, the marks of optional
  fields and the counts of the arrays that have one.\<close>

definition field_count :: "pb_field \<Rightarrow> nat" where
  "field_count f = (if PB_HTYPE (ftype f) = PB_HTYPE_REPEATED then unat (array_size f) else 1)"

definition size_space :: "pb_field \<Rightarrow> u64 \<Rightarrow> u64 set" where
  "size_space f a =
     (if has_mark f then bytes_at (a + scast (size_offset f)) 1
      else if PB_HTYPE (ftype f) = PB_HTYPE_REPEATED \<and> size_offset f \<noteq> 0 then bytes_at (a + scast (size_offset f)) 4
      else {})"

text \<open>What the code writes at \<open>pSize\<close> when it sets the field to its default.\<close>

definition reset_space :: "pb_field \<Rightarrow> u64 \<Rightarrow> u64 set" where
  "reset_space f a =
     (if has_mark f then bytes_at (a + scast (size_offset f)) 1
      else if PB_HTYPE (ftype f) = PB_HTYPE_REPEATED then bytes_at (a + scast (size_offset f)) 4
      else {})"

definition field_space :: "(pb_field list \<Rightarrow> u64 \<Rightarrow> u64 set) \<Rightarrow> (u64 \<Rightarrow> pb_field list option) \<Rightarrow> pb_field \<Rightarrow> u64 \<Rightarrow> u64 set" where
  "field_space sub tabs f a = size_space f a \<union>
     (\<Union>k < field_count f.
        let p = item_at a f (word_of_nat k) in
        if PB_LTYPE (ftype f) = PB_LTYPE_SUBMESSAGE then sub (the (tabs (ptr f))) p
        else bytes_at p (unat (data_size f)))"

primrec footprint :: "nat \<Rightarrow> (u64 \<Rightarrow> pb_field list option) \<Rightarrow> pb_field list \<Rightarrow> u64 \<Rightarrow> u64 set" where
  "footprint 0 tabs table dest = {}"
| "footprint (Suc d) tabs table dest =
     (\<Union>i < length (message_fields table).
        field_space (footprint d tabs) tabs (message_fields table ! i) (field_addr table dest i))"

definition call_frames :: "(nat \<Rightarrow> u64) \<Rightarrow> nat \<Rightarrow> u64 set" where
  "call_frames frm d = (\<Union>k \<le> d. bytes_at (frm k) 4)"

lemma mapped_region: "bytes_at p n \<subseteq> R \<Longrightarrow> R \<subseteq> dom m \<Longrightarrow> n \<le> 2 ^ 64 \<Longrightarrow> mapped m p n"
proof -
  assume a: "bytes_at p n \<subseteq> R" "R \<subseteq> dom m" "n \<le> 2 ^ 64"
  have "p + word_of_nat i \<in> bytes_at p n" if "i < n" for i
    using that unat_of_nat [where 'a = 64, of i] by (simp add: bytes_at_def)
  then show ?thesis using a unfolding mapped_def domIff [symmetric] by blast
qed

lemma item_at_0: "item_at a f 0 = a"
  by (simp add: item_at_def)

lemma field_value_space:
  assumes "k < field_count f" "PB_LTYPE (ftype f) \<noteq> PB_LTYPE_SUBMESSAGE"
  shows "bytes_at (item_at a f (word_of_nat k)) (unat (data_size f)) \<subseteq> field_space sub tabs f a"
  using assms by (auto simp: field_space_def Let_def)

lemma field_message_space:
  assumes "k < field_count f" "PB_LTYPE (ftype f) = PB_LTYPE_SUBMESSAGE" "tabs (ptr f) = Some table"
  shows "sub table (item_at a f (word_of_nat k)) \<subseteq> field_space sub tabs f a"
  using assms by (auto simp: field_space_def Let_def)

lemma field_in_footprint:
  "i < length (message_fields table) \<Longrightarrow>
    field_space (footprint d tabs) tabs (message_fields table ! i) (field_addr table dest i) \<subseteq> footprint (Suc d) tabs table dest"
  by auto

lemma item_address:
  assumes "unat (data_size f) * unat (array_size f) < 2 ^ 32" "k < unat (array_size f)"
  shows "item_at p f (word_of_nat k) = p + word_of_nat k * ucast (data_size f)"
proof -
  have "unat (data_size f) * k \<le> unat (data_size f) * unat (array_size f)" using assms(2) by simp
  then have lt: "unat (data_size f) * k < 2 ^ 32" using assms(1) by (rule le_less_trans)
  have "data_size f * word_of_nat k = word_of_nat (unat (data_size f) * k)" by simp
  then have "unat (data_size f * word_of_nat k) = unat (data_size f) * k" using lt unat_u32 by metis
  then have "unat (ucast (data_size f * word_of_nat k) :: u64) = unat (data_size f) * k" by (simp add: unat_ucast_up)
  then have "(ucast (data_size f * word_of_nat k) :: u64) = word_of_nat (unat (data_size f) * k)" by (rule word_of_unat)
  moreover have "(ucast (data_size f) :: u64) = word_of_nat (unat (data_size f))"
    by (rule word_of_unat) (simp add: unat_ucast_up)
  ultimately show ?thesis unfolding item_at_def by (simp only: of_nat_mult mult.commute)
qed

lemma array_covers:
  assumes "unat (data_size f) * unat (array_size f) < 2 ^ 32" "n \<le> unat (data_size f) * unat (array_size f)"
  shows "bytes_at a n \<subseteq> (\<Union>k < unat (array_size f). bytes_at (item_at a f (word_of_nat k)) (unat (data_size f)))"
proof
  fix q assume "q \<in> bytes_at a n"
  then have q: "unat (q - a) < unat (data_size f) * unat (array_size f)" using assms(2) by (simp add: bytes_at_def)
  let ?s = "unat (data_size f)" and ?j = "unat (q - a)"
  have s: "0 < ?s" using q by (cases "?s = 0") auto
  have k: "?j div ?s < unat (array_size f)" using q by (simp add: less_mult_imp_div_less mult.commute)
  have "item_at a f (word_of_nat (?j div ?s)) = a + word_of_nat (?j div ?s * ?s)"
    using item_address [OF assms(1) k, of a] word_of_unat [of "ucast (data_size f) :: u64" ?s] by (simp add: unat_ucast_up)
  moreover have "q = a + word_of_nat (?j div ?s * ?s) + word_of_nat (?j mod ?s)"
  proof -
    have "q - a = word_of_nat (?j div ?s * ?s + ?j mod ?s)" by (rule word_of_unat) simp
    then have "q - a = word_of_nat (?j div ?s * ?s) + word_of_nat (?j mod ?s)" by (simp only: of_nat_add)
    then show ?thesis by (simp add: algebra_simps)
  qed
  ultimately have "q - item_at a f (word_of_nat (?j div ?s)) = word_of_nat (?j mod ?s)" by (metis add_diff_cancel_left')
  then have "unat (q - item_at a f (word_of_nat (?j div ?s))) = unat (word_of_nat (?j mod ?s) :: u64)" by (rule arg_cong)
  also have "\<dots> \<le> ?j mod ?s" by (simp add: unsigned_of_nat take_bit_nat_less_eq_self)
  also have "\<dots> < ?s" using s by simp
  finally show "q \<in> (\<Union>k < unat (array_size f). bytes_at (item_at a f (word_of_nat k)) ?s)"
    using k by (auto simp: bytes_at_def)
qed

lemma reset_in_field:
  assumes "room_for_count f" "unat (data_size f) * unat (array_size f) < 2 ^ 32"
  shows "reset_space f a \<subseteq> field_space sub tabs f a"
proof (cases "PB_HTYPE (ftype f) = PB_HTYPE_REPEATED \<and> size_offset f = 0")
  case True
  then have "value_field f" "4 \<le> unat (data_size f) * unat (array_size f)" using assms(1) by (auto simp: room_for_count_def)
  moreover from this(1) have "PB_LTYPE (ftype f) \<noteq> PB_LTYPE_SUBMESSAGE" by (auto simp: value_field_def pb_ltypes Let_def)
  ultimately show ?thesis using True array_covers [OF assms(2), of 4 a]
    by (auto simp: reset_space_def field_space_def field_count_def has_mark_def Let_def)
next
  case False
  then have "reset_space f a \<subseteq> size_space f a" by (auto simp: reset_space_def size_space_def)
  then show ?thesis by (auto simp: field_space_def)
qed

lemma htype_cases:
  obtains "PB_HTYPE x = PB_HTYPE_REQUIRED" | "PB_HTYPE x = PB_HTYPE_OPTIONAL" | "PB_HTYPE x = PB_HTYPE_REPEATED"
  | "PB_HTYPE x = PB_HTYPE_ONEOF"
proof -
  have "PB_HTYPE x = (if bit x 4 then 0x10 else 0) OR (if bit x 5 then 0x20 else 0)"
  proof (rule bit_word_eqI)
    fix n assume "n < LENGTH(8)"
    then consider "n = 0" | "n = 1" | "n = 2" | "n = 3" | "n = 4" | "n = 5" | "n = 6" | "n = 7" by fastforce
    then show "bit (PB_HTYPE x) n = bit ((if bit x 4 then 0x10 else 0) OR (if bit x 5 then 0x20 else 0) :: byte) n"
      by cases (simp_all add: PB_HTYPE_def bit_simps)
  qed
  then show ?thesis using that by (auto simp: pb_htypes split: if_splits)
qed

end
