(* ===== verification/Pb_Message_Safety.thy ===== *)
theory Pb_Message_Safety
  imports Pb_Safety
begin

text \<open>Memory safety of the message decoder: by the depth of the nesting, every step of \<open>pb_decode\<close> returns on any
  input and writes only the structure and the frames of the call, defaults and releasing included.\<close>

lemma count_at:
  assumes "bytes_at p 4 \<subseteq> R" "R \<subseteq> dom m0" "dom m0 \<subseteq> dom m"
  shows "\<exists>n :: u32. load_word m p 4 = Some n" "\<exists>m'. store_word m p 4 (v :: u32) = Some m' \<and> changes R m m'"
proof -
  have m: "mapped m p 4" using assms by (intro mapped_region [OF assms(1)]) auto
  show "\<exists>n :: u32. load_word m p 4 = Some n" using load_word_mapped [OF m] by blast
  show "\<exists>m'. store_word m p 4 v = Some m' \<and> changes R m m'"
    using store_word_in [OF m order_refl] changes_mono [OF _ assms(1)] by blast
qed

context pb_reader begin

text \<open>One value can be decoded at \<open>p\<close> from any input, and is written in \<open>R\<close>; a field can.\<close>

definition item_safe :: "'st pb_dec_env \<Rightarrow> 'st pb_decoder \<Rightarrow> u64 set \<Rightarrow> memory \<Rightarrow> pb_field \<Rightarrow> u64 \<Rightarrow> bool" where
  "item_safe env sub R m0 f p \<longleftrightarrow>
     (\<exists>dec. PB_DECODERS (pb_realloc env) sub (PB_LTYPE (ftype f)) = Some dec \<and>
       (\<forall>k stream m. readable k stream \<longrightarrow> dom m0 \<subseteq> dom m \<longrightarrow> writes_in (\<lambda>s. dec S s m f p) k stream R m))"

definition field_safe :: "'st pb_dec_env \<Rightarrow> 'st pb_decoder \<Rightarrow> u64 set \<Rightarrow> memory \<Rightarrow> pb_field \<Rightarrow> u64 \<Rightarrow> bool" where
  "field_safe env sub R m0 f a \<longleftrightarrow> PB_ATYPE (ftype f) = PB_ATYPE_STATIC \<and> PB_HTYPE (ftype f) \<noteq> PB_HTYPE_ONEOF \<and>
     reset_space f a \<subseteq> R \<and> (\<forall>k < field_count f. item_safe env sub R m0 f (item_at a f (word_of_nat k)))"

lemma writes_in_obtain:
  assumes "writes_in g k stream R m"
  obtains ok stream' m' where "g stream = Some (ok, stream', m')" "after k stream ok stream'" "changes R m m'"
  using assms unfolding writes_in_def by blast

lemma static_packed_loop_safe:
  assumes item: "\<And>k stream m (n :: u32). readable k stream \<Longrightarrow> dom m0 \<subseteq> dom m \<Longrightarrow> n < array_size f \<Longrightarrow>
      writes_in (\<lambda>s. func s m (item_at data f n)) k stream R m"
    and R: "bytes_at size_ptr 4 \<subseteq> R" "R \<subseteq> dom m0"
    and "readable k sub" "dom m0 \<subseteq> dom m"
  shows "\<exists>status sub' m'. static_packed_loop func f data size_ptr sub m = Some (status, sub', m') \<and>
    after k sub False sub' \<and> changes R m m'"
  using assms(4,5)
proof (induction "unat (bytes_left sub)" arbitrary: sub m rule: less_induct)
  case less
  obtain n :: u32 where n: "load_word m size_ptr 4 = Some n" using count_at(1) [OF R less.prems(2)] by blast
  show ?case
  proof (cases "bytes_left sub > 0 \<and> n < array_size f")
    case False
    then show ?thesis using n after_same [OF less.prems(1)]
      by (cases "bytes_left sub > 0") (auto simp: static_packed_loop.simps [of func f data size_ptr sub m] ex_bool_eq)
  next
    case True
    obtain ok s1 m1 where s1: "func sub m (item_at data f n) = Some (ok, s1, m1)" "after k sub ok s1" "changes R m m1"
      using item [OF less.prems, of n] True by (auto elim: writes_in_obtain)
    have d1: "dom m0 \<subseteq> dom m1" using less.prems(2) changes_dom [OF s1(3)] by (rule order_trans)
    show ?thesis
    proof (cases ok)
      case False
      have "static_packed_loop func f data size_ptr sub m = Some (False, s1, m1)"
        using n True s1(1) False by (simp add: static_packed_loop.simps [of func f data size_ptr sub m])
      then show ?thesis using s1(3) False after_weak [OF s1(2), of False] by blast
    next
      case ok: True
      obtain n1 :: u32 where n1: "load_word m1 size_ptr 4 = Some n1" using count_at(1) [OF R d1] by blast
      obtain m2 where m2: "store_word m1 size_ptr 4 (n1 + 1) = Some m2" "changes R m1 m2" using count_at(2) [OF R d1] by blast
      have d2: "dom m0 \<subseteq> dom m2" using d1 changes_dom [OF m2(2)] by (rule order_trans)
      have lt: "unat (bytes_left s1) < unat (bytes_left sub)" "readable k s1" using s1(2) ok by (simp_all add: after_def)
      obtain status s2 m3 where s2: "static_packed_loop func f data size_ptr s1 m2 = Some (status, s2, m3)"
        "after k s1 False s2" "changes R m2 m3" using less.hyps [OF lt d2] by blast
      have "static_packed_loop func f data size_ptr sub m = Some (status, s2, m3)"
        using n True s1(1) ok n1 m2(1) s2(1) by (simp add: static_packed_loop.simps [of func f data size_ptr sub m])
      moreover have "after k sub False s2" using after_then [OF s1(2) s2(2)] after_weak by blast
      ultimately show ?thesis using changes_trans [OF changes_trans [OF s1(3) m2(2)] s2(3)] by blast
    qed
  qed
qed

lemma decode_static_field_safe:
  assumes "iter_near table dest slot iter" "f = message_fields table ! pos iter"
    and safe: "field_safe env sub R m0 f (field_addr table dest (pos iter))"
    and R: "bytes_at slot 4 \<subseteq> R" "R \<subseteq> dom m0" and "readable k stream" "dom m0 \<subseteq> dom m"
  shows "writes_in (\<lambda>s. decode_static_field d env sub S s m w iter) k stream R m"
  using assms(1)
proof (cases rule: iter_near_cases)
  case (1 it x)
  let ?a = "field_addr table dest (pos it)"
  have pos: "pos iter = pos it" "start iter = table" "pos it < length (message_fields table)"
    using 1(1,2) iter_in_ok by auto
  have f: "field_at (start iter) (pos iter) = Some f" using message_fields_nth [OF pos(3)] pos assms(2) by simp
  have ps: "pData iter = ?a" "pSize it = ?a + scast (size_offset f)" "pSize iter = x"
    using 1(1,2) assms(2) pos by (simp_all add: iter_in_def)
  note s = safe [unfolded field_safe_def pos(1)]
  obtain dec where dec: "PB_DECODERS (pb_realloc env) sub (PB_LTYPE (ftype f)) = Some dec"
    if "0 < field_count f"
  proof (cases "0 < field_count f")
    case True
    then have "item_safe env sub R m0 f (item_at ?a f (word_of_nat 0))" using s by blast
    then show ?thesis using that by (auto simp: item_safe_def)
  qed (simp add: that)
  have item: "writes_in (\<lambda>s. dec S s m (f) (item_at ?a f (word_of_nat n))) k stream R m"
    if "n < field_count f" "readable k stream" "dom m0 \<subseteq> dom m" for n k stream m
  proof -
    have "item_safe env sub R m0 f (item_at ?a f (word_of_nat n))" using s that(1) by blast
    then show ?thesis using dec that by (auto simp: item_safe_def)
  qed
  let ?func = "\<lambda>s m p. do { e \<leftarrow> PB_DECODERS (pb_realloc env) sub (PB_LTYPE (ftype f)); e S s m f p }"
  show ?thesis
  proof (cases "PB_HTYPE (ftype f) = PB_HTYPE_REPEATED")
    case False
    then have c: "0 < field_count f" by (simp add: field_count_def)
    have x: "x = pSize it" using 1(3) False assms(2) pos by (auto simp: repeated_at_def)
    show ?thesis
    proof (cases "PB_HTYPE (ftype f) = PB_HTYPE_REQUIRED")
      case True
      have e: "decode_static_field d env sub S stream m w iter = dec S stream m f ?a"
        using f True dec [OF c] ps by (simp add: decode_static_field_def)
      obtain ok s1 m1 where "dec S stream m f ?a = Some (ok, s1, m1)" "after k stream ok s1" "changes R m m1"
        using item [OF c assms(6,7)] by (auto simp: item_at_0 elim: writes_in_obtain)
      then show ?thesis using e by (intro writes_inI) auto
    next
      case nr: False
      then have opt: "PB_HTYPE (ftype f) = PB_HTYPE_OPTIONAL"
        using False s by (cases rule: htype_cases [of "ftype f"]) auto
      have ne: "pSize iter \<noteq> pData iter \<longleftrightarrow> has_mark f" using ps x scast_zero opt by (simp add: has_mark_def)
      obtain m1 where m1: "(if has_mark f then store_bytes m (pSize iter) [1] else Some m) = Some m1" "changes R m m1"
      proof (cases "has_mark f")
        case True
        then have r: "bytes_at (pSize iter) 1 \<subseteq> R" using s ps x by (simp add: reset_space_def)
        have "mapped m (pSize iter) 1" using R(2) assms(7) by (intro mapped_region [OF r]) auto
        then show ?thesis using that True store_in [of m "pSize iter" 1 "[1]"] changes_mono [OF _ r]
          by (auto simp del: store_bytes.simps)
      qed (use that in simp)
      have d1: "dom m0 \<subseteq> dom m1" using assms(7) changes_dom [OF m1(2)] by (rule order_trans)
      have e: "decode_static_field d env sub S stream m w iter = dec S stream m1 f ?a"
        using f opt dec [OF c] ps(1) m1(1) ne by (simp add: decode_static_field_def pb_htypes)
      obtain ok s1 m2 where "dec S stream m1 f ?a = Some (ok, s1, m2)" "after k stream ok s1" "changes R m1 m2"
        using item [OF c assms(6) d1] by (auto simp: item_at_0 elim: writes_in_obtain)
      then show ?thesis using e changes_trans [OF m1(2)] by (intro writes_inI) auto
    qed
  next
    case rep: True
    have c: "field_count f = unat (array_size f)" using rep by (simp add: field_count_def)
    have count: "bytes_at (pSize iter) 4 \<subseteq> R"
      using 1(3) ps s R(1) rep by (auto simp: reset_space_def has_mark_def pb_htypes)
    have loop_item: "writes_in (\<lambda>s. ?func s m (item_at ?a f n)) k stream R m"
      if "readable k stream" "dom m0 \<subseteq> dom m" "n < array_size f" for k stream m n
    proof -
      have n: "unat n < field_count f" using that(3) c by (simp add: word_less_nat_alt)
      then show ?thesis using item [OF n that(1,2)] dec by simp
    qed
    show ?thesis
    proof (cases "w = PB_WT_STRING \<and> PB_LTYPE (ftype f) \<le> PB_LTYPE_LAST_PACKABLE")
      case True
      obtain ok s1 sub1 where s1: "pb_make_string_substream S stream = Some (ok, s1, sub1)" "after k stream ok s1"
        "ok \<Longrightarrow> \<exists>t. sub1 = Some t \<and> readable (k + unat (bytes_left s1)) t"
        using pb_make_string_substream_returns [OF assms(6)] by blast
      show ?thesis
      proof (cases ok)
        case False
        have "decode_static_field d env sub S stream m w iter = Some (False, s1, m)"
          using f rep True s1(1) False by (simp add: decode_static_field_def pb_htypes)
        then show ?thesis using s1(2) False by (intro writes_inI) auto
      next
        case ok: True
        obtain t where t: "sub1 = Some t" "readable (k + unat (bytes_left s1)) t" using s1(3) ok by blast
        obtain status t' m' where loop: "static_packed_loop ?func f ?a (pSize iter) t m = Some (status, t', m')"
          "after (k + unat (bytes_left s1)) t False t'" "changes R m m'"
          using static_packed_loop_safe [where func = ?func and data = ?a and f = f, OF loop_item count R(2) t(2) assms(7)] by blast
        obtain ok2 s2 where s2: "pb_close_string_substream S s1 t' = Some (ok2, s2)" "readable k s2" "bytes_left s2 = bytes_left s1"
          using pb_close_string_substream_returns [OF after_readable [OF s1(2)] after_readable [OF loop(2)]] by blast
        have a2: "after k stream True s2" using s1(2) s2(2,3) ok by (simp add: after_def)
        have e: "decode_static_field d env sub S stream m w iter =
            (if bytes_left t' \<noteq> 0 then Some (False, iset_error ''array overflow'' s1, m')
             else Some (if \<not> ok2 then False else status, s2, m'))"
          using f rep True s1(1) ok t(1) ps(1) loop(1) s2(1) by (simp add: decode_static_field_def pb_htypes)
        show ?thesis
        proof (cases "bytes_left t' \<noteq> 0")
          case True
          then show ?thesis using e after_weak [OF s1(2), of False] loop(3)
            by (intro writes_inI [of _ _ False "iset_error ''array overflow'' s1" m']) simp_all
        next
          case False
          then show ?thesis using e after_weak [OF a2] loop(3)
            by (intro writes_inI [of _ _ "if \<not> ok2 then False else status" s2 m']) simp_all
        qed
      qed
    next
      case False
      obtain n :: u32 where n: "load_word m (pSize iter) 4 = Some n" using count_at(1) [OF count R(2) assms(7)] by blast
      obtain m1 where m1: "store_word m (pSize iter) 4 (n + 1) = Some m1" "changes R m m1"
        using count_at(2) [OF count R(2) assms(7)] by blast
      have d1: "dom m0 \<subseteq> dom m1" using assms(7) changes_dom [OF m1(2)] by (rule order_trans)
      have e: "decode_static_field d env sub S stream m w iter =
          (if n \<ge> array_size f then Some (False, iset_error ''array overflow'' stream, m1) else ?func stream m1 (item_at ?a f n))"
        using f rep False n m1(1) ps(1) by (auto simp: decode_static_field_def pb_htypes)
      show ?thesis
      proof (cases "n \<ge> array_size f")
        case True
        then show ?thesis using e after_same [OF assms(6)] m1(2)
          by (intro writes_inI [of _ _ False "iset_error ''array overflow'' stream" m1]) simp_all
      next
        case lt: False
        obtain ok s1 m2 where s1: "?func stream m1 (item_at ?a f n) = Some (ok, s1, m2)" "after k stream ok s1" "changes R m1 m2"
          using writes_in_obtain [OF loop_item [OF assms(6) d1]] lt by (metis not_le)
        show ?thesis
        proof (rule writes_inI)
          show "decode_static_field d env sub S stream m w iter = Some (ok, s1, m2)" using e lt s1(1) by simp
        qed (use s1(2) changes_trans [OF m1(2) s1(3)] in simp_all)
      qed
    qed
  qed
qed

end

lemma note_required_same [simp]:
  "nstream (note_required f st) = nstream st" "nmem (note_required f st) = nmem st" "niter (note_required f st) = niter st"
  "fixed_count_field (note_required f st) = fixed_count_field st"
  by (simp_all add: note_required_def Let_def)

context pb_reader begin

text \<open>The state of the message loop: the table's fields are safe, the counter is in \<open>R\<close>.\<close>

definition table_safe :: "'st pb_dec_env \<Rightarrow> 'st pb_decoder \<Rightarrow> u64 set \<Rightarrow> memory \<Rightarrow> pb_field list \<Rightarrow> u64 \<Rightarrow> u64 \<Rightarrow> bool" where
  "table_safe env sub R m0 table dest slot \<longleftrightarrow> plain_table table \<and> bytes_at slot 4 \<subseteq> R \<and> R \<subseteq> dom m0 \<and>
     (\<forall>i < length (message_fields table). field_safe env sub R m0 (message_fields table ! i) (field_addr table dest i))"

definition loop_state :: "memory \<Rightarrow> pb_field list \<Rightarrow> u64 \<Rightarrow> u64 \<Rightarrow> nat \<Rightarrow> 'st noinit \<Rightarrow> bool" where
  "loop_state m0 table dest slot k st \<longleftrightarrow> iter_near table dest slot (niter st) \<and> readable k (nstream st) \<and>
     dom m0 \<subseteq> dom (nmem st) \<and> (\<forall>i. fixed_count_field st = Some i \<longrightarrow> i < length (message_fields table))"

lemma fixed_count_wrong_returns:
  assumes "table_safe env sub R m0 table dest slot" "dom m0 \<subseteq> dom m" "\<And>i. field = Some i \<Longrightarrow> i < length (message_fields table)"
  shows "\<exists>b. fixed_count_wrong table m slot field = Some b"
proof (cases field)
  case (Some i)
  have "bytes_at slot 4 \<subseteq> R" "R \<subseteq> dom m0" using assms(1) by (simp_all add: table_safe_def)
  from count_at(1) [OF this assms(2)] obtain n :: u32 where "load_word m slot 4 = Some n" by blast
  then show ?thesis using Some message_fields_nth [OF assms(3) [OF Some]] by (simp add: fixed_count_wrong_def)
qed (simp add: ex_bool_eq fixed_count_wrong_def)

lemma near_position: "iter_near table dest slot iter \<Longrightarrow> start iter = table \<and> pos iter < length (message_fields table)"
  by (erule iter_near_cases) (auto dest: iter_in_ok)

lemma near_data: "iter_near table dest slot iter \<Longrightarrow> repeated_at table (pos iter) \<Longrightarrow> iter_near table dest slot (iter\<lparr>pSize := slot\<rparr>)"
  by (erule iter_near_cases) (auto simp: iter_near_def)

lemma count_fixed_safe:
  assumes "table_safe env sub R m0 table dest slot" "loop_state m0 table dest slot k st" "f = message_fields table ! pos (niter st)"
  shows "\<exists>ok st'. count_fixed slot f st = Some (ok, st') \<and> loop_state m0 table dest slot k st' \<and> changes R (nmem st) (nmem st') \<and>
    bytes_left (nstream st') = bytes_left (nstream st) \<and> pos (niter st') = pos (niter st)"
proof (cases "PB_HTYPE (ftype f) = PB_HTYPE_REPEATED \<and> pSize (niter st) = pData (niter st)")
  case False
  then show ?thesis using assms(2) by (auto simp: count_fixed_def)
next
  case True
  have it: "iter_near table dest slot (niter st)" "start (niter st) = table" "pos (niter st) < length (message_fields table)"
    and d: "dom m0 \<subseteq> dom (nmem st)" and fc: "\<And>i. fixed_count_field st = Some i \<Longrightarrow> i < length (message_fields table)"
    using assms(2) near_position by (auto simp: loop_state_def)
  have rep: "repeated_at table (pos (niter st))" using True assms(3) by (simp add: repeated_at_def)
  have near: "iter_near table dest slot (niter st\<lparr>pSize := slot\<rparr>)" using near_data [OF it(1) rep] .
  obtain wrong where wrong: "fixed_count_wrong table (nmem st) slot (fixed_count_field st) = Some wrong"
    using fixed_count_wrong_returns [OF assms(1) d fc] by blast
  have R: "bytes_at slot 4 \<subseteq> R" "R \<subseteq> dom m0" using assms(1) by (simp_all add: table_safe_def)
  obtain m1 where m1: "store_word (nmem st) slot 4 (0 :: u32) = Some m1" "changes R (nmem st) m1" using count_at(2) [OF R d] by blast
  have d1: "dom m0 \<subseteq> dom m1" using d changes_dom [OF m1(2)] by (rule order_trans)
  consider "fixed_count_field st = Some (pos (niter st))" | "fixed_count_field st \<noteq> Some (pos (niter st))" wrong
    | "fixed_count_field st \<noteq> Some (pos (niter st))" "\<not> wrong" by blast
  then show ?thesis
  proof cases
    case 1
    then show ?thesis using True near assms(2) by (simp add: ex_bool_eq count_fixed_def Let_def loop_state_def)
  next
    case 2
    then show ?thesis using True wrong it(2) assms(2) by (simp add: ex_bool_eq count_fixed_def Let_def loop_state_def)
  next
    case 3
    then show ?thesis using True wrong it(2,3) near m1 d1 assms(2) by (simp add: ex_bool_eq count_fixed_def Let_def loop_state_def)
  qed
qed

lemma decode_field_static:
  assumes "field_at (start iter) (pos iter) = Some f" "PB_ATYPE (ftype f) = PB_ATYPE_STATIC" "PB_HTYPE (ftype f) \<noteq> PB_HTYPE_ONEOF"
  shows "decode_field d env sub S stream m w iter =
    map_option (\<lambda>(ok, stream, m). (ok, stream, m, iter)) (decode_static_field d env sub S stream m w iter)"
  using assms by (simp add: decode_field_def)

lemma known_field_safe:
  assumes "table_safe env sub R m0 table dest (frame env d)" "loop_state m0 table dest (frame env d) k st"
  shows "\<exists>out st'. known_field d env sub S w st = Some (out, st') \<and> loop_state m0 table dest (frame env d) k st' \<and>
    changes R (nmem st) (nmem st') \<and> unat (bytes_left (nstream st')) \<le> unat (bytes_left (nstream st)) \<and> out \<noteq> Break"
proof -
  let ?slot = "frame env d"
  have it: "iter_near table dest ?slot (niter st)" using assms(2) by (simp add: loop_state_def)
  let ?f = "message_fields table ! pos (niter st)"
  note p = near_position [OF it]
  have f: "field_at (start (niter st)) (pos (niter st)) = Some ?f" using message_fields_nth p by auto
  obtain ok st1 where st1: "count_fixed ?slot ?f st = Some (ok, st1)" "loop_state m0 table dest ?slot k st1"
    "changes R (nmem st) (nmem st1)" "bytes_left (nstream st1) = bytes_left (nstream st)" "pos (niter st1) = pos (niter st)"
    using count_fixed_safe [OF assms refl] by blast
  show ?thesis
  proof (cases ok)
    case False
    then show ?thesis using f st1 by (simp add: known_field_def)
  next
    case True
    have it1: "iter_near table dest ?slot (niter st1)" "readable k (nstream st1)" "dom m0 \<subseteq> dom (nmem st1)"
      using st1(2) by (simp_all add: loop_state_def)
    have f1: "field_at (start (niter st1)) (pos (niter st1)) = Some ?f" using near_position [OF it1(1)] message_fields_nth st1(5) p by auto
    have fs: "field_safe env sub R m0 ?f (field_addr table dest (pos (niter st1)))" using assms(1) p st1(5) by (simp add: table_safe_def)
    have R: "bytes_at ?slot 4 \<subseteq> R" "R \<subseteq> dom m0" using assms(1) by (simp_all add: table_safe_def)
    have "writes_in (\<lambda>s. decode_static_field d env sub S s (nmem st1) w (niter st1)) k (nstream st1) R (nmem st1)"
      using decode_static_field_safe [OF it1(1) _ fs R it1(2,3)] st1(5) by simp
    then obtain ok2 s2 m2 where s2: "decode_static_field d env sub S (nstream st1) (nmem st1) w (niter st1) = Some (ok2, s2, m2)"
      "after k (nstream st1) ok2 s2" "changes R (nmem st1) m2" by (rule writes_in_obtain)
    let ?st = "(note_required ?f st1)\<lparr>nstream := s2, nmem := m2, niter := niter st1\<rparr>"
    have "known_field d env sub S w st = Some (if ok2 then Continue else Fail, ?st)"
      using f st1(1) True s2(1) decode_field_static [OF f1] fs
      by (simp add: known_field_def field_safe_def)
    moreover have "loop_state m0 table dest ?slot k ?st"
      using st1(2) it1 s2(2) order_trans [OF it1(3) changes_dom [OF s2(3)]]
      by (simp add: loop_state_def after_def)
    moreover have "unat (bytes_left (nstream ?st)) \<le> unat (bytes_left (nstream st))" using s2(2) st1(4) by (simp add: after_def)
    ultimately show ?thesis using changes_trans [OF st1(3) s2(3)]
      by (intro exI [of _ "if ok2 then Continue else Fail"] exI [of _ ?st]) simp
  qed
qed

lemma unknown_field_safe:
  assumes "table_safe env sub R m0 table dest slot" "loop_state m0 table dest slot k st"
    and "t \<notin> tag ` set (message_fields table)" "unat t < 2 ^ 29"
  shows "\<exists>out st'. unknown_field d env sub S t w st = Some (out, st') \<and> loop_state m0 table dest slot k st' \<and>
    nmem st' = nmem st \<and> unat (bytes_left (nstream st')) \<le> unat (bytes_left (nstream st)) \<and> out \<noteq> Break"
proof -
  have plain: "plain_table table" using assms(1) by (simp add: table_safe_def)
  have it: "iter_near table dest slot (niter st)" "readable k (nstream st)" using assms(2) by (simp_all add: loop_state_def)
  obtain iter where iter: "find_extension_field (niter st) = Some (False, iter)" "iter_in table dest iter"
    using find_extension_near [OF plain it(1) assms(3)] by blast
  obtain f where f: "field_at (start iter) (pos iter) = Some f"
    using iter_in_ok [OF iter(2)] message_fields_nth [of "pos iter" table] by auto
  have big: "\<not> t \<ge> 0xFFFFFFFF" using assms(4) by (simp add: word_le_nat_alt)
  obtain ok s1 where s1: "pb_skip_field S (nstream st) w = Some (ok, s1)" "after k (nstream st) False s1"
    using pb_skip_field_returns [OF it(2)] by blast
  show ?thesis
  proof (cases "t \<ge> extension_range_start st")
    case True
    let ?st = "st\<lparr>niter := iter, extension_range_start := 0xFFFFFFFF, nstream := s1\<rparr>"
    have "unknown_field d env sub S t w st = Some (if ok then Continue else Fail, ?st)"
      using True iter(1) f big s1(1) by (simp add: unknown_field_def)
    then show ?thesis using assms(2) iter(2) s1(2)
      by (intro exI [of _ "if ok then Continue else Fail"] exI [of _ ?st]) (simp add: loop_state_def iter_near_def after_def)
  next
    case False
    let ?st = "st\<lparr>nstream := s1\<rparr>"
    have "unknown_field d env sub S t w st = Some (if ok then Continue else Fail, ?st)"
      using False s1(1) by (simp add: unknown_field_def)
    then show ?thesis using assms(2) s1(2)
      by (intro exI [of _ "if ok then Continue else Fail"] exI [of _ ?st]) (simp add: loop_state_def after_def)
  qed
qed

lemma noinit_step_safe:
  assumes "table_safe env sub R m0 table dest (frame env d)" "loop_state m0 table dest (frame env d) k st"
  shows "\<exists>out st'. noinit_step d env sub S st = Some (out, st') \<and> loop_state m0 table dest (frame env d) k st' \<and>
    changes R (nmem st) (nmem st') \<and> unat (bytes_left (nstream st')) \<le> unat (bytes_left (nstream st)) \<and>
    (out = Continue \<longrightarrow> unat (bytes_left (nstream st')) < unat (bytes_left (nstream st)))"
proof -
  have plain: "plain_table table" using assms(1) by (simp add: table_safe_def)
  have it: "iter_near table dest (frame env d) (niter st)" "readable k (nstream st)" using assms(2) by (simp_all add: loop_state_def)
  obtain ok w t eof s1 where tag: "pb_decode_tag S (nstream st) = Some (ok, w, t, eof, s1)" "after k (nstream st) ok s1" "unat t < 2 ^ 29"
    using pb_decode_tag_returns [OF it(2)] by blast
  show ?thesis
  proof (cases ok)
    case False
    have "loop_state m0 table dest (frame env d) k (st\<lparr>nstream := s1\<rparr>)" using assms(2) tag(2) by (simp add: loop_state_def after_def)
    then show ?thesis using tag(1,2) False
      by (intro exI [of _ "if eof then Break else Fail"] exI [of _ "st\<lparr>nstream := s1\<rparr>"]) (simp add: noinit_step_def after_def)
  next
    case True
    obtain found iter where find: "pb_field_iter_find (niter st) t = Some (found, iter)" "iter_near table dest (frame env d) iter"
      "\<not> found \<longrightarrow> t \<notin> tag ` set (message_fields table)" using find_near [OF plain it(1)] by blast
    let ?st = "st\<lparr>nstream := s1, niter := iter\<rparr>"
    have st: "loop_state m0 table dest (frame env d) k ?st" using assms(2) find(2) tag(2) by (simp add: loop_state_def after_def)
    have lt: "unat (bytes_left s1) < unat (bytes_left (nstream st))" using tag(2) True by (simp add: after_def)
    have e: "noinit_step d env sub S st = (if \<not> found then unknown_field d env sub S t w ?st else known_field d env sub S w ?st)"
      using tag(1) True find(1) by (simp add: noinit_step_def)
    show ?thesis
    proof (cases found)
      case True
      from known_field_safe [OF assms(1) st, of w] show ?thesis using e True lt by fastforce
    next
      case False
      have "t \<notin> tag ` set (message_fields table)" using find(3) False by simp
      from unknown_field_safe [OF assms(1) st this tag(3), of d w] show ?thesis using e False lt by fastforce
    qed
  qed
qed

lemma noinit_loop_safe:
  assumes "table_safe env sub R m0 table dest (frame env d)" "loop_state m0 table dest (frame env d) k st"
  shows "\<exists>ok st'. noinit_loop d env sub S st = Some (ok, st') \<and> loop_state m0 table dest (frame env d) k st' \<and>
    changes R (nmem st) (nmem st') \<and> unat (bytes_left (nstream st')) \<le> unat (bytes_left (nstream st))"
  using assms(2)
proof (induction "unat (bytes_left (nstream st))" arbitrary: st rule: less_induct)
  case less
  show ?case
  proof (cases "bytes_left (nstream st) = 0")
    case True
    then show ?thesis using less.prems by (simp add: noinit_loop.simps [of d env sub S st] ex_bool_eq)
  next
    case False
    obtain out st1 where st1: "noinit_step d env sub S st = Some (out, st1)" "loop_state m0 table dest (frame env d) k st1"
      "changes R (nmem st) (nmem st1)" "unat (bytes_left (nstream st1)) \<le> unat (bytes_left (nstream st))"
      "out = Continue \<longrightarrow> unat (bytes_left (nstream st1)) < unat (bytes_left (nstream st))"
      using noinit_step_safe [OF assms(1) less.prems] by blast
    show ?thesis
    proof (cases "out = Continue")
      case True
      then have lt: "unat (bytes_left (nstream st1)) < unat (bytes_left (nstream st))" using st1(5) by simp
      obtain ok st2 where st2: "noinit_loop d env sub S st1 = Some (ok, st2)" "loop_state m0 table dest (frame env d) k st2"
        "changes R (nmem st1) (nmem st2)" "unat (bytes_left (nstream st2)) \<le> unat (bytes_left (nstream st1))"
        using less.hyps [OF lt st1(2)] by blast
      have "noinit_loop d env sub S st = Some (ok, st2)"
        using False st1(1) True st2(1) by (simp add: noinit_loop.simps [of d env sub S st])
      then show ?thesis using st2 changes_trans [OF st1(3) st2(3)] lt by (metis (no_types) le_trans less_imp_le)
    next
      case stop: False
      then have "noinit_loop d env sub S st = Some (out = Break, st1)"
        using False st1(1) by (cases out) (simp_all add: noinit_loop.simps [of d env sub S st])
      then show ?thesis using st1 by blast
    qed
  qed
qed

lemma finish_noinit_returns:
  assumes "table_safe env sub R m0 table dest (frame env d)" "loop_state m0 table dest (frame env d) k st"
  shows "\<exists>ok s. finish_noinit d env st = Some (ok, s, nmem st) \<and> bytes_left s = bytes_left (nstream st) \<and> readable k s"
proof -
  have plain: "plain_table table" using assms(1) by (simp add: table_safe_def)
  have it: "iter_near table dest (frame env d) (niter st)" "readable k (nstream st)" "dom m0 \<subseteq> dom (nmem st)"
    "\<And>i. fixed_count_field st = Some i \<Longrightarrow> i < length (message_fields table)" using assms(2) by (simp_all add: loop_state_def)
  note p = near_position [OF it(1)]
  obtain wrong where wrong: "fixed_count_wrong table (nmem st) (frame env d) (fixed_count_field st) = Some wrong"
    using fixed_count_wrong_returns [OF assms(1) it(3,4)] by blast
  obtain n last iter where c: "count_required (niter st) = Some (n, last, iter)" "iter_in table dest iter"
    using count_required_near [OF plain it(1)] by blast
  obtain f where f: "field_at (start iter) (pos iter) = Some f"
    using iter_in_ok [OF c(2)] message_fields_nth [of "pos iter" table] by auto
  show ?thesis using wrong c(1) f p it(2)
    by (cases wrong) (auto simp: finish_noinit_def ex_bool_eq)
qed

text \<open>A message is decoded from any input, and only \<open>R\<close> is written.\<close>

definition message_safe :: "('st pb_istream \<Rightarrow> memory \<Rightarrow> (bool \<times> 'st pb_istream \<times> memory) option) \<Rightarrow> u64 set \<Rightarrow> memory \<Rightarrow> bool" where
  "message_safe g R m0 \<longleftrightarrow> (\<forall>k stream m. readable k stream \<longrightarrow> dom m0 \<subseteq> dom m \<longrightarrow>
     (\<exists>ok stream' m'. g stream m = Some (ok, stream', m') \<and> after k stream False stream' \<and> changes R m m'))"

lemma message_safeD:
  assumes "message_safe g R m0" "readable k stream" "dom m0 \<subseteq> dom m"
  obtains ok stream' m' where "g stream m = Some (ok, stream', m')" "after k stream False stream'" "changes R m m'"
  using assms unfolding message_safe_def by blast

lemma noinit_with_safe:
  assumes "table_safe env sub R m0 table dest (frame env d)"
  shows "message_safe (\<lambda>s m. noinit_with d env sub S s m table dest) R m0"
  unfolding message_safe_def
proof (intro allI impI)
  fix k stream and m :: memory
  assume a: "readable k stream" "dom m0 \<subseteq> dom m"
  have plain: "plain_table table" and R: "bytes_at (frame env d) 4 \<subseteq> R" "R \<subseteq> dom m0" using assms by (simp_all add: table_safe_def)
  obtain m1 where m1: "store_word m (frame env d) 4 (0 :: u32) = Some m1" "changes R m m1" using count_at(2) [OF R a(2)] by blast
  obtain iter where iter: "pb_field_iter_begin table dest = Some (True, iter)" "iter_in table dest iter"
    using iter_in_begin [of table dest] plain by (auto simp: plain_table_def)
  let ?st = "\<lparr>nstream = stream, nmem = m1, niter = iter, fields_seen = [0, 0], extension_range_start = 0,
    fixed_count_field = None\<rparr>"
  have st: "loop_state m0 table dest (frame env d) k ?st"
    using iter(2) a order_trans [OF a(2) changes_dom [OF m1(2)]] by (simp add: loop_state_def iter_near_def)
  obtain ok st1 where st1: "noinit_loop d env sub S ?st = Some (ok, st1)" "loop_state m0 table dest (frame env d) k st1"
    "changes R m1 (nmem st1)" "unat (bytes_left (nstream st1)) \<le> unat (bytes_left stream)"
    using noinit_loop_safe [OF assms st] by auto
  obtain ok2 s2 where s2: "finish_noinit d env st1 = Some (ok2, s2, nmem st1)" "bytes_left s2 = bytes_left (nstream st1)" "readable k s2"
    using finish_noinit_returns [OF assms st1(2)] by blast
  have "noinit_with d env sub S stream m table dest =
      Some (if \<not> ok then (False, nstream st1, nmem st1) else (ok2, s2, nmem st1))"
    using m1(1) iter(1) st1(1) s2(1) by (simp add: noinit_with_def)
  moreover have "after k stream False (if ok then s2 else nstream st1)"
    using st1(2,4) s2(2,3) by (simp add: after_def loop_state_def)
  ultimately show "\<exists>ok stream' m'. noinit_with d env sub S stream m table dest = Some (ok, stream', m') \<and>
      after k stream False stream' \<and> changes R m m'"
    using changes_trans [OF m1(2) st1(3)] by (cases ok) auto
qed

end

section \<open>Default values and releasing\<close>

text \<open>Where the default values of a message's fields are.\<close>

primrec constants :: "nat \<Rightarrow> (u64 \<Rightarrow> pb_field list option) \<Rightarrow> pb_field list \<Rightarrow> u64 set" where
  "constants 0 tabs table = {}"
| "constants (Suc d) tabs table =
     (\<Union>f \<in> set (message_fields table).
        if PB_LTYPE (ftype f) = PB_LTYPE_SUBMESSAGE then constants d tabs (the (tabs (ptr f)))
        else if ptr f \<noteq> 0 then bytes_at (ptr f) (unat (data_size f)) else {})"

lemma constants_sub:
  assumes "f \<in> set (message_fields table)" "PB_LTYPE (ftype f) = PB_LTYPE_SUBMESSAGE" "tabs (ptr f) = Some sub"
  shows "constants d tabs sub \<subseteq> constants (Suc d) tabs table"
proof -
  have "constants d tabs sub = (if PB_LTYPE (ftype f) = PB_LTYPE_SUBMESSAGE then constants d tabs (the (tabs (ptr f)))
      else if ptr f \<noteq> 0 then bytes_at (ptr f) (unat (data_size f)) else {})" using assms(2,3) by simp
  then show ?thesis unfolding constants.simps(2) by (auto simp only: intro!: UN_I [OF assms(1)])
qed

lemma constants_value:
  assumes "f \<in> set (message_fields table)" "PB_LTYPE (ftype f) \<noteq> PB_LTYPE_SUBMESSAGE" "ptr f \<noteq> 0"
  shows "bytes_at (ptr f) (unat (data_size f)) \<subseteq> constants (Suc d) tabs table"
proof -
  have "bytes_at (ptr f) (unat (data_size f)) = (if PB_LTYPE (ftype f) = PB_LTYPE_SUBMESSAGE then constants d tabs (the (tabs (ptr f)))
      else if ptr f \<noteq> 0 then bytes_at (ptr f) (unat (data_size f)) else {})" using assms(2,3) by simp
  then show ?thesis unfolding constants.simps(2) by (auto simp only: intro!: UN_I [OF assms(1)])
qed

lemma each_field_safe:
  assumes one: "\<And>iter m. iter_in table dest iter \<Longrightarrow> dom m0 \<subseteq> dom m \<Longrightarrow> \<exists>m'. one m iter = Some m' \<and> changes R m m'"
    and "no_unions table" "iter_in table dest iter" "dom m0 \<subseteq> dom m"
  shows "\<exists>m'. each_field one m iter = Some m' \<and> changes R m m'"
  using assms(3,4)
proof (induction "length (message_fields table) - pos iter" arbitrary: iter m rule: less_induct)
  case less
  obtain m1 where m1: "one m iter = Some m1" "changes R m m1" using one [OF less.prems] by blast
  obtain again iter' where n: "pb_field_iter_next iter = Some (again, iter')" "iter_in table dest iter'"
    "again \<longleftrightarrow> Suc (pos iter) < length (message_fields table)" "pos iter' = (if again then Suc (pos iter) else 0)"
    using iter_in_next [OF less.prems(1) assms(2)] by blast
  show ?case
  proof (cases again)
    case False
    then show ?thesis using m1 n(1) by (simp add: each_field.simps [of one m iter])
  next
    case True
    then have lt: "length (message_fields table) - pos iter' < length (message_fields table) - pos iter" using n(3,4) by auto
    have d1: "dom m0 \<subseteq> dom m1" using less.prems(2) changes_dom [OF m1(2)] by (rule order_trans)
    obtain m2 where "each_field one m1 iter' = Some m2" "changes R m1 m2" using less.hyps [OF lt n(2) d1] by blast
    then show ?thesis using m1 n(1) True changes_trans by (fastforce simp: each_field.simps [of one m iter])
  qed
qed

lemma static_field_at:
  assumes "static_message (Suc d) tabs table" "iter_in table dest iter" "f = message_fields table ! pos iter"
  shows "field_at (start iter) (pos iter) = Some f" "PB_ATYPE (ftype f) = PB_ATYPE_STATIC"
    "PB_HTYPE (ftype f) \<noteq> PB_HTYPE_ONEOF" "PB_LTYPE (ftype f) \<noteq> PB_LTYPE_EXTENSION" "f \<in> set (message_fields table)"
    "pData iter = field_addr table dest (pos iter)" "pSize iter = field_addr table dest (pos iter) + scast (size_offset f)"
proof -
  have i: "start iter = table" "pos iter < length (message_fields table)" using iter_in_ok [OF assms(2)] by auto
  show m: "f \<in> set (message_fields table)" using i(2) assms(3) by simp
  show "field_at (start iter) (pos iter) = Some f" using message_fields_nth [OF i(2)] i(1) assms(3) by simp
  show "PB_ATYPE (ftype f) = PB_ATYPE_STATIC" "PB_HTYPE (ftype f) \<noteq> PB_HTYPE_ONEOF" "PB_LTYPE (ftype f) \<noteq> PB_LTYPE_EXTENSION"
    using assms(1) m by (auto simp: plain_table_def no_unions_def)
  show "pData iter = field_addr table dest (pos iter)" "pSize iter = field_addr table dest (pos iter) + scast (size_offset f)"
    using assms(2,3) by (simp_all add: iter_in_def)
qed

lemma submessage_table:
  assumes "static_message (Suc d) tabs table" "f \<in> set (message_fields table)" "PB_LTYPE (ftype f) = PB_LTYPE_SUBMESSAGE"
  obtains sub where "tabs (ptr f) = Some sub" "static_message d tabs sub" "ptr f \<noteq> 0"
proof -
  have "\<not> value_field f" using assms(3) by (auto simp: value_field_def pb_ltypes Let_def)
  then show ?thesis using assms that by (auto split: option.splits)
qed

text \<open>The space of a field, at the iterator.\<close>

lemma space_at:
  assumes "static_message (Suc d) tabs table" "iter_in table dest iter" "f = message_fields table ! pos iter"
    and "footprint (Suc d) tabs table dest \<subseteq> R"
  shows "reset_space f (pData iter) \<subseteq> R"
    "\<And>k. k < field_count f \<Longrightarrow> PB_LTYPE (ftype f) \<noteq> PB_LTYPE_SUBMESSAGE \<Longrightarrow>
      bytes_at (item_at (pData iter) f (word_of_nat k)) (unat (data_size f)) \<subseteq> R"
    "\<And>k sub. k < field_count f \<Longrightarrow> PB_LTYPE (ftype f) = PB_LTYPE_SUBMESSAGE \<Longrightarrow> tabs (ptr f) = Some sub \<Longrightarrow>
      footprint d tabs sub (item_at (pData iter) f (word_of_nat k)) \<subseteq> R"
proof -
  have "pos iter < length (message_fields table)" using iter_in_ok [OF assms(2)] by auto
  then have sp: "field_space (footprint d tabs) tabs f (pData iter) \<subseteq> R"
    using field_in_footprint [of "pos iter" table d tabs dest] assms(2-4) by (auto simp: iter_in_def)
  have "room_for_count f" "unat (data_size f) * unat (array_size f) < 2 ^ 32"
    using assms(1) static_field_at(5) [OF assms(1-3)] by auto
  from reset_in_field [OF this] sp show "reset_space f (pData iter) \<subseteq> R" by blast
  show "bytes_at (item_at (pData iter) f (word_of_nat k)) (unat (data_size f)) \<subseteq> R"
    if "k < field_count f" "PB_LTYPE (ftype f) \<noteq> PB_LTYPE_SUBMESSAGE" for k
    using field_value_space [OF that] sp by blast
  show "footprint d tabs sub (item_at (pData iter) f (word_of_nat k)) \<subseteq> R"
    if "k < field_count f" "PB_LTYPE (ftype f) = PB_LTYPE_SUBMESSAGE" "tabs (ptr f) = Some sub" for k sub
    using field_message_space [where sub = "footprint d tabs" and a = "pData iter" and tabs = tabs, OF that] sp by blast
qed

lemma set_to_defaults_safe:
  assumes "static_message d tabs table" "footprint d tabs table dest \<subseteq> R" "constants d tabs table \<subseteq> dom m0" "R \<subseteq> dom m0"
    and "dom m0 \<subseteq> dom m"
  shows "\<exists>m'. pb_message_set_to_defaults d tabs m table dest = Some m' \<and> changes R m m'"
  using assms
proof (induction d arbitrary: table dest m)
  case (Suc d)
  have plain: "terminated table" "message_fields table \<noteq> []" "no_unions table"
    using Suc.prems(1) by (auto simp: plain_table_def)
  obtain iter where iter: "pb_field_iter_begin table dest = Some (True, iter)" "iter_in table dest iter"
    using iter_in_begin [OF plain(1,2)] by blast
  have one: "\<exists>m'. pb_field_set_to_default (Suc d) tabs m iter = Some m' \<and> changes R m m'"
    if it: "iter_in table dest iter" and d: "dom m0 \<subseteq> dom m" for iter m
  proof -
    let ?f = "message_fields table ! pos iter"
    note f = static_field_at [OF Suc.prems(1) it refl]
    note sp = space_at [OF Suc.prems(1) it refl Suc.prems(2)]
    show ?thesis
    proof (cases "PB_HTYPE (ftype ?f) = PB_HTYPE_REPEATED")
      case True
      then have r: "bytes_at (pSize iter) 4 \<subseteq> R" using sp(1) f(6,7) by (simp add: reset_space_def has_mark_def pb_htypes)
      obtain m' where "store_word m (pSize iter) 4 (0 :: u32) = Some m'" "changes R m m'"
        using count_at(2) [OF r Suc.prems(4) d] by blast
      then show ?thesis using f(1-4) True by (simp add: pb_htypes)
    next
      case False
      have c: "0 < field_count ?f" using False by (simp add: field_count_def)
      have ne: "PB_HTYPE (ftype ?f) = PB_HTYPE_OPTIONAL \<and> pSize iter \<noteq> pData iter \<longleftrightarrow> has_mark ?f"
        using f(6,7) scast_zero by (auto simp: has_mark_def)
      obtain m1 where m1: "(if has_mark ?f then store_bytes m (pSize iter) [0] else Some m) = Some m1" "changes R m m1"
      proof (cases "has_mark ?f")
        case True
        then have r: "bytes_at (pSize iter) 1 \<subseteq> R" using sp(1) f(6,7) by (simp add: reset_space_def)
        have "mapped m (pSize iter) 1" using Suc.prems(4) d by (intro mapped_region [OF r]) auto
        then show ?thesis using that True store_in [of m "pSize iter" 1 "[0]"] changes_mono [OF _ r]
          by (auto simp del: store_bytes.simps)
      qed (use that in simp)
      have d1: "dom m0 \<subseteq> dom m1" using d changes_dom [OF m1(2)] by (rule order_trans)
      have e: "pb_field_set_to_default (Suc d) tabs m iter =
          (if PB_LTYPE (ftype ?f) = PB_LTYPE_SUBMESSAGE then do {
             table \<leftarrow> tabs (ptr ?f);
             set_message_defaults (pb_field_set_to_default d tabs) m1 table (pData iter) }
           else if ptr ?f \<noteq> 0 then do {
             bs \<leftarrow> read_map m1 (ptr ?f) (unat (data_size ?f));
             store_bytes m1 (pData iter) bs }
           else store_bytes m1 (pData iter) (replicate (unat (data_size ?f)) 0))"
      proof -
        have cond: "(if PB_HTYPE (ftype ?f) = PB_HTYPE_OPTIONAL \<and> pSize iter \<noteq> pData iter
            then store_bytes m (pSize iter) [0] else Some m) = Some m1" using m1(1) unfolding ne .
        have counted: "\<not> (\<not> (PB_HTYPE (ftype ?f) = PB_HTYPE_OPTIONAL \<and> pSize iter \<noteq> pData iter) \<and>
            (PB_HTYPE (ftype ?f) = PB_HTYPE_REPEATED \<or> PB_HTYPE (ftype ?f) = PB_HTYPE_ONEOF))" using False f(3) by simp
        show ?thesis unfolding pb_field_set_to_default.simps(2) Let_def f(1) Option.bind.simps(2) if_not_P [OF f(4)] if_P [OF f(2)]
          if_not_P [OF counted] cond Option.bind.simps(2) ..
      qed
      show ?thesis
      proof (cases "PB_LTYPE (ftype ?f) = PB_LTYPE_SUBMESSAGE")
        case True
        obtain sub where sub: "tabs (ptr ?f) = Some sub" "static_message d tabs sub"
          using submessage_table [OF Suc.prems(1) f(5) True] by blast
        have "footprint d tabs sub (pData iter) \<subseteq> R" using sp(3) [OF c True sub(1)] by (simp add: item_at_0)
        moreover have "constants d tabs sub \<subseteq> dom m0" using constants_sub [where tabs = tabs, OF f(5) True sub(1)] Suc.prems(3) by (rule order_trans)
        ultimately obtain m2 where "pb_message_set_to_defaults d tabs m1 sub (pData iter) = Some m2" "changes R m1 m2"
          using Suc.IH [OF sub(2) _ _ Suc.prems(4) d1] by blast
        then show ?thesis unfolding e using True sub(1) changes_trans [OF m1(2)] by (auto simp: pb_message_set_to_defaults_def)
      next
        case val: False
        have r: "bytes_at (pData iter) (unat (data_size ?f)) \<subseteq> R" using sp(2) [OF c val] by (simp add: item_at_0)
        have mp: "mapped m1 (pData iter) (unat (data_size ?f))"
          using Suc.prems(4) d1 unat_u32_less [of "data_size ?f"] by (intro mapped_region [OF r]) auto
        have put: "\<exists>m'. store_bytes m1 (pData iter) bs = Some m' \<and> changes R m m'" if "length bs = unat (data_size ?f)" for bs
          using store_in [OF mp eq_refl [OF that]] changes_trans [OF m1(2) changes_mono [OF _ r]] by blast
        show ?thesis
        proof (cases "ptr ?f = 0")
          case True
          then show ?thesis unfolding e using val put [of "replicate (unat (data_size ?f)) 0"] by simp
        next
          case False
          have "bytes_at (ptr ?f) (unat (data_size ?f)) \<subseteq> constants (Suc d) tabs table" using constants_value [OF f(5) val False] .
          then have "mapped m1 (ptr ?f) (unat (data_size ?f))"
            using order_trans [OF Suc.prems(3) d1] unat_u32_less [of "data_size ?f"]
            by (intro mapped_region [of _ _ "constants (Suc d) tabs table"]) simp_all
          from load_word_mapped [OF this] obtain bs where bs: "read_map m1 (ptr ?f) (unat (data_size ?f)) = Some bs"
            by (auto simp: load_word_def)
          then show ?thesis unfolding e using val False put [of bs] read_map_length [OF bs] by simp
        qed
      qed
    qed
  qed
  show ?case using each_field_safe [where R = R, OF one plain(3) iter(2) Suc.prems(5)] iter(1)
    by (simp add: pb_message_set_to_defaults_def set_message_defaults_def del: pb_field_set_to_default.simps)
qed simp

text \<open>Nothing of a static message is released.\<close>

lemma release_items_none:
  assumes "\<And>i. i < k \<Longrightarrow> one m (p + word_of_nat i * ucast ds) = Some m"
  shows "release_items one m p ds k = Some m"
  using assms
proof (induction k arbitrary: p)
  case (Suc k)
  have "one m (p + ucast ds + word_of_nat i * ucast ds) = Some m" if "i < k" for i
    using Suc.prems [of "Suc i"] that by (simp add: algebra_simps)
  then have "release_items one m (p + ucast ds) ds k = Some m" by (rule Suc.IH)
  then show ?case using Suc.prems [of 0] by simp
qed simp

lemma changes_none: "changes {} m m' \<Longrightarrow> m' = m"
  by (auto simp: changes_def)

lemma release_none:
  assumes "static_message d tabs table" "footprint d tabs table dest \<subseteq> dom m"
  shows "pb_release d tabs free m table dest = Some m"
  using assms
proof (induction d arbitrary: table dest m)
  case (Suc d)
  have plain: "terminated table" "message_fields table \<noteq> []" "no_unions table"
    using Suc.prems(1) by (auto simp: plain_table_def)
  obtain iter where iter: "pb_field_iter_begin table dest = Some (True, iter)" "iter_in table dest iter"
    using iter_in_begin [OF plain(1,2)] by blast
  have one: "pb_release_single_field (Suc d) tabs free m iter = Some m"
    if it: "iter_in table dest iter" and fp: "footprint (Suc d) tabs table dest \<subseteq> dom m" for iter m
  proof -
    let ?f = "message_fields table ! pos iter"
    note f = static_field_at [OF Suc.prems(1) it refl]
    note sp = space_at [OF Suc.prems(1) it refl fp]
    show ?thesis
    proof (cases "PB_LTYPE (ftype ?f) = PB_LTYPE_SUBMESSAGE")
      case False
      then show ?thesis using f(1-4) by (simp add: pb_atypes)
    next
      case True
      obtain sub where sub: "tabs (ptr ?f) = Some sub" "static_message d tabs sub" "ptr ?f \<noteq> 0"
        using submessage_table [OF Suc.prems(1) f(5) True] .
      have item: "release_message (pb_release_single_field d tabs free) m sub (item_at (pData iter) ?f (word_of_nat k)) = Some m"
        if "k < field_count ?f" for k
        using Suc.IH [OF sub(2) sp(3) [OF that True sub(1)]] by (simp add: pb_release_def)
      have lt: "unat (data_size ?f) * unat (array_size ?f) < 2 ^ 32" using Suc.prems(1) f(5) by simp
      have rel: "release_items (\<lambda>m p. do { table \<leftarrow> tabs (ptr ?f); release_message (pb_release_single_field d tabs free) m table p })
          m (pData iter) (data_size ?f) n = Some m" if "n \<le> field_count ?f" for n
      proof (rule release_items_none)
        fix i assume i: "i < n"
        have "item_at (pData iter) ?f (word_of_nat i) = pData iter + word_of_nat i * ucast (data_size ?f)"
          using item_address [OF lt, of i] i that by (cases "i = 0") (auto simp: field_count_def item_at_def split: if_splits)
        then show "(do { table \<leftarrow> tabs (ptr ?f); release_message (pb_release_single_field d tabs free) m table
            (pData iter + word_of_nat i * ucast (data_size ?f)) }) = Some m"
          using item [of i] i that sub(1) by simp
      qed
      show ?thesis
      proof (cases "PB_HTYPE (ftype ?f) = PB_HTYPE_REPEATED")
        case False
        then have "field_count ?f = 1" by (simp add: field_count_def)
        then show ?thesis using f(1-4) True False rel [of 1] by (simp add: pb_atypes PB_ATYPE_CALLBACK_def)
      next
        case rep: True
        have r: "bytes_at (pSize iter) 4 \<subseteq> dom m" using sp(1) f(6,7) rep by (simp add: reset_space_def has_mark_def pb_htypes)
        obtain n :: u32 where n: "load_word m (pSize iter) 4 = Some n"
          using count_at(1) [OF r order_refl order_refl] by blast
        define c where "c = (if pSize iter = pData iter then array_size ?f else n)"
        have c: "unat (if c > array_size ?f then array_size ?f else c) \<le> field_count ?f"
          using rep by (simp add: field_count_def word_less_nat_alt)
        have "pb_release_single_field (Suc d) tabs free m iter =
            (if pData iter \<noteq> 0 then release_items (\<lambda>m p. do { table \<leftarrow> tabs (ptr ?f);
                release_message (pb_release_single_field d tabs free) m table p }) m (pData iter) (data_size ?f)
                (unat (if c > array_size ?f then array_size ?f else c)) else Some m)"
        proof (cases "pSize iter = pData iter")
          case eq: True
          then have c': "c = array_size ?f" by (simp add: c_def)
          have id: "(if x > x then x else x) = x" for x :: u32 by simp
          show ?thesis unfolding c' id using f(1-4) True rep eq id [of "array_size ?f"]
            by (simp add: pb_atypes PB_ATYPE_CALLBACK_def split del: if_split)
        next
          case False
          then have c': "c = n" by (simp add: c_def)
          show ?thesis unfolding c' using f(1-4) True rep n False
            by (simp add: pb_atypes PB_ATYPE_CALLBACK_def split del: if_split)
        qed
        then show ?thesis using rel [OF c] by simp
      qed
    qed
  qed
  have "\<exists>m'. each_field (pb_release_single_field (Suc d) tabs free) m iter = Some m' \<and> changes {} m m'"
  proof (rule each_field_safe [where m0 = m])
    show "\<exists>m'. pb_release_single_field (Suc d) tabs free m2 iter = Some m' \<and> changes {} m2 m'"
      if "iter_in table dest iter" "dom m \<subseteq> dom m2" for iter m2
      using one [OF that(1) order_trans [OF Suc.prems(2) that(2)]] by simp
  qed (use plain iter in simp_all)
  then show ?case using iter(1) changes_none
    by (auto simp: pb_release_def release_message_def simp del: pb_release_single_field.simps)
qed simp

lemma decoder_exists: "value_field f \<Longrightarrow> \<exists>dec. PB_DECODERS ra sub (PB_LTYPE (ftype f)) = Some dec"
  unfolding value_field_def Let_def by (elim disjE conjE; simp add: PB_DECODERS_def pb_ltypes)

context pb_reader begin

lemma pb_decode_with_safe:
  assumes "static_message d (dtables env) table" "footprint d (dtables env) table dest \<subseteq> R"
    and "constants d (dtables env) table \<subseteq> dom m0" "R \<subseteq> dom m0"
    and noinit: "message_safe (\<lambda>s m. noinit_with d env sub S s m table dest) R m0"
  shows "message_safe (\<lambda>s m. pb_decode_with d env sub S s m table dest) R m0"
  unfolding message_safe_def
proof (intro allI impI)
  fix k stream and m :: memory
  assume a: "readable k stream" "dom m0 \<subseteq> dom m"
  obtain m1 where m1: "pb_message_set_to_defaults d (dtables env) m table dest = Some m1" "changes R m m1"
    using set_to_defaults_safe [OF assms(1-4) a(2)] by blast
  have d1: "dom m0 \<subseteq> dom m1" using a(2) changes_dom [OF m1(2)] by (rule order_trans)
  obtain ok s m2 where m2: "noinit_with d env sub S stream m1 table dest = Some (ok, s, m2)" "after k stream False s" "changes R m1 m2"
    using message_safeD [OF noinit a(1) d1] .
  have "footprint d (dtables env) table dest \<subseteq> dom m2"
    using assms(2,4) d1 changes_dom [OF m2(3)] by blast
  then have "pb_release d (dtables env) (pb_free env) m2 table dest = Some m2" using release_none [OF assms(1)] by blast
  then have "pb_decode_with d env sub S stream m table dest = Some (ok, s, m2)"
    using m1(1) m2(1) by (simp add: pb_decode_with_def)
  then show "\<exists>ok stream' m'. pb_decode_with d env sub S stream m table dest = Some (ok, stream', m') \<and>
      after k stream False stream' \<and> changes R m m'" using m2(2) changes_trans [OF m1(2) m2(3)] by blast
qed

lemma submessage_safe:
  assumes "ptr f \<noteq> 0" "dtables env (ptr f) = Some table" "readable k stream" "dom m0 \<subseteq> dom m"
    and "message_safe (\<lambda>s m. noinit_with d env (pb_dec_submessage d env) S s m table p) R m0"
    and "message_safe (\<lambda>s m. pb_decode_with d env (pb_dec_submessage d env) S s m table p) R m0"
  shows "writes_in (\<lambda>s. pb_dec_submessage (Suc d) env S s m f p) k stream R m"
proof -
  obtain ok s1 sub1 where s1: "pb_make_string_substream S stream = Some (ok, s1, sub1)" "after k stream ok s1"
    "ok \<Longrightarrow> \<exists>t. sub1 = Some t \<and> readable (k + unat (bytes_left s1)) t"
    using pb_make_string_substream_returns [OF assms(3)] by blast
  show ?thesis
  proof (cases ok)
    case False
    then have "pb_dec_submessage (Suc d) env S stream m f p = Some (False, s1, m)" using s1(1) by simp
    then show ?thesis using s1(2) False by (intro writes_inI) auto
  next
    case True
    obtain t where t: "sub1 = Some t" "readable (k + unat (bytes_left s1)) t" using s1(3) True by blast
    define body where "body = (\<lambda>s m. if PB_HTYPE (ftype f) = PB_HTYPE_REPEATED
      then pb_decode_with d env (pb_dec_submessage d env) S s m table p
      else noinit_with d env (pb_dec_submessage d env) S s m table p)"
    have "message_safe body R m0" using assms(5,6) by (cases "PB_HTYPE (ftype f) = PB_HTYPE_REPEATED") (simp_all add: body_def)
    then obtain status t' m' where b: "body t m = Some (status, t', m')" "after (k + unat (bytes_left s1)) t False t'" "changes R m m'"
      using message_safeD [OF _ t(2) assms(4)] by blast
    obtain ok2 s2 where s2: "pb_close_string_substream S s1 t' = Some (ok2, s2)" "readable k s2" "bytes_left s2 = bytes_left s1"
      using pb_close_string_substream_returns [OF after_readable [OF s1(2)] after_readable [OF b(2)]] by blast
    have e: "pb_dec_submessage (Suc d) env S stream m f p = Some (if \<not> ok2 then False else status, s2, m')"
      using s1(1) True t(1) assms(1,2) b(1) s2(1) by (auto simp: body_def split: if_splits)
    have "after k stream (if \<not> ok2 then False else status) s2" using s1(2) s2(2,3) True by (simp add: after_def)
    with e show ?thesis using b(3) by (rule writes_inI)
  qed
qed

text \<open>Every field of a static message is safe, if its submessages are.\<close>

definition submessages_safe :: "'st pb_dec_env \<Rightarrow> u64 set \<Rightarrow> memory \<Rightarrow> nat \<Rightarrow> bool" where
  "submessages_safe env R m0 d \<longleftrightarrow>
     (\<forall>table dest. static_message d (dtables env) table \<longrightarrow> footprint d (dtables env) table dest \<subseteq> R \<longrightarrow>
       constants d (dtables env) table \<subseteq> dom m0 \<longrightarrow>
       message_safe (\<lambda>s m. noinit_with d env (pb_dec_submessage d env) S s m table dest) R m0)"

lemma static_table_safe:
  assumes "static_message (Suc d) (dtables env) table" "footprint (Suc d) (dtables env) table dest \<subseteq> R"
    and "constants (Suc d) (dtables env) table \<subseteq> dom m0" "R \<subseteq> dom m0" "bytes_at (frame env (Suc d)) 4 \<subseteq> R"
    and sub: "submessages_safe env R m0 d"
  shows "table_safe env (pb_dec_submessage (Suc d) env) R m0 table dest (frame env (Suc d))"
  unfolding table_safe_def
proof (intro conjI allI impI)
  show "plain_table table" using assms(1) by simp
  fix i assume i: "i < length (message_fields table)"
  let ?f = "message_fields table ! i" let ?a = "field_addr table dest i" let ?tabs = "dtables env"
  have m: "?f \<in> set (message_fields table)" using i by simp
  have st: "PB_ATYPE (ftype ?f) = PB_ATYPE_STATIC" "PB_HTYPE (ftype ?f) \<noteq> PB_HTYPE_ONEOF"
    "value_field ?f \<or> PB_LTYPE (ftype ?f) = PB_LTYPE_SUBMESSAGE"
    using assms(1) m by (auto simp: plain_table_def no_unions_def)
  have sp: "field_space (footprint d ?tabs) ?tabs ?f ?a \<subseteq> R"
    using field_in_footprint [OF i, of d ?tabs dest] assms(2) by (rule order_trans)
  have item: "item_safe env (pb_dec_submessage (Suc d) env) R m0 ?f (item_at ?a ?f (word_of_nat k))" if k: "k < field_count ?f" for k
  proof (cases "PB_LTYPE (ftype ?f) = PB_LTYPE_SUBMESSAGE")
    case True
    obtain table' where t: "?tabs (ptr ?f) = Some table'" "static_message d ?tabs table'" "ptr ?f \<noteq> 0"
      using submessage_table [OF assms(1) m True] .
    let ?p = "item_at ?a ?f (word_of_nat k)"
    have fp: "footprint d ?tabs table' ?p \<subseteq> R" using field_message_space [where sub = "footprint d ?tabs" and a = ?a and tabs = ?tabs, OF k True t(1)] sp by blast
    have c: "constants d ?tabs table' \<subseteq> dom m0" using constants_sub [where tabs = ?tabs, OF m True t(1)] assms(3) by (rule order_trans)
    have ms: "message_safe (\<lambda>s m. noinit_with d env (pb_dec_submessage d env) S s m table' ?p) R m0"
      using sub t(2) fp c unfolding submessages_safe_def by blast
    have "writes_in (\<lambda>s. pb_dec_submessage (Suc d) env S s m ?f ?p) k' stream R m"
      if "readable k' stream" "dom m0 \<subseteq> dom m" for k' stream m
      by (rule submessage_safe [where f = ?f, OF t(3,1) that ms pb_decode_with_safe [OF t(2) fp c assms(4) ms]])
    moreover have "PB_DECODERS (pb_realloc env) (pb_dec_submessage (Suc d) env) (PB_LTYPE (ftype ?f)) = Some (pb_dec_submessage (Suc d) env)"
      using True by (simp add: PB_DECODERS_def pb_ltypes)
    ultimately show ?thesis unfolding item_safe_def by blast
  next
    case False
    then have v: "value_field ?f" using st(3) by blast
    have r: "bytes_at (item_at ?a ?f (word_of_nat k)) (unat (data_size ?f)) \<subseteq> R" using field_value_space [OF k False] sp by blast
    obtain dec where dec: "PB_DECODERS (pb_realloc env) (pb_dec_submessage (Suc d) env) (PB_LTYPE (ftype ?f)) = Some dec"
      using decoder_exists [OF v] by blast
    have "writes_in (\<lambda>s. dec S s m ?f (item_at ?a ?f (word_of_nat k))) k' stream R m"
      if "readable k' stream" "dom m0 \<subseteq> dom m" for k' stream m
    proof -
      have "mapped m (item_at ?a ?f (word_of_nat k)) (unat (data_size ?f))"
        using order_trans [OF assms(4) that(2)] unat_u32_less [of "data_size ?f"] by (intro mapped_region [OF r]) simp_all
      from value_safe [OF v st(1) that(1) this, of "pb_realloc env" "pb_dec_submessage (Suc d) env"]
      show ?thesis using dec writes_in_mono [OF _ r] by auto
    qed
    then show ?thesis unfolding item_safe_def using dec by blast
  qed
  have "room_for_count ?f" "unat (data_size ?f) * unat (array_size ?f) < 2 ^ 32" using assms(1) m by auto
  from order_trans [OF reset_in_field [OF this] sp] have reset: "reset_space ?f ?a \<subseteq> R" .
  show "field_safe env (pb_dec_submessage (Suc d) env) R m0 ?f ?a"
    unfolding field_safe_def using st(1,2) item reset by blast
qed (use assms in simp_all)

lemma static_safe:
  assumes "call_frames (frame env) d \<subseteq> R" "R \<subseteq> dom m0"
  shows "submessages_safe env R m0 d"
  using assms(1)
proof (induction d)
  case 0
  show ?case by (simp add: submessages_safe_def)
next
  case (Suc d)
  have fr: "call_frames (frame env) d \<subseteq> R" "bytes_at (frame env (Suc d)) 4 \<subseteq> R"
    using Suc.prems unfolding call_frames_def by (auto simp only: UN_subset_iff atMost_iff le_Suc_eq)
  have sub: "submessages_safe env R m0 d" using Suc.IH [OF fr(1)] .
  show ?case
    unfolding submessages_safe_def
  proof (intro allI impI)
    fix table dest
    assume a: "static_message (Suc d) (dtables env) table" "footprint (Suc d) (dtables env) table dest \<subseteq> R"
      "constants (Suc d) (dtables env) table \<subseteq> dom m0"
    show "message_safe (\<lambda>s m. noinit_with (Suc d) env (pb_dec_submessage (Suc d) env) S s m table dest) R m0"
      by (rule noinit_with_safe [OF static_table_safe [OF a assms(2) fr(2) sub]])
  qed
qed

lemma decode_safe:
  assumes "static_message d (dtables env) table"
    and "R = footprint d (dtables env) table dest \<union> call_frames (frame env) d" "R \<subseteq> dom m"
    and "constants d (dtables env) table \<subseteq> dom m" "readable 0 stream"
  shows "\<exists>ok stream' m'. pb_decode d env S stream m table dest = Some (ok, stream', m') \<and> after 0 stream False stream' \<and>
    changes R m m'"
proof -
  have fp: "footprint d (dtables env) table dest \<subseteq> R" and fr: "call_frames (frame env) d \<subseteq> R" using assms(2) by auto
  have "message_safe (\<lambda>s m. noinit_with d env (pb_dec_submessage d env) S s m table dest) R m"
    using static_safe [OF fr assms(3)] assms(1,4) fp unfolding submessages_safe_def by blast
  from message_safeD [OF pb_decode_with_safe [OF assms(1) fp assms(4,3) this] assms(5) order_refl]
  show ?thesis unfolding pb_decode_def by metis
qed

end

text \<open>C3. The decoder is memory safe on every input. Any bytes at all in a readable buffer are decoded into the
  structure of a message with static fields: the decoder always returns, reads nothing outside the buffer
  and the message, and changes no byte of memory but those of the structure and of its own frames.  The structure
  has no count for an array of fixed count, so these arrays must have at least four bytes; \<open>fixed_count_overrun\<close> below
  is what happens to shorter ones.\<close>

theorem pb_decode_safe:
  assumes "static_message d (dtables env) table"
    and "\<forall>i < n. input (p + word_of_nat i) \<noteq> None" "n < 2 ^ 64"
    and "footprint d (dtables env) table dest \<union> call_frames (frame env) d \<subseteq> dom m"
    and "constants d (dtables env) table \<subseteq> dom m"
  shows "\<exists>ok stream m'. pb_decode d env (buffer_source (flat_task input)) (pb_istream_from_buffer p (word_of_nat n)) m table dest =
      Some (ok, stream, m') \<and> unat (bytes_left stream) \<le> n \<and> dom m' = dom m \<and>
    (\<forall>a. a \<notin> footprint d (dtables env) table dest \<union> call_frames (frame env) d \<longrightarrow> m' a = m a)"
proof -
  let ?s = "pb_istream_from_buffer p (word_of_nat n)"
  have n: "unat (bytes_left ?s) = n" using assms(3) by (simp add: pb_istream_from_buffer_def unat_of_nat)
  have "buffer_reader.readable input 0 ?s"
    unfolding buffer_reader.readable_def using assms(2) n by (simp add: pb_istream_from_buffer_def)
  from buffer_reader.decode_safe [OF assms(1) refl assms(4,5) this]
  obtain ok s m' where d: "pb_decode d env (buffer_source (flat_task input)) ?s m table dest = Some (ok, s, m')"
    "buffer_reader.after input 0 ?s False s" "changes (footprint d (dtables env) table dest \<union> call_frames (frame env) d) m m'"
    by blast
  have "dom m' \<subseteq> dom m" using d(3) assms(4) by (fastforce simp: changes_def dom_def)
  then have "dom m' = dom m" using d(3) by (simp add: changes_def)
  moreover have "unat (bytes_left s) \<le> n" using d(2) n by (simp only: buffer_reader.after_def)
  ultimately show ?thesis using d(1,3) unfolding changes_def by blast
qed

lemma sample_static: "static_message 2 (dtables sample_dec_env) sample_dec_table"
proof -
  have v: "value_field sample_field" "value_field sample_optional"
    by (simp_all add: value_field_def sample_sel sample_types sample_dec_types pb_ltypes Let_def)
  have t: "PB_LTYPE (ftype sample_submessage) = PB_LTYPE_SUBMESSAGE" "PB_ATYPE (ftype sample_field) = PB_ATYPE_STATIC"
    "PB_ATYPE (ftype sample_submessage) = PB_ATYPE_STATIC" "PB_ATYPE (ftype sample_optional) = PB_ATYPE_STATIC"
    by (simp_all add: sample_sel sample_types sample_dec_types)
  have p: "plain_table sample_dec_table" "plain_table [sample_field, last_field]"
    using sample_tables by (simp_all add: decodable_table_def)
  have "room_for_count sample_field" "room_for_count sample_optional" "room_for_count sample_submessage"
    by (simp_all add: room_for_count_def sample_sel sample_types sample_dec_types pb_htypes)
  moreover have "array_size sample_optional = 0" by (simp add: sample_optional_def)
  ultimately have "static_message (Suc (Suc 0)) (dtables sample_dec_env) sample_dec_table"
    using v t p sample_sel(4,6,9,12,13) by (simp add: sample_fields sample_tabs)
  then show ?thesis by (simp only: numeral_2_eq_2)
qed

theorem pb_decode_safe_witness:
  "\<exists>ok stream m'. pb_decode 2 sample_dec_env (buffer_source (flat_task (\<lambda>_. Some 0xFF)))
      (pb_istream_from_buffer 0x10 (word_of_nat 100)) (\<lambda>_. Some 0) sample_dec_table 0x2000 = Some (ok, stream, m') \<and>
    unat (bytes_left stream) \<le> 100 \<and> dom m' = UNIV \<and>
    (\<forall>a. a \<notin> footprint 2 (dtables sample_dec_env) sample_dec_table 0x2000 \<union> call_frames (frame sample_dec_env) 2 \<longrightarrow> m' a = Some 0)"
proof -
  have d: "dom (\<lambda>_ :: u64. Some (0 :: byte)) = UNIV" by (simp add: dom_def)
  show ?thesis
    using pb_decode_safe [OF sample_static, where n = "100" and input = "\<lambda>_. Some 0xFF" and p = "0x10" and dest = "0x2000" and m = "\<lambda>_. Some 0"]
    by (simp add: d del: footprint.simps constants.simps)
qed

text \<open>An array of fixed count has no count in the structure: its descriptor has size offset 0, so that \<open>pSize\<close> is
  the array itself.  Setting it to its default stores a count of four bytes there, past the end of an array
  that is shorter.\<close>

definition sample_fixed_count :: pb_field where
  "sample_fixed_count = \<lparr>tag = 1, ftype = 0x20, data_offset = 0, size_offset = 0, data_size = 1, array_size = 2, ptr = 0\<rparr>"

lemma fixed_count_overrun:
  "\<exists>m'. pb_message_set_to_defaults 1 (\<lambda>_. None) (\<lambda>_. Some 7) [sample_fixed_count, last_field] 0x2000 = Some m' \<and>
     unat (data_size sample_fixed_count) * unat (array_size sample_fixed_count) = 2 \<and> m' 0x2002 = Some 0 \<and> m' 0x2003 = Some 0"
proof -
  have f: "ftype sample_fixed_count = 0x20" "tag sample_fixed_count = 1" "data_offset sample_fixed_count = 0"
    "size_offset sample_fixed_count = 0" "tag last_field = 0" "ptr sample_fixed_count = 0"
    by (simp_all add: sample_fixed_count_def last_field_def)
  have t: "PB_HTYPE 0x20 = PB_HTYPE_REPEATED" "PB_LTYPE 0x20 = PB_LTYPE_BOOL" "PB_ATYPE 0x20 = PB_ATYPE_STATIC"
    by (simp_all add: PB_HTYPE_def PB_LTYPE_def PB_ATYPE_def pb_ltypes pb_htypes pb_atypes)
  have ne: "PB_LTYPE_BOOL \<noteq> PB_LTYPE_EXTENSION" "PB_HTYPE_REPEATED \<noteq> PB_HTYPE_OPTIONAL"
    by (simp_all add: pb_ltypes pb_htypes)
  let ?it = "\<lparr>start = [sample_fixed_count, last_field], pos = 0, required_field_index = 0, dest_struct = 0x2000,
    pData = 0x2000, pSize = 0x2000\<rparr>"
  let ?m = "(\<lambda>_ :: u64. Some (7 :: byte))(0x2000 \<mapsto> 0, 0x2001 \<mapsto> 0, 0x2002 \<mapsto> 0, 0x2003 \<mapsto> 0)"
  have b: "pb_field_iter_begin [sample_fixed_count, last_field] 0x2000 = Some (True, ?it)"
    by (simp add: pb_field_iter_begin_def field_at_def f)
  have n: "pb_field_iter_next ?it = Some (False, ?it)"
    by (simp add: pb_field_iter_next_def field_at_def f b)
  have "le_bytes 4 0 = [0, 0, 0, 0]" by code_simp
  then have "store_word (\<lambda>_. Some 7) 0x2000 4 (0 :: u32) = Some ?m" by (simp add: store_word_def)
  then have "pb_field_set_to_default (Suc 0) (\<lambda>_. None) (\<lambda>_. Some 7) ?it = Some ?m"
    unfolding pb_field_set_to_default.simps(2) Let_def using t f ne by (simp add: field_at_def del: pb_field_set_to_default.simps)
  then have "pb_message_set_to_defaults 1 (\<lambda>_. None) (\<lambda>_. Some 7) [sample_fixed_count, last_field] 0x2000 = Some ?m"
    using b n by (simp add: pb_message_set_to_defaults_def set_message_defaults_def each_field.simps [of _ _ ?it]
        del: pb_field_set_to_default.simps)
  moreover have "unat (data_size sample_fixed_count) * unat (array_size sample_fixed_count) = 2"
    by (simp add: sample_fixed_count_def)
  ultimately show ?thesis by simp
qed

end
