(* ===== verification/Spec2Isabelle.thy ===== *)
theory Spec2Isabelle
  imports Mach_Exception Allocate Internal_Log Pb_Message_Safety
begin

text \<open>
  The repository is an iOS application; its C code is that of its pods.  This development models two
  of them.  The C core of the crash reporter (pod FirebaseCrashlytics) walks the stacks of all
  threads after a crash, in a process whose memory may be corrupt, and writes what it finds as lines
  of JSON; its signal and exception handlers start that and give the process back to the application.
  Paths below are relative to \<open>Crashlytics/Crashlytics\<close> in that pod.  The pod nanopb encodes
  the reports for upload, and decodes, as protocol buffers; its four C files are modelled in full.

  \<^bold>\<open>Parts and theories.\<close>

  \<^item> \<open>Prelude\<close>: machine types, the option monad, little-endian byte strings.
  \<^item> \<open>Task_Memory\<close> (\<open>Helpers/FIRCLSUtility\<close>): the memory of the process.  A direct load may fault; a
    checked read goes through the kernel and reports failure.  The locale \<open>task_memory\<close> is the
    contract of the kernel's read, discharged for memory given by a map of bytes.
  \<^item> \<open>Data_Parsing\<close> (\<open>Unwind/Dwarf/FIRCLSDataParsing.c\<close>): the readers of the DWARF sections.
  \<^item> \<open>Thread_State\<close> (\<open>Helpers/FIRCLSThreadState.c\<close>, register access in \<open>FIRCLSUnwind_x86.c\<close> and
    \<open>FIRCLSUnwind_arm.c\<close>): the register files; the locale \<open>thread_arch\<close> is what the unwinders rely on.
  \<^item> \<open>Dwarf_Expr\<close> (\<open>Unwind/Dwarf/FIRCLSDwarfExpressionMachine.c\<close>): the stack machine of DWARF
    expressions, refined from an abstract stack semantics.
  \<^item> \<open>Dwarf_Unwind\<close> (\<open>Unwind/Dwarf/FIRCLSDwarfUnwind.c\<close>): frame descriptions, call frame
    instructions and the registers they compute, against the table of DWARF 6.4.3 (\<open>std_run\<close>, with the location as
    a number that grows) and the callers' registers its rows give.  The code follows the table where a short advance is
    the first of its program and a CFA expression is not redefined (\<open>conforms\<close>), for a return address or a
    program counter at which no row starts (\<open>looked_up\<close>); the theorems on what happens elsewhere are named under the
    properties.
  \<^item> \<open>Compact_Unwind\<close> (\<open>Unwind/Compact/FIRCLSCompactUnwind.c\<close>): the two-level lookup of compact
    encodings and its fallback to DWARF.
  \<^item> \<open>Binary_Images\<close> (\<open>Components/FIRCLSBinaryImage\<close>, \<open>Unwind/FIRCLSUnwind.c\<close>): the table of loaded
    images and the search for code addresses on the stack.
  \<^item> \<open>Unwind_X86\<close>, \<open>Unwind_Arm\<close> (\<open>Unwind/FIRCLSUnwind_x86.c\<close>, \<open>FIRCLSUnwind_arm.c\<close>): one frame on
    each architecture: frame pointers, stack scanning, frameless functions, the link register.
  \<^item> \<open>Unwind\<close> (\<open>Unwind/FIRCLSUnwind.c\<close>): the walk.  Successive calls of \<open>FIRCLSUnwindNextFrame\<close> are
    the step relation \<open>walks\<close>; the locale \<open>frame_strategy\<close> is the contract of an architecture's
    frame step, interpreted for both, from which the walk along a chain of frames is proved once.
  \<^item> \<open>Report_File\<close> (\<open>Helpers/FIRCLSFile.m\<close>, its C functions): numbers, strings, collections and
    sections of the report, the write buffer and the retry loop of \<open>write\<close>.
  \<^item> \<open>Internal_Log\<close> (\<open>Helpers/FIRCLSInternalLogging.c\<close>): the log call with its own formatting, and what a format
    means.
  \<^item> \<open>Process_Record\<close> (\<open>Components/FIRCLSProcess.c\<close>): the threads of the process and the sections
    that record them; the kernel's calls are the record \<open>kernel\<close>.
  \<^item> \<open>Crash_Info\<close> (\<open>Components/FIRCLSProcess.c\<close>, \<open>FIRCLSRedactUUID\<close>): the messages of system
    libraries, redacted in place, so that the memory becomes a state.
  \<^item> \<open>Crash_Handler\<close> (\<open>Handlers/FIRCLSHandler.m\<close> and what it calls in \<open>FIRCLSHost.m\<close>, \<open>FIRCLSContext.m\<close>,
    \<open>FIRCLSFile.m\<close>, \<open>FIRCLSCrashedMarkerFile.c\<close>): the part all handlers share, from stopping the threads to
    resuming them.  The locale \<open>once_only\<close> is what handlers promise: nothing is recorded after a crash.
  \<^item> \<open>Signal_Handler\<close> (\<open>Handlers/FIRCLSSignal.c\<close>): installing, running and taking back the handlers of
    the fatal signals; the kernel's part is the record \<open>signals\<close>.
  \<^item> \<open>Mach_Exception\<close> (\<open>Handlers/FIRCLSMachException.c\<close>): exception ports, the server thread and its
    messages; signals and messages together are the step relation \<open>handler_step\<close>, which interprets
    \<open>once_only\<close>, and \<open>marks\<close> interleaves two threads that mark a crash.
  \<^item> \<open>Allocate\<close> (\<open>Helpers/FIRCLSAllocate.c\<close>): the crash-safe allocator; threads allocate at the same
    time, as interleavings of the two atomic steps of the allocation loop.

  \<^item> \<open>Pb_Input\<close> (\<open>pb_decode.c\<close>): input streams.  The locale \<open>pb_input\<close> is the contract of a stream's
    callback, which delivers the bytes to come in order; it is interpreted for memory buffers.
  \<^item> \<open>Pb_Decode\<close> (\<open>pb_decode.c\<close>): varints, fixed-size numbers, tags, skipping and substreams.
  \<^item> \<open>Pb_Encode\<close> (\<open>pb_encode.c\<close>): output streams and the writers of the wire format.  The locale
    \<open>pb_output\<close> is the contract of a callback, which writes what it is given while there is room;
    \<open>emits\<close> is the specification of a writer: what it writes with room, what without, and what a
    sizing stream counts.
  \<^item> \<open>Pb_Field\<close> (\<open>pb_common.c\<close> and the field coders): field tables, their iterator, and the encoder and
    decoder of each value type.
  \<^item> \<open>Pb_Message\<close> (\<open>pb_encode.c\<close>): the message encoder, with a reference encoder \<open>message_bytes\<close> that is
    a function of the memory alone.  It covers submessages, arrays and lists of extensions with the default encoder;
    a message with a callback or with an extension that has an \<open>encode\<close> function of its own has no reference
    encoding.
  \<^item> \<open>Pb_Message_Decode\<close> (\<open>pb_decode.c\<close>): the message decoder, default values and releasing.
  \<^item> \<open>Pb_Table\<close>: the layout a field table describes, and what the iterator of \<open>pb_common.c\<close> and the
    count of required fields do on it.
  \<^item> \<open>Pb_Items\<close>: what an input means: a list of items (values, submessages, unknown fields) with their
    encoding and their effect on memory, which the decoder refines.
  \<^item> \<open>Pb_Safety\<close>, \<open>Pb_Message_Safety\<close>: the decoder on arbitrary input.  The locale \<open>pb_reader\<close> is
    what any readable source grants, interpreted for memory buffers; \<open>footprint\<close> is the set of bytes of
    a message, outside which nothing is written.  An array of fixed count has no count of its own there, so the theorem
    asks that it has the four bytes that setting it to its default writes; \<open>fixed_count_overrun\<close> is a shorter one.

  \<^bold>\<open>Conventions.\<close>  The outer option is the behaviour of the machine: \<^term>\<open>None\<close> is a faulting load or
  undefined behaviour.  A return value \<open>false\<close> is a boolean in the result, next to the updated
  arguments.  A pointer to a struct that the code owns is threaded as a value, so the guards on such
  pointers hold; pointers into the process are 64-bit words.  Signed arithmetic that the compilers
  for these targets wrap is modelled as wrapping.  Constants of the SDK headers are records
  (\<open>unwind_abi\<close>, \<open>x86_encoding\<close>, \<open>arm_encoding\<close>) with the documented values as instances.  Calls of the
  internal log are left out, except where an argument of the call has an effect.  The targets are 64-bit,
  little endian, without pointer authentication on x86-64 and with it on arm64.

  \<^bold>\<open>Bounds and loops.\<close>  The readers of variable-length numbers are limited to 8 bytes by the code.
  The evaluation loop of expressions and the enumeration loop of instructions consume a byte in each
  round, which is the measure of their recursion.  The walk of the frames and the loop that records
  it are \<open>partial_function\<close>s or relations without fuel; that they end is proved (\<open>walk_bounded\<close>,
  \<open>record_thread_returns\<close>) from the limit of 600000 frames of the desktop build.  The allocation
  loop is a step function of one thread; that a call returns in at most \<open>2 * n\<close> steps among \<open>n\<close>
  threads is \<open>allocation_returns\<close>.  The encoder and decoder of messages recurse on the nesting of
  submessages with a depth as fuel, 0 of which is \<^term>\<open>None\<close>: the theorems ask for a depth of at least
  the nesting of the field tables, and prove that the result is then not \<^term>\<open>None\<close>.  The loops over
  the input need no fuel; that they end is part of \<open>pb_decode_items\<close> and \<open>pb_decode_safe\<close>.

  \<^bold>\<open>Properties.\<close>  Round trips of the encodings (variable-length numbers, frame descriptions,
  permutations of saved registers); refinement of the expression machine, the call frame programs
  and the walk from abstract specifications, on both architectures and down to the bytes in memory;
  correctness of the searches; invariants of the bounded buffers and tables; which frames a walk
  visits, that each is valid, and that it ends; that every section of the report is one line of JSON
  whatever fails while it is produced; that buffering loses nothing as long as every write takes all it is given (the
  report is a string in the other theories: failures of \<open>write\<close> are not modelled there); what redaction does to
  a string; that a fatal signal and an exception are recorded as exactly these lines, once per process,
  and when actions, stacks and exception ports of the application are given back; what the internal log prints; that
  concurrent allocations are disjoint and return.  Of nanopb: that the encoder writes exactly the
  reference encoding, computes its size when sizing and never overruns a full buffer; the round trips
  of numbers and values; that the decoder does what the items of the input say and succeeds exactly if
  every required field occurs; that on any input it returns and writes only the message.  Some theorems state what the code does where that
  differs from what it is meant to do: \<open>second_advance_diverges\<close>, \<open>boundary_row_late\<close>, \<open>expression_kept\<close>, \<open>last_function_not_found\<close>,
  \<open>recursion_collapsed\<close>, \<open>stats_line\<close>, \<open>time_entry_exact\<close>, \<open>read_string_safe\<close>, \<open>suspend_others\<close>, \<open>handlers_lost\<close>,
  \<open>both_threads_record\<close>, \<open>fixed_count_overrun\<close>, \<open>failed_write\<close>, \<open>exception_codes_not_logged\<close>.

  \<^bold>\<open>Not modelled.\<close>  Of \<open>FIRCLSProcess.c\<close> the debugger check, which is one system call; of
  \<open>FIRCLSFile.m\<close> reading files and the failures of \<open>close\<close>; the profiling helpers, which
  compute with floating-point times for log lines; the 32-bit targets.  That a signal arrives while a handler runs is not modelled
  beyond the race for the mark: a handler is one step.  Exceptions of C++ and Objective-C are caught by code in those languages.
  The remaining C code of the pods is general-purpose third-party software
  (BoringSSL, gRPC, leveldb) that the application only links; the application itself is Swift.
\<close>

end
